(* ===== verification/Prelude.thy ===== *)
theory Prelude
  imports Main "HOL-Library.Word"
begin

text \<open>
  What every component shares: the byte and machine-word types, the error values that a
  \<open>longjmp\<close> of the C code or a failed assertion becomes, the sequencing of fallible steps,
  checked reads and writes of arrays, and the collections that the component proofs use.
\<close>

unbundle bit_operations_syntax

type_synonym byte = "8 word"
type_synonym u32 = "32 word"

text \<open>
  \<open>lua_status\<close> are the error codes of \<open>lua.h\<close>. \<open>LuaError\<close> is a
  \<open>luaD_throw\<close> with the message that was pushed; \<open>UB\<close> marks a step that the C
  standard leaves undefined (a read or a write outside an object, a violated
  \<open>lua_assert\<close>), so that the absence of \<open>UB\<close> is a provable property of the code
  and not an assumption of the model.
\<close>

text \<open>\<open>MAX_INT\<close> of \<open>llimits.h\<close>, two less than the largest \<open>int\<close>.\<close>

definition MAX_INT :: int where "MAX_INT = 2147483645"

datatype lua_status = LUA_ERRRUN | LUA_ERRSYNTAX | LUA_ERRMEM | LUA_ERRERR

datatype lua_error = LuaError lua_status string | UB string

type_synonym 'a res = "lua_error + 'a"

definition rbind :: "'e + 'a \<Rightarrow> ('a \<Rightarrow> 'e + 'b) \<Rightarrow> 'e + 'b" where
  "rbind m f = (case m of Inl e \<Rightarrow> Inl e | Inr a \<Rightarrow> f a)"

definition rmap :: "('a \<Rightarrow> 'b) \<Rightarrow> 'e + 'a \<Rightarrow> 'e + 'b" where
  "rmap f m = rbind m (\<lambda>a. Inr (f a))"

definition err_UB :: "lua_error \<Rightarrow> bool" where
  "err_UB e = (case e of UB _ \<Rightarrow> True | _ \<Rightarrow> False)"

definition is_UB :: "'a res \<Rightarrow> bool" where
  "is_UB r = (case r of Inl e \<Rightarrow> err_UB e | Inr _ \<Rightarrow> False)"

text \<open>Checked array access: a C array of \<open>length xs\<close> elements, indexed by an \<open>int\<close>.\<close>

definition aget :: "'a list \<Rightarrow> int \<Rightarrow> 'a res" where
  "aget xs i = (if 0 \<le> i \<and> i < int (length xs) then Inr (xs ! nat i) else Inl (UB ''array read''))"

definition aput :: "'a list \<Rightarrow> int \<Rightarrow> 'a \<Rightarrow> 'a list res" where
  "aput xs i x = (if 0 \<le> i \<and> i < int (length xs) then Inr (xs[nat i := x])
                  else Inl (UB ''array write''))"

named_theorems res_simps \<open>evaluation of fallible steps\<close>

lemma rbind_simps [simp, res_simps]:
  "rbind (Inl e) f = Inl e" "rbind (Inr a) f = f a"
  by (simp_all add: rbind_def)

lemma rmap_simps [simp, res_simps]:
  "rmap f (Inl e) = Inl e" "rmap f (Inr a) = Inr (f a)"
  by (simp_all add: rmap_def)

lemma rbind_cong [fundef_cong]:
  "m = m' \<Longrightarrow> (\<And>a. m' = Inr a \<Longrightarrow> f a = f' a) \<Longrightarrow> rbind m f = rbind m' f'"
  by (cases m') (auto simp: rbind_def)

lemma rbind_Inr_iff [res_simps]: "rbind m f = Inr b \<longleftrightarrow> (\<exists>a. m = Inr a \<and> f a = Inr b)"
  by (cases m) auto

lemma rbind_Inl_iff: "rbind m f = Inl e \<longleftrightarrow> m = Inl e \<or> (\<exists>a. m = Inr a \<and> f a = Inl e)"
  by (cases m) auto

lemma rbind_assoc: "rbind (rbind m f) g = rbind m (\<lambda>a. rbind (f a) g)"
  by (cases m) auto

lemma rbind_Inr_right [simp]: "rbind m (\<lambda>a. Inr a) = m" "rbind m Inr = m"
  by (cases m; simp)+

lemma rbind_InrE [elim!]:
  assumes "rbind m f = Inr b" obtains a where "m = Inr a" "f a = Inr b"
  using assms by (cases m) auto

lemma rmap_Inr_iff [res_simps]: "rmap f m = Inr b \<longleftrightarrow> (\<exists>a. m = Inr a \<and> b = f a)"
  by (cases m) auto

lemma is_UB_simps [simp]:
  "is_UB (Inr a) = False" "is_UB (Inl e) = err_UB e"
  "err_UB (UB s) = True" "err_UB (LuaError st m) = False"
  by (simp_all add: is_UB_def err_UB_def)

lemma is_UB_rmap [simp]: "is_UB (rmap f m) = is_UB m"
  by (cases m) simp_all

lemma not_UB_rbind:
  "\<not> is_UB m \<Longrightarrow> (\<And>a. m = Inr a \<Longrightarrow> \<not> is_UB (f a)) \<Longrightarrow> \<not> is_UB (rbind m f)"
  by (cases m) auto

lemma is_UB_rbind: "is_UB (rbind m f) \<longleftrightarrow> is_UB m \<or> (\<exists>a. m = Inr a \<and> is_UB (f a))"
  by (cases m) simp_all

lemma aget_Inr [simp]: "aget xs i = Inr x \<longleftrightarrow> 0 \<le> i \<and> i < int (length xs) \<and> x = xs ! nat i"
  by (auto simp: aget_def)

lemma aput_Inr [simp]:
  "aput xs i x = Inr ys \<longleftrightarrow> 0 \<le> i \<and> i < int (length xs) \<and> ys = xs[nat i := x]"
  by (auto simp: aput_def)

lemma aget_in: "0 \<le> i \<Longrightarrow> i < int (length xs) \<Longrightarrow> aget xs i = Inr (xs ! nat i)"
  by simp

lemma aput_in: "0 \<le> i \<Longrightarrow> i < int (length xs) \<Longrightarrow> aput xs i x = Inr (xs[nat i := x])"
  by simp

lemma aget_UB_iff [simp]: "is_UB (aget xs i) \<longleftrightarrow> \<not> (0 \<le> i \<and> i < int (length xs))"
  by (simp add: aget_def)

text \<open>
  \<open>okr P r\<close>: the step \<open>r\<close> is defined, and its value, when it has one, satisfies \<open>P\<close>.
\<close>

definition okr :: "('a \<Rightarrow> bool) \<Rightarrow> 'a res \<Rightarrow> bool" where
  "okr P r = (case r of Inl e \<Rightarrow> \<not> err_UB e | Inr a \<Rightarrow> P a)"

lemma ok_simps [simp]: "okr P (Inr a) = P a" "okr P (Inl e) = (\<not> err_UB e)"
  by (simp_all add: okr_def)

lemma ok_rbind: "okr P m \<Longrightarrow> (\<And>a. m = Inr a \<Longrightarrow> P a \<Longrightarrow> okr Q (f a)) \<Longrightarrow> okr Q (rbind m f)"
  by (cases m) auto

lemma ok_rmap [simp]: "okr P (rmap f m) = okr (\<lambda>a. P (f a)) m"
  by (cases m) simp_all

lemma ok_mono: "okr P m \<Longrightarrow> (\<And>a. m = Inr a \<Longrightarrow> P a \<Longrightarrow> Q a) \<Longrightarrow> okr Q m"
  by (cases m) auto

lemma ok_if: "(b \<Longrightarrow> okr P x) \<Longrightarrow> (\<not> b \<Longrightarrow> okr P y) \<Longrightarrow> okr P (if b then x else y)"
  by simp

lemma ok_not_UB: "okr P m \<Longrightarrow> \<not> is_UB m"
  by (cases m) auto

lemma ok_conj: "okr P m \<Longrightarrow> okr Q m \<Longrightarrow> okr (\<lambda>a. P a \<and> Q a) m"
  by (cases m) auto

lemma ok_InrD: "okr P m \<Longrightarrow> m = Inr a \<Longrightarrow> P a"
  by simp

lemma ok_aget: "0 \<le> i \<Longrightarrow> i < int (length xs) \<Longrightarrow> okr (\<lambda>x. x = xs ! nat i) (aget xs i)"
  by (simp add: aget_def)

end
