(* ===== verification/Opcodes.thy ===== *)
theory Opcodes
  imports Prelude
begin

text \<open>
  The instruction format of \<open>lua/lopcodes.h\<close> and the property table of
  \<open>lua/lopcodes.c\<close>: 32-bit words with a 6-bit opcode and the fields A (8 bits), B and C
  (9 bits each), or Bx (B and C together), or sBx (Bx in excess \<open>MAXARG_sBx\<close>). The
  macros keep the shape they have in C: masks built by complement and shift, reads by shift
  and mask, writes by clearing the field and or-ing the new value in.
\<close>

type_synonym Instruction = "32 word"

definition SIZE_C :: nat where "SIZE_C = 9"
definition SIZE_B :: nat where "SIZE_B = 9"
definition SIZE_Bx :: nat where "SIZE_Bx = SIZE_C + SIZE_B"
definition SIZE_A :: nat where "SIZE_A = 8"
definition SIZE_OP :: nat where "SIZE_OP = 6"
definition POS_OP :: nat where "POS_OP = 0"
definition POS_A :: nat where "POS_A = POS_OP + SIZE_OP"
definition POS_C :: nat where "POS_C = POS_A + SIZE_A"
definition POS_B :: nat where "POS_B = POS_C + SIZE_C"
definition POS_Bx :: nat where "POS_Bx = POS_C"

lemmas field_layout = SIZE_C_def SIZE_B_def SIZE_Bx_def SIZE_A_def SIZE_OP_def
  POS_OP_def POS_A_def POS_C_def POS_B_def POS_Bx_def

definition MAXARG_Bx :: int where "MAXARG_Bx = 2 ^ SIZE_Bx - 1"
definition MAXARG_sBx :: int where "MAXARG_sBx = MAXARG_Bx div 2"
definition MAXARG_A :: int where "MAXARG_A = 2 ^ SIZE_A - 1"
definition MAXARG_B :: int where "MAXARG_B = 2 ^ SIZE_B - 1"
definition MAXARG_C :: int where "MAXARG_C = 2 ^ SIZE_C - 1"

lemma maxarg_values [simp]:
  "MAXARG_Bx = 262143" "MAXARG_sBx = 131071" "MAXARG_A = 255" "MAXARG_B = 511" "MAXARG_C = 511"
  by (simp_all add: MAXARG_Bx_def MAXARG_sBx_def MAXARG_A_def MAXARG_B_def MAXARG_C_def
        field_layout)

definition MASK1 :: "nat \<Rightarrow> nat \<Rightarrow> Instruction" where
  "MASK1 n p = push_bit p (NOT (push_bit n (NOT 0)))"

definition MASK0 :: "nat \<Rightarrow> nat \<Rightarrow> Instruction" where
  "MASK0 n p = NOT (MASK1 n p)"

definition getfield :: "nat \<Rightarrow> nat \<Rightarrow> Instruction \<Rightarrow> int" where
  "getfield n p i = uint (drop_bit p i AND MASK1 n 0)"

definition setfield :: "nat \<Rightarrow> nat \<Rightarrow> Instruction \<Rightarrow> int \<Rightarrow> Instruction" where
  "setfield n p i u = (i AND MASK0 n p) OR (push_bit p (word_of_int u) AND MASK1 n p)"

definition GET_OPCODE :: "Instruction \<Rightarrow> int" where "GET_OPCODE = getfield SIZE_OP POS_OP"
definition SET_OPCODE :: "Instruction \<Rightarrow> int \<Rightarrow> Instruction" where
  "SET_OPCODE = setfield SIZE_OP POS_OP"
definition GETARG_A :: "Instruction \<Rightarrow> int" where "GETARG_A = getfield SIZE_A POS_A"
definition SETARG_A :: "Instruction \<Rightarrow> int \<Rightarrow> Instruction" where
  "SETARG_A = setfield SIZE_A POS_A"
definition GETARG_B :: "Instruction \<Rightarrow> int" where "GETARG_B = getfield SIZE_B POS_B"
definition SETARG_B :: "Instruction \<Rightarrow> int \<Rightarrow> Instruction" where
  "SETARG_B = setfield SIZE_B POS_B"
definition GETARG_C :: "Instruction \<Rightarrow> int" where "GETARG_C = getfield SIZE_C POS_C"
definition SETARG_C :: "Instruction \<Rightarrow> int \<Rightarrow> Instruction" where
  "SETARG_C = setfield SIZE_C POS_C"
definition GETARG_Bx :: "Instruction \<Rightarrow> int" where "GETARG_Bx = getfield SIZE_Bx POS_Bx"
definition SETARG_Bx :: "Instruction \<Rightarrow> int \<Rightarrow> Instruction" where
  "SETARG_Bx = setfield SIZE_Bx POS_Bx"
definition GETARG_sBx :: "Instruction \<Rightarrow> int" where "GETARG_sBx i = GETARG_Bx i - MAXARG_sBx"
definition SETARG_sBx :: "Instruction \<Rightarrow> int \<Rightarrow> Instruction" where
  "SETARG_sBx i b = SETARG_Bx i (b + MAXARG_sBx)"

definition CREATE_ABC :: "int \<Rightarrow> int \<Rightarrow> int \<Rightarrow> int \<Rightarrow> Instruction" where
  "CREATE_ABC o' a b c = push_bit POS_OP (word_of_int o') OR push_bit POS_A (word_of_int a)
     OR push_bit POS_B (word_of_int b) OR push_bit POS_C (word_of_int c)"

definition CREATE_ABx :: "int \<Rightarrow> int \<Rightarrow> int \<Rightarrow> Instruction" where
  "CREATE_ABx o' a bc = push_bit POS_OP (word_of_int o') OR push_bit POS_A (word_of_int a)
     OR push_bit POS_Bx (word_of_int bc)"

text \<open>Register-or-constant operands: bit 8 of a 9-bit operand marks a constant.\<close>

definition BITRK :: int where "BITRK = 2 ^ (SIZE_B - 1)"
definition ISK :: "int \<Rightarrow> bool" where "ISK x \<longleftrightarrow> x AND BITRK \<noteq> 0"
definition INDEXK :: "int \<Rightarrow> int" where "INDEXK r = r AND NOT BITRK"
definition MAXINDEXRK :: int where "MAXINDEXRK = BITRK - 1"
definition RKASK :: "int \<Rightarrow> int" where "RKASK x = x OR BITRK"
definition NO_REG :: int where "NO_REG = MAXARG_A"

lemma MASK1_mask: "MASK1 n p = push_bit p (mask n)"
proof -
  have "NOT (push_bit n (NOT 0)) = (mask n :: Instruction)"
    by (rule bit_word_eqI) (simp add: bit_simps)
  then show ?thesis by (simp add: MASK1_def)
qed

text \<open>
  Every field read is a block of bits of the word, and every field write replaces exactly
  that block: the two facts all the field laws below come from.
\<close>

lemma getfield_take: "getfield n p i = uint (take_bit n (drop_bit p i))"
  by (simp add: getfield_def MASK1_mask take_bit_eq_mask)

lemma getfield_range: "0 \<le> getfield n p i" "n \<le> 32 \<Longrightarrow> getfield n p i < 2 ^ n"
proof -
  show "0 \<le> getfield n p i" by (simp add: getfield_def)
  have "take_bit n (uint (drop_bit p i)) < 2 ^ n" by (rule take_bit_int_less_exp)
  then show "getfield n p i < 2 ^ n"
    by (simp add: getfield_take unsigned_take_bit_eq)
qed

lemma bit_setfield:
  "bit (setfield n p i u) k \<longleftrightarrow>
     k < 32 \<and> (if p \<le> k \<and> k < p + n then bit u (k - p) else bit i k)"
  by (auto simp: setfield_def MASK0_def MASK1_mask bit_simps)

lemma getfield_setfield_same:
  assumes "n + p \<le> 32" "0 \<le> u" "u < 2 ^ n"
  shows "getfield n p (setfield n p i u) = u"
proof -
  have "take_bit n u = u" using assms by (simp add: take_bit_int_eq_self)
  have "getfield n p (setfield n p i u) = take_bit n u"
    unfolding getfield_take
    by (rule bit_eqI) (use assms in \<open>auto simp: bit_simps bit_setfield\<close>)
  then show ?thesis using \<open>take_bit n u = u\<close> by simp
qed

lemma getfield_setfield_other:
  assumes "q + m \<le> p \<or> p + n \<le> q"
  shows "getfield m q (setfield n p i u) = getfield m q i"
proof -
  have "take_bit m (drop_bit q (setfield n p i u)) = take_bit m (drop_bit q i)"
    by (rule bit_word_eqI)
       (use assms in \<open>auto simp: bit_simps bit_setfield dest: bit_imp_le_length\<close>)
  then show ?thesis by (simp add: getfield_take)
qed


lemmas field_defs = GET_OPCODE_def SET_OPCODE_def GETARG_A_def SETARG_A_def GETARG_B_def
  SETARG_B_def GETARG_C_def SETARG_C_def GETARG_Bx_def SETARG_Bx_def

text \<open>The opcodes, in the order of the enumeration, and the argument-mode enumerations.\<close>

datatype OpCode =
   OP_MOVE | OP_LOADK | OP_LOADBOOL | OP_LOADNIL | OP_GETUPVAL | OP_GETGLOBAL | OP_GETTABLE |
   OP_SETGLOBAL | OP_SETUPVAL | OP_SETTABLE | OP_NEWTABLE | OP_SELF | OP_ADD | OP_SUB | OP_MUL |
   OP_DIV | OP_MOD | OP_POW | OP_UNM | OP_NOT | OP_LEN | OP_CONCAT | OP_JMP | OP_EQ | OP_LT |
   OP_LE | OP_TEST | OP_TESTSET | OP_CALL | OP_TAILCALL | OP_RETURN | OP_FORLOOP | OP_FORPREP |
   OP_TFORLOOP | OP_SETLIST | OP_CLOSE | OP_CLOSURE | OP_VARARG

definition all_opcodes :: "OpCode list" where
  "all_opcodes =
   [OP_MOVE, OP_LOADK, OP_LOADBOOL, OP_LOADNIL, OP_GETUPVAL, OP_GETGLOBAL, OP_GETTABLE,
   OP_SETGLOBAL, OP_SETUPVAL, OP_SETTABLE, OP_NEWTABLE, OP_SELF, OP_ADD, OP_SUB, OP_MUL, OP_DIV,
   OP_MOD, OP_POW, OP_UNM, OP_NOT, OP_LEN, OP_CONCAT, OP_JMP, OP_EQ, OP_LT, OP_LE, OP_TEST,
   OP_TESTSET, OP_CALL, OP_TAILCALL, OP_RETURN, OP_FORLOOP, OP_FORPREP, OP_TFORLOOP, OP_SETLIST,
   OP_CLOSE, OP_CLOSURE, OP_VARARG]"

definition NUM_OPCODES :: int where "NUM_OPCODES = 38"

primrec opnum :: "OpCode \<Rightarrow> int" where
  "opnum OP_MOVE = 0"
| "opnum OP_LOADK = 1"
| "opnum OP_LOADBOOL = 2"
| "opnum OP_LOADNIL = 3"
| "opnum OP_GETUPVAL = 4"
| "opnum OP_GETGLOBAL = 5"
| "opnum OP_GETTABLE = 6"
| "opnum OP_SETGLOBAL = 7"
| "opnum OP_SETUPVAL = 8"
| "opnum OP_SETTABLE = 9"
| "opnum OP_NEWTABLE = 10"
| "opnum OP_SELF = 11"
| "opnum OP_ADD = 12"
| "opnum OP_SUB = 13"
| "opnum OP_MUL = 14"
| "opnum OP_DIV = 15"
| "opnum OP_MOD = 16"
| "opnum OP_POW = 17"
| "opnum OP_UNM = 18"
| "opnum OP_NOT = 19"
| "opnum OP_LEN = 20"
| "opnum OP_CONCAT = 21"
| "opnum OP_JMP = 22"
| "opnum OP_EQ = 23"
| "opnum OP_LT = 24"
| "opnum OP_LE = 25"
| "opnum OP_TEST = 26"
| "opnum OP_TESTSET = 27"
| "opnum OP_CALL = 28"
| "opnum OP_TAILCALL = 29"
| "opnum OP_RETURN = 30"
| "opnum OP_FORLOOP = 31"
| "opnum OP_FORPREP = 32"
| "opnum OP_TFORLOOP = 33"
| "opnum OP_SETLIST = 34"
| "opnum OP_CLOSE = 35"
| "opnum OP_CLOSURE = 36"
| "opnum OP_VARARG = 37"

definition opcode_of :: "int \<Rightarrow> OpCode option" where
  "opcode_of n = (if 0 \<le> n \<and> n < NUM_OPCODES then Some (all_opcodes ! nat n) else None)"

datatype OpMode = iABC | iABx | iAsBx

datatype OpArgMask = OpArgN | OpArgU | OpArgR | OpArgK

primrec opmode_num :: "OpMode \<Rightarrow> int" where
  "opmode_num iABC = 0"
| "opmode_num iABx = 1"
| "opmode_num iAsBx = 2"

primrec opargmask_num :: "OpArgMask \<Rightarrow> int" where
  "opargmask_num OpArgN = 0"
| "opargmask_num OpArgU = 1"
| "opargmask_num OpArgR = 2"
| "opargmask_num OpArgK = 3"

definition opmode :: "int \<Rightarrow> int \<Rightarrow> OpArgMask \<Rightarrow> OpArgMask \<Rightarrow> OpMode \<Rightarrow> int" where
  "opmode t a b c m = push_bit 7 t OR push_bit 6 a OR push_bit 4 (opargmask_num b)
     OR push_bit 2 (opargmask_num c) OR opmode_num m"

definition luaP_opmodes :: "int list" where
  "luaP_opmodes =
   [opmode 0 1 OpArgR OpArgN iABC  \<comment> \<open>OP_MOVE\<close>,
    opmode 0 1 OpArgK OpArgN iABx  \<comment> \<open>OP_LOADK\<close>,
    opmode 0 1 OpArgU OpArgU iABC  \<comment> \<open>OP_LOADBOOL\<close>,
    opmode 0 1 OpArgR OpArgN iABC  \<comment> \<open>OP_LOADNIL\<close>,
    opmode 0 1 OpArgU OpArgN iABC  \<comment> \<open>OP_GETUPVAL\<close>,
    opmode 0 1 OpArgK OpArgN iABx  \<comment> \<open>OP_GETGLOBAL\<close>,
    opmode 0 1 OpArgR OpArgK iABC  \<comment> \<open>OP_GETTABLE\<close>,
    opmode 0 0 OpArgK OpArgN iABx  \<comment> \<open>OP_SETGLOBAL\<close>,
    opmode 0 0 OpArgU OpArgN iABC  \<comment> \<open>OP_SETUPVAL\<close>,
    opmode 0 0 OpArgK OpArgK iABC  \<comment> \<open>OP_SETTABLE\<close>,
    opmode 0 1 OpArgU OpArgU iABC  \<comment> \<open>OP_NEWTABLE\<close>,
    opmode 0 1 OpArgR OpArgK iABC  \<comment> \<open>OP_SELF\<close>,
    opmode 0 1 OpArgK OpArgK iABC  \<comment> \<open>OP_ADD\<close>,
    opmode 0 1 OpArgK OpArgK iABC  \<comment> \<open>OP_SUB\<close>,
    opmode 0 1 OpArgK OpArgK iABC  \<comment> \<open>OP_MUL\<close>,
    opmode 0 1 OpArgK OpArgK iABC  \<comment> \<open>OP_DIV\<close>,
    opmode 0 1 OpArgK OpArgK iABC  \<comment> \<open>OP_MOD\<close>,
    opmode 0 1 OpArgK OpArgK iABC  \<comment> \<open>OP_POW\<close>,
    opmode 0 1 OpArgR OpArgN iABC  \<comment> \<open>OP_UNM\<close>,
    opmode 0 1 OpArgR OpArgN iABC  \<comment> \<open>OP_NOT\<close>,
    opmode 0 1 OpArgR OpArgN iABC  \<comment> \<open>OP_LEN\<close>,
    opmode 0 1 OpArgR OpArgR iABC  \<comment> \<open>OP_CONCAT\<close>,
    opmode 0 0 OpArgR OpArgN iAsBx  \<comment> \<open>OP_JMP\<close>,
    opmode 1 0 OpArgK OpArgK iABC  \<comment> \<open>OP_EQ\<close>,
    opmode 1 0 OpArgK OpArgK iABC  \<comment> \<open>OP_LT\<close>,
    opmode 1 0 OpArgK OpArgK iABC  \<comment> \<open>OP_LE\<close>,
    opmode 1 1 OpArgR OpArgU iABC  \<comment> \<open>OP_TEST\<close>,
    opmode 1 1 OpArgR OpArgU iABC  \<comment> \<open>OP_TESTSET\<close>,
    opmode 0 1 OpArgU OpArgU iABC  \<comment> \<open>OP_CALL\<close>,
    opmode 0 1 OpArgU OpArgU iABC  \<comment> \<open>OP_TAILCALL\<close>,
    opmode 0 0 OpArgU OpArgN iABC  \<comment> \<open>OP_RETURN\<close>,
    opmode 0 1 OpArgR OpArgN iAsBx  \<comment> \<open>OP_FORLOOP\<close>,
    opmode 0 1 OpArgR OpArgN iAsBx  \<comment> \<open>OP_FORPREP\<close>,
    opmode 1 0 OpArgN OpArgU iABC  \<comment> \<open>OP_TFORLOOP\<close>,
    opmode 0 0 OpArgU OpArgU iABC  \<comment> \<open>OP_SETLIST\<close>,
    opmode 0 0 OpArgN OpArgN iABC  \<comment> \<open>OP_CLOSE\<close>,
    opmode 0 1 OpArgU OpArgN iABx  \<comment> \<open>OP_CLOSURE\<close>,
    opmode 0 1 OpArgU OpArgN iABC  \<comment> \<open>OP_VARARG\<close>]"

definition getOpMode :: "OpCode \<Rightarrow> int" where
  "getOpMode m = luaP_opmodes ! nat (opnum m) AND 3"
definition getBMode :: "OpCode \<Rightarrow> int" where
  "getBMode m = drop_bit 4 (luaP_opmodes ! nat (opnum m)) AND 3"
definition getCMode :: "OpCode \<Rightarrow> int" where
  "getCMode m = drop_bit 2 (luaP_opmodes ! nat (opnum m)) AND 3"
definition testAMode :: "OpCode \<Rightarrow> bool" where
  "testAMode m \<longleftrightarrow> luaP_opmodes ! nat (opnum m) AND push_bit 6 1 \<noteq> 0"
definition testTMode :: "OpCode \<Rightarrow> bool" where
  "testTMode m \<longleftrightarrow> luaP_opmodes ! nat (opnum m) AND push_bit 7 1 \<noteq> 0"

definition has_op :: "Instruction \<Rightarrow> OpCode \<Rightarrow> bool" where
  "has_op i m \<longleftrightarrow> GET_OPCODE i = opnum m"

text \<open>\<open>LUA_MULTRET\<close> of \<open>lua.h\<close> and \<open>MAXSTACK\<close> of \<open>llimits.h\<close>.\<close>

definition LUA_MULTRET :: int where "LUA_MULTRET = - 1"
definition MAXSTACK :: int where "MAXSTACK = 250"

definition LFIELDS_PER_FLUSH :: int where "LFIELDS_PER_FLUSH = 50"

lemma opnum_range: "0 \<le> opnum m" "opnum m < NUM_OPCODES"
  by (cases m; simp add: NUM_OPCODES_def)+

lemma opcode_of_opnum [simp]: "opcode_of (opnum m) = Some m"
  by (cases m; simp add: opcode_of_def NUM_OPCODES_def all_opcodes_def)

lemma opnum_inj: "opnum m = opnum m' \<longleftrightarrow> m = m'"
  by (metis opcode_of_opnum option.inject)

lemma testTMode_iff:
  "testTMode m \<longleftrightarrow> m \<in> {OP_EQ, OP_LT, OP_LE, OP_TEST, OP_TESTSET, OP_TFORLOOP}"
  by (cases m; simp add: testTMode_def luaP_opmodes_def opmode_def; code_simp)


subsection \<open>Laws of the instruction fields\<close>

lemma getfield_create_block:
  assumes "n + p \<le> 32" "0 \<le> u" "u < 2 ^ n"
    and "\<And>k. p \<le> k \<Longrightarrow> k < p + n \<Longrightarrow> bit w k \<longleftrightarrow> bit u (k - p)"
  shows "getfield n p w = u"
proof -
  have "getfield n p w = take_bit n u"
    unfolding getfield_take
    by (rule bit_eqI) (use assms in \<open>auto simp: bit_simps\<close>)
  then show ?thesis using assms by (simp add: take_bit_int_eq_self)
qed

lemma bit_small: "0 \<le> u \<Longrightarrow> u < 2 ^ n \<Longrightarrow> n \<le> k \<Longrightarrow> \<not> bit (u :: int) k"
  by (metis bit_take_bit_iff leD take_bit_int_eq_self)

text \<open>
  Decoding a packed instruction gives back its operands, for both layouts. The opcode field
  holds six bits, so every opcode number below 64 survives.
\<close>

lemma CREATE_ABC_fields:
  assumes "0 \<le> op" "op < 64" "0 \<le> a" "a \<le> MAXARG_A" "0 \<le> b" "b \<le> MAXARG_B"
    "0 \<le> c" "c \<le> MAXARG_C"
  shows "GET_OPCODE (CREATE_ABC op a b c) = op" "GETARG_A (CREATE_ABC op a b c) = a"
    "GETARG_B (CREATE_ABC op a b c) = b" "GETARG_C (CREATE_ABC op a b c) = c"
proof -
  have o: "\<not> bit op k" if "6 \<le> k" for k using bit_small [of op 6] assms that by auto
  have a: "\<not> bit a k" if "8 \<le> k" for k using bit_small [of a 8] assms that by auto
  have b: "\<not> bit b k" if "9 \<le> k" for k using bit_small [of b 9] assms that by auto
  have c: "\<not> bit c k" if "9 \<le> k" for k using bit_small [of c 9] assms that by auto
  note bits = CREATE_ABC_def bit_simps field_layout o a b c
  show "GET_OPCODE (CREATE_ABC op a b c) = op"
    unfolding field_defs by (rule getfield_create_block) (use assms in \<open>auto simp: bits\<close>)
  show "GETARG_A (CREATE_ABC op a b c) = a"
    unfolding field_defs by (rule getfield_create_block) (use assms in \<open>auto simp: bits\<close>)
  show "GETARG_B (CREATE_ABC op a b c) = b"
    unfolding field_defs by (rule getfield_create_block) (use assms in \<open>auto simp: bits\<close>)
  show "GETARG_C (CREATE_ABC op a b c) = c"
    unfolding field_defs by (rule getfield_create_block) (use assms in \<open>auto simp: bits\<close>)
qed

lemma CREATE_ABx_fields:
  assumes "0 \<le> op" "op < 64" "0 \<le> a" "a \<le> MAXARG_A" "0 \<le> bx" "bx \<le> MAXARG_Bx"
  shows "GET_OPCODE (CREATE_ABx op a bx) = op" "GETARG_A (CREATE_ABx op a bx) = a"
    "GETARG_Bx (CREATE_ABx op a bx) = bx"
proof -
  have o: "\<not> bit op k" if "6 \<le> k" for k using bit_small [of op 6] assms that by auto
  have a: "\<not> bit a k" if "8 \<le> k" for k using bit_small [of a 8] assms that by auto
  have b: "\<not> bit bx k" if "18 \<le> k" for k using bit_small [of bx 18] assms that by auto
  note bits = CREATE_ABx_def bit_simps field_layout o a b
  show "GET_OPCODE (CREATE_ABx op a bx) = op"
    unfolding field_defs by (rule getfield_create_block) (use assms in \<open>auto simp: bits\<close>)
  show "GETARG_A (CREATE_ABx op a bx) = a"
    unfolding field_defs by (rule getfield_create_block) (use assms in \<open>auto simp: bits\<close>)
  show "GETARG_Bx (CREATE_ABx op a bx) = bx"
    unfolding field_defs by (rule getfield_create_block) (use assms in \<open>auto simp: bits\<close>)
qed

lemma GETARG_ranges:
  "0 \<le> GETARG_A i" "GETARG_A i \<le> MAXARG_A" "0 \<le> GETARG_B i" "GETARG_B i \<le> MAXARG_B"
  "0 \<le> GETARG_C i" "GETARG_C i \<le> MAXARG_C" "0 \<le> GETARG_Bx i" "GETARG_Bx i \<le> MAXARG_Bx"
  "0 \<le> GET_OPCODE i" "GET_OPCODE i < 64"
  using getfield_range(2) [of 8 POS_A i] getfield_range(2) [of 9 POS_B i]
    getfield_range(2) [of 9 POS_C i] getfield_range(2) [of 18 POS_Bx i]
    getfield_range(2) [of 6 POS_OP i]
  by (simp_all add: field_defs SIZE_A_def SIZE_B_def SIZE_C_def SIZE_Bx_def SIZE_OP_def
        getfield_range(1))

named_theorems field_laws \<open>reads of a field after a write of a field\<close>

lemma SETARG_A_laws [field_laws]:
  "0 \<le> u \<Longrightarrow> u \<le> MAXARG_A \<Longrightarrow> GETARG_A (SETARG_A i u) = u"
  "GET_OPCODE (SETARG_A i u) = GET_OPCODE i" "GETARG_B (SETARG_A i u) = GETARG_B i"
  "GETARG_C (SETARG_A i u) = GETARG_C i" "GETARG_Bx (SETARG_A i u) = GETARG_Bx i"
  by (simp_all add: field_defs field_layout getfield_setfield_same getfield_setfield_other)

lemma SETARG_B_laws [field_laws]:
  "0 \<le> u \<Longrightarrow> u \<le> MAXARG_B \<Longrightarrow> GETARG_B (SETARG_B i u) = u"
  "GET_OPCODE (SETARG_B i u) = GET_OPCODE i" "GETARG_A (SETARG_B i u) = GETARG_A i"
  "GETARG_C (SETARG_B i u) = GETARG_C i"
  by (simp_all add: field_defs field_layout getfield_setfield_same getfield_setfield_other)

lemma SETARG_C_laws [field_laws]:
  "0 \<le> u \<Longrightarrow> u \<le> MAXARG_C \<Longrightarrow> GETARG_C (SETARG_C i u) = u"
  "GET_OPCODE (SETARG_C i u) = GET_OPCODE i" "GETARG_A (SETARG_C i u) = GETARG_A i"
  "GETARG_B (SETARG_C i u) = GETARG_B i"
  by (simp_all add: field_defs field_layout getfield_setfield_same getfield_setfield_other)

lemma SETARG_Bx_laws [field_laws]:
  "0 \<le> u \<Longrightarrow> u \<le> MAXARG_Bx \<Longrightarrow> GETARG_Bx (SETARG_Bx i u) = u"
  "GET_OPCODE (SETARG_Bx i u) = GET_OPCODE i" "GETARG_A (SETARG_Bx i u) = GETARG_A i"
  by (simp_all add: field_defs field_layout getfield_setfield_same getfield_setfield_other)

lemma SETARG_sBx_laws [field_laws]:
  "\<bar>b\<bar> \<le> MAXARG_sBx \<Longrightarrow> GETARG_sBx (SETARG_sBx i b) = b"
  "GET_OPCODE (SETARG_sBx i b) = GET_OPCODE i" "GETARG_A (SETARG_sBx i b) = GETARG_A i"
proof -
  show "GETARG_sBx (SETARG_sBx i b) = b" if "\<bar>b\<bar> \<le> MAXARG_sBx"
    using that SETARG_Bx_laws(1) [of "b + MAXARG_sBx" i]
    by (simp add: GETARG_sBx_def SETARG_sBx_def)
qed (simp_all add: SETARG_sBx_def field_laws)

lemma RK_laws:
  assumes "0 \<le> x" "x \<le> MAXINDEXRK"
  shows "ISK (RKASK x)" "INDEXK (RKASK x) = x" "\<not> ISK x" "RKASK x \<le> MAXARG_C"
proof -
  have x: "0 \<le> x" "x < 2 ^ 8" using assms by (simp_all add: MAXINDEXRK_def BITRK_def SIZE_B_def)
  have nb: "\<not> bit x k" if "8 \<le> k" for k using bit_small [OF x that] .
  have bk: "bit BITRK k \<longleftrightarrow> k = 8" for k
  proof -
    have "BITRK = (2 :: int) ^ 8" by (simp add: BITRK_def SIZE_B_def)
    then have *: "BITRK = push_bit 8 1" by simp
    show ?thesis unfolding * bit_push_bit_iff bit_1_iff by auto
  qed
  have and0: "x AND BITRK = 0"
    by (rule bit_eqI) (auto simp: bit_and_iff bk nb)
  show "\<not> ISK x" by (simp add: ISK_def and0)
  have "bit (RKASK x AND BITRK) 8" by (simp add: RKASK_def bit_and_iff bit_or_iff bk)
  then show "ISK (RKASK x)" by (auto simp: ISK_def)
  show "INDEXK (RKASK x) = x"
    unfolding INDEXK_def RKASK_def
    by (rule bit_eqI) (auto simp: bit_and_iff bit_or_iff bit_not_iff bk nb)
  have "x OR BITRK = x + BITRK" using and0 plus_and_or [of x BITRK] by simp
  then show "RKASK x \<le> MAXARG_C" using x by (simp add: RKASK_def BITRK_def SIZE_B_def)
qed

subsection \<open>Properties\<close>

text \<open>
  C9. The instruction word is a faithful container: an instruction created from an opcode and
  operands in range decodes to that opcode and those operands, in the three-operand and in
  the two-operand layout, and the opcode number decodes to the opcode.
\<close>

theorem instruction_encoding:
  assumes "0 \<le> a" "a \<le> MAXARG_A" "0 \<le> b" "b \<le> MAXARG_B" "0 \<le> c" "c \<le> MAXARG_C"
    "0 \<le> bx" "bx \<le> MAXARG_Bx"
  shows "opcode_of (GET_OPCODE (CREATE_ABC (opnum m) a b c)) = Some m \<and>
      GETARG_A (CREATE_ABC (opnum m) a b c) = a \<and> GETARG_B (CREATE_ABC (opnum m) a b c) = b \<and>
      GETARG_C (CREATE_ABC (opnum m) a b c) = c \<and>
      opcode_of (GET_OPCODE (CREATE_ABx (opnum m) a bx)) = Some m \<and>
      GETARG_A (CREATE_ABx (opnum m) a bx) = a \<and> GETARG_Bx (CREATE_ABx (opnum m) a bx) = bx"
proof -
  have o: "0 \<le> opnum m" "opnum m < 64"
    using opnum_range [of m] by (simp_all add: NUM_OPCODES_def)
  show ?thesis
    using CREATE_ABC_fields [OF o assms(1-6)] CREATE_ABx_fields [OF o assms(1,2,7,8)] by simp
qed

theorem instruction_encoding_witness:
  "opcode_of (GET_OPCODE (CREATE_ABC (opnum OP_ADD) 3 256 7)) = Some OP_ADD \<and>
   GETARG_C (CREATE_ABC (opnum OP_ADD) 3 256 7) = 7"
  using instruction_encoding [of 3 256 7 262143 OP_ADD] by simp

end
