(* ===== verification/PbWire.thy ===== *)
theory PbWire
  imports Prelude
begin

text \<open>
  The write side of the protobuf stream, \<open>src/Stream.cpp\<close>, over the values a Lua
  script hands in. Google's protobuf library is not part of the repository: its wire-format
  routines, and the C library's conversions between numbers and text, are the fields of a
  \<open>pb_env\<close> that every definition takes as an argument. What luapb relies on about them
  is the predicate \<open>wire_laws\<close>; \<open>varint_env\<close> at the end is the base-128
  encoding of the protobuf documentation, for which the predicate holds.
\<close>

subsection \<open>Lua values and descriptors as luapb sees them\<close>

text \<open>
  A Lua number is carried as its 64 bits. A table is the list of its entries in the order in
  which \<open>lua_next\<close> (and so \<open>luabridge::Iterator\<close>) visits them; tables handed to the
  encoder are finite trees.
\<close>

type_synonym lnum = "64 word"

datatype lval =
    LNil
  | LBool bool
  | LNum lnum
  | LStr string
  | LTab "(lval \<times> lval) list"

datatype fd_type =
    TYPE_DOUBLE | TYPE_FLOAT | TYPE_INT64 | TYPE_UINT64 | TYPE_INT32 | TYPE_FIXED64
  | TYPE_FIXED32 | TYPE_BOOL | TYPE_STRING | TYPE_GROUP | TYPE_MESSAGE | TYPE_BYTES
  | TYPE_UINT32 | TYPE_ENUM | TYPE_SFIXED32 | TYPE_SFIXED64 | TYPE_SINT32 | TYPE_SINT64

record enum_desc =
  enum_full_name :: string
  FindValueByName :: "string \<Rightarrow> int option"
  FindValueByNumber :: "int \<Rightarrow> string option"

record field_desc =
  fd_name :: string
  fd_full_name :: string
  fd_number :: int
  fd_typ :: fd_type
  is_repeated :: bool
  message_type :: nat
  enum_type :: "enum_desc option"

record descriptor =
  FindFieldByName :: "string \<Rightarrow> field_desc option"
  FindFieldByNumber :: "int \<Rightarrow> field_desc option"

type_synonym pool = "nat \<Rightarrow> descriptor"

subsection \<open>The library interface\<close>

datatype wire_type = WIRETYPE_VARINT | WIRETYPE_FIXED64 | WIRETYPE_LENGTH_DELIMITED

record pb_env =
  number2str :: "lnum \<Rightarrow> string"
  str2number :: "string \<Rightarrow> lnum option"
  number2integer :: "lnum \<Rightarrow> int"
  number2float :: "lnum \<Rightarrow> u32"
  sscanf_lld :: "string \<Rightarrow> int option"
  sscanf_llu :: "string \<Rightarrow> int option"
  VarintSize32 :: "u32 \<Rightarrow> nat"
  Int32Size :: "u32 \<Rightarrow> nat"
  UInt32Size :: "u32 \<Rightarrow> nat"
  Int64Size :: "64 word \<Rightarrow> nat"
  UInt64Size :: "64 word \<Rightarrow> nat"
  EnumSize :: "u32 \<Rightarrow> nat"
  WriteTagToArray :: "int \<Rightarrow> wire_type \<Rightarrow> byte list"
  WriteVarint32ToArray :: "u32 \<Rightarrow> byte list"
  WriteFloatToArray :: "int \<Rightarrow> u32 \<Rightarrow> byte list"
  WriteInt32ToArray :: "int \<Rightarrow> u32 \<Rightarrow> byte list"
  WriteBoolToArray :: "int \<Rightarrow> bool \<Rightarrow> byte list"
  WriteUInt32ToArray :: "int \<Rightarrow> u32 \<Rightarrow> byte list"
  WriteEnumToArray :: "int \<Rightarrow> u32 \<Rightarrow> byte list"

text \<open>The implicit conversions of a \<open>LuaRef\<close>: \<open>Stack<T>::get\<close> over the checked
  accessors of the auxiliary library, which raise a Lua error on a value of another type.\<close>

definition luaL_typerror :: "'a res" where
  "luaL_typerror = Inl (LuaError LUA_ERRRUN ''bad argument'')"

fun get_number :: "pb_env \<Rightarrow> lval \<Rightarrow> lnum res" where
  "get_number E (LNum x) = Inr x"
| "get_number E (LStr s) = (case str2number E s of Some x \<Rightarrow> Inr x | None \<Rightarrow> luaL_typerror)"
| "get_number E _ = luaL_typerror"

definition get_int32 :: "pb_env \<Rightarrow> lval \<Rightarrow> u32 res" where
  "get_int32 E v = rmap (\<lambda>x. word_of_int (number2integer E x)) (get_number E v)"

definition get_float :: "pb_env \<Rightarrow> lval \<Rightarrow> u32 res" where
  "get_float E v = rmap (number2float E) (get_number E v)"

fun get_bool :: "lval \<Rightarrow> bool" where
  "get_bool LNil = False"
| "get_bool (LBool b) = b"
| "get_bool _ = True"

fun get_string :: "pb_env \<Rightarrow> lval \<Rightarrow> string res" where
  "get_string E (LStr s) = Inr s"
| "get_string E (LNum x) = Inr (number2str E x)"
| "get_string E _ = luaL_typerror"

text \<open>A \<open>const char*\<close> ends at the first zero byte, whatever the Lua string holds.\<close>

definition c_str :: "string \<Rightarrow> string" where
  "c_str s = takeWhile (\<lambda>c. c \<noteq> CHR 0x00) s"

definition get_cstring :: "pb_env \<Rightarrow> lval \<Rightarrow> string res" where
  "get_cstring E v = (if v = LNil then Inl (UB ''null string'') else rmap c_str (get_string E v))"

subsection \<open>The write stream\<close>

text \<open>
  \<open>PBStream(Size)\<close> allocates \<open>Size\<close> bytes and moves \<open>mPointer\<close> over them.
  \<open>mOut\<close> is what lies between \<open>mData\<close> and \<open>mPointer\<close>. No write of the source
  checks the bound: a write past \<open>mSize\<close> is a heap overflow.
\<close>

record pb_stream =
  mSize :: u32
  mOut :: "byte list"

definition PBStream_new :: "u32 \<Rightarrow> pb_stream" where
  "PBStream_new Size = \<lparr>mSize = Size, mOut = []\<rparr>"

definition emit :: "pb_stream \<Rightarrow> byte list \<Rightarrow> pb_stream res" where
  "emit st bs = (if length (mOut st) + length bs \<le> unat (mSize st)
                 then Inr (st\<lparr>mOut := mOut st @ bs\<rparr>) else Inl (UB ''heap overflow''))"

definition WriteRaw :: "string \<Rightarrow> u32 \<Rightarrow> byte list res" where
  "WriteRaw s n = (if unat n < 2 ^ 31 \<and> unat n \<le> length s then Inr (map of_char (take (unat n) s))
                   else Inl (UB ''read past the string''))"

definition WriteValue :: "pb_env \<Rightarrow> field_desc \<Rightarrow> lval \<Rightarrow> pb_stream \<Rightarrow> pb_stream res" where
  "WriteValue E fd LuaValue st =
    (case fd_typ fd of
       TYPE_FLOAT \<Rightarrow>
         rbind (get_float E LuaValue) (\<lambda>Value.
         emit st (WriteFloatToArray E (fd_number fd) Value))
     | TYPE_INT32 \<Rightarrow>
         rbind (get_int32 E LuaValue) (\<lambda>Value.
         emit st (WriteInt32ToArray E (fd_number fd) Value))
     | TYPE_BOOL \<Rightarrow> emit st (WriteBoolToArray E (fd_number fd) (get_bool LuaValue))
     | TYPE_UINT32 \<Rightarrow>
         rbind (get_int32 E LuaValue) (\<lambda>Value.
         emit st (WriteUInt32ToArray E (fd_number fd) Value))
     | TYPE_ENUM \<Rightarrow>
         rbind (get_string E LuaValue) (\<lambda>Value.
         case enum_type fd of
           None \<Rightarrow> Inr st
         | Some ed \<Rightarrow>
             (case FindValueByName ed Value of
                None \<Rightarrow> Inr st
              | Some n \<Rightarrow> emit st (WriteEnumToArray E (fd_number fd) (word_of_int n))))
     | t \<Rightarrow>
        if t = TYPE_STRING \<or> t = TYPE_INT64 \<or> t = TYPE_UINT64 then
          rbind (get_cstring E LuaValue) (\<lambda>Value.
          let StrLen = word_of_nat (length Value) in
          rbind (emit st (WriteTagToArray E (fd_number fd) WIRETYPE_LENGTH_DELIMITED)) (\<lambda>st.
          rbind (emit st (WriteVarint32ToArray E StrLen)) (\<lambda>st.
          rbind (WriteRaw Value StrLen) (\<lambda>raw. emit st raw))))
        else Inl (UB ''assert: unknown fd type''))"

definition WriteMessageHead ::
  "pb_env \<Rightarrow> int \<Rightarrow> int \<Rightarrow> pb_stream \<Rightarrow> pb_stream res" where
  "WriteMessageHead E FieldNumber MessageBytes st =
     rbind (emit st (WriteTagToArray E FieldNumber WIRETYPE_LENGTH_DELIMITED)) (\<lambda>st.
     emit st (WriteVarint32ToArray E (word_of_int MessageBytes)))"

text \<open>Sizes are sums of signed \<open>int\<close>s, whose overflow is undefined.\<close>

definition int_add :: "int \<Rightarrow> int \<Rightarrow> int res" where
  "int_add a b = (if - (2 ^ 31) \<le> a + b \<and> a + b < 2 ^ 31 then Inr (a + b) else Inl (UB ''signed overflow''))"

definition FieldSize :: "pb_env \<Rightarrow> field_desc \<Rightarrow> lval \<Rightarrow> int res" where
  "FieldSize E fd LuaValue =
    (case fd_typ fd of
       TYPE_FLOAT \<Rightarrow> Inr 4
     | TYPE_INT64 \<Rightarrow>
         rbind (get_cstring E LuaValue) (\<lambda>StrValue.
         let Value = (case sscanf_lld E StrValue of None \<Rightarrow> 0 | Some n \<Rightarrow> word_of_int n)
         in Inr (int (Int64Size E Value)))
     | TYPE_UINT64 \<Rightarrow>
         rbind (get_cstring E LuaValue) (\<lambda>StrValue.
         let Value = (case sscanf_llu E StrValue of None \<Rightarrow> 0 | Some n \<Rightarrow> word_of_int n)
         in Inr (int (UInt64Size E Value)))
     | TYPE_INT32 \<Rightarrow>
         rbind (get_int32 E LuaValue) (\<lambda>Value. Inr (int (Int32Size E Value)))
     | TYPE_BOOL \<Rightarrow> Inr 1
     | TYPE_STRING \<Rightarrow>
         rbind (get_cstring E LuaValue) (\<lambda>Value.
         let StrLen = word_of_nat (length Value)
         in int_add (int (VarintSize32 E StrLen)) (sint StrLen))
     | TYPE_UINT32 \<Rightarrow>
         rbind (get_int32 E LuaValue) (\<lambda>Value. Inr (int (UInt32Size E Value)))
     | TYPE_ENUM \<Rightarrow>
         rbind (get_string E LuaValue) (\<lambda>Value.
         case enum_type fd of
           None \<Rightarrow> Inl (UB ''null enum descriptor'')
         | Some ed \<Rightarrow>
             (case FindValueByName ed Value of
                None \<Rightarrow> Inr 0
              | Some n \<Rightarrow> Inr (int (EnumSize E (word_of_int n)))))
     | TYPE_MESSAGE \<Rightarrow>
         rbind (get_int32 E LuaValue) (\<lambda>MsgSize.
         int_add (int (VarintSize32 E MsgSize)) (sint MsgSize))
     | _ \<Rightarrow> Inl (UB ''assert: Unsupport type''))"

definition TagSize :: "pb_env \<Rightarrow> int \<Rightarrow> int" where
  "TagSize E FieldNumber = int (VarintSize32 E (push_bit 3 (word_of_int FieldNumber)))"

subsection \<open>What luapb relies on\<close>

definition wire_laws :: "pb_env \<Rightarrow> bool" where
  "wire_laws E \<longleftrightarrow>
     (\<forall>n w. length (WriteTagToArray E n w) = VarintSize32 E (push_bit 3 (word_of_int n))) \<and>
     (\<forall>x. length (WriteVarint32ToArray E x) = VarintSize32 E x) \<and>
     (\<forall>n x. length (WriteFloatToArray E n x) =
        VarintSize32 E (push_bit 3 (word_of_int n)) + 4) \<and>
     (\<forall>n x. length (WriteInt32ToArray E n x) =
        VarintSize32 E (push_bit 3 (word_of_int n)) + Int32Size E x) \<and>
     (\<forall>n x. length (WriteBoolToArray E n x) =
        VarintSize32 E (push_bit 3 (word_of_int n)) + 1) \<and>
     (\<forall>n x. length (WriteUInt32ToArray E n x) =
        VarintSize32 E (push_bit 3 (word_of_int n)) + UInt32Size E x) \<and>
     (\<forall>n x. length (WriteEnumToArray E n x) =
        VarintSize32 E (push_bit 3 (word_of_int n)) + EnumSize E x) \<and>
     (\<forall>x. 1 \<le> VarintSize32 E x \<and> VarintSize32 E x \<le> 5)"

lemma emit_append:
  "rbind (emit st a) (\<lambda>st. emit st b) = emit st (a @ b)"
  by (auto simp: emit_def)

lemma emit_Nil: "length (mOut st) \<le> unat (mSize st) \<Longrightarrow> emit st [] = Inr st"
  by (simp add: emit_def)

lemma emit_mSize: "emit st bs = Inr st' \<Longrightarrow> mSize st' = mSize st"
  by (auto simp: emit_def split: if_splits)

lemma emit_mOut: "emit st bs = Inr st' \<Longrightarrow> mOut st' = mOut st @ bs"
  by (auto simp: emit_def split: if_splits)

text \<open>
  The lengths the write routines promise, as a contract: what the encoder's proofs use of
  the wire format.
\<close>

locale wire_format =
  fixes E :: pb_env
  assumes laws: "wire_laws E"
begin

lemma tag_length: "int (length (WriteTagToArray E n w)) = TagSize E n"
  using laws by (simp add: wire_laws_def TagSize_def)

lemma varint32_length: "length (WriteVarint32ToArray E x) = VarintSize32 E x"
  using laws by (simp add: wire_laws_def)

lemma varint32_size_bounds: "1 \<le> VarintSize32 E x" "VarintSize32 E x \<le> 5"
  using laws by (simp_all add: wire_laws_def)

end

subsection \<open>The base-128 encoding\<close>

text \<open>
  Seven bits to a byte, the least significant first, the top bit set on every byte but the
  last. A negative \<open>int32\<close> or enumeration value is sign-extended to 64 bits.
\<close>

fun varint_bytes :: "nat \<Rightarrow> byte list" where
  "varint_bytes n =
     (if n < 128 then [word_of_nat n]
      else word_of_nat (n mod 128 + 128) # varint_bytes (n div 128))"

declare varint_bytes.simps [simp del]

lemma varint_bytes_nonempty: "1 \<le> length (varint_bytes n)"
  by (subst varint_bytes.simps) simp

lemma length_varint_bytes: "n < 128 ^ Suc k \<Longrightarrow> length (varint_bytes n) \<le> Suc k"
proof (induction k arbitrary: n)
  case 0
  then show ?case by (subst varint_bytes.simps) simp
next
  case (Suc k)
  have "n div 128 < 128 ^ Suc k"
    using Suc.prems by (simp add: less_mult_imp_div_less mult.commute)
  with Suc.IH show ?case by (subst varint_bytes.simps) simp
qed

definition wire_type_num :: "wire_type \<Rightarrow> nat" where
  "wire_type_num w =
     (case w of WIRETYPE_VARINT \<Rightarrow> 0 | WIRETYPE_FIXED64 \<Rightarrow> 1 | WIRETYPE_LENGTH_DELIMITED \<Rightarrow> 2)"

definition tag_bytes :: "int \<Rightarrow> nat \<Rightarrow> byte list" where
  "tag_bytes n w = varint_bytes (unat (push_bit 3 (word_of_int n) :: u32) + w)"

definition sign_extended :: "u32 \<Rightarrow> nat" where
  "sign_extended x = unat (signed x :: 64 word)"

definition fixed32_bytes :: "u32 \<Rightarrow> byte list" where
  "fixed32_bytes x = map (\<lambda>k. ucast (drop_bit (8 * k) x)) [0, 1, 2, 3]"

lemma length_varint_low_bits:
  assumes "w < 8"
  shows "length (varint_bytes (8 * m + w)) = length (varint_bytes (8 * m))"
proof (cases "m < 16")
  case True
  with assms show ?thesis by (simp add: varint_bytes.simps [of "8 * m + w"] varint_bytes.simps [of "8 * m"])
next
  case False
  have "(8 * m + w) div 8 = m" using assms by simp
  then have "(8 * m + w) div (8 * 16) = 8 * m div (8 * 16)" by (simp only: div_mult2_eq)
  then have "(8 * m + w) div 128 = 8 * m div 128" by simp
  with False assms show ?thesis
    by (simp add: varint_bytes.simps [of "8 * m + w"] varint_bytes.simps [of "8 * m"])
qed

lemma unat_push_bit3_dvd: "8 dvd unat (push_bit 3 x :: u32)"
proof -
  have "push_bit 3 x = 8 * x" by (simp add: push_bit_eq_mult)
  then have "unat (push_bit 3 x) = 8 * unat x mod 2 ^ 32"
    by (simp add: unat_word_ariths)
  moreover have "(8 :: nat) dvd 2 ^ 32" by simp
  ultimately show ?thesis by (metis dvd_mod dvd_triv_left)
qed

lemma length_tag_bytes:
  assumes "w < 8"
  shows "length (tag_bytes n w) = length (varint_bytes (unat (push_bit 3 (word_of_int n) :: u32)))"
proof -
  obtain m where "unat (push_bit 3 (word_of_int n) :: u32) = 8 * m"
    using unat_push_bit3_dvd by (blast elim: dvdE)
  then show ?thesis by (simp only: tag_bytes_def length_varint_low_bits [OF assms])
qed

text \<open>
  The C library's conversions stay parameters: \<open>n2s\<close>, \<open>s2n\<close>, \<open>n2i\<close>,
  \<open>n2f\<close>, \<open>lld\<close> and \<open>llu\<close> complete the environment.
\<close>

definition varint_env :: "(lnum \<Rightarrow> string) \<Rightarrow> (string \<Rightarrow> lnum option) \<Rightarrow> (lnum \<Rightarrow> int)
    \<Rightarrow> (lnum \<Rightarrow> u32) \<Rightarrow> (string \<Rightarrow> int option) \<Rightarrow> (string \<Rightarrow> int option) \<Rightarrow> pb_env" where
  "varint_env n2s s2n n2i n2f lld llu =
    \<lparr>number2str = n2s, str2number = s2n, number2integer = n2i, number2float = n2f,
     sscanf_lld = lld, sscanf_llu = llu,
     VarintSize32 = (\<lambda>x. length (varint_bytes (unat x))),
     Int32Size = (\<lambda>x. length (varint_bytes (sign_extended x))),
     UInt32Size = (\<lambda>x. length (varint_bytes (unat x))),
     Int64Size = (\<lambda>x. length (varint_bytes (unat x))),
     UInt64Size = (\<lambda>x. length (varint_bytes (unat x))),
     EnumSize = (\<lambda>x. length (varint_bytes (sign_extended x))),
     WriteTagToArray = (\<lambda>n w. tag_bytes n (wire_type_num w)),
     WriteVarint32ToArray = (\<lambda>x. varint_bytes (unat x)),
     WriteFloatToArray = (\<lambda>n x. tag_bytes n 5 @ fixed32_bytes x),
     WriteInt32ToArray = (\<lambda>n x. tag_bytes n 0 @ varint_bytes (sign_extended x)),
     WriteBoolToArray = (\<lambda>n x. tag_bytes n 0 @ varint_bytes (if x then 1 else 0)),
     WriteUInt32ToArray = (\<lambda>n x. tag_bytes n 0 @ varint_bytes (unat x)),
     WriteEnumToArray = (\<lambda>n x. tag_bytes n 0 @ varint_bytes (sign_extended x))\<rparr>"

lemma varint_env_laws: "wire_laws (varint_env n2s s2n n2i n2f lld llu)"
proof -
  have "length (varint_bytes (unat x)) \<le> 5" for x :: u32
  proof -
    have "unat x < 2 ^ LENGTH(32)" by (rule unsigned_less)
    then show ?thesis using length_varint_bytes [of "unat x" 4] by simp
  qed
  moreover have "length (varint_bytes (if x then 1 else 0)) = 1" for x
    by (simp add: varint_bytes.simps)
  moreover have "wire_type_num w < 8" for w by (simp add: wire_type_num_def split: wire_type.splits)
  ultimately show ?thesis
    by (simp add: wire_laws_def varint_env_def length_tag_bytes
          varint_bytes_nonempty [simplified] fixed32_bytes_def)
qed

interpretation base128: wire_format "varint_env n2s s2n n2i n2f lld llu"
  by unfold_locales (rule varint_env_laws)

text \<open>One environment with every parameter filled in, for concrete runs.\<close>

definition demo_env :: pb_env where
  "demo_env = varint_env (\<lambda>x. ''0'') (\<lambda>s. None) sint (\<lambda>x. ucast x)
     (\<lambda>s. if s = ''7'' then Some 7 else if s = ''-1'' then Some (- 1) else None) (\<lambda>s. None)"

lemma demo_env_laws: "wire_laws demo_env"
  by (simp add: demo_env_def varint_env_laws)

end
