(* ===== verification/PbEncode.thy ===== *)
theory PbEncode
  imports PbWire
begin

text \<open>
  The encoder: \<open>src/ByteSize.cpp\<close> computes how many bytes a table will take,
  \<open>src/Encoder.cpp\<close> allocates exactly that many and writes the message through the
  stream. Both walk the table in \<open>lua_next\<close> order and skip keys that name no field. A
  value that is walked without a check that it is a table is handed to \<open>lua_next\<close> as it
  is, which is undefined.
\<close>

subsection \<open>Computing the size\<close>

text \<open>\<open>size += TagSize\<close> and \<open>size += FieldSize\<close>.\<close>

definition add_field :: "pb_env \<Rightarrow> field_desc \<Rightarrow> lval \<Rightarrow> int \<Rightarrow> int res" where
  "add_field E fieldD v sz =
     rbind (int_add sz (TagSize E (fd_number fieldD))) (\<lambda>sz.
     rbind (FieldSize E fieldD v) (\<lambda>n. int_add sz n))"

fun size_values :: "pb_env \<Rightarrow> field_desc \<Rightarrow> (lval \<times> lval) list \<Rightarrow> int \<Rightarrow> int res" where
  "size_values E fieldD [] sz = Inr sz"
| "size_values E fieldD ((_, v) # vs) sz = rbind (add_field E fieldD v sz) (size_values E fieldD vs)"

fun RawByteSize :: "pb_env \<Rightarrow> pool \<Rightarrow> descriptor \<Rightarrow> lval \<Rightarrow> int res"
  and size_entries :: "pb_env \<Rightarrow> pool \<Rightarrow> descriptor \<Rightarrow> (lval \<times> lval) list \<Rightarrow> int \<Rightarrow> int res"
  and size_messages :: "pb_env \<Rightarrow> pool \<Rightarrow> field_desc \<Rightarrow> (lval \<times> lval) list \<Rightarrow> int \<Rightarrow> int res"
  where
  "RawByteSize E P msgD (LTab es) = size_entries E P msgD es 0"
| "RawByteSize E P msgD _ = Inl (UB ''lua_next on a value that is no table'')"
| "size_entries E P msgD [] sz = Inr sz"
| "size_entries E P msgD ((k, v) # es) sz =
    rbind (get_cstring E k) (\<lambda>name.
    case FindFieldByName msgD name of
      None \<Rightarrow> size_entries E P msgD es sz
    | Some fieldD \<Rightarrow>
        if fd_typ fieldD = TYPE_MESSAGE then
          if is_repeated fieldD then
            (case v of
               LTab vs \<Rightarrow>
                 rbind (size_messages E P fieldD vs sz) (\<lambda>sz.
                 size_entries E P msgD es sz)
             | _ \<Rightarrow> Inl (LuaError LUA_ERRRUN (''repeated '' @ name @ '' require table'')))
          else
            rbind (int_add sz (TagSize E (fd_number fieldD))) (\<lambda>sz.
            rbind (RawByteSize E P (P (message_type fieldD)) v) (\<lambda>n.
            rbind (int_add sz n) (\<lambda>sz.
            size_entries E P msgD es sz)))
        else
          if is_repeated fieldD then
            (case v of
               LTab vs \<Rightarrow>
                 rbind (size_values E fieldD vs sz) (\<lambda>sz.
                 size_entries E P msgD es sz)
             | _ \<Rightarrow> Inl (LuaError LUA_ERRRUN (''repeated '' @ name @ '' require table'')))
          else
            rbind (add_field E fieldD v sz) (\<lambda>sz.
            size_entries E P msgD es sz))"
| "size_messages E P fieldD [] sz = Inr sz"
| "size_messages E P fieldD ((_, v) # vs) sz =
    rbind (int_add sz (TagSize E (fd_number fieldD))) (\<lambda>sz.
    rbind (RawByteSize E P (P (message_type fieldD)) v) (\<lambda>structSize.
    rbind (int_add (int (VarintSize32 E (word_of_int structSize))) structSize) (\<lambda>n.
    rbind (int_add sz n) (\<lambda>sz.
    size_messages E P fieldD vs sz))))"

subsection \<open>Writing\<close>

fun encode_values ::
  "pb_env \<Rightarrow> field_desc \<Rightarrow> (lval \<times> lval) list \<Rightarrow> pb_stream \<Rightarrow> pb_stream res" where
  "encode_values E fieldD [] st = Inr st"
| "encode_values E fieldD ((_, v) # vs) st =
    rbind (WriteValue E fieldD v st) (\<lambda>st. encode_values E fieldD vs st)"

fun RawEncode :: "pb_env \<Rightarrow> pool \<Rightarrow> descriptor \<Rightarrow> lval \<Rightarrow> pb_stream \<Rightarrow> pb_stream res"
  and encode_entries ::
    "pb_env \<Rightarrow> pool \<Rightarrow> descriptor \<Rightarrow> (lval \<times> lval) list \<Rightarrow> pb_stream \<Rightarrow> pb_stream res"
  and encode_messages ::
    "pb_env \<Rightarrow> pool \<Rightarrow> field_desc \<Rightarrow> (lval \<times> lval) list \<Rightarrow> pb_stream \<Rightarrow> pb_stream res"
  where
  "RawEncode E P msgD (LTab es) st = encode_entries E P msgD es st"
| "RawEncode E P msgD _ st = Inl (UB ''lua_next on a value that is no table'')"
| "encode_entries E P msgD [] st = Inr st"
| "encode_entries E P msgD ((k, v) # es) st =
    rbind (get_cstring E k) (\<lambda>name.
    case FindFieldByName msgD name of
      None \<Rightarrow> encode_entries E P msgD es st
    | Some fieldD \<Rightarrow>
        if fd_typ fieldD = TYPE_MESSAGE then
          if is_repeated fieldD then
            (case v of
               LTab vs \<Rightarrow>
                 rbind (encode_messages E P fieldD vs st) (\<lambda>st.
                 encode_entries E P msgD es st)
             | _ \<Rightarrow> Inl (LuaError LUA_ERRRUN (''repeated value '' @ name @ '' require table'')))
          else
            rbind (RawByteSize E P (P (message_type fieldD)) v) (\<lambda>n.
            rbind (WriteMessageHead E (fd_number fieldD) n st) (\<lambda>st.
            rbind (RawEncode E P (P (message_type fieldD)) v st) (\<lambda>st.
            encode_entries E P msgD es st)))
        else
          if is_repeated fieldD then
            (case v of
               LTab vs \<Rightarrow>
                 rbind (encode_values E fieldD vs st) (\<lambda>st.
                 encode_entries E P msgD es st)
             | _ \<Rightarrow> Inl (LuaError LUA_ERRRUN (''repeated value '' @ name @ '' require table'')))
          else
            rbind (WriteValue E fieldD v st) (\<lambda>st.
            encode_entries E P msgD es st))"
| "encode_messages E P fieldD [] st = Inr st"
| "encode_messages E P fieldD ((_, v) # vs) st =
    rbind (RawByteSize E P (P (message_type fieldD)) v) (\<lambda>n.
    rbind (WriteMessageHead E (fd_number fieldD) n st) (\<lambda>st.
    rbind (RawEncode E P (P (message_type fieldD)) v st) (\<lambda>st.
    encode_messages E P fieldD vs st)))"

text \<open>
  \<open>Encode\<close> pushes \<open>GetSize()\<close> bytes from the start of the buffer, whatever was
  written: a byte that no write reached is \<open>None\<close>, its content indeterminate. When the
  message name is unknown, nothing is pushed.
\<close>

definition ByteSize ::
  "pb_env \<Rightarrow> pool \<Rightarrow> (string \<Rightarrow> descriptor option) \<Rightarrow> string \<Rightarrow> lval \<Rightarrow> int res" where
  "ByteSize E P FindMessage name tab =
     (case FindMessage name of None \<Rightarrow> Inr 0 | Some msgD \<Rightarrow> RawByteSize E P msgD tab)"

definition Encode ::
  "pb_env \<Rightarrow> pool \<Rightarrow> (string \<Rightarrow> descriptor option) \<Rightarrow> string \<Rightarrow> lval \<Rightarrow> byte option list option res"
  where
  "Encode E P FindMessage name tab =
     (case FindMessage name of
        None \<Rightarrow> Inr None
      | Some msgD \<Rightarrow>
          rbind (RawByteSize E P msgD tab) (\<lambda>sz.
          rbind (RawEncode E P msgD tab (PBStream_new (word_of_int sz))) (\<lambda>st.
          Inr (Some (map Some (mOut st)
                     @ replicate (unat (mSize st) - length (mOut st)) None)))))"

subsection \<open>When the computed size is the written size\<close>

text \<open>
  The tables for which the two walks agree: every field the descriptor knows is either a
  repeated message or a scalar of a type whose size routine matches its write routine; a value
  of a float field is a number or a text that converts to one, the enumeration names that
  occur are defined, and strings are below 2 GB. A single (not repeated) message and the
  64-bit integer types are left out, see below; types that the size routine does not
  know end in its assertion.
\<close>

definition exact_value :: "pb_env \<Rightarrow> field_desc \<Rightarrow> lval \<Rightarrow> bool" where
  "exact_value E fd v =
     (case fd_typ fd of
        TYPE_FLOAT \<Rightarrow> (case get_float E v of Inl _ \<Rightarrow> False | Inr _ \<Rightarrow> True)
      | TYPE_INT64 \<Rightarrow> False
      | TYPE_UINT64 \<Rightarrow> False
      | TYPE_MESSAGE \<Rightarrow> False
      | TYPE_STRING \<Rightarrow> (case get_cstring E v of Inl _ \<Rightarrow> True | Inr s \<Rightarrow> length s < 2 ^ 31)
      | TYPE_ENUM \<Rightarrow>
          (case enum_type fd of
             None \<Rightarrow> True
           | Some ed \<Rightarrow> (case get_string E v of
               Inl _ \<Rightarrow> True | Inr s \<Rightarrow> FindValueByName ed s \<noteq> None))
      | _ \<Rightarrow> True)"

fun exact_message :: "pb_env \<Rightarrow> pool \<Rightarrow> descriptor \<Rightarrow> lval \<Rightarrow> bool"
  and exact_entries :: "pb_env \<Rightarrow> pool \<Rightarrow> descriptor \<Rightarrow> (lval \<times> lval) list \<Rightarrow> bool"
  and exact_messages :: "pb_env \<Rightarrow> pool \<Rightarrow> field_desc \<Rightarrow> (lval \<times> lval) list \<Rightarrow> bool"
  where
  "exact_message E P msgD (LTab es) = exact_entries E P msgD es"
| "exact_message E P msgD _ = True"
| "exact_entries E P msgD [] = True"
| "exact_entries E P msgD ((k, v) # es) =
    (exact_entries E P msgD es \<and>
     (case get_cstring E k of
        Inl _ \<Rightarrow> True
      | Inr name \<Rightarrow>
         (case FindFieldByName msgD name of
            None \<Rightarrow> True
          | Some fieldD \<Rightarrow>
              if fd_typ fieldD = TYPE_MESSAGE
              then is_repeated fieldD \<and>
                   (case v of LTab vs \<Rightarrow> exact_messages E P fieldD vs | _ \<Rightarrow> True)
              else if is_repeated fieldD
              then (case v of LTab vs \<Rightarrow> \<forall>(_, w) \<in> set vs. exact_value E fieldD w | _ \<Rightarrow> True)
              else exact_value E fieldD v)))"
| "exact_messages E P fieldD [] = True"
| "exact_messages E P fieldD ((_, v) # vs) =
    (exact_message E P (P (message_type fieldD)) v \<and> exact_messages E P fieldD vs)"

text \<open>Every step of the writer is an \<open>emit\<close> of bytes that do not depend on the stream.\<close>

definition fits :: "pb_stream \<Rightarrow> bool" where
  "fits st \<longleftrightarrow> length (mOut st) \<le> unat (mSize st)"

definition emits :: "(pb_stream \<Rightarrow> pb_stream res) \<Rightarrow> int \<Rightarrow> bool" where
  "emits w n \<longleftrightarrow> (\<exists>out. int (length out) = n \<and> (\<forall>st. fits st \<longrightarrow> w st = emit st out))"

lemma int_add_Inr [simp]: "int_add a b = Inr c \<longleftrightarrow> c = a + b \<and> - (2 ^ 31) \<le> c \<and> c < 2 ^ 31"
  by (auto simp: int_add_def)

lemma emit_fits: "emit st bs = Inr st' \<Longrightarrow> fits st'"
  by (auto simp: emit_def fits_def split: if_splits)

lemma emits_Inr: "emits Inr 0"
  unfolding emits_def by (rule exI [of _ "[]"]) (simp add: emit_Nil fits_def)

lemma emits_emit: "n = int (length bs) \<Longrightarrow> emits (\<lambda>st. emit st bs) n"
  by (auto simp: emits_def)

lemma emits_seq:
  assumes "emits w1 n1" "emits w2 n2"
  shows "emits (\<lambda>st. rbind (w1 st) w2) (n1 + n2)"
proof -
  obtain a where a: "int (length a) = n1" "\<And>st. fits st \<Longrightarrow> w1 st = emit st a"
    using assms(1) by (auto simp: emits_def)
  obtain b where b: "int (length b) = n2" "\<And>st. fits st \<Longrightarrow> w2 st = emit st b"
    using assms(2) by (auto simp: emits_def)
  have "rbind (w1 st) w2 = emit st (a @ b)" if "fits st" for st
  proof -
    have "rbind (w1 st) w2 = rbind (emit st a) w2" using a(2) [OF that] by simp
    also have "\<dots> = rbind (emit st a) (\<lambda>st. emit st b)"
      using emit_fits b(2) by (cases "emit st a") auto
    finally show ?thesis by (simp add: emit_append)
  qed
  then show ?thesis unfolding emits_def
    using a(1) b(1) by (intro exI [of _ "a @ b"]) auto
qed

lemma WriteMessageHead_emits:
  assumes "wire_laws E"
  shows "emits (WriteMessageHead E n m) (TagSize E n + int (VarintSize32 E (word_of_int m)))"
  unfolding WriteMessageHead_def
  by (intro emits_seq emits_emit) (use assms in \<open>simp_all add: wire_laws_def TagSize_def\<close>)

lemma emits_single:
  assumes "\<And>st. w st = emit st bs" "n = int (length bs)"
  shows "emits w n"
  using assms by (auto simp: emits_def)

text \<open>A text in the length-delimited format, of a string field or of a 64-bit integer.\<close>

lemma sint_length:
  assumes "n < 2 ^ 31"
  shows "sint (word_of_nat n :: u32) = int n"
proof -
  have "take_bit 32 n = n" using assms by (simp add: take_bit_nat_eq_self_iff)
  moreover have "signed_take_bit 31 (int n) = int n" using assms by (simp add: signed_take_bit_int_eq_self)
  ultimately show ?thesis by (simp add: sint_uint uint_nat unat_of_nat take_bit_eq_mod)
qed

lemma WriteValue_text:
  assumes "wire_laws E" "fd_typ fd \<in> {TYPE_STRING, TYPE_INT64, TYPE_UINT64}" "get_cstring E v = Inr s" "length s < 2 ^ 31"
  shows "WriteValue E fd v = (\<lambda>st. emit st (WriteTagToArray E (fd_number fd) WIRETYPE_LENGTH_DELIMITED
      @ WriteVarint32ToArray E (word_of_nat (length s)) @ map of_char s))"
proof -
  have "unat (word_of_nat (length s) :: u32) = length s"
    using assms(4) by (simp add: unat_of_nat take_bit_nat_eq_self_iff)
  then have "WriteRaw s (word_of_nat (length s)) = Inr (map of_char s)"
    using assms(4) by (simp add: WriteRaw_def)
  then show ?thesis
    using assms(2,3) by (auto simp: WriteValue_def Let_def fun_eq_iff emit_append simp flip: rbind_assoc)
qed

lemma text_length:
  "wire_laws E \<Longrightarrow> int (length (WriteTagToArray E n w @ WriteVarint32ToArray E x @ map of_char s)) =
     TagSize E n + int (VarintSize32 E x + length s)"
  by (simp add: wire_laws_def TagSize_def)

lemma WriteValue_emits:
  assumes W: "wire_laws E" and X: "exact_value E fd v" and S: "FieldSize E fd v = Inr n"
  shows "emits (WriteValue E fd v) (TagSize E (fd_number fd) + n)"
proof (cases "fd_typ fd")
  case TYPE_FLOAT
  with X obtain x where "get_float E v = Inr x" 
    by (cases "get_float E v") (auto simp: exact_value_def)
  with TYPE_FLOAT S W show ?thesis
    by (intro emits_single) (auto simp: WriteValue_def FieldSize_def TagSize_def wire_laws_def)
next
  case TYPE_INT32
  with S obtain x where "get_int32 E v = Inr x" "n = int (Int32Size E x)"
    by (auto simp: FieldSize_def)
  with TYPE_INT32 W show ?thesis
    by (intro emits_single) (auto simp: WriteValue_def TagSize_def wire_laws_def)
next
  case TYPE_BOOL
  with S W show ?thesis
    by (intro emits_single) (auto simp: WriteValue_def FieldSize_def TagSize_def wire_laws_def)
next
  case TYPE_STRING
  with S obtain s where s: "get_cstring E v = Inr s"
    "n = int (VarintSize32 E (word_of_nat (length s))) + sint (word_of_nat (length s) :: u32)"
    by (auto simp: FieldSize_def Let_def)
  moreover have "length s < 2 ^ 31" using X TYPE_STRING s(1) by (simp add: exact_value_def)
  ultimately show ?thesis using WriteValue_text [OF W _ s(1)] TYPE_STRING
    by (auto intro!: emits_emit simp: sint_length text_length [OF W] simp del: length_append)
next
  case TYPE_UINT32
  with S obtain x where "get_int32 E v = Inr x" "n = int (UInt32Size E x)"
    by (auto simp: FieldSize_def)
  with TYPE_UINT32 W show ?thesis
    by (intro emits_single) (auto simp: WriteValue_def TagSize_def wire_laws_def)
next
  case TYPE_ENUM
  with S X obtain s ed k where "get_string E v = Inr s" "enum_type fd = Some ed"
    "FindValueByName ed s = Some k" "n = int (EnumSize E (word_of_int k))"
    by (auto simp: FieldSize_def exact_value_def split: option.splits)
  with TYPE_ENUM W show ?thesis
    by (intro emits_single) (auto simp: WriteValue_def TagSize_def wire_laws_def)
qed (use X S in \<open>simp_all add: exact_value_def FieldSize_def\<close>)

text \<open>
  A loop of the encoder and the same loop of the size computation: if the head emits
  \<open>t\<close> bytes and the tail the difference the tail's size computation makes, the whole loop
  emits the whole difference.
\<close>

lemma emits_step:
  assumes "emits w t" "emits w' (m - (sz + t))"
  shows "emits (\<lambda>st. rbind (w st) w') (m - sz)"
  using emits_seq [OF assms] by (simp add: algebra_simps)

lemma field_emits:
  assumes "wire_laws E" "exact_value E fd v" "add_field E fd v sz = Inr sz'"
  shows "emits (WriteValue E fd v) (sz' - sz)"
  using assms(3) WriteValue_emits [OF assms(1,2)] by (auto simp: add_field_def)

lemma emits_then:
  assumes "emits w (sz' - sz)" "emits w' (m - sz')"
  shows "emits (\<lambda>st. rbind (w st) w') (m - sz)"
  using emits_seq [OF assms] by simp

lemma values_emits:
  "wire_laws E \<Longrightarrow> \<forall>(_, w) \<in> set vs. exact_value E fd w \<Longrightarrow> size_values E fd vs sz = Inr m \<Longrightarrow>
    emits (encode_values E fd vs) (m - sz)"
proof (induction E fd vs sz rule: size_values.induct)
  case (1 E fd sz)
  then show ?case using emits_Inr by (simp add: emits_def)
next
  case (2 E fd k v vs sz)
  from 2(4) obtain sz' where sz': "add_field E fd v sz = Inr sz'" "size_values E fd vs sz' = Inr m" by auto
  have "emits (encode_values E fd vs) (m - sz')" using "2.IH" [OF sz'(1) 2(2) _ sz'(2)] 2(3) by simp
  with field_emits [OF 2(2) _ sz'(1)] 2(3)
  have "emits (\<lambda>st. rbind (WriteValue E fd v st) (encode_values E fd vs)) (m - sz)"
    by (intro emits_then) auto
  then show ?case by (simp add: emits_def)
qed

lemma encode_emits:
  "RawByteSize E P d v = Inr n \<Longrightarrow> wire_laws E \<Longrightarrow> exact_message E P d v \<Longrightarrow>
     emits (RawEncode E P d v) n"
  "size_entries E P d es sz = Inr m \<Longrightarrow> wire_laws E \<Longrightarrow> exact_entries E P d es \<Longrightarrow>
     emits (encode_entries E P d es) (m - sz)"
  "size_messages E P fd vs sz = Inr m \<Longrightarrow> wire_laws E \<Longrightarrow> exact_messages E P fd vs \<Longrightarrow>
     emits (encode_messages E P fd vs) (m - sz)"
proof (induction E P d v and E P d es sz and E P fd vs sz arbitrary: n and m and m
         rule: RawByteSize_size_entries_size_messages.induct)
  case (1 E P d es)
  then have "emits (encode_entries E P d es) (n - 0)" by simp
  then show ?case by (simp add: emits_def)
next
  case (3 E P d sz)
  then show ?case using emits_Inr by (simp add: emits_def)
next
  case (4 E P d k v es sz)
  from "4.prems"(1) obtain name where name: "get_cstring E k = Inr name" by auto
  show ?case
  proof (cases "FindFieldByName d name")
    case None
    with 4 name show ?thesis by (simp add: emits_def)
  next
    case (Some fd)
    consider (messages) vs where "fd_typ fd = TYPE_MESSAGE" "is_repeated fd" "v = LTab vs"
      | (vals) vs where "fd_typ fd \<noteq> TYPE_MESSAGE" "is_repeated fd" "v = LTab vs"
      | (scalar) "fd_typ fd \<noteq> TYPE_MESSAGE" "\<not> is_repeated fd"
      using "4.prems" name Some by (cases v) (auto split: if_splits)
    then show ?thesis
    proof cases
      case messages
      with "4.prems"(1) name Some obtain sz' where sz': "size_messages E P fd vs sz = Inr sz'"
        "size_entries E P d es sz' = Inr m" by auto
      have "emits (encode_messages E P fd vs) (sz' - sz)"
        using 4(2) [OF name Some messages] sz'(1) "4.prems" messages name Some by simp
      moreover have "emits (encode_entries E P d es) (m - sz')"
        using 4(3) [OF name Some messages sz'(1)] sz'(2) "4.prems" by simp
      ultimately have "emits (\<lambda>st. rbind (encode_messages E P fd vs st)
          (encode_entries E P d es)) (m - sz)"
        by (rule emits_then)
      with name Some messages show ?thesis by (simp add: emits_def)
    next
      case vals
      with "4.prems"(1) name Some obtain sz' where sz': "size_values E fd vs sz = Inr sz'"
        "size_entries E P d es sz' = Inr m" by auto
      have "emits (encode_values E fd vs) (sz' - sz)"
        using sz'(1) "4.prems" vals name Some by (intro values_emits) auto
      moreover have "emits (encode_entries E P d es) (m - sz')"
        using 4(6) [OF name Some vals sz'(1)] sz'(2) "4.prems" by simp
      ultimately have "emits (\<lambda>st. rbind (encode_values E fd vs st)
          (encode_entries E P d es)) (m - sz)"
        by (rule emits_then)
      with name Some vals show ?thesis by (simp add: emits_def)
    next
      case scalar
      with "4.prems"(1) name Some obtain sz' where sz': "add_field E fd v sz = Inr sz'"
        "size_entries E P d es sz' = Inr m" by auto
      have "emits (WriteValue E fd v) (sz' - sz)"
        using sz'(1) "4.prems" scalar name Some by (intro field_emits) auto
      moreover have "emits (encode_entries E P d es) (m - sz')"
        using 4(7) [OF name Some scalar sz'(1)] sz'(2) "4.prems" by simp
      ultimately have "emits (\<lambda>st. rbind (WriteValue E fd v st)
          (encode_entries E P d es)) (m - sz)"
        by (rule emits_then)
      with name Some scalar show ?thesis by (simp add: emits_def)
    qed
  qed
next
  case (5 E P fd sz)
  then show ?case using emits_Inr by (simp add: emits_def)
next
  case (6 E P fd k v vs sz)
  let ?d = "P (message_type fd)"
  from "6.prems"(1) obtain n sz' where n: "RawByteSize E P ?d v = Inr n"
    "sz' = sz + TagSize E (fd_number fd) + (int (VarintSize32 E (word_of_int n)) + n)"
    "size_messages E P fd vs sz' = Inr m" and sums: "int_add sz (TagSize E (fd_number fd)) = Inr (sz + TagSize E (fd_number fd))"
      "int_add (int (VarintSize32 E (word_of_int n))) n = Inr (int (VarintSize32 E (word_of_int n)) + n)"
      "int_add (sz + TagSize E (fd_number fd)) (int (VarintSize32 E (word_of_int n)) + n) = Inr sz'" by auto
  let ?h = "TagSize E (fd_number fd) + int (VarintSize32 E (word_of_int n))"
  have "emits (RawEncode E P ?d v) n" using 6(1) [OF sums(1)] n(1) "6.prems" by simp
  moreover have "emits (encode_messages E P fd vs) (m - sz')"
    using 6(2) [OF sums(1) n(1) sums(2,3) n(3)] "6.prems" by simp
  ultimately have "emits (\<lambda>st. rbind (RawEncode E P ?d v st) (encode_messages E P fd vs))
      (m - (sz + ?h))"
    using emits_step [of "RawEncode E P ?d v" n "encode_messages E P fd vs" m "sz + ?h"] n(2)
    by (simp add: add.assoc)
  with WriteMessageHead_emits [OF "6.prems"(2), of "fd_number fd" n]
  have "emits (\<lambda>st. rbind (WriteMessageHead E (fd_number fd) n st) (\<lambda>st.
      rbind (RawEncode E P ?d v st) (encode_messages E P fd vs))) (m - sz)"
    by (rule emits_step)
  with n show ?case by (simp add: emits_def)
qed simp_all


lemma encode_entries_Nil: "encode_entries E P d [] = Inr"
  by (simp add: fun_eq_iff)

lemma append_entries:
  "size_entries E P d (xs @ ys) sz = rbind (size_entries E P d xs sz) (size_entries E P d ys)"
  "encode_entries E P d (xs @ ys) st = rbind (encode_entries E P d xs st) (encode_entries E P d ys)"
  "exact_entries E P d (xs @ ys) \<longleftrightarrow> exact_entries E P d xs \<and> exact_entries E P d ys"
proof -
  show "size_entries E P d (xs @ ys) sz = rbind (size_entries E P d xs sz) (size_entries E P d ys)"
  proof (induction xs arbitrary: sz)
    case (Cons e xs)
    obtain k v where e: "e = (k, v)" by (cases e)
    show ?case
    proof (cases "get_cstring E k")
      case (Inr name)
      with Cons e show ?thesis
        by (cases "FindFieldByName d name"; cases v) (auto simp: rbind_assoc fun_eq_iff intro!: arg_cong [where f = "rbind _"])
    qed (simp add: e)
  qed simp
  show "encode_entries E P d (xs @ ys) st = rbind (encode_entries E P d xs st) (encode_entries E P d ys)"
  proof (induction xs arbitrary: st)
    case (Cons e xs)
    obtain k v where e: "e = (k, v)" by (cases e)
    show ?case
    proof (cases "get_cstring E k")
      case (Inr name)
      with Cons e show ?thesis
        by (cases "FindFieldByName d name"; cases v) (auto simp: rbind_assoc fun_eq_iff intro!: arg_cong [where f = "rbind _"])
    qed (simp add: e)
  qed simp
  show "exact_entries E P d (xs @ ys) \<longleftrightarrow> exact_entries E P d xs \<and> exact_entries E P d ys"
    by (induction xs) auto
qed

text \<open>A size is an \<open>int\<close> that did not overflow.\<close>

lemma values_bound: "size_values E fd vs sz = Inr m \<Longrightarrow> sz < 2147483648 \<Longrightarrow> m < 2147483648"
  by (induction E fd vs sz rule: size_values.induct) (auto simp: add_field_def)

lemma int_add_bound: "int_add a b = Inr c \<Longrightarrow> c < 2147483648"
  by simp

lemma messages_bound: "size_messages E P fd vs sz = Inr m \<Longrightarrow> sz < 2147483648 \<Longrightarrow> m < 2147483648"
proof (induction vs arbitrary: sz)
  case (Cons e vs)
  then show ?case by (cases e) (auto simp del: int_add_Inr dest: int_add_bound)
qed simp

lemma entries_bound: "size_entries E P d es sz = Inr m \<Longrightarrow> sz < 2147483648 \<Longrightarrow> m < 2147483648"
proof (induction es arbitrary: sz)
  case (Cons e es)
  obtain k v where e: "e = (k, v)" by (cases e)
  with Cons.prems(1) obtain name where name: "get_cstring E k = Inr name" by auto
  have "\<exists>sz'. size_entries E P d es sz' = Inr m \<and> sz' < 2147483648"
  proof (cases "FindFieldByName d name")
    case None
    with e name Cons.prems show ?thesis by auto
  next
    case (Some fd)
    with e name Cons.prems show ?thesis
      by (cases v) (auto simp: add_field_def simp del: int_add_Inr split: if_splits
            dest: int_add_bound values_bound messages_bound)
  qed
  with Cons.IH show ?case by blast
qed simp

lemma size_bound: "RawByteSize E P d v = Inr n \<Longrightarrow> n < 2 ^ 31"
  by (cases v) (auto dest: entries_bound)

lemma Encode_emits:
  assumes "FindMessage name = Some d" "RawByteSize E P d v = Inr n" "0 \<le> n"
    "\<And>st. fits st \<Longrightarrow> RawEncode E P d v st = emit st out"
  shows "Encode E P FindMessage name v =
    (if int (length out) \<le> n then Inr (Some (map Some out @ replicate (nat n - length out) None))
     else Inl (UB ''heap overflow''))"
proof -
  have "unat (word_of_int n :: u32) = nat n"
    using size_bound [OF assms(2)] assms(3)
    by (simp add: unat_eq_nat_uint uint_word_of_int take_bit_int_eq_self)
  with assms show ?thesis by (auto simp: Encode_def PBStream_new_def fits_def emit_def)
qed

text \<open>
  C1. On the tables described above (no single sub-message, no 64-bit integer field, every
  enumeration name defined, every float convertible, strings below 2 GB), once the size
  computation succeeds, which it does only without signed overflow and for types it knows,
  \<open>Encode\<close> writes every byte of the buffer it allocated, and no other.
\<close>

theorem Encode_exact:
  assumes "wire_laws E" "FindMessage name = Some d" "exact_message E P d v"
    "RawByteSize E P d v = Inr n"
  shows "\<exists>out. int (length out) = n \<and> Encode E P FindMessage name v = Inr (Some (map Some out))"
proof -
  obtain out where out: "int (length out) = n"
    "\<And>st. fits st \<Longrightarrow> RawEncode E P d v st = emit st out"
    using encode_emits(1) [OF assms(4,1,3)] by (auto simp: emits_def)
  then have "Encode E P FindMessage name v = Inr (Some (map Some out))"
    using Encode_emits [where FindMessage = FindMessage and name = name, OF assms(2,4) _ out(2)] by auto
  with out(1) show ?thesis by blast
qed

subsection \<open>Where the two walks disagree\<close>

text \<open>
  \<open>RawByteSize\<close> does not count the length prefix of a single sub-message, which
  \<open>RawEncode\<close> writes.
\<close>

text \<open>
  C2. Encoding a message whose only entry is a single sub-message writes past the end of the
  buffer, by the one to five bytes of the sub-message's length prefix; unless the size
  already overflows an \<open>int\<close>, which is undefined too.
\<close>

theorem single_message_overflows:
  assumes W: "wire_laws E" and M: "FindMessage m = Some d"
    and k: "get_cstring E k = Inr name" "FindFieldByName d name = Some fd"
      "fd_typ fd = TYPE_MESSAGE" "\<not> is_repeated fd"
    and v: "RawByteSize E P (P (message_type fd)) v = Inr n"
      "exact_message E P (P (message_type fd)) v"
  shows "Encode E P FindMessage m (LTab [(k, v)]) =
    Inl (UB (if TagSize E (fd_number fd) + n < 2 ^ 31 then ''heap overflow'' else ''signed overflow''))"
proof -
  let ?t = "TagSize E (fd_number fd)"
  obtain out where out: "int (length out) = n"
    "\<And>st. fits st \<Longrightarrow> RawEncode E P (P (message_type fd)) v st = emit st out"
    using encode_emits(1) [OF v(1) W v(2)] by (auto simp: emits_def)
  have t: "0 \<le> ?t" "?t \<le> 5" using W by (simp_all add: TagSize_def wire_laws_def)
  then have t0: "int_add 0 ?t = Inr ?t" by simp
  show ?thesis
  proof (cases "?t + n < 2 ^ 31")
    case False
    with k v t out(1) M show ?thesis by (simp add: Encode_def t0) (simp add: int_add_def)
  next
    case True
    with k v t0 t(1) out(1) have size: "RawByteSize E P d (LTab [(k, v)]) = Inr (?t + n)"
      by (simp add: rbind_Inr_iff)
    define hd where "hd = WriteTagToArray E (fd_number fd) WIRETYPE_LENGTH_DELIMITED
      @ WriteVarint32ToArray E (word_of_int n)"
    have hd: "?t < int (length hd)"
      using W by (auto simp: hd_def wire_laws_def TagSize_def Suc_le_eq)
    have "RawEncode E P d (LTab [(k, v)]) st = emit st (hd @ out)" if "fits st" for st
    proof -
      have "RawEncode E P d (LTab [(k, v)]) st =
          rbind (emit st hd) (RawEncode E P (P (message_type fd)) v)"
        using k v(1) by (simp add: WriteMessageHead_def emit_append hd_def encode_entries_Nil)
      also have "\<dots> = rbind (emit st hd) (\<lambda>st. emit st out)"
        using emit_fits out(2) by (cases "emit st hd") auto
      finally show ?thesis by (simp add: emit_append)
    qed
    from Encode_emits [where FindMessage = FindMessage and name = m, OF M size _ this]
    show ?thesis using True t(1) out(1) hd by auto
  qed
qed

text \<open>
  What the size computation counts for a 64-bit integer field that holds the text
  \<open>s\<close>: the varint of the number \<open>sscanf\<close> reads, of zero when it reads none.
\<close>

definition size64 :: "pb_env \<Rightarrow> fd_type \<Rightarrow> string \<Rightarrow> nat" where
  "size64 E t s =
     (if t = TYPE_INT64
      then Int64Size E (case sscanf_lld E s of None \<Rightarrow> 0 | Some i \<Rightarrow> word_of_int i)
      else UInt64Size E (case sscanf_llu E s of None \<Rightarrow> 0 | Some i \<Rightarrow> word_of_int i))"

lemma emits_obtain:
  assumes "emits w n"
  obtains out where "int (length out) = n" "\<And>st. fits st \<Longrightarrow> w st = emit st out"
  using assms by (auto simp: emits_def)

lemma emit_seq3:
  assumes "fits st" "\<And>st. fits st \<Longrightarrow> w1 st = emit st a" "\<And>st. fits st \<Longrightarrow> w2 st = emit st b"
    "\<And>st. fits st \<Longrightarrow> w3 st = emit st c"
  shows "rbind (w1 st) (\<lambda>st. rbind (w2 st) w3) = emit st (a @ b @ c)"
proof -
  have "rbind (w2 st) w3 = emit st (b @ c)" if "fits st" for st
    using emit_fits [of st b] assms(3,4) that
    by (cases "emit st b") (auto simp flip: emit_append)
  then show ?thesis
    using emit_fits [of st a] assms(1,2)
    by (cases "emit st a") (auto simp flip: emit_append)
qed

text \<open>
  C3. A field of type \<open>TYPE_INT64\<close> or \<open>TYPE_UINT64\<close> holding the text \<open>s\<close>, anywhere
  in a table that is otherwise as in \<open>Encode_exact\<close>: it is written as a string (tag, length
  prefix and text), but counted as the varint of the parsed number. The buffer is overrun
  when the varint is shorter than prefix and text together; when it is longer, as many
  indeterminate bytes as it is longer end the result; when the two agree, nothing is wrong.
\<close>

theorem int64_field_outcome:
  assumes W: "wire_laws E" and M: "FindMessage m = Some d"
    and k: "get_cstring E k = Inr name" "FindFieldByName d name = Some fd"
      "fd_typ fd \<in> {TYPE_INT64, TYPE_UINT64}" "\<not> is_repeated fd"
    and v: "get_cstring E v = Inr s" "length s < 2 ^ 31"
    and others: "exact_entries E P d xs" "exact_entries E P d ys"
    and n: "RawByteSize E P d (LTab (xs @ (k, v) # ys)) = Inr n"
  defines "written \<equiv> VarintSize32 E (word_of_nat (length s)) + length s"
    and "counted \<equiv> size64 E (fd_typ fd) s"
    and "field \<equiv> WriteTagToArray E (fd_number fd) WIRETYPE_LENGTH_DELIMITED
                   @ WriteVarint32ToArray E (word_of_nat (length s)) @ map of_char s"
  shows "\<exists>before after.
    int (length before + length after) = n - TagSize E (fd_number fd) - int counted \<and>
    Encode E P FindMessage m (LTab (xs @ (k, v) # ys)) =
      (if counted < written then Inl (UB ''heap overflow'')
       else Inr (Some (map Some (before @ field @ after) @ replicate (counted - written) None)))"
proof -
  let ?t = "TagSize E (fd_number fd)"
  have size: "add_field E fd v sz = Inr sz' \<longleftrightarrow> sz' = sz + ?t + int counted \<and>
      - (2 ^ 31) \<le> sz + ?t \<and> sz + ?t < 2 ^ 31 \<and> - (2 ^ 31) \<le> sz' \<and> sz' < 2 ^ 31" for sz sz'
    using k(3) v(1) by (auto simp: add_field_def FieldSize_def counted_def size64_def rbind_Inr_iff)
  from n obtain a where a: "size_entries E P d xs 0 = Inr a" "size_entries E P d ys (a + ?t + int counted) = Inr n"
    using k by (auto simp: append_entries size)
  obtain before where before: "int (length before) = a"
      "\<And>st. fits st \<Longrightarrow> encode_entries E P d xs st = emit st before"
    using encode_emits(2) [OF a(1) W others(1)] by (auto elim: emits_obtain)
  obtain after where after: "int (length after) = n - (a + ?t + int counted)"
      "\<And>st. fits st \<Longrightarrow> encode_entries E P d ys st = emit st after"
    using encode_emits(2) [OF a(2) W others(2)] by (auto elim: emits_obtain)
  have val: "WriteValue E fd v = (\<lambda>st. emit st field)"
    using WriteValue_text [OF W _ v] k(3) by (auto simp: field_def)
  have cons: "encode_entries E P d ((k, v) # ys) = (\<lambda>st. rbind (WriteValue E fd v st) (encode_entries E P d ys))"
    using k by (auto simp: fun_eq_iff)
  have "RawEncode E P d (LTab (xs @ (k, v) # ys)) st = emit st (before @ field @ after)" if "fits st" for st
    using emit_seq3 [OF that, of "encode_entries E P d xs" before "WriteValue E fd v" field
        "encode_entries E P d ys" after] before(2) after(2) val k
    by (simp add: append_entries cons)
  from Encode_emits [where FindMessage = FindMessage and name = m, OF M n _ this]
  have enc: "0 \<le> n \<Longrightarrow> Encode E P FindMessage m (LTab (xs @ (k, v) # ys)) =
      (if int (length (before @ field @ after)) \<le> n
       then Inr (Some (map Some (before @ field @ after) @ replicate (nat n - length (before @ field @ after)) None))
       else Inl (UB ''heap overflow''))" by simp
  have len: "int (length field) = ?t + int written"
    unfolding field_def written_def using text_length [OF W] by simp
  have t: "0 \<le> ?t" by (simp add: TagSize_def)
  have n': "n = int (length before) + ?t + int counted + int (length after)" using before(1) after(1) by simp
  have "nat n - length (before @ field @ after) = counted - written"
    using len t by (simp add: n')
  moreover have "int (length (before @ field @ after)) \<le> n \<longleftrightarrow> \<not> counted < written"
    using len by (auto simp: n')
  ultimately have "Encode E P FindMessage m (LTab (xs @ (k, v) # ys)) =
      (if counted < written then Inl (UB ''heap overflow'')
       else Inr (Some (map Some (before @ field @ after) @ replicate (counted - written) None)))"
    using enc t n' by auto
  moreover have "int (length before + length after) = n - ?t - int counted" using n' by simp
  ultimately show ?thesis by blast
qed

subsection \<open>Concrete runs\<close>

text \<open>
  The descriptors of a small schema: message 0 has a string \<open>number\<close>, a 64-bit
  \<open>stamp\<close> and a single sub-message \<open>child\<close> of its own type.
\<close>

definition demo_field :: "string \<Rightarrow> int \<Rightarrow> fd_type \<Rightarrow> field_desc" where
  "demo_field n k t = \<lparr>fd_name = n, fd_full_name = ''M.'' @ n, fd_number = k, fd_typ = t,
     is_repeated = False, message_type = 0, enum_type = None\<rparr>"

definition demo_msg :: descriptor where
  "demo_msg = \<lparr>FindFieldByName = (\<lambda>s. if s = ''number'' then Some (demo_field ''number'' 1 TYPE_STRING)
       else if s = ''stamp'' then Some (demo_field ''stamp'' 2 TYPE_INT64)
       else if s = ''child'' then Some (demo_field ''child'' 3 TYPE_MESSAGE) else None),
     FindFieldByNumber = (\<lambda>k. if k = 1 then Some (demo_field ''number'' 1 TYPE_STRING)
       else if k = 2 then Some (demo_field ''stamp'' 2 TYPE_INT64)
       else if k = 3 then Some (demo_field ''child'' 3 TYPE_MESSAGE) else None)\<rparr>"

definition demo_pool :: pool where "demo_pool = (\<lambda>_. demo_msg)"
definition demo_find :: "string \<Rightarrow> descriptor option" where
  "demo_find s = (if s = ''M'' then Some demo_msg else None)"

lemmas demo_defs = demo_field_def demo_msg_def demo_pool_def demo_find_def
lemmas encode_eval = demo_defs get_cstring_def c_str_def FieldSize_def TagSize_def
  demo_env_def varint_env_def varint_bytes.simps exact_value_def

definition demo_number :: lval where "demo_number = LTab [(LStr ''number'', LStr ''789'')]"

lemma demo_number_size: "RawByteSize demo_env demo_pool demo_msg demo_number = Inr 5"
  by (simp add: demo_number_def encode_eval add_field_def rbind_Inr_iff)

lemma demo_number_exact: "exact_message demo_env demo_pool demo_msg demo_number"
  by (simp add: demo_number_def encode_eval)

theorem Encode_exact_witness:
  "\<exists>out. int (length out) = 5 \<and>
    Encode demo_env demo_pool demo_find ''M'' demo_number = Inr (Some (map Some out))"
  by (rule Encode_exact [OF demo_env_laws _ demo_number_exact demo_number_size])
     (simp add: demo_find_def)

theorem single_message_overflows_witness:
  "Encode demo_env demo_pool demo_find ''M'' (LTab [(LStr ''child'', demo_number)]) =
     Inl (UB ''heap overflow'')"
  by (subst single_message_overflows [OF demo_env_laws, where d = demo_msg and name = "''child''"
        and fd = "demo_field ''child'' 3 TYPE_MESSAGE" and n = 5])
     (use demo_number_size demo_number_exact in
       \<open>simp_all add: encode_eval demo_find_def\<close>)

text \<open>A table with a text before the 64-bit field: the overrun, and the two agreeing.\<close>

definition demo_stamp :: "string \<Rightarrow> lval" where
  "demo_stamp s = LTab ([(LStr ''number'', LStr ''789'')] @ (LStr ''stamp'', LStr s) # [])"

lemma varint_demo:
  "length (varint_bytes 1) = 1" "length (varint_bytes 2) = 1" "length (varint_bytes 3) = 1"
  "length (varint_bytes 7) = 1" "length (varint_bytes 8) = 1" "length (varint_bytes 16) = 1"
  "length (varint_bytes (unat (- 1 :: 64 word))) = 10"
proof -
  have "unat (- 1 :: 64 word) = 18446744073709551615" by (simp add: unsigned_minus_1_eq_mask mask_eq_exp_minus_1)
  then show "length (varint_bytes (unat (- 1 :: 64 word))) = 10" by (simp add: varint_bytes.simps)
qed (simp_all add: varint_bytes.simps)

lemmas demo_env_eval = demo_defs get_cstring_def c_str_def FieldSize_def TagSize_def
  demo_env_def varint_env_def exact_value_def varint_demo [simplified] add_field_def rbind_Inr_iff

lemma demo_size64:
  "size64 demo_env TYPE_INT64 ''7'' = 1" "size64 demo_env TYPE_INT64 ''-1'' = 10"
  by (simp_all add: size64_def demo_env_eval)

lemma demo_stamp_size:
  "RawByteSize demo_env demo_pool demo_msg (demo_stamp ''7'') = Inr 7"
  "RawByteSize demo_env demo_pool demo_msg (demo_stamp ''-1'') = Inr 16"
  by (simp_all add: demo_stamp_def demo_env_eval Let_def)

lemma demo_stamp_parts:
  "get_cstring demo_env (LStr ''stamp'') = Inr ''stamp''"
  "get_cstring demo_env (LStr ''7'') = Inr ''7''" "get_cstring demo_env (LStr ''-1'') = Inr ''-1''"
  "FindFieldByName demo_msg ''stamp'' = Some (demo_field ''stamp'' 2 TYPE_INT64)"
  "fd_typ (demo_field ''stamp'' 2 TYPE_INT64) = TYPE_INT64"
  "\<not> is_repeated (demo_field ''stamp'' 2 TYPE_INT64)"
  "exact_entries demo_env demo_pool demo_msg [(LStr ''number'', LStr ''789'')]"
  "VarintSize32 demo_env 1 = 1" "VarintSize32 demo_env 2 = 1"
  "exact_entries demo_env demo_pool demo_msg []"
  by (simp_all add: encode_eval)

theorem int64_field_outcome_witness:
  "Encode demo_env demo_pool demo_find ''M'' (demo_stamp ''7'') = Inl (UB ''heap overflow'') \<and>
   (\<exists>out. Encode demo_env demo_pool demo_find ''M'' (demo_stamp ''-1'') =
      Inr (Some (map Some out @ replicate 7 None)))"
proof -
  have M: "demo_find ''M'' = Some demo_msg" by (simp add: demo_find_def)
  have t: "fd_typ (demo_field ''stamp'' 2 TYPE_INT64) \<in> {TYPE_INT64, TYPE_UINT64}"
    by (simp add: demo_stamp_parts)
  note run = int64_field_outcome [where FindMessage = demo_find and m = "''M''" and P = demo_pool
      and xs = "[(LStr ''number'', LStr ''789'')]" and ys = "[]" and d = demo_msg
      and name = "''stamp''" and fd = "demo_field ''stamp'' 2 TYPE_INT64",
      OF demo_env_laws M demo_stamp_parts(1,4) t demo_stamp_parts(6)]
  have "Encode demo_env demo_pool demo_find ''M'' (demo_stamp ''7'') = Inl (UB ''heap overflow'')"
    using run [OF demo_stamp_parts(2) _ demo_stamp_parts(7,10) demo_stamp_size(1) [unfolded demo_stamp_def]]
    by (simp add: demo_stamp_parts demo_size64 demo_stamp_def)
  moreover have "\<exists>out. Encode demo_env demo_pool demo_find ''M'' (demo_stamp ''-1'') =
      Inr (Some (map Some out @ replicate 7 None))"
    using run [OF demo_stamp_parts(3) _ demo_stamp_parts(7,10) demo_stamp_size(2) [unfolded demo_stamp_def]]
    by (simp add: demo_stamp_parts demo_size64 demo_stamp_def flip: map_append) blast
  ultimately show ?thesis by blast
qed

end
