(* ===== verification/PbDecode.thy ===== *)
theory PbDecode
  imports PbWire
begin

text \<open>
  The decoder: the read side of \<open>src/Stream.cpp\<close> and \<open>src/Decoder.cpp\<close>. The
  \<open>CodedInputStream\<close> of protobuf is the record \<open>reader\<close> of operations on a state of
  any type; the termination argument needs only that its operations never give bytes back
  and that a tag takes at least one. \<open>coded_reader\<close> at the end is such a stream over a
  byte list, for concrete runs.
\<close>

record 's reader =
  ReadTag :: "'s \<Rightarrow> u32 \<times> 's"
  GetTagFieldNumber :: "u32 \<Rightarrow> int"
  ReadFloat :: "'s \<Rightarrow> u32 option \<times> 's"
  ReadInt32 :: "'s \<Rightarrow> u32 option \<times> 's"
  ReadBool :: "'s \<Rightarrow> bool option \<times> 's"
  ReadUInt32 :: "'s \<Rightarrow> u32 option \<times> 's"
  ReadEnum :: "'s \<Rightarrow> u32 option \<times> 's"
  ReadString :: "'s \<Rightarrow> bool \<times> string \<times> 's"
  IncrementRecursionDepth :: "'s \<Rightarrow> bool \<times> 's"
  DecrementRecursionDepth :: "'s \<Rightarrow> 's"
  PushLimit :: "int \<Rightarrow> 's \<Rightarrow> int \<times> 's"
  PopLimit :: "int \<Rightarrow> 's \<Rightarrow> 's"
  ConsumedEntireMessage :: "'s \<Rightarrow> bool"
  int2number :: "int \<Rightarrow> lnum"
  float2number :: "u32 \<Rightarrow> lnum"

type_synonym entries = "(lval \<times> lval) list"

subsection \<open>Storing a decoded value\<close>

fun entry_set :: "entries \<Rightarrow> lval \<Rightarrow> lval \<Rightarrow> entries" where
  "entry_set [] k v = [(k, v)]"
| "entry_set ((k', v') # es) k v =
     (if k' = k then (k, v) # es else (k', v') # entry_set es k v)"

text \<open>
  \<open>LuaRef::append\<close> stores at \<open>lua_objlen + 1\<close> (\<open>luaL_ref\<close> with an empty free
  list). The lists it is used on were built by it, so their length is their entry count.
\<close>

definition list_append :: "'s reader \<Rightarrow> entries \<Rightarrow> lval \<Rightarrow> entries" where
  "list_append R es v = es @ [(LNum (int2number R (int (length es) + 1)), v)]"

definition FillValue :: "'s reader \<Rightarrow> field_desc \<Rightarrow> lval \<Rightarrow> entries \<Rightarrow> entries" where
  "FillValue R fd v msgTable =
     (if is_repeated fd then
        (case map_of msgTable (LStr (fd_name fd)) of
           Some (LTab es) \<Rightarrow> entry_set msgTable (LStr (fd_name fd)) (LTab (list_append R es v))
         | _ \<Rightarrow> entry_set msgTable (LStr (fd_name fd)) (LTab (list_append R [] v)))
      else entry_set msgTable (LStr (fd_name fd)) v)"

subsection \<open>The stream's read operations\<close>

text \<open>
  A failed primitive read leaves \<open>Value\<close> at its initial zero, and the result flag
  \<open>OK\<close> is never looked at: the zero is stored.
\<close>

definition ReadValue ::
  "'s reader \<Rightarrow> field_desc \<Rightarrow> entries \<Rightarrow> 's \<Rightarrow> (entries \<times> 's) res" where
  "ReadValue R fd msgTable s =
    (case fd_typ fd of
       TYPE_FLOAT \<Rightarrow>
         (case ReadFloat R s of (r, s) \<Rightarrow>
          Inr (FillValue R fd (LNum (float2number R (case r of None \<Rightarrow> 0 | Some x \<Rightarrow> x))) msgTable, s))
     | TYPE_INT32 \<Rightarrow>
         (case ReadInt32 R s of (r, s) \<Rightarrow>
          Inr (FillValue R fd (LNum (int2number R (case r of None \<Rightarrow> 0 | Some x \<Rightarrow> sint x))) msgTable, s))
     | TYPE_BOOL \<Rightarrow>
         (case ReadBool R s of (r, s) \<Rightarrow>
          Inr (FillValue R fd (LBool (case r of None \<Rightarrow> False | Some b \<Rightarrow> b)) msgTable, s))
     | TYPE_STRING \<Rightarrow>
         (case ReadString R s of (_, v, s) \<Rightarrow> Inr (FillValue R fd (LStr v) msgTable, s))
     | TYPE_INT64 \<Rightarrow>
         (case ReadString R s of (_, v, s) \<Rightarrow> Inr (FillValue R fd (LStr v) msgTable, s))
     | TYPE_UINT64 \<Rightarrow>
         (case ReadString R s of (_, v, s) \<Rightarrow> Inr (FillValue R fd (LStr v) msgTable, s))
     | TYPE_UINT32 \<Rightarrow>
         (case ReadUInt32 R s of (r, s) \<Rightarrow>
          Inr (FillValue R fd (LNum (int2number R (case r of None \<Rightarrow> 0 | Some x \<Rightarrow> uint x))) msgTable, s))
     | TYPE_ENUM \<Rightarrow>
         (case ReadEnum R s of (r, s) \<Rightarrow>
          let Number = (case r of None \<Rightarrow> 0 | Some x \<Rightarrow> sint x) in
          (case enum_type fd of
             None \<Rightarrow> Inl (UB ''null enum descriptor'')
           | Some ed \<Rightarrow>
               (case FindValueByNumber ed Number of
                  None \<Rightarrow> Inr (msgTable, s)
                | Some name \<Rightarrow> Inr (FillValue R fd (LStr name) msgTable, s))))
     | _ \<Rightarrow> Inr (msgTable, s))"

definition BeginMessage :: "'s reader \<Rightarrow> 's \<Rightarrow> bool \<times> int option \<times> 's" where
  "BeginMessage R s =
     (case ReadInt32 R s of
        (None, s) \<Rightarrow> (False, None, s)
      | (Some sz, s) \<Rightarrow>
          (case IncrementRecursionDepth R s of
             (False, s) \<Rightarrow> (False, None, s)
           | (True, s) \<Rightarrow> (case PushLimit R (sint sz) s of (limit, s) \<Rightarrow> (True, Some limit, s))))"

definition EndMessage :: "'s reader \<Rightarrow> int \<Rightarrow> 's \<Rightarrow> bool \<times> 's" where
  "EndMessage R limit s =
     (if \<not> ConsumedEntireMessage R s then (False, s)
      else (True, DecrementRecursionDepth R (PopLimit R limit s)))"

definition ReadFieldNumber :: "'s reader \<Rightarrow> 's \<Rightarrow> int \<times> 's" where
  "ReadFieldNumber R s =
     (case ReadTag R s of (tag, s) \<Rightarrow> (if tag = 0 then 0 else GetTagFieldNumber R tag, s))"

subsection \<open>Decoding a message\<close>

text \<open>
  The \<open>for (;;)\<close> loop of \<open>RawDecode\<close>, with fuel. The results of \<open>BeginMessage\<close>
  and \<open>EndMessage\<close> are ignored, as in the source; when \<open>BeginMessage\<close> fails,
  \<open>limit\<close> is indeterminate, and passing it on is undefined. A field number without a
  descriptor makes the loop read the next tag where the unknown field's payload starts.
\<close>

fun RawDecode :: "'s reader \<Rightarrow> pool \<Rightarrow> nat \<Rightarrow> descriptor \<Rightarrow> entries \<Rightarrow> 's \<Rightarrow>
    (entries \<times> 's) res option" where
  "RawDecode R P 0 msgD tab s = None"
| "RawDecode R P (Suc n) msgD tab s =
    (case ReadFieldNumber R s of (fieldnumber, s) \<Rightarrow>
     if fieldnumber = 0 then Some (Inr (tab, s))
     else (case FindFieldByNumber msgD fieldnumber of
       None \<Rightarrow> RawDecode R P n msgD tab s
     | Some fd \<Rightarrow>
         if fd_typ fd = TYPE_MESSAGE then
           (case BeginMessage R s of (_, limit, s) \<Rightarrow>
            (case RawDecode R P n (P (message_type fd)) [] s of
               None \<Rightarrow> None
             | Some (Inl e) \<Rightarrow> Some (Inl e)
             | Some (Inr (value, s)) \<Rightarrow>
                 (case limit of
                    None \<Rightarrow> Some (Inl (UB ''indeterminate limit''))
                  | Some l \<Rightarrow>
                      (case EndMessage R l s of (_, s) \<Rightarrow>
                       RawDecode R P n msgD (FillValue R fd (LTab value) tab) s))))
         else
           (case ReadValue R fd tab s of
              Inl e \<Rightarrow> Some (Inl e)
            | Inr (tab, s) \<Rightarrow> RawDecode R P n msgD tab s)))"

definition Decode :: "'s reader \<Rightarrow> pool \<Rightarrow> nat \<Rightarrow> (string \<Rightarrow> descriptor option) \<Rightarrow>
    string \<Rightarrow> 's \<Rightarrow> lval option res option" where
  "Decode R P fuel FindMessage name s =
     (case FindMessage name of
        None \<Rightarrow> Some (Inr None)
      | Some msgD \<Rightarrow>
          map_option (rmap (\<lambda>(tab, _). Some (LTab tab))) (RawDecode R P fuel msgD [] s))"

subsection \<open>Termination\<close>

text \<open>
  The contract of an input stream that the loop's termination rests on, with \<open>left\<close> the
  number of bytes not yet consumed: no operation gives bytes back, and a non-zero tag has
  consumed at least one.
\<close>

definition reader_laws :: "'s reader \<Rightarrow> ('s \<Rightarrow> nat) \<Rightarrow> bool" where
  "reader_laws R left \<longleftrightarrow>
     (\<forall>s. case ReadTag R s of (t, s') \<Rightarrow> left s' \<le> left s \<and> (t \<noteq> 0 \<longrightarrow> left s' < left s)) \<and>
     (\<forall>s. left (snd (ReadFloat R s)) \<le> left s) \<and>
     (\<forall>s. left (snd (ReadInt32 R s)) \<le> left s) \<and>
     (\<forall>s. left (snd (ReadBool R s)) \<le> left s) \<and>
     (\<forall>s. left (snd (ReadUInt32 R s)) \<le> left s) \<and>
     (\<forall>s. left (snd (ReadEnum R s)) \<le> left s) \<and>
     (\<forall>s. left (snd (snd (ReadString R s))) \<le> left s) \<and>
     (\<forall>s. left (snd (IncrementRecursionDepth R s)) \<le> left s) \<and>
     (\<forall>s. left (DecrementRecursionDepth R s) \<le> left s) \<and>
     (\<forall>s n. left (snd (PushLimit R n s)) \<le> left s) \<and>
     (\<forall>s n. left (PopLimit R n s) \<le> left s)"

locale input_stream =
  fixes R :: "'s reader" and left :: "'s \<Rightarrow> nat"
  assumes laws: "reader_laws R left"
begin

lemma ReadFieldNumber_left:
  assumes "ReadFieldNumber R s = (k, s')"
  shows "left s' \<le> left s" "k \<noteq> 0 \<Longrightarrow> left s' < left s"
proof -
  obtain t where t: "ReadTag R s = (t, s')" "k = (if t = 0 then 0 else GetTagFieldNumber R t)"
    using assms by (auto simp: ReadFieldNumber_def split: prod.splits)
  have "case ReadTag R s of (t, s') \<Rightarrow> left s' \<le> left s \<and> (t \<noteq> 0 \<longrightarrow> left s' < left s)"
    using laws by (simp add: reader_laws_def)
  then show "left s' \<le> left s" "k \<noteq> 0 \<Longrightarrow> left s' < left s" using t by auto
qed

lemma ReadInt32_left: "ReadInt32 R s = (r, s') \<Longrightarrow> left s' \<le> left s"
  using laws by (metis reader_laws_def snd_conv)

lemma BeginMessage_left:
  assumes "BeginMessage R s = (ok, limit, s')"
  shows "left s' \<le> left s"
proof -
  obtain r s1 where 1: "ReadInt32 R s = (r, s1)" by fastforce
  obtain b s2 where 2: "IncrementRecursionDepth R s1 = (b, s2)" by fastforce
  have "left s1 \<le> left s" using 1 by (rule ReadInt32_left)
  moreover have "left s2 \<le> left s1" using laws 2 by (metis reader_laws_def snd_conv)
  moreover have "left (snd (PushLimit R n s2)) \<le> left s2" for n
    using laws by (simp add: reader_laws_def)
  ultimately show ?thesis
    using assms 1 2
    by (auto simp: BeginMessage_def split: option.splits bool.splits prod.splits
        intro: order_trans) (metis order_trans snd_conv)
qed

lemma EndMessage_left: "EndMessage R l s = (ok, s') \<Longrightarrow> left s' \<le> left s"
  using laws by (auto simp: EndMessage_def reader_laws_def split: if_splits intro: order_trans)

lemma ReadValue_left:
  assumes "ReadValue R fd tab s = Inr (tab', s')"
  shows "left s' \<le> left s"
proof -
  have *: "\<And>r s'. ReadFloat R s = (r, s') \<Longrightarrow> left s' \<le> left s"
    "\<And>r s'. ReadInt32 R s = (r, s') \<Longrightarrow> left s' \<le> left s"
    "\<And>r s'. ReadBool R s = (r, s') \<Longrightarrow> left s' \<le> left s"
    "\<And>r s'. ReadUInt32 R s = (r, s') \<Longrightarrow> left s' \<le> left s"
    "\<And>r s'. ReadEnum R s = (r, s') \<Longrightarrow> left s' \<le> left s"
    "\<And>r v s'. ReadString R s = (r, v, s') \<Longrightarrow> left s' \<le> left s"
    using laws by (metis reader_laws_def snd_conv)+
  show ?thesis using assms
    by (auto simp: ReadValue_def Let_def split: fd_type.splits prod.splits option.splits dest: *)
qed

lemma RawDecode_terminates:
  "left s < n \<Longrightarrow> \<exists>r. RawDecode R P n d tab s = Some r \<and>
     (\<forall>tab' s'. r = Inr (tab', s') \<longrightarrow> left s' \<le> left s)"
proof (induction n arbitrary: d tab s)
  case (Suc n)
  obtain k s1 where k: "ReadFieldNumber R s = (k, s1)" by fastforce
  show ?case
  proof (cases "k = 0 \<or> FindFieldByNumber d k = None")
    case True
    show ?thesis
    proof (cases "k = 0")
      case True
      with k show ?thesis using ReadFieldNumber_left(1) [OF k] by simp
    next
      case False
      with k True ReadFieldNumber_left [OF k] Suc.prems Suc.IH [of s1 d tab]
      show ?thesis by fastforce
    qed
  next
    case False
    then obtain fd where fd: "FindFieldByNumber d k = Some fd" "k \<noteq> 0" by auto
    have s1: "left s1 < left s" using ReadFieldNumber_left(2) [OF k fd(2)] .
    show ?thesis
    proof (cases "fd_typ fd = TYPE_MESSAGE")
      case True
      obtain ok limit s2 where b: "BeginMessage R s1 = (ok, limit, s2)" by (cases "BeginMessage R s1")
      have s2: "left s2 \<le> left s1" using BeginMessage_left [OF b] .
      obtain r where r: "RawDecode R P n (P (message_type fd)) [] s2 = Some r"
        "\<And>tab' s'. r = Inr (tab', s') \<Longrightarrow> left s' \<le> left s2"
        using Suc.IH [of s2] Suc.prems s1 s2 by fastforce
      show ?thesis
      proof (cases r)
        case (Inl e)
        with k fd True b r show ?thesis by simp
      next
        case (Inr vs)
        obtain v s3 where vs: "vs = (v, s3)" by (cases vs)
        show ?thesis
        proof (cases limit)
          case None
          with k fd True b r Inr vs show ?thesis by simp
        next
          case (Some l)
          obtain ok' s4 where e: "EndMessage R l s3 = (ok', s4)" by fastforce
          have "left s4 \<le> left s2" using EndMessage_left [OF e] r(2) Inr vs by fastforce
          then have "left s4 < n" "left s4 \<le> left s" using s1 s2 Suc.prems by linarith+
          with k fd True b r Inr vs Some e Suc.IH [of s4 d "FillValue R fd (LTab v) tab"]
          show ?thesis by fastforce
        qed
      qed
    next
      case False
      show ?thesis
      proof (cases "ReadValue R fd tab s1")
        case (Inl e)
        with k fd False show ?thesis by simp
      next
        case (Inr ts)
        obtain tab' s2 where ts: "ts = (tab', s2)" by (cases ts)
        have "left s2 \<le> left s1" using ReadValue_left Inr ts by blast
        then have "left s2 < n" "left s2 \<le> left s" using s1 Suc.prems by linarith+
        with k fd False Inr ts Suc.IH [of s2 d tab'] show ?thesis by fastforce
      qed
    qed
  qed
qed simp

end

subsection \<open>A stream over a byte list\<close>

text \<open>
  \<open>cbuf\<close> are the unread bytes, \<open>cend\<close> how many of them lie behind the current
  limit, \<open>cdone\<close> whether the last \<open>ReadTag\<close> stopped at the limit.
\<close>

record coded =
  cbuf :: "byte list"
  cend :: nat
  cdone :: bool

definition coded_new :: "byte list \<Rightarrow> coded" where
  "coded_new bs = \<lparr>cbuf = bs, cend = 0, cdone = False\<rparr>"

fun read_varint :: "nat \<Rightarrow> byte list \<Rightarrow> (nat \<times> byte list) option" where
  "read_varint k [] = None"
| "read_varint k (b # bs) =
     (if k \<ge> 10 then None
      else if unat b < 128 then Some (unat b, bs)
      else map_option (\<lambda>(v, r). (unat b - 128 + 128 * v, r)) (read_varint (Suc k) bs))"

definition avail :: "coded \<Rightarrow> nat" where
  "avail s = length (cbuf s) - cend s"

definition coded_varint :: "coded \<Rightarrow> nat option \<times> coded" where
  "coded_varint s =
     (case read_varint 0 (take (avail s) (cbuf s)) of
        None \<Rightarrow> (None, s)
      | Some (v, r) \<Rightarrow> (Some v, s\<lparr>cbuf := drop (avail s - length r) (cbuf s)\<rparr>))"

definition coded_int :: "coded \<Rightarrow> u32 option \<times> coded" where
  "coded_int s = (case coded_varint s of (v, s) \<Rightarrow> (map_option word_of_nat v, s))"

definition coded_tag :: "coded \<Rightarrow> u32 \<times> coded" where
  "coded_tag s =
     (if avail s = 0 then (0, s\<lparr>cdone := True\<rparr>)
      else case coded_varint s of
        (None, s) \<Rightarrow> (0, s\<lparr>cdone := False\<rparr>)
      | (Some v, s) \<Rightarrow> (word_of_nat v, s\<lparr>cdone := False\<rparr>))"

definition coded_float :: "coded \<Rightarrow> u32 option \<times> coded" where
  "coded_float s =
     (if avail s < 4 then (None, s)
      else (Some (foldr (\<lambda>b x. ucast b + 256 * x) (take 4 (cbuf s)) 0), s\<lparr>cbuf := drop 4 (cbuf s)\<rparr>))"

definition coded_string :: "coded \<Rightarrow> bool \<times> string \<times> coded" where
  "coded_string s =
     (case coded_varint s of
        (None, s) \<Rightarrow> (False, [], s)
      | (Some n, s) \<Rightarrow>
          if n \<le> avail s
          then (True, map (\<lambda>b. char_of (unat b)) (take n (cbuf s)), s\<lparr>cbuf := drop n (cbuf s)\<rparr>)
          else (False, [], s))"

definition coded_push :: "int \<Rightarrow> coded \<Rightarrow> int \<times> coded" where
  "coded_push n s =
     (int (cend s),
      if 0 \<le> n \<and> nat n \<le> avail s then s\<lparr>cend := length (cbuf s) - nat n\<rparr> else s)"

definition coded_reader :: "(int \<Rightarrow> lnum) \<Rightarrow> (u32 \<Rightarrow> lnum) \<Rightarrow> coded reader" where
  "coded_reader i2n f2n =
    \<lparr>ReadTag = coded_tag, GetTagFieldNumber = (\<lambda>t. uint (drop_bit 3 t)),
     ReadFloat = coded_float, ReadInt32 = coded_int,
     ReadBool = (\<lambda>s. case coded_varint s of (v, s) \<Rightarrow> (map_option (\<lambda>n. n \<noteq> 0) v, s)),
     ReadUInt32 = coded_int, ReadEnum = coded_int, ReadString = coded_string,
     IncrementRecursionDepth = (\<lambda>s. (True, s)), DecrementRecursionDepth = (\<lambda>s. s),
     PushLimit = coded_push, PopLimit = (\<lambda>n s. s\<lparr>cend := nat n\<rparr>),
     ConsumedEntireMessage = cdone, int2number = i2n, float2number = f2n\<rparr>"

lemma read_varint_shorter: "read_varint k bs = Some (v, r) \<Longrightarrow> length r < length bs"
  by (induction k bs arbitrary: v r rule: read_varint.induct) (fastforce split: if_splits)+

lemma coded_varint_left:
  "coded_varint s = (v, s') \<Longrightarrow> length (cbuf s') \<le> length (cbuf s) \<and>
     (v \<noteq> None \<longrightarrow> length (cbuf s') < length (cbuf s))"
  by (fastforce simp: coded_varint_def avail_def dest: read_varint_shorter split: option.splits)

lemma coded_int_left: "length (cbuf (snd (coded_int s))) \<le> length (cbuf s)"
  using coded_varint_left by (fastforce simp: coded_int_def split: prod.splits)

lemma coded_tag_left:
  "case coded_tag s of (t, s') \<Rightarrow> length (cbuf s') \<le> length (cbuf s) \<and>
     (t \<noteq> 0 \<longrightarrow> length (cbuf s') < length (cbuf s))"
  using coded_varint_left [of s]
  by (auto simp: coded_tag_def split: prod.splits option.splits)

lemma coded_reader_laws: "reader_laws (coded_reader i2n f2n) (\<lambda>s. length (cbuf s))"
proof -
  have "length (cbuf (snd (case coded_varint s of (v, s) \<Rightarrow> (f v, s)))) \<le> length (cbuf s)"
    for s and f :: "nat option \<Rightarrow> bool option"
    using coded_varint_left by (fastforce split: prod.splits)
  moreover have "length (cbuf (snd (snd (coded_string s)))) \<le> length (cbuf s)" for s
    using coded_varint_left [of s]
    by (auto simp: coded_string_def split: prod.splits option.splits)
  ultimately show ?thesis
    using coded_tag_left
    by (auto simp: reader_laws_def coded_reader_def coded_int_left coded_float_def coded_push_def)
qed

interpretation coded: input_stream "coded_reader i2n f2n" "\<lambda>s. length (cbuf s)"
  by unfold_locales (rule coded_reader_laws)

subsection \<open>Properties\<close>

text \<open>
  C4. Decoding terminates on every input, well-formed or not: with more fuel than there are
  bytes left, \<open>RawDecode\<close> returns, whatever the nesting of the message types.
\<close>

theorem RawDecode_returns:
  assumes "reader_laws R left" "left s < fuel"
  shows "RawDecode R P fuel d tab s \<noteq> None"
  using input_stream.RawDecode_terminates [OF input_stream.intro, OF assms, of P d tab] by auto

definition demo_reader :: "coded reader" where
  "demo_reader = coded_reader word_of_int (\<lambda>x. ucast x)"

definition demo_id_field :: field_desc where
  "demo_id_field = \<lparr>fd_name = ''id'', fd_full_name = ''M.id'', fd_number = 1, fd_typ = TYPE_INT32,
     is_repeated = False, message_type = 0, enum_type = None\<rparr>"

definition demo_id_msg :: descriptor where
  "demo_id_msg = \<lparr>FindFieldByName = (\<lambda>s. if s = ''id'' then Some demo_id_field else None),
     FindFieldByNumber = (\<lambda>k. if k = 1 then Some demo_id_field else None)\<rparr>"

theorem RawDecode_returns_witness:
  "RawDecode demo_reader (\<lambda>_. demo_id_msg) 4 demo_id_msg [] (coded_new [8, 42, 120]) \<noteq> None"
  by (rule RawDecode_returns [where left = "\<lambda>s. length (cbuf s)"])
     (simp_all add: demo_reader_def coded_reader_laws coded_new_def)

text \<open>The reader undoes the base-128 encoding of a tag.\<close>

lemma read_varint_bytes:
  "n < 128 ^ Suc j \<Longrightarrow> k + j < 10 \<Longrightarrow> read_varint k (varint_bytes n @ p) = Some (n, p)"
proof (induction j arbitrary: n k)
  case 0
  then show ?case by (subst varint_bytes.simps) (simp add: unat_of_nat)
next
  case (Suc j)
  have n': "n div 128 < 128 ^ Suc j"
    using Suc.prems by (simp add: less_mult_imp_div_less mult.commute)
  show ?case
  proof (cases "n < 128")
    case True
    with Suc.prems show ?thesis by (subst varint_bytes.simps) (simp add: unat_of_nat)
  next
    case False
    have b: "unat (word_of_nat (n mod 128 + 128) :: byte) = n mod 128 + 128"
    proof -
      have "n mod 128 < 128" by simp
      then have "n mod 128 + 128 < 256" by linarith
      then show ?thesis by (simp only: unat_of_nat) simp
    qed
    from Suc.IH [OF n', of "Suc k"] Suc.prems b False show ?thesis
      by (subst varint_bytes.simps) (simp add: mod_mult_div_eq)
  qed
qed

lemma coded_tag_bytes:
  assumes k: "1 \<le> k" "k < 2 ^ 29" and w: "w < 8"
  shows "coded_tag (coded_new (tag_bytes k w @ payload)) =
    (word_of_nat (8 * nat k + w), coded_new payload)"
    and "uint (drop_bit 3 (word_of_nat (8 * nat k + w) :: u32)) = k"
proof -
  let ?n = "8 * nat k + w"
  have n: "?n < 2 ^ 32" "unat (push_bit 3 (word_of_int k) :: u32) + w = ?n"
  proof -
    show "?n < 2 ^ 32" using k w by simp
    have "unat (word_of_int k :: u32) = nat k"
      using k by (simp add: unat_eq_nat_uint uint_word_of_int take_bit_int_eq_self)
    then have "unat (push_bit 3 (word_of_int k) :: u32) = 8 * nat k"
      using k by (simp add: push_bit_eq_mult unat_word_ariths)
    then show "unat (push_bit 3 (word_of_int k) :: u32) + w = ?n" by simp
  qed
  then have "read_varint 0 (tag_bytes k w @ payload) = Some (?n, payload)"
    using read_varint_bytes [of ?n 4 0 payload] by (simp add: tag_bytes_def)
  moreover have "1 \<le> length (tag_bytes k w)" by (simp add: tag_bytes_def varint_bytes_nonempty [simplified])
  ultimately show "coded_tag (coded_new (tag_bytes k w @ payload)) = (word_of_nat ?n, coded_new payload)"
    by (auto simp: coded_tag_def coded_varint_def avail_def coded_new_def)
  have "unat (word_of_nat ?n :: u32) = ?n" using n(1) by (simp only: unat_of_nat) simp
  then have "unat (drop_bit 3 (word_of_nat ?n :: u32)) = nat k"
    using w by (simp only: unat_drop_bit_eq) (simp add: drop_bit_eq_div)
  then show "uint (drop_bit 3 (word_of_nat ?n :: u32)) = k" using k by (simp add: uint_nat)
qed

text \<open>
  C5. An unknown field corrupts what follows. For every schema, every field number \<open>k\<close>
  that it lacks, every wire type and whatever the bytes of the field's payload and after it:
  decoding goes on at the first byte of the payload, as if a new message started there, so
  the payload's content is taken for tags and values of known fields.
\<close>

theorem unknown_field_corrupts:
  assumes "1 \<le> k" "k < 2 ^ 29" "w < 8" "FindFieldByNumber d k = None"
  shows "RawDecode (coded_reader i2n f2n) P (Suc n) d tab (coded_new (tag_bytes k w @ payload)) =
    RawDecode (coded_reader i2n f2n) P n d tab (coded_new payload)"
proof -
  have "word_of_nat (8 * nat k + w) \<noteq> (0 :: u32)"
    using coded_tag_bytes(2) [OF assms(1-3)] assms(1) by auto
  then have "ReadFieldNumber (coded_reader i2n f2n) (coded_new (tag_bytes k w @ payload)) = (k, coded_new payload)"
    using coded_tag_bytes [OF assms(1-3)]
    by (simp add: ReadFieldNumber_def coded_reader_def)
  with assms show ?thesis by simp
qed

text \<open>
  Field 1 is the \<open>int32\<close> \<open>id\<close> with value 42; a sender with a newer schema adds field 15 with
  the varint value 8 in front of it: \<open>120, 8, 8, 42\<close>. The decoder takes the 8 for the tag
  of field 1 and stores the real tag as its value.
\<close>

theorem unknown_field_corrupts_witness:
  "tag_bytes 15 0 = [120] \<and>
   RawDecode demo_reader (\<lambda>_. demo_id_msg) 9 demo_id_msg [] (coded_new (tag_bytes 15 0 @ [8, 8, 42]))
     = Some (Inr ([(LStr ''id'', LNum 8)], \<lparr>cbuf = [], cend = 0, cdone = True\<rparr>))
   \<and> RawDecode demo_reader (\<lambda>_. demo_id_msg) 9 demo_id_msg [] (coded_new [8, 42])
     = Some (Inr ([(LStr ''id'', LNum 42)], \<lparr>cbuf = [], cend = 0, cdone = True\<rparr>))"
proof (intro conjI)
  show "tag_bytes 15 0 = [120]" by code_simp
  have "RawDecode demo_reader (\<lambda>_. demo_id_msg) (Suc 8) demo_id_msg [] (coded_new (tag_bytes 15 0 @ [8, 8, 42]))
      = RawDecode demo_reader (\<lambda>_. demo_id_msg) 8 demo_id_msg [] (coded_new [8, 8, 42])"
    unfolding demo_reader_def
    by (rule unknown_field_corrupts) (simp_all add: demo_id_msg_def)
  also have "\<dots> = Some (Inr ([(LStr ''id'', LNum 8)], \<lparr>cbuf = [], cend = 0, cdone = True\<rparr>))"
    by code_simp
  finally show "RawDecode demo_reader (\<lambda>_. demo_id_msg) 9 demo_id_msg [] (coded_new (tag_bytes 15 0 @ [8, 8, 42]))
      = Some (Inr ([(LStr ''id'', LNum 8)], \<lparr>cbuf = [], cend = 0, cdone = True\<rparr>))"
    by (simp only: numeral_eq_Suc pred_numeral_simps BitM.simps)
  show "RawDecode demo_reader (\<lambda>_. demo_id_msg) 9 demo_id_msg [] (coded_new [8, 42])
     = Some (Inr ([(LStr ''id'', LNum 42)], \<lparr>cbuf = [], cend = 0, cdone = True\<rparr>))"
    by code_simp
qed

end
