(* ===== verification/PbPool.thy ===== *)
theory PbPool
  imports PbWire
begin

text \<open>
  The descriptor registry, \<open>src/DescPool.cpp\<close> and \<open>src/Utility.cpp\<close>: one process-wide
  pool, filled once from a file, and two maps from full names to descriptors that
  \<open>FindMessage\<close> and \<open>FindEnum\<close> search. The file system, the parser of the descriptor
  file and the pool's builder are arguments.
\<close>

record file_desc =
  file_messages :: "(string \<times> descriptor) list"
  file_enums :: "(string \<times> enum_desc) list"

text \<open>\<open>read_file\<close> is \<open>fopen\<close>/\<open>fread\<close>, \<open>None\<close> when the file cannot be
  opened; \<open>ParseFromArray\<close> yields the file protos in order; \<open>BuildFile\<close> is
  \<open>BuildFileCollectingErrors\<close>, which extends the pool or reports errors.\<close>

record ('p, 'f) pool_env =
  read_file :: "string \<Rightarrow> byte list option"
  ParseFromArray :: "byte list \<Rightarrow> 'f list option"
  empty_pool :: 'p
  BuildFile :: "'p \<Rightarrow> 'f \<Rightarrow> file_desc option \<times> 'p"

record 'p registry =
  desc_pool :: "'p option"
  msgMap :: "string \<rightharpoonup> descriptor"
  enumMap :: "string \<rightharpoonup> enum_desc"

definition registry_init :: "'p registry" where
  "registry_init = \<lparr>desc_pool = None, msgMap = Map.empty, enumMap = Map.empty\<rparr>"

definition FindMessage :: "'p registry \<Rightarrow> string \<Rightarrow> descriptor option" where
  "FindMessage st name = msgMap st name"

definition FindEnum :: "'p registry \<Rightarrow> string \<Rightarrow> enum_desc option" where
  "FindEnum st name = enumMap st name"

text \<open>A file that cannot be opened leaves a null buffer and the size at zero.\<close>

definition LoadFileContent :: "('p, 'f) pool_env \<Rightarrow> string \<Rightarrow> byte list option" where
  "LoadFileContent E filename = read_file E filename"

definition LoadDescriptorFile :: "('p, 'f) pool_env \<Rightarrow> string \<Rightarrow> 'f list option" where
  "LoadDescriptorFile E filename =
     (case LoadFileContent E filename of
        None \<Rightarrow> ParseFromArray E []
      | Some content \<Rightarrow> ParseFromArray E content)"

fun store_all :: "('k \<rightharpoonup> 'v) \<Rightarrow> ('k \<times> 'v) list \<Rightarrow> ('k \<rightharpoonup> 'v)" where
  "store_all m [] = m"
| "store_all m ((k, v) # kvs) = store_all (m(k \<mapsto> v)) kvs"

fun build_files ::
  "('p, 'f) pool_env \<Rightarrow> 'f list \<Rightarrow> 'p \<Rightarrow> 'p registry \<Rightarrow> bool \<times> 'p registry" where
  "build_files E [] p st = (True, st\<lparr>desc_pool := Some p\<rparr>)"
| "build_files E (fdp # fds) p st =
     (case BuildFile E p fdp of
        (None, p) \<Rightarrow> (False, st\<lparr>desc_pool := Some p\<rparr>)
      | (Some fileD, p) \<Rightarrow>
          build_files E fds p
            (st\<lparr>msgMap := store_all (msgMap st) (file_messages fileD),
                enumMap := store_all (enumMap st) (file_enums fileD)\<rparr>))"

definition InitDescriptorPool ::
  "('p, 'f) pool_env \<Rightarrow> string \<Rightarrow> 'p registry \<Rightarrow> bool \<times> 'p registry" where
  "InitDescriptorPool E filename st =
     (if desc_pool st \<noteq> None then (False, st)
      else
        let st = st\<lparr>desc_pool := Some (empty_pool E)\<rparr> in
        case LoadDescriptorFile E filename of
          None \<Rightarrow> (False, st)
        | Some fds \<Rightarrow> build_files E fds (empty_pool E) st)"

definition ReleaseDescriptorPool :: "'p registry \<Rightarrow> 'p registry" where
  "ReleaseDescriptorPool st =
     (if desc_pool st \<noteq> None
      then st\<lparr>msgMap := Map.empty, enumMap := Map.empty, desc_pool := None\<rparr> else st)"

subsection \<open>Properties\<close>

text \<open>What the loop over the files stores: the files built in order, up to the first that
  fails.\<close>

fun built_files :: "('p, 'f) pool_env \<Rightarrow> 'f list \<Rightarrow> 'p \<Rightarrow> file_desc list" where
  "built_files E [] p = []"
| "built_files E (fdp # fds) p =
     (case BuildFile E p fdp of (None, _) \<Rightarrow> [] | (Some d, p) \<Rightarrow> d # built_files E fds p)"

lemma store_all_append: "store_all m (xs @ ys) = store_all (store_all m xs) ys"
  by (induction xs arbitrary: m) auto

lemma store_all_lookup: "store_all m kvs = m ++ map_of (rev kvs)"
  by (induction kvs arbitrary: m) auto

lemma build_files_maps:
  "build_files E fds p st = (ok, st') \<Longrightarrow>
     desc_pool st' \<noteq> None \<and>
     msgMap st' = store_all (msgMap st) (concat (map file_messages (built_files E fds p))) \<and>
     enumMap st' = store_all (enumMap st) (concat (map file_enums (built_files E fds p))) \<and>
     (ok \<longleftrightarrow> length (built_files E fds p) = length fds)"
proof (induction E fds p st arbitrary: ok st' rule: build_files.induct)
  case (2 E fdp fds p st)
  obtain r p' where b: "BuildFile E p fdp = (r, p')" by fastforce
  show ?case
  proof (cases r)
    case None
    with 2 b show ?thesis by auto
  next
    case (Some fileD)
    with "2.prems" b have e: "build_files E fds p'
       (st\<lparr>msgMap := store_all (msgMap st) (file_messages fileD),
           enumMap := store_all (enumMap st) (file_enums fileD)\<rparr>) = (ok, st')" by simp
    from "2.IH" [OF b [symmetric] Some e] Some b show ?thesis by (simp add: store_all_append)
  qed
qed auto

text \<open>
  C6. The registry is written once: whatever the first registration returns, it leaves a pool
  behind, and every later registration of any file fails and changes nothing, until the pool
  is released.
\<close>

theorem registered_once:
  "desc_pool (snd (InitDescriptorPool E f st)) \<noteq> None \<and>
   InitDescriptorPool E g (snd (InitDescriptorPool E f st)) = (False, snd (InitDescriptorPool E f st))"
proof -
  obtain ok st' where r: "InitDescriptorPool E f st = (ok, st')" by fastforce
  have "desc_pool st' \<noteq> None"
    using r build_files_maps
    by (fastforce simp: InitDescriptorPool_def Let_def split: if_splits option.splits)
  with r show ?thesis by (simp add: InitDescriptorPool_def)
qed

text \<open>
  C7. What a script can name afterwards: from a fresh registry, \<open>FindMessage\<close> finds exactly
  the top-level messages of the files that were built, the latest file winning, also when the
  registration failed half-way; it succeeds exactly if every file was built.
\<close>

theorem FindMessage_after_register:
  assumes "LoadDescriptorFile E f = Some fds"
    and "InitDescriptorPool E f registry_init = (ok, st)"
  shows "FindMessage st name =
      map_of (rev (concat (map file_messages (built_files E fds (empty_pool E))))) name \<and>
    (ok \<longleftrightarrow> length (built_files E fds (empty_pool E)) = length fds)"
proof -
  have *: "build_files E fds (empty_pool E) (registry_init\<lparr>desc_pool := Some (empty_pool E)\<rparr>) = (ok, st)"
    using assms by (simp add: InitDescriptorPool_def registry_init_def Let_def)
  show ?thesis
    using build_files_maps [OF *] by (simp add: FindMessage_def store_all_lookup registry_init_def)
qed

text \<open>
  C8. A file that does not exist registers successfully, as the empty schema (the parser
  accepts zero bytes, since every field of a descriptor set is optional), and blocks the
  registration of the right file.
\<close>

theorem missing_file_registers:
  assumes "ParseFromArray E [] = Some []" "read_file E f = None"
  shows "InitDescriptorPool E f registry_init =
      (True, registry_init\<lparr>desc_pool := Some (empty_pool E)\<rparr>) \<and>
    \<not> fst (InitDescriptorPool E g (snd (InitDescriptorPool E f registry_init)))"
  using assms
  by (simp_all add: InitDescriptorPool_def LoadDescriptorFile_def LoadFileContent_def
        registry_init_def Let_def)

definition demo_file :: file_desc where
  "demo_file = \<lparr>file_messages = [(''M'', \<lparr>FindFieldByName = Map.empty, FindFieldByNumber = Map.empty\<rparr>)],
     file_enums = []\<rparr>"

definition demo_pool_env :: "(nat, bool) pool_env" where
  "demo_pool_env = \<lparr>read_file = (\<lambda>f. if f = ''game.pb'' then Some [1] else None),
     ParseFromArray = (\<lambda>bs. Some (map (\<lambda>b. b = 1) bs)), empty_pool = 0,
     BuildFile = (\<lambda>p ok. if ok then (Some demo_file, Suc p) else (None, p))\<rparr>"

theorem FindMessage_after_register_witness:
  "FindMessage (snd (InitDescriptorPool demo_pool_env ''game.pb'' registry_init)) ''M'' \<noteq> None
   \<and> fst (InitDescriptorPool demo_pool_env ''game.pb'' registry_init)"
proof -
  obtain ok st where r: "InitDescriptorPool demo_pool_env ''game.pb'' registry_init = (ok, st)"
    by fastforce
  have l: "LoadDescriptorFile demo_pool_env ''game.pb'' = Some [True]"
    by (simp add: LoadDescriptorFile_def LoadFileContent_def demo_pool_env_def)
  show ?thesis
    using FindMessage_after_register [OF l r] r by (simp add: demo_pool_env_def demo_file_def)
qed

theorem missing_file_registers_witness:
  "fst (InitDescriptorPool demo_pool_env ''nosuch.pb'' registry_init)
   \<and> \<not> fst (InitDescriptorPool demo_pool_env ''game.pb''
        (snd (InitDescriptorPool demo_pool_env ''nosuch.pb'' registry_init)))"
proof -
  have "ParseFromArray demo_pool_env [] = Some []" "read_file demo_pool_env ''nosuch.pb'' = None"
    by (simp_all add: demo_pool_env_def)
  from missing_file_registers [OF this, of "''game.pb''"] show ?thesis by auto
qed

end
