(* ===== verification/Ctype.thy ===== *)
theory Ctype
  imports Prelude
begin

text \<open>
  The character classes of \<open>ctype.h\<close> in the "C" locale, and zero-terminated strings. A
  character argument is an \<open>int\<close> as in C: a byte value, or \<open>-1\<close> for the end of a
  stream, which is in no class.
\<close>

definition uchar :: "char \<Rightarrow> int" where
  "uchar c = int (of_char c)"

definition isdigit :: "int \<Rightarrow> bool" where "isdigit c \<longleftrightarrow> 48 \<le> c \<and> c \<le> 57"
definition isupper :: "int \<Rightarrow> bool" where "isupper c \<longleftrightarrow> 65 \<le> c \<and> c \<le> 90"
definition islower :: "int \<Rightarrow> bool" where "islower c \<longleftrightarrow> 97 \<le> c \<and> c \<le> 122"
definition isalpha :: "int \<Rightarrow> bool" where "isalpha c \<longleftrightarrow> isupper c \<or> islower c"
definition isalnum :: "int \<Rightarrow> bool" where "isalnum c \<longleftrightarrow> isalpha c \<or> isdigit c"
definition iscntrl :: "int \<Rightarrow> bool" where "iscntrl c \<longleftrightarrow> 0 \<le> c \<and> c \<le> 31 \<or> c = 127"
definition isspace :: "int \<Rightarrow> bool" where "isspace c \<longleftrightarrow> 9 \<le> c \<and> c \<le> 13 \<or> c = 32"
definition isxdigit :: "int \<Rightarrow> bool" where
  "isxdigit c \<longleftrightarrow> isdigit c \<or> 65 \<le> c \<and> c \<le> 70 \<or> 97 \<le> c \<and> c \<le> 102"
definition ispunct :: "int \<Rightarrow> bool" where
  "ispunct c \<longleftrightarrow> 33 \<le> c \<and> c \<le> 126 \<and> \<not> isalnum c"
definition tolower :: "int \<Rightarrow> int" where "tolower c = (if isupper c then c + 32 else c)"
definition toupper :: "int \<Rightarrow> int" where "toupper c = (if islower c then c - 32 else c)"

lemmas ctype_defs = isdigit_def isupper_def islower_def isalpha_def isalnum_def iscntrl_def
  isspace_def isxdigit_def ispunct_def tolower_def toupper_def

abbreviation NUL :: char where "NUL \<equiv> CHR 0x00"

lemma uchar_range: "0 \<le> uchar c" "uchar c < 256"
  by (simp_all add: uchar_def of_char_of [symmetric])

lemma uchar_inj [simp]: "uchar c = uchar d \<longleftrightarrow> c = d"
  by (simp add: uchar_def)

text \<open>
  \<open>rd s i\<close> reads \<open>s[i]\<close> of a Lua string of \<open>length s\<close> bytes, which are followed by
  a zero byte; any other read is outside the object.
\<close>

definition rd :: "string \<Rightarrow> nat \<Rightarrow> char res" where
  "rd s i = (if i < length s then Inr (s ! i) else if i = length s then Inr NUL
             else Inl (UB ''string read''))"

lemma rd_in [simp]: "i \<le> length s \<Longrightarrow> \<not> is_UB (rd s i)"
  by (auto simp: rd_def)

lemma rd_nonzero: "rd s i = Inr c \<Longrightarrow> c \<noteq> NUL \<Longrightarrow> i < length s \<and> c = s ! i"
  by (auto simp: rd_def split: if_splits)

lemma rd_bound: "rd s i = Inr c \<Longrightarrow> i \<le> length s"
  by (auto simp: rd_def split: if_splits)

lemma rd_less: "i < length s \<Longrightarrow> rd s i = Inr (s ! i)"
  by (simp add: rd_def)

lemma rd_end [simp]: "rd s (length s) = Inr NUL"
  by (simp add: rd_def)

lemma rd_res: "i \<le> length s \<Longrightarrow> \<exists>c. rd s i = Inr c"
  by (auto simp: rd_def)

end
