(* ===== verification/Number.thy ===== *)
theory Number
  imports Prelude
begin

text \<open>
  \<open>lua_Number\<close> of \<open>lua/luaconf.h\<close>: IEEE 754 double precision as its 64 bits, with the
  operations that the \<open>luai_num*\<close> and \<open>lua_number2*\<close> macros name. Every arithmetic
  operation is the exact rational result rounded to nearest, ties to even; comparisons follow
  the order of the values with an unordered NaN; the conversion to an integer truncates and is
  undefined when the value does not fit. \<open>pow\<close> and the decimal conversions of the C library
  are not defined here: a component that uses them takes them as arguments.
\<close>

type_synonym lua_Number = "64 word"

definition dbl_sign :: "lua_Number \<Rightarrow> bool" where "dbl_sign w \<longleftrightarrow> bit w 63"
definition dbl_mag :: "lua_Number \<Rightarrow> int" where "dbl_mag w = uint w mod 2 ^ 63"
definition dbl_expo :: "lua_Number \<Rightarrow> int" where "dbl_expo w = dbl_mag w div 2 ^ 52"
definition dbl_frac :: "lua_Number \<Rightarrow> int" where "dbl_frac w = dbl_mag w mod 2 ^ 52"

definition dbl_isnan :: "lua_Number \<Rightarrow> bool" where
  "dbl_isnan w \<longleftrightarrow> dbl_expo w = 2047 \<and> dbl_frac w \<noteq> 0"

definition dbl_isinf :: "lua_Number \<Rightarrow> bool" where
  "dbl_isinf w \<longleftrightarrow> dbl_expo w = 2047 \<and> dbl_frac w = 0"

definition dbl_make :: "bool \<Rightarrow> int \<Rightarrow> lua_Number" where
  "dbl_make s mag = of_int (mag + (if s then 2 ^ 63 else 0))"

definition dbl_zero :: "bool \<Rightarrow> lua_Number" where "dbl_zero s = dbl_make s 0"
definition dbl_inf :: "bool \<Rightarrow> lua_Number" where "dbl_inf s = dbl_make s (2047 * 2 ^ 52)"
definition dbl_nan :: "lua_Number" where "dbl_nan = dbl_make False (2047 * 2 ^ 52 + 2 ^ 51)"

text \<open>A finite value is \<open>sig * 2 ^ (ex - 1075)\<close>, up to the sign.\<close>

definition dbl_sig :: "lua_Number \<Rightarrow> int" where
  "dbl_sig w = (if dbl_expo w = 0 then dbl_frac w else 2 ^ 52 + dbl_frac w)"

definition dbl_ex :: "lua_Number \<Rightarrow> int" where
  "dbl_ex w = (if dbl_expo w = 0 then 1 else dbl_expo w)"

text \<open>Every finite double is this integer times \<open>2 ^ (-1074)\<close>.\<close>

definition dbl_scaled :: "lua_Number \<Rightarrow> int" where
  "dbl_scaled w = (if dbl_sign w then - 1 else 1) * (dbl_sig w * 2 ^ nat (dbl_ex w - 1))"

definition round_half_even :: "int \<Rightarrow> int \<Rightarrow> int" where
  "round_half_even a b = (let d = a div b; r = a mod b in
     if 2 * r < b \<or> (2 * r = b \<and> even d) then d else d + 1)"

function bitlen :: "int \<Rightarrow> int" where
  "bitlen n = (if n \<le> 0 then 0 else bitlen (n div 2) + 1)"
  by pat_completeness auto
termination
  by (relation "measure nat") auto

declare bitlen.simps [simp del]

text \<open>
  The double nearest to \<open>p / q\<close>, with \<open>p\<close> and \<open>q\<close> positive: the unit in the last
  place is \<open>2 ^ (u - 1074)\<close>.
\<close>

definition dbl_pack :: "bool \<Rightarrow> int \<Rightarrow> int \<Rightarrow> lua_Number" where
  "dbl_pack s p q =
     (let k = bitlen p - bitlen q - 53 + 1074;
          u0 = nat k;
          p1 = p * 2 ^ 1074;
          u = (if 0 \<le> k \<and> p1 \<ge> q * 2 ^ u0 * 2 ^ 53 then u0 + 1 else u0);
          m = round_half_even p1 (q * 2 ^ u);
          mag = m + int u * 2 ^ 52
      in if mag \<ge> 2047 * 2 ^ 52 then dbl_inf s else dbl_make s mag)"

definition dbl_of_int :: "int \<Rightarrow> lua_Number" where
  "dbl_of_int n = (if n = 0 then dbl_zero False else dbl_pack (n < 0) \<bar>n\<bar> 1)"

definition dbl_trunc :: "lua_Number \<Rightarrow> int option" where
  "dbl_trunc w = (if dbl_expo w = 2047 then None
     else Some ((if dbl_sign w then - 1 else 1) * (\<bar>dbl_scaled w\<bar> div 2 ^ 1074)))"

text \<open>\<open>lua_number2int\<close>: a cast, defined when the truncated value is an \<open>int\<close>.\<close>

definition lua_number2int :: "lua_Number \<Rightarrow> int res" where
  "lua_number2int d = (case dbl_trunc d of
     Some k \<Rightarrow> if - (2 ^ 31) \<le> k \<and> k < 2 ^ 31 then Inr k else Inl (UB ''double to int'')
   | None \<Rightarrow> Inl (UB ''double to int''))"

definition lua_number2integer :: "lua_Number \<Rightarrow> int res" where
  "lua_number2integer d = (case dbl_trunc d of
     Some k \<Rightarrow> if - (2 ^ 63) \<le> k \<and> k < 2 ^ 63 then Inr k else Inl (UB ''double to ptrdiff_t'')
   | None \<Rightarrow> Inl (UB ''double to ptrdiff_t''))"

subsection \<open>Comparison\<close>

definition dbl_key :: "lua_Number \<Rightarrow> int" where
  "dbl_key w = (if dbl_sign w then - dbl_mag w else dbl_mag w)"

definition luai_numeq :: "lua_Number \<Rightarrow> lua_Number \<Rightarrow> bool" where
  "luai_numeq a b \<longleftrightarrow> \<not> dbl_isnan a \<and> \<not> dbl_isnan b \<and> dbl_key a = dbl_key b"

definition luai_numlt :: "lua_Number \<Rightarrow> lua_Number \<Rightarrow> bool" where
  "luai_numlt a b \<longleftrightarrow> \<not> dbl_isnan a \<and> \<not> dbl_isnan b \<and> dbl_key a < dbl_key b"

definition luai_numle :: "lua_Number \<Rightarrow> lua_Number \<Rightarrow> bool" where
  "luai_numle a b \<longleftrightarrow> \<not> dbl_isnan a \<and> \<not> dbl_isnan b \<and> dbl_key a \<le> dbl_key b"

definition luai_numisnan :: "lua_Number \<Rightarrow> bool" where
  "luai_numisnan a \<longleftrightarrow> \<not> luai_numeq a a"

subsection \<open>Arithmetic\<close>

definition luai_numunm :: "lua_Number \<Rightarrow> lua_Number" where
  "luai_numunm a = a XOR (2 ^ 63)"

text \<open>The double nearest to \<open>n * 2 ^ (-1074) / d\<close>; a zero result has the sign \<open>z\<close>.\<close>

definition dbl_round :: "bool \<Rightarrow> int \<Rightarrow> int \<Rightarrow> lua_Number" where
  "dbl_round z n d = (if n = 0 then dbl_zero z else dbl_pack (n < 0) \<bar>n\<bar> (d * 2 ^ 1074))"

definition luai_numadd :: "lua_Number \<Rightarrow> lua_Number \<Rightarrow> lua_Number" where
  "luai_numadd a b =
     (if dbl_isnan a \<or> dbl_isnan b then dbl_nan
      else if dbl_isinf a then (if dbl_isinf b \<and> dbl_sign a \<noteq> dbl_sign b then dbl_nan else a)
      else if dbl_isinf b then b
      else dbl_round (dbl_sign a \<and> dbl_sign b) (dbl_scaled a + dbl_scaled b) 1)"

definition luai_numsub :: "lua_Number \<Rightarrow> lua_Number \<Rightarrow> lua_Number" where
  "luai_numsub a b = (if dbl_isnan b then dbl_nan else luai_numadd a (luai_numunm b))"

definition luai_nummul :: "lua_Number \<Rightarrow> lua_Number \<Rightarrow> lua_Number" where
  "luai_nummul a b =
     (let s = (dbl_sign a \<noteq> dbl_sign b) in
      if dbl_isnan a \<or> dbl_isnan b then dbl_nan
      else if dbl_isinf a \<or> dbl_isinf b then
        (if dbl_mag a = 0 \<or> dbl_mag b = 0 then dbl_nan else dbl_inf s)
      else dbl_round s (dbl_scaled a * dbl_scaled b) (2 ^ 1074))"

definition luai_numdiv :: "lua_Number \<Rightarrow> lua_Number \<Rightarrow> lua_Number" where
  "luai_numdiv a b =
     (let s = (dbl_sign a \<noteq> dbl_sign b) in
      if dbl_isnan a \<or> dbl_isnan b then dbl_nan
      else if dbl_isinf a then (if dbl_isinf b then dbl_nan else dbl_inf s)
      else if dbl_isinf b then dbl_zero s
      else if dbl_mag b = 0 then (if dbl_mag a = 0 then dbl_nan else dbl_inf s)
      else if dbl_mag a = 0 then dbl_zero s
      else dbl_pack s \<bar>dbl_scaled a\<bar> \<bar>dbl_scaled b\<bar>)"

definition dbl_floor :: "lua_Number \<Rightarrow> lua_Number" where
  "dbl_floor a =
     (if dbl_expo a = 2047 \<or> dbl_mag a = 0 then a
      else let n = dbl_scaled a div 2 ^ 1074 in
        if n = 0 then dbl_zero False else dbl_of_int n)"

definition luai_nummod :: "lua_Number \<Rightarrow> lua_Number \<Rightarrow> lua_Number" where
  "luai_nummod a b = luai_numsub a (luai_nummul (dbl_floor (luai_numdiv a b)) b)"

subsection \<open>Integers are represented exactly\<close>

lemma div2_bounds: "(x::int) \<le> n div 2 \<Longrightarrow> 2 * x \<le> n" "n div 2 < y \<Longrightarrow> n < 2 * (y::int)"
  by presburger+

lemma bitlen_bounds: "0 < n \<Longrightarrow> 0 < bitlen n \<and> 2 ^ nat (bitlen n - 1) \<le> n \<and> n < 2 ^ nat (bitlen n)"
proof (induction n rule: bitlen.induct)
  case (1 n)
  show ?case
  proof (cases "n = 1")
    case True
    then show ?thesis by (simp add: bitlen.simps [of 1] bitlen.simps [of 0])
  next
    case False
    with 1 have IH: "0 < bitlen (n div 2)" "2 ^ nat (bitlen (n div 2) - 1) \<le> n div 2"
      "n div 2 < 2 ^ nat (bitlen (n div 2))" by auto
    have eq: "bitlen n = bitlen (n div 2) + 1" using 1 by (simp add: bitlen.simps [of n])
    have "nat (bitlen (n div 2)) = Suc (nat (bitlen (n div 2) - 1))" using IH(1) by simp
    then have pow: "2 ^ nat (bitlen (n div 2)) = 2 * (2::int) ^ nat (bitlen (n div 2) - 1)" by simp
    have "2 * 2 ^ nat (bitlen (n div 2) - 1) \<le> n" "n < 2 * 2 ^ nat (bitlen (n div 2))"
      by (rule div2_bounds(1) [OF IH(2)], rule div2_bounds(2) [OF IH(3)])
    moreover note pow
    moreover have "nat (1 + bitlen (n div 2)) = Suc (nat (bitlen (n div 2)))" using IH(1) by simp
    ultimately show ?thesis using IH(1) by (simp add: eq add.commute)
  qed
qed

lemma bitlen_le: "0 < n \<Longrightarrow> n < 2 ^ k \<Longrightarrow> bitlen n \<le> int k"
proof -
  assume "0 < n" "n < 2 ^ k"
  with bitlen_bounds [of n] have "(2::int) ^ nat (bitlen n - 1) < 2 ^ k" by linarith
  then have "nat (bitlen n - 1) < k" using power_less_imp_less_exp [of "2::int"] by simp
  then show ?thesis by simp
qed

lemma dbl_make_parts:
  assumes "0 \<le> mag" "mag < 2 ^ 63"
  shows "dbl_mag (dbl_make s mag) = mag" "dbl_sign (dbl_make s mag) = s"
proof -
  have u: "uint (dbl_make s mag) = mag + (if s then 2 ^ 63 else 0)"
    using assms unfolding dbl_make_def uint_word_of_int by (cases s) simp_all
  show "dbl_mag (dbl_make s mag) = mag" using assms by (simp add: dbl_mag_def u)
  have "bit (dbl_make s mag) 63 = bit (uint (dbl_make s mag)) 63" by (simp add: bit_uint_iff)
  also have "\<dots> = odd (uint (dbl_make s mag) div 2 ^ 63)" by (rule bit_iff_odd)
  finally have "bit (dbl_make s mag) 63 = odd (uint (dbl_make s mag) div 2 ^ 63)" .
  moreover have "(mag + 2 ^ 63) div 2 ^ 63 = 1"
    using assms div_add_self2 [of "2 ^ 63" mag] by (simp del: div_add_self2)
  ultimately show "dbl_sign (dbl_make s mag) = s"
    using assms u by (cases s) (simp_all add: dbl_sign_def)
qed

text \<open>A positive integer of at most 53 bits: its exponent is \<open>bitlen p + 1022\<close>.\<close>

lemma dbl_pack_int:
  assumes "0 < p" "p < 2 ^ 53"
  shows "dbl_pack s p 1 = dbl_make s (p * 2 ^ nat (53 - bitlen p) + (bitlen p + 1021) * 2 ^ 52)"
proof -
  define b where "b = nat (bitlen p)"
  have b: "bitlen p = int b" "0 < b" "b \<le> 53"
    using bitlen_bounds [OF assms(1)] bitlen_le [OF assms] by (simp_all add: b_def)
  have "nat (bitlen p - 1) = b - 1" by (simp add: b_def)
  then have lo: "2 ^ (b - 1) \<le> p" and hi: "p < 2 ^ b"
    using bitlen_bounds [OF assms(1)] by (simp_all add: b_def)
  have one: "bitlen 1 = 1" by (simp add: bitlen.simps [of 1] bitlen.simps [of 0])
  have ge: "2 ^ (b + 1020) * 2 ^ 53 \<le> p * 2 ^ 1074"
  proof -
    have "(2::int) ^ (b + 1020) * 2 ^ 53 = 2 ^ (b - 1) * 2 ^ 1074"
      using b(2) by (cases b) (simp_all add: power_add)
    then show ?thesis using lo by simp
  qed
  have exact: "p * 2 ^ 1074 = p * 2 ^ (53 - b) * 2 ^ (b + 1021)"
    using b(3) by (simp add: power_add [symmetric] mult.assoc)
  have round: "round_half_even (p * 2 ^ 1074) (1 * 2 ^ (b + 1021)) = p * 2 ^ (53 - b)"
    unfolding round_half_even_def exact by (simp add: Let_def)
  have ulp: "(if 0 \<le> int (b + 1020) \<and> 1 * 2 ^ (b + 1020) * 2 ^ 53 \<le> p * 2 ^ 1074
      then b + 1020 + 1 else b + 1020) = b + 1021"
    using ge by simp
  have "p * 2 ^ (53 - b) < 2 ^ b * 2 ^ (53 - b)" using hi by simp
  also have "(2::int) ^ b * 2 ^ (53 - b) = 2 ^ 53" using b(3) by (simp add: power_add [symmetric])
  finally have m: "p * 2 ^ (53 - b) < 2 ^ 53" .
  have "int (b + 1021) * 2 ^ 52 \<le> 1074 * 2 ^ 52" using b(3) by simp
  with m have small: "\<not> 2047 * 2 ^ 52 \<le> p * 2 ^ (53 - b) + int (b + 1021) * 2 ^ 52" by simp
  have k: "bitlen p - bitlen 1 - 53 + 1074 = int (b + 1020)" using b by (simp add: one)
  have n: "nat (53 - bitlen p) = 53 - b" "bitlen p + 1021 = int (b + 1021)" using b by simp_all
  show ?thesis
    unfolding dbl_pack_def Let_def k nat_int ulp round if_not_P [OF small] n ..
qed

theorem dbl_int_exact:
  assumes "\<bar>n\<bar> < 2 ^ 53"
  shows "dbl_trunc (dbl_of_int n) = Some n"
proof (cases "n = 0")
  case True
  then show ?thesis
    by (simp add: dbl_of_int_def dbl_zero_def dbl_trunc_def dbl_expo_def dbl_frac_def dbl_scaled_def
        dbl_sig_def dbl_ex_def dbl_make_parts)
next
  case False
  define p where "p = \<bar>n\<bar>"
  have p: "0 < p" "p < 2 ^ 53" using False assms by (simp_all add: p_def)
  define b where "b = nat (bitlen p)"
  have b: "bitlen p = int b" "0 < b" "b \<le> 53"
    using bitlen_bounds [OF p(1)] bitlen_le [OF p] by (simp_all add: b_def)
  have "nat (bitlen p - 1) = b - 1" by (simp add: b_def)
  then have lo: "2 ^ (b - 1) \<le> p" and hi: "p < 2 ^ b"
    using bitlen_bounds [OF p(1)] by (simp_all add: b_def)
  define m where "m = p * 2 ^ (53 - b)"
  have "2 ^ (b - 1) * 2 ^ (53 - b) \<le> m" using lo by (simp add: m_def)
  moreover have "(2::int) ^ (b - 1) * 2 ^ (53 - b) = 2 ^ 52"
    using b by (simp add: power_add [symmetric])
  ultimately have m_lo: "2 ^ 52 \<le> m" by simp
  have "m < 2 ^ b * 2 ^ (53 - b)" using hi by (simp add: m_def)
  also have "(2::int) ^ b * 2 ^ (53 - b) = 2 ^ 53" using b by (simp add: power_add [symmetric])
  finally have m_hi: "m < 2 ^ 53" .
  let ?mag = "m + (int b + 1021) * 2 ^ 52"
  have mag: "dbl_of_int n = dbl_make (n < 0) ?mag"
    using False dbl_pack_int [OF p, of "n < 0"] b
    by (simp add: dbl_of_int_def p_def [symmetric] m_def nat_diff_distrib')
  have range: "0 \<le> ?mag" "?mag < 2 ^ 63" using m_lo m_hi b(3) by simp_all
  have expo: "?mag div 2 ^ 52 = int b + 1022" "?mag mod 2 ^ 52 = m - 2 ^ 52"
  proof -
    have eq: "?mag = (m - 2 ^ 52) + (int b + 1022) * 2 ^ 52" by simp
    have "(m - 2 ^ 52) div 2 ^ 52 = 0" "(m - 2 ^ 52) mod 2 ^ 52 = m - 2 ^ 52"
      using m_lo m_hi by (simp, intro mod_pos_pos_trivial) simp_all
    then show "?mag div 2 ^ 52 = int b + 1022" "?mag mod 2 ^ 52 = m - 2 ^ 52"
      unfolding eq by (simp_all only: div_mult_self1 mod_mult_self1) simp_all
  qed
  have "dbl_scaled (dbl_of_int n) = (if n < 0 then - 1 else 1) * (m * 2 ^ (b + 1021))"
    using m_lo b expo range
    by (simp add: mag dbl_scaled_def dbl_sig_def dbl_ex_def dbl_expo_def dbl_frac_def dbl_make_parts nat_add_distrib)
  moreover have "m * 2 ^ (b + 1021) = p * 2 ^ 1074"
    using b by (simp add: m_def mult.assoc power_add [symmetric])
  moreover have "dbl_expo (dbl_of_int n) \<noteq> 2047" "dbl_sign (dbl_of_int n) = (n < 0)"
    using expo b range by (simp_all add: mag dbl_expo_def dbl_make_parts)
  ultimately show ?thesis using p by (auto simp: dbl_trunc_def abs_mult p_def)
qed

end
