(* ===== verification/Objects.thy ===== *)
theory Objects
  imports Ctype Number
begin

text \<open>
  \<open>lua/lobject.h\<close> and \<open>lua/lobject.c\<close>: the tagged values, raw equality, the one-byte
  size encoding, the integer logarithm, the conversion of a numeral, the formatted messages and
  the printable name of a chunk.

  A string value carries its bytes: the string table makes two strings of equal bytes the same
  object, so that comparing the pointers is comparing the bytes. The other collectable objects
  are addresses.
\<close>

datatype TValue = Nil | Boolean bool | LightUserdata nat | Number lua_Number | Str string
  | Table nat | Function nat | Userdata nat | Thread nat

definition ttype :: "TValue \<Rightarrow> int" where
  "ttype v = (case v of Nil \<Rightarrow> 0 | Boolean _ \<Rightarrow> 1 | LightUserdata _ \<Rightarrow> 2 | Number _ \<Rightarrow> 3 | Str _ \<Rightarrow> 4
     | Table _ \<Rightarrow> 5 | Function _ \<Rightarrow> 6 | Userdata _ \<Rightarrow> 7 | Thread _ \<Rightarrow> 8)"

definition l_isfalse :: "TValue \<Rightarrow> bool" where
  "l_isfalse v \<longleftrightarrow> v = Nil \<or> v = Boolean False"

definition luaO_rawequalObj :: "TValue \<Rightarrow> TValue \<Rightarrow> bool" where
  "luaO_rawequalObj t1 t2 =
     (if ttype t1 \<noteq> ttype t2 then False
      else case (t1, t2) of
        (Nil, Nil) \<Rightarrow> True
      | (Number a, Number b) \<Rightarrow> luai_numeq a b
      | (Boolean a, Boolean b) \<Rightarrow> a = b
      | (LightUserdata a, LightUserdata b) \<Rightarrow> a = b
      | _ \<Rightarrow> t1 = t2)"

text \<open>Raw equality as equality of representatives: the two zeros are one key.\<close>

definition tkey :: "TValue \<Rightarrow> TValue" where
  "tkey k = (case k of Number d \<Rightarrow> if luai_numeq d 0 then Number 0 else k | _ \<Rightarrow> k)"

lemma numeq_0_0 [simp]: "luai_numeq 0 0"
  by code_simp

lemma numeq_sym: "luai_numeq d e \<longleftrightarrow> luai_numeq e d"
  by (auto simp: luai_numeq_def)

lemma numeq_trans: "luai_numeq d e \<Longrightarrow> luai_numeq e f \<Longrightarrow> luai_numeq d f"
  by (simp add: luai_numeq_def)

lemma dbl_key_0: "dbl_key 0 = 0" "\<not> dbl_isnan 0"
  by code_simp+

lemma uint_sign_mag: "uint (d :: lua_Number) = (if dbl_sign d then 2 ^ 63 else 0) + dbl_mag d"
proof -
  have "uint d < 2 ^ 64" "0 \<le> uint d" using unsigned_less [of d] by simp_all
  moreover have "dbl_sign d \<longleftrightarrow> bit (uint d) 63" by (simp add: dbl_sign_def bit_uint_iff)
  then have "dbl_sign d \<longleftrightarrow> odd (uint d div 2 ^ 63)" unfolding bit_iff_odd .
  moreover have "uint d div 2 ^ 63 < 2" "0 \<le> uint d div 2 ^ 63" using calculation(1,2) by (simp_all add: pos_imp_zdiv_nonneg_iff)
  then have "uint d div 2 ^ 63 = 0 \<or> uint d div 2 ^ 63 = 1" by linarith
  moreover have "uint d = uint d div 2 ^ 63 * 2 ^ 63 + dbl_mag d" by (simp add: dbl_mag_def)
  ultimately show ?thesis by auto
qed

lemma numeq_bits:
  assumes "luai_numeq d e" "\<not> luai_numeq d 0" shows "d = e"
proof -
  have k: "dbl_key d = dbl_key e" "dbl_key d \<noteq> 0" using assms by (auto simp: luai_numeq_def dbl_key_0)
  have "0 \<le> dbl_mag d" "0 \<le> dbl_mag e" by (simp_all add: dbl_mag_def)
  with k have "dbl_sign d = dbl_sign e" "dbl_mag d = dbl_mag e" by (auto simp: dbl_key_def split: if_splits)
  then have "uint d = uint e" by (simp add: uint_sign_mag)
  then show ?thesis by (simp only: word_uint_eq_iff)
qed

lemma rawequal_tkey:
  assumes "\<And>d. a = Number d \<Longrightarrow> \<not> luai_numisnan d"
  shows "luaO_rawequalObj a b \<longleftrightarrow> tkey a = tkey b"
proof (cases a)
  case (Number d)
  then have nn: "luai_numeq d d" using assms by (simp add: luai_numisnan_def)
  show ?thesis
  proof (cases b)
    case b: (Number e)
    have "luai_numeq d e \<longleftrightarrow> tkey a = tkey b"
    proof (cases "luai_numeq d 0")
      case True
      then have "luai_numeq d e \<longleftrightarrow> luai_numeq e 0" using numeq_trans numeq_sym by blast
      with True show ?thesis by (auto simp: Number b tkey_def)
    next
      case False
      with nn numeq_bits [of d e] show ?thesis by (auto simp: Number b tkey_def)
    qed
    then show ?thesis by (simp add: Number b luaO_rawequalObj_def ttype_def)
  qed (auto simp: Number tkey_def luaO_rawequalObj_def ttype_def)
qed (cases b; auto simp: tkey_def luaO_rawequalObj_def ttype_def split: if_splits)+

subsection \<open>Floating point bytes\<close>

function int2fb_loop :: "u32 \<Rightarrow> nat \<Rightarrow> u32 \<times> nat" where
  "int2fb_loop x e = (if x \<ge> 16 then int2fb_loop (drop_bit 1 (x + 1)) (e + 1) else (x, e))"
  by pat_completeness auto
termination
proof (relation "measure (\<lambda>(x, e). unat x)")
  fix x :: u32 and e :: nat
  assume "x \<ge> 16"
  then have x: "16 \<le> unat x" by (simp add: word_le_nat_alt)
  have "unat (drop_bit 1 (x + 1)) = unat (x + 1) div 2"
    by (simp only: unat_drop_bit_eq) (simp add: drop_bit_eq_div)
  also have "\<dots> \<le> (unat x + 1) div 2" by (intro div_le_mono) (simp add: unat_word_ariths)
  finally show "((drop_bit 1 (x + 1), e + 1), (x, e)) \<in> measure (\<lambda>(x, e). unat x)" using x by simp
qed simp

declare int2fb_loop.simps [simp del]

definition luaO_int2fb :: "u32 \<Rightarrow> int" where
  "luaO_int2fb x = (case int2fb_loop x 0 of (x, e) \<Rightarrow>
     if x < 8 then uint x else ((int e + 1) * 8) OR (uint x - 8))"

text \<open>The shift is one of a signed \<open>int\<close>: a result from \<open>2 ^ 31\<close> up is undefined.\<close>

definition luaO_fb2int :: "int \<Rightarrow> int res" where
  "luaO_fb2int x = (let e = (x div 8) AND 31 in
     if e = 0 then Inr x
     else let v = ((x AND 7) + 8) * 2 ^ nat (e - 1) in
       if v < 2 ^ 31 then Inr v else Inl (UB ''signed shift''))"

definition log_2 :: "int list" where
  "log_2 = [0, 1] @ replicate 2 2 @ replicate 4 3 @ replicate 8 4 @ replicate 16 5 @
     replicate 32 6 @ replicate 64 7 @ replicate 128 8"

function log2_loop :: "u32 \<Rightarrow> int \<Rightarrow> u32 \<times> int" where
  "log2_loop x l = (if x \<ge> 256 then log2_loop (drop_bit 8 x) (l + 8) else (x, l))"
  by pat_completeness auto
termination
proof (relation "measure (\<lambda>(x, l). unat x)")
  fix x :: u32 and l :: int
  assume "x \<ge> 256"
  then have "256 \<le> unat x" by (simp add: word_le_nat_alt)
  moreover have "unat (drop_bit 8 x) = unat x div 256"
    by (simp only: unat_drop_bit_eq) (simp add: drop_bit_eq_div)
  ultimately show "((drop_bit 8 x, l + 8), (x, l)) \<in> measure (\<lambda>(x, l). unat x)" by simp
qed simp

declare log2_loop.simps [simp del]

definition luaO_log2 :: "u32 \<Rightarrow> int" where
  "luaO_log2 x = (case log2_loop x (- 1) of (x, l) \<Rightarrow> l + log_2 ! unat x)"

subsection \<open>Numerals\<close>

definition cstr :: "string \<Rightarrow> string" where
  "cstr s = takeWhile (\<lambda>c. c \<noteq> NUL) s"

definition hexval :: "char \<Rightarrow> int" where
  "hexval c = (let u = uchar c in
     if isdigit u then u - 48 else if 97 \<le> u then u - 87 else u - 55)"

text \<open>
  \<open>strtoul (s, \<dots>, 16)\<close>: white space, a sign, an optional \<open>0x\<close> and hexadecimal digits;
  the value saturates and a minus sign negates it as an \<open>unsigned long\<close>. The second
  component is the number of characters read, 0 when there is no numeral.
\<close>

definition strtoul16 :: "string \<Rightarrow> int \<times> nat" where
  "strtoul16 s =
     (let w = takeWhile (\<lambda>c. isspace (uchar c)) s;
          s1 = drop (length w) s;
          sg = (case s1 of c # _ \<Rightarrow> if c = CHR ''-'' \<or> c = CHR ''+'' then [c] else [] | [] \<Rightarrow> []);
          s2 = drop (length sg) s1;
          px = (case s2 of z # x # h # _ \<Rightarrow>
                  if z = CHR ''0'' \<and> (x = CHR ''x'' \<or> x = CHR ''X'') \<and> isxdigit (uchar h) then 2 else 0
                | _ \<Rightarrow> 0);
          ds = takeWhile (\<lambda>c. isxdigit (uchar c)) (drop px s2);
          v = foldl (\<lambda>a c. a * 16 + hexval c) 0 ds;
          v = (if v \<ge> 2 ^ 64 then 2 ^ 64 - 1 else if sg = ''-'' then (- v) mod 2 ^ 64 else v)
      in if ds = [] then (0, 0) else (v, length w + length sg + px + length ds))"

text \<open>
  \<open>strtod\<close> returns its value and the number of characters it read; both of the C library.
  \<open>None\<close> is the failure of the conversion.
\<close>

definition luaO_str2d :: "(string \<Rightarrow> lua_Number \<times> nat) \<Rightarrow> string \<Rightarrow> lua_Number option" where
  "luaO_str2d strtod s0 =
     (let s = cstr s0; (d, n) = strtod s in
      if n = 0 then None
      else
        let (d, n) = (case drop n s of
              c # _ \<Rightarrow> if c = CHR ''x'' \<or> c = CHR ''X'' then
                         (case strtoul16 s of (v, k) \<Rightarrow> (dbl_of_int v, k)) else (d, n)
            | [] \<Rightarrow> (d, n)) in
        if drop n s = [] then Some d
        else if dropWhile (\<lambda>c. isspace (uchar c)) (drop n s) \<noteq> [] then None
        else Some d)"

subsection \<open>Formatted messages\<close>

datatype va_arg = VString "string option" | VInt int | VNumber lua_Number | VPointer nat

text \<open>
  \<open>luaO_pushvfstring\<close>. \<open>num2str\<close> is \<open>lua_number2str\<close> and \<open>ptr2str\<close> the \<open>%p\<close> of the C
  library. A directive without an argument of its type is undefined, and so is a
  format that ends in a single percent sign, after which the code goes on past the terminator.
\<close>

fun luaO_pushvfstring ::
  "(lua_Number \<Rightarrow> string) \<Rightarrow> (nat \<Rightarrow> string) \<Rightarrow> string \<Rightarrow> va_arg list \<Rightarrow> string res" where
  "luaO_pushvfstring num2str ptr2str [] args = Inr []"
| "luaO_pushvfstring num2str ptr2str [c] args =
     (if c = CHR ''%'' then Inl (UB ''format'') else Inr [c])"
| "luaO_pushvfstring num2str ptr2str (c # d # fmt) args =
     (if c \<noteq> CHR ''%'' then rmap ((#) c) (luaO_pushvfstring num2str ptr2str (d # fmt) args)
      else if d = CHR ''s'' then
        (case args of
           VString s # args \<Rightarrow> rmap ((@) (case s of None \<Rightarrow> ''(null)'' | Some s \<Rightarrow> cstr s))
             (luaO_pushvfstring num2str ptr2str fmt args)
         | _ \<Rightarrow> Inl (UB ''va_arg''))
      else if d = CHR ''c'' then
        (case args of
           VInt i # args \<Rightarrow> rmap ((@) (cstr [char_of i])) (luaO_pushvfstring num2str ptr2str fmt args)
         | _ \<Rightarrow> Inl (UB ''va_arg''))
      else if d = CHR ''d'' then
        (case args of
           VInt i # args \<Rightarrow> rmap ((@) (num2str (dbl_of_int i))) (luaO_pushvfstring num2str ptr2str fmt args)
         | _ \<Rightarrow> Inl (UB ''va_arg''))
      else if d = CHR ''f'' then
        (case args of
           VNumber n # args \<Rightarrow> rmap ((@) (num2str n)) (luaO_pushvfstring num2str ptr2str fmt args)
         | _ \<Rightarrow> Inl (UB ''va_arg''))
      else if d = CHR ''p'' then
        (case args of
           VPointer p # args \<Rightarrow> rmap ((@) (ptr2str p)) (luaO_pushvfstring num2str ptr2str fmt args)
         | _ \<Rightarrow> Inl (UB ''va_arg''))
      else if d = CHR ''%'' then rmap ((#) (CHR ''%'')) (luaO_pushvfstring num2str ptr2str fmt args)
      else rmap ((@) [CHR ''%'', d]) (luaO_pushvfstring num2str ptr2str fmt args))"

subsection \<open>Chunk names\<close>

text \<open>\<open>size_t\<close> subtraction, and the text that the call leaves in a buffer of \<open>n\<close> bytes.\<close>

definition size_sub :: "nat \<Rightarrow> nat \<Rightarrow> nat" where
  "size_sub a b = nat ((int a - int b) mod 2 ^ 64)"

definition fits :: "nat \<Rightarrow> string \<Rightarrow> string res" where
  "fits n out = (if length out < n then Inr out else Inl (UB ''buffer write''))"

definition LUA_IDSIZE :: nat where "LUA_IDSIZE = 60"

definition luaO_chunkid :: "string \<Rightarrow> nat \<Rightarrow> string res" where
  "luaO_chunkid source0 bufflen0 =
     (let source = cstr source0 in
      if source \<noteq> [] \<and> hd source = CHR ''='' then
        fits bufflen0 (take (size_sub bufflen0 1) (tl source))
      else if source \<noteq> [] \<and> hd source = CHR ''@'' then
        (let src = tl source; bufflen = size_sub bufflen0 8; l = length src in
         if l > bufflen then fits bufflen0 (''...'' @ drop (l - bufflen) src)
         else fits bufflen0 src)
      else
        (let n = length (takeWhile (\<lambda>c. c \<noteq> CHR 0x0A \<and> c \<noteq> CHR 0x0D) source);
             bufflen = size_sub bufflen0 17;
             len = (if n > bufflen then bufflen else n);
             body = (if len < length source then take len source @ ''...'' else source)
         in fits bufflen0 (''[string '' @ [CHR 0x22] @ body @ [CHR 0x22] @ '']'')))"

subsection \<open>The size encoding\<close>

text \<open>The loop halves, rounding up: it keeps \<open>ceiling (x0 / 2 ^ e)\<close>.\<close>

lemma int2fb_loop_spec:
  "int2fb_loop x e = (y, e') \<Longrightarrow> unat x < 2 ^ 31 \<Longrightarrow>
     unat y < 16 \<and> e \<le> e' \<and> (e < e' \<longrightarrow> 8 \<le> unat y \<and> 15 * 2 ^ (e' - Suc e) < unat x) \<and>
     unat x \<le> unat y * 2 ^ (e' - e) \<and> unat y * 2 ^ (e' - e) < unat x + 2 ^ (e' - e)"
proof (induction x e arbitrary: y e' rule: int2fb_loop.induct)
  case (1 x e)
  show ?case
  proof (cases "x \<ge> 16")
    case False
    then have "int2fb_loop x e = (x, e)" by (simp add: int2fb_loop.simps [of x e])
    with 1 False show ?thesis by (simp add: word_le_nat_alt)
  next
    case True
    define h where "h = drop_bit 1 (x + 1)"
    have "unat (x + 1) = unat x + 1"
      using "1.prems"(2) by (simp add: unat_word_ariths)
    then have h: "unat h = (unat x + 1) div 2"
      unfolding h_def by (simp only: unat_drop_bit_eq) (simp add: drop_bit_eq_div)
    have "16 \<le> unat x" using True by (simp add: word_le_nat_alt)
    have loop: "int2fb_loop h (e + 1) = (y, e')"
      using "1.prems"(1) True by (simp add: int2fb_loop.simps [of x e] h_def)
    have "unat h < 2 ^ 31" using h "1.prems"(2) by simp
    with "1.IH" [OF True, folded h_def, OF loop] have IH:
      "unat y < 16" "e + 1 \<le> e'" "e + 1 < e' \<longrightarrow> 8 \<le> unat y \<and> 15 * 2 ^ (e' - Suc (e + 1)) < unat h"
      "unat h \<le> unat y * 2 ^ (e' - (e + 1))" "unat y * 2 ^ (e' - (e + 1)) < unat h + 2 ^ (e' - (e + 1))"
      by simp_all
    define k where "k = e' - (e + 1)"
    have k: "e' - e = Suc k" using IH(2) by (simp add: k_def)
    have "unat x \<le> 2 * unat h" "2 * unat h \<le> unat x + 1" using h by simp_all
    moreover have "8 \<le> unat y" using IH \<open>16 \<le> unat x\<close> h by (cases "e + 1 = e'") auto
    moreover have "15 * 2 ^ k < unat x"
    proof (cases "e + 1 = e'")
      case True
      then show ?thesis using \<open>16 \<le> unat x\<close> by (simp add: k_def)
    next
      case False
      with IH(2,3) have lower: "15 * 2 ^ (e' - Suc (e + 1)) < unat h" by auto
      have "k = Suc (e' - Suc (e + 1))" using False IH(2) by (simp add: k_def)
      then have "(15 :: nat) * 2 ^ k = 2 * (15 * 2 ^ (e' - Suc (e + 1)))" by simp
      with lower \<open>2 * unat h \<le> unat x + 1\<close> show ?thesis by linarith
    qed
    moreover have "e' - Suc e = k" by (simp add: k_def)
    ultimately show ?thesis using IH unfolding k k_def [symmetric] by (simp; linarith)
  qed
qed

lemma or_low_bits: "0 \<le> (r::int) \<Longrightarrow> r < 8 \<Longrightarrow> (q * 8) OR r = q * 8 + r"
proof -
  assume r: "0 \<le> r" "r < 8"
  have "(q * 8) AND r = 0"
  proof (rule bit_eqI)
    fix n
    have "r = take_bit 3 r" using r by (simp add: take_bit_eq_mod)
    then have "bit r n \<Longrightarrow> n < 3" by (metis bit_take_bit_iff)
    moreover have "q * 8 = push_bit 3 q" by (simp add: push_bit_eq_mult)
    ultimately show "bit ((q * 8) AND r) n = bit 0 n" by (auto simp: bit_and_iff bit_push_bit_iff)
  qed
  then show "(q * 8) OR r = q * 8 + r" using plus_and_or [of "q * 8" r] by simp
qed

lemma and_mask_mod: "(x::int) AND 7 = x mod 8" "(x::int) AND 31 = x mod 32"
  using take_bit_eq_mask [of 3 x] take_bit_eq_mask [of 5 x]
  by (simp_all add: take_bit_eq_mod mask_eq_exp_minus_1)

lemma eighth_bound: "(v::int) < x + p \<Longrightarrow> 8 * p \<le> v \<Longrightarrow> 8 * (v - x) \<le> v"
  by presburger

lemma fb2int_of_parts:
  assumes "8 \<le> y" "y < 16" "0 \<le> k" "k < 31"
  shows "luaO_fb2int (((k + 1) * 8) OR (y - 8)) =
    (if y * 2 ^ nat k < 2 ^ 31 then Inr (y * 2 ^ nat k) else Inl (UB ''signed shift''))"
proof -
  have "((k + 1) * 8) OR (y - 8) = (k + 1) * 8 + (y - 8)" using assms by (intro or_low_bits) auto
  moreover have "((k + 1) * 8 + (y - 8)) div 8 = k + 1" using assms by simp
  moreover have "((k + 1) * 8 + (y - 8)) mod 8 = y - 8" using assms by presburger
  ultimately show ?thesis
    using assms by (simp add: luaO_fb2int_def Let_def and_mask_mod)
qed

text \<open>
  C10. The one-byte encoding of a table size: up to \<open>15 * 2 ^ 27\<close> decoding an encoded size
  gives at least the size, exactly the size below 16, and at most one eighth more; above, the
  encoded byte stands for a size that overflows the \<open>int\<close> it is decoded into.
\<close>

theorem int2fb_fb2int:
  assumes "unat x < 2 ^ 31"
  shows "if unat x \<le> 2013265920
    then \<exists>v. luaO_fb2int (luaO_int2fb x) = Inr v \<and> int (unat x) \<le> v \<and>
           8 * (v - int (unat x)) \<le> v \<and> (unat x < 16 \<longrightarrow> v = int (unat x))
    else luaO_fb2int (luaO_int2fb x) = Inl (UB ''signed shift'')"
proof -
  obtain y e where ye: "int2fb_loop x 0 = (y, e)" by (cases "int2fb_loop x 0")
  note spec = int2fb_loop_spec [OF ye assms, unfolded minus_nat.diff_0]
  have small: "e = 0 \<and> y = x" if "unat x < 16"
    using ye that by (simp add: int2fb_loop.simps [of x 0] word_le_nat_alt)
  show ?thesis
  proof (cases "y < 8")
    case True
    then have y: "unat y < 8" by (simp add: word_less_nat_alt)
    with spec have e: "e = 0" by auto
    with spec have "unat x = unat y" by simp
    moreover have "luaO_int2fb x = int (unat y)"
      using True by (simp add: luaO_int2fb_def ye)
    moreover have "luaO_fb2int (int (unat y)) = Inr (int (unat y))"
    proof -
      have "uint y div 8 = 0" using True by (intro div_pos_pos_trivial) (simp_all add: word_less_def)
      then show ?thesis by (simp add: luaO_fb2int_def Let_def)
    qed
    ultimately show ?thesis using y by simp
  next
    case False
    then have y: "8 \<le> unat y" "unat y < 16" using spec by (simp_all add: word_less_nat_alt)
    have "8 * 2 ^ e \<le> unat y * 2 ^ e" using y by simp
    with spec have "8 * 2 ^ e < unat x + 2 ^ e" by linarith
    then have "(2::nat) ^ e < 2 ^ 31" using assms by linarith
    then have e: "e < 31" by (rule power_less_imp_less_exp [rotated]) simp
    have "luaO_int2fb x = ((int e + 1) * 8) OR (int (unat y) - 8)"
      using False by (simp add: luaO_int2fb_def ye)
    moreover have iy: "8 \<le> int (unat y)" "int (unat y) < 16" "0 \<le> int e" "int e < 31"
      using y e by linarith+
    ultimately have v: "luaO_fb2int (luaO_int2fb x) =
        (if int (unat y) * 2 ^ e < 2 ^ 31 then Inr (int (unat y) * 2 ^ e) else Inl (UB ''signed shift''))"
      using fb2int_of_parts [of "int (unat y)" "int e"] by (simp only: nat_int)
    have b: "int (unat x) \<le> int (unat y) * 2 ^ e" "int (unat y) * 2 ^ e < int (unat x) + 2 ^ e"
    proof -
      have "int (unat x) \<le> int (unat y * 2 ^ e)" "int (unat y * 2 ^ e) < int (unat x + 2 ^ e)"
        unfolding of_nat_le_iff of_nat_less_iff using spec by blast+
      then show "int (unat x) \<le> int (unat y) * 2 ^ e" "int (unat y) * 2 ^ e < int (unat x) + 2 ^ e"
        unfolding of_nat_mult of_nat_add of_nat_power of_nat_numeral .
    qed
    have range: "int (unat y) * 2 ^ e < 2 ^ 31 \<longleftrightarrow> unat x \<le> 2013265920"
    proof (cases "e \<le> 27")
      case True
      then have "int (unat y) * 2 ^ e \<le> 15 * 2 ^ 27"
        using iy(2) by (intro mult_mono power_increasing) (linarith | simp)+
      moreover have "(15::int) * 2 ^ 27 = 2013265920" "(2013265920::int) < 2 ^ 31" by simp_all
      ultimately have "int (unat x) \<le> 2013265920" "int (unat y) * 2 ^ e < 2 ^ 31" using b(1) by linarith+
      then show ?thesis by linarith
    next
      case False
      then have "(8::int) * 2 ^ 28 \<le> int (unat y) * 2 ^ e"
        using iy(1) by (intro mult_mono power_increasing) (linarith | simp)+
      moreover have "(2::nat) ^ 27 \<le> 2 ^ (e - Suc 0)" using False by (intro power_increasing) simp_all
      moreover have "15 * 2 ^ (e - Suc 0) < unat x" using spec False by auto
      ultimately show ?thesis by simp
    qed
    have "8 * 2 ^ e \<le> int (unat y) * 2 ^ e" by (intro mult_right_mono iy) simp
    with b have "8 * (int (unat y) * 2 ^ e - int (unat x)) \<le> int (unat y) * 2 ^ e"
      by (intro eighth_bound [where p = "2 ^ e"])
    moreover have "int (unat y) * 2 ^ e = int (unat x)" if "unat x < 16" using small [OF that] by simp
    ultimately show ?thesis unfolding v range using b(1) by simp
  qed
qed

theorem int2fb_fb2int_witness:
  "luaO_fb2int (luaO_int2fb 100) = Inr 104 \<and>
   (\<exists>v. luaO_fb2int (luaO_int2fb 100) = Inr v \<and> 100 \<le> v \<and> 8 * (v - 100) \<le> v) \<and>
   luaO_fb2int (luaO_int2fb 2013265921) = Inl (UB ''signed shift'')"
proof (intro conjI)
  show "luaO_fb2int (luaO_int2fb 100) = Inr 104" by code_simp
  show "\<exists>v. luaO_fb2int (luaO_int2fb 100) = Inr v \<and> 100 \<le> v \<and> 8 * (v - 100) \<le> v"
    using int2fb_fb2int [of 100] by auto
  show "luaO_fb2int (luaO_int2fb 2013265921) = Inl (UB ''signed shift'')"
    using int2fb_fb2int [of 2013265921] by simp
qed

subsection \<open>The logarithm\<close>

lemma log_2_table:
  "list_all (\<lambda>n. 0 < n \<longrightarrow> 0 < log_2 ! n \<and> 2 ^ nat (log_2 ! n - 1) \<le> n \<and> n < 2 ^ nat (log_2 ! n)) [0..<256]"
  by code_simp

lemma log2_loop_spec:
  "log2_loop x l = (y, l') \<Longrightarrow> x \<noteq> 0 \<Longrightarrow> \<exists>k. l' = l + 8 * int k \<and> 0 < unat y \<and> unat y < 256 \<and>
     unat y * 2 ^ (8 * k) \<le> unat x \<and> unat x < (unat y + 1) * 2 ^ (8 * k)"
proof (induction x l arbitrary: y l' rule: log2_loop.induct)
  case (1 x l)
  show ?case
  proof (cases "x \<ge> 256")
    case False
    then have "log2_loop x l = (x, l)" by (simp add: log2_loop.simps [of x l])
    with 1 False show ?thesis
      by (intro exI [of _ 0]) (auto simp: word_le_nat_alt unat_gt_0)
  next
    case True
    define h where "h = drop_bit 8 x"
    have h: "unat h = unat x div 256"
      unfolding h_def by (simp only: unat_drop_bit_eq) (simp add: drop_bit_eq_div)
    have "256 \<le> unat x" using True by (simp add: word_le_nat_alt)
    then have "h \<noteq> 0" using h by (metis div_greater_zero_iff less_numeral_extra(3) unat_0 zero_less_numeral)
    moreover have "log2_loop h (l + 8) = (y, l')"
      using "1.prems"(1) True by (simp add: log2_loop.simps [of x l] h_def)
    ultimately obtain k where k: "l' = l + 8 + 8 * int k" "0 < unat y" "unat y < 256"
      "unat y * 2 ^ (8 * k) \<le> unat h" "unat h < (unat y + 1) * 2 ^ (8 * k)"
      using "1.IH" [OF True, folded h_def, of y l'] by auto
    have "unat y * 2 ^ (8 * k) * 256 \<le> unat x" using k(4) h by (simp add: less_eq_div_iff_mult_less_eq)
    moreover have "unat x < (unat y + 1) * 2 ^ (8 * k) * 256" using k(5) h by (simp add: div_less_iff_less_mult)
    ultimately show ?thesis using k
      by (intro exI [of _ "Suc k"]) (simp add: power_add algebra_simps)
  qed
qed

lemma luaO_log2_floor_aux:
  assumes "x \<noteq> 0"
  shows "0 \<le> luaO_log2 x \<and> 2 ^ nat (luaO_log2 x) \<le> unat x \<and> unat x < 2 ^ (nat (luaO_log2 x) + 1)"
proof -
  obtain y l where yl: "log2_loop x (- 1) = (y, l)" by (cases "log2_loop x (- 1)")
  from log2_loop_spec [OF yl assms] obtain k where k: "l = 8 * int k - 1" "0 < unat y" "unat y < 256"
    "unat y * 2 ^ (8 * k) \<le> unat x" "unat x < (unat y + 1) * 2 ^ (8 * k)" by auto
  define t where "t = log_2 ! unat y"
  have t: "0 < t" "2 ^ nat (t - 1) \<le> unat y" "unat y + 1 \<le> 2 ^ nat t"
    using log_2_table k(2,3) by (auto simp: list_all_iff t_def Suc_le_eq)
  have eq: "luaO_log2 x = 8 * int k + (t - 1)" by (simp add: luaO_log2_def yl k(1) t_def)
  then have n: "nat (luaO_log2 x) = nat (t - 1) + 8 * k" "Suc (nat (luaO_log2 x)) = nat t + 8 * k"
    using t(1) by (simp_all add: nat_add_distrib nat_mult_distrib)
  have "2 ^ nat (t - 1) * 2 ^ (8 * k) \<le> unat y * 2 ^ (8 * k)" using t(2) by simp
  moreover have "(unat y + 1) * 2 ^ (8 * k) \<le> 2 ^ nat t * 2 ^ (8 * k)"
    using t(3) by (rule mult_right_mono) simp
  ultimately show ?thesis
    using k eq t(1) unfolding Suc_eq_plus1 [symmetric] n(2) unfolding n(1) power_add by linarith
qed

text \<open>
  \<open>luaO_log2\<close> is the floor of the binary logarithm for every non-zero argument, so the
  shift it is used for reaches the node count and no further.
\<close>

theorem luaO_log2_floor:
  assumes "x \<noteq> 0"
  shows "0 \<le> luaO_log2 x \<and> 2 ^ nat (luaO_log2 x) \<le> unat x \<and> unat x < 2 ^ (nat (luaO_log2 x) + 1)"
  using assms by (rule luaO_log2_floor_aux)

theorem luaO_log2_floor_witness: "luaO_log2 1000 = 9 \<and> unat (1000 :: u32) < 2 ^ 10"
proof
  show "luaO_log2 1000 = 9" by code_simp
  then show "unat (1000 :: u32) < 2 ^ 10" using luaO_log2_floor [of 1000] by simp
qed

subsection \<open>Chunk names\<close>

lemma luaO_chunkid_fits_aux:
  assumes "17 \<le> n" "n < 2 ^ 64" 
  shows "\<exists>out. luaO_chunkid source n = Inr out \<and> length out < n"
proof -
  have sub: "size_sub n k = n - k" if "k \<le> n" for k
  proof -
    have "(int n - int k) mod 2 ^ 64 = int n - int k"
      using that assms by (intro mod_pos_pos_trivial) simp_all
    then show ?thesis by (simp add: size_sub_def)
  qed
  let ?s = "cstr source"
  consider "?s \<noteq> [] \<and> hd ?s = CHR ''=''" | "?s \<noteq> [] \<and> hd ?s \<noteq> CHR ''='' \<and> hd ?s = CHR ''@''"
    | "\<not> (?s \<noteq> [] \<and> hd ?s = CHR ''='')" "\<not> (?s \<noteq> [] \<and> hd ?s = CHR ''@'')" by blast
  then show ?thesis
  proof cases
    case 1
    with assms sub [of 1] show ?thesis by (simp add: luaO_chunkid_def fits_def Let_def min_less_iff_disj)
  next
    case 2
    with assms sub [of 8] show ?thesis by (simp add: luaO_chunkid_def fits_def Let_def)
  next
    case 3
    define m where "m = length (takeWhile (\<lambda>c. c \<noteq> CHR 0x0A \<and> c \<noteq> CHR 0x0D) ?s)"
    define len where "len = (if m > n - 17 then n - 17 else m)"
    define body where "body = (if len < length ?s then take len ?s @ ''...'' else ?s)"
    have "length body \<le> len + 3" by (simp add: body_def)
    moreover have "len \<le> n - 17" by (simp add: len_def)
    ultimately have lt: "length (''[string '' @ [CHR 0x22] @ body @ [CHR 0x22] @ '']'') < n"
      using assms(1) by simp
    show ?thesis
      unfolding luaO_chunkid_def Let_def if_not_P [OF 3(1)] if_not_P [OF 3(2)] sub [OF assms(1)]
        fits_def m_def [symmetric] len_def [symmetric] body_def [symmetric] if_P [OF lt]
      using lt by blast
  qed
qed

text \<open>
  The printable name of any chunk fits its buffer, the terminator included, for
  every buffer that holds the fixed text: \<open>LUA_IDSIZE\<close> is one.
\<close>

theorem luaO_chunkid_fits:
  assumes "17 \<le> n" "n < 2 ^ 64" 
  shows "\<exists>out. luaO_chunkid source n = Inr out \<and> length out < n"
  using assms by (rule luaO_chunkid_fits_aux)

theorem luaO_chunkid_fits_witness:
  "luaO_chunkid ''@a/rather/long/file/name.lua'' 20 = Inr ''...ile/name.lua'' \<and>
   (\<exists>out. luaO_chunkid ''@a/rather/long/file/name.lua'' 20 = Inr out \<and> length out < 20)"
proof
  show "luaO_chunkid ''@a/rather/long/file/name.lua'' 20 = Inr ''...ile/name.lua''" by code_simp
  show "\<exists>out. luaO_chunkid ''@a/rather/long/file/name.lua'' 20 = Inr out \<and> length out < 20"
    by (rule luaO_chunkid_fits) simp_all
qed

end
