(* ===== verification/StrMatch.thy ===== *)
theory StrMatch
  imports Ctype
begin

text \<open>
  The pattern matcher of \<open>lua/lstrlib.c\<close>: \<open>match\<close> and the functions it calls, over
  the subject string \<open>S\<close> and the pattern \<open>P\<close>. A pointer into either is its index; every
  read goes through \<open>rd\<close>, so a read outside a string is a \<open>UB\<close> result. \<open>MatchState\<close>
  carries the captures; a function that returns \<open>NULL\<close> returns \<open>None\<close>.
\<close>

definition CAP_UNFINISHED :: int where "CAP_UNFINISHED = - 1"
definition CAP_POSITION :: int where "CAP_POSITION = - 2"
definition LUA_MAXCAPTURES :: nat where "LUA_MAXCAPTURES = 32"

abbreviation L_ESC :: char where "L_ESC \<equiv> CHR ''%''"

record MatchState =
  level :: nat
  capture :: "(nat \<times> int) list"

definition ms_init :: MatchState where
  "ms_init = \<lparr>level = 0, capture = replicate LUA_MAXCAPTURES (0, 0)\<rparr>"

definition run_error :: "string \<Rightarrow> 'a res" where
  "run_error m = Inl (LuaError LUA_ERRRUN m)"

lemma run_error_not_UB [simp]: "\<not> is_UB (run_error m)"
  by (simp add: run_error_def)

lemma run_error_not_Inr [simp]: "run_error m \<noteq> Inr x" "Inr x \<noteq> run_error m"
  by (simp_all add: run_error_def)

definition check_capture :: "MatchState \<Rightarrow> int \<Rightarrow> nat res" where
  "check_capture ms l =
     (let l = l - uchar (CHR ''1'') in
      if l < 0 \<or> l \<ge> int (level ms) then run_error ''invalid capture index''
      else rbind (aget (capture ms) l) (\<lambda>c.
        if snd c = CAP_UNFINISHED then run_error ''invalid capture index'' else Inr (nat l)))"

fun capture_to_close_from :: "MatchState \<Rightarrow> nat \<Rightarrow> nat res" where
  "capture_to_close_from ms 0 = run_error ''invalid pattern capture''"
| "capture_to_close_from ms (Suc l) =
     rbind (aget (capture ms) (int l)) (\<lambda>c.
     if snd c = CAP_UNFINISHED then Inr l else capture_to_close_from ms l)"

definition capture_to_close :: "MatchState \<Rightarrow> nat res" where
  "capture_to_close ms = capture_to_close_from ms (level ms)"

text \<open>The \<open>do ... while\<close> of \<open>classend\<close> that looks for the closing bracket.\<close>

function bracket_end :: "string \<Rightarrow> nat \<Rightarrow> nat res" where
  "bracket_end P p =
     rbind (rd P p) (\<lambda>c.
     if c = NUL then run_error ''malformed pattern (missing ])''
     else
       rbind (if c = L_ESC
              then rbind (rd P (p + 1)) (\<lambda>c2. Inr (if c2 \<noteq> NUL then p + 2 else p + 1))
              else Inr (p + 1)) (\<lambda>p'.
       rbind (rd P p') (\<lambda>c.
       if c = CHR '']'' then Inr (p' + 1) else bracket_end P p')))"
  by pat_completeness auto
termination
  by (relation "measure (\<lambda>(P, p). length P - p)") (auto dest!: rd_nonzero split: if_splits)

declare bracket_end.simps [simp del]

definition classend :: "string \<Rightarrow> nat \<Rightarrow> nat res" where
  "classend P p =
     rbind (rd P p) (\<lambda>c.
     if c = L_ESC then
       rbind (rd P (p + 1)) (\<lambda>c1.
       if c1 = NUL then run_error ''malformed pattern (ends with %)'' else Inr (p + 2))
     else if c = CHR ''['' then
       rbind (rd P (p + 1)) (\<lambda>c1. bracket_end P (if c1 = CHR ''^'' then p + 2 else p + 1))
     else Inr (p + 1))"

definition match_class :: "int \<Rightarrow> int \<Rightarrow> bool" where
  "match_class c cl =
     (let l = tolower cl; neg = (\<lambda>r. if islower cl then r else \<not> r) in
      if l = uchar CHR ''a'' then neg (isalpha c)
      else if l = uchar CHR ''c'' then neg (iscntrl c)
      else if l = uchar CHR ''d'' then neg (isdigit c)
      else if l = uchar CHR ''l'' then neg (islower c)
      else if l = uchar CHR ''p'' then neg (ispunct c)
      else if l = uchar CHR ''s'' then neg (isspace c)
      else if l = uchar CHR ''u'' then neg (isupper c)
      else if l = uchar CHR ''w'' then neg (isalnum c)
      else if l = uchar CHR ''x'' then neg (isxdigit c)
      else if l = uchar CHR ''z'' then neg (c = 0)
      else cl = c)"

text \<open>The \<open>while (++p < ec)\<close> loop, called with the incremented pointer.\<close>

function bracket_loop :: "string \<Rightarrow> int \<Rightarrow> nat \<Rightarrow> nat \<Rightarrow> bool \<Rightarrow> bool res" where
  "bracket_loop P c p ec sig =
     (if p < ec then
        rbind (rd P p) (\<lambda>x.
        if x = L_ESC then
          rbind (rd P (p + 1)) (\<lambda>y.
          if match_class c (uchar y) then Inr sig else bracket_loop P c (p + 2) ec sig)
        else
          rbind (rd P (p + 1)) (\<lambda>y.
          if y = CHR ''-'' \<and> p + 2 < ec then
            rbind (rd P (p + 2)) (\<lambda>z.
            if uchar x \<le> c \<and> c \<le> uchar z then Inr sig else bracket_loop P c (p + 3) ec sig)
          else if uchar x = c then Inr sig
          else bracket_loop P c (p + 1) ec sig))
      else Inr (\<not> sig))"
  by pat_completeness auto
termination
  by (relation "measure (\<lambda>(P, c, p, ec, sig). ec - p)") auto

declare bracket_loop.simps [simp del]

definition matchbracketclass :: "string \<Rightarrow> int \<Rightarrow> nat \<Rightarrow> nat \<Rightarrow> bool res" where
  "matchbracketclass P c p ec =
     rbind (rd P (p + 1)) (\<lambda>x.
     if x = CHR ''^'' then bracket_loop P c (p + 2) ec False
     else bracket_loop P c (p + 1) ec True)"

definition singlematch :: "string \<Rightarrow> int \<Rightarrow> nat \<Rightarrow> nat \<Rightarrow> bool res" where
  "singlematch P c p ep =
     rbind (rd P p) (\<lambda>x.
     if x = CHR ''.'' then Inr True
     else if x = L_ESC then rbind (rd P (p + 1)) (\<lambda>y. Inr (match_class c (uchar y)))
     else if x = CHR ''['' then matchbracketclass P c p (ep - 1)
     else Inr (uchar x = c))"

text \<open>\<open>s < src_end && singlematch(*s, p, ep)\<close>\<close>

definition single_at :: "string \<Rightarrow> string \<Rightarrow> nat \<Rightarrow> nat \<Rightarrow> nat \<Rightarrow> bool res" where
  "single_at S P s p ep =
     (if s < length S then rbind (rd S s) (\<lambda>c. singlematch P (uchar c) p ep) else Inr False)"

fun balance_loop :: "string \<Rightarrow> char \<Rightarrow> char \<Rightarrow> nat \<Rightarrow> nat \<Rightarrow> nat \<Rightarrow> nat option" where
  "balance_loop S b e cont s 0 = None"
| "balance_loop S b e cont s (Suc n) =
     (if S ! s = e then (if cont = 1 then Some (s + 1) else balance_loop S b e (cont - 1) (s + 1) n)
      else balance_loop S b e (if S ! s = b then cont + 1 else cont) (s + 1) n)"

definition matchbalance :: "string \<Rightarrow> string \<Rightarrow> nat \<Rightarrow> nat \<Rightarrow> nat option res" where
  "matchbalance S P s p =
     rbind (rd P p) (\<lambda>b.
     if b = NUL then run_error ''unbalanced pattern''
     else rbind (rd P (p + 1)) (\<lambda>e.
       if e = NUL then run_error ''unbalanced pattern''
       else rbind (rd S s) (\<lambda>c.
         if c \<noteq> b then Inr None
         else Inr (balance_loop S b e 1 (s + 1) (length S - (s + 1))))))"

lemma single_at_True: "single_at S P s p ep = Inr True \<Longrightarrow> s < length S"
  by (auto simp: single_at_def split: if_splits)

function expand_count :: "string \<Rightarrow> string \<Rightarrow> nat \<Rightarrow> nat \<Rightarrow> nat \<Rightarrow> nat \<Rightarrow> nat res" where
  "expand_count S P s p ep i =
     rbind (single_at S P (s + i) p ep) (\<lambda>m.
     if m then expand_count S P s p ep (i + 1) else Inr i)"
  by pat_completeness auto
termination
  by (relation "measure (\<lambda>(S, P, s, p, ep, i). length S - (s + i))") (auto dest!: single_at_True)

declare expand_count.simps [simp del]

text \<open>\<open>memcmp\<close> of a capture with the subject at \<open>s\<close>; a position capture has the length
  \<open>(size_t)-2\<close>, which no subject reaches.\<close>

definition match_capture :: "string \<Rightarrow> MatchState \<Rightarrow> nat \<Rightarrow> int \<Rightarrow> nat option res" where
  "match_capture S ms s l =
     rbind (check_capture ms l) (\<lambda>l.
     rbind (aget (capture ms) (int l)) (\<lambda>(init, len).
     if 0 \<le> len \<and> length S - s \<ge> nat len then
       if init + nat len \<le> length S then
         Inr (if take (nat len) (drop init S) = take (nat len) (drop s S)
              then Some (s + nat len) else None)
       else Inl (UB ''memcmp'')
     else Inr None))"

lemma bracket_end_bound:
  "bracket_end P p = Inr q \<Longrightarrow> p < q \<and> q \<le> length P"
proof (induction P p rule: bracket_end.induct)
  case (1 P p)
  from "1.prems" obtain c p' d where c: "rd P p = Inr c" "c \<noteq> NUL"
    "(if c = L_ESC then rbind (rd P (p + 1)) (\<lambda>c2. Inr (if c2 \<noteq> NUL then p + 2 else p + 1))
      else Inr (p + 1)) = Inr p'"
    "rd P p' = Inr d" "(if d = CHR '']'' then Inr (p' + 1) else bracket_end P p') = Inr q"
    by (subst (asm) bracket_end.simps) (auto split: if_splits)
  have "p < p'" using c(3) by (auto split: if_splits)
  show ?case
  proof (cases "d = CHR '']''")
    case True
    with c \<open>p < p'\<close> rd_nonzero [OF c(4)] show ?thesis by auto
  next
    case False
    with c "1.IH" [OF c(1,2,3,4) False] \<open>p < p'\<close> show ?thesis by auto
  qed
qed

lemma classend_bound: "classend P p = Inr q \<Longrightarrow> p < q \<and> (p < length P \<longrightarrow> q \<le> length P)"
  unfolding classend_def
  by (auto dest!: bracket_end_bound rd_nonzero split: if_splits)

lemma pattern_shrinks:
  "classend P p = Inr ep \<Longrightarrow> rd P ep = Inr c \<Longrightarrow> length P - (ep + 1) < length P - p"
  "classend P p = Inr ep \<Longrightarrow> rd P ep = Inr c \<Longrightarrow> length P - ep < length P - p"
  "rd P p = Inr c \<Longrightarrow> c = CHR ''('' \<or> c = CHR '')'' \<or> c = L_ESC \<Longrightarrow> 0 < k \<Longrightarrow>
     length P - (p + k) < length P - p"
  "rd P p = Inr L_ESC \<Longrightarrow> classend P (p + 2) = Inr ep \<Longrightarrow> length P - ep < length P - p"
proof -
  show "rd P p = Inr c \<Longrightarrow> c = CHR ''('' \<or> c = CHR '')'' \<or> c = L_ESC \<Longrightarrow> 0 < k \<Longrightarrow>
     length P - (p + k) < length P - p"
    using rd_nonzero [of P p c] by auto
  show "length P - ep < length P - p" if "rd P p = Inr L_ESC" "classend P (p + 2) = Inr ep"
    using rd_nonzero [OF that(1)] classend_bound [OF that(2)] by auto
qed (auto dest!: classend_bound rd_bound)

subsection \<open>The backtracking matcher\<close>

text \<open>
  The helpers of \<open>match\<close> that call it back take it as the argument \<open>mt\<close>: a function
  of the match state and of the subject position, at the pattern position that the helper
  passes on (\<open>ep + 1\<close> for the expanders, \<open>p\<close> for the captures).
\<close>

type_synonym match_result = "(nat option \<times> MatchState) res"

text \<open>The second loop of \<open>max_expand\<close>, from \<open>i\<close> repetitions down to none.\<close>

fun max_expand_try ::
  "(MatchState \<Rightarrow> nat \<Rightarrow> match_result) \<Rightarrow> MatchState \<Rightarrow> nat \<Rightarrow> nat \<Rightarrow> match_result" where
  "max_expand_try mt ms s i =
    rbind (mt ms (s + i)) (\<lambda>(res, ms).
    case res of
      Some e \<Rightarrow> Inr (Some e, ms)
    | None \<Rightarrow> (case i of 0 \<Rightarrow> Inr (None, ms) | Suc i \<Rightarrow> max_expand_try mt ms s i))"

definition max_expand :: "string \<Rightarrow> string \<Rightarrow> (MatchState \<Rightarrow> nat \<Rightarrow> match_result) \<Rightarrow>
    MatchState \<Rightarrow> nat \<Rightarrow> nat \<Rightarrow> nat \<Rightarrow> match_result" where
  "max_expand S P mt ms s p ep =
    rbind (expand_count S P s p ep 0) (\<lambda>i. max_expand_try mt ms s i)"

function min_expand :: "string \<Rightarrow> string \<Rightarrow> (MatchState \<Rightarrow> nat \<Rightarrow> match_result) \<Rightarrow>
    MatchState \<Rightarrow> nat \<Rightarrow> nat \<Rightarrow> nat \<Rightarrow> match_result" where
  "min_expand S P mt ms s p ep =
    rbind (mt ms s) (\<lambda>(res, ms).
    case res of
      Some e \<Rightarrow> Inr (Some e, ms)
    | None \<Rightarrow>
        rbind (single_at S P s p ep) (\<lambda>m.
        if m then min_expand S P mt ms (s + 1) p ep else Inr (None, ms)))"
  by pat_completeness auto
termination
  by (relation "measure (\<lambda>(S, P, mt, ms, s, p, ep). length S - s)") (auto dest!: single_at_True)

definition start_capture :: "(MatchState \<Rightarrow> nat \<Rightarrow> match_result) \<Rightarrow>
    MatchState \<Rightarrow> nat \<Rightarrow> int \<Rightarrow> match_result" where
  "start_capture mt ms s what =
    (if level ms \<ge> LUA_MAXCAPTURES then run_error ''too many captures''
     else
       rbind (aput (capture ms) (int (level ms)) (s, what)) (\<lambda>cs.
       rbind (mt (ms\<lparr>level := level ms + 1, capture := cs\<rparr>) s) (\<lambda>(res, ms).
       Inr (res, if res = None then ms\<lparr>level := level ms - 1\<rparr> else ms))))"

definition end_capture :: "(MatchState \<Rightarrow> nat \<Rightarrow> match_result) \<Rightarrow>
    MatchState \<Rightarrow> nat \<Rightarrow> match_result" where
  "end_capture mt ms s =
    rbind (capture_to_close ms) (\<lambda>l.
    rbind (aget (capture ms) (int l)) (\<lambda>(init, _).
    rbind (aput (capture ms) (int l) (init, int s - int init)) (\<lambda>cs.
    rbind (mt (ms\<lparr>capture := cs\<rparr>) s) (\<lambda>(res, ms).
    if res = None then
      rbind (aget (capture ms) (int l)) (\<lambda>(init, _).
      rbind (aput (capture ms) (int l) (init, CAP_UNFINISHED)) (\<lambda>cs.
      Inr (None, ms\<lparr>capture := cs\<rparr>)))
    else Inr (res, ms)))))"

text \<open>
  \<open>match\<close> itself. \<open>dflt\<close> is the code under the label of the same name, which three
  cases of the switch reach. Every call, also through a helper, is at a later position of the
  pattern, so the recursion ends.
\<close>

function do_match :: "string \<Rightarrow> string \<Rightarrow> MatchState \<Rightarrow> nat \<Rightarrow> nat \<Rightarrow> match_result" where
  "do_match S P ms s p =
    (let dflt =
       rbind (classend P p) (\<lambda>ep.
       rbind (single_at S P s p ep) (\<lambda>m.
       rbind (rd P ep) (\<lambda>c.
       if c = CHR ''?'' then
         (if m then
            rbind (do_match S P ms (s + 1) (ep + 1)) (\<lambda>(res, ms).
            case res of Some e \<Rightarrow> Inr (Some e, ms) | None \<Rightarrow> do_match S P ms s (ep + 1))
          else do_match S P ms s (ep + 1))
       else if c = CHR ''*'' then max_expand S P (\<lambda>ms s. do_match S P ms s (ep + 1)) ms s p ep
       else if c = CHR ''+'' then
         (if m then max_expand S P (\<lambda>ms s. do_match S P ms s (ep + 1)) ms (s + 1) p ep
          else Inr (None, ms))
       else if c = CHR ''-'' then min_expand S P (\<lambda>ms s. do_match S P ms s (ep + 1)) ms s p ep
       else if \<not> m then Inr (None, ms)
       else do_match S P ms (s + 1) ep)))
     in
     rbind (rd P p) (\<lambda>c.
     if c = CHR ''('' then
       rbind (rd P (p + 1)) (\<lambda>c1.
       if c1 = CHR '')'' then start_capture (\<lambda>ms s. do_match S P ms s (p + 2)) ms s CAP_POSITION
       else start_capture (\<lambda>ms s. do_match S P ms s (p + 1)) ms s CAP_UNFINISHED)
     else if c = CHR '')'' then end_capture (\<lambda>ms s. do_match S P ms s (p + 1)) ms s
     else if c = L_ESC then
       rbind (rd P (p + 1)) (\<lambda>c1.
       if c1 = CHR ''b'' then
         rbind (matchbalance S P s (p + 2)) (\<lambda>r.
         case r of None \<Rightarrow> Inr (None, ms) | Some s' \<Rightarrow> do_match S P ms s' (p + 4))
       else if c1 = CHR ''f'' then
         rbind (rd P (p + 2)) (\<lambda>c2.
         if c2 \<noteq> CHR ''['' then run_error ''missing [ after %f in pattern''
         else
           rbind (classend P (p + 2)) (\<lambda>ep.
           rbind (if s = 0 then Inr NUL else rd S (s - 1)) (\<lambda>previous.
           rbind (matchbracketclass P (uchar previous) (p + 2) (ep - 1)) (\<lambda>m1.
           if m1 then Inr (None, ms)
           else
             rbind (rd S s) (\<lambda>cur.
             rbind (matchbracketclass P (uchar cur) (p + 2) (ep - 1)) (\<lambda>m2.
             if \<not> m2 then Inr (None, ms) else do_match S P ms s ep))))))
       else if isdigit (uchar c1) then
         rbind (match_capture S ms s (uchar c1)) (\<lambda>r.
         case r of None \<Rightarrow> Inr (None, ms) | Some s' \<Rightarrow> do_match S P ms s' (p + 2))
       else dflt)
     else if c = NUL then Inr (Some s, ms)
     else if c = CHR ''$'' then
       rbind (rd P (p + 1)) (\<lambda>c1.
       if c1 = NUL then Inr (if s = length S then Some s else None, ms) else dflt)
     else dflt))"
  by pat_completeness auto
termination
  apply (relation "measure (\<lambda>(S, P, ms, s, p). length P - p)")
  apply (simp only: wf_measure)
  apply (simp_all only: in_measure case_prod_conv)
  apply (erule (1) pattern_shrinks(1) pattern_shrinks(2) | erule pattern_shrinks(3), blast, simp | erule (1) pattern_shrinks(4))+
  done

declare do_match.simps [simp del] max_expand_try.simps [simp del] min_expand.simps [simp del]

end
