(* ===== verification/StrMatchProps.thy ===== *)
theory StrMatchProps
  imports StrMatch
begin

text \<open>
  Memory safety of the pattern matcher: started inside the subject, with the pattern
  pointer inside the pattern, no read leaves either string or the capture array, the end of a match lies
  between the start and the end of the subject, and a failed match leaves the captures as
  they were.
\<close>

subsection \<open>Reads of the pattern\<close>

lemma not_UB_if: "(b \<Longrightarrow> \<not> is_UB x) \<Longrightarrow> (\<not> b \<Longrightarrow> \<not> is_UB y) \<Longrightarrow> \<not> is_UB (if b then x else y)"
  by simp

lemma bracket_end_safe: "p \<le> length P \<Longrightarrow> \<not> is_UB (bracket_end P p)"
proof (induction P p rule: bracket_end.induct)
  case (1 P p)
  show ?case
  proof (subst bracket_end.simps, intro not_UB_rbind not_UB_if)
    show "\<not> is_UB (rd P p)" using "1.prems" by simp
  next
    fix c c2 assume "rd P p = Inr c" "c \<noteq> NUL"
    then show "\<not> is_UB (rd P (p + 1))" by (auto dest: rd_nonzero)
  next
    fix c p' assume c: "rd P p = Inr c" "c \<noteq> NUL"
      and p': "(if c = L_ESC then rbind (rd P (p + 1)) (\<lambda>c2. Inr (if c2 \<noteq> NUL then p + 2 else p + 1))
        else Inr (p + 1)) = Inr p'"
    have le: "p' \<le> length P"
      using p' rd_nonzero [OF c] by (auto dest!: rd_nonzero split: if_splits)
    then show "\<not> is_UB (rd P p')" by simp
    fix d assume "rd P p' = Inr d" "d \<noteq> CHR '']''"
    with "1.IH" [OF c p'] le show "\<not> is_UB (bracket_end P p')" by simp
  qed simp_all
qed

lemma classend_safe: "p \<le> length P \<Longrightarrow> \<not> is_UB (classend P p)"
  unfolding classend_def
  by (intro not_UB_rbind not_UB_if)
     (auto dest!: rd_nonzero intro!: bracket_end_safe)

lemma bracket_loop_safe: "ec \<le> length P \<Longrightarrow> \<not> is_UB (bracket_loop P c p ec sig)"
proof (induction P c p ec sig rule: bracket_loop.induct)
  case (1 P c p ec sig)
  show ?case
    by (subst bracket_loop.simps, intro not_UB_rbind not_UB_if) (use 1 in auto)
qed

lemma matchbracketclass_safe:
  "p < ec \<Longrightarrow> ec \<le> length P \<Longrightarrow> \<not> is_UB (matchbracketclass P c p ec)"
  unfolding matchbracketclass_def
  by (intro not_UB_rbind not_UB_if) (simp_all add: bracket_loop_safe)

lemma bracket_end_gt: "bracket_end P p = Inr q \<Longrightarrow> p + 1 < q"
proof (induction P p rule: bracket_end.induct)
  case (1 P p)
  from "1.prems" obtain c p' d where c: "rd P p = Inr c" "c \<noteq> NUL"
    "(if c = L_ESC then rbind (rd P (p + 1)) (\<lambda>c2. Inr (if c2 \<noteq> NUL then p + 2 else p + 1))
      else Inr (p + 1)) = Inr p'"
    "rd P p' = Inr d" "(if d = CHR '']'' then Inr (p' + 1) else bracket_end P p') = Inr q"
    by (subst (asm) bracket_end.simps) (auto split: if_splits)
  have "p < p'" using c(3) by (auto split: if_splits)
  with "1.IH" [OF c(1,2,3,4)] c(5) show ?case by (auto split: if_splits)
qed

lemma classend_bracket: "classend P p = Inr ep \<Longrightarrow> rd P p = Inr CHR ''['' \<Longrightarrow> p + 1 < ep"
  by (auto simp: classend_def dest!: bracket_end_gt split: if_splits)

lemma singlematch_safe:
  "classend P p = Inr ep \<Longrightarrow> ep \<le> length P \<Longrightarrow> \<not> is_UB (singlematch P c p ep)"
  unfolding singlematch_def
  by (intro not_UB_rbind not_UB_if)
     (auto dest: classend_bound classend_bracket rd_nonzero simp: matchbracketclass_safe)

lemma single_at_safe:
  "classend P p = Inr ep \<Longrightarrow> ep \<le> length P \<Longrightarrow> s \<le> length S \<Longrightarrow> \<not> is_UB (single_at S P s p ep)"
  by (simp add: single_at_def rd_less singlematch_safe)

lemma expand_count_safe:
  "classend P p = Inr ep \<Longrightarrow> ep \<le> length P \<Longrightarrow> s + i \<le> length S \<Longrightarrow>
   \<not> is_UB (expand_count S P s p ep i) \<and>
   (\<forall>j. expand_count S P s p ep i = Inr j \<longrightarrow> i \<le> j \<and> s + j \<le> length S)"
proof (induction S P s p ep i rule: expand_count.induct)
  case (1 S P s p ep i)
  show ?case
  proof (cases "single_at S P (s + i) p ep")
    case (Inl e)
    with single_at_safe [OF "1.prems"] show ?thesis by (simp add: expand_count.simps [of S P s p ep i])
  next
    case (Inr m)
    show ?thesis
    proof (cases m)
      case True
      with Inr have "s + i < length S" by (auto dest: single_at_True)
      with "1.IH" [OF Inr True] "1.prems" Inr True show ?thesis
        by (auto simp: expand_count.simps [of S P s p ep i])
    next
      case False
      with Inr "1.prems" show ?thesis by (simp add: expand_count.simps [of S P s p ep i])
    qed
  qed
qed

lemma balance_loop_bound:
  "balance_loop S b e cont s n = Some r \<Longrightarrow> s + n \<le> length S \<Longrightarrow> s < r \<and> r \<le> length S"
proof (induction n arbitrary: b e cont s)
  case (Suc n)
  have IH: "balance_loop S b e c (s + 1) n = Some r \<Longrightarrow> s < r \<and> r \<le> length S" for b e c
    using Suc.IH [of b e c "s + 1"] Suc.prems(2) by auto
  from Suc.prems show ?case
    by (auto split: if_splits dest: IH [simplified])
qed simp

lemma matchbalance_safe:
  "s \<le> length S \<Longrightarrow> p \<le> length P \<Longrightarrow> \<not> is_UB (matchbalance S P s p)"
  unfolding matchbalance_def
  by (intro not_UB_rbind not_UB_if) (auto dest: rd_nonzero)

lemma matchbalance_bound:
  assumes "matchbalance S P s p = Inr (Some s')" "s \<le> length S"
  shows "s < s' \<and> s' \<le> length S \<and> p + 2 \<le> length P"
proof -
  from assms(1) obtain b e where b: "rd P p = Inr b" "b \<noteq> NUL" "rd P (p + 1) = Inr e" "e \<noteq> NUL"
    "rd S s = Inr b" "balance_loop S b e 1 (s + 1) (length S - (s + 1)) = Some s'"
    by (auto simp: matchbalance_def split: if_splits)
  have "s < length S" using rd_nonzero [OF b(5,2)] by simp
  then have "s + 1 < s' \<and> s' \<le> length S" by (intro balance_loop_bound [OF b(6)]) simp
  then show ?thesis using rd_nonzero [OF b(3,4)] by simp
qed

subsection \<open>The captures\<close>

definition cap_ok :: "nat \<Rightarrow> nat \<times> int \<Rightarrow> bool" where
  "cap_ok s c \<longleftrightarrow> fst c \<le> s \<and> (snd c = CAP_UNFINISHED \<or> snd c = CAP_POSITION \<or>
     0 \<le> snd c \<and> fst c + nat (snd c) \<le> s)"

definition ms_ok :: "string \<Rightarrow> nat \<Rightarrow> MatchState \<Rightarrow> bool" where
  "ms_ok S s ms \<longleftrightarrow> s \<le> length S \<and> level ms \<le> LUA_MAXCAPTURES \<and>
     length (capture ms) = LUA_MAXCAPTURES \<and> (\<forall>l < level ms. cap_ok s (capture ms ! l))"

definition same_caps :: "MatchState \<Rightarrow> MatchState \<Rightarrow> bool" where
  "same_caps ms ms' \<longleftrightarrow> level ms' = level ms \<and> length (capture ms') = length (capture ms) \<and>
     (\<forall>l < level ms. capture ms' ! l = capture ms ! l)"

definition match_post :: "string \<Rightarrow> nat \<Rightarrow> MatchState \<Rightarrow> match_result \<Rightarrow> bool" where
  "match_post S s ms r \<longleftrightarrow> \<not> is_UB r \<and>
     (\<forall>e ms'. r = Inr (Some e, ms') \<longrightarrow> s \<le> e \<and> ms_ok S e ms' \<and> level ms \<le> level ms') \<and>
     (\<forall>ms'. r = Inr (None, ms') \<longrightarrow> same_caps ms ms')"

lemma same_caps_refl [simp]: "same_caps ms ms"
  by (simp add: same_caps_def)

lemma same_caps_trans: "same_caps a b \<Longrightarrow> same_caps b c \<Longrightarrow> same_caps a c"
  by (simp add: same_caps_def)

lemma cap_ok_mono: "cap_ok s c \<Longrightarrow> s \<le> s' \<Longrightarrow> cap_ok s' c"
  by (auto simp: cap_ok_def)

lemma ms_ok_mono: "ms_ok S s ms \<Longrightarrow> s \<le> s' \<Longrightarrow> s' \<le> length S \<Longrightarrow> ms_ok S s' ms"
  by (auto simp: ms_ok_def intro: cap_ok_mono)

lemma ms_ok_same: "ms_ok S s ms \<Longrightarrow> same_caps ms ms' \<Longrightarrow> ms_ok S s ms'"
  by (simp add: ms_ok_def same_caps_def)

lemma post_run_error [simp]: "match_post S s ms (run_error m)"
  by (simp add: match_post_def)

lemma post_None [simp]: "same_caps ms ms' \<Longrightarrow> match_post S s ms (Inr (None, ms'))"
  by (simp add: match_post_def)

lemma post_mono: "match_post S s' ms r \<Longrightarrow> s \<le> s' \<Longrightarrow> match_post S s ms r"
  by (auto simp: match_post_def)

lemma post_bind:
  assumes "\<not> is_UB m" "\<And>a. m = Inr a \<Longrightarrow> match_post S s ms (f a)"
  shows "match_post S s ms (rbind m f)"
  using assms by (cases m) (simp_all add: match_post_def)

lemma post_same:
  assumes "same_caps ms ms'" "match_post S s ms' r"
  shows "match_post S s ms r"
proof -
  have "level ms' = level ms" using assms(1) by (simp add: same_caps_def)
  with assms(2) same_caps_trans [OF assms(1)] show ?thesis
    unfolding match_post_def by (intro conjI allI impI) (elim conjE, simp)+
qed

lemma post_if:
  "(b \<Longrightarrow> match_post S s ms x) \<Longrightarrow> (\<not> b \<Longrightarrow> match_post S s ms y) \<Longrightarrow>
   match_post S s ms (if b then x else y)"
  by simp

text \<open>Trying a match and, if it fails, something else from the state it left.\<close>

lemma post_orelse:
  assumes "match_post S s ms r" "ms_ok S s0 ms"
    and "\<And>ms'. same_caps ms ms' \<Longrightarrow> ms_ok S s0 ms' \<Longrightarrow> match_post S s ms' (f ms')"
  shows "match_post S s ms (rbind r (\<lambda>(res, ms). case res of None \<Rightarrow> f ms | Some e \<Rightarrow> Inr (Some e, ms)))"
proof (cases r)
  case (Inl e)
  with assms(1) show ?thesis by (simp add: match_post_def)
next
  case (Inr em)
  obtain res ms' where em: "em = (res, ms')" by (cases em)
  show ?thesis
  proof (cases res)
    case None
    with assms(1) Inr em have "same_caps ms ms'" by (simp add: match_post_def)
    then have "match_post S s ms (f ms')"
      by (rule post_same) (rule assms(3) [OF \<open>same_caps ms ms'\<close> ms_ok_same [OF assms(2) \<open>same_caps ms ms'\<close>]])
    with Inr em None show ?thesis by simp
  next
    case (Some e)
    with assms(1) Inr em show ?thesis by (simp add: match_post_def)
  qed
qed

text \<open>What a helper may assume about the matcher it calls back.\<close>

definition good_match :: "string \<Rightarrow> (MatchState \<Rightarrow> nat \<Rightarrow> match_result) \<Rightarrow> bool" where
  "good_match S mt \<longleftrightarrow> (\<forall>ms s. ms_ok S s ms \<longrightarrow> match_post S s ms (mt ms s))"

lemma max_expand_try_post:
  "good_match S mt \<Longrightarrow> ms_ok S s ms \<Longrightarrow> s + i \<le> length S \<Longrightarrow>
   match_post S s ms (max_expand_try mt ms s i)"
proof (induction i arbitrary: ms)
  case 0
  have "match_post S s ms (mt ms (s + 0))" using 0 by (simp add: good_match_def)
  then show ?case
    unfolding max_expand_try.simps [of mt ms s 0]
    by (intro post_orelse [where ?s0.0 = s]) (use 0 in auto)
next
  case (Suc i)
  have "match_post S (s + Suc i) ms (mt ms (s + Suc i))"
    using Suc.prems ms_ok_mono [of S s ms "s + Suc i"] by (simp add: good_match_def)
  then have "match_post S s ms (mt ms (s + Suc i))" by (rule post_mono) simp
  then show ?case
    unfolding max_expand_try.simps [of mt ms s "Suc i"]
    by (intro post_orelse [where ?s0.0 = s]) (use Suc in auto)
qed

lemma max_expand_post:
  assumes "good_match S mt" "ms_ok S s ms" "classend P p = Inr ep" "ep \<le> length P"
  shows "match_post S s ms (max_expand S P mt ms s p ep)"
  unfolding max_expand_def
  using assms expand_count_safe [of P p ep s 0 S]
  by (intro post_bind max_expand_try_post) (auto simp: ms_ok_def)

lemma min_expand_post:
  "good_match S mt \<Longrightarrow> ms_ok S s ms \<Longrightarrow> classend P p = Inr ep \<Longrightarrow> ep \<le> length P \<Longrightarrow>
   match_post S s ms (min_expand S P mt ms s p ep)"
proof (induction "length S - s" arbitrary: s ms rule: less_induct)
  case less
  have "match_post S s ms (mt ms s)" using less.prems by (simp add: good_match_def)
  then show ?case
    unfolding min_expand.simps [of S P mt ms s p ep]
  proof (rule post_orelse [OF _ less.prems(2)])
    fix ms' assume ms': "same_caps ms ms'" "ms_ok S s ms'"
    show "match_post S s ms' (rbind (single_at S P s p ep)
        (\<lambda>m. if m then min_expand S P mt ms' (s + 1) p ep else Inr (None, ms')))"
    proof (rule post_bind)
      show "\<not> is_UB (single_at S P s p ep)"
        using less.prems single_at_safe by (simp add: ms_ok_def)
      fix m assume m: "single_at S P s p ep = Inr m"
      show "match_post S s ms' (if m then min_expand S P mt ms' (s + 1) p ep else Inr (None, ms'))"
      proof (cases m)
        case True
        with m have s: "s < length S" by (auto dest: single_at_True)
        have "ms_ok S (s + 1) ms'" using ms'(2) s by (auto intro: ms_ok_mono)
        then have "match_post S (s + 1) ms' (min_expand S P mt ms' (s + 1) p ep)"
          using less.hyps [of "s + 1" ms'] less.prems s by simp
        with True show ?thesis by (auto intro: post_mono)
      qed simp
    qed
  qed
qed

lemma start_capture_post:
  assumes "good_match S mt" "ms_ok S s ms" "what = CAP_UNFINISHED \<or> what = CAP_POSITION"
  shows "match_post S s ms (start_capture mt ms s what)"
proof (cases "level ms \<ge> LUA_MAXCAPTURES")
  case True
  then show ?thesis by (simp add: start_capture_def)
next
  case False
  let ?cs = "(capture ms)[level ms := (s, what)]"
  let ?ms = "ms\<lparr>level := level ms + 1, capture := ?cs\<rparr>"
  have red: "start_capture mt ms s what = rbind (mt ?ms s) (\<lambda>(res, ms).
      Inr (res, if res = None then ms\<lparr>level := level ms - 1\<rparr> else ms))"
    using assms(2) False by (simp add: start_capture_def aput_in ms_ok_def)
  have "ms_ok S s ?ms"
    using assms(2,3) False by (auto simp: ms_ok_def cap_ok_def nth_list_update less_Suc_eq)
  with assms(1) have post: "match_post S s ?ms (mt ?ms s)" by (simp add: good_match_def)
  show ?thesis
  proof (cases "mt ?ms s")
    case (Inl e)
    with post red show ?thesis by (simp add: match_post_def)
  next
    case (Inr em)
    obtain res ms' where em: "em = (res, ms')" by (cases em)
    show ?thesis
    proof (cases res)
      case None
      with post Inr em have "same_caps ?ms ms'" by (simp add: match_post_def)
      then have "same_caps ms (ms'\<lparr>level := level ms' - 1\<rparr>)" by (simp add: same_caps_def)
      with red Inr em None show ?thesis by simp
    next
      case (Some e)
      with post red Inr em show ?thesis by (simp add: match_post_def)
    qed
  qed
qed

lemma capture_to_close_from_spec:
  "n \<le> length (capture ms) \<Longrightarrow> \<not> is_UB (capture_to_close_from ms n) \<and>
    (\<forall>l. capture_to_close_from ms n = Inr l \<longrightarrow> l < n \<and> snd (capture ms ! l) = CAP_UNFINISHED)"
  by (induction n) (auto simp: aget_in)

lemma end_capture_post:
  assumes "good_match S mt" "ms_ok S s ms"
  shows "match_post S s ms (end_capture mt ms s)"
proof (cases "capture_to_close ms")
  case (Inl e)
  have "\<not> is_UB (capture_to_close ms)"
    using capture_to_close_from_spec [of "level ms" ms] assms(2)
    by (simp add: capture_to_close_def ms_ok_def)
  with Inl show ?thesis by (simp add: end_capture_def match_post_def)
next
  case (Inr l)
  have l: "l < level ms" "snd (capture ms ! l) = CAP_UNFINISHED"
    using capture_to_close_from_spec [of "level ms" ms] assms(2) Inr
    by (auto simp: capture_to_close_def ms_ok_def)
  have len: "l < length (capture ms)" using l assms(2) by (simp add: ms_ok_def)
  obtain i where i: "capture ms ! l = (i, CAP_UNFINISHED)" using l(2) by (cases "capture ms ! l") auto
  let ?cs = "(capture ms)[l := (i, int s - int i)]"
  let ?ms = "ms\<lparr>capture := ?cs\<rparr>"
  have "cap_ok s (capture ms ! l)" using assms(2) l(1) by (simp add: ms_ok_def)
  then have "i \<le> s" by (simp add: i cap_ok_def)
  then have "cap_ok s (i, int s - int i)" by (simp add: cap_ok_def nat_diff_distrib)
  then have "ms_ok S s ?ms" using assms(2) len by (auto simp: ms_ok_def nth_list_update)
  with assms(1) have post: "match_post S s ?ms (mt ?ms s)" by (simp add: good_match_def)
  have red: "end_capture mt ms s = rbind (mt ?ms s) (\<lambda>(res, ms).
      if res = None then
        rbind (aget (capture ms) (int l)) (\<lambda>(init, _).
        rbind (aput (capture ms) (int l) (init, CAP_UNFINISHED)) (\<lambda>cs.
        Inr (None, ms\<lparr>capture := cs\<rparr>)))
      else Inr (res, ms))"
    using Inr i len by (simp add: end_capture_def aget_in aput_in)
  show ?thesis
  proof (cases "mt ?ms s")
    case (Inl e)
    with post red show ?thesis by (simp add: match_post_def)
  next
    case (Inr em)
    obtain res ms' where em: "em = (res, ms')" by (cases em)
    show ?thesis
    proof (cases res)
      case None
      with post Inr em have sc: "same_caps ?ms ms'" by (simp add: match_post_def)
      then have l': "l < length (capture ms')" "fst (capture ms' ! l) = i"
        using len l(1) by (simp_all add: same_caps_def)
      have "same_caps ms (ms'\<lparr>capture := (capture ms')[l := (i, CAP_UNFINISHED)]\<rparr>)"
        using sc l l' i by (auto simp: same_caps_def nth_list_update)
      with red Inr em None l' show ?thesis
        by (simp add: aget_in aput_in case_prod_beta)
    next
      case (Some e)
      with post red Inr em show ?thesis by (simp add: match_post_def)
    qed
  qed
qed

lemma check_capture_spec:
  "ms_ok S s ms \<Longrightarrow> \<not> is_UB (check_capture ms l) \<and>
    (\<forall>i. check_capture ms l = Inr i \<longrightarrow> i < level ms \<and> snd (capture ms ! i) \<noteq> CAP_UNFINISHED)"
  by (auto simp: check_capture_def ms_ok_def Let_def aget_in split: if_splits)

lemma match_capture_spec:
  assumes "ms_ok S s ms"
  shows "\<not> is_UB (match_capture S ms s l) \<and>
    (\<forall>s'. match_capture S ms s l = Inr (Some s') \<longrightarrow> s \<le> s' \<and> s' \<le> length S)"
proof (cases "check_capture ms l")
  case (Inl e)
  then show ?thesis
    using check_capture_spec [OF assms, of l] by (simp add: match_capture_def)
next
  case (Inr i)
  have i: "i < level ms" using check_capture_spec [OF assms, of l] Inr by simp
  then have "cap_ok s (capture ms ! i)" "i < length (capture ms)" "s \<le> length S"
    using assms by (simp_all add: ms_ok_def)
  then show ?thesis using Inr
    by (cases "capture ms ! i") (auto simp: match_capture_def aget_in cap_ok_def)
qed

subsection \<open>The matcher\<close>

text \<open>The code under the label \<open>dflt\<close>, given that the matcher is safe further on.\<close>

abbreviation suffix_code :: "string \<Rightarrow> string \<Rightarrow> MatchState \<Rightarrow> nat \<Rightarrow> nat \<Rightarrow> nat \<Rightarrow> bool \<Rightarrow> char \<Rightarrow> match_result" where
  "suffix_code S P ms s p ep m c \<equiv>
     (if c = CHR ''?'' then
         (if m then
            rbind (do_match S P ms (s + 1) (ep + 1)) (\<lambda>(res, ms).
            case res of Some e \<Rightarrow> Inr (Some e, ms) | None \<Rightarrow> do_match S P ms s (ep + 1))
          else do_match S P ms s (ep + 1))
       else if c = CHR ''*'' then max_expand S P (\<lambda>ms s. do_match S P ms s (ep + 1)) ms s p ep
       else if c = CHR ''+'' then
         (if m then max_expand S P (\<lambda>ms s. do_match S P ms s (ep + 1)) ms (s + 1) p ep
          else Inr (None, ms))
       else if c = CHR ''-'' then min_expand S P (\<lambda>ms s. do_match S P ms s (ep + 1)) ms s p ep
       else if \<not> m then Inr (None, ms)
       else do_match S P ms (s + 1) ep)"

abbreviation dflt_code :: "string \<Rightarrow> string \<Rightarrow> MatchState \<Rightarrow> nat \<Rightarrow> nat \<Rightarrow> match_result" where
  "dflt_code S P ms s p \<equiv>
     rbind (classend P p) (\<lambda>ep. rbind (single_at S P s p ep) (\<lambda>m. rbind (rd P ep) (\<lambda>c.
       suffix_code S P ms s p ep m c)))"

lemma dflt_post:
  assumes ms: "ms_ok S s ms" and p: "p < length P"
    and IH: "\<And>q. p < q \<Longrightarrow> q \<le> length P \<Longrightarrow> good_match S (\<lambda>ms s. do_match S P ms s q)"
  shows "match_post S s ms (dflt_code S P ms s p)"
proof (rule post_bind)
  show "\<not> is_UB (classend P p)" using p by (intro classend_safe) simp
  fix ep assume ep: "classend P p = Inr ep"
  then have b: "p < ep" "ep \<le> length P" using classend_bound [OF ep] p by simp_all
  have sl: "s \<le> length S" using ms by (simp add: ms_ok_def)
  have call: "match_post S s' ms' (do_match S P ms' s' q)"
    if "ms_ok S s' ms'" "p < q" "q \<le> length P" for s' ms' q
    using IH [OF that(2,3)] that(1) by (simp add: good_match_def)
  show "match_post S s ms (rbind (single_at S P s p ep) (\<lambda>m. rbind (rd P ep) (\<lambda>c.
      suffix_code S P ms s p ep m c)))"
  proof (intro post_bind)
    show "\<not> is_UB (single_at S P s p ep)" by (rule single_at_safe [OF ep b(2) sl])
    show "\<not> is_UB (rd P ep)" using b by simp
    fix m c assume m: "single_at S P s p ep = Inr m" and c: "rd P ep = Inr c"
    have s1: "ms_ok S (s + 1) ms" if m
      using ms that m by (auto simp: ms_ok_mono dest: single_at_True)
    have next_ok: "ep + 1 \<le> length P" if "c \<noteq> NUL" using rd_nonzero [OF c that] by simp
    have good: "good_match S (\<lambda>ms s. do_match S P ms s (ep + 1))" if "c \<noteq> NUL"
      using IH [of "ep + 1"] next_ok [OF that] b by simp
    consider "c = CHR ''?''" m | "c = CHR ''?''" "\<not> m" | "c = CHR ''*''" | "c = CHR ''+''" m
      | "c = CHR ''-''" | "c \<notin> {CHR ''?'', CHR ''*'', CHR ''+'', CHR ''-''}" m
      | "c \<noteq> CHR ''?''" "c \<noteq> CHR ''*''" "c \<noteq> CHR ''-''" "\<not> m"
      by auto
    then show "match_post S s ms (suffix_code S P ms s p ep m c)"
    proof cases
      case 1
      have "match_post S (s + 1) ms (do_match S P ms (s + 1) (ep + 1))"
        using call [OF s1] next_ok 1 b by simp
      then have "match_post S s ms (do_match S P ms (s + 1) (ep + 1))" by (rule post_mono) simp
      then show ?thesis using 1 next_ok b call
        by (simp, intro post_orelse [OF _ ms]) auto
    next
      case 4
      have "match_post S (s + 1) ms (max_expand S P (\<lambda>ms s. do_match S P ms s (ep + 1)) ms (s + 1) p ep)"
        using good 4 by (intro max_expand_post [OF _ s1 ep b(2)]) simp_all
      then show ?thesis using 4 post_mono [where s = s] by simp
    next
      case 6
      have "match_post S (s + 1) ms (do_match S P ms (s + 1) ep)"
        using call [OF s1] 6 b by simp
      then have "match_post S s ms (do_match S P ms (s + 1) ep)" by (rule post_mono) simp
      with 6 show ?thesis by simp
    qed (use good next_ok b call [OF ms] max_expand_post [OF _ ms ep b(2)]
           min_expand_post [OF _ ms ep b(2)] in auto)
  qed
qed

text \<open>The code of the case \<open>L_ESC\<close>, with \<open>c1\<close> the character after the escape.\<close>

abbreviation escape_code :: "string \<Rightarrow> string \<Rightarrow> MatchState \<Rightarrow> nat \<Rightarrow> nat \<Rightarrow> char \<Rightarrow> match_result" where
  "escape_code S P ms s p c1 \<equiv>
     (if c1 = CHR ''b'' then
         rbind (matchbalance S P s (p + 2)) (\<lambda>r.
         case r of None \<Rightarrow> Inr (None, ms) | Some s' \<Rightarrow> do_match S P ms s' (p + 4))
       else if c1 = CHR ''f'' then
         rbind (rd P (p + 2)) (\<lambda>c2.
         if c2 \<noteq> CHR ''['' then run_error ''missing [ after %f in pattern''
         else
           rbind (classend P (p + 2)) (\<lambda>ep.
           rbind (if s = 0 then Inr NUL else rd S (s - 1)) (\<lambda>previous.
           rbind (matchbracketclass P (uchar previous) (p + 2) (ep - 1)) (\<lambda>m1.
           if m1 then Inr (None, ms)
           else
             rbind (rd S s) (\<lambda>cur.
             rbind (matchbracketclass P (uchar cur) (p + 2) (ep - 1)) (\<lambda>m2.
             if \<not> m2 then Inr (None, ms) else do_match S P ms s ep))))))
       else if isdigit (uchar c1) then
         rbind (match_capture S ms s (uchar c1)) (\<lambda>r.
         case r of None \<Rightarrow> Inr (None, ms) | Some s' \<Rightarrow> do_match S P ms s' (p + 2))
       else dflt_code S P ms s p)"

lemma escape_post:
  assumes ms: "ms_ok S s ms" and c1: "rd P (p + 1) = Inr c1" and p: "p + 2 \<le> length P"
    and IH: "\<And>q. p < q \<Longrightarrow> q \<le> length P \<Longrightarrow> good_match S (\<lambda>ms s. do_match S P ms s q)"
    and kind: "c1 = CHR ''b'' \<or> c1 = CHR ''f'' \<or> isdigit (uchar c1)"
  shows "match_post S s ms (escape_code S P ms s p c1)"
proof -
  have sl: "s \<le> length S" using ms by (simp add: ms_ok_def)
  have call: "match_post S s ms (do_match S P ms s' q)"
    if "s \<le> s'" "s' \<le> length S" "p < q" "q \<le> length P" for s' q
    using IH [OF that(3,4)] ms_ok_mono [OF ms that(1,2)] that(1)
    by (auto simp: good_match_def intro: post_mono)
  consider "c1 = CHR ''b''" | "c1 = CHR ''f''"
    | "c1 \<noteq> CHR ''b''" "c1 \<noteq> CHR ''f''" "isdigit (uchar c1)" using kind by blast
  then show ?thesis
  proof cases
    case 1
    have "match_post S s ms (rbind (matchbalance S P s (p + 2)) (\<lambda>r.
         case r of None \<Rightarrow> Inr (None, ms) | Some s' \<Rightarrow> do_match S P ms s' (p + 4)))"
    proof (rule post_bind)
      show "\<not> is_UB (matchbalance S P s (p + 2))" by (rule matchbalance_safe [OF sl p])
      fix r assume r: "matchbalance S P s (p + 2) = Inr r"
      show "match_post S s ms (case r of None \<Rightarrow> Inr (None, ms) | Some s' \<Rightarrow> do_match S P ms s' (p + 4))"
        using matchbalance_bound [OF r [THEN trans] sl] call r
        by (cases r) (auto dest: matchbalance_bound [OF _ sl])
    qed
    with 1 show ?thesis by simp
  next
    case 2
    have lt: "p + 2 < length P" if "rd P (p + 2) = Inr CHR ''[''"
      using rd_nonzero [OF that] by simp
    have ep: "p + 2 < ep - 1 \<and> ep \<le> length P"
      if "rd P (p + 2) = Inr CHR ''[''" "classend P (p + 2) = Inr ep" for ep
      using classend_bracket [OF that(2,1)] classend_bound [OF that(2)] lt [OF that(1)] by simp
    have "match_post S s ms (rbind (rd P (p + 2)) (\<lambda>c2.
         if c2 \<noteq> CHR ''['' then run_error ''missing [ after %f in pattern''
         else
           rbind (classend P (p + 2)) (\<lambda>ep.
           rbind (if s = 0 then Inr NUL else rd S (s - 1)) (\<lambda>previous.
           rbind (matchbracketclass P (uchar previous) (p + 2) (ep - 1)) (\<lambda>m1.
           if m1 then Inr (None, ms)
           else
             rbind (rd S s) (\<lambda>cur.
             rbind (matchbracketclass P (uchar cur) (p + 2) (ep - 1)) (\<lambda>m2.
             if \<not> m2 then Inr (None, ms) else do_match S P ms s ep)))))))"
      using p sl
      by (intro post_bind post_if matchbracketclass_safe rd_in classend_safe post_run_error
            post_None same_caps_refl call) (auto dest: ep [simplified])
    with 2 show ?thesis by simp
  next
    case 3
    have "match_post S s ms (rbind (match_capture S ms s (uchar c1)) (\<lambda>r.
         case r of None \<Rightarrow> Inr (None, ms) | Some s' \<Rightarrow> do_match S P ms s' (p + 2)))"
      using match_capture_spec [OF ms, of "uchar c1"] call p
      by (intro post_bind) (auto split: option.split)
    then show ?thesis using 3(3) unfolding if_not_P [OF 3(1)] if_not_P [OF 3(2)] by (simp only: if_True)
  qed
qed

lemma do_match_post:
  "ms_ok S s ms \<Longrightarrow> p \<le> length P \<Longrightarrow> match_post S s ms (do_match S P ms s p)"
proof (induction "length P - p" arbitrary: p s ms rule: less_induct)
  case less
  note ms = less.prems(1)
  have sl: "s \<le> length S" using ms by (simp add: ms_ok_def)
  have good: "good_match S (\<lambda>ms s. do_match S P ms s q)" if "p < q" "q \<le> length P" for q
    using less.hyps [of q] that by (simp add: good_match_def)
  have call: "match_post S s' ms' (do_match S P ms' s' q)"
    if "ms_ok S s' ms'" "p < q" "q \<le> length P" for s' ms' q
    using good [OF that(2,3)] that(1) by (simp add: good_match_def)
  obtain c where c: "rd P p = Inr c" using rd_res [OF less.prems(2)] by blast
  have dflt: "match_post S s ms (dflt_code S P ms s p)" if "c \<noteq> NUL"
    using dflt_post [OF ms _ good] rd_nonzero [OF c that] by simp
  have in_pattern: "p < length P" if "c \<noteq> NUL" using rd_nonzero [OF c that] by simp
  consider "c = NUL" | "c = CHR ''(''" | "c = CHR '')''" | "c = L_ESC" | "c = CHR ''$''"
    | "c \<noteq> NUL" "c \<notin> {CHR ''('', CHR '')'', L_ESC, CHR ''$''}"
    by auto
  then show ?case
  proof cases
    case 1
    with ms c show ?thesis by (simp add: do_match.simps [of S P ms s p] match_post_def)
  next
    case 2
    obtain c1 where c1: "rd P (p + 1) = Inr c1" using in_pattern 2 rd_res [of "p + 1" P] by auto
    show ?thesis
    proof (cases "c1 = CHR '')''")
      case True
      then have "p + 2 \<le> length P" using rd_nonzero [OF c1] by simp
      with True 2 c c1 show ?thesis
        using start_capture_post [OF good ms, of "p + 2" CAP_POSITION]
        by (simp add: do_match.simps [of S P ms s p])
    next
      case False
      with 2 c c1 in_pattern show ?thesis
        using start_capture_post [OF good ms, of "p + 1" CAP_UNFINISHED]
        by (simp add: do_match.simps [of S P ms s p])
    qed
  next
    case 3
    with c in_pattern show ?thesis
      using end_capture_post [OF good ms, of "p + 1"] by (simp add: do_match.simps [of S P ms s p])
  next
    case 4
    obtain c1 where c1: "rd P (p + 1) = Inr c1" using in_pattern 4 rd_res [of "p + 1" P] by auto
    have red: "do_match S P ms s p = escape_code S P ms s p c1"
      using c c1 4 by (simp add: do_match.simps [of S P ms s p])
    show ?thesis
    proof (cases "c1 = CHR ''b'' \<or> c1 = CHR ''f'' \<or> isdigit (uchar c1)")
      case True
      then have "c1 \<noteq> NUL" by (auto simp: isdigit_def uchar_def)
      then have "p + 2 \<le> length P" using rd_nonzero [OF c1] by simp
      then show ?thesis unfolding red using escape_post [OF ms c1 _ good] True by blast
    next
      case False
      with red dflt 4 show ?thesis by simp
    qed
  next
    case 5
    obtain c1 where c1: "rd P (p + 1) = Inr c1" using in_pattern 5 rd_res [of "p + 1" P] by auto
    show ?thesis
    proof (cases "c1 = NUL")
      case True
      with 5 c c1 ms show ?thesis by (auto simp: do_match.simps [of S P ms s p] match_post_def)
    next
      case False
      with 5 c c1 dflt show ?thesis by (simp add: do_match.simps [of S P ms s p])
    qed
  next
    case 6
    with c dflt show ?thesis by (simp add: do_match.simps [of S P ms s p])
  qed
qed

text \<open>
  C11. Memory safety of the pattern matcher: started at a position of the subject with sound
  captures, at a position of the pattern, \<open>match\<close> never reads outside the subject,
  the pattern or the capture array, whatever the pattern. A match that succeeds ends
  between its start and the end of the subject and leaves every capture inside the subject; a match
  that fails leaves the captures it was given unchanged.
\<close>

theorem do_match_safe:
  assumes "ms_ok S s ms" "p \<le> length P"
  shows "\<not> is_UB (do_match S P ms s p) \<and>
    (\<forall>e ms'. do_match S P ms s p = Inr (Some e, ms') \<longrightarrow> s \<le> e \<and> ms_ok S e ms' \<and> level ms \<le> level ms') \<and>
    (\<forall>ms'. do_match S P ms s p = Inr (None, ms') \<longrightarrow> same_caps ms ms')"
  using do_match_post [OF assms] by (simp add: match_post_def)

lemma ms_init_ok: "s \<le> length S \<Longrightarrow> ms_ok S s ms_init"
  by (simp add: ms_ok_def ms_init_def)

definition demo_match :: "match_result" where
  "demo_match = do_match ''key = val'' ''(%w+)%s*=%s*(%w+)'' ms_init 0 0"

theorem do_match_safe_witness:
  "rmap fst demo_match = Inr (Some 9) \<and> \<not> is_UB demo_match"
proof
  show "rmap fst demo_match = Inr (Some 9)" by code_simp
  have "ms_ok ''key = val'' 0 ms_init" by (simp add: ms_init_ok)
  then show "\<not> is_UB demo_match"
    unfolding demo_match_def using do_match_safe [of "''key = val''" 0 ms_init 0 "''(%w+)%s*=%s*(%w+)''"] by blast
qed

end
