(* ===== verification/StrLib.thy ===== *)
theory StrLib
  imports StrMatchProps
begin

text \<open>
  The string library of \<open>lua/lstrlib.c\<close> without \<open>string.format\<close>. Each function takes its
  checked arguments (an absent optional argument is \<open>None\<close>) and returns the values it
  pushes, each with the API call that pushes it; a buffer is the bytes added to it. \<open>ntop\<close> is
  the number of stack slots in use when the function calls \<open>luaL_checkstack\<close>.
\<close>

datatype pushed = PNil | PInteger int | PString string

definition LUAI_MAXCSTACK :: int where "LUAI_MAXCSTACK = 8000"

definition luaL_checkstack :: "int \<Rightarrow> int \<Rightarrow> string \<Rightarrow> unit res" where
  "luaL_checkstack ntop sz mes =
     (if sz > LUAI_MAXCSTACK \<or> ntop + sz > LUAI_MAXCSTACK
      then run_error (''stack overflow ('' @ mes @ '')'') else Inr ())"

text \<open>\<open>lua_pushlstring\<close> of \<open>n\<close> bytes at \<open>s + i\<close>, and a loop that may fail.\<close>

definition substring :: "string \<Rightarrow> int \<Rightarrow> int \<Rightarrow> string res" where
  "substring s i n =
     (if 0 \<le> i \<and> 0 \<le> n \<and> i + n \<le> int (length s) then Inr (take (nat n) (drop (nat i) s))
      else Inl (UB ''string read''))"

fun rmapM :: "('a \<Rightarrow> 'b res) \<Rightarrow> 'a list \<Rightarrow> 'b list res" where
  "rmapM f [] = Inr []"
| "rmapM f (x # xs) = rbind (f x) (\<lambda>y. rmap ((#) y) (rmapM f xs))"

lemma rmapM_safe: "(\<And>x. x \<in> set xs \<Longrightarrow> \<not> is_UB (f x)) \<Longrightarrow> \<not> is_UB (rmapM f xs)"
  by (induction xs) (simp, simp, intro not_UB_rbind, simp_all)

lemma rmapM_Inr: "(\<And>x. x \<in> set xs \<Longrightarrow> f x = Inr (g x)) \<Longrightarrow> rmapM f xs = Inr (map g xs)"
  by (induction xs) auto

lemma take_drop_map: "i + n \<le> length s \<Longrightarrow> take n (drop i s) = map ((!) s) [i..<i + n]"
  by (rule nth_equalityI) simp_all

lemma substring_in: "0 \<le> i \<Longrightarrow> 0 \<le> n \<Longrightarrow> i + n \<le> int (length s) \<Longrightarrow>
    substring s i n = Inr (take (nat n) (drop (nat i) s))"
  by (simp add: substring_def)

subsection \<open>Positions and simple functions\<close>

definition posrelat :: "int \<Rightarrow> nat \<Rightarrow> int" where
  "posrelat pos len = (let pos = (if pos < 0 then pos + int len + 1 else pos) in
     if pos \<ge> 0 then pos else 0)"

definition str_len :: "string \<Rightarrow> pushed" where
  "str_len s = PInteger (int (length s))"

definition str_sub :: "string \<Rightarrow> int \<Rightarrow> int option \<Rightarrow> string res" where
  "str_sub s start0 end0 =
     (let l = length s;
          start = posrelat start0 l;
          e = posrelat (case end0 of None \<Rightarrow> - 1 | Some e \<Rightarrow> e) l;
          start = (if start < 1 then 1 else start);
          e = (if e > int l then int l else e)
      in if start \<le> e then substring s (start - 1) (e - start + 1) else Inr [])"

definition str_reverse :: "string \<Rightarrow> string res" where
  "str_reverse s = rmapM (\<lambda>l. rd s l) (rev [0..<length s])"

definition str_lower :: "string \<Rightarrow> string res" where
  "str_lower s = rmapM (\<lambda>i. rmap (\<lambda>c. char_of (tolower (uchar c))) (rd s i)) [0..<length s]"

definition str_upper :: "string \<Rightarrow> string res" where
  "str_upper s = rmapM (\<lambda>i. rmap (\<lambda>c. char_of (toupper (uchar c))) (rd s i)) [0..<length s]"

function str_rep_loop :: "string \<Rightarrow> int \<Rightarrow> string" where
  "str_rep_loop s n = (if n > 0 then s @ str_rep_loop s (n - 1) else [])"
  by pat_completeness auto
termination
  by (relation "measure (\<lambda>(s, n). nat n)") auto

declare str_rep_loop.simps [simp del]

definition str_rep :: "string \<Rightarrow> int \<Rightarrow> string" where
  "str_rep s n = str_rep_loop s n"

text \<open>The cast to \<open>int\<close> keeps 32 bits.\<close>

definition str_byte :: "int \<Rightarrow> string \<Rightarrow> int option \<Rightarrow> int option \<Rightarrow> int list res" where
  "str_byte ntop s i0 j0 =
     (let l = length s;
          posi = posrelat (case i0 of None \<Rightarrow> 1 | Some i \<Rightarrow> i) l;
          pose = posrelat (case j0 of None \<Rightarrow> posi | Some j \<Rightarrow> j) l;
          posi = (if posi \<le> 0 then 1 else posi);
          pose = (if pose > int l then int l else pose)
      in if posi > pose then Inr []
         else
           let n = signed_take_bit 31 (pose - posi + 1) in
           if posi + n \<le> pose then run_error ''string slice too long''
           else
             rbind (luaL_checkstack ntop n ''string slice too long'') (\<lambda>_.
             rmapM (\<lambda>i. rmap uchar (rmap hd (substring s (posi + i - 1) 1))) [0..n - 1]))"

definition str_char :: "int list \<Rightarrow> string res" where
  "str_char args = rmapM (\<lambda>c. if c mod 256 = c then Inr (char_of c)
     else run_error ''bad argument (invalid value)'') args"

subsection \<open>Searching\<close>

definition memchr :: "string \<Rightarrow> nat \<Rightarrow> char \<Rightarrow> nat \<Rightarrow> nat option res" where
  "memchr s i c n =
     (if i + n \<le> length s then Inr (find (\<lambda>j. s ! j = c) [i..<i + n]) else Inl (UB ''memchr''))"

definition memcmp_eq :: "string \<Rightarrow> nat \<Rightarrow> string \<Rightarrow> bool res" where
  "memcmp_eq s i t =
     (if i + length t \<le> length s then Inr (take (length t) (drop i s) = t) else Inl (UB ''memcmp''))"

lemma memchr_Some:
  assumes "memchr s i c n = Inr (Some j)" shows "i \<le> j \<and> j < i + n \<and> s ! j = c \<and> (\<forall>k. i \<le> k \<and> k < j \<longrightarrow> s ! k \<noteq> c)"
proof -
  from assms have f: "find (\<lambda>j. s ! j = c) [i..<i + n] = Some j"
    by (simp add: memchr_def split: if_splits)
  then obtain m where m: "m < n" "s ! ([i..<i + n] ! m) = c" "j = [i..<i + n] ! m"
    "\<forall>k < m. s ! ([i..<i + n] ! k) \<noteq> c"
    by (auto simp: find_Some_iff)
  have "s ! k \<noteq> c" if "i \<le> k" "k < j" for k
    using m(4) [rule_format, of "k - i"] m(1,3) that by simp
  with m show ?thesis by simp
qed

lemma memchr_None: "memchr s i c n = Inr None \<Longrightarrow> i \<le> k \<Longrightarrow> k < i + n \<Longrightarrow> s ! k \<noteq> c"
  by (auto simp: memchr_def find_None_iff split: if_splits)

text \<open>The loop of \<open>lmemfind\<close>: \<open>p2\<close> is the pattern after its first character \<open>c\<close>.\<close>

function lmemfind_loop :: "string \<Rightarrow> char \<Rightarrow> string \<Rightarrow> nat \<Rightarrow> nat \<Rightarrow> nat option res" where
  "lmemfind_loop s c p2 s1 l1 =
     (if l1 > 0 then
        rbind (memchr s s1 c l1) (\<lambda>r.
        case r of
          None \<Rightarrow> Inr None
        | Some i \<Rightarrow>
            rbind (memcmp_eq s (i + 1) p2) (\<lambda>eq.
            if eq then Inr (Some i)
            else lmemfind_loop s c p2 (i + 1) (l1 - (i + 1 - s1))))
      else Inr None)"
  by pat_completeness auto
termination
  by (relation "measure (\<lambda>(s, c, p2, s1, l1). l1)") (auto dest: memchr_Some)

declare lmemfind_loop.simps [simp del]

definition lmemfind :: "string \<Rightarrow> nat \<Rightarrow> nat \<Rightarrow> string \<Rightarrow> nat option res" where
  "lmemfind s s1 l1 p =
     (case p of
        [] \<Rightarrow> Inr (Some s1)
      | c # p2 \<Rightarrow> if length p > l1 then Inr None else lmemfind_loop s c p2 s1 (l1 - length p2))"

subsection \<open>Captures\<close>

definition push_onecapture :: "string \<Rightarrow> MatchState \<Rightarrow> int \<Rightarrow> nat option \<Rightarrow> nat \<Rightarrow> pushed res" where
  "push_onecapture S ms i s e =
     (if i \<ge> int (level ms) then
        (if i = 0 then
           (case s of Some s \<Rightarrow> rmap PString (substring S (int s) (int e - int s)) | None \<Rightarrow> Inl (UB ''null''))
         else run_error ''invalid capture index'')
      else
        rbind (aget (capture ms) i) (\<lambda>(init, l).
        if l = CAP_UNFINISHED then run_error ''unfinished capture''
        else if l = CAP_POSITION then Inr (PInteger (int init + 1))
        else rmap PString (substring S (int init) l)))"

definition push_captures :: "int \<Rightarrow> string \<Rightarrow> MatchState \<Rightarrow> nat option \<Rightarrow> nat \<Rightarrow> pushed list res" where
  "push_captures ntop S ms s e =
     (let nlevels = (if level ms = 0 \<and> s \<noteq> None then 1 else int (level ms)) in
      rbind (luaL_checkstack ntop nlevels ''too many captures'') (\<lambda>_.
      rmapM (\<lambda>i. push_onecapture S ms i s e) [0..nlevels - 1]))"

definition SPECIALS :: string where "SPECIALS = ''^$*+?.([%-''"

text \<open>The \<open>do ... while (s1++ < ms.src_end && !anchor)\<close> loop.\<close>

function find_loop :: "string \<Rightarrow> string \<Rightarrow> nat \<Rightarrow> bool \<Rightarrow> MatchState \<Rightarrow> nat \<Rightarrow>
    (nat \<times> nat \<times> MatchState) option res" where
  "find_loop S P p anchor ms s1 =
     rbind (do_match S P (ms\<lparr>level := 0\<rparr>) s1 p) (\<lambda>(res, ms).
     case res of
       Some e \<Rightarrow> Inr (Some (s1, e, ms))
     | None \<Rightarrow> if s1 < length S \<and> \<not> anchor then find_loop S P p anchor ms (s1 + 1) else Inr None)"
  by pat_completeness auto
termination
  by (relation "measure (\<lambda>(S, P, p, anchor, ms, s1). length S - s1)") auto

declare find_loop.simps [simp del]

definition str_find_aux :: "int \<Rightarrow> bool \<Rightarrow> string \<Rightarrow> string \<Rightarrow> int option \<Rightarrow> bool \<Rightarrow> MatchState \<Rightarrow> pushed list res" where
  "str_find_aux ntop isfind s p init0 plain ms =
     (let l1 = length s;
          init = posrelat (case init0 of None \<Rightarrow> 1 | Some i \<Rightarrow> i) l1 - 1;
          init = (if init < 0 then 0 else if init > int l1 then l1 else nat init)
      in if isfind \<and> (plain \<or> (\<forall>c \<in> set (takeWhile (\<lambda>c. c \<noteq> NUL) p). c \<notin> set SPECIALS)) then
           rbind (lmemfind s init (l1 - init) p) (\<lambda>s2.
           case s2 of
             Some s2 \<Rightarrow> Inr [PInteger (int s2 + 1), PInteger (int s2 + int (length p))]
           | None \<Rightarrow> Inr [PNil])
         else
           rbind (rd p 0) (\<lambda>c.
           let anchor = (c = CHR ''^''); p0 = (if anchor then 1 else 0) in
           rbind (find_loop s p p0 anchor ms init) (\<lambda>r.
           case r of
             None \<Rightarrow> Inr [PNil]
           | Some (s1, e, ms) \<Rightarrow>
               if isfind then
                 rmap (\<lambda>cs. PInteger (int s1 + 1) # PInteger (int e) # cs) (push_captures (ntop + 2) s ms None 0)
               else push_captures ntop s ms (Some s1) e)))"

definition str_find :: "int \<Rightarrow> string \<Rightarrow> string \<Rightarrow> int option \<Rightarrow> bool \<Rightarrow> MatchState \<Rightarrow> pushed list res" where
  "str_find ntop s p init plain ms = str_find_aux ntop True s p init plain ms"

definition str_match :: "int \<Rightarrow> string \<Rightarrow> string \<Rightarrow> int option \<Rightarrow> MatchState \<Rightarrow> pushed list res" where
  "str_match ntop s p init ms = str_find_aux ntop False s p init False ms"

text \<open>
  One call of the iterator of \<open>gmatch\<close>; \<open>pos\<close> is its third upvalue. The result is the new
  upvalue with the captures, or \<open>None\<close> at the end, when the function returns no value. The
  loop ends after the position \<open>length s\<close>.
\<close>

function gmatch_aux :: "int \<Rightarrow> string \<Rightarrow> string \<Rightarrow> MatchState \<Rightarrow> nat \<Rightarrow> (nat \<times> pushed list) option res" where
  "gmatch_aux ntop s p ms src =
     (if src \<le> length s then
        rbind (do_match s p (ms\<lparr>level := 0\<rparr>) src 0) (\<lambda>(res, ms).
        case res of
          Some e \<Rightarrow>
            rmap (\<lambda>cs. Some (if e = src then e + 1 else e, cs)) (push_captures ntop s ms (Some src) e)
        | None \<Rightarrow> gmatch_aux ntop s p ms (src + 1))
      else Inr None)"
  by pat_completeness auto
termination
  by (relation "measure (\<lambda>(ntop, s, p, ms, src). length s + 1 - src)") auto

declare gmatch_aux.simps [simp del]

subsection \<open>Substrings and bytes\<close>

text \<open>
  \<open>string.sub\<close> and \<open>string.byte\<close> never read outside the string, for any
  positions; \<open>string.sub\<close> returns the bytes at the positions from \<open>start\<close> to \<open>end\<close>, clipped to
  the string.
\<close>

theorem str_sub_byte_safe:
  "\<not> is_UB (str_byte ntop s i j) \<and>
   str_sub s start e0 =
     (let l = int (length s);
          lo = max 1 (posrelat start (length s));
          hi = min l (posrelat (case e0 of None \<Rightarrow> - 1 | Some e \<Rightarrow> e) (length s))
      in Inr (map ((!) s) [nat (lo - 1)..<nat (max hi (lo - 1))]))"
proof
  define posi0 where "posi0 = posrelat (case i of None \<Rightarrow> 1 | Some i \<Rightarrow> i) (length s)"
  define pose0 where "pose0 = posrelat (case j of None \<Rightarrow> posi0 | Some j \<Rightarrow> j) (length s)"
  define posi where "posi = (if posi0 \<le> 0 then 1 else posi0)"
  define pose where "pose = (if pose0 > int (length s) then int (length s) else pose0)"
  define n where "n = signed_take_bit 31 (pose - posi + 1)"
  have eq: "str_byte ntop s i j =
      (if posi > pose then Inr [] else if posi + n \<le> pose then run_error ''string slice too long''
       else rbind (luaL_checkstack ntop n ''string slice too long'') (\<lambda>_.
             rmapM (\<lambda>i. rmap uchar (rmap hd (substring s (posi + i - 1) 1))) [0..n - 1]))"
    unfolding str_byte_def Let_def n_def pose_def posi_def pose0_def posi0_def ..
  have pos: "1 \<le> posi" "pose \<le> int (length s)" by (simp_all add: posi_def pose_def)
  have "n \<le> pose - posi + 1" if "posi \<le> pose"
    using that unfolding n_def signed_take_bit_int_less_eq_self_iff by simp
  then have "\<not> is_UB (rmap uchar (rmap hd (substring s (posi + k - 1) 1)))"
    if "posi \<le> pose" "k \<in> set [0..n - 1]" for k
    using that pos by (auto simp: substring_def)
  then show "\<not> is_UB (str_byte ntop s i j)"
    unfolding eq by (intro not_UB_if not_UB_rbind rmapM_safe) (auto simp: luaL_checkstack_def)
next
  define st where "st = posrelat start (length s)"
  define en where "en = posrelat (case e0 of None \<Rightarrow> - 1 | Some e \<Rightarrow> e) (length s)"
  define lo where "lo = (if st < 1 then 1 else st)"
  define hi where "hi = (if en > int (length s) then int (length s) else en)"
  have minmax: "lo = max 1 st" "hi = min (int (length s)) en"
    by (auto simp: lo_def hi_def max_def min_def)
  have eq: "str_sub s start e0 = (if lo \<le> hi then substring s (lo - 1) (hi - lo + 1) else Inr [])"
    unfolding str_sub_def Let_def lo_def hi_def st_def en_def ..
  have "str_sub s start e0 = Inr (map ((!) s) [nat (lo - 1)..<nat (max hi (lo - 1))])"
  proof (cases "lo \<le> hi")
    case True
    have b: "1 \<le> lo" "hi \<le> int (length s)" by (simp_all add: lo_def hi_def)
    then have "substring s (lo - 1) (hi - lo + 1) = Inr (take (nat (hi - lo + 1)) (drop (nat (lo - 1)) s))"
      using True by (intro substring_in) simp_all
    moreover have "nat hi = nat (lo - 1) + nat (hi - lo + 1)" using b True by simp
    then have "take (nat (hi - lo + 1)) (drop (nat (lo - 1)) s) = map ((!) s) [nat (lo - 1)..<nat hi]"
      using b True by (simp only:) (intro take_drop_map, simp)
    ultimately show ?thesis using True eq by simp
  qed (simp add: eq)
  then show "str_sub s start e0 =
     (let l = int (length s);
          lo = max 1 (posrelat start (length s));
          hi = min l (posrelat (case e0 of None \<Rightarrow> - 1 | Some e \<Rightarrow> e) (length s))
      in Inr (map ((!) s) [nat (lo - 1)..<nat (max hi (lo - 1))]))"
    unfolding Let_def st_def [symmetric] en_def [symmetric] minmax [symmetric] .
qed

subsection \<open>Plain search\<close>

definition occurs_at :: "string \<Rightarrow> nat \<Rightarrow> string \<Rightarrow> bool" where
  "occurs_at s i p \<longleftrightarrow> i + length p \<le> length s \<and> take (length p) (drop i s) = p"

lemma occurs_Cons: "occurs_at s i (c # p2) \<longleftrightarrow> i < length s \<and> s ! i = c \<and> occurs_at s (i + 1) p2"
proof (cases "i < length s")
  case True
  then have "drop i s = s ! i # drop (i + 1) s" by (simp add: Cons_nth_drop_Suc)
  with True show ?thesis by (auto simp: occurs_at_def)
qed (auto simp: occurs_at_def)

definition first_at :: "string \<Rightarrow> string \<Rightarrow> nat \<Rightarrow> nat \<Rightarrow> nat option \<Rightarrow> bool" where
  "first_at s p lo hi r \<longleftrightarrow> (case r of
     Some i \<Rightarrow> lo \<le> i \<and> occurs_at s i p \<and> (\<forall>j. lo \<le> j \<and> j < i \<longrightarrow> \<not> occurs_at s j p)
   | None \<Rightarrow> \<forall>j. lo \<le> j \<and> j < hi \<longrightarrow> \<not> occurs_at s j p)"

lemma first_at_extend:
  assumes "first_at s p lo' hi r" "lo \<le> lo'" "\<And>j. lo \<le> j \<Longrightarrow> j < lo' \<Longrightarrow> \<not> occurs_at s j p"
  shows "first_at s p lo hi r"
proof (cases r)
  case None
  with assms(1,3) show ?thesis by (auto simp: first_at_def) (meson not_le)
next
  case (Some i)
  with assms show ?thesis by (auto simp: first_at_def) (meson not_le)
qed

lemma lmemfind_loop_first:
  "s1 + l1 + length p2 \<le> length s \<Longrightarrow>
     \<exists>r. lmemfind_loop s c p2 s1 l1 = Inr r \<and> first_at s (c # p2) s1 (s1 + l1) r"
proof (induction s c p2 s1 l1 rule: lmemfind_loop.induct)
  case (1 s c p2 s1 l1)
  show ?case
  proof (cases "l1 > 0")
    case False
    then show ?thesis by (auto simp: lmemfind_loop.simps [of s c p2 s1 0] first_at_def)
  next
    case True
    obtain r where r: "memchr s s1 c l1 = Inr r" using "1.prems" by (simp add: memchr_def)
    show ?thesis
    proof (cases r)
      case None
      with r True memchr_None [OF r [unfolded None]] show ?thesis
        by (auto simp: lmemfind_loop.simps [of s c p2 s1 l1] first_at_def occurs_Cons)
    next
      case (Some i)
      note i = memchr_Some [OF r [unfolded Some]]
      obtain eq where eq: "memcmp_eq s (i + 1) p2 = Inr eq" "eq = occurs_at s (i + 1) p2"
        using i "1.prems" by (simp add: memcmp_eq_def occurs_at_def)
      show ?thesis
      proof (cases eq)
        case True
        with r Some eq i \<open>l1 > 0\<close> "1.prems" show ?thesis
          by (auto simp: lmemfind_loop.simps [of s c p2 s1 l1] first_at_def occurs_Cons)
      next
        case False
        have next_eq: "i + 1 + (l1 - (i + 1 - s1)) = s1 + l1" using i by simp
        with "1.prems" have "i + 1 + (l1 - (i + 1 - s1)) + length p2 \<le> length s" by simp
        from "1.IH" [OF True r Some eq(1) False this] obtain r' where
          r': "lmemfind_loop s c p2 (i + 1) (l1 - (i + 1 - s1)) = Inr r'"
          "first_at s (c # p2) (i + 1) (s1 + l1) r'" unfolding next_eq by blast
        have "\<not> occurs_at s j (c # p2)" if "s1 \<le> j" "j < i + 1" for j
          using that i eq False by (cases "j = i") (auto simp: occurs_Cons)
        then have "first_at s (c # p2) s1 (s1 + l1) r'"
          using i by (intro first_at_extend [OF r'(2)]) auto
        with r' r Some eq False True show ?thesis
          by (simp add: lmemfind_loop.simps [of s c p2 s1 l1])
      qed
    qed
  qed
qed

lemma lmemfind_first_aux:
  assumes "i \<le> length s"
  shows "\<exists>r. lmemfind s i (length s - i) p = Inr r \<and> first_at s p i (length s + 1) r"
proof (cases p)
  case Nil
  with assms show ?thesis by (simp add: lmemfind_def first_at_def occurs_at_def)
next
  case (Cons c p2)
  show ?thesis
  proof (cases "length p > length s - i")
    case True
    with Cons assms show ?thesis by (auto simp: lmemfind_def first_at_def occurs_at_def)
  next
    case False
    with Cons assms have "i + (length s - i - length p2) + length p2 \<le> length s" by simp
    from lmemfind_loop_first [OF this, of c] obtain r where
      r: "lmemfind_loop s c p2 i (length s - i - length p2) = Inr r"
      "first_at s p i (i + (length s - i - length p2)) r" unfolding Cons by blast
    then have "first_at s p i (length s + 1) r"
      using False Cons assms by (auto simp: first_at_def occurs_at_def split: option.splits)
    with r False Cons show ?thesis by (simp add: lmemfind_def)
  qed
qed

text \<open>
  The plain search of \<open>string.find\<close> is exact: from any start inside the subject
  it returns the first position where the pattern occurs, and finds nothing only when it
  occurs nowhere.
\<close>

theorem lmemfind_first:
  assumes "i \<le> length s"
  shows "\<exists>r. lmemfind s i (length s - i) p = Inr r \<and> first_at s p i (length s + 1) r"
  using assms by (rule lmemfind_first_aux)

theorem lmemfind_first_witness:
  "lmemfind ''ababc'' 1 4 ''abc'' = Inr (Some 2) \<and> first_at ''ababc'' ''abc'' 1 6 (Some 2)"
proof
  show eq: "lmemfind ''ababc'' 1 4 ''abc'' = Inr (Some 2)" by code_simp
  have len: "length ''ababc'' - 1 = 4" "length ''ababc'' + 1 = 6" by simp_all
  have "(1::nat) \<le> length ''ababc''" by simp
  from lmemfind_first [OF this, of "''abc''", unfolded len] eq
  show "first_at ''ababc'' ''abc'' 1 6 (Some 2)" by auto
qed

subsection \<open>Find and match\<close>

lemma push_onecapture_safe:
  assumes "ms_ok S e ms" "0 \<le> i" "\<And>b. s = Some b \<Longrightarrow> b \<le> e' \<and> e' \<le> length S"
    "s = None \<Longrightarrow> i < int (level ms)"
  shows "\<not> is_UB (push_onecapture S ms i s e')"
proof (cases "i \<ge> int (level ms)")
  case True
  then obtain b where "s = Some b" using assms(4) by (cases s) auto
  with True assms(1,3) show ?thesis by (auto simp: push_onecapture_def substring_def ms_ok_def)
next
  case False
  define k where "k = nat i"
  have k: "i = int k" "k < level ms" "k < length (capture ms)"
    using False assms(1,2) by (auto simp: k_def ms_ok_def)
  have "cap_ok e (capture ms ! k)" "e \<le> length S" using assms(1) k by (auto simp: ms_ok_def)
  then show ?thesis
    using False k by (cases "capture ms ! k")
      (auto simp: push_onecapture_def aget_in substring_def cap_ok_def intro!: not_UB_if)
qed

lemma push_captures_safe:
  assumes "ms_ok S e ms" "\<And>b. s = Some b \<Longrightarrow> b \<le> e' \<and> e' \<le> length S"
  shows "\<not> is_UB (push_captures ntop S ms s e')"
  unfolding push_captures_def Let_def
  by (intro not_UB_rbind rmapM_safe push_onecapture_safe [OF assms(1)])
     (use assms(2) in \<open>auto simp: luaL_checkstack_def split: if_splits\<close>)

lemma fresh_ms_ok: "length (capture ms) = LUA_MAXCAPTURES \<Longrightarrow> s \<le> length S \<Longrightarrow> ms_ok S s (ms\<lparr>level := 0\<rparr>)"
  by (simp add: ms_ok_def)

lemma find_loop_safe:
  "length (capture ms) = LUA_MAXCAPTURES \<Longrightarrow> p \<le> length P \<Longrightarrow> s1 \<le> length S \<Longrightarrow>
   \<not> is_UB (find_loop S P p anchor ms s1) \<and>
   (\<forall>b e ms'. find_loop S P p anchor ms s1 = Inr (Some (b, e, ms')) \<longrightarrow> s1 \<le> b \<and> b \<le> e \<and> ms_ok S e ms')"
proof (induction S P p anchor ms s1 rule: find_loop.induct)
  case (1 S P p anchor ms s1)
  have post: "match_post S s1 (ms\<lparr>level := 0\<rparr>) (do_match S P (ms\<lparr>level := 0\<rparr>) s1 p)"
    using "1.prems" by (intro do_match_post fresh_ms_ok)
  show ?case
  proof (cases "do_match S P (ms\<lparr>level := 0\<rparr>) s1 p")
    case (Inl e)
    with post show ?thesis by (simp add: find_loop.simps [of S P p anchor ms s1] match_post_def)
  next
    case (Inr em)
    obtain res ms' where em: "em = (res, ms')" by (cases em)
    show ?thesis
    proof (cases res)
      case (Some e)
      with post Inr em show ?thesis
        by (simp add: find_loop.simps [of S P p anchor ms s1] match_post_def)
    next
      case None
      with post Inr em have len: "length (capture ms') = LUA_MAXCAPTURES"
        using "1.prems" by (simp add: match_post_def same_caps_def)
      show ?thesis
      proof (cases "s1 < length S \<and> \<not> anchor")
        case True
        with "1.IH" [OF Inr em [symmetric] None True len "1.prems"(2)]
        have "\<not> is_UB (find_loop S P p anchor ms' (s1 + 1)) \<and> (\<forall>b e m. find_loop S P p anchor ms' (s1 + 1)
            = Inr (Some (b, e, m)) \<longrightarrow> s1 \<le> b \<and> b \<le> e \<and> ms_ok S e m)" by auto
        moreover have "find_loop S P p anchor ms s1 = find_loop S P p anchor ms' (s1 + 1)"
          unfolding find_loop.simps [of S P p anchor ms s1] using True Inr em None by simp
        ultimately show ?thesis by simp
      qed (use Inr em None in \<open>auto simp: find_loop.simps [of S P p anchor ms s1]\<close>)
    qed
  qed
qed

text \<open>
  C12. \<open>string.find\<close> and \<open>string.match\<close> never leave the subject or the pattern, for
  any subject, pattern, start position and flags, and whatever the uninitialised \<open>MatchState\<close>
  on the C stack holds.
\<close>

theorem str_find_aux_safe:
  assumes "length (capture ms) = LUA_MAXCAPTURES"
  shows "\<not> is_UB (str_find_aux ntop isfind s p init plain ms)"
proof -
  define i where "i = posrelat (case init of None \<Rightarrow> 1 | Some i \<Rightarrow> i) (length s) - 1"
  define k where "k = (if i < 0 then 0 else if i > int (length s) then length s else nat i)"
  have k: "k \<le> length s" by (auto simp: k_def)
  note plain = lmemfind_first_aux [OF k, of p]
  have anchored: "(if c = CHR ''^'' then 1 else 0) \<le> length p" if "rd p 0 = Inr c" for c
    using rd_nonzero [OF that] by (cases p) auto
  note loop = find_loop_safe [OF assms anchored k]
  have captures: "\<not> is_UB (push_captures n s ms' (Some b) e)" "\<not> is_UB (push_captures n s ms' None 0)"
    if "rd p 0 = Inr c" "find_loop s p (if c = CHR ''^'' then 1 else 0) anchor ms k = Inr (Some (b, e, ms'))"
    for n c anchor b e ms'
  proof -
    have "b \<le> e" "ms_ok s e ms'" using loop [OF that(1), of anchor] that(2) by blast+
    then show "\<not> is_UB (push_captures n s ms' (Some b) e)"
      by (intro push_captures_safe [OF \<open>ms_ok s e ms'\<close>]) (simp add: ms_ok_def)
    show "\<not> is_UB (push_captures n s ms' None 0)"
      by (rule push_captures_safe [OF \<open>ms_ok s e ms'\<close>]) simp
  qed
  have search: "\<not> is_UB (lmemfind s k (length s - k) p)" using plain by auto
  show ?thesis
    unfolding str_find_aux_def Let_def i_def [symmetric] k_def [symmetric]
    by (intro not_UB_if not_UB_rbind search)
       (use loop captures in \<open>auto split: option.splits intro!: not_UB_if\<close>)
qed

theorem str_find_aux_safe_witness:
  "str_find_aux 3 True ''hello world'' ''o (w)'' None False ms_init
     = Inr [PInteger 5, PInteger 7, PString ''w''] \<and>
   \<not> is_UB (str_find_aux 3 True ''hello world'' ''o (w)'' None False ms_init)"
proof
  show "str_find_aux 3 True ''hello world'' ''o (w)'' None False ms_init
     = Inr [PInteger 5, PInteger 7, PString ''w'']" by code_simp
  have "length (capture ms_init) = LUA_MAXCAPTURES" by (simp add: ms_init_def)
  then show "\<not> is_UB (str_find_aux 3 True ''hello world'' ''o (w)'' None False ms_init)"
    by (rule str_find_aux_safe)
qed

end
