(* ===== verification/StrGsub.thy ===== *)
theory StrGsub
  imports StrLib Objects
begin

text \<open>
  \<open>string.gsub\<close> of \<open>lua/lstrlib.c\<close>: the replacement string with its escapes, the
  replacement function and table, and the loop over the subject. The function and the
  table of the script are parameters that act on a state of their own and may raise an error.
\<close>

text \<open>What a replacement function or table may give: \<open>RString\<close> is a string or a number, as text;
  \<open>ROther\<close> any other value that is true, by its type name.\<close>

datatype repl_val = RNil | RFalse | RString string | ROther string

datatype repl_arg = RepString string | RepFunction | RepTable

record 's repl_env =
  rcall :: "pushed list \<Rightarrow> 's \<Rightarrow> (repl_val \<times> 's) res"
  rindex :: "pushed \<Rightarrow> 's \<Rightarrow> (repl_val \<times> 's) res"
  num2str :: "lua_Number \<Rightarrow> string"

definition luaL_addvalue :: "('s, 'm) repl_env_scheme \<Rightarrow> pushed \<Rightarrow> string" where
  "luaL_addvalue env v = (case v of PString s \<Rightarrow> s | PInteger i \<Rightarrow> num2str env (dbl_of_int i) | PNil \<Rightarrow> [])"

function add_s :: "('s, 'm) repl_env_scheme \<Rightarrow> string \<Rightarrow> MatchState \<Rightarrow> string \<Rightarrow> nat \<Rightarrow> nat \<Rightarrow> nat \<Rightarrow> string res" where
  "add_s env S ms news s e i =
     (if i < length news then
        rbind (rd news i) (\<lambda>c.
        if c \<noteq> L_ESC then rmap ((#) c) (add_s env S ms news s e (i + 1))
        else
          rbind (rd news (i + 1)) (\<lambda>d.
          rbind (if \<not> isdigit (uchar d) then Inr [d]
                 else if d = CHR ''0'' then substring S (int s) (int e - int s)
                 else rmap (luaL_addvalue env) (push_onecapture S ms (uchar d - uchar (CHR ''1'')) (Some s) e)) (\<lambda>t.
          rmap ((@) t) (add_s env S ms news s e (i + 2)))))
      else Inr [])"
  by pat_completeness auto
termination
  by (relation "measure (\<lambda>(env, S, ms, news, s, e, i). length news - i)") auto

declare add_s.simps [simp del]

definition add_value :: "('s, 'm) repl_env_scheme \<Rightarrow> int \<Rightarrow> string \<Rightarrow> MatchState \<Rightarrow> repl_arg \<Rightarrow> 's \<Rightarrow> nat \<Rightarrow> nat \<Rightarrow>
    (string \<times> 's) res" where
  "add_value env ntop S ms rep st s e =
     (let result = (\<lambda>(v, st).
        if v = RNil \<or> v = RFalse then rmap (\<lambda>t. (t, st)) (substring S (int s) (int e - int s))
        else case v of
          RString t \<Rightarrow> Inr (t, st)
        | ROther ty \<Rightarrow> run_error (''invalid replacement value (a '' @ ty @ '')'')
        | _ \<Rightarrow> Inr ([], st))
      in case rep of
        RepString news \<Rightarrow> rmap (\<lambda>t. (t, st)) (add_s env S ms news s e 0)
      | RepFunction \<Rightarrow>
          rbind (push_captures (ntop + 1) S ms (Some s) e) (\<lambda>cs. rbind (rcall env cs st) result)
      | RepTable \<Rightarrow>
          rbind (push_onecapture S ms 0 (Some s) e) (\<lambda>c. rbind (rindex env c st) result))"

text \<open>
  The loop of \<open>str_gsub\<close>; the first component of the result is what it adds to the buffer.
\<close>

function gsub_loop :: "('s, 'm) repl_env_scheme \<Rightarrow> int \<Rightarrow> string \<Rightarrow> string \<Rightarrow> nat \<Rightarrow> bool \<Rightarrow> int \<Rightarrow> repl_arg \<Rightarrow>
    MatchState \<Rightarrow> 's \<Rightarrow> nat \<Rightarrow> int \<Rightarrow> (string \<times> int \<times> nat \<times> 's) res" where
  "gsub_loop env ntop S P p anchor max_s rep ms st src n =
     (if n < max_s then
        rbind (do_match S P (ms\<lparr>level := 0\<rparr>) src p) (\<lambda>(res, ms).
        case res of
          Some e \<Rightarrow>
            rbind (add_value env ntop S ms rep st src e) (\<lambda>(t, st).
            if e > src then
              (if anchor then Inr (t, n + 1, e, st)
               else rmap (\<lambda>(u, r). (t @ u, r)) (gsub_loop env ntop S P p anchor max_s rep ms st e (n + 1)))
            else if src < length S then
              rbind (rd S src) (\<lambda>c.
              if anchor then Inr (t @ [c], n + 1, src + 1, st)
              else rmap (\<lambda>(u, r). (t @ c # u, r))
                (gsub_loop env ntop S P p anchor max_s rep ms st (src + 1) (n + 1)))
            else Inr (t, n + 1, src, st))
        | None \<Rightarrow>
            if src < length S then
              rbind (rd S src) (\<lambda>c.
              if anchor then Inr ([c], n, src + 1, st)
              else rmap (\<lambda>(u, r). (c # u, r))
                (gsub_loop env ntop S P p anchor max_s rep ms st (src + 1) n))
            else Inr ([], n, src, st))
      else Inr ([], n, src, st))"
  by pat_completeness auto
termination
  by (relation "measures [\<lambda>(env, ntop, S, P, p, anchor, max_s, rep, ms, st, src, n). nat (max_s - n),
        \<lambda>(env, ntop, S, P, p, anchor, max_s, rep, ms, st, src, n). length S - src]") auto

declare gsub_loop.simps [simp del]

definition str_gsub :: "('s, 'm) repl_env_scheme \<Rightarrow> int \<Rightarrow> string \<Rightarrow> string \<Rightarrow> repl_arg option \<Rightarrow> int option \<Rightarrow>
    MatchState \<Rightarrow> 's \<Rightarrow> (string \<times> int \<times> 's) res" where
  "str_gsub env ntop src p tr max_s0 ms st =
     (let max_s = (case max_s0 of Some m \<Rightarrow> m | None \<Rightarrow> signed_take_bit 31 (int (length src) + 1)) in
      rbind (rd p 0) (\<lambda>c.
      let anchor = (c = CHR ''^''); p0 = (if anchor then 1 else 0) in
      case tr of
        None \<Rightarrow> run_error ''bad argument #3 (string/function/table expected)''
      | Some rep \<Rightarrow>
          rbind (gsub_loop env ntop src p p0 anchor max_s rep ms st 0 0) (\<lambda>(t, n, pos, st).
          rmap (\<lambda>rest. (t @ rest, n, st)) (substring src (int pos) (int (length src) - int pos)))))"

subsection \<open>Safety\<close>

definition env_safe :: "('s, 'm) repl_env_scheme \<Rightarrow> bool" where
  "env_safe env \<longleftrightarrow> (\<forall>cs st. \<not> is_UB (rcall env cs st)) \<and> (\<forall>c st. \<not> is_UB (rindex env c st))"

lemma add_s_safe:
  "ms_ok S e ms \<Longrightarrow> s \<le> e \<Longrightarrow> i \<le> length news + 1 \<Longrightarrow> \<not> is_UB (add_s env S ms news s e i)"
proof (induction env S ms news s e i rule: add_s.induct)
  case (1 env S ms news s e i)
  have el: "e \<le> length S" using "1.prems"(1) by (simp add: ms_ok_def)
  have cap: "\<not> is_UB (push_onecapture S ms (uchar d - uchar CHR ''1'') (Some s) e)"
    if "isdigit (uchar d)" "d \<noteq> CHR ''0''" for d
  proof -
    have "uchar d \<noteq> uchar CHR ''0''" using that(2) by (simp only: uchar_inj simp_thms)
    then have "0 \<le> uchar d - uchar CHR ''1''" using that(1) by (simp add: isdigit_def uchar_def)
    then show ?thesis using "1.prems" el by (intro push_onecapture_safe) auto
  qed
  show ?case
    unfolding add_s.simps [of env S ms news s e i]
    using "1.IH" "1.prems" el cap
    by (intro not_UB_if not_UB_rbind) (auto simp: substring_def intro!: not_UB_if)
qed

lemma add_value_safe:
  assumes "env_safe env" "ms_ok S e ms" "s \<le> e"
  shows "\<not> is_UB (add_value env ntop S ms rep st s e)"
proof -
  have el: "e \<le> length S" using assms(2) by (simp add: ms_ok_def)
  have caps: "\<not> is_UB (push_captures (ntop + 1) S ms (Some s) e)"
    "\<not> is_UB (push_onecapture S ms 0 (Some s) e)"
    using assms(3) el
    by (intro push_captures_safe [OF assms(2)] push_onecapture_safe [OF assms(2)]; simp)+
  show ?thesis
    using assms caps add_s_safe [OF assms(2,3), of 0] el unfolding env_safe_def
    by (cases rep) (auto simp: add_value_def Let_def substring_def is_UB_rbind split: repl_val.splits if_splits)
qed

lemma add_s_whole:
  "s \<le> e \<Longrightarrow> e \<le> length S \<Longrightarrow> add_s env S ms ''%0'' s e 0 = Inr (take (e - s) (drop s S))"
  by (simp add: add_s.simps [of env S ms "''%0''" s e 0] add_s.simps [of env S ms "''%0''" s e "Suc (Suc 0)"]
      add_s.simps [of env S ms "''%0''" s e 2] rd_def isdigit_def uchar_def substring_def nat_diff_distrib')

text \<open>
  What a run of the loop from \<open>src\<close> guarantees; \<open>whole\<close> says that the replacement is the
  match itself.
\<close>

definition gsub_post :: "string \<Rightarrow> nat \<Rightarrow> int \<Rightarrow> int \<Rightarrow> bool \<Rightarrow> (string \<times> int \<times> nat \<times> 's) res \<Rightarrow> bool" where
  "gsub_post S src n max_s whole r \<longleftrightarrow> \<not> is_UB r \<and>
     (\<forall>t n' pos st. r = Inr (t, n', pos, st) \<longrightarrow> src \<le> pos \<and> pos \<le> length S \<and> n \<le> n' \<and>
        (n \<le> max_s \<longrightarrow> n' \<le> max_s) \<and> (whole \<longrightarrow> t = take (pos - src) (drop src S)))"

lemma take_drop_append:
  "a \<le> b \<Longrightarrow> b \<le> c \<Longrightarrow> take (b - a) (drop a S) @ take (c - b) (drop b S) = take (c - a) (drop a S)"
  by (auto simp: le_iff_add take_add add.commute)

lemma gsub_post_step:
  assumes "gsub_post S b n' max_s whole r" "a \<le> b" "b \<le> length S" "n \<le> n'" "n \<le> max_s \<longrightarrow> n' \<le> max_s"
    and "whole \<Longrightarrow> t = take (b - a) (drop a S)"
  shows "gsub_post S a n max_s whole (rmap (\<lambda>(u, r). (t @ u, r)) r)"
proof (cases r)
  case (Inr x)
  obtain u m pos st where x: "x = (u, m, pos, st)" by (cases x)
  have "b \<le> pos \<and> pos \<le> length S \<and> n' \<le> m \<and> (n' \<le> max_s \<longrightarrow> m \<le> max_s) \<and>
      (whole \<longrightarrow> u = take (pos - b) (drop b S))"
    using assms(1) unfolding gsub_post_def Inr x by simp
  with assms(2-) show ?thesis
    by (auto simp: gsub_post_def Inr x take_drop_append)
qed (use assms in \<open>simp add: gsub_post_def\<close>)

lemma gsub_post_done:
  "src \<le> pos \<Longrightarrow> pos \<le> length S \<Longrightarrow> n \<le> n' \<Longrightarrow> (n \<le> max_s \<longrightarrow> n' \<le> max_s) \<Longrightarrow>
   (whole \<Longrightarrow> t = take (pos - src) (drop src S)) \<Longrightarrow> gsub_post S src n max_s whole (Inr (t, n', pos, st))"
  by (simp add: gsub_post_def)

lemma add_value_whole:
  assumes "add_value env ntop S ms rep st s e = Inr (t, st')" "rep = RepString ''%0''" "s \<le> e" "e \<le> length S"
  shows "t = take (e - s) (drop s S)"
  using assms by (auto simp: add_value_def add_s_whole)

lemma gsub_loop_post:
  assumes "env_safe env"
  shows "length (capture ms) = LUA_MAXCAPTURES \<Longrightarrow> p \<le> length P \<Longrightarrow> src \<le> length S \<Longrightarrow>
    gsub_post S src n max_s (rep = RepString ''%0'') (gsub_loop env ntop S P p anchor max_s rep ms st src n)"
  using assms
proof (induction env ntop S P p anchor max_s rep ms st src n rule: gsub_loop.induct)
  case (1 env ntop S P p anchor max_s rep ms st src n)
  note prems = "1.prems"
  note loop_eq = gsub_loop.simps [of env ntop S P p anchor max_s rep ms st src n]
  let ?w = "rep = RepString ''%0''"
  let ?m = "do_match S P (ms\<lparr>level := 0\<rparr>) src p"
  have post: "match_post S src (ms\<lparr>level := 0\<rparr>) ?m"
    using prems by (intro do_match_post fresh_ms_ok)
  show ?case
  proof (cases "n < max_s")
    case False
    with prems show ?thesis
      unfolding loop_eq by (simp add: gsub_post_done)
  next
    case n: True
    show ?thesis
    proof (cases ?m)
      case (Inl err)
      with post n show ?thesis
        unfolding loop_eq by (simp add: gsub_post_def match_post_def)
    next
      case (Inr em)
      obtain res ms' where em: "em = (res, ms')" by (cases em)
      note m = Inr [unfolded em]
      show ?thesis
      proof (cases res)
        case None
        have len: "length (capture ms') = LUA_MAXCAPTURES"
          using post m None prems(1) by (simp add: match_post_def same_caps_def)
        show ?thesis
        proof (cases "src < length S")
          case False
          with n m None prems show ?thesis
            unfolding loop_eq by (simp add: gsub_post_done)
        next
          case True
          have c: "rd S src = Inr (S ! src)" "[S ! src] = take 1 (drop src S)"
            using True by (simp_all add: rd_less take_Suc_conv_app_nth [symmetric] Cons_nth_drop_Suc [symmetric])
          have IH: "gsub_post S (src + 1) n max_s ?w (gsub_loop env ntop S P p anchor max_s rep ms' st (src + 1) n)"
            if "\<not> anchor"
            using "1.IH"(1) [OF n Inr em [symmetric] None True c(1) that len prems(2)] True prems(4) by simp
          have step: "gsub_post S src n max_s ?w (rmap (\<lambda>(u, r). ([S ! src] @ u, r))
              (gsub_loop env ntop S P p anchor max_s rep ms' st (src + 1) n))" if "\<not> anchor"
            using gsub_post_step [OF IH [OF that]] True c(2) by simp
          have "gsub_post S src n max_s ?w (Inr ([S ! src], n, src + 1, st))"
            using True c(2) by (intro gsub_post_done) simp_all
          then show ?thesis
            using n m None True c(1) step unfolding loop_eq by simp
        qed
      next
        case (Some e)
        have e: "src \<le> e" "ms_ok S e ms'" "length (capture ms') = LUA_MAXCAPTURES" "e \<le> length S"
          using post m Some by (auto simp: match_post_def ms_ok_def)
        show ?thesis
        proof (cases "add_value env ntop S ms' rep st src e")
          case (Inl err)
          with n m Some add_value_safe [OF prems(4) e(2,1), of ntop rep st] show ?thesis
            unfolding loop_eq by (simp add: gsub_post_def)
        next
          case (Inr v)
          obtain t st' where v: "v = (t, st')" by (cases v)
          note av = Inr [unfolded v]
          have whole: "t = take (e - src) (drop src S)" if ?w
            using add_value_whole [OF av that e(1,4)] .
          show ?thesis
          proof (cases "e > src")
            case True
            have IH: "gsub_post S e (n + 1) max_s ?w (gsub_loop env ntop S P p anchor max_s rep ms' st' e (n + 1))"
              if "\<not> anchor"
              using "1.IH"(2) [OF n \<open>?m = Inr em\<close> em [symmetric] Some Inr v [symmetric] True that e(3) prems(2)]
                e(4) prems(4) by simp
            show ?thesis
              using n m Some av True e whole gsub_post_step [OF IH, of src n t]
              unfolding loop_eq by (simp add: gsub_post_done)
          next
            case False
            with e(1) have eq: "e = src" by simp
            show ?thesis
            proof (cases "src < length S")
              case True
              have c: "rd S src = Inr (S ! src)" "[S ! src] = take 1 (drop src S)"
                using True by (simp_all add: rd_less take_Suc_conv_app_nth [symmetric] Cons_nth_drop_Suc [symmetric])
              have IH: "gsub_post S (src + 1) (n + 1) max_s ?w
                  (gsub_loop env ntop S P p anchor max_s rep ms' st' (src + 1) (n + 1))" if "\<not> anchor"
                using "1.IH"(3) [OF n \<open>?m = Inr em\<close> em [symmetric] Some Inr v [symmetric] False True c(1) that e(3) prems(2)]
                  True prems(4) by simp
              have tc: "t @ [S ! src] = take (src + 1 - src) (drop src S)" if ?w
                using whole [OF that] c(2) eq by simp

              have step: "gsub_post S src n max_s ?w (rmap (\<lambda>(u, r). ((t @ [S ! src]) @ u, r))
                  (gsub_loop env ntop S P p anchor max_s rep ms' st' (src + 1) (n + 1)))" if "\<not> anchor"
                using True n tc by (intro gsub_post_step [OF IH [OF that]]) simp_all
              have "gsub_post S src n max_s ?w (Inr (t @ [S ! src], n + 1, src + 1, st'))"
                using True n tc by (intro gsub_post_done) simp_all
              then show ?thesis
                using n m Some av True False c(1) step unfolding loop_eq by simp
            next
              case at_end: False
              then show ?thesis
                using n m Some av False whole eq prems
                unfolding loop_eq by (simp add: gsub_post_done)
            qed
          qed
        qed
      qed
    qed
  qed
qed

text \<open>
  C13. \<open>string.gsub\<close> terminates without leaving the subject, the pattern or the
  replacement, for every pattern and replacement whose callbacks are themselves safe, and
  makes at most the number of substitutions asked for. When the replacement is the whole
  match, the result is the subject, whatever the pattern matches.
\<close>

theorem str_gsub_safe:
  assumes "env_safe env" "length (capture ms) = LUA_MAXCAPTURES"
  shows "\<not> is_UB (str_gsub env ntop src p tr max_s ms st) \<and>
    (\<forall>out n st'. str_gsub env ntop src p tr max_s ms st = Inr (out, n, st') \<longrightarrow>
       0 \<le> n \<and> (\<forall>m. max_s = Some m \<longrightarrow> n \<le> max m 0) \<and> (tr = Some (RepString ''%0'') \<longrightarrow> out = src))"
proof -
  define c where "c = (if p = [] then NUL else p ! 0)"
  define a where "a = (c = CHR ''^'')"
  define p0 where "p0 = (if a then 1 else 0 :: nat)"
  define k where "k = (case max_s of Some m \<Rightarrow> m | None \<Rightarrow> signed_take_bit 31 (int (length src) + 1))"
  have rd: "rd p 0 = Inr c" by (simp add: rd_def c_def)
  have p0: "p0 \<le> length p" by (cases p) (auto simp: p0_def a_def c_def)
  show ?thesis
  proof (cases tr)
    case None
    then show ?thesis by (simp add: str_gsub_def rd Let_def)
  next
    case (Some rep)
    let ?r = "gsub_loop env ntop src p p0 a k rep ms st 0 0"
    have eq: "str_gsub env ntop src p tr max_s ms st = rbind ?r (\<lambda>(t, n, pos, st).
        rmap (\<lambda>rest. (t @ rest, n, st)) (substring src (int pos) (int (length src) - int pos)))"
      unfolding str_gsub_def Some rd rbind_simps Let_def option.case a_def [symmetric] p0_def [symmetric]
        k_def [symmetric] ..
    have post: "gsub_post src 0 0 k (rep = RepString ''%0'') ?r"
      using gsub_loop_post [OF assms p0, of 0 src 0 k rep ntop a st] by simp
    show ?thesis
    proof (cases ?r)
      case (Inl e)
      with post show ?thesis unfolding eq by (simp add: gsub_post_def)
    next
      case (Inr x)
      obtain t n pos st' where x: "x = (t, n, pos, st')" by (cases x)
      have g: "pos \<le> length src" "0 \<le> n" "0 \<le> k \<longrightarrow> n \<le> k"
        "rep = RepString ''%0'' \<Longrightarrow> t = take pos src"
        using post unfolding Inr x gsub_post_def by auto
      have zero: "n = 0" if "k < 0"
        using Inr x that by (simp add: gsub_loop.simps [of env ntop src p p0 a k rep ms st 0 0])
      have sub: "substring src (int pos) (int (length src) - int pos) = Inr (drop pos src)"
        using g(1) by (simp add: substring_def)
      have "n \<le> max m 0" if "max_s = Some m" for m
        using that g(3) zero by (cases "k < 0") (auto simp: k_def)
      then show ?thesis
        unfolding eq Inr x using g Some sub by auto
    qed
  qed
qed

definition demo_env :: "unit repl_env" where
  "demo_env = \<lparr>rcall = (\<lambda>cs st. Inr (RNil, st)), rindex = (\<lambda>c st. Inr (RNil, st)), num2str = (\<lambda>_. ''0'')\<rparr>"

theorem str_gsub_safe_witness:
  "str_gsub demo_env 4 ''a b'' ''(%w)'' (Some (RepString ''<%1>'')) None ms_init () = Inr (''<a> <b>'', 2, ()) \<and>
   \<not> is_UB (str_gsub demo_env 4 ''a b'' ''(%w)'' (Some (RepString ''<%1>'')) None ms_init ())"
proof
  show "str_gsub demo_env 4 ''a b'' ''(%w)'' (Some (RepString ''<%1>'')) None ms_init ()
      = Inr (''<a> <b>'', 2, ())" by code_simp
  have "env_safe demo_env" "length (capture ms_init) = LUA_MAXCAPTURES"
    by (simp_all add: env_safe_def demo_env_def ms_init_def)
  then show "\<not> is_UB (str_gsub demo_env 4 ''a b'' ''(%w)'' (Some (RepString ''<%1>'')) None ms_init ())"
    by (rule str_gsub_safe [THEN conjunct1])
qed

end
