(* ===== verification/StrFormat.thy ===== *)
theory StrFormat
  imports StrLib Objects
begin

text \<open>
  \<open>string.format\<close> of \<open>lua/lstrlib.c\<close>: the scanner of a format item, which copies it into
  a small buffer, the conversions, with the \<open>sprintf\<close> of the C standard for the integer,
  character and string directives, and the loop over the format. Writes to the two
  buffers on the C stack are checked against their sizes. The text of a floating point
  directive is a parameter.
\<close>

definition FLAGS :: string where "FLAGS = ''-+ #0''"
definition LUA_INTFRMLEN :: string where "LUA_INTFRMLEN = ''l''"
definition MAX_ITEM :: nat where "MAX_ITEM = 512"
definition MAX_FORMAT :: nat where "MAX_FORMAT = (length FLAGS + 1) + (length LUA_INTFRMLEN + 1) + 10"

subsection \<open>Format items\<close>

fun addquoted_body :: "string \<Rightarrow> string" where
  "addquoted_body [] = []"
| "addquoted_body (c # s) =
     (if c = CHR 0x22 \<or> c = CHR 0x5C \<or> c = CHR 0x0A then [CHR 0x5C, c]
      else if c = CHR 0x0D then [CHR 0x5C, CHR ''r'']
      else if c = NUL then [CHR 0x5C, CHR ''0'', CHR ''0'', CHR ''0'']
      else [c]) @ addquoted_body s"

definition addquoted :: "string \<Rightarrow> string" where
  "addquoted s = [CHR 0x22] @ addquoted_body s @ [CHR 0x22]"

function skip_flags :: "string \<Rightarrow> nat \<Rightarrow> nat res" where
  "skip_flags f p =
     rbind (rd f p) (\<lambda>c. if c \<noteq> NUL \<and> c \<in> set FLAGS then skip_flags f (p + 1) else Inr p)"
  by pat_completeness auto
termination
  by (relation "measure (\<lambda>(f, p). length f - p)") (auto dest: rd_nonzero)

declare skip_flags.simps [simp del]

definition skip_digit :: "string \<Rightarrow> nat \<Rightarrow> nat res" where
  "skip_digit f p = rbind (rd f p) (\<lambda>c. Inr (if isdigit (uchar c) then p + 1 else p))"

text \<open>
  \<open>form\<close> is the text of the item, without the final zero byte; \<open>strncpy\<close> fills the buffer
  up to its count, so the count is what has to fit.
\<close>

definition scanformat :: "string \<Rightarrow> nat \<Rightarrow> (string \<times> nat) res" where
  "scanformat f start =
     rbind (skip_flags f start) (\<lambda>p.
     if p - start \<ge> length FLAGS + 1 then run_error ''invalid format (repeated flags)''
     else
       rbind (skip_digit f p) (\<lambda>p.
       rbind (skip_digit f p) (\<lambda>p.
       rbind (rd f p) (\<lambda>c.
       rbind (if c = CHR ''.'' then rbind (skip_digit f (p + 1)) (skip_digit f) else Inr p) (\<lambda>p.
       rbind (rd f p) (\<lambda>c.
       if isdigit (uchar c) then run_error ''invalid format (width or precision too long)''
       else if 1 + (p - start + 1) + 1 \<le> MAX_FORMAT
            then Inr (CHR ''%'' # takeWhile (\<lambda>c. c \<noteq> NUL) (take (p - start + 1) (drop start f)), p)
            else Inl (UB ''form buffer'')))))))"

definition addintlen :: "string \<Rightarrow> string res" where
  "addintlen form =
     (let l = length form in
      if l = 0 then Inl (UB ''form buffer'')
      else if l + length LUA_INTFRMLEN + 1 \<le> MAX_FORMAT
           then Inr (take (l - 1) form @ LUA_INTFRMLEN @ [last form])
      else Inl (UB ''form buffer''))"

subsection \<open>The \<open>sprintf\<close> of one directive\<close>

record fspec =
  sp_flags :: string
  sp_width :: nat
  sp_prec :: "nat option"

definition dec_nat :: "string \<Rightarrow> nat" where
  "dec_nat ds = foldl (\<lambda>a c. a * 10 + (of_char c - 48)) 0 ds"

definition parse_spec :: "string \<Rightarrow> fspec" where
  "parse_spec form =
     (let f = tl form;
          fl = takeWhile (\<lambda>c. c \<in> set FLAGS) f;
          f1 = drop (length fl) f;
          w = takeWhile (\<lambda>c. isdigit (uchar c)) f1;
          f2 = drop (length w) f1
      in \<lparr>sp_flags = fl, sp_width = dec_nat w,
          sp_prec = (if f2 \<noteq> [] \<and> hd f2 = CHR ''.''
                     then Some (dec_nat (takeWhile (\<lambda>c. isdigit (uchar c)) (tl f2))) else None)\<rparr>)"

definition flag :: "fspec \<Rightarrow> char \<Rightarrow> bool" where
  "flag sp c \<longleftrightarrow> c \<in> set (sp_flags sp)"

text \<open>Padding with spaces, or with zeros between the prefix and the digits.\<close>

definition pad :: "fspec \<Rightarrow> bool \<Rightarrow> string \<Rightarrow> string \<Rightarrow> string" where
  "pad sp zeros prefix body =
     (let n = sp_width sp - (length prefix + length body) in
      if flag sp (CHR ''-'') then prefix @ body @ replicate n (CHR '' '')
      else if zeros then prefix @ replicate n (CHR ''0'') @ body
      else replicate n (CHR '' '') @ prefix @ body)"

function digits :: "nat \<Rightarrow> bool \<Rightarrow> nat \<Rightarrow> string" where
  "digits b up n =
     (if n = 0 \<or> b < 2 then []
      else digits b up (n div b) @ [char_of (let d = n mod b in if d < 10 then 48 + d else if up then 55 + d else 87 + d)])"
  by pat_completeness auto
termination
  by (relation "measure (\<lambda>(b, up, n). n)") auto

declare digits.simps [simp del]

text \<open>The digits of a directive: at least the precision, one unless it is zero.\<close>

definition int_digits :: "fspec \<Rightarrow> nat \<Rightarrow> bool \<Rightarrow> nat \<Rightarrow> string" where
  "int_digits sp b up n =
     (let ds = digits b up n; m = (case sp_prec sp of None \<Rightarrow> 1 | Some p \<Rightarrow> p)
      in replicate (m - length ds) (CHR ''0'') @ ds)"

definition sprintf_signed :: "string \<Rightarrow> int \<Rightarrow> string res" where
  "sprintf_signed form n =
     (let sp = parse_spec form in
      if flag sp (CHR ''#'') then Inl (UB ''sprintf flags'')
      else Inr (pad sp (flag sp (CHR ''0'') \<and> sp_prec sp = None)
        (if n < 0 then ''-'' else if flag sp (CHR ''+'') then ''+'' else if flag sp (CHR '' '') then '' '' else [])
        (int_digits sp 10 False (nat \<bar>n\<bar>))))"

definition sprintf_unsigned :: "string \<Rightarrow> char \<Rightarrow> int \<Rightarrow> string res" where
  "sprintf_unsigned form conv n =
     (let sp = parse_spec form;
          zeros = (flag sp (CHR ''0'') \<and> sp_prec sp = None);
          base = (if conv = CHR ''o'' then 8 else if conv = CHR ''u'' then 10 else 16);
          ds = int_digits sp base (conv = CHR ''X'') (nat n)
      in if flag sp (CHR ''#'') then
           (if conv = CHR ''u'' then Inl (UB ''sprintf flags'')
            else if conv = CHR ''o'' then
              Inr (pad sp zeros [] (if ds \<noteq> [] \<and> hd ds = CHR ''0'' then ds else CHR ''0'' # ds))
            else Inr (pad sp zeros (if n = 0 then [] else [CHR ''0'', conv]) ds))
         else Inr (pad sp zeros [] ds))"

definition sprintf_char :: "string \<Rightarrow> int \<Rightarrow> string res" where
  "sprintf_char form c =
     (let sp = parse_spec form in
      if flag sp (CHR ''#'') \<or> flag sp (CHR ''0'') then Inl (UB ''sprintf flags'')
      else Inr (pad sp False [] [char_of c]))"

definition sprintf_string :: "string \<Rightarrow> string \<Rightarrow> string res" where
  "sprintf_string form s =
     (let sp = parse_spec form; t = cstr s in
      if flag sp (CHR ''#'') \<or> flag sp (CHR ''0'') then Inl (UB ''sprintf flags'')
      else Inr (pad sp False [] (case sp_prec sp of None \<Rightarrow> t | Some p \<Rightarrow> take p t)))"

subsection \<open>The conversions and the loop\<close>

text \<open>
  The arguments of the call, through \<open>luaL_checknumber\<close> and \<open>luaL_checklstring\<close>, and the
  text of a floating point directive.
\<close>

record format_env =
  checknumber :: "nat \<Rightarrow> lua_Number res"
  checklstring :: "nat \<Rightarrow> string res"
  sprintf_float :: "string \<Rightarrow> lua_Number \<Rightarrow> string"

definition number2unsigned :: "lua_Number \<Rightarrow> int res" where
  "number2unsigned d = (case dbl_trunc d of
     Some k \<Rightarrow> if 0 \<le> k \<and> k < 2 ^ 64 then Inr k else Inl (UB ''double to unsigned long'')
   | None \<Rightarrow> Inl (UB ''double to unsigned long''))"

text \<open>The item goes through \<open>buff\<close>, and what is added ends at its first zero byte.\<close>

definition item :: "string res \<Rightarrow> string res" where
  "item r = rbind r (\<lambda>t. if length t < MAX_ITEM then Inr (cstr t) else Inl (UB ''item buffer''))"

definition format_item :: "format_env \<Rightarrow> nat \<Rightarrow> string \<Rightarrow> char \<Rightarrow> string res" where
  "format_item env arg form c =
     (if c = CHR ''c'' then
        item (rbind (checknumber env arg) (\<lambda>d. rbind (lua_number2int d) (sprintf_char form)))
      else if c = CHR ''d'' \<or> c = CHR ''i'' then
        rbind (addintlen form) (\<lambda>form.
        item (rbind (checknumber env arg) (\<lambda>d. rbind (lua_number2integer d) (sprintf_signed form))))
      else if c \<in> set ''ouxX'' then
        rbind (addintlen form) (\<lambda>form.
        item (rbind (checknumber env arg) (\<lambda>d. rbind (number2unsigned d) (sprintf_unsigned form c))))
      else if c \<in> set ''eEfgG'' then
        item (rmap (sprintf_float env form) (checknumber env arg))
      else if c = CHR ''q'' then rmap addquoted (checklstring env arg)
      else if c = CHR ''s'' then
        rbind (checklstring env arg) (\<lambda>s.
        if CHR ''.'' \<notin> set form \<and> length s \<ge> 100 then Inr s
        else item (sprintf_string form s))
      else run_error ''invalid option to format'')"

lemma skip_flags_bound: "skip_flags f p = Inr q \<Longrightarrow> p \<le> q \<and> q \<le> length f"
proof (induction f p rule: skip_flags.induct)
  case (1 f p)
  from "1.prems" obtain c where c: "rd f p = Inr c"
    "(if c \<noteq> NUL \<and> c \<in> set FLAGS then skip_flags f (p + 1) else Inr p) = Inr q"
    by (subst (asm) skip_flags.simps) auto
  with "1.IH" [OF c(1)] show ?case by (auto split: if_splits dest: rd_bound)
qed

lemma rd_digit: "rd f p = Inr c \<Longrightarrow> isdigit (uchar c) \<Longrightarrow> Suc p \<le> length f"
  by (cases "c = NUL") (auto simp: isdigit_def uchar_def dest: rd_nonzero)

lemma skip_digit_bound: "skip_digit f p = Inr q \<Longrightarrow> p \<le> q \<and> q \<le> p + 1 \<and> q \<le> length f"
  by (auto simp: skip_digit_def dest: rd_digit rd_bound split: if_splits)

lemma scanformat_bound: "scanformat f start = Inr (form, p) \<Longrightarrow> start \<le> p \<and> p \<le> length f"
  by (auto simp: scanformat_def split: if_splits dest!: skip_flags_bound skip_digit_bound)

text \<open>\<open>str_format\<close> from the position \<open>i\<close>; \<open>arg\<close> is the last argument used.\<close>

function str_format_loop :: "format_env \<Rightarrow> string \<Rightarrow> nat \<Rightarrow> nat \<Rightarrow> string res" where
  "str_format_loop env f i arg =
     (if i < length f then
        rbind (rd f i) (\<lambda>c.
        if c \<noteq> L_ESC then rmap ((#) c) (str_format_loop env f (i + 1) arg)
        else
          rbind (rd f (i + 1)) (\<lambda>c1.
          if c1 = L_ESC then rmap ((#) c1) (str_format_loop env f (i + 2) arg)
          else
            rbind (scanformat f (i + 1)) (\<lambda>(form, p).
            rbind (rd f p) (\<lambda>conv.
            rbind (format_item env (arg + 1) form conv) (\<lambda>t.
            rmap ((@) t) (str_format_loop env f (p + 1) (arg + 1)))))))
      else Inr [])"
  by pat_completeness auto
termination
  by (relation "measure (\<lambda>(env, f, i, arg). length f - i)") (auto dest: scanformat_bound)

declare str_format_loop.simps [simp del]

definition str_format :: "format_env \<Rightarrow> string \<Rightarrow> string res" where
  "str_format env f = str_format_loop env f 0 1"

subsection \<open>The shape of a format item\<close>

abbreviation dig :: "char \<Rightarrow> bool" where "dig c \<equiv> isdigit (uchar c)"

definition rest_of :: "string \<Rightarrow> nat \<Rightarrow> string" where
  "rest_of f start = takeWhile (\<lambda>c. c \<noteq> NUL) (drop start f)"

lemma rest_of_length: "start \<le> length f \<Longrightarrow> start + length (rest_of f start) \<le> length f"
  unfolding rest_of_def using length_takeWhile_le [of "\<lambda>c. c \<noteq> NUL" "drop start f"] by simp

lemma rd_rest:
  assumes "start \<le> length f" "k \<le> length (rest_of f start)"
  shows "rd f (start + k) = Inr (if k < length (rest_of f start) then rest_of f start ! k else NUL)"
proof (cases "k < length (rest_of f start)")
  case True
  then have "rest_of f start ! k = f ! (start + k)"
    using assms(1) by (simp add: rest_of_def takeWhile_nth)
  moreover have "start + k < length f" using True rest_of_length [OF assms(1)] by simp
  ultimately show ?thesis using True by (simp add: rd_less)
next
  case False
  then have k: "k = length (rest_of f start)" using assms(2) by simp
  show ?thesis
  proof (cases "k < length (drop start f)")
    case True
    then have "drop start f ! k = NUL"
      using nth_length_takeWhile [of "\<lambda>c. c \<noteq> NUL" "drop start f"] k by (simp add: rest_of_def)
    with True False assms(1) show ?thesis by (simp add: rd_less)
  next
    case at_end: False
    then have "start + k = length f" using rest_of_length [OF assms(1)] k assms(1) by simp
    with False show ?thesis by (metis rd_end)
  qed
qed

lemma NUL_class [simp]: "\<not> dig NUL" "NUL \<notin> set FLAGS" "CHR ''.'' \<notin> set FLAGS" "\<not> dig (CHR ''.'')"
  by (simp_all add: isdigit_def uchar_def FLAGS_def)

lemma takeWhile_take: "takeWhile P (take n xs) = take n (takeWhile P xs)"
  by (induction xs arbitrary: n) (auto simp: take_Cons split: nat.split)

lemma skip_flags_shape:
  "skip_flags f p = Inr q \<Longrightarrow> start \<le> length f \<Longrightarrow> p = start + k \<Longrightarrow> k \<le> length (rest_of f start) \<Longrightarrow>
   \<exists>a. q = start + a \<and> k \<le> a \<and> a \<le> length (rest_of f start) \<and>
     (\<forall>i. k \<le> i \<and> i < a \<longrightarrow> rest_of f start ! i \<in> set FLAGS) \<and>
     (a < length (rest_of f start) \<longrightarrow> rest_of f start ! a \<notin> set FLAGS)"
proof (induction f p arbitrary: k rule: skip_flags.induct)
  case (1 f p)
  let ?g = "rest_of f start"
  have r: "rd f p = Inr (if k < length ?g then ?g ! k else NUL)"
    using rd_rest [OF "1.prems"(2,4)] "1.prems"(3) by simp
  show ?case
  proof (cases "k < length ?g \<and> ?g ! k \<in> set FLAGS")
    case True
    then have nz: "?g ! k \<noteq> NUL \<and> ?g ! k \<in> set FLAGS" by auto
    have "skip_flags f (p + 1) = Inr q"
      using "1.prems"(1) r True nz by (subst (asm) skip_flags.simps) simp
    then obtain a where a: "q = start + a" "k + 1 \<le> a" "a \<le> length ?g"
      "\<forall>i. k + 1 \<le> i \<and> i < a \<longrightarrow> ?g ! i \<in> set FLAGS" "a < length ?g \<longrightarrow> ?g ! a \<notin> set FLAGS"
      using "1.IH" [of "?g ! k" "k + 1"] r True nz "1.prems" by auto
    have "?g ! i \<in> set FLAGS" if "k \<le> i" "i < a" for i
      using a(4) nz that by (cases "i = k") auto
    with a show ?thesis by (intro exI [of _ a]) auto
  next
    case False
    then have "q = p" using "1.prems"(1) r by (subst (asm) skip_flags.simps) (auto split: if_splits)
    with "1.prems" False show ?thesis by (intro exI [of _ k]) auto
  qed
qed

lemma skip_digit_shape:
  assumes "skip_digit f (start + k) = Inr q" "start \<le> length f" "k \<le> length (rest_of f start)"
  shows "(k < length (rest_of f start) \<and> dig (rest_of f start ! k) \<and> q = start + (k + 1)) \<or>
    (q = start + k \<and> (k < length (rest_of f start) \<longrightarrow> \<not> dig (rest_of f start ! k)))"
  using assms(1) unfolding skip_digit_def rd_rest [OF assms(2,3)] by (auto split: if_splits)

text \<open>
  \<open>item_shape g a b q\<close>: in \<open>g\<close> the flags end at \<open>a\<close>, the width at \<open>b\<close>, and the conversion
  character is at \<open>q\<close>, after the precision if there is one.
\<close>

definition item_shape :: "string \<Rightarrow> nat \<Rightarrow> nat \<Rightarrow> nat \<Rightarrow> bool" where
  "item_shape g a b q \<longleftrightarrow> a \<le> 5 \<and> a \<le> b \<and> b \<le> a + 2 \<and> b \<le> q \<and> q \<le> b + 3 \<and> q \<le> length g \<and>
     (\<forall>i < a. g ! i \<in> set FLAGS) \<and> (a < length g \<longrightarrow> g ! a \<notin> set FLAGS) \<and>
     (\<forall>i. a \<le> i \<and> i < b \<longrightarrow> dig (g ! i)) \<and>
     (if b < length g \<and> g ! b = CHR ''.'' then b < q \<and> (\<forall>i. b < i \<and> i < q \<longrightarrow> dig (g ! i)) else q = b) \<and>
     (q < length g \<longrightarrow> \<not> dig (g ! q))"

lemma two_digits:
  assumes "skip_digit f (start + k) = Inr p1" "skip_digit f p1 = Inr p2"
    and "start \<le> length f" "k \<le> length (rest_of f start)"
  shows "\<exists>b. p2 = start + b \<and> k \<le> b \<and> b \<le> k + 2 \<and> b \<le> length (rest_of f start) \<and>
    (\<forall>i. k \<le> i \<and> i < b \<longrightarrow> dig (rest_of f start ! i))"
  using skip_digit_shape [OF assms(1,3,4)]
proof
  assume "k < length (rest_of f start) \<and> dig (rest_of f start ! k) \<and> p1 = start + (k + 1)"
  then have k: "k < length (rest_of f start)" "dig (rest_of f start ! k)" "p1 = start + (k + 1)" by auto
  have "(k + 1 < length (rest_of f start) \<and> dig (rest_of f start ! (k + 1)) \<and> p2 = start + (k + 1 + 1)) \<or>
      (p2 = start + (k + 1) \<and> (k + 1 < length (rest_of f start) \<longrightarrow> \<not> dig (rest_of f start ! (k + 1))))"
    using skip_digit_shape [OF assms(2) [unfolded k(3)] assms(3)] k(1) by simp
  then show ?thesis
  proof (elim disjE)
    assume "k + 1 < length (rest_of f start) \<and> dig (rest_of f start ! (k + 1)) \<and> p2 = start + (k + 1 + 1)"
    then show ?thesis using k by (intro exI [of _ "k + 2"]) (auto simp: less_Suc_eq numeral_2_eq_2)
  next
    assume "p2 = start + (k + 1) \<and> (k + 1 < length (rest_of f start) \<longrightarrow> \<not> dig (rest_of f start ! (k + 1)))"
    then show ?thesis using k by (intro exI [of _ "k + 1"]) (auto simp: less_Suc_eq)
  qed
next
  assume a: "p1 = start + k \<and> (k < length (rest_of f start) \<longrightarrow> \<not> dig (rest_of f start ! k))"
  then have "p2 = start + k" using skip_digit_shape [of f start k p2] assms by auto
  with assms(4) show ?thesis by (intro exI [of _ k]) auto
qed

lemma scanformat_shape:
  assumes "scanformat f start = Inr (form, p)" "start \<le> length f"
  shows "\<exists>a b q. p = start + q \<and> item_shape (rest_of f start) a b q \<and>
    form = CHR ''%'' # take (q + 1) (rest_of f start)"
proof -
  let ?g = "rest_of f start"
  from assms(1) obtain p1 p2 p3 c c' where
    p1: "skip_flags f start = Inr p1" "\<not> p1 - start \<ge> length FLAGS + 1" and
    p2: "skip_digit f p1 = Inr p2" "skip_digit f p2 = Inr p3" and
    c: "rd f p3 = Inr c" and
    p: "(if c = CHR ''.'' then rbind (skip_digit f (p3 + 1)) (skip_digit f) else Inr p3) = Inr p" and
    c': "rd f p = Inr c'" "\<not> dig c'" and
    form: "form = CHR ''%'' # takeWhile (\<lambda>c. c \<noteq> NUL) (take (p - start + 1) (drop start f))"
    by (auto simp: scanformat_def split: if_splits)
  from skip_flags_shape [OF p1(1) assms(2), of 0] obtain a where
    a: "p1 = start + a" "a \<le> length ?g" "\<forall>i < a. ?g ! i \<in> set FLAGS" "a < length ?g \<longrightarrow> ?g ! a \<notin> set FLAGS"
    by auto
  have a5: "a \<le> 5" using p1(2) a(1) by (simp add: FLAGS_def)
  from two_digits [OF p2 [unfolded a(1)] assms(2) a(2)] obtain b where
    b: "p3 = start + b" "a \<le> b" "b \<le> a + 2" "b \<le> length ?g" "\<forall>i. a \<le> i \<and> i < b \<longrightarrow> dig (?g ! i)" by blast
  have c: "c = (if b < length ?g then ?g ! b else NUL)" using c rd_rest [OF assms(2) b(4)] b(1) by simp
  obtain q where q: "p = start + q" "b \<le> q" "q \<le> b + 3" "q \<le> length ?g"
    "if b < length ?g \<and> ?g ! b = CHR ''.'' then b < q \<and> (\<forall>i. b < i \<and> i < q \<longrightarrow> dig (?g ! i)) else q = b"
  proof (cases "c = CHR ''.''")
    case True
    then have dot: "b < length ?g" "?g ! b = CHR ''.''" using c by (auto split: if_splits)
    from p True obtain r where "skip_digit f (p3 + 1) = Inr r" "skip_digit f r = Inr p" by auto
    with b(1) two_digits [of f start "b + 1" r p] assms(2) dot obtain q where
      "p = start + q" "b + 1 \<le> q" "q \<le> b + 3" "q \<le> length ?g" "\<forall>i. b + 1 \<le> i \<and> i < q \<longrightarrow> dig (?g ! i)"
      by (auto simp: add.assoc)
    with dot that [of q] show ?thesis by auto
  next
    case False
    with p b c that [of b] show ?thesis by (auto split: if_splits)
  qed
  have "\<not> dig (?g ! q)" if "q < length ?g"
    using rd_rest [OF assms(2) q(4)] c' q(1) that by simp
  with a5 a(3,4) b(2,3,5) q(2-5) have "item_shape ?g a b q"
    unfolding item_shape_def by (intro conjI; (assumption | simp))
  moreover have "form = CHR ''%'' # take (q + 1) ?g"
    using form q(1) by (simp add: rest_of_def takeWhile_take)
  ultimately show ?thesis using q(1) by blast
qed

subsection \<open>Sizes\<close>

definition spec_small :: "fspec \<Rightarrow> bool" where
  "spec_small sp \<longleftrightarrow> sp_width sp < 100 \<and> (\<forall>p. sp_prec sp = Some p \<longrightarrow> p < 100)"

lemma dec_nat_bound: "\<forall>c \<in> set ds. dig c \<Longrightarrow> length ds \<le> 2 \<Longrightarrow> dec_nat ds < 100"
proof -
  assume d: "\<forall>c \<in> set ds. dig c" and "length ds \<le> 2"
  have dv: "dig c \<Longrightarrow> of_char c - 48 < (10::nat)" for c
    by (simp add: isdigit_def uchar_def) linarith
  consider "ds = []" | x where "ds = [x]" | x y where "ds = [x, y]"
    using \<open>length ds \<le> 2\<close> by (cases ds; cases "tl ds") auto
  then show "dec_nat ds < 100"
  proof cases
    case (3 x y)
    with d dv [of x] dv [of y] show ?thesis by (simp add: dec_nat_def)
  next
    case (2 x)
    with d dv [of x] show ?thesis by (simp add: dec_nat_def)
  qed (simp add: dec_nat_def)
qed

text \<open>
  The directive's own scanner reads the same flags, width and precision, whatever follows the
  scanned part, as long as it is neither a flag, a digit nor a dot where one could still come.
\<close>

lemma parse_spec_small:
  assumes "item_shape g a b q"
    and "rest \<noteq> [] \<Longrightarrow> \<not> dig (hd rest)" "rest \<noteq> [] \<Longrightarrow> a = q \<Longrightarrow> hd rest \<notin> set FLAGS"
      "rest \<noteq> [] \<Longrightarrow> b = q \<Longrightarrow> hd rest \<noteq> CHR ''.''"
  shows "spec_small (parse_spec (x # take q g @ rest)) \<and>
    (CHR ''.'' \<in> set (take q g) \<longrightarrow> sp_prec (parse_spec (x # take q g @ rest)) \<noteq> None)"
proof -
  define F where "F = take q g @ rest"
  from assms(1) have sh: "a \<le> 5" "a \<le> b" "b \<le> a + 2" "b \<le> q" "q \<le> b + 3" "q \<le> length g"
    and flags: "\<forall>i < a. g ! i \<in> set FLAGS" "a < length g \<longrightarrow> g ! a \<notin> set FLAGS"
    and width: "\<forall>i. a \<le> i \<and> i < b \<longrightarrow> dig (g ! i)"
    and prec: "if b < length g \<and> g ! b = CHR ''.'' then b < q \<and> (\<forall>i. b < i \<and> i < q \<longrightarrow> dig (g ! i)) else q = b"
    unfolding item_shape_def by blast+
  have dot: "b < length g \<and> g ! b = CHR ''.'' \<and> (\<forall>i. b < i \<and> i < q \<longrightarrow> dig (g ! i))" if "b < q"
    using prec that by (cases "b < length g \<and> g ! b = CHR ''.''") simp_all
  have len: "length (take q g) = q" using sh by simp
  have qF: "q \<le> length F" using len by (simp add: F_def)
  have nth: "F ! i = g ! i" if "i < q" for i using that len by (simp add: nth_append F_def)
  have at_q: "q < length F \<Longrightarrow> F ! q = hd rest \<and> rest \<noteq> []"
    using len by (auto simp: nth_append hd_conv_nth F_def)
  have fl: "takeWhile (\<lambda>c. c \<in> set FLAGS) F = take a F"
  proof (rule takeWhile_eq_take_P_nth)
    show "F ! i \<in> set FLAGS" if "i < a" for i
      using that sh flags(1) nth [of i] by simp
    show "F ! a \<notin> set FLAGS" if "a < length F"
    proof (cases "a = q")
      case True
      with at_q that assms(3) show ?thesis by simp
    next
      case False
      with sh have "a < q" "a < length g" by simp_all
      with flags(2) nth [of a] show ?thesis by simp
    qed
  qed
  have la: "length (take a F) = a" using sh qF by simp
  let ?w = "takeWhile dig (drop a F)"
  have w: "?w = take (b - a) (drop a F)"
  proof (rule takeWhile_eq_take_P_nth)
    show "dig (drop a F ! i)" if i: "i < b - a" "i < length (drop a F)" for i
    proof -
      have "drop a F ! i = g ! (a + i)" using i sh qF nth [of "a + i"] by (simp add: nth_drop)
      then show ?thesis using width i by simp
    qed
    show "\<not> dig (drop a F ! (b - a))" if i: "b - a < length (drop a F)"
    proof -
      have eq: "drop a F ! (b - a) = F ! b" using sh qF by (simp add: nth_drop)
      show ?thesis
      proof (cases "b = q")
        case True
        with at_q i assms(2) sh eq show ?thesis by simp
      next
        case False
        with sh dot nth [of b] eq show ?thesis by simp
      qed
    qed
  qed
  have lw: "length ?w = b - a" unfolding w using sh qF by simp
  have f2: "drop (length ?w) (drop a F) = drop b F" unfolding lw using sh by simp
  have "dec_nat ?w < 100"
    using lw sh by (intro dec_nat_bound) (auto dest: set_takeWhileD)
  moreover have "dec_nat (takeWhile dig (tl (drop b F))) < 100"
    if d: "drop b F \<noteq> []" "hd (drop b F) = CHR ''.''"
  proof (rule dec_nat_bound)
    have b_at: "b < length F" "F ! b = CHR ''.''" using d by (simp_all add: hd_drop_conv_nth)
    have bq: "b < q"
    proof (rule ccontr)
      assume "\<not> b < q"
      then have "b = q" using sh by simp
      with b_at at_q assms(4) show False by simp
    qed
    have tl: "tl (drop b F) = drop (Suc b) F" by (simp add: tl_drop drop_Suc)
    have "takeWhile dig (drop (Suc b) F) = take (q - Suc b) (drop (Suc b) F)"
    proof (rule takeWhile_eq_take_P_nth)
      show "dig (drop (Suc b) F ! i)" if i: "i < q - Suc b" "i < length (drop (Suc b) F)" for i
      proof -
        have "drop (Suc b) F ! i = g ! (Suc b + i)" using i nth [of "Suc b + i"] by (simp add: nth_drop)
        then show ?thesis using dot [OF bq] i by simp
      qed
      show "\<not> dig (drop (Suc b) F ! (q - Suc b))" if i: "q - Suc b < length (drop (Suc b) F)"
      proof -
        have "drop (Suc b) F ! (q - Suc b) = F ! q" using bq qF by (simp add: nth_drop)
        then show ?thesis using at_q assms(2) i bq by simp
      qed
    qed
    then show "length (takeWhile dig (tl (drop b F))) \<le> 2" unfolding tl using sh by simp
  qed (auto dest: set_takeWhileD)
  moreover have "drop b F \<noteq> [] \<and> hd (drop b F) = CHR ''.''" if dot_in: "CHR ''.'' \<in> set (take q g)"
  proof -
    obtain i where "i < length (take q g)" "take q g ! i = CHR ''.''"
      using dot_in unfolding in_set_conv_nth by blast
    then have i: "i < q" "g ! i = CHR ''.''" by simp_all
    have "\<not> i < a" using flags(1) i(2) by (metis NUL_class(3))
    moreover have "\<not> (a \<le> i \<and> i < b)" using width i(2) by (metis NUL_class(4))
    ultimately have bq: "b < q" using i(1) by simp
    then have "b < length F" using qF by simp
    then show ?thesis using dot [OF bq] nth [OF bq] by (simp add: hd_drop_conv_nth)
  qed
  ultimately show ?thesis
    unfolding F_def [symmetric] spec_small_def parse_spec_def Let_def list.sel(3) fl la f2 by simp
qed

lemma pad_length: "length (pad sp z pre body) \<le> max (sp_width sp) (length pre + length body)"
  by (auto simp: pad_def Let_def)

lemma digits_length: "n < 2 ^ k \<Longrightarrow> length (digits b up n) \<le> k"
proof (induction b up n arbitrary: k rule: digits.induct)
  case (1 b up n)
  show ?case
  proof (cases "n = 0 \<or> b < 2")
    case True
    then show ?thesis by (simp add: digits.simps [of b up n])
  next
    case False
    then obtain j where k: "k = Suc j" using "1.prems" by (cases k) auto
    have "n div b \<le> n div 2" using False by (intro div_le_mono2) auto
    also have "n div 2 < 2 ^ j" using "1.prems" k by simp
    finally have "length (digits b up (n div b)) \<le> j" by (rule "1.IH" [OF False])
    with False k show ?thesis by (simp add: digits.simps [of b up n])
  qed
qed

lemma int_digits_length:
  assumes "spec_small sp" "n < 2 ^ 64" shows "length (int_digits sp b up n) < 165"
  using digits_length [OF assms(2), of b up] assms(1)
  by (auto simp: int_digits_def Let_def spec_small_def split: option.splits)

text \<open>The undefined conversions that a script can still ask for.\<close>

definition fmt_ok :: "'a res \<Rightarrow> bool" where
  "fmt_ok r \<longleftrightarrow> (\<forall>u. r = Inl (UB u) \<longrightarrow> u \<in> {''sprintf flags'', ''double to int'', ''double to ptrdiff_t'',
     ''double to unsigned long''})"

lemma fmt_ok_bind: "fmt_ok m \<Longrightarrow> (\<And>a. m = Inr a \<Longrightarrow> fmt_ok (f a)) \<Longrightarrow> fmt_ok (rbind m f)"
  by (cases m) (auto simp: fmt_ok_def)

lemma fmt_ok_simps [simp]: "fmt_ok (Inr a)" "fmt_ok (run_error m)" "fmt_ok (rmap f r) = fmt_ok r"
  by (auto simp: fmt_ok_def run_error_def) (cases r; auto)+

lemma fmt_ok_safe: "\<not> is_UB r \<Longrightarrow> fmt_ok r"
  by (cases r) (auto simp: fmt_ok_def)

lemma fmt_ok_item: "fmt_ok r \<Longrightarrow> (\<And>t. r = Inr t \<Longrightarrow> length t < MAX_ITEM) \<Longrightarrow> fmt_ok (item r)"
  unfolding item_def by (intro fmt_ok_bind) auto

lemma item_bounds:
  assumes "spec_small (parse_spec form)"
  shows "sprintf_char form c = Inr t \<Longrightarrow> length t < MAX_ITEM"
    and "\<bar>n\<bar> < 2 ^ 64 \<Longrightarrow> sprintf_signed form n = Inr t \<Longrightarrow> length t < MAX_ITEM"
    and "n < 2 ^ 64 \<Longrightarrow> sprintf_unsigned form conv n = Inr t \<Longrightarrow> length t < MAX_ITEM"
    and "sp_prec (parse_spec form) \<noteq> None \<or> length s < 100 \<Longrightarrow>
      sprintf_string form s = Inr t \<Longrightarrow> length t < MAX_ITEM"
proof -
  let ?sp = "parse_spec form"
  have pad: "length (pad ?sp z pre body) < MAX_ITEM" if "length pre + length body < MAX_ITEM" for z pre body
    using pad_length [of ?sp z pre body] that assms
    by (auto simp: spec_small_def MAX_ITEM_def max_def split: if_splits)
  show "sprintf_char form c = Inr t \<Longrightarrow> length t < MAX_ITEM"
    by (auto simp: sprintf_char_def Let_def MAX_ITEM_def intro!: pad [unfolded MAX_ITEM_def] split: if_splits)
  have nat64: "nat k < 2 ^ 64" if "k < 2 ^ 64" for k :: int using that by (simp add: nat_less_iff)
  have int_lt: "length pre + length (int_digits ?sp b up (nat k)) < MAX_ITEM"
    "length pre + length (CHR ''0'' # int_digits ?sp b up (nat k)) < MAX_ITEM"
    if "k < 2 ^ 64" "length pre < 3" for k b up and pre :: string
    using int_digits_length [OF assms nat64 [OF that(1)], of b up] that(2) by (simp_all add: MAX_ITEM_def)
  have int_lt0: "length (int_digits ?sp b up 0) < MAX_ITEM" for b up
    using int_digits_length [OF assms, of 0 b up] by (simp add: MAX_ITEM_def)
  show "length t < MAX_ITEM" if "\<bar>n\<bar> < 2 ^ 64" "sprintf_signed form n = Inr t"
    using that by (auto simp: sprintf_signed_def Let_def intro!: pad int_lt split: if_splits)
  show "length t < MAX_ITEM" if "n < 2 ^ 64" "sprintf_unsigned form conv n = Inr t"
    using that by (auto simp: sprintf_unsigned_def Let_def intro!: pad int_lt int_lt0 split: if_splits)
  show "length t < MAX_ITEM" if "sp_prec ?sp \<noteq> None \<or> length s < 100" "sprintf_string form s = Inr t"
  proof -
    have "length (cstr s) \<le> length s" by (simp add: cstr_def length_takeWhile_le)
    then have "length (case sp_prec ?sp of None \<Rightarrow> cstr s | Some p \<Rightarrow> take p (cstr s)) < MAX_ITEM"
      using that(1) assms by (auto simp: spec_small_def MAX_ITEM_def split: option.splits)
    then show ?thesis using that(2) pad by (auto simp: sprintf_string_def Let_def split: if_splits)
  qed
qed

definition format_env_ok :: "format_env \<Rightarrow> bool" where
  "format_env_ok env \<longleftrightarrow> (\<forall>i. \<not> is_UB (checknumber env i)) \<and> (\<forall>i. \<not> is_UB (checklstring env i)) \<and>
     (\<forall>form d. spec_small (parse_spec form) \<longrightarrow> length (sprintf_float env form d) < MAX_ITEM)"

lemma trunc_range:
  "lua_number2integer d = Inr k \<Longrightarrow> \<bar>k\<bar> < 2 ^ 64" "number2unsigned d = Inr k \<Longrightarrow> k < 2 ^ 64"
  by (auto simp: lua_number2integer_def number2unsigned_def split: option.splits if_splits)

lemma sprintf_fmt_ok [simp]:
  "fmt_ok (sprintf_char form c)" "fmt_ok (sprintf_signed form n)" "fmt_ok (sprintf_unsigned form conv n)"
  "fmt_ok (sprintf_string form t)" "fmt_ok (lua_number2int d)" "fmt_ok (lua_number2integer d)"
  "fmt_ok (number2unsigned d)"
  by (auto simp: sprintf_char_def sprintf_signed_def sprintf_unsigned_def sprintf_string_def Let_def
      lua_number2int_def lua_number2integer_def number2unsigned_def fmt_ok_def split: option.splits)

lemma item_shapeD:
  assumes "item_shape g a b q"
  shows "q \<le> length g" "q \<le> 10" "q < length g \<Longrightarrow> \<not> dig (g ! q)" "a = q \<Longrightarrow> q < length g \<Longrightarrow> g ! q \<notin> set FLAGS"
    "b = q \<Longrightarrow> q < length g \<Longrightarrow> g ! q \<noteq> CHR ''.''"
proof -
  note sh = assms [unfolded item_shape_def]
  show "q \<le> length g" using sh by blast
  have "a \<le> 5" "b \<le> a + 2" "q \<le> b + 3" using sh by blast+
  then show "q \<le> 10" by simp
  show "q < length g \<Longrightarrow> \<not> dig (g ! q)" using sh by blast
  have "a < length g \<longrightarrow> g ! a \<notin> set FLAGS" using sh by blast
  then show "a = q \<Longrightarrow> q < length g \<Longrightarrow> g ! q \<notin> set FLAGS" by simp
  have dot: "if b < length g \<and> g ! b = CHR ''.'' then b < q \<and> (\<forall>i. b < i \<and> i < q \<longrightarrow> dig (g ! i)) else q = b"
    using sh by blast
  show "g ! q \<noteq> CHR ''.''" if bq: "b = q" and lt: "q < length g"
  proof
    assume "g ! q = CHR ''.''"
    with lt have "b < length g \<and> g ! b = CHR ''.''" unfolding bq by simp
    from dot [unfolded if_P [OF this]] have "b < q" by (rule conjunct1)
    with bq show False by simp
  qed
qed

text \<open>The buffer that \<open>scanformat\<close> fills, with and without the length modifier.\<close>

lemma scanned_form:
  assumes "scanformat f start = Inr (form, p)" "start \<le> length f" "rd f p = Inr conv"
  shows "spec_small (parse_spec form)" "CHR ''.'' \<in> set form \<Longrightarrow> conv \<noteq> CHR ''.'' \<Longrightarrow> sp_prec (parse_spec form) \<noteq> None"
    and "conv \<noteq> NUL \<Longrightarrow> conv \<notin> set FLAGS \<Longrightarrow> conv \<noteq> CHR ''.'' \<Longrightarrow>
      \<exists>form'. addintlen form = Inr form' \<and> spec_small (parse_spec form')"
proof -
  let ?g = "rest_of f start"
  from scanformat_shape [OF assms(1,2)] obtain a b q where
    q: "p = start + q" "item_shape ?g a b q" "form = CHR ''%'' # take (q + 1) ?g" by blast
  have le: "q \<le> length ?g" "q \<le> 10" using item_shapeD(1,2) [OF q(2)] .
  have conv: "conv = (if q < length ?g then ?g ! q else NUL)"
    using assms(3) rd_rest [OF assms(2) le(1)] q(1) by simp
  have shape: "\<not> dig (?g ! q)" "a = q \<Longrightarrow> ?g ! q \<notin> set FLAGS" "b = q \<Longrightarrow> ?g ! q \<noteq> CHR ''.''"
    if "q < length ?g"
    using item_shapeD [OF q(2)] that by blast+
  obtain rest where rest: "take (q + 1) ?g = take q ?g @ rest"
    "rest = (if q < length ?g then [conv] else [])"
    using conv by (cases "q < length ?g") (simp_all add: take_Suc_conv_app_nth)
  have "spec_small (parse_spec (CHR ''%'' # take q ?g @ rest)) \<and>
      (CHR ''.'' \<in> set (take q ?g) \<longrightarrow> sp_prec (parse_spec (CHR ''%'' # take q ?g @ rest)) \<noteq> None)"
    by (rule parse_spec_small [OF q(2)]) (use rest(2) conv shape in \<open>auto split: if_splits\<close>)
  then show "spec_small (parse_spec form)"
    "CHR ''.'' \<in> set form \<Longrightarrow> conv \<noteq> CHR ''.'' \<Longrightarrow> sp_prec (parse_spec form) \<noteq> None"
    using q(3) rest by (auto split: if_splits)
  assume nz: "conv \<noteq> NUL" "conv \<notin> set FLAGS" "conv \<noteq> CHR ''.''"
  then have lt: "q < length ?g" using conv by (auto split: if_splits)
  then have form: "form = (CHR ''%'' # take q ?g) @ [conv]" using q(3) rest by simp
  have "addintlen form = Inr ((CHR ''%'' # take q ?g) @ LUA_INTFRMLEN @ [conv])"
    unfolding addintlen_def form Let_def
    using le by (simp add: MAX_FORMAT_def FLAGS_def LUA_INTFRMLEN_def)
  moreover have "spec_small (parse_spec (CHR ''%'' # take q ?g @ LUA_INTFRMLEN @ [conv]))"
    by (rule parse_spec_small [OF q(2), THEN conjunct1])
      (simp_all add: LUA_INTFRMLEN_def isdigit_def uchar_def FLAGS_def)
  ultimately show "\<exists>form'. addintlen form = Inr form' \<and> spec_small (parse_spec form')" by simp
qed

lemma scanformat_fmt_ok: "start \<le> length f \<Longrightarrow> fmt_ok (scanformat f start)"
proof (rule ccontr)
  assume start: "start \<le> length f" and bad: "\<not> fmt_ok (scanformat f start)"
  have flags: "\<not> is_UB (skip_flags f p)" if "p \<le> length f" for p
    using that
  proof (induction f p rule: skip_flags.induct)
    case (1 f p)
    show ?case
      unfolding skip_flags.simps [of f p]
      by (intro not_UB_rbind not_UB_if) (use 1 in \<open>auto dest: rd_nonzero\<close>)
  qed
  have digit: "\<not> is_UB (skip_digit f p)" if "p \<le> length f" for p
    using that by (auto simp: skip_digit_def is_UB_rbind)
  have small: "p5 - start + 1 \<le> 11"
    if p: "skip_flags f start = Inr p1" "\<not> p1 - start \<ge> length FLAGS + 1" "skip_digit f p1 = Inr p2"
      "skip_digit f p2 = Inr p3" "(if c = CHR ''.'' then rbind (skip_digit f (p3 + 1)) (skip_digit f) else Inr p3) = Inr p5"
    for p1 p2 p3 p5 c
  proof -
    have "p3 \<le> p1 + 2" "start \<le> p1"
      using skip_digit_bound [OF p(3)] skip_digit_bound [OF p(4)] skip_flags_bound [OF p(1)] by auto
    moreover have "p5 \<le> p3 + 3" using p(5) by (auto split: if_splits dest!: skip_digit_bound)
    moreover have "p1 \<le> start + 5" using p(2) by (simp add: FLAGS_def)
    ultimately show ?thesis by simp
  qed
  have "\<not> is_UB (scanformat f start)"
    unfolding scanformat_def
  proof (intro not_UB_rbind not_UB_if flags start)
    fix p1 p2 p3 c p5 c'
    assume "skip_flags f start = Inr p1" "\<not> length FLAGS + 1 \<le> p1 - start" "skip_digit f p1 = Inr p2"
      "skip_digit f p2 = Inr p3"
      "(if c = CHR ''.'' then rbind (skip_digit f (p3 + 1)) (skip_digit f) else Inr p3) = Inr p5"
      "\<not> 1 + (p5 - start + 1) + 1 \<le> MAX_FORMAT"
    with small show "\<not> is_UB (Inl (UB ''form buffer'') :: (string \<times> nat) res)"
      by (fastforce simp: MAX_FORMAT_def FLAGS_def LUA_INTFRMLEN_def)
  qed (auto dest!: skip_flags_bound skip_digit_bound rd_nonzero simp: digit split: if_splits)
  with bad show False using fmt_ok_safe by blast
qed

lemma format_item_ok:
  assumes "format_env_ok env" "scanformat f start = Inr (form, p)" "start \<le> length f" "rd f p = Inr conv"
  shows "fmt_ok (format_item env arg form conv)"
proof -
  note small = scanned_form(1) [OF assms(2-4)]
  have num: "fmt_ok (checknumber env i)" and str: "fmt_ok (checklstring env i)" for i
    using assms(1) by (simp_all add: format_env_ok_def fmt_ok_safe)
  have fl: "length (sprintf_float env form d) < MAX_ITEM" for d
    using assms(1) small by (simp add: format_env_ok_def)
  have charc: "fmt_ok (item (rbind (checknumber env arg) (\<lambda>d. rbind (lua_number2int d) (sprintf_char form))))"
    by (intro fmt_ok_item fmt_ok_bind num) (auto dest: item_bounds(1) [OF small])
  have floats: "fmt_ok (item (rmap (sprintf_float env form) (checknumber env arg)))"
    by (intro fmt_ok_item) (use num fl in \<open>auto simp: rmap_Inr_iff\<close>)
  have ints: "fmt_ok (rbind (addintlen form) (\<lambda>form. item (rbind (checknumber env arg)
        (\<lambda>d. rbind (lua_number2integer d) (sprintf_signed form)))))"
    "fmt_ok (rbind (addintlen form) (\<lambda>form. item (rbind (checknumber env arg)
        (\<lambda>d. rbind (number2unsigned d) (sprintf_unsigned form conv)))))"
    if nz: "conv \<noteq> NUL" "conv \<notin> set FLAGS" "conv \<noteq> CHR ''.''"
  proof -
    obtain form' where f: "addintlen form = Inr form'" "spec_small (parse_spec form')"
      using scanned_form(3) [OF assms(2-4) nz] by blast
    have "fmt_ok (item (rbind (checknumber env arg) (\<lambda>d. rbind (lua_number2integer d) (sprintf_signed form'))))"
      by (intro fmt_ok_item fmt_ok_bind num) (auto dest!: trunc_range(1) item_bounds(2) [OF f(2)])
    moreover have "fmt_ok (item (rbind (checknumber env arg) (\<lambda>d. rbind (number2unsigned d) (sprintf_unsigned form' conv))))"
      by (intro fmt_ok_item fmt_ok_bind num) (auto dest!: trunc_range(2) item_bounds(3) [OF f(2)])
    ultimately show
      "fmt_ok (rbind (addintlen form) (\<lambda>form. item (rbind (checknumber env arg)
        (\<lambda>d. rbind (lua_number2integer d) (sprintf_signed form)))))"
      "fmt_ok (rbind (addintlen form) (\<lambda>form. item (rbind (checknumber env arg)
        (\<lambda>d. rbind (number2unsigned d) (sprintf_unsigned form conv)))))"
      by (simp_all add: f(1))
  qed
  have strs: "fmt_ok (rbind (checklstring env arg) (\<lambda>s.
        if CHR ''.'' \<notin> set form \<and> length s \<ge> 100 then Inr s else item (sprintf_string form s)))"
    if "conv = CHR ''s''"
  proof (intro fmt_ok_bind str)
    fix s assume "checklstring env arg = Inr s"
    show "fmt_ok (if CHR ''.'' \<notin> set form \<and> length s \<ge> 100 then Inr s else item (sprintf_string form s))"
    proof (cases "CHR ''.'' \<notin> set form \<and> length s \<ge> 100")
      case False
      have d: "sp_prec (parse_spec form) \<noteq> None \<or> length s < 100"
        using False scanned_form(2) [OF assms(2-4)] that by auto
      have "fmt_ok (item (sprintf_string form s))"
        by (intro fmt_ok_item item_bounds(4) [OF small d]) simp_all
      with False show ?thesis by simp
    qed simp
  qed
  consider "conv = CHR ''c''" | "conv = CHR ''d'' \<or> conv = CHR ''i''" | "conv \<in> set ''ouxX''"
    | "conv \<in> set ''eEfgG''" | "conv = CHR ''q''" | "conv = CHR ''s''"
    | "conv \<notin> set ''cdiouxXeEfgGqs''" by auto
  then show ?thesis
  proof cases
    case 1 then show ?thesis unfolding format_item_def using charc by simp
  next
    case 2
    then have "conv \<noteq> NUL" "conv \<notin> set FLAGS" "conv \<noteq> CHR ''.''" by (auto simp: FLAGS_def)
    with 2 show ?thesis unfolding format_item_def using ints(1) by auto
  next
    case 3
    then have "conv \<noteq> NUL" "conv \<notin> set FLAGS" "conv \<noteq> CHR ''.''" by (auto simp: FLAGS_def)
    with 3 show ?thesis unfolding format_item_def using ints(2) by auto
  next
    case 4 then show ?thesis unfolding format_item_def using floats by auto
  next
    case 5 then show ?thesis unfolding format_item_def using str by simp
  next
    case 6 then show ?thesis unfolding format_item_def using strs by simp
  next
    case 7 then show ?thesis unfolding format_item_def by simp
  qed
qed

text \<open>
  C14. \<open>string.format\<close> never reads past its format or overruns its two stack
  buffers, for any format and arguments: the only undefined behaviour that is left is an argument out of the range of
  its integer type, or a flag combination that C leaves undefined. The floating point
  conversions of the C library are assumed to give fewer than \<open>MAX_ITEM\<close> characters for a width and a precision of two digits.
\<close>

theorem str_format_safe:
  assumes "format_env_ok env"
  shows "str_format env f = Inl (UB u) \<Longrightarrow>
    u \<in> {''sprintf flags'', ''double to int'', ''double to ptrdiff_t'', ''double to unsigned long''}"
proof -
  have "fmt_ok (str_format_loop env f i arg)" for i arg
    using assms
  proof (induction env f i arg rule: str_format_loop.induct)
    case (1 env f i arg)
    show ?case
    proof (cases "i < length f")
      case True
      note i = this
      have rd: "rd f i = Inr (f ! i)" using i by (rule rd_less)
      show ?thesis
        unfolding str_format_loop.simps [of env f i arg] rd if_P [OF i] rbind_simps
      proof (cases "f ! i \<noteq> L_ESC")
        case True
        with "1.IH"(1) [OF i rd True] "1.prems"
        show "fmt_ok (if f ! i \<noteq> L_ESC then rmap ((#) (f ! i)) (str_format_loop env f (i + 1) arg)
          else rbind (rd f (i + 1)) (\<lambda>c1. if c1 = L_ESC then rmap ((#) c1) (str_format_loop env f (i + 2) arg)
            else rbind (scanformat f (i + 1)) (\<lambda>(form, p). rbind (rd f p) (\<lambda>conv.
              rbind (format_item env (arg + 1) form conv) (\<lambda>t. rmap ((@) t) (str_format_loop env f (p + 1) (arg + 1)))))))"
          by simp
      next
        case False
        then have esc: "\<not> f ! i \<noteq> L_ESC" by simp
        have le: "i + 1 \<le> length f" using i by simp
        obtain c1 where c1: "rd f (i + 1) = Inr c1" using rd_res [OF le] by blast
        have items: "fmt_ok (rbind (scanformat f (i + 1)) (\<lambda>(form, p). rbind (rd f p) (\<lambda>conv.
              rbind (format_item env (arg + 1) form conv) (\<lambda>t. rmap ((@) t) (str_format_loop env f (p + 1) (arg + 1))))))"
          if ne: "c1 \<noteq> L_ESC"
        proof (intro fmt_ok_bind scanformat_fmt_ok le)
          fix fp assume fp: "scanformat f (i + 1) = Inr fp"
          obtain form p where eq: "fp = (form, p)" by (cases fp)
          note sc = fp [unfolded eq]
          have p: "p \<le> length f" using scanformat_bound [OF sc] by simp
          have "fmt_ok (rbind (rd f p) (\<lambda>conv. rbind (format_item env (arg + 1) form conv)
              (\<lambda>t. rmap ((@) t) (str_format_loop env f (p + 1) (arg + 1)))))"
          proof (intro fmt_ok_bind)
            show "fmt_ok (rd f p)" using p by (intro fmt_ok_safe) simp
            fix conv assume conv: "rd f p = Inr conv"
            show "fmt_ok (format_item env (arg + 1) form conv)"
              by (rule format_item_ok [OF "1.prems" sc le conv])
            fix t assume "format_item env (arg + 1) form conv = Inr t"
            then show "fmt_ok (rmap ((@) t) (str_format_loop env f (p + 1) (arg + 1)))"
              using "1.IH"(3) [OF i rd esc c1 ne fp eq [symmetric] conv] "1.prems" by simp
          qed
          then show "fmt_ok (case fp of (form, p) \<Rightarrow> rbind (rd f p) (\<lambda>conv. rbind (format_item env (arg + 1) form conv)
              (\<lambda>t. rmap ((@) t) (str_format_loop env f (p + 1) (arg + 1)))))" by (simp add: eq)
        qed
        show "fmt_ok (if f ! i \<noteq> L_ESC then rmap ((#) (f ! i)) (str_format_loop env f (i + 1) arg)
          else rbind (rd f (i + 1)) (\<lambda>c1. if c1 = L_ESC then rmap ((#) c1) (str_format_loop env f (i + 2) arg)
            else rbind (scanformat f (i + 1)) (\<lambda>(form, p). rbind (rd f p) (\<lambda>conv.
              rbind (format_item env (arg + 1) form conv) (\<lambda>t. rmap ((@) t) (str_format_loop env f (p + 1) (arg + 1)))))))"
          unfolding if_not_P [OF esc] c1 rbind_simps
          using items "1.IH"(2) [OF i rd esc c1] "1.prems" by (cases "c1 = L_ESC") simp_all
      qed
    qed (simp add: str_format_loop.simps [of env f i arg])
  qed
  then show "str_format env f = Inl (UB u) \<Longrightarrow>
    u \<in> {''sprintf flags'', ''double to int'', ''double to ptrdiff_t'', ''double to unsigned long''}"
    by (auto simp: str_format_def fmt_ok_def)
qed

definition demo_format_env :: format_env where
  "demo_format_env = \<lparr>checknumber = (\<lambda>_. Inr (dbl_of_int 42)), checklstring = (\<lambda>_. Inr ''abc''),
     sprintf_float = (\<lambda>_ _. ''42.0'')\<rparr>"

theorem str_format_safe_witness:
  "str_format demo_format_env ''%5d|%-6s|%#d'' = Inl (UB ''sprintf flags'') \<and>
   str_format demo_format_env ''%05d|%.2s|%q'' = Inr (''00042|ab|'' @ [CHR 0x22] @ ''abc'' @ [CHR 0x22]) \<and>
   ''sprintf flags'' \<in> {''sprintf flags'', ''double to int'', ''double to ptrdiff_t'', ''double to unsigned long''}"
proof (intro conjI)
  show ub: "str_format demo_format_env ''%5d|%-6s|%#d'' = Inl (UB ''sprintf flags'')" by code_simp
  show "str_format demo_format_env ''%05d|%.2s|%q'' = Inr (''00042|ab|'' @ [CHR 0x22] @ ''abc'' @ [CHR 0x22])"
    by code_simp
  have "format_env_ok demo_format_env" by (simp add: format_env_ok_def demo_format_env_def MAX_ITEM_def)
  then show "''sprintf flags'' \<in> {''sprintf flags'', ''double to int'', ''double to ptrdiff_t'', ''double to unsigned long''}"
    by (rule str_format_safe [OF _ ub])
qed

end
