(* ===== verification/Zio.thy ===== *)
theory Zio
  imports Ctype Objects
begin

text \<open>
  \<open>lua/lzio.c\<close> and the macros of \<open>lua/lzio.h\<close>: the buffered input stream. The reader of
  the client is the list of the blocks it will return; an empty block is its end of file.
  \<open>zn\<close> is the count of unread bytes as the code keeps it, a \<open>size_t\<close> that \<open>zgetc\<close> decrements
  even when it is zero, and \<open>zp\<close> are the bytes from the current position to the end of the block.
\<close>

record ZIO =
  zn :: nat
  zp :: "byte list"
  zreader :: "byte list list"

definition EOZ :: int where "EOZ = - 1"

definition luaZ_init :: "byte list list \<Rightarrow> ZIO" where
  "luaZ_init reader = \<lparr>zn = 0, zp = [], zreader = reader\<rparr>"

text \<open>The largest \<open>size_t\<close>; it has no code equation, as a unary number it would not evaluate.\<close>

definition SIZE_MAX :: nat where [code del]: "SIZE_MAX = 2 ^ 64 - 1"

definition luaZ_fill :: "ZIO \<Rightarrow> int \<times> ZIO" where
  "luaZ_fill z =
     (case zreader z of
        [] \<Rightarrow> (EOZ, z)
      | buff # rest \<Rightarrow>
          (case buff of
             [] \<Rightarrow> (EOZ, z\<lparr>zreader := rest\<rparr>)
           | c # p \<Rightarrow> (uint c, \<lparr>zn = length buff - 1, zp = p, zreader = rest\<rparr>)))"

definition zgetc :: "ZIO \<Rightarrow> (int \<times> ZIO) res" where
  "zgetc z =
     (if zn z > 0 then
        (case zp z of
           [] \<Rightarrow> Inl (UB ''read past the block'')
         | c # p \<Rightarrow> Inr (uint c, z\<lparr>zn := zn z - 1, zp := p\<rparr>))
      else Inr (luaZ_fill (z\<lparr>zn := SIZE_MAX\<rparr>)))"

text \<open>\<open>luaZ_lookahead\<close> puts the byte that \<open>luaZ_fill\<close> consumed back.\<close>

definition luaZ_lookahead :: "ZIO \<Rightarrow> (int \<times> ZIO) res" where
  "luaZ_lookahead z =
     (if zn z = 0 then
        (case luaZ_fill z of (c, z) \<Rightarrow>
           if c = EOZ then Inr (EOZ, z)
           else Inr (c, z\<lparr>zn := zn z + 1, zp := word_of_int c # zp z\<rparr>))
      else (case zp z of [] \<Rightarrow> Inl (UB ''read past the block'') | c # p \<Rightarrow> Inr (uint c, z)))"

lemma byte_range: "0 \<le> uint (c :: byte)" "uint (c :: byte) < 256"
  using unsigned_less [of c] by simp_all

lemma uint_not_EOZ [simp]: "uint (c :: byte) \<noteq> - 1" "uint (c :: byte) \<noteq> EOZ"
  using byte_range(1) [of c] unfolding EOZ_def by linarith+

text \<open>\<open>luaZ_read\<close> returns the bytes it copied and the number of missing ones.\<close>

lemma lookahead_measure:
  "luaZ_lookahead z = Inr (c, z') \<Longrightarrow> c \<noteq> EOZ \<Longrightarrow> 0 < zn z' \<and> zp z' \<noteq> []"
  by (auto simp: luaZ_lookahead_def luaZ_fill_def EOZ_def split: if_splits list.splits)

function luaZ_read :: "ZIO \<Rightarrow> nat \<Rightarrow> (byte list \<times> nat \<times> ZIO) res" where
  "luaZ_read z n =
     (if n = 0 then Inr ([], 0, z)
      else
        rbind (luaZ_lookahead z) (\<lambda>(c, z).
        if c = EOZ then Inr ([], n, z)
        else
          let m = (if n \<le> zn z then n else zn z) in
          if m \<le> length (zp z) then
            rmap (\<lambda>(bs, k, z'). (take m (zp z) @ bs, k, z'))
              (luaZ_read (z\<lparr>zn := zn z - m, zp := drop m (zp z)\<rparr>) (n - m))
          else Inl (UB ''memcpy'')))"
  by pat_completeness auto
termination
  by (relation "measure (\<lambda>(z, n). n)") (auto dest: lookahead_measure)

declare luaZ_read.simps [simp del]

subsection \<open>The buffer of the lexer and of the loader\<close>

text \<open>\<open>n\<close> is \<open>bcontents\<close>, the bytes saved so far; \<open>buffsize\<close> the allocated size.\<close>

record Mbuffer =
  bcontents :: string
  buffsize :: nat

definition LUA_MINBUFFER :: nat where "LUA_MINBUFFER = 32"

definition luaZ_resizebuffer :: "Mbuffer \<Rightarrow> nat \<Rightarrow> Mbuffer" where
  "luaZ_resizebuffer b n = b\<lparr>buffsize := n\<rparr>"

definition luaZ_openspace :: "Mbuffer \<Rightarrow> nat \<Rightarrow> Mbuffer" where
  "luaZ_openspace b n =
     (if n > buffsize b then luaZ_resizebuffer b (if n < LUA_MINBUFFER then LUA_MINBUFFER else n) else b)"

definition luaZ_resetbuffer :: "Mbuffer \<Rightarrow> Mbuffer" where
  "luaZ_resetbuffer b = b\<lparr>bcontents := []\<rparr>"

subsection \<open>The contract of a byte source\<close>

text \<open>
  What the lexer and the loader rely on: \<open>bytes\<close> is what is still to come. Reading
  \<open>n\<close> bytes gives the first \<open>n\<close> of them, or all of them and the number that is missing.
\<close>

locale byte_source =
  fixes get :: "'z \<Rightarrow> (int \<times> 'z) res"
    and rdn :: "'z \<Rightarrow> nat \<Rightarrow> (byte list \<times> nat \<times> 'z) res"
    and bytes :: "'z \<Rightarrow> byte list"
    and inv :: "'z \<Rightarrow> bool"
  assumes get_some: "inv z \<Longrightarrow> bytes z = c # bs \<Longrightarrow> \<exists>z'. get z = Inr (uint c, z') \<and> bytes z' = bs \<and> inv z'"
    and get_end: "inv z \<Longrightarrow> bytes z = [] \<Longrightarrow> \<exists>z'. get z = Inr (- 1, z')"
    and rdn_all: "inv z \<Longrightarrow> \<exists>z'. rdn z n = Inr (take n (bytes z), n - length (bytes z), z') \<and>
      (n \<le> length (bytes z) \<longrightarrow> bytes z' = drop n (bytes z) \<and> inv z')"
begin

lemma read_block:
  "inv z \<Longrightarrow> bytes z = bs @ rest \<Longrightarrow> \<exists>z'. rdn z (length bs) = Inr (bs, 0, z') \<and> bytes z' = rest \<and> inv z'"
  using rdn_all [of z "length bs"] by auto

lemma read_safe: "inv z \<Longrightarrow> \<not> is_UB (rdn z n)"
  using rdn_all [of z n] by auto

lemma get_safe: "inv z \<Longrightarrow> \<not> is_UB (get z)"
  using get_some [of z] get_end [of z] by (cases "bytes z") fastforce+

lemma get_value:
  assumes "inv z" "get z = Inr (c, z')"
  shows "(c = - 1 \<and> bytes z = []) \<or> (0 \<le> c \<and> c < 256 \<and> inv z' \<and> length (bytes z') < length (bytes z))"
proof (cases "bytes z")
  case Nil
  with get_end [OF assms(1)] assms(2) show ?thesis by auto
next
  case (Cons d bs)
  with get_some [OF assms(1)] assms(2) byte_range [of d] show ?thesis by auto
qed

end

definition zbytes :: "ZIO \<Rightarrow> byte list" where
  "zbytes z = zp z @ concat (takeWhile (\<lambda>b. b \<noteq> []) (zreader z))"

definition zinv :: "ZIO \<Rightarrow> bool" where
  "zinv z \<longleftrightarrow> zn z = length (zp z)"

lemma zinv_init [simp]: "zinv (luaZ_init bs)"
  by (simp add: zinv_def luaZ_init_def)

lemma zbytes_init [simp]: "zbytes (luaZ_init bs) = concat (takeWhile (\<lambda>b. b \<noteq> []) bs)"
  by (simp add: zbytes_def luaZ_init_def)

lemma lookahead_spec:
  assumes "zinv z"
  shows "\<exists>z'. luaZ_lookahead z = Inr (case zbytes z of [] \<Rightarrow> EOZ | c # _ \<Rightarrow> uint c, z') \<and>
    (zbytes z \<noteq> [] \<longrightarrow> zbytes z' = zbytes z \<and> zinv z' \<and> 0 < zn z')"
  using assms
  by (cases "zp z"; cases "zreader z"; cases "hd (zreader z)")
     (auto simp: luaZ_lookahead_def zinv_def zbytes_def luaZ_fill_def EOZ_def)

lemma luaZ_read_spec:
  "zinv z \<Longrightarrow> \<exists>z'. luaZ_read z n = Inr (take n (zbytes z), n - length (zbytes z), z') \<and>
     (n \<le> length (zbytes z) \<longrightarrow> zbytes z' = drop n (zbytes z) \<and> zinv z')"
proof (induction z n rule: luaZ_read.induct)
  case (1 z n)
  show ?case
  proof (cases "n = 0")
    case True
    with "1.prems" show ?thesis by (simp add: luaZ_read.simps [of z 0])
  next
    case n: False
    obtain z1 where z1: "luaZ_lookahead z = Inr (case zbytes z of [] \<Rightarrow> EOZ | c # _ \<Rightarrow> uint c, z1)"
      "zbytes z \<noteq> [] \<longrightarrow> zbytes z1 = zbytes z \<and> zinv z1 \<and> 0 < zn z1"
      using lookahead_spec [OF "1.prems"] by blast
    show ?thesis
    proof (cases "zbytes z")
      case Nil
      with z1 n show ?thesis by (simp add: luaZ_read.simps [of z n])
    next
      case (Cons c cs)
      then have b: "zbytes z1 = zbytes z" "zn z1 = length (zp z1)" "0 < zn z1" "0 < length (zp z1)"
        using z1 by (auto simp: zinv_def)
      define m where "m = (if n \<le> zn z1 then n else zn z1)"
      let ?z = "z1\<lparr>zn := zn z1 - m, zp := drop m (zp z1)\<rparr>"
      have m: "m \<le> length (zp z1)" "0 < m" "m \<le> n" using b n by (simp_all add: m_def)
      have split: "zbytes z = take m (zp z1) @ zbytes ?z"
        using b(1) m(1) by (simp add: zbytes_def append_assoc [symmetric])
      have "zinv ?z" using b m by (simp add: zinv_def)
      then obtain z' where z': "luaZ_read ?z (n - m) = Inr (take (n - m) (zbytes ?z), n - m - length (zbytes ?z), z')"
        "n - m \<le> length (zbytes ?z) \<longrightarrow> zbytes z' = drop (n - m) (zbytes ?z) \<and> zinv z'"
        using "1.IH" [OF n z1(1) refl _ m_def m(1)] Cons uint_not_EOZ by fastforce
      have "luaZ_read z n = Inr (take m (zp z1) @ take (n - m) (zbytes ?z), n - m - length (zbytes ?z), z')"
        using z1(1) Cons n m(1) z'(1) uint_not_EOZ
        by (simp add: luaZ_read.simps [of z n] m_def [symmetric] Let_def)
      with z'(2) m split show ?thesis by (auto simp: min_def)
    qed
  qed
qed

lemma luaZ_fill_spec:
  "zp z = [] \<Longrightarrow> case zbytes z of
     [] \<Rightarrow> fst (luaZ_fill z) = - 1
   | c # bs \<Rightarrow> fst (luaZ_fill z) = uint c \<and> zbytes (snd (luaZ_fill z)) = bs \<and> zinv (snd (luaZ_fill z))"
  by (auto simp: luaZ_fill_def zbytes_def zinv_def EOZ_def split: list.split)

lemma zgetc_some:
  assumes "zinv z" "zbytes z = c # bs"
  shows "\<exists>z'. zgetc z = Inr (uint c, z') \<and> zbytes z' = bs \<and> zinv z'"
proof (cases "zp z")
  case Nil
  let ?z = "z\<lparr>zn := SIZE_MAX\<rparr>"
  have "zbytes ?z = c # bs" "zp ?z = []" using assms(2) Nil by (simp_all add: zbytes_def)
  with luaZ_fill_spec [of ?z] have f: "fst (luaZ_fill ?z) = uint c" "zbytes (snd (luaZ_fill ?z)) = bs"
    "zinv (snd (luaZ_fill ?z))" by simp_all
  have "zgetc z = Inr (luaZ_fill ?z)" using assms(1) Nil unfolding zgetc_def zinv_def by simp
  with f show ?thesis by (metis prod.collapse)
next
  case (Cons d ds)
  with assms show ?thesis by (auto simp: zgetc_def zinv_def zbytes_def)
qed

lemma zgetc_end:
  assumes "zinv z" "zbytes z = []" shows "\<exists>z'. zgetc z = Inr (- 1, z')"
proof -
  let ?z = "z\<lparr>zn := SIZE_MAX\<rparr>"
  have e: "zbytes ?z = []" "zp ?z = []" "zp z = []" using assms(2) by (simp_all add: zbytes_def)
  with luaZ_fill_spec [of ?z] have f: "fst (luaZ_fill ?z) = - 1" by simp
  have "zgetc z = Inr (luaZ_fill ?z)" using assms(1) e(3) unfolding zgetc_def zinv_def by simp
  with f show ?thesis by (metis prod.collapse)
qed

interpretation zio: byte_source zgetc luaZ_read zbytes zinv
  proof
  show "\<exists>z'. zgetc z = Inr (uint c, z') \<and> zbytes z' = bs \<and> zinv z'"
    if "zinv z" "zbytes z = c # bs" for z c bs using zgetc_some [OF that] .
  show "\<exists>z'. zgetc z = Inr (- 1, z')" if "zinv z" "zbytes z = []" for z using zgetc_end [OF that] .
  show "\<exists>z'. luaZ_read z n = Inr (take n (zbytes z), n - length (zbytes z), z') \<and>
      (n \<le> length (zbytes z) \<longrightarrow> zbytes z' = drop n (zbytes z) \<and> zinv z')"
    if "zinv z" for z n using luaZ_read_spec [OF that] .
qed

text \<open>
  C15. The stream hides how the client's reader cuts the input into blocks: reading \<open>n\<close>
  bytes gives the first \<open>n\<close> bytes of the input and the number that is missing, for every
  sequence of blocks, and what is read next does not depend on the cuts either.
\<close>

theorem luaZ_read_blocks:
  "\<exists>z'. luaZ_read (luaZ_init blocks) n =
       Inr (take n (concat (takeWhile (\<lambda>b. b \<noteq> []) blocks)),
            n - length (concat (takeWhile (\<lambda>b. b \<noteq> []) blocks)), z') \<and>
     (n \<le> length (concat (takeWhile (\<lambda>b. b \<noteq> []) blocks)) \<longrightarrow>
        zbytes z' = drop n (concat (takeWhile (\<lambda>b. b \<noteq> []) blocks)) \<and> zinv z')"
  using zio.rdn_all [of "luaZ_init blocks" n] by simp

theorem luaZ_read_blocks_witness:
  "luaZ_read (luaZ_init [[1, 2], [3], [4, 5]]) 4 = Inr ([1, 2, 3, 4], 0, \<lparr>zn = 1, zp = [5], zreader = []\<rparr>) \<and>
   zbytes \<lparr>zn = 1, zp = [5], zreader = []\<rparr> = [5]"
proof
  show eq: "luaZ_read (luaZ_init [[1, 2], [3], [4, 5]]) 4 = Inr ([1, 2, 3, 4], 0, \<lparr>zn = 1, zp = [5], zreader = []\<rparr>)"
    by code_simp
  have "(4::nat) \<le> length (concat (takeWhile (\<lambda>b. b \<noteq> []) [[1, 2], [3], [4, 5::byte]]))" by simp
  with luaZ_read_blocks [of "[[1, 2], [3], [4, 5]]" 4] eq
  show "zbytes \<lparr>zn = 1, zp = [5], zreader = []\<rparr> = [5]" by simp
qed

end
