(* ===== verification/Chunk.thy ===== *)
theory Chunk
  imports Zio
begin

text \<open>
  Precompiled chunks: \<open>lua/ldump.c\<close>, \<open>lua/lundump.c\<close> and the \<open>Proto\<close> of \<open>lua/lobject.h\<close>.
  Dumping passes blocks to a writer until one returns a non-zero status; loading reads them from
  a \<open>ZIO\<close>. The sizes are those of a 64-bit little-endian machine: 4 bytes for an \<open>int\<close> and an
  instruction, 8 for a \<open>size_t\<close> and a number. The verification of the loaded code is a parameter.
\<close>

subsection \<open>Function prototypes\<close>

text \<open>A constant; \<open>KString None\<close> is a string value with a null pointer.\<close>

datatype Konst = KNil | KBool bool | KNumber lua_Number | KString "string option"

record LocVar =
  varname :: "string option"
  startpc :: int
  endpc :: int

datatype Proto = Proto
  (f_code: "u32 list") (f_k: "Konst list") (f_p: "Proto list") (f_lineinfo: "int list")
  (f_locvars: "LocVar list") (f_upvalues: "string option list") (f_source: "string option")
  (f_linedefined: int) (f_lastlinedefined: int)
  (f_nups: byte) (f_numparams: byte) (f_is_vararg: byte) (f_maxstacksize: byte)

fun le_enc :: "nat \<Rightarrow> int \<Rightarrow> byte list" where
  "le_enc 0 v = []"
| "le_enc (Suc n) v = word_of_int v # le_enc n (v div 256)"

fun le_dec :: "byte list \<Rightarrow> int" where
  "le_dec [] = 0"
| "le_dec (b # bs) = uint b + 256 * le_dec bs"

definition bytes_of :: "string \<Rightarrow> byte list" where "bytes_of s = map of_char s"
definition string_of :: "byte list \<Rightarrow> string" where "string_of bs = map (\<lambda>b. char_of (uint b)) bs"

definition luaU_header :: "byte list" where
  "luaU_header = [0x1B, 0x4C, 0x75, 0x61, 0x51, 0, 1, 4, 8, 4, 8, 0]"

definition LUAC_HEADERSIZE :: nat where "LUAC_HEADERSIZE = 12"

subsection \<open>Dumping\<close>

record 'w DumpState =
  writer :: "byte list \<Rightarrow> 'w \<Rightarrow> int \<times> 'w"
  data :: 'w
  strip :: bool
  status :: int

definition DumpBlock :: "byte list \<Rightarrow> 'w DumpState \<Rightarrow> 'w DumpState" where
  "DumpBlock b D =
     (if status D = 0 then (case writer D b (data D) of (s, w) \<Rightarrow> D\<lparr>status := s, data := w\<rparr>) else D)"

definition DumpChar :: "int \<Rightarrow> 'w DumpState \<Rightarrow> 'w DumpState" where
  "DumpChar y D = DumpBlock [word_of_int y] D"

definition DumpInt :: "int \<Rightarrow> 'w DumpState \<Rightarrow> 'w DumpState" where
  "DumpInt x D = DumpBlock (le_enc 4 x) D"

definition DumpNumber :: "lua_Number \<Rightarrow> 'w DumpState \<Rightarrow> 'w DumpState" where
  "DumpNumber x D = DumpBlock (le_enc 8 (uint x)) D"

definition DumpVector :: "byte list \<Rightarrow> nat \<Rightarrow> 'w DumpState \<Rightarrow> 'w DumpState" where
  "DumpVector b n D = DumpBlock b (DumpInt (int n) D)"

definition DumpString :: "string option \<Rightarrow> 'w DumpState \<Rightarrow> 'w DumpState" where
  "DumpString s D = (case s of
     None \<Rightarrow> DumpBlock (le_enc 8 0) D
   | Some s \<Rightarrow> DumpBlock (bytes_of s @ [0]) (DumpBlock (le_enc 8 (int (length s) + 1)) D))"

definition DumpCode :: "u32 list \<Rightarrow> 'w DumpState \<Rightarrow> 'w DumpState" where
  "DumpCode code D = DumpVector (concat (map (\<lambda>i. le_enc 4 (uint i)) code)) (length code) D"

definition DumpConstant :: "Konst \<Rightarrow> 'w DumpState \<Rightarrow> 'w DumpState" where
  "DumpConstant k D = (case k of
     KNil \<Rightarrow> DumpChar 0 D
   | KBool b \<Rightarrow> DumpChar (if b then 1 else 0) (DumpChar 1 D)
   | KNumber x \<Rightarrow> DumpNumber x (DumpChar 3 D)
   | KString s \<Rightarrow> DumpString s (DumpChar 4 D))"

definition DumpConstants ::
  "(Proto \<Rightarrow> 'w DumpState \<Rightarrow> 'w DumpState) \<Rightarrow> Konst list \<Rightarrow> Proto list \<Rightarrow> 'w DumpState \<Rightarrow> 'w DumpState" where
  "DumpConstants df ks ps D =
     (let D = fold DumpConstant ks (DumpInt (int (length ks)) D)
      in fold df ps (DumpInt (int (length ps)) D))"

lemma DumpConstants_cong [fundef_cong]:
  "ks = ks' \<Longrightarrow> ps = ps' \<Longrightarrow> D = D' \<Longrightarrow> (\<And>g. g \<in> set ps' \<Longrightarrow> df g = df' g) \<Longrightarrow>
   DumpConstants df ks ps D = DumpConstants df' ks' ps' D'"
  by (auto simp: DumpConstants_def Let_def intro: fold_cong)

definition DumpLocVar :: "LocVar \<Rightarrow> 'w DumpState \<Rightarrow> 'w DumpState" where
  "DumpLocVar v D = DumpInt (endpc v) (DumpInt (startpc v) (DumpString (varname v) D))"

definition DumpDebug :: "int list \<Rightarrow> LocVar list \<Rightarrow> string option list \<Rightarrow> 'w DumpState \<Rightarrow> 'w DumpState" where
  "DumpDebug lineinfo locvars upvalues D =
     (let n = (if strip D then 0 else length lineinfo);
          D = DumpVector (concat (map (le_enc 4) (take n lineinfo))) n D;
          n = (if strip D then 0 else length locvars);
          D = fold DumpLocVar (take n locvars) (DumpInt (int n) D);
          n = (if strip D then 0 else length upvalues)
      in fold DumpString (take n upvalues) (DumpInt (int n) D))"

fun DumpFunction :: "Proto \<Rightarrow> string option \<Rightarrow> 'w DumpState \<Rightarrow> 'w DumpState" where
  "DumpFunction (Proto code ks ps lineinfo locvars upvalues source linedefined lastlinedefined
      nups numparams is_vararg maxstacksize) p D =
     (let D = DumpString (if source = p \<or> strip D then None else source) D;
          D = DumpInt linedefined D;
          D = DumpInt lastlinedefined D;
          D = DumpChar (uint nups) D;
          D = DumpChar (uint numparams) D;
          D = DumpChar (uint is_vararg) D;
          D = DumpChar (uint maxstacksize) D;
          D = DumpCode code D;
          D = DumpConstants (\<lambda>g D. DumpFunction g source D) ks ps D
      in DumpDebug lineinfo locvars upvalues D)"

definition DumpHeader :: "'w DumpState \<Rightarrow> 'w DumpState" where
  "DumpHeader D = DumpBlock luaU_header D"

definition luaU_dump :: "Proto \<Rightarrow> (byte list \<Rightarrow> 'w \<Rightarrow> int \<times> 'w) \<Rightarrow> 'w \<Rightarrow> bool \<Rightarrow> int \<times> 'w" where
  "luaU_dump f w d st =
     (let D = DumpFunction f None (DumpHeader \<lparr>writer = w, data = d, strip = st, status = 0\<rparr>)
      in (status D, data D))"

subsection \<open>Loading\<close>

text \<open>
  \<open>nm\<close> is the name of the chunk in messages and \<open>nc\<close> the value of \<open>nCcalls\<close>, which every
  call increments on entry and decrements on return.
\<close>

record LoadState =
  lZ :: ZIO
  lb :: Mbuffer

definition load_error :: "string \<Rightarrow> string \<Rightarrow> 'a res" where
  "load_error nm why = Inl (LuaError LUA_ERRSYNTAX (cstr nm @ '': '' @ why @ '' in precompiled chunk''))"

lemma load_error_safe [simp]: "\<not> is_UB (load_error nm why)" "load_error nm why \<noteq> Inr x"
  by (simp_all add: load_error_def)

definition LoadBlock :: "string \<Rightarrow> LoadState \<Rightarrow> nat \<Rightarrow> (byte list \<times> LoadState) res" where
  "LoadBlock nm S n =
     rbind (luaZ_read (lZ S) n) (\<lambda>(bs, r, z).
     if r \<noteq> 0 then load_error nm ''unexpected end'' else Inr (bs, S\<lparr>lZ := z\<rparr>))"

definition LoadChar :: "string \<Rightarrow> LoadState \<Rightarrow> (int \<times> LoadState) res" where
  "LoadChar nm S = rmap (\<lambda>(bs, S). (signed_take_bit 7 (le_dec bs), S)) (LoadBlock nm S 1)"

definition LoadByte :: "string \<Rightarrow> LoadState \<Rightarrow> (byte \<times> LoadState) res" where
  "LoadByte nm S = rmap (\<lambda>(x, S). (word_of_int x, S)) (LoadChar nm S)"

definition LoadInt :: "string \<Rightarrow> LoadState \<Rightarrow> (int \<times> LoadState) res" where
  "LoadInt nm S =
     rbind (LoadBlock nm S 4) (\<lambda>(bs, S).
     let x = signed_take_bit 31 (le_dec bs) in
     if x < 0 then load_error nm ''bad integer'' else Inr (x, S))"

definition LoadNumber :: "string \<Rightarrow> LoadState \<Rightarrow> (lua_Number \<times> LoadState) res" where
  "LoadNumber nm S = rmap (\<lambda>(bs, S). (word_of_int (le_dec bs), S)) (LoadBlock nm S 8)"

definition LoadString :: "string \<Rightarrow> LoadState \<Rightarrow> (string option \<times> LoadState) res" where
  "LoadString nm S =
     rbind (LoadBlock nm S 8) (\<lambda>(bs, S).
     let size = nat (le_dec bs) in
     if size = 0 then Inr (None, S)
     else
       let S = S\<lparr>lb := luaZ_openspace (lb S) size\<rparr> in
       if size \<le> buffsize (lb S) then
         rmap (\<lambda>(s, S). (Some (string_of (take (size - 1) s)), S)) (LoadBlock nm S size)
       else Inl (UB ''buffer write''))"

text \<open>\<open>n\<close> elements one after the other, and the elements of a vector of \<open>size\<close> bytes each.\<close>

fun load_list :: "nat \<Rightarrow> (LoadState \<Rightarrow> ('a \<times> LoadState) res) \<Rightarrow> LoadState \<Rightarrow> ('a list \<times> LoadState) res" where
  "load_list 0 ld S = Inr ([], S)"
| "load_list (Suc n) ld S =
     rbind (ld S) (\<lambda>(x, S). rmap (\<lambda>(xs, S). (x # xs, S)) (load_list n ld S))"

fun chunks :: "nat \<Rightarrow> nat \<Rightarrow> byte list \<Rightarrow> byte list list" where
  "chunks sz 0 bs = []"
| "chunks sz (Suc n) bs = take sz bs # chunks sz n (drop sz bs)"

definition LoadCode :: "string \<Rightarrow> LoadState \<Rightarrow> (u32 list \<times> LoadState) res" where
  "LoadCode nm S =
     rbind (LoadInt nm S) (\<lambda>(n, S).
     rmap (\<lambda>(bs, S). (map (\<lambda>b. word_of_int (le_dec b)) (chunks 4 (nat n) bs), S)) (LoadBlock nm S (nat n * 4)))"

definition LoadConstant :: "string \<Rightarrow> LoadState \<Rightarrow> (Konst \<times> LoadState) res" where
  "LoadConstant nm S =
     rbind (LoadChar nm S) (\<lambda>(t, S).
     if t = 0 then Inr (KNil, S)
     else if t = 1 then rmap (\<lambda>(b, S). (KBool (b \<noteq> 0), S)) (LoadChar nm S)
     else if t = 3 then rmap (\<lambda>(x, S). (KNumber x, S)) (LoadNumber nm S)
     else if t = 4 then rmap (\<lambda>(s, S). (KString s, S)) (LoadString nm S)
     else load_error nm ''bad constant'')"

definition LoadConstants :: "string \<Rightarrow> (LoadState \<Rightarrow> (Proto \<times> LoadState) res) \<Rightarrow> LoadState \<Rightarrow>
    ((Konst list \<times> Proto list) \<times> LoadState) res" where
  "LoadConstants nm lf S =
     rbind (LoadInt nm S) (\<lambda>(n, S).
     rbind (load_list (nat n) (LoadConstant nm) S) (\<lambda>(ks, S).
     rbind (LoadInt nm S) (\<lambda>(n, S).
     rmap (\<lambda>(ps, S). ((ks, ps), S)) (load_list (nat n) lf S))))"

definition LoadLocVar :: "string \<Rightarrow> LoadState \<Rightarrow> (LocVar \<times> LoadState) res" where
  "LoadLocVar nm S =
     rbind (LoadString nm S) (\<lambda>(v, S).
     rbind (LoadInt nm S) (\<lambda>(a, S).
     rmap (\<lambda>(b, S). (\<lparr>varname = v, startpc = a, endpc = b\<rparr>, S)) (LoadInt nm S)))"

definition LoadDebug :: "string \<Rightarrow> LoadState \<Rightarrow>
    ((int list \<times> LocVar list \<times> string option list) \<times> LoadState) res" where
  "LoadDebug nm S =
     rbind (LoadInt nm S) (\<lambda>(n, S).
     rbind (LoadBlock nm S (nat n * 4)) (\<lambda>(bs, S).
     rbind (LoadInt nm S) (\<lambda>(m, S).
     rbind (load_list (nat m) (LoadLocVar nm) S) (\<lambda>(lv, S).
     rbind (LoadInt nm S) (\<lambda>(u, S).
     rmap (\<lambda>(uv, S). ((map (\<lambda>b. signed_take_bit 31 (le_dec b)) (chunks 4 (nat n) bs), lv, uv), S))
       (load_list (nat u) (LoadString nm) S))))))"

definition LUAI_MAXCCALLS :: nat where "LUAI_MAXCCALLS = 200"

function LoadFunction :: "(Proto \<Rightarrow> bool) \<Rightarrow> string \<Rightarrow> nat \<Rightarrow> string option \<Rightarrow> LoadState \<Rightarrow> (Proto \<times> LoadState) res" where
  "LoadFunction checkcode nm nc p S =
     (if nc + 1 > LUAI_MAXCCALLS then load_error nm ''code too deep''
      else
        rbind (LoadString nm S) (\<lambda>(src, S).
        let source = (if src = None then p else src) in
        rbind (LoadInt nm S) (\<lambda>(linedefined, S).
        rbind (LoadInt nm S) (\<lambda>(lastlinedefined, S).
        rbind (LoadByte nm S) (\<lambda>(nups, S).
        rbind (LoadByte nm S) (\<lambda>(numparams, S).
        rbind (LoadByte nm S) (\<lambda>(is_vararg, S).
        rbind (LoadByte nm S) (\<lambda>(maxstacksize, S).
        rbind (LoadCode nm S) (\<lambda>(code, S).
        rbind (LoadConstants nm (\<lambda>S. LoadFunction checkcode nm (nc + 1) source S) S) (\<lambda>((ks, ps), S).
        rbind (LoadDebug nm S) (\<lambda>((lineinfo, locvars, upvalues), S).
        let f = Proto code ks ps lineinfo locvars upvalues source linedefined lastlinedefined
                  nups numparams is_vararg maxstacksize in
        if \<not> checkcode f then load_error nm ''bad code'' else Inr (f, S))))))))))))"
  by pat_completeness auto
termination
  by (relation "measure (\<lambda>(checkcode, nm, nc, p, S). LUAI_MAXCCALLS - nc)") auto

declare LoadFunction.simps [simp del]

definition LoadHeader :: "string \<Rightarrow> LoadState \<Rightarrow> LoadState res" where
  "LoadHeader nm S =
     rbind (LoadBlock nm S LUAC_HEADERSIZE) (\<lambda>(s, S).
     if s \<noteq> luaU_header then load_error nm ''bad header'' else Inr S)"

definition luaU_undump :: "(Proto \<Rightarrow> bool) \<Rightarrow> nat \<Rightarrow> ZIO \<Rightarrow> Mbuffer \<Rightarrow> string \<Rightarrow> (Proto \<times> LoadState) res" where
  "luaU_undump checkcode nc Z buff name =
     (let nm = (case name of
            [] \<Rightarrow> []
          | c # cs \<Rightarrow> if c = CHR ''@'' \<or> c = CHR ''='' then cs
                     else if c = CHR 0x1B then ''binary string'' else name)
      in rbind (LoadHeader nm \<lparr>lZ = Z, lb = buff\<rparr>) (LoadFunction checkcode nm nc (Some ''=?'')))"

end
