(* ===== verification/ChunkProps.thy ===== *)
theory ChunkProps
  imports Chunk
begin

text \<open>
  What dumping and loading guarantee: the sequence of blocks a writer sees, the round trip through any
  reader, and that no input makes the loader leave its buffers.
\<close>

subsection \<open>Little-endian numbers\<close>

lemma length_le_enc [simp]: "length (le_enc n v) = n"
  by (induction n arbitrary: v) simp_all

lemma le_dec_enc [simp]: "le_dec (le_enc n v) = v mod 256 ^ n"
proof (induction n arbitrary: v)
  case (Suc n)
  have "v mod 256 + 256 * (v div 256 mod 256 ^ n) = v mod (256 * 256 ^ n)"
    by (simp add: zmod_zmult2_eq)
  with Suc show ?case by (simp add: uint_word_of_int)
qed simp

lemma signed_take_bit_mod: "- (2 ^ 31) \<le> x \<Longrightarrow> x < 2 ^ 31 \<Longrightarrow> signed_take_bit 31 (x mod 4294967296) = (x::int)"
proof -
  assume x: "- (2 ^ 31) \<le> x" "x < 2 ^ 31"
  have "signed_take_bit 31 (x mod 4294967296) = signed_take_bit 31 (take_bit 32 x)"
    by (simp add: take_bit_eq_mod)
  also have "\<dots> = signed_take_bit 31 x" by (simp add: signed_take_bit_take_bit)
  also have "\<dots> = x" using x by (simp add: signed_take_bit_int_eq_self)
  finally show ?thesis .
qed

lemma string_of_bytes_of [simp]: "string_of (bytes_of s) = s"
proof -
  have "char_of (uint (of_char c :: byte)) = c" for c
  proof -
    have "(of_char c :: byte) = word_of_int (of_char c)" by (simp add: of_int_of_char)
    then show ?thesis by (simp add: uint_word_of_int of_char_mod_256)
  qed
  then show ?thesis by (induction s) (simp_all add: string_of_def bytes_of_def)
qed

lemma length_bytes_of [simp]: "length (bytes_of s) = length s"
  by (simp add: bytes_of_def)

subsection \<open>The blocks of a dump\<close>

definition string_blocks :: "string option \<Rightarrow> byte list list" where
  "string_blocks s = (case s of None \<Rightarrow> [le_enc 8 0] | Some s \<Rightarrow> [le_enc 8 (int (length s) + 1), bytes_of s @ [0]])"

definition const_blocks :: "Konst \<Rightarrow> byte list list" where
  "const_blocks k = (case k of KNil \<Rightarrow> [[0]] | KBool b \<Rightarrow> [[1], [if b then 1 else 0]]
     | KNumber x \<Rightarrow> [[3], le_enc 8 (uint x)] | KString s \<Rightarrow> [4] # string_blocks s)"

definition locvar_blocks :: "LocVar \<Rightarrow> byte list list" where
  "locvar_blocks v = string_blocks (varname v) @ [le_enc 4 (startpc v), le_enc 4 (endpc v)]"

definition debug_blocks :: "bool \<Rightarrow> int list \<Rightarrow> LocVar list \<Rightarrow> string option list \<Rightarrow> byte list list" where
  "debug_blocks st li lv uv =
     (if st then [le_enc 4 0, [], le_enc 4 0, le_enc 4 0]
      else [le_enc 4 (int (length li)), concat (map (le_enc 4) li), le_enc 4 (int (length lv))] @
        concat (map locvar_blocks lv) @ [le_enc 4 (int (length uv))] @ concat (map string_blocks uv))"

fun function_blocks :: "bool \<Rightarrow> string option \<Rightarrow> Proto \<Rightarrow> byte list list" where
  "function_blocks st p (Proto code ks ps lineinfo locvars upvalues source linedefined lastlinedefined
      nups numparams is_vararg maxstacksize) =
     string_blocks (if source = p \<or> st then None else source) @
     [le_enc 4 linedefined, le_enc 4 lastlinedefined, [nups], [numparams], [is_vararg], [maxstacksize],
      le_enc 4 (int (length code)), concat (map (\<lambda>i. le_enc 4 (uint i)) code), le_enc 4 (int (length ks))] @
     concat (map const_blocks ks) @ [le_enc 4 (int (length ps))] @
     concat (map (function_blocks st source) ps) @
     debug_blocks st lineinfo locvars upvalues"

abbreviation put_blocks :: "byte list list \<Rightarrow> 'w DumpState \<Rightarrow> 'w DumpState" where
  "put_blocks bs D \<equiv> fold DumpBlock bs D"

lemma strip_DumpBlock [simp]: "strip (DumpBlock b D) = strip D"
  by (simp add: DumpBlock_def split: prod.split)

lemma strip_put_blocks [simp]: "strip (put_blocks bs D) = strip D"
  by (induction bs arbitrary: D) simp_all

lemma fold_blocks:
  assumes "\<And>x D. x \<in> set xs \<Longrightarrow> strip D = st \<Longrightarrow> f x D = put_blocks (e x) D" "strip D = st"
  shows "fold f xs D = put_blocks (concat (map e xs)) D"
  using assms by (induction xs arbitrary: D) simp_all

lemma DumpString_blocks: "DumpString s D = put_blocks (string_blocks s) D"
  by (simp add: DumpString_def string_blocks_def split: option.split)

lemma DumpConstant_blocks: "DumpConstant k D = put_blocks (const_blocks k) D"
  by (simp add: DumpConstant_def const_blocks_def DumpChar_def DumpNumber_def DumpString_blocks split: Konst.split)

lemma DumpLocVar_blocks: "DumpLocVar v D = put_blocks (locvar_blocks v) D"
  by (simp add: DumpLocVar_def locvar_blocks_def DumpInt_def DumpString_blocks)

lemma DumpDebug_blocks: "DumpDebug li lv uv D = put_blocks (debug_blocks (strip D) li lv uv) D"
  by (auto simp: DumpDebug_def debug_blocks_def DumpVector_def DumpInt_def Let_def
      fold_blocks [where st = "strip D" and e = locvar_blocks]
      fold_blocks [where st = "strip D" and e = string_blocks] DumpLocVar_blocks DumpString_blocks)

lemma DumpFunction_blocks: "DumpFunction f p D = put_blocks (function_blocks (strip D) p f) D"
proof (induction f p D rule: DumpFunction.induct)
  case (1 code ks ps lineinfo locvars upvalues source linedefined lastlinedefined
      nups numparams is_vararg maxstacksize p D)
  have const_eq: "fold DumpConstant ks D = put_blocks (concat (map const_blocks ks)) D" for D :: "'a DumpState"
    by (rule fold_blocks [where st = "strip D"]) (simp_all add: DumpConstant_blocks)
  have IH: "DumpFunction g source D = put_blocks (function_blocks (strip D) source g) D"
    if "g \<in> set ps" for g and D :: "'a DumpState"
    by (rule 1) (rule refl that)+
  have protos: "fold (\<lambda>g D. DumpFunction g source D) ps D' =
      put_blocks (concat (map (function_blocks (strip D) source) ps)) D'" if "strip D' = strip D"
    for D' :: "'a DumpState"
    by (rule fold_blocks [where st = "strip D"]) (simp_all add: IH that)
  show ?case
    by (simp add: Let_def DumpConstants_def const_eq protos DumpString_blocks DumpInt_def DumpChar_def
        DumpCode_def DumpVector_def DumpDebug_blocks)
qed

text \<open>What a writer is given: all the blocks up to the first one it refuses.\<close>

fun write_blocks :: "(byte list \<Rightarrow> 'w \<Rightarrow> int \<times> 'w) \<Rightarrow> 'w \<Rightarrow> byte list list \<Rightarrow> int \<times> 'w" where
  "write_blocks w d [] = (0, d)"
| "write_blocks w d (b # bs) = (case w b d of (s, d) \<Rightarrow> if s = 0 then write_blocks w d bs else (s, d))"

lemma put_blocks_stopped: "status D \<noteq> 0 \<Longrightarrow> put_blocks bs D = D"
  by (induction bs) (simp_all add: DumpBlock_def)

lemma put_blocks_write:
  "status D = 0 \<Longrightarrow> (status (put_blocks bs D), data (put_blocks bs D)) = write_blocks (writer D) (data D) bs"
proof (induction bs arbitrary: D)
  case (Cons b bs)
  obtain s d where w: "writer D b (data D) = (s, d)" by (cases "writer D b (data D)")
  have step: "DumpBlock b D = D\<lparr>status := s, data := d\<rparr>" using Cons.prems w by (simp add: DumpBlock_def)
  show ?case
  proof (cases "s = 0")
    case True
    with Cons.IH [of "D\<lparr>status := s, data := d\<rparr>"] w step show ?thesis by simp
  next
    case False
    with w step put_blocks_stopped [of "D\<lparr>status := s, data := d\<rparr>" bs] show ?thesis by simp
  qed
qed simp

lemma luaU_dump_blocks_aux:
  "luaU_dump f w d st = write_blocks w d (luaU_header # function_blocks st None f)"
proof -
  let ?D = "\<lparr>writer = w, data = d, strip = st, status = 0\<rparr>"
  have "DumpFunction f None (DumpHeader ?D) = put_blocks (luaU_header # function_blocks st None f) ?D"
    by (simp add: DumpFunction_blocks DumpHeader_def)
  with put_blocks_write [of ?D "luaU_header # function_blocks st None f"] show ?thesis
    by (simp add: luaU_dump_def Let_def)
qed

text \<open>
  \<open>luaU_dump\<close> passes the header and the function to the writer block by block, in
  a fixed order, stops at the first block whose writer returns non-zero, and returns that status.
\<close>

theorem luaU_dump_blocks:
  "luaU_dump f w d st = write_blocks w d (luaU_header # function_blocks st None f)"
  by (rule luaU_dump_blocks_aux)

subsection \<open>Loading what was dumped\<close>

text \<open>\<open>loads ld bs x\<close>: whatever follows, \<open>ld\<close> consumes exactly the bytes \<open>bs\<close> and returns \<open>x\<close>.\<close>

definition loads :: "(LoadState \<Rightarrow> ('a \<times> LoadState) res) \<Rightarrow> byte list \<Rightarrow> 'a \<Rightarrow> bool" where
  "loads ld bs x \<longleftrightarrow> (\<forall>S rest. zinv (lZ S) \<longrightarrow> zbytes (lZ S) = bs @ rest \<longrightarrow>
     (\<exists>S'. ld S = Inr (x, S') \<and> zinv (lZ S') \<and> zbytes (lZ S') = rest))"

lemma loadsD:
  "loads ld bs x \<Longrightarrow> zinv (lZ S) \<Longrightarrow> zbytes (lZ S) = bs @ rest \<Longrightarrow>
   \<exists>S'. ld S = Inr (x, S') \<and> zinv (lZ S') \<and> zbytes (lZ S') = rest"
  unfolding loads_def by blast

lemma loadsI:
  "(\<And>S rest. zinv (lZ S) \<Longrightarrow> zbytes (lZ S) = bs @ rest \<Longrightarrow>
     \<exists>S'. ld S = Inr (x, S') \<and> zinv (lZ S') \<and> zbytes (lZ S') = rest) \<Longrightarrow> loads ld bs x"
  unfolding loads_def by blast

lemma loads_bind:
  assumes "loads m bs x" "loads (f x) cs y"
  shows "loads (\<lambda>S. rbind (m S) (\<lambda>(x, S). f x S)) (bs @ cs) y"
proof (rule loadsI)
  fix S :: LoadState and rest
  assume S: "zinv (lZ S)" "zbytes (lZ S) = (bs @ cs) @ rest"
  obtain S1 where S1: "m S = Inr (x, S1)" "zinv (lZ S1)" "zbytes (lZ S1) = cs @ rest"
    using loadsD [OF assms(1) S(1), of "cs @ rest"] S(2) by auto
  obtain S2 where "f x S1 = Inr (y, S2)" "zinv (lZ S2)" "zbytes (lZ S2) = rest"
    using loadsD [OF assms(2) S1(2,3)] by blast
  with S1 show "\<exists>S'. rbind (m S) (\<lambda>(x, S). f x S) = Inr (y, S') \<and> zinv (lZ S') \<and> zbytes (lZ S') = rest"
    by simp
qed

lemma loads_return: "loads (\<lambda>S. Inr (x, S)) [] x"
  by (simp add: loads_def)

lemma loads_map:
  assumes "loads m bs x" shows "loads (\<lambda>S. rmap (\<lambda>(x, S). (g x, S)) (m S)) bs (g x)"
proof (rule loadsI)
  fix S :: LoadState and rest
  assume S: "zinv (lZ S)" "zbytes (lZ S) = bs @ rest"
  obtain S1 where "m S = Inr (x, S1)" "zinv (lZ S1)" "zbytes (lZ S1) = rest"
    using loadsD [OF assms S] by blast
  then show "\<exists>S'. rmap (\<lambda>(x, S). (g x, S)) (m S) = Inr (g x, S') \<and> zinv (lZ S') \<and> zbytes (lZ S') = rest"
    by simp
qed

lemma loads_map': "loads m bs x \<Longrightarrow> g x = y \<Longrightarrow> loads (\<lambda>S. rmap (\<lambda>(x, S). (g x, S)) (m S)) bs y"
  using loads_map by fastforce

lemma loads_block:
  assumes "length bs = n" shows "loads (\<lambda>S. LoadBlock nm S n) bs bs"
proof (rule loadsI)
  fix S :: LoadState and rest
  assume S: "zinv (lZ S)" "zbytes (lZ S) = bs @ rest"
  obtain z where "luaZ_read (lZ S) n = Inr (bs, 0, z)" "zbytes z = rest" "zinv z"
    using zio.read_block [OF S] assms by blast
  then show "\<exists>S'. LoadBlock nm S n = Inr (bs, S') \<and> zinv (lZ S') \<and> zbytes (lZ S') = rest"
    by (simp add: LoadBlock_def)
qed

lemma loads_int: "0 \<le> x \<Longrightarrow> x < 2 ^ 31 \<Longrightarrow> loads (LoadInt nm) (le_enc 4 x) x"
proof -
  assume x: "0 \<le> x" "x < 2 ^ 31"
  then have v: "signed_take_bit 31 (le_dec (le_enc 4 x)) = x" using signed_take_bit_mod [of x] by simp
  have "loads (\<lambda>S. rbind (LoadBlock nm S 4) (\<lambda>(bs, S). (\<lambda>bs S. let x = signed_take_bit 31 (le_dec bs) in
      if x < 0 then load_error nm ''bad integer'' else Inr (x, S)) bs S)) (le_enc 4 x @ []) x"
    by (rule loads_bind [OF loads_block]) (use x v in \<open>simp_all add: loads_return\<close>)
  then show ?thesis by (simp add: LoadInt_def [abs_def])
qed

lemma loads_char: "loads (LoadChar nm) [b] (sint b)"
proof -
  have "signed_take_bit 7 (le_dec [b]) = sint b" by (simp add: sint_uint)
  then show ?thesis unfolding LoadChar_def [abs_def]
    by (intro loads_map' [OF loads_block [of "[b]"]]) simp_all
qed

lemma loads_byte: "loads (LoadByte nm) [b] b"
  unfolding LoadByte_def [abs_def] by (rule loads_map' [OF loads_char]) simp

lemma loads_number: "loads (LoadNumber nm) (le_enc 8 (uint x)) x"
proof -
  have "uint x mod 2 ^ 64 = uint x" using unsigned_less [of x] by (intro mod_pos_pos_trivial) simp_all
  then show ?thesis unfolding LoadNumber_def [abs_def] by (intro loads_map' [OF loads_block]) simp_all
qed

definition string_ok :: "string option \<Rightarrow> bool" where
  "string_ok s \<longleftrightarrow> (case s of None \<Rightarrow> True | Some s \<Rightarrow> length s + 1 < 2 ^ 64)"

lemma openspace_size: "n \<le> buffsize (luaZ_openspace b n)"
  by (simp add: luaZ_openspace_def luaZ_resizebuffer_def)

lemma loads_string: "string_ok s \<Longrightarrow> loads (LoadString nm) (concat (string_blocks s)) s"
proof (rule loadsI)
  fix S :: LoadState and rest
  assume ok: "string_ok s" and S: "zinv (lZ S)" "zbytes (lZ S) = concat (string_blocks s) @ rest"
  define n where "n = (case s of None \<Rightarrow> 0 | Some s \<Rightarrow> length s + 1)"
  have n: "int n < 2 ^ 64" using ok by (auto simp: n_def string_ok_def split: option.splits)
  then have dec: "le_dec (le_enc 8 (int n)) = int n" by simp
  define tl where "tl = (case s of None \<Rightarrow> [] | Some s \<Rightarrow> bytes_of s @ [0])"
  have "concat (string_blocks s) = le_enc 8 (int n) @ tl"
    by (auto simp: string_blocks_def n_def tl_def add.commute split: option.split)
  with S have S8: "zbytes (lZ S) = le_enc 8 (int n) @ (tl @ rest)" by simp
  obtain S1 where S1: "LoadBlock nm S 8 = Inr (le_enc 8 (int n), S1)" "zinv (lZ S1)" "zbytes (lZ S1) = tl @ rest"
    using loadsD [OF loads_block [of "le_enc 8 (int n)" 8 nm] S(1) S8] by auto
  show "\<exists>S'. LoadString nm S = Inr (s, S') \<and> zinv (lZ S') \<and> zbytes (lZ S') = rest"
  proof (cases s)
    case None
    with S1 dec show ?thesis by (simp add: LoadString_def n_def tl_def)
  next
    case (Some t)
    let ?S = "S1\<lparr>lb := luaZ_openspace (lb S1) n\<rparr>"
    have len: "length tl = n" by (simp add: Some tl_def n_def)
    obtain S2 where S2: "LoadBlock nm ?S n = Inr (tl, S2)" "zinv (lZ S2)" "zbytes (lZ S2) = rest"
      using loadsD [OF loads_block [OF len, of nm], of ?S rest] S1 by auto
    have "0 < n" "string_of (take (n - 1) tl) = t" by (simp_all add: Some tl_def n_def)
    with S1(1) S2 dec openspace_size [of n "lb S1"] show ?thesis
      by (simp add: LoadString_def Let_def Some)
  qed
qed

lemma loads_list:
  "(\<And>x. x \<in> set xs \<Longrightarrow> loads ld (e x) (g x)) \<Longrightarrow> loads (load_list (length xs) ld) (concat (map e xs)) (map g xs)"
proof (induction xs)
  case Nil
  then show ?case by (simp add: loads_def)
next
  case (Cons x xs)
  have "loads (\<lambda>S. rbind (ld S) (\<lambda>(y, S). rmap (\<lambda>(ys, S). (y # ys, S)) (load_list (length xs) ld S)))
      (e x @ concat (map e xs)) (g x # map g xs)"
    using Cons by (intro loads_bind [where x = "g x"] loads_map) simp_all
  then show ?case by (simp add: loads_def)
qed

lemma chunks_concat: "(\<And>b. b \<in> set bss \<Longrightarrow> length b = n) \<Longrightarrow> chunks n (length bss) (concat bss) = bss"
  by (induction bss) simp_all

lemma length_concat_enc: "length (concat (map (\<lambda>x. le_enc n (f x)) xs)) = length xs * n"
  by (induction xs) simp_all

definition int_ok :: "int \<Rightarrow> bool" where "int_ok x \<longleftrightarrow> 0 \<le> x \<and> x < 2 ^ 31"
definition len_ok :: "'a list \<Rightarrow> bool" where "len_ok xs \<longleftrightarrow> length xs < 2 ^ 31"

lemma loads_length: "len_ok xs \<Longrightarrow> loads (LoadInt nm) (le_enc 4 (int (length xs))) (int (length xs))"
  by (rule loads_int) (simp_all add: len_ok_def)

lemma loads_ok: "int_ok x \<Longrightarrow> loads (LoadInt nm) (le_enc 4 x) x"
  by (rule loads_int) (simp_all add: int_ok_def)

text \<open>A vector of 4-byte elements, its length first.\<close>

lemma loads_vector:
  assumes "len_ok xs" "\<And>x. x \<in> set xs \<Longrightarrow> g (le_enc 4 (f x)) = x"
  shows "loads (\<lambda>S. rmap (\<lambda>(bs, S). (map g (chunks 4 (length xs) bs), S)) (LoadBlock nm S (length xs * 4)))
    (concat (map (\<lambda>x. le_enc 4 (f x)) xs)) xs"
proof (rule loads_map' [OF loads_block])
  show "length (concat (map (\<lambda>x. le_enc 4 (f x)) xs)) = length xs * 4" by (rule length_concat_enc)
  have "chunks 4 (length (map (\<lambda>x. le_enc 4 (f x)) xs)) (concat (map (\<lambda>x. le_enc 4 (f x)) xs))
      = map (\<lambda>x. le_enc 4 (f x)) xs"
    by (rule chunks_concat) auto
  then show "map g (chunks 4 (length xs) (concat (map (\<lambda>x. le_enc 4 (f x)) xs))) = xs"
    using assms(2) by (simp add: map_idI)
qed

lemma loads_code:
  assumes "len_ok code"
  shows "loads (LoadCode nm) (le_enc 4 (int (length code)) @ concat (map (\<lambda>i. le_enc 4 (uint i)) code)) code"
proof -
  have "word_of_int (uint x mod 4294967296) = x" for x :: u32
  proof -
    have "uint x mod 2 ^ 32 = uint x" using unsigned_less [of x] by (intro mod_pos_pos_trivial) simp_all
    then show ?thesis by simp
  qed
  then have "loads (\<lambda>S. rmap (\<lambda>(bs, S). (map (\<lambda>b. word_of_int (le_dec b)) (chunks 4 (length code) bs), S))
      (LoadBlock nm S (length code * 4))) (concat (map (\<lambda>i. le_enc 4 (uint i)) code)) code"
    by (intro loads_vector assms) simp
  then show ?thesis
    unfolding LoadCode_def [abs_def] by (intro loads_bind [OF loads_length [OF assms]]) simp
qed

definition const_ok :: "Konst \<Rightarrow> bool" where
  "const_ok k \<longleftrightarrow> (case k of KString s \<Rightarrow> string_ok s | _ \<Rightarrow> True)"

lemma loads_constant:
  assumes "const_ok k" shows "loads (LoadConstant nm) (concat (const_blocks k)) k"
proof -
  have bytes: "sint (0::byte) = 0" "sint (1::byte) = 1" "sint (3::byte) = 3" "sint (4::byte) = 4" by simp_all
  obtain t tl where t: "concat (const_blocks k) = [t] @ tl"
    "t = (case k of KNil \<Rightarrow> 0 | KBool _ \<Rightarrow> 1 | KNumber _ \<Rightarrow> 3 | KString _ \<Rightarrow> 4)"
    by (cases k) (auto simp: const_blocks_def)
  show ?thesis
    unfolding t(1) LoadConstant_def [abs_def]
  proof (rule loads_bind [OF loads_char])
    show "loads (\<lambda>S. if sint t = 0 then Inr (KNil, S)
       else if sint t = 1 then rmap (\<lambda>(b, S). (KBool (b \<noteq> 0), S)) (LoadChar nm S)
       else if sint t = 3 then rmap (\<lambda>(x, S). (KNumber x, S)) (LoadNumber nm S)
       else if sint t = 4 then rmap (\<lambda>(s, S). (KString s, S)) (LoadString nm S)
       else load_error nm ''bad constant'') tl k"
    proof (cases k)
      case KNil
      with t have "tl = []" "t = 0" by (simp_all add: const_blocks_def)
      with KNil show ?thesis by (simp add: loads_return)
    next
      case (KBool b)
      with t have "tl = [if b then 1 else 0]" "t = 1" by (auto simp: const_blocks_def)
      with KBool loads_map' [OF loads_char [of nm "if b then 1 else 0"], of "\<lambda>c. KBool (c \<noteq> 0)" "KBool b"] bytes
      show ?thesis by (simp split: if_splits)
    next
      case (KNumber x)
      with t have "tl = le_enc 8 (uint x)" "t = 3" by (simp_all add: const_blocks_def)
      with KNumber loads_map [OF loads_number [of nm x], of KNumber] bytes show ?thesis by simp
    next
      case (KString s)
      with t have "tl = concat (string_blocks s)" "t = 4" by (simp_all add: const_blocks_def)
      with KString assms loads_map [OF loads_string [of s nm], of KString] bytes show ?thesis
        by (simp add: const_ok_def)
    qed
  qed
qed

lemma loads_locvar:
  assumes "string_ok (varname v)" "int_ok (startpc v)" "int_ok (endpc v)"
  shows "loads (LoadLocVar nm) (concat (locvar_blocks v)) v"
proof -
  have "loads (LoadLocVar nm) (concat (string_blocks (varname v)) @ (le_enc 4 (startpc v) @ le_enc 4 (endpc v))) v"
    unfolding LoadLocVar_def [abs_def]
    by (intro loads_bind [OF loads_string [OF assms(1)]] loads_bind [OF loads_ok [OF assms(2)]]
        loads_map' [OF loads_ok [OF assms(3)]]) simp
  then show ?thesis by (simp add: locvar_blocks_def)
qed

definition debug_ok :: "int list \<Rightarrow> LocVar list \<Rightarrow> string option list \<Rightarrow> bool" where
  "debug_ok li lv uv \<longleftrightarrow> len_ok li \<and> len_ok lv \<and> len_ok uv \<and>
     (\<forall>x \<in> set li. - (2 ^ 31) \<le> x \<and> x < 2 ^ 31) \<and>
     (\<forall>v \<in> set lv. string_ok (varname v) \<and> int_ok (startpc v) \<and> int_ok (endpc v)) \<and>
     (\<forall>s \<in> set uv. string_ok s)"

lemma loads_debug_full:
  assumes "debug_ok li lv uv"
  shows "loads (LoadDebug nm) (le_enc 4 (int (length li)) @ concat (map (le_enc 4) li) @
    le_enc 4 (int (length lv)) @ concat (map (\<lambda>v. concat (locvar_blocks v)) lv) @
    le_enc 4 (int (length uv)) @ concat (map (\<lambda>s. concat (string_blocks s)) uv)) (li, lv, uv)"
proof -
  have ok: "len_ok li" "len_ok lv" "len_ok uv" using assms by (simp_all add: debug_ok_def)
  have lines: "map (\<lambda>b. signed_take_bit 31 (le_dec b)) (chunks 4 (length li) (concat (map (le_enc 4) li))) = li"
  proof -
    have "chunks 4 (length (map (le_enc 4) li)) (concat (map (le_enc 4) li)) = map (le_enc 4) li"
      by (rule chunks_concat) auto
    moreover have "signed_take_bit 31 (le_dec (le_enc 4 x)) = x" if "x \<in> set li" for x
      using assms that signed_take_bit_mod [of x] by (simp add: debug_ok_def)
    ultimately show ?thesis by (simp add: map_idI)
  qed
  have lv: "loads (load_list (length lv) (LoadLocVar nm)) (concat (map (\<lambda>v. concat (locvar_blocks v)) lv)) (map (\<lambda>v. v) lv)"
    using assms by (intro loads_list loads_locvar) (auto simp: debug_ok_def)
  then have lv': "loads (load_list (nat (int (length lv))) (LoadLocVar nm))
      (concat (map (\<lambda>v. concat (locvar_blocks v)) lv)) lv" by simp
  have uv: "loads (load_list (length uv) (LoadString nm)) (concat (map (\<lambda>s. concat (string_blocks s)) uv)) (map (\<lambda>s. s) uv)"
    using assms by (intro loads_list loads_string) (auto simp: debug_ok_def)
  then have uv': "loads (load_list (nat (int (length uv))) (LoadString nm))
      (concat (map (\<lambda>s. concat (string_blocks s)) uv)) uv" by simp
  have block: "length (concat (map (le_enc 4) li)) = nat (int (length li)) * 4"
    using length_concat_enc [of 4 "\<lambda>x. x" li] by simp
  show ?thesis
    unfolding LoadDebug_def [abs_def]
    by (intro loads_bind [OF loads_length [OF ok(1)]] loads_bind [OF loads_block [OF block]]
        loads_bind [OF loads_length [OF ok(2)]] loads_bind [OF lv']
        loads_bind [OF loads_length [OF ok(3)]] loads_map' [OF uv'])
       (use lines in simp)
qed

definition no_debug :: "bool \<Rightarrow> 'a list \<Rightarrow> 'a list" where
  "no_debug st xs = (if st then [] else xs)"

lemma concat_concat_map: "concat (concat (map f xs)) = concat (map (\<lambda>x. concat (f x)) xs)"
  by (induction xs) simp_all

lemma loads_debug:
  assumes "st \<or> debug_ok li lv uv"
  shows "loads (LoadDebug nm) (concat (debug_blocks st li lv uv)) (no_debug st li, no_debug st lv, no_debug st uv)"
proof (cases st)
  case True
  have "debug_ok [] [] []" by (simp add: debug_ok_def len_ok_def)
  from loads_debug_full [OF this, of nm] True show ?thesis by (simp add: debug_blocks_def no_debug_def)
next
  case False
  with assms have "debug_ok li lv uv" by simp
  from loads_debug_full [OF this, of nm] False show ?thesis
    by (simp add: debug_blocks_def no_debug_def concat_concat_map)
qed

subsection \<open>The round trip\<close>

text \<open>
  What a reload gives: a function without a source, or with the one of its parent, takes the
  source of the function it is loaded in; a stripped chunk has no sources and no debug data.
\<close>

definition new_source :: "bool \<Rightarrow> string option \<Rightarrow> string option \<Rightarrow> string option \<Rightarrow> string option" where
  "new_source st pd pl src = (if src = pd \<or> st \<or> src = None then pl else src)"

fun reload :: "bool \<Rightarrow> string option \<Rightarrow> string option \<Rightarrow> Proto \<Rightarrow> Proto" where
  "reload st pd pl (Proto code ks ps lineinfo locvars upvalues source linedefined lastlinedefined
      nups numparams is_vararg maxstacksize) =
     Proto code ks (map (reload st source (new_source st pd pl source)) ps)
       (no_debug st lineinfo) (no_debug st locvars) (no_debug st upvalues) (new_source st pd pl source)
       linedefined lastlinedefined nups numparams is_vararg maxstacksize"

text \<open>The sizes fit their fields, the nesting is at most \<open>d\<close>, and every reloaded function passes the check.\<close>

fun proto_ok :: "(Proto \<Rightarrow> bool) \<Rightarrow> bool \<Rightarrow> nat \<Rightarrow> string option \<Rightarrow> string option \<Rightarrow> Proto \<Rightarrow> bool" where
  "proto_ok ck st d pd pl (Proto code ks ps lineinfo locvars upvalues source linedefined lastlinedefined
      nups numparams is_vararg maxstacksize) \<longleftrightarrow>
     0 < d \<and> len_ok code \<and> len_ok ks \<and> len_ok ps \<and> string_ok source \<and> int_ok linedefined \<and>
     int_ok lastlinedefined \<and> (\<forall>k \<in> set ks. const_ok k) \<and> (st \<or> debug_ok lineinfo locvars upvalues) \<and>
     (\<forall>g \<in> set ps. proto_ok ck st (d - 1) source (new_source st pd pl source) g) \<and>
     ck (reload st pd pl (Proto code ks ps lineinfo locvars upvalues source linedefined lastlinedefined
      nups numparams is_vararg maxstacksize))"

lemma loads_constants:
  assumes "len_ok ks" "len_ok ps" "\<forall>k \<in> set ks. const_ok k"
    and "\<And>g. g \<in> set ps \<Longrightarrow> loads lf (e g) (r g)"
  shows "loads (LoadConstants nm lf) (le_enc 4 (int (length ks)) @ concat (map (\<lambda>k. concat (const_blocks k)) ks) @
    le_enc 4 (int (length ps)) @ concat (map e ps)) (ks, map r ps)"
proof -
  have "loads (load_list (length ks) (LoadConstant nm)) (concat (map (\<lambda>k. concat (const_blocks k)) ks)) (map (\<lambda>k. k) ks)"
    using assms(3) by (intro loads_list loads_constant) auto
  then have ks: "loads (load_list (nat (int (length ks))) (LoadConstant nm))
      (concat (map (\<lambda>k. concat (const_blocks k)) ks)) ks" by simp
  have "loads (load_list (length ps) lf) (concat (map e ps)) (map r ps)"
    using assms(4) by (rule loads_list)
  then have ps: "loads (load_list (nat (int (length ps))) lf) (concat (map e ps)) (map r ps)" by simp
  show ?thesis
    unfolding LoadConstants_def [abs_def]
    by (intro loads_bind [OF loads_length [OF assms(1)]] loads_bind [OF ks]
        loads_bind [OF loads_length [OF assms(2)]] loads_map' [OF ps]) simp
qed

lemma loads_function:
  "proto_ok ck st d pd pl f \<Longrightarrow> nc + d \<le> LUAI_MAXCCALLS \<Longrightarrow>
   loads (LoadFunction ck nm nc pl) (concat (function_blocks st pd f)) (reload st pd pl f)"
proof (induction st pd f arbitrary: d pl nc rule: function_blocks.induct)
  case (1 st pd code ks ps lineinfo locvars upvalues source linedefined lastlinedefined
      nups numparams is_vararg maxstacksize)
  let ?f = "Proto code ks ps lineinfo locvars upvalues source linedefined lastlinedefined
      nups numparams is_vararg maxstacksize"
  let ?src = "new_source st pd pl source"
  let ?out = "if source = pd \<or> st then None else source"
  from "1.prems"(1) have ok: "0 < d" "len_ok code" "len_ok ks" "len_ok ps" "string_ok source" "int_ok linedefined"
    "int_ok lastlinedefined" "\<forall>k \<in> set ks. const_ok k" "st \<or> debug_ok lineinfo locvars upvalues"
    "\<And>g. g \<in> set ps \<Longrightarrow> proto_ok ck st (d - 1) source ?src g" "ck (reload st pd pl ?f)" by auto
  have nc: "\<not> nc + 1 > LUAI_MAXCCALLS" "nc + 1 + (d - 1) \<le> LUAI_MAXCCALLS" using "1.prems"(2) ok(1) by auto
  have children: "loads (\<lambda>S. LoadFunction ck nm (nc + 1) ?src S) (concat (function_blocks st source g))
      (reload st source ?src g)" if "g \<in> set ps" for g
    using "1.IH" [OF that ok(10) [OF that] nc(2)] .
  have out: "string_ok ?out" "(if ?out = None then pl else ?out) = ?src"
    using ok(5) by (auto simp: string_ok_def new_source_def)
  have "loads (\<lambda>S. if nc + 1 > LUAI_MAXCCALLS then load_error nm ''code too deep''
      else rbind (LoadString nm S) (\<lambda>(src, S).
        let source = (if src = None then pl else src) in
        rbind (LoadInt nm S) (\<lambda>(linedefined, S).
        rbind (LoadInt nm S) (\<lambda>(lastlinedefined, S).
        rbind (LoadByte nm S) (\<lambda>(nups, S).
        rbind (LoadByte nm S) (\<lambda>(numparams, S).
        rbind (LoadByte nm S) (\<lambda>(is_vararg, S).
        rbind (LoadByte nm S) (\<lambda>(maxstacksize, S).
        rbind (LoadCode nm S) (\<lambda>(code, S).
        rbind (LoadConstants nm (\<lambda>S. LoadFunction ck nm (nc + 1) source S) S) (\<lambda>((ks, ps), S).
        rbind (LoadDebug nm S) (\<lambda>((lineinfo, locvars, upvalues), S).
        let f = Proto code ks ps lineinfo locvars upvalues source linedefined lastlinedefined
                  nups numparams is_vararg maxstacksize in
        if \<not> ck f then load_error nm ''bad code'' else Inr (f, S))))))))))))
     (concat (string_blocks ?out) @ le_enc 4 linedefined @ le_enc 4 lastlinedefined @ [nups] @ [numparams] @
      [is_vararg] @ [maxstacksize] @ (le_enc 4 (int (length code)) @ concat (map (\<lambda>i. le_enc 4 (uint i)) code)) @
      (le_enc 4 (int (length ks)) @ concat (map (\<lambda>k. concat (const_blocks k)) ks) @
       le_enc 4 (int (length ps)) @ concat (map (\<lambda>g. concat (function_blocks st source g)) ps)) @
      concat (debug_blocks st lineinfo locvars upvalues) @ []) (reload st pd pl ?f)"
    unfolding if_not_P [OF nc(1)] Let_def
    apply (rule loads_bind [OF loads_string [OF out(1)]])
    apply (unfold out(2))
    apply (rule loads_bind [OF loads_ok [OF ok(6)]])
    apply (rule loads_bind [OF loads_ok [OF ok(7)]])
    apply (rule loads_bind [OF loads_byte])
    apply (rule loads_bind [OF loads_byte])
    apply (rule loads_bind [OF loads_byte])
    apply (rule loads_bind [OF loads_byte])
    apply (rule loads_bind [OF loads_code [OF ok(2)]])
    apply (rule loads_bind [OF loads_constants [OF ok(3,4,8) children]], assumption)
    apply (simp only: prod.case)
    apply (rule loads_bind [OF loads_debug [OF ok(9)]])
    using ok(11) apply (simp add: loads_return)
    done
  then show ?case
    unfolding LoadFunction.simps [of ck nm nc pl] by (simp add: concat_concat_map)
qed

lemma luaU_header_length [simp]: "length luaU_header = LUAC_HEADERSIZE"
  by (simp add: luaU_header_def LUAC_HEADERSIZE_def)

lemma write_append: "write_blocks (\<lambda>b w. (0, w @ b)) d bs = (0, d @ concat bs)"
  by (induction bs arbitrary: d) simp_all

fun has_sources :: "Proto \<Rightarrow> bool" where
  "has_sources (Proto code ks ps lineinfo locvars upvalues source linedefined lastlinedefined
      nups numparams is_vararg maxstacksize) \<longleftrightarrow> source \<noteq> None \<and> (\<forall>g \<in> set ps. has_sources g)"

lemma reload_same: "has_sources f \<Longrightarrow> pd = pl \<or> pd = None \<Longrightarrow> reload False pd pl f = f"
proof (induction f arbitrary: pd pl)
  case (Proto code ks ps lineinfo locvars upvalues source linedefined lastlinedefined
      nups numparams is_vararg maxstacksize)
  have "new_source False pd pl source = source" using Proto.prems by (auto simp: new_source_def)
  with Proto show ?case by (auto simp: no_debug_def intro!: map_idI)
qed

lemma undump_dump_aux:
  assumes "proto_ok checkcode st (LUAI_MAXCCALLS - nc) None (Some ''=?'') f" "nc \<le> LUAI_MAXCCALLS"
    and "luaU_dump f (\<lambda>b w. (0, w @ b)) [] st = (s, bytes)"
    and "concat (takeWhile (\<lambda>b. b \<noteq> []) blocks) = bytes @ rest"
  shows "s = 0 \<and>
    (\<exists>S'. luaU_undump checkcode nc (luaZ_init blocks) buff name = Inr (reload st None (Some ''=?'') f, S') \<and>
      zbytes (lZ S') = rest) \<and>
    (\<not> st \<and> has_sources f \<longrightarrow> reload st None (Some ''=?'') f = f)"
proof -
  have dump: "s = 0" "bytes = luaU_header @ concat (function_blocks st None f)"
    using assms(3) by (simp_all add: luaU_dump_blocks_aux write_append)
  define nm where "nm = (case name of [] \<Rightarrow> [] | c # cs \<Rightarrow> if c = CHR ''@'' \<or> c = CHR ''='' then cs
     else if c = CHR 0x1B then ''binary string'' else name)"
  let ?S = "\<lparr>lZ = luaZ_init blocks, lb = buff\<rparr>"
  have "zbytes (lZ ?S) = luaU_header @ (concat (function_blocks st None f) @ rest)"
    using assms(4) dump(2) by simp
  then obtain S1 where S1: "LoadBlock nm ?S LUAC_HEADERSIZE = Inr (luaU_header, S1)" "zinv (lZ S1)"
    "zbytes (lZ S1) = concat (function_blocks st None f) @ rest"
    using loadsD [OF loads_block [OF luaU_header_length], of ?S _ nm] by auto
  have "nc + (LUAI_MAXCCALLS - nc) \<le> LUAI_MAXCCALLS" using assms(2) by simp
  from loadsD [OF loads_function [OF assms(1) this] S1(2,3)]
  obtain S' where "LoadFunction checkcode nm nc (Some ''=?'') S1 = Inr (reload st None (Some ''=?'') f, S')"
    "zbytes (lZ S') = rest" by blast
  then have "luaU_undump checkcode nc (luaZ_init blocks) buff name = Inr (reload st None (Some ''=?'') f, S')"
    unfolding luaU_undump_def Let_def nm_def [symmetric] by (simp add: LoadHeader_def S1(1))
  with dump(1) reload_same [of f None "Some ''=?''"] \<open>zbytes (lZ S') = rest\<close> show ?thesis by auto
qed

text \<open>
  C16. Dumping a function and loading the bytes gives the function back, however the
  reader cuts them into blocks and whatever follows them: constants bit for bit, nested
  functions, debug data unless stripped, and the source name, which a stripped chunk and a function
  without one take from the loader. It holds for every function whose sizes fit their fields, whose nesting is
  within the C call limit, and which passes the code check.
\<close>

theorem undump_dump:
  assumes "proto_ok checkcode st (LUAI_MAXCCALLS - nc) None (Some ''=?'') f" "nc \<le> LUAI_MAXCCALLS"
    and "luaU_dump f (\<lambda>b w. (0, w @ b)) [] st = (s, bytes)"
    and "concat (takeWhile (\<lambda>b. b \<noteq> []) blocks) = bytes @ rest"
  shows "s = 0 \<and>
    (\<exists>S'. luaU_undump checkcode nc (luaZ_init blocks) buff name = Inr (reload st None (Some ''=?'') f, S') \<and>
      zbytes (lZ S') = rest) \<and>
    (\<not> st \<and> has_sources f \<longrightarrow> reload st None (Some ''=?'') f = f)"
  using assms by (rule undump_dump_aux)

definition demo_proto :: Proto where
  "demo_proto = Proto [0x1E, 0x40] [KNil, KBool True, KNumber 0x3FF8000000000000, KString (Some ''hi'')]
     [Proto [0x1E] [] [] [7] [] [] (Some ''@x'') 3 4 0 1 0 2]
     [1, 2] [\<lparr>varname = Some ''a'', startpc = 0, endpc = 1\<rparr>] [Some ''u''] (Some ''@x'') 0 9 1 0 2 3"

definition demo_bytes :: "byte list" where
  "demo_bytes = snd (luaU_dump demo_proto (\<lambda>b w. (0, w @ b)) [] False)"

theorem undump_dump_witness:
  "rmap fst (luaU_undump (\<lambda>_. True) 198 (luaZ_init [take 13 demo_bytes, drop 13 demo_bytes]) \<lparr>bcontents = [], buffsize = 0\<rparr> ''@x'')
     = Inr demo_proto \<and> length demo_bytes = 179"
proof -
  have ok: "proto_ok (\<lambda>_. True) False (LUAI_MAXCCALLS - 198) None (Some ''=?'') demo_proto"
    by (simp add: demo_proto_def LUAI_MAXCCALLS_def len_ok_def string_ok_def int_ok_def const_ok_def debug_ok_def)
  have len: "length demo_bytes = 179" by code_simp
  obtain s where dump: "luaU_dump demo_proto (\<lambda>b w. (0, w @ b)) [] False = (s, demo_bytes)"
    unfolding demo_bytes_def by (metis prod.collapse)
  have "take 13 demo_bytes \<noteq> []" "drop 13 demo_bytes \<noteq> []" using len by auto
  then have "concat (takeWhile (\<lambda>b. b \<noteq> []) [take 13 demo_bytes, drop 13 demo_bytes]) = demo_bytes @ []" by simp
  from undump_dump [OF ok _ dump this, of "\<lparr>bcontents = [], buffsize = 0\<rparr>" "''@x''"]
  have "\<exists>S'. luaU_undump (\<lambda>_. True) 198 (luaZ_init [take 13 demo_bytes, drop 13 demo_bytes])
       \<lparr>bcontents = [], buffsize = 0\<rparr> ''@x'' = Inr (demo_proto, S')"
    by (auto simp: LUAI_MAXCCALLS_def demo_proto_def)
  with len show ?thesis by auto
qed

subsection \<open>Loading arbitrary bytes\<close>

definition load_safe :: "(LoadState \<Rightarrow> ('a \<times> LoadState) res) \<Rightarrow> bool" where
  "load_safe ld \<longleftrightarrow> (\<forall>S. zinv (lZ S) \<longrightarrow> \<not> is_UB (ld S) \<and> (\<forall>x S'. ld S = Inr (x, S') \<longrightarrow> zinv (lZ S')))"

lemma load_safeD:
  "load_safe ld \<Longrightarrow> zinv (lZ S) \<Longrightarrow> \<not> is_UB (ld S)"
  "load_safe ld \<Longrightarrow> zinv (lZ S) \<Longrightarrow> ld S = Inr (x, S') \<Longrightarrow> zinv (lZ S')"
  unfolding load_safe_def by blast+

lemma safe_bind:
  assumes "load_safe m" "\<And>x. load_safe (f x)"
  shows "load_safe (\<lambda>S. rbind (m S) (\<lambda>(x, S). f x S))"
  unfolding load_safe_def
proof (intro allI impI)
  fix S :: LoadState assume S: "zinv (lZ S)"
  show "\<not> is_UB (rbind (m S) (\<lambda>(x, S). f x S)) \<and>
      (\<forall>x S'. rbind (m S) (\<lambda>(x, S). f x S) = Inr (x, S') \<longrightarrow> zinv (lZ S'))"
  proof (cases "m S")
    case (Inl e)
    with load_safeD(1) [OF assms(1) S] show ?thesis by simp
  next
    case (Inr xs)
    obtain x S1 where xs: "xs = (x, S1)" by (cases xs)
    with load_safeD(2) [OF assms(1) S] Inr have "zinv (lZ S1)" by simp
    with load_safeD [OF assms(2)] Inr xs show ?thesis by auto
  qed
qed

lemma safe_return [simp]: "load_safe (\<lambda>S. Inr (x, S))" "load_safe (\<lambda>S. load_error nm why)"
  by (simp_all add: load_safe_def)

lemma safe_map: "load_safe m \<Longrightarrow> load_safe (\<lambda>S. rmap (\<lambda>(x, S). (g x, S)) (m S))"
  unfolding load_safe_def by (auto simp: rmap_Inr_iff)

lemma safe_if: "(b \<Longrightarrow> load_safe f) \<Longrightarrow> (\<not> b \<Longrightarrow> load_safe g) \<Longrightarrow> load_safe (\<lambda>S. if b then f S else g S)"
  by (cases b) simp_all

lemma safe_prod: "(\<And>a b. load_safe (f a b)) \<Longrightarrow> load_safe (case x of (a, b) \<Rightarrow> f a b)"
  by (cases x) simp

lemma safe_block: "load_safe (\<lambda>S. LoadBlock nm S n)"
  unfolding load_safe_def
proof (intro allI impI)
  fix S :: LoadState assume S: "zinv (lZ S)"
  obtain z where z: "luaZ_read (lZ S) n = Inr (take n (zbytes (lZ S)), n - length (zbytes (lZ S)), z)"
    "n \<le> length (zbytes (lZ S)) \<longrightarrow> zinv z"
    using zio.rdn_all [OF S, of n] by blast
  then show "\<not> is_UB (LoadBlock nm S n) \<and> (\<forall>x S'. LoadBlock nm S n = Inr (x, S') \<longrightarrow> zinv (lZ S'))"
    by (auto simp: LoadBlock_def split: if_splits)
qed

lemma safe_char: "load_safe (LoadChar nm)"
  unfolding LoadChar_def [abs_def] by (rule safe_map [OF safe_block])

lemma safe_byte: "load_safe (LoadByte nm)"
  unfolding LoadByte_def [abs_def] by (rule safe_map [OF safe_char])

lemma safe_int: "load_safe (LoadInt nm)"
  unfolding LoadInt_def [abs_def] Let_def by (intro safe_bind safe_block safe_if safe_return)

lemma safe_number: "load_safe (LoadNumber nm)"
  unfolding LoadNumber_def [abs_def] by (rule safe_map [OF safe_block])

lemma safe_string: "load_safe (LoadString nm)"
  unfolding LoadString_def [abs_def] Let_def
proof (intro safe_bind safe_block safe_if safe_return)
  fix bs assume "\<not> nat (le_dec bs) = 0"
  let ?n = "nat (le_dec bs)"
  show "load_safe (\<lambda>S. if ?n \<le> buffsize (lb (S\<lparr>lb := luaZ_openspace (lb S) ?n\<rparr>))
     then rmap (\<lambda>(s, S). (Some (string_of (take (?n - 1) s)), S)) (LoadBlock nm (S\<lparr>lb := luaZ_openspace (lb S) ?n\<rparr>) ?n)
     else Inl (UB ''buffer write''))"
    unfolding load_safe_def
  proof (intro allI impI)
    fix S :: LoadState assume S: "zinv (lZ S)"
    then have S': "zinv (lZ (S\<lparr>lb := luaZ_openspace (lb S) ?n\<rparr>))" by simp
    have m: "load_safe (\<lambda>S. rmap (\<lambda>(s, S). (Some (string_of (take (?n - 1) s)), S)) (LoadBlock nm S ?n))"
      by (rule safe_map [OF safe_block])
    show "\<not> is_UB (if ?n \<le> buffsize (lb (S\<lparr>lb := luaZ_openspace (lb S) ?n\<rparr>))
        then rmap (\<lambda>(s, S). (Some (string_of (take (?n - 1) s)), S)) (LoadBlock nm (S\<lparr>lb := luaZ_openspace (lb S) ?n\<rparr>) ?n)
        else Inl (UB ''buffer write'')) \<and>
      (\<forall>x S'. (if ?n \<le> buffsize (lb (S\<lparr>lb := luaZ_openspace (lb S) ?n\<rparr>))
        then rmap (\<lambda>(s, S). (Some (string_of (take (?n - 1) s)), S)) (LoadBlock nm (S\<lparr>lb := luaZ_openspace (lb S) ?n\<rparr>) ?n)
        else Inl (UB ''buffer write'')) = Inr (x, S') \<longrightarrow> zinv (lZ S'))"
      using openspace_size [of ?n "lb S"] load_safeD [OF m S'] by simp
  qed
qed

lemma safe_list: "load_safe ld \<Longrightarrow> load_safe (load_list n ld)"
proof (induction n)
  case (Suc n)
  have "load_safe (\<lambda>S. rbind (ld S) (\<lambda>(x, S). rmap (\<lambda>(xs, S). (x # xs, S)) (load_list n ld S)))"
    using Suc by (intro safe_bind safe_map)
  then show ?case by (simp add: load_safe_def)
qed (simp add: load_safe_def)

lemmas safe_rules = safe_bind safe_block safe_if safe_return safe_map safe_char safe_byte safe_int safe_number
  safe_string safe_list

lemma safe_code: "load_safe (LoadCode nm)"
  unfolding LoadCode_def [abs_def] by (intro safe_rules)

lemma safe_constant: "load_safe (LoadConstant nm)"
  unfolding LoadConstant_def [abs_def] by (intro safe_rules)

lemma safe_constants: "load_safe lf \<Longrightarrow> load_safe (LoadConstants nm lf)"
  unfolding LoadConstants_def [abs_def] by (intro safe_rules safe_constant)

lemma safe_locvar: "load_safe (LoadLocVar nm)"
  unfolding LoadLocVar_def [abs_def] by (intro safe_rules)

lemma safe_debug: "load_safe (LoadDebug nm)"
  unfolding LoadDebug_def [abs_def] by (intro safe_rules safe_locvar)

lemma safe_function: "load_safe (LoadFunction checkcode nm nc p)"
proof (induction "LUAI_MAXCCALLS - nc" arbitrary: nc p rule: less_induct)
  case less
  have rec: "load_safe (\<lambda>S. LoadFunction checkcode nm (nc + 1) src S)" if "\<not> nc + 1 > LUAI_MAXCCALLS" for src
    using less [of "nc + 1" src] that by simp
  show ?case
    unfolding LoadFunction.simps [of checkcode nm nc p, abs_def] Let_def
    by (intro safe_rules safe_code safe_constants safe_debug safe_prod rec)
qed

text \<open>
  C17. Loading is total and memory safe: for every sequence of input blocks, chunk name and
  C call depth, \<open>luaU_undump\<close> either returns a function or raises a Lua error; it never reads past
  a block or writes past its buffer.
\<close>

theorem luaU_undump_safe: "\<not> is_UB (luaU_undump checkcode nc (luaZ_init blocks) buff name)"
proof -
  have "load_safe (\<lambda>S. rbind (rmap (\<lambda>S. ((), S)) (LoadHeader nm S)) (\<lambda>(u, S). LoadFunction checkcode nm nc p S))" for nm p
  proof (intro safe_bind safe_function)
    have eq: "rmap (\<lambda>S. ((), S)) (LoadHeader nm S) = rbind (LoadBlock nm S LUAC_HEADERSIZE)
        (\<lambda>(s, S). if s \<noteq> luaU_header then load_error nm ''bad header'' else Inr ((), S))" for S
      by (cases "LoadBlock nm S LUAC_HEADERSIZE") (auto simp: LoadHeader_def load_error_def)
    show "load_safe (\<lambda>S. rmap (\<lambda>S. ((), S)) (LoadHeader nm S))"
      unfolding eq by (intro safe_rules)
  qed
  moreover have "rbind (rmap (\<lambda>S. ((), S)) m) (\<lambda>(u, S). g S) = rbind m g" for m :: "LoadState res" and g :: "LoadState \<Rightarrow> (Proto \<times> LoadState) res"
    by (cases m) simp_all
  ultimately show ?thesis
    unfolding luaU_undump_def Let_def load_safe_def by simp
qed

end
