(* ===== verification/Lexer.thy ===== *)
theory Lexer
  imports Zio
begin

text \<open>
  \<open>lua/llex.c\<close> and \<open>lua/llex.h\<close>: the lexical analyser. A step takes the \<open>LexState\<close> and returns
  it updated; \<open>luaX_lexerror\<close> is the error value with the message that was pushed. The string to
  number conversion, the printing of a number, the locale and the power function are the C
  library's, the record \<open>clib\<close> that the steps take. Violated assertions, reads and writes outside the token buffer and
  a signed overflow are \<open>UB\<close>.
\<close>

record clib =
  c_strtod :: "string \<Rightarrow> lua_Number \<times> nat"
  c_num2str :: "lua_Number \<Rightarrow> string"
  c_ptr2str :: "nat \<Rightarrow> string"
  c_localeconv :: "string option"
  c_pow :: "lua_Number \<Rightarrow> lua_Number \<Rightarrow> lua_Number"

subsection \<open>Tokens\<close>

definition FIRST_RESERVED :: int where "FIRST_RESERVED = 257"

definition luaX_tokens :: "string list" where
  "luaX_tokens =
     [''and'', ''break'', ''do'', ''else'', ''elseif'',
      ''end'', ''false'', ''for'', ''function'', ''if'',
      ''in'', ''local'', ''nil'', ''not'', ''or'', ''repeat'',
      ''return'', ''then'', ''true'', ''until'', ''while'',
      ''..'', ''...'', ''=='', ''>='', ''<='', ''~='',
      ''<number>'', ''<name>'', ''<string>'', ''<eof>'']"

definition TK_AND :: int where "TK_AND = 257"
definition TK_BREAK :: int where "TK_BREAK = 258"
definition TK_DO :: int where "TK_DO = 259"
definition TK_ELSE :: int where "TK_ELSE = 260"
definition TK_ELSEIF :: int where "TK_ELSEIF = 261"
definition TK_END :: int where "TK_END = 262"
definition TK_FALSE :: int where "TK_FALSE = 263"
definition TK_FOR :: int where "TK_FOR = 264"
definition TK_FUNCTION :: int where "TK_FUNCTION = 265"
definition TK_IF :: int where "TK_IF = 266"
definition TK_IN :: int where "TK_IN = 267"
definition TK_LOCAL :: int where "TK_LOCAL = 268"
definition TK_NIL :: int where "TK_NIL = 269"
definition TK_NOT :: int where "TK_NOT = 270"
definition TK_OR :: int where "TK_OR = 271"
definition TK_REPEAT :: int where "TK_REPEAT = 272"
definition TK_RETURN :: int where "TK_RETURN = 273"
definition TK_THEN :: int where "TK_THEN = 274"
definition TK_TRUE :: int where "TK_TRUE = 275"
definition TK_UNTIL :: int where "TK_UNTIL = 276"
definition TK_WHILE :: int where "TK_WHILE = 277"
definition TK_CONCAT :: int where "TK_CONCAT = 278"
definition TK_DOTS :: int where "TK_DOTS = 279"
definition TK_EQ :: int where "TK_EQ = 280"
definition TK_GE :: int where "TK_GE = 281"
definition TK_LE :: int where "TK_LE = 282"
definition TK_NE :: int where "TK_NE = 283"
definition TK_NUMBER :: int where "TK_NUMBER = 284"
definition TK_NAME :: int where "TK_NAME = 285"
definition TK_STRING :: int where "TK_STRING = 286"
definition TK_EOS :: int where "TK_EOS = 287"

lemmas token_defs = FIRST_RESERVED_def TK_AND_def TK_BREAK_def TK_DO_def TK_ELSE_def TK_ELSEIF_def
  TK_END_def TK_FALSE_def TK_FOR_def TK_FUNCTION_def TK_IF_def TK_IN_def TK_LOCAL_def TK_NIL_def
  TK_NOT_def TK_OR_def TK_REPEAT_def TK_RETURN_def TK_THEN_def TK_TRUE_def TK_UNTIL_def TK_WHILE_def
  TK_CONCAT_def TK_DOTS_def TK_EQ_def TK_GE_def TK_LE_def TK_NE_def TK_NUMBER_def TK_NAME_def
  TK_STRING_def TK_EOS_def

definition NUM_RESERVED :: int where "NUM_RESERVED = TK_WHILE - FIRST_RESERVED + 1"

text \<open>\<open>luaX_init\<close> marks the reserved words in the string table: 0 is no reserved word.\<close>

definition luaX_init :: "string \<Rightarrow> int" where
  "luaX_init = fold (\<lambda>i reserved. reserved(luaX_tokens ! i := int i + 1)) [0..<nat NUM_RESERVED] (\<lambda>_. 0)"

text \<open>The union \<open>SemInfo\<close>: what it holds last.\<close>

datatype SemInfo = NoInfo | InfoR lua_Number | InfoTS string

record Token =
  token :: int
  seminfo :: SemInfo

text \<open>
  A table as far as the analyser and the parser use one: the value of every key, \<open>Nil\<close> when it
  has none. Keys are compared by \<open>luaO_rawequalObj\<close>, for which the two zeros are one key.
\<close>

type_synonym ltable = "TValue \<Rightarrow> TValue"

definition h_get :: "ltable \<Rightarrow> TValue \<Rightarrow> TValue" where "h_get h k = h (tkey k)"
definition h_set :: "ltable \<Rightarrow> TValue \<Rightarrow> TValue \<Rightarrow> ltable" where "h_set h k v = h(tkey k := v)"

text \<open>
  \<open>has_fs\<close> says that \<open>ls->fs\<close> is not null; \<open>fsh\<close> is then the table \<open>ls->fs->h\<close>.
\<close>

record LexState =
  current :: int
  linenumber :: int
  lastline :: int
  tok :: Token
  lookahead :: Token
  lz :: ZIO
  lbuff :: Mbuffer
  lsource :: string
  decpoint :: char
  has_fs :: bool
  fsh :: ltable

subsection \<open>Errors and the token buffer\<close>

definition MAXSRC :: nat where "MAXSRC = 80"
definition MAX_SIZET :: int where "MAX_SIZET = 18446744073709551613"

text \<open>\<open>luaX_lexerror (ls, msg, 0)\<close>: the message without the token.\<close>

definition lexmsg :: "clib \<Rightarrow> LexState \<Rightarrow> string \<Rightarrow> string res" where
  "lexmsg C ls msg =
     rbind (luaO_chunkid (lsource ls) MAXSRC) (\<lambda>b.
     luaO_pushvfstring (c_num2str C) (c_ptr2str C) ''%s:%d: %s''
       [VString (Some b), VInt (linenumber ls), VString (Some msg)])"

definition lexerror0 :: "clib \<Rightarrow> LexState \<Rightarrow> string \<Rightarrow> 'a res" where
  "lexerror0 C ls msg = rbind (lexmsg C ls msg) (\<lambda>m. Inl (LuaError LUA_ERRSYNTAX m))"

definition put_byte :: "LexState \<Rightarrow> int \<Rightarrow> LexState res" where
  "put_byte ls c =
     (let b = lbuff ls in
      if length (bcontents b) < buffsize b
      then Inr (ls\<lparr>lbuff := b\<lparr>bcontents := bcontents b @ [char_of c]\<rparr>\<rparr>)
      else Inl (UB ''token buffer write''))"

definition lex_save :: "clib \<Rightarrow> LexState \<Rightarrow> int \<Rightarrow> LexState res" where
  "lex_save C ls c =
     (let b = lbuff ls in
      if length (bcontents b) + 1 > buffsize b then
        if int (buffsize b) \<ge> MAX_SIZET div 2 then lexerror0 C ls ''lexical element too long''
        else put_byte (ls\<lparr>lbuff := luaZ_resizebuffer b (buffsize b * 2)\<rparr>) c
      else put_byte ls c)"

definition luaX_token2str :: "clib \<Rightarrow> int \<Rightarrow> string res" where
  "luaX_token2str C t =
     (if t < FIRST_RESERVED then
        if \<not> (0 \<le> t \<and> t < 256) then Inl (UB ''lua_assert'')
        else if iscntrl t then luaO_pushvfstring (c_num2str C) (c_ptr2str C) ''char(%d)'' [VInt t]
        else luaO_pushvfstring (c_num2str C) (c_ptr2str C) ''%c'' [VInt t]
      else aget luaX_tokens (t - FIRST_RESERVED))"

text \<open>The C string at the start of the buffer: the code must have saved a zero byte.\<close>

definition buffer_cstr :: "Mbuffer \<Rightarrow> string res" where
  "buffer_cstr b = (if NUL \<in> set (bcontents b) then Inr (cstr (bcontents b)) else Inl (UB ''string read''))"

definition txtToken :: "clib \<Rightarrow> LexState \<Rightarrow> int \<Rightarrow> string res" where
  "txtToken C ls t =
     (if t = TK_NAME \<or> t = TK_STRING \<or> t = TK_NUMBER then
        rbind (lex_save C ls 0) (\<lambda>ls. buffer_cstr (lbuff ls))
      else luaX_token2str C t)"

definition luaX_lexerror :: "clib \<Rightarrow> LexState \<Rightarrow> string \<Rightarrow> int \<Rightarrow> 'a res" where
  "luaX_lexerror C ls msg t =
     rbind (lexmsg C ls msg) (\<lambda>msg.
     if t \<noteq> 0 then
       rbind (txtToken C ls t) (\<lambda>txt.
       rbind (luaO_pushvfstring (c_num2str C) (c_ptr2str C) (''%s near '' @ [CHR 0x27] @ ''%s'' @ [CHR 0x27])
                [VString (Some msg), VString (Some txt)]) (\<lambda>m.
       Inl (LuaError LUA_ERRSYNTAX m)))
     else Inl (LuaError LUA_ERRSYNTAX msg))"

definition luaX_syntaxerror :: "clib \<Rightarrow> LexState \<Rightarrow> string \<Rightarrow> 'a res" where
  "luaX_syntaxerror C ls msg = luaX_lexerror C ls msg (token (tok ls))"

definition luaX_newstring :: "LexState \<Rightarrow> string \<Rightarrow> (string \<times> LexState) res" where
  "luaX_newstring ls ts =
     (if \<not> has_fs ls then Inl (UB ''null FuncState'')
      else Inr (ts, if h_get (fsh ls) (Str ts) = Nil then ls\<lparr>fsh := h_set (fsh ls) (Str ts) (Boolean True)\<rparr> else ls))"

text \<open>\<open>luaX_newstring (ls, luaZ_buffer (b) + off, len)\<close>: the bytes must lie in what was saved.\<close>

definition newstring_at :: "LexState \<Rightarrow> nat \<Rightarrow> nat \<Rightarrow> (string \<times> LexState) res" where
  "newstring_at ls off len =
     (if off + len \<le> length (bcontents (lbuff ls))
      then luaX_newstring ls (take len (drop off (bcontents (lbuff ls))))
      else Inl (UB ''token buffer read''))"

subsection \<open>Reading characters\<close>

definition lex_next :: "LexState \<Rightarrow> LexState res" where
  "lex_next ls = rbind (zgetc (lz ls)) (\<lambda>(c, z). Inr (ls\<lparr>current := c, lz := z\<rparr>))"

definition save_and_next :: "clib \<Rightarrow> LexState \<Rightarrow> LexState res" where
  "save_and_next C ls = rbind (lex_save C ls (current ls)) lex_next"

definition currIsNewline :: "LexState \<Rightarrow> bool" where
  "currIsNewline ls \<longleftrightarrow> current ls = 10 \<or> current ls = 13"

definition reset_buffer :: "LexState \<Rightarrow> LexState" where
  "reset_buffer ls = ls\<lparr>lbuff := luaZ_resetbuffer (lbuff ls)\<rparr>"

definition inclinenumber :: "clib \<Rightarrow> LexState \<Rightarrow> LexState res" where
  "inclinenumber C ls =
     (let old = current ls in
      if \<not> currIsNewline ls then Inl (UB ''lua_assert'')
      else
        rbind (lex_next ls) (\<lambda>ls.
        rbind (if currIsNewline ls \<and> current ls \<noteq> old then lex_next ls else Inr ls) (\<lambda>ls.
        let ls = ls\<lparr>linenumber := linenumber ls + 1\<rparr> in
        if linenumber ls \<ge> MAX_INT then luaX_syntaxerror C ls ''chunk has too many lines''
        else Inr ls)))"

text \<open>\<open>ls0\<close> is the \<open>LexState\<close> as the caller declares it: the fields not set here keep its values.\<close>

definition luaX_setinput :: "LexState \<Rightarrow> ZIO \<Rightarrow> string \<Rightarrow> LexState res" where
  "luaX_setinput ls0 z src =
     lex_next (ls0\<lparr>decpoint := CHR ''.'', lookahead := (lookahead ls0)\<lparr>token := TK_EOS\<rparr>, lz := z,
       has_fs := False, linenumber := 1, lastline := 1, lsource := src,
       lbuff := luaZ_resizebuffer (lbuff ls0) LUA_MINBUFFER\<rparr>)"

text \<open>
  What \<open>open_func\<close> of the parser does to the \<open>LexState\<close>: the new \<open>FuncState\<close> becomes the current
  one, with an empty table of constants.
\<close>

definition open_func :: "LexState \<Rightarrow> LexState" where
  "open_func ls = ls\<lparr>has_fs := True, fsh := (\<lambda>_. Nil)\<rparr>"

text \<open>\<open>strchr\<close> also finds the terminator of the set.\<close>

definition strchr :: "string \<Rightarrow> int \<Rightarrow> bool" where
  "strchr cs c \<longleftrightarrow> char_of c \<in> set (cstr cs) \<union> {NUL}"

definition check_next :: "clib \<Rightarrow> LexState \<Rightarrow> string \<Rightarrow> (bool \<times> LexState) res" where
  "check_next C ls cs =
     (if \<not> strchr cs (current ls) then Inr (False, ls)
      else rmap (Pair True) (save_and_next C ls))"

subsection \<open>Every loop consumes a character\<close>

definition zsize :: "ZIO \<Rightarrow> nat" where
  "zsize z = length (zp z) + sum_list (map (\<lambda>b. 1 + length b) (zreader z))"

definition lsize :: "LexState \<Rightarrow> nat" where
  "lsize ls = (if current ls = EOZ then 0 else 1) + zsize (lz ls)"

lemma zgetc_size: "zgetc z = Inr (c, z') \<Longrightarrow> zsize z' \<le> zsize z \<and> (c \<noteq> EOZ \<longrightarrow> zsize z' < zsize z)"
  by (auto simp: zgetc_def luaZ_fill_def zsize_def split: if_splits list.splits)

lemma lex_next_size:
  "lex_next ls = Inr ls' \<Longrightarrow> lsize ls' \<le> lsize ls \<and> (current ls \<noteq> EOZ \<longrightarrow> lsize ls' < lsize ls)"
  by (auto simp: lex_next_def lsize_def dest!: zgetc_size)

lemma lexerror0_Inr [simp]: "lexerror0 C ls msg \<noteq> Inr a"
  by (auto simp: lexerror0_def)

lemma luaX_lexerror_Inr [simp]: "luaX_lexerror C ls msg t \<noteq> Inr a" "luaX_syntaxerror C ls msg \<noteq> Inr a"
  by (auto simp: luaX_lexerror_def luaX_syntaxerror_def split: if_splits)

lemma lex_save_Inr:
  "lex_save C ls c = Inr ls' \<Longrightarrow>
     \<exists>n \<ge> buffsize (lbuff ls). ls' = ls\<lparr>lbuff := \<lparr>bcontents = bcontents (lbuff ls) @ [char_of c], buffsize = n\<rparr>\<rparr> \<and>
       length (bcontents (lbuff ls)) < n"
  by (rule exI [of _ "buffsize (lbuff ls')"], cases "lbuff ls")
     (auto simp: lex_save_def put_byte_def Let_def luaZ_resizebuffer_def split: if_splits)

lemma lex_save_size: "lex_save C ls c = Inr ls' \<Longrightarrow> lsize ls' = lsize ls \<and> current ls' = current ls"
  by (auto dest!: lex_save_Inr simp: lsize_def)

lemma save_and_next_size:
  "save_and_next C ls = Inr ls' \<Longrightarrow> lsize ls' \<le> lsize ls \<and> (current ls \<noteq> EOZ \<longrightarrow> lsize ls' < lsize ls)"
  unfolding save_and_next_def by (auto dest!: lex_save_size lex_next_size)

lemmas lex_next_le = lex_next_size [THEN conjunct1]
  and save_and_next_le = save_and_next_size [THEN conjunct1]

lemma reset_buffer_size [simp]:
  "lsize (reset_buffer ls) = lsize ls" "current (reset_buffer ls) = current ls"
  by (simp_all add: reset_buffer_def lsize_def)

lemma lsize_linenumber [simp]: "lsize (ls\<lparr>linenumber := k\<rparr>) = lsize ls"
  by (simp add: lsize_def)

lemma inclinenumber_size: "inclinenumber C ls = Inr ls' \<Longrightarrow> lsize ls' < lsize ls"
  by (auto simp: inclinenumber_def Let_def EOZ_def currIsNewline_def dest!: lex_next_size split: if_splits)

subsection \<open>Numerals\<close>

definition buffreplace :: "LexState \<Rightarrow> char \<Rightarrow> char \<Rightarrow> LexState" where
  "buffreplace ls old new =
     ls\<lparr>lbuff := (lbuff ls)\<lparr>bcontents := map (\<lambda>c. if c = old then new else c) (bcontents (lbuff ls))\<rparr>\<rparr>"

definition buffer_number :: "clib \<Rightarrow> LexState \<Rightarrow> lua_Number option res" where
  "buffer_number C ls = rmap (luaO_str2d (c_strtod C)) (buffer_cstr (lbuff ls))"

definition trydecpoint :: "clib \<Rightarrow> LexState \<Rightarrow> (lua_Number \<times> LexState) res" where
  "trydecpoint C ls =
     (let old = decpoint ls in
      rbind (case c_localeconv C of Some point \<Rightarrow> rd point 0 | None \<Rightarrow> Inr (CHR ''.'')) (\<lambda>new.
      let ls = ls\<lparr>decpoint := new\<rparr>; ls = buffreplace ls old new in
      rbind (buffer_number C ls) (\<lambda>r.
      case r of
        None \<Rightarrow> luaX_lexerror C (buffreplace ls (decpoint ls) (CHR ''.'')) ''malformed number'' TK_NUMBER
      | Some d \<Rightarrow> Inr (d, ls))))"

function digits_loop :: "clib \<Rightarrow> LexState \<Rightarrow> LexState res" where
  "digits_loop C ls =
     (if isdigit (current ls) \<or> current ls = 46 then rbind (save_and_next C ls) (digits_loop C)
      else Inr ls)"
  by pat_completeness auto
termination
  by (relation "measure (\<lambda>(C, ls). lsize ls)")
     (auto dest: save_and_next_size simp: isdigit_def EOZ_def)

function name_loop :: "clib \<Rightarrow> LexState \<Rightarrow> LexState res" where
  "name_loop C ls =
     (if isalnum (current ls) \<or> current ls = 95 then rbind (save_and_next C ls) (name_loop C)
      else Inr ls)"
  by pat_completeness auto
termination
  by (relation "measure (\<lambda>(C, ls). lsize ls)")
     (auto dest: save_and_next_size simp: ctype_defs EOZ_def)

declare digits_loop.simps [simp del] name_loop.simps [simp del]

definition read_numeral :: "clib \<Rightarrow> LexState \<Rightarrow> (lua_Number \<times> LexState) res" where
  "read_numeral C ls =
     (if \<not> isdigit (current ls) then Inl (UB ''lua_assert'')
      else
        rbind (save_and_next C ls) (\<lambda>ls.
        rbind (digits_loop C ls) (\<lambda>ls.
        rbind (check_next C ls ''Ee'') (\<lambda>(e, ls).
        rbind (if e then rmap snd (check_next C ls ''+-'') else Inr ls) (\<lambda>ls.
        rbind (name_loop C ls) (\<lambda>ls.
        rbind (lex_save C ls 0) (\<lambda>ls.
        let ls = buffreplace ls (CHR ''.'') (decpoint ls) in
        rbind (buffer_number C ls) (\<lambda>r.
        case r of None \<Rightarrow> trydecpoint C ls | Some d \<Rightarrow> Inr (d, ls)))))))))"

subsection \<open>Long strings\<close>

function sep_loop :: "clib \<Rightarrow> LexState \<Rightarrow> int \<Rightarrow> (int \<times> LexState) res" where
  "sep_loop C ls count =
     (if current ls = 61 then
        rbind (save_and_next C ls) (\<lambda>ls.
        if count + 1 < 2 ^ 31 then sep_loop C ls (count + 1) else Inl (UB ''signed overflow''))
      else Inr (count, ls))"
  by pat_completeness auto
termination
  by (relation "measure (\<lambda>(C, ls, count). lsize ls)") (auto dest: save_and_next_size simp: EOZ_def)

declare sep_loop.simps [simp del]

definition skip_sep :: "clib \<Rightarrow> LexState \<Rightarrow> (int \<times> LexState) res" where
  "skip_sep C ls =
     (let s = current ls in
      if \<not> (s = 91 \<or> s = 93) then Inl (UB ''lua_assert'')
      else
        rbind (save_and_next C ls) (\<lambda>ls.
        rbind (sep_loop C ls 0) (\<lambda>(count, ls).
        Inr (if current ls = s then count else (- count) - 1, ls))))"

text \<open>
  One round of the loop of \<open>read_long_string\<close>; the boolean is the jump to \<open>endloop\<close>. The
  repository compiles with \<open>LUA_COMPAT_LSTR\<close> equal to 1. \<open>str\<close> is \<open>seminfo \<noteq> NULL\<close>:
  a comment is read with a null pointer.
\<close>

definition long_step :: "clib \<Rightarrow> bool \<Rightarrow> int \<Rightarrow> LexState \<Rightarrow> (bool \<times> LexState) res" where
  "long_step C str sep ls =
     (if current ls = EOZ then
        luaX_lexerror C ls (if str then ''unfinished long string'' else ''unfinished long comment'') TK_EOS
      else if current ls = 91 then
        rbind (skip_sep C ls) (\<lambda>(n, ls).
        if n = sep then
          rbind (save_and_next C ls) (\<lambda>ls.
          if sep = 0 then luaX_lexerror C ls ''nesting of [[...]] is deprecated'' 91
          else Inr (False, ls))
        else Inr (False, ls))
      else if current ls = 93 then
        rbind (skip_sep C ls) (\<lambda>(n, ls).
        if n = sep then rmap (Pair True) (save_and_next C ls) else Inr (False, ls))
      else if current ls = 10 \<or> current ls = 13 then
        rbind (lex_save C ls 10) (\<lambda>ls.
        rbind (inclinenumber C ls) (\<lambda>ls.
        Inr (False, if str then ls else reset_buffer ls)))
      else rmap (Pair False) (if str then save_and_next C ls else lex_next ls))"

lemma sep_loop_size: "sep_loop C ls k = Inr (n, ls') \<Longrightarrow> lsize ls' \<le> lsize ls \<and> k \<le> n"
proof (induction C ls k rule: sep_loop.induct)
  case (1 C ls k)
  note eq = sep_loop.simps [of C ls k]
  from "1.prems" show ?case unfolding eq
    by (auto split: if_splits dest: save_and_next_size dest!: "1.IH")
qed

lemma skip_sep_size: "skip_sep C ls = Inr (n, ls') \<Longrightarrow> lsize ls' < lsize ls"
  by (auto simp: skip_sep_def Let_def EOZ_def split: if_splits dest!: save_and_next_size sep_loop_size)

lemma long_step_size: "long_step C str sep ls = Inr (False, ls') \<Longrightarrow> lsize ls' < lsize ls"
  by (auto simp: long_step_def res_simps split: if_splits
        dest!: save_and_next_size skip_sep_size lex_save_size inclinenumber_size lex_next_size)

function long_loop :: "clib \<Rightarrow> bool \<Rightarrow> int \<Rightarrow> LexState \<Rightarrow> LexState res" where
  "long_loop C str sep ls =
     rbind (long_step C str sep ls) (\<lambda>(fin, ls). if fin then Inr ls else long_loop C str sep ls)"
  by pat_completeness auto
termination
  by (relation "measure (\<lambda>(C, str, sep, ls). lsize ls)") (auto dest: long_step_size)

declare long_loop.simps [simp del]

definition read_long_string :: "clib \<Rightarrow> bool \<Rightarrow> int \<Rightarrow> LexState \<Rightarrow> (SemInfo \<times> LexState) res" where
  "read_long_string C str sep ls =
     rbind (save_and_next C ls) (\<lambda>ls.
     rbind (if currIsNewline ls then inclinenumber C ls else Inr ls) (\<lambda>ls.
     rbind (long_loop C str sep ls) (\<lambda>ls.
     if str then
       rmap (\<lambda>(ts, ls). (InfoTS ts, ls))
         (newstring_at ls (nat (2 + sep)) (size_sub (length (bcontents (lbuff ls))) (nat (2 * (2 + sep)))))
     else Inr (NoInfo, ls))))"

subsection \<open>Quoted strings\<close>

text \<open>
  One round of the loop of \<open>read_string\<close>, which the caller enters when \<open>current\<close> is not the
  delimiter. \<open>esc_digits\<close> is the loop over at most three digits of a decimal escape.
\<close>

definition simple_escape :: "int \<Rightarrow> int option" where
  "simple_escape c =
     (if c = 97 then Some 7 else if c = 98 then Some 8 else if c = 102 then Some 12
      else if c = 110 then Some 10 else if c = 114 then Some 13 else if c = 116 then Some 9
      else if c = 118 then Some 11 else None)"

fun esc_digits :: "nat \<Rightarrow> int \<Rightarrow> LexState \<Rightarrow> (int \<times> LexState) res" where
  "esc_digits 0 c ls = Inr (c, ls)"
| "esc_digits (Suc i) c ls =
     (let c = 10 * c + (current ls - 48) in
      rbind (lex_next ls) (\<lambda>ls.
      if i \<noteq> 0 \<and> isdigit (current ls) then esc_digits i c ls else Inr (c, ls)))"

definition read_escape :: "clib \<Rightarrow> LexState \<Rightarrow> LexState res" where
  "read_escape C ls =
     rbind (lex_next ls) (\<lambda>ls.
     case simple_escape (current ls) of
       Some c \<Rightarrow> rbind (lex_save C ls c) lex_next
     | None \<Rightarrow>
         if currIsNewline ls then rbind (lex_save C ls 10) (inclinenumber C)
         else if current ls = EOZ then Inr ls
         else if \<not> isdigit (current ls) then save_and_next C ls
         else
           rbind (esc_digits 3 0 ls) (\<lambda>(c, ls).
           if c > 255 then luaX_lexerror C ls ''escape sequence too large'' TK_STRING
           else lex_save C ls c))"

definition string_step :: "clib \<Rightarrow> LexState \<Rightarrow> LexState res" where
  "string_step C ls =
     (if current ls = EOZ then luaX_lexerror C ls ''unfinished string'' TK_EOS
      else if currIsNewline ls then luaX_lexerror C ls ''unfinished string'' TK_STRING
      else if current ls = 92 then read_escape C ls
      else save_and_next C ls)"

lemma esc_digits_size: "esc_digits i c ls = Inr (d, ls') \<Longrightarrow> lsize ls' \<le> lsize ls"
proof (induction i c ls rule: esc_digits.induct)
  case (2 i c ls)
  from "2.prems" show ?case
    by (auto simp: Let_def split: if_splits intro: lex_next_le order_trans [OF "2.IH" [OF refl] lex_next_le])
qed simp

lemma read_escape_size:
  "read_escape C ls = Inr ls' \<Longrightarrow> current ls \<noteq> EOZ \<Longrightarrow> lsize ls' < lsize ls"
  unfolding read_escape_def
  by (auto split: if_splits option.splits dest!: lex_next_size lex_save_size inclinenumber_size
        save_and_next_size esc_digits_size)

lemma string_step_size: "string_step C ls = Inr ls' \<Longrightarrow> lsize ls' < lsize ls"
  by (auto simp: string_step_def split: if_splits dest!: read_escape_size save_and_next_size)

function string_loop :: "clib \<Rightarrow> int \<Rightarrow> LexState \<Rightarrow> LexState res" where
  "string_loop C del ls =
     (if current ls = del then Inr ls else rbind (string_step C ls) (string_loop C del))"
  by pat_completeness auto
termination
  by (relation "measure (\<lambda>(C, del, ls). lsize ls)") (auto dest: string_step_size)

declare string_loop.simps [simp del]

definition read_string :: "clib \<Rightarrow> int \<Rightarrow> LexState \<Rightarrow> (string \<times> LexState) res" where
  "read_string C del ls =
     rbind (save_and_next C ls) (\<lambda>ls.
     rbind (string_loop C del ls) (\<lambda>ls.
     rbind (save_and_next C ls) (\<lambda>ls.
     newstring_at ls 1 (size_sub (length (bcontents (lbuff ls))) 2))))"

subsection \<open>The analyser\<close>

function skip_line :: "LexState \<Rightarrow> LexState res" where
  "skip_line ls =
     (if \<not> currIsNewline ls \<and> current ls \<noteq> EOZ then rbind (lex_next ls) skip_line else Inr ls)"
  by pat_completeness auto
termination by (relation "measure lsize") (auto dest: lex_next_size)

declare skip_line.simps [simp del]

text \<open>
  One round of the loop of \<open>llex\<close>: \<open>None\<close> is a \<open>continue\<close>. \<open>single\<close> returns a token that
  one character may extend to another.
\<close>

definition single :: "int \<Rightarrow> int \<Rightarrow> LexState \<Rightarrow> (Token option \<times> LexState) res" where
  "single t t2 ls =
     (let c = current ls in
      rbind (lex_next ls) (\<lambda>ls.
      if current ls \<noteq> 61 then Inr (Some \<lparr>token = t, seminfo = NoInfo\<rparr>, ls)
      else rmap (Pair (Some \<lparr>token = t2, seminfo = NoInfo\<rparr>)) (lex_next ls)))"

definition llex_comment :: "clib \<Rightarrow> LexState \<Rightarrow> LexState res" where
  "llex_comment C ls =
     rbind (lex_next ls) (\<lambda>ls.
     if current ls = 91 then
       rbind (skip_sep C ls) (\<lambda>(sep, ls).
       let ls = reset_buffer ls in
       if sep \<ge> 0 then rmap (\<lambda>(_, ls). reset_buffer ls) (read_long_string C False sep ls)
       else skip_line ls)
     else skip_line ls)"

definition llex_name :: "clib \<Rightarrow> LexState \<Rightarrow> (Token option \<times> LexState) res" where
  "llex_name C ls =
     rbind (save_and_next C ls) (\<lambda>ls.
     rbind (name_loop C ls) (\<lambda>ls.
     rbind (newstring_at ls 0 (length (bcontents (lbuff ls)))) (\<lambda>(ts, ls).
     if luaX_init ts > 0
     then Inr (Some \<lparr>token = luaX_init ts - 1 + FIRST_RESERVED, seminfo = NoInfo\<rparr>, ls)
     else Inr (Some \<lparr>token = TK_NAME, seminfo = InfoTS ts\<rparr>, ls))))"

definition llex_number :: "clib \<Rightarrow> LexState \<Rightarrow> (Token option \<times> LexState) res" where
  "llex_number C ls =
     rmap (\<lambda>(d, ls). (Some \<lparr>token = TK_NUMBER, seminfo = InfoR d\<rparr>, ls)) (read_numeral C ls)"

definition llex_step :: "clib \<Rightarrow> LexState \<Rightarrow> (Token option \<times> LexState) res" where
  "llex_step C ls =
     (let c = current ls; simple = (\<lambda>t. Some \<lparr>token = t, seminfo = NoInfo\<rparr>) in
      if c = 10 \<or> c = 13 then rmap (Pair None) (inclinenumber C ls)
      else if c = 45 then
        rbind (lex_next ls) (\<lambda>ls.
        if current ls \<noteq> 45 then Inr (simple 45, ls) else rmap (Pair None) (llex_comment C ls))
      else if c = 91 then
        rbind (skip_sep C ls) (\<lambda>(sep, ls).
        if sep \<ge> 0 then
          rbind (read_long_string C True sep ls) (\<lambda>(info, ls).
          Inr (Some \<lparr>token = TK_STRING, seminfo = info\<rparr>, ls))
        else if sep = - 1 then Inr (simple 91, ls)
        else luaX_lexerror C ls ''invalid long string delimiter'' TK_STRING)
      else if c = 61 then single 61 TK_EQ ls
      else if c = 60 then single 60 TK_LE ls
      else if c = 62 then single 62 TK_GE ls
      else if c = 126 then single 126 TK_NE ls
      else if c = 34 \<or> c = 39 then
        rbind (read_string C c ls) (\<lambda>(ts, ls).
        Inr (Some \<lparr>token = TK_STRING, seminfo = InfoTS ts\<rparr>, ls))
      else if c = 46 then
        rbind (save_and_next C ls) (\<lambda>ls.
        rbind (check_next C ls ''.'') (\<lambda>(two, ls).
        if two then
          rbind (check_next C ls ''.'') (\<lambda>(three, ls).
          Inr (simple (if three then TK_DOTS else TK_CONCAT), ls))
        else if \<not> isdigit (current ls) then Inr (simple 46, ls)
        else llex_number C ls))
      else if c = EOZ then Inr (simple TK_EOS, ls)
      else if isspace c then rmap (Pair None) (lex_next ls)
      else if isdigit c then llex_number C ls
      else if isalpha c \<or> c = 95 then llex_name C ls
      else rmap (Pair (simple c)) (lex_next ls))"

lemma name_loop_size: "name_loop C ls = Inr ls' \<Longrightarrow> lsize ls' \<le> lsize ls"
proof (induction C ls rule: name_loop.induct)
  case (1 C ls)
  note eq = name_loop.simps [of C ls]
  from "1.prems" show ?case unfolding eq
    by (auto split: if_splits intro: order_trans [OF "1.IH" save_and_next_le])
qed

lemma long_step_size_le: "long_step C str sep ls = Inr (b, ls') \<Longrightarrow> lsize ls' \<le> lsize ls"
  by (auto simp: long_step_def res_simps split: if_splits
        dest!: save_and_next_size skip_sep_size lex_save_size inclinenumber_size lex_next_size)

lemma long_loop_size: "long_loop C str sep ls = Inr ls' \<Longrightarrow> lsize ls' \<le> lsize ls"
proof (induction C str sep ls rule: long_loop.induct)
  case (1 C str sep ls)
  note eq = long_loop.simps [of C str sep ls]
  from "1.prems" show ?case unfolding eq
    by (auto split: if_splits intro: long_step_size_le order_trans [OF "1.IH" [OF _ refl] long_step_size_le])
qed

lemma newstring_at_size: "newstring_at ls off n = Inr (ts, ls') \<Longrightarrow> lsize ls' = lsize ls"
  by (auto simp: newstring_at_def luaX_newstring_def lsize_def split: if_splits)

lemma read_long_string_size: "read_long_string C str sep ls = Inr (info, ls') \<Longrightarrow> lsize ls' \<le> lsize ls"
  unfolding read_long_string_def
  by (auto simp: res_simps split: if_splits
        dest!: save_and_next_size inclinenumber_size long_loop_size newstring_at_size)

lemma skip_line_size: "skip_line ls = Inr ls' \<Longrightarrow> lsize ls' \<le> lsize ls"
proof (induction ls rule: skip_line.induct)
  case (1 ls)
  note eq = skip_line.simps [of ls]
  from "1.prems" show ?case unfolding eq
    by (auto split: if_splits intro: order_trans [OF "1.IH" lex_next_le])
qed

lemma llex_comment_size: "llex_comment C ls = Inr ls' \<Longrightarrow> lsize ls' \<le> lsize ls"
  by (auto simp: llex_comment_def Let_def res_simps split: if_splits
        dest!: lex_next_size skip_sep_size read_long_string_size skip_line_size)

lemma llex_number_None [simp]: "llex_number C ls \<noteq> Inr (None, ls')"
  by (auto simp: llex_number_def res_simps)

lemma llex_name_None [simp]: "llex_name C ls \<noteq> Inr (None, ls')"
  by (auto simp: llex_name_def split: if_splits)

lemma single_None [simp]: "single t u ls \<noteq> Inr (None, ls')"
  by (auto simp: single_def Let_def res_simps split: if_splits)

lemma llex_step_size: "llex_step C ls = Inr (None, ls') \<Longrightarrow> lsize ls' < lsize ls"
  by (auto simp: llex_step_def Let_def res_simps EOZ_def split: if_splits
        dest!: inclinenumber_size llex_comment_size lex_next_size)

function llex_loop :: "clib \<Rightarrow> LexState \<Rightarrow> (Token \<times> LexState) res" where
  "llex_loop C ls =
     rbind (llex_step C ls) (\<lambda>(t, ls). case t of Some t \<Rightarrow> Inr (t, ls) | None \<Rightarrow> llex_loop C ls)"
  by pat_completeness auto
termination
  by (relation "measure (\<lambda>(C, ls). lsize ls)") (auto dest: llex_step_size)

declare llex_loop.simps [simp del]

definition llex :: "clib \<Rightarrow> LexState \<Rightarrow> (Token \<times> LexState) res" where
  "llex C ls = llex_loop C (reset_buffer ls)"

text \<open>A token without semantic information does not write the union.\<close>

definition new_token :: "Token \<Rightarrow> Token \<Rightarrow> Token" where
  "new_token old t = \<lparr>token = token t, seminfo = (if seminfo t = NoInfo then seminfo old else seminfo t)\<rparr>"

definition luaX_next :: "clib \<Rightarrow> LexState \<Rightarrow> LexState res" where
  "luaX_next C ls =
     (let ls = ls\<lparr>lastline := linenumber ls\<rparr> in
      if token (lookahead ls) \<noteq> TK_EOS then
        Inr (ls\<lparr>tok := lookahead ls, lookahead := (lookahead ls)\<lparr>token := TK_EOS\<rparr>\<rparr>)
      else rbind (llex C ls) (\<lambda>(t, ls). Inr (ls\<lparr>tok := new_token (tok ls) t\<rparr>)))"

definition luaX_lookahead :: "clib \<Rightarrow> LexState \<Rightarrow> LexState res" where
  "luaX_lookahead C ls =
     (if token (lookahead ls) \<noteq> TK_EOS then Inl (UB ''lua_assert'')
      else rbind (llex C ls) (\<lambda>(t, ls). Inr (ls\<lparr>lookahead := new_token (lookahead ls) t\<rparr>)))"

end
