(* ===== verification/LexerProps.thy ===== *)
theory LexerProps
  imports Lexer
begin

text \<open>
  The lexical analyser is memory safe: on every input shorter than \<open>2 ^ 31\<close> bytes no read leaves
  the stream, no write leaves the token buffer, no assertion fails and no counter overflows. The
  invariant \<open>lwf\<close> is what every step keeps, and \<open>lstep\<close> relates the states before and after.
\<close>

definition valid_token :: "int \<Rightarrow> bool" where
  "valid_token t \<longleftrightarrow> 0 \<le> t \<and> t < 256 \<or> FIRST_RESERVED \<le> t \<and> t \<le> TK_EOS"

definition clib_ok :: "clib \<Rightarrow> bool" where
  "clib_ok C \<longleftrightarrow> (case c_localeconv C of None \<Rightarrow> True | Some p \<Rightarrow> p \<noteq> [] \<and> hd p \<noteq> NUL)"

text \<open>The bytes from the current one on.\<close>

definition lview :: "LexState \<Rightarrow> byte list" where
  "lview ls = (if current ls = EOZ then [] else word_of_int (current ls) # zbytes (lz ls))"

definition blen :: "LexState \<Rightarrow> nat" where
  "blen ls = length (bcontents (lbuff ls))"

definition lwf :: "LexState \<Rightarrow> bool" where
  "lwf ls \<longleftrightarrow>
     (current ls \<noteq> EOZ \<longrightarrow> 0 \<le> current ls \<and> current ls < 256 \<and> zinv (lz ls)) \<and>
     length (lview ls) < 2 ^ 31 \<and> blen ls \<le> buffsize (lbuff ls) \<and> 0 < buffsize (lbuff ls) \<and>
     buffsize (lbuff ls) < 2 ^ 64 \<and> valid_token (token (tok ls)) \<and> decpoint ls \<noteq> NUL \<and>
     has_fs ls"

definition lstep :: "LexState \<Rightarrow> LexState \<Rightarrow> bool" where
  "lstep ls ls' \<longleftrightarrow> lwf ls' \<and> length (lview ls') \<le> length (lview ls) \<and> tok ls' = tok ls \<and>
     lookahead ls' = lookahead ls \<and> lsource ls' = lsource ls"

lemma lstep_trans [trans]: "lstep a b \<Longrightarrow> lstep b c \<Longrightarrow> lstep a c"
  by (simp add: lstep_def)

lemma lstep_refl [simp]: "lstep ls ls = lwf ls"
  by (simp add: lstep_def)

lemma lstep_lwf: "lstep a b \<Longrightarrow> lwf b"
  by (simp add: lstep_def)

subsection \<open>The primitives\<close>

lemma lex_next_eq:
  assumes "lwf ls" "current ls \<noteq> EOZ"
  shows "\<exists>c z. lex_next ls = Inr (ls\<lparr>current := c, lz := z\<rparr>) \<and> lwf (ls\<lparr>current := c, lz := z\<rparr>) \<and>
    lview (ls\<lparr>current := c, lz := z\<rparr>) = tl (lview ls)"
proof (cases "zbytes (lz ls)")
  case Nil
  from assms have "zinv (lz ls)" by (simp add: lwf_def)
  then obtain z where "zgetc (lz ls) = Inr (- 1, z)" using zio.get_end Nil by blast
  with assms Nil show ?thesis
    by (intro exI [of _ "- 1"] exI [of _ z]) (auto simp: lex_next_def lwf_def lview_def EOZ_def blen_def)
next
  case (Cons b bs)
  from assms have "zinv (lz ls)" by (simp add: lwf_def)
  then obtain z where z: "zgetc (lz ls) = Inr (uint b, z)" "zbytes z = bs" "zinv z"
    using zio.get_some Cons by blast
  then show ?thesis
    using assms Cons byte_range [of b]
    by (intro exI [of _ "uint b"] exI [of _ z]) (auto simp: lex_next_def lwf_def lview_def EOZ_def blen_def)
qed

lemma lex_next_ok:
  "lwf ls \<Longrightarrow> current ls \<noteq> EOZ \<Longrightarrow> okr (\<lambda>ls'. lstep ls ls' \<and> blen ls' = blen ls) (lex_next ls)"
  using lex_next_eq [of ls] by (fastforce simp: lstep_def blen_def)

lemma message_ok:
  "okr (\<lambda>_. True) (lexmsg C ls msg)"
proof -
  obtain b where "luaO_chunkid (lsource ls) MAXSRC = Inr b"
    using luaO_chunkid_fits_aux [of MAXSRC "lsource ls"] by (auto simp: MAXSRC_def)
  then show ?thesis by (simp add: lexmsg_def)
qed

lemma lexerror0_ok: "okr P (lexerror0 C ls msg)"
  unfolding lexerror0_def by (rule ok_rbind [OF message_ok]) simp

lemma lex_save_ok:
  assumes "lwf ls" shows "okr (\<lambda>ls'. lstep ls ls' \<and> blen ls' = blen ls + 1 \<and> lview ls' = lview ls \<and>
    current ls' = current ls \<and> linenumber ls' = linenumber ls \<and> lz ls' = lz ls \<and>
    bcontents (lbuff ls') = bcontents (lbuff ls) @ [char_of c]) (lex_save C ls c)"
  using assms
  by (cases "lbuff ls")
     (auto simp: lex_save_def put_byte_def Let_def lstep_def lwf_def blen_def lview_def
        luaZ_resizebuffer_def MAX_SIZET_def lexerror0_ok)

lemma token2str_ok: "valid_token t \<Longrightarrow> okr (\<lambda>_. True) (luaX_token2str C t)"
  by (auto simp: luaX_token2str_def valid_token_def token_defs luaX_tokens_def aget_def)

lemma char_of_0 [simp]: "char_of (0::int) = NUL"
  by (simp add: char_of_def)

lemma txtToken_ok:
  assumes "lwf ls" "valid_token t" shows "okr (\<lambda>_. True) (txtToken C ls t)"
proof (cases "t = TK_NAME \<or> t = TK_STRING \<or> t = TK_NUMBER")
  case True
  have "okr (\<lambda>_. True) (rbind (lex_save C ls 0) (\<lambda>ls. buffer_cstr (lbuff ls)))"
    by (rule ok_rbind [OF lex_save_ok [OF assms(1)]]) (simp add: buffer_cstr_def char_of_0)
  with True show ?thesis by (simp add: txtToken_def)
qed (simp add: txtToken_def token2str_ok assms)

lemma lexerror_ok: "lwf ls \<Longrightarrow> valid_token t \<Longrightarrow> okr P (luaX_lexerror C ls msg t)"
  unfolding luaX_lexerror_def
  by (intro ok_rbind [OF message_ok] ok_if ok_rbind [OF txtToken_ok]) auto

lemma syntaxerror_ok: "lwf ls \<Longrightarrow> okr P (luaX_syntaxerror C ls msg)"
  unfolding luaX_syntaxerror_def by (rule lexerror_ok) (simp_all add: lwf_def)

lemma valid_tokens [simp]:
  "valid_token TK_EOS" "valid_token TK_STRING" "valid_token TK_NUMBER" "valid_token 91"
  by (simp_all add: valid_token_def token_defs)

lemma save_and_next_ok:
  assumes "lwf ls" "current ls \<noteq> EOZ"
  shows "okr (\<lambda>ls'. lstep ls ls' \<and> blen ls' = blen ls + 1 \<and> length (lview ls') < length (lview ls))
    (save_and_next C ls)"
  unfolding save_and_next_def
proof (rule ok_rbind [OF lex_save_ok [OF assms(1)]])
  fix a
  assume a: "lstep ls a \<and> blen a = blen ls + 1 \<and> lview a = lview ls \<and> current a = current ls \<and>
    linenumber a = linenumber ls \<and> lz a = lz ls \<and> bcontents (lbuff a) = bcontents (lbuff ls) @ [char_of (current ls)]"
  then have "lwf a" "current a \<noteq> EOZ" using assms lstep_lwf by auto
  from lex_next_eq [OF this] obtain c z where "lex_next a = Inr (a\<lparr>current := c, lz := z\<rparr>)"
    "lwf (a\<lparr>current := c, lz := z\<rparr>)" "lview (a\<lparr>current := c, lz := z\<rparr>) = tl (lview a)" by blast
  moreover have "lview a \<noteq> []" using \<open>current a \<noteq> EOZ\<close> by (simp add: lview_def)
  ultimately show "okr (\<lambda>ls'. lstep ls ls' \<and> blen ls' = blen ls + 1 \<and> length (lview ls') < length (lview ls)) (lex_next a)"
    using a by (auto simp: lstep_def blen_def)
qed

lemma newstring_at_ok:
  assumes "lwf ls" "off + len \<le> blen ls"
  shows "okr (\<lambda>(ts, ls'). lstep ls ls') (newstring_at ls off len)"
  using assms by (auto simp: newstring_at_def luaX_newstring_def lstep_def lwf_def lview_def blen_def)

lemma reset_buffer_step: "lwf ls \<Longrightarrow> lstep ls (reset_buffer ls)" "blen (reset_buffer ls) = 0"
  "lview (reset_buffer ls) = lview ls" "current (reset_buffer ls) = current ls"
  by (auto simp: reset_buffer_def luaZ_resetbuffer_def lstep_def lwf_def lview_def blen_def)

lemma lwf_linenumber [simp]: "lwf (ls\<lparr>linenumber := k\<rparr>) = lwf ls" "blen (ls\<lparr>linenumber := k\<rparr>) = blen ls"
  "lview (ls\<lparr>linenumber := k\<rparr>) = lview ls" "lstep a (ls\<lparr>linenumber := k\<rparr>) = lstep a ls"
  by (auto simp: lwf_def lview_def blen_def lstep_def)

lemma inclinenumber_ok:
  assumes "lwf ls" "currIsNewline ls"
  shows "okr (\<lambda>ls'. lstep ls ls' \<and> blen ls' = blen ls) (inclinenumber C ls)"
proof -
  have step: "okr (\<lambda>ls'. lstep ls ls' \<and> blen ls' = blen ls)
      (rbind (if currIsNewline a \<and> current a \<noteq> current ls then lex_next a else Inr a) (\<lambda>ls.
        let ls = ls\<lparr>linenumber := linenumber ls + 1\<rparr> in
        if linenumber ls \<ge> MAX_INT then luaX_syntaxerror C ls ''chunk has too many lines'' else Inr ls))"
    if a: "lstep ls a \<and> blen a = blen ls" for a
  proof (rule ok_rbind [where P = "\<lambda>b. lstep ls b \<and> blen b = blen ls"])
    have "okr (\<lambda>b. lstep a b \<and> blen b = blen a) (lex_next a)" if "currIsNewline a"
      using that a by (intro lex_next_ok) (auto simp: lstep_lwf currIsNewline_def EOZ_def)
    then show "okr (\<lambda>b. lstep ls b \<and> blen b = blen ls)
      (if currIsNewline a \<and> current a \<noteq> current ls then lex_next a else Inr a)"
      using a by (auto elim!: ok_mono intro: lstep_trans)
  qed (auto simp: Let_def intro!: syntaxerror_ok dest: lstep_lwf)
  have "okr (\<lambda>ls'. lstep ls ls' \<and> blen ls' = blen ls) (lex_next ls)"
    using assms by (intro lex_next_ok) (auto simp: currIsNewline_def EOZ_def)
  then show ?thesis using assms(2) step by (auto simp: inclinenumber_def elim!: ok_rbind)
qed

subsection \<open>The loops\<close>

lemma ok_step: "lstep a b \<Longrightarrow> okr (\<lambda>c. lstep b c \<and> Q c) m \<Longrightarrow> okr (\<lambda>c. lstep a c \<and> Q c) m"
  by (auto elim!: ok_mono intro: lstep_trans)

lemma digits_loop_ok: "lwf ls \<Longrightarrow> okr (lstep ls) (digits_loop C ls)"
proof (induction C ls rule: digits_loop.induct)
  case (1 C ls)
  note eq = digits_loop.simps [of C ls]
  show ?case
  proof (cases "isdigit (current ls) \<or> current ls = 46")
    case True
    then have "current ls \<noteq> EOZ" by (auto simp: isdigit_def EOZ_def)
    from save_and_next_ok [OF "1.prems" this] show ?thesis
      unfolding eq if_P [OF True]
      by (rule ok_rbind) (blast intro: ok_mono [OF "1.IH" [OF True]] lstep_trans lstep_lwf)
  qed (simp add: eq "1.prems")
qed

lemma name_loop_ok: "lwf ls \<Longrightarrow> okr (lstep ls) (name_loop C ls)"
proof (induction C ls rule: name_loop.induct)
  case (1 C ls)
  note eq = name_loop.simps [of C ls]
  show ?case
  proof (cases "isalnum (current ls) \<or> current ls = 95")
    case True
    then have "current ls \<noteq> EOZ" by (auto simp: ctype_defs EOZ_def)
    from save_and_next_ok [OF "1.prems" this] show ?thesis
      unfolding eq if_P [OF True]
      by (rule ok_rbind) (blast intro: ok_mono [OF "1.IH" [OF True]] lstep_trans lstep_lwf)
  qed (simp add: eq "1.prems")
qed

lemma skip_line_ok: "lwf ls \<Longrightarrow> okr (lstep ls) (skip_line ls)"
proof (induction ls rule: skip_line.induct)
  case (1 ls)
  note eq = skip_line.simps [of ls]
  show ?case
  proof (cases "\<not> currIsNewline ls \<and> current ls \<noteq> EOZ")
    case True
    from lex_next_ok [OF "1.prems" conjunct2 [OF True]] show ?thesis
      unfolding eq if_P [OF True]
      by (rule ok_rbind) (blast intro: ok_mono [OF "1.IH" [OF True]] lstep_trans lstep_lwf)
  next
    case False
    show ?thesis unfolding eq if_not_P [OF False] by (simp add: "1.prems")
  qed
qed

text \<open>The count of \<open>skip_sep\<close> cannot overflow: it counts characters of the input.\<close>

lemma sep_loop_ok:
  "lwf ls \<Longrightarrow> 0 \<le> k \<Longrightarrow> k + int (length (lview ls)) < 2 ^ 31 \<Longrightarrow>
     okr (\<lambda>(n, ls'). lstep ls ls' \<and> k \<le> n \<and> int (blen ls') = int (blen ls) + (n - k)) (sep_loop C ls k)"
proof (induction C ls k rule: sep_loop.induct)
  case (1 C ls k)
  note eq = sep_loop.simps [of C ls k]
  show ?case
  proof (cases "current ls = 61")
    case True
    then have ne: "current ls \<noteq> EOZ" by (simp add: EOZ_def)
    show ?thesis unfolding eq if_P [OF True]
    proof (rule ok_rbind [OF save_and_next_ok [OF "1.prems"(1) ne]])
      fix a
      assume s: "save_and_next C ls = Inr a"
        and a: "lstep ls a \<and> blen a = blen ls + 1 \<and> length (lview a) < length (lview ls)"
      then have lt: "k + 1 < 2 ^ 31" "lwf a" "k + 1 + int (length (lview a)) < 2 ^ 31"
        using "1.prems" by (auto simp: lstep_lwf)
      have "okr (\<lambda>(n, ls'). lstep a ls' \<and> k + 1 \<le> n \<and> int (blen ls') = int (blen a) + (n - (k + 1)))
        (sep_loop C a (k + 1))"
        using lt "1.prems"(2) by (intro "1.IH" [OF True s]) auto
      then show "okr (\<lambda>(n, ls'). lstep ls ls' \<and> k \<le> n \<and> int (blen ls') = int (blen ls) + (n - k))
        (if k + 1 < 2 ^ 31 then sep_loop C a (k + 1) else Inl (UB ''signed overflow''))"
        unfolding if_P [OF lt(1)] by (rule ok_mono) (use a in \<open>auto intro: lstep_trans\<close>)
    qed
  qed (simp add: eq "1.prems")
qed

lemma skip_sep_ok:
  assumes "lwf ls" "current ls = 91 \<or> current ls = 93"
  shows "okr (\<lambda>(n, ls'). lstep ls ls' \<and> (0 \<le> n \<longrightarrow> int (blen ls') = int (blen ls) + 1 + n \<and>
    current ls' = current ls) \<and> blen ls \<le> blen ls') (skip_sep C ls)"
proof -
  have ne: "current ls \<noteq> EOZ" using assms(2) by (auto simp: EOZ_def)
  have nn: "\<not> \<not> (current ls = 91 \<or> current ls = 93)" using assms(2) by blast
  show ?thesis unfolding skip_sep_def Let_def if_not_P [OF nn]
  proof (rule ok_rbind [OF save_and_next_ok [OF assms(1) ne]])
    fix a
    assume a: "lstep ls a \<and> blen a = blen ls + 1 \<and> length (lview a) < length (lview ls)"
    then have "lwf a" "length (lview a) < 2 ^ 31" by (auto simp: lstep_def lwf_def)
    then show "okr (\<lambda>(n, ls'). lstep ls ls' \<and> (0 \<le> n \<longrightarrow> int (blen ls') = int (blen ls) + 1 + n \<and>
        current ls' = current ls) \<and> blen ls \<le> blen ls')
      (rbind (sep_loop C a 0) (\<lambda>(count, b). Inr (if current b = current ls then count else - count - 1, b)))"
      using a by (intro ok_rbind [OF sep_loop_ok]) (auto intro: lstep_trans)
  qed
qed

lemma long_step_ok:
  assumes "lwf ls" "0 \<le> sep"
  shows "okr (\<lambda>(fin, ls'). lstep ls ls' \<and> (str \<longrightarrow> blen ls \<le> blen ls' \<and>
    (fin \<longrightarrow> int (blen ls') = int (blen ls) + 2 + sep))) (long_step C str sep ls)"
proof -
  consider "current ls = EOZ" | "current ls = 91" | "current ls = 93" | "current ls = 10 \<or> current ls = 13"
    | "current ls \<noteq> EOZ" "current ls \<noteq> 91" "current ls \<noteq> 93" "current ls \<noteq> 10" "current ls \<noteq> 13" by blast
  then show ?thesis
  proof cases
    case 1
    then show ?thesis by (simp add: long_step_def lexerror_ok assms)
  next
    case 2
    show ?thesis
      unfolding long_step_def using 2
    proof (simp add: EOZ_def, intro ok_rbind [OF skip_sep_ok [OF assms(1)]], goal_cases)
      case (2 a)
      obtain n ls' where a: "a = (n, ls')" by (cases a)
      have s: "lstep ls ls'" "blen ls \<le> blen ls'" "0 \<le> n \<longrightarrow> current ls' = 91" using 2 by (auto simp: a)
      show ?case
      proof (cases "n = sep")
        case True
        then have "okr (\<lambda>b. lstep ls' b \<and> blen b = blen ls' + 1 \<and> length (lview b) < length (lview ls'))
          (save_and_next C ls')"
          using s assms(2) by (intro save_and_next_ok) (auto simp: EOZ_def lstep_lwf)
        then have "okr (\<lambda>b. lstep ls b \<and> blen ls \<le> blen b) (save_and_next C ls')"
          by (rule ok_mono) (use s lstep_trans in auto)
        with True show ?thesis unfolding a
          by (auto elim!: ok_rbind intro!: lexerror_ok dest: lstep_lwf)
      qed (use s in \<open>simp add: a\<close>)
    qed simp
  next
    case 3
    show ?thesis
      unfolding long_step_def using 3
    proof (simp add: EOZ_def, intro ok_rbind [OF skip_sep_ok [OF assms(1)]], goal_cases)
      case (2 a)
      obtain n ls' where a: "a = (n, ls')" by (cases a)
      have s: "lstep ls ls'" "blen ls \<le> blen ls'"
        "0 \<le> n \<longrightarrow> current ls' = 93 \<and> int (blen ls') = int (blen ls) + 1 + n" using 2 by (auto simp: a)
      have "okr (\<lambda>b. lstep ls' b \<and> blen b = blen ls' + 1 \<and> length (lview b) < length (lview ls'))
        (save_and_next C ls')" if "n = sep"
        using s assms(2) that by (intro save_and_next_ok) (auto simp: EOZ_def lstep_lwf)
      then show ?case using s assms(2) by (auto simp: a elim!: ok_mono intro: lstep_trans)
    qed simp
  next
    case 4
    have "okr (\<lambda>b. lstep ls b \<and> blen ls \<le> blen b)
      (rbind (lex_save C ls 10) (inclinenumber C))"
    proof (rule ok_rbind [OF lex_save_ok [OF assms(1)]], goal_cases)
      case (1 a)
      then have "okr (\<lambda>ls'. lstep a ls' \<and> blen ls' = blen a) (inclinenumber C a)"
        using 4 by (intro inclinenumber_ok) (auto simp: currIsNewline_def lstep_lwf)
      then show ?case using 1 by (auto elim!: ok_mono intro: lstep_trans)
    qed
    then have "okr (\<lambda>b. lstep ls (snd b) \<and> (str \<longrightarrow> blen ls \<le> blen (snd b)) \<and> \<not> fst b)
      (rbind (rbind (lex_save C ls 10) (inclinenumber C)) (\<lambda>ls. Inr (False, if str then ls else reset_buffer ls)))"
      by (rule ok_rbind) (auto intro: lstep_trans reset_buffer_step lstep_lwf)
    with 4 show ?thesis
      by (auto simp: long_step_def EOZ_def rbind_assoc elim!: ok_mono)
  next
    case 5
    with save_and_next_ok [OF assms(1) 5(1), of C] lex_next_ok [OF assms(1) 5(1)] show ?thesis
      by (auto simp: long_step_def elim!: ok_mono)
  qed
qed

lemma long_loop_ok:
  "lwf ls \<Longrightarrow> 0 \<le> sep \<Longrightarrow> okr (\<lambda>ls'. lstep ls ls' \<and> (str \<longrightarrow> int (blen ls) + 2 + sep \<le> int (blen ls')))
     (long_loop C str sep ls)"
proof (induction C str sep ls rule: long_loop.induct)
  case (1 C str sep ls)
  show ?case unfolding long_loop.simps [of C str sep ls]
  proof (rule ok_rbind [OF long_step_ok [OF "1.prems", of str C]])
    fix a assume s: "long_step C str sep ls = Inr a"
      and P: "case a of (fin, ls') \<Rightarrow> lstep ls ls' \<and> (str \<longrightarrow> blen ls \<le> blen ls' \<and>
        (fin \<longrightarrow> int (blen ls') = int (blen ls) + 2 + sep))"
    obtain fin ls' where a: "a = (fin, ls')" by (cases a)
    show "okr (\<lambda>ls'. lstep ls ls' \<and> (str \<longrightarrow> int (blen ls) + 2 + sep \<le> int (blen ls')))
      (case a of (fin, b) \<Rightarrow> if fin then Inr b else long_loop C str sep b)"
    proof (cases fin)
      case True
      with P show ?thesis by (simp add: a)
    next
      case False
      from P have st: "lstep ls ls'" "lwf ls'" by (auto simp: a dest: lstep_lwf)
      have "okr (\<lambda>b. lstep ls' b \<and> (str \<longrightarrow> int (blen ls') + 2 + sep \<le> int (blen b))) (long_loop C str sep ls')"
        by (rule "1.IH" [OF s a [symmetric] False st(2) "1.prems"(2)])
      then have "okr (\<lambda>b. lstep ls b \<and> (str \<longrightarrow> int (blen ls) + 2 + sep \<le> int (blen b))) (long_loop C str sep ls')"
        by (rule ok_mono) (use P st(1) in \<open>auto simp: a intro: lstep_trans\<close>)
      with False show ?thesis by (simp add: a)
    qed
  qed
qed

lemma size_sub_nat: "b \<le> a \<Longrightarrow> a < 2 ^ 64 \<Longrightarrow> size_sub a b = a - b"
proof -
  assume "b \<le> a" "a < 2 ^ 64"
  then have "(int a - int b) mod 2 ^ 64 = int a - int b" by (intro mod_pos_pos_trivial) simp_all
  then show ?thesis by (simp add: size_sub_def)
qed

lemma lwf_blen: "lwf ls \<Longrightarrow> blen ls < 2 ^ 64"
  by (simp add: lwf_def)

lemma read_long_string_ok:
  assumes "lwf ls" "current ls \<noteq> EOZ" "0 \<le> sep" "str \<Longrightarrow> 1 + sep \<le> int (blen ls)"
  shows "okr (\<lambda>(info, ls'). lstep ls ls') (read_long_string C str sep ls)"
  unfolding read_long_string_def
proof (rule ok_rbind [OF save_and_next_ok [OF assms(1,2)]], goal_cases)
  case (1 a)
  then have a: "lstep ls a" "blen a = blen ls + 1" by blast+
  have "okr (\<lambda>b. lstep ls b \<and> blen b = blen ls + 1) (if currIsNewline a then inclinenumber C a else Inr a)"
    using a by (auto intro!: ok_mono [OF inclinenumber_ok [of a]] lstep_lwf [of ls] intro: lstep_trans)
  then show ?case
  proof (rule ok_rbind, goal_cases)
    case (1 b)
    then have b: "lwf b" by (auto simp: lstep_lwf)
    show ?case
    proof (rule ok_rbind [OF long_loop_ok [OF b assms(3), of str C]], goal_cases)
      case (1 d)
      then have d: "lstep ls d" "lwf d" "str \<Longrightarrow> int (blen b) + 2 + sep \<le> int (blen d)"
        using \<open>lstep ls b \<and> _\<close> by (auto intro: lstep_trans lstep_lwf)
      show ?case
      proof (cases str)
        case True
        define k where "k = nat (2 + sep)"
        have k: "2 * k \<le> blen d" "nat (2 * (2 + sep)) = 2 * k"
          using d(3) [OF True] assms(3,4) True \<open>lstep ls b \<and> _\<close> by (auto simp: k_def)
        have "size_sub (blen d) (2 * k) = blen d - 2 * k"
          using k lwf_blen [OF d(2)] by (intro size_sub_nat) auto
        then have "okr (\<lambda>(ts, ls'). lstep d ls')
          (newstring_at d k (size_sub (length (bcontents (lbuff d))) (2 * k)))"
          using k by (intro newstring_at_ok d(2)) (simp add: blen_def [symmetric])
        then show ?thesis
          unfolding k(2) k_def [symmetric] if_P [OF True] ok_rmap
          by (rule ok_mono) (auto intro: lstep_trans [OF d(1)])
      qed (simp add: d)
    qed
  qed
qed

lemma check_next_ok:
  assumes "lwf ls" "CHR 0xFF \<notin> set cs"
  shows "okr (\<lambda>(b, ls'). lstep ls ls') (check_next C ls cs)"
proof (cases "strchr cs (current ls)")
  case True
  have "char_of (- 1 :: int) = CHR 0xFF" by (simp add: char_of_def)
  with True assms(2) have "current ls \<noteq> EOZ" by (auto simp: strchr_def EOZ_def cstr_def dest: set_takeWhileD)
  from save_and_next_ok [OF assms(1) this, of C] show ?thesis
    by (auto simp: check_next_def True elim!: ok_mono)
qed (simp add: check_next_def assms)

lemma buffreplace_step: "lwf ls \<Longrightarrow> lstep ls (buffreplace ls c d)"
  by (auto simp: buffreplace_def lstep_def lwf_def lview_def blen_def)

lemma buffreplace_NUL: "c \<noteq> NUL \<Longrightarrow> NUL \<in> set (bcontents (lbuff ls)) \<Longrightarrow>
    NUL \<in> set (bcontents (lbuff (buffreplace ls c d)))"
  by (auto simp: buffreplace_def image_iff)

lemma lwf_decpoint: "lwf ls \<Longrightarrow> c \<noteq> NUL \<Longrightarrow> lstep ls (ls\<lparr>decpoint := c\<rparr>)"
  by (auto simp: lwf_def lstep_def lview_def blen_def)

lemma trydecpoint_ok:
  assumes "lwf ls" "clib_ok C" "NUL \<in> set (bcontents (lbuff ls))"
  shows "okr (\<lambda>(d, ls'). lstep ls ls') (trydecpoint C ls)"
proof -
  obtain p where p: "(case c_localeconv C of Some point \<Rightarrow> rd point 0 | None \<Rightarrow> Inr (CHR ''.'')) = Inr p" "p \<noteq> NUL"
    using assms(2) by (auto simp: clib_ok_def rd_def hd_conv_nth split: option.splits)
  define ls1 where "ls1 = buffreplace (ls\<lparr>decpoint := p\<rparr>) (decpoint ls) p"
  have step: "lstep ls ls1"
    unfolding ls1_def using assms(1) p(2) lwf_decpoint buffreplace_step lstep_trans lstep_lwf by meson
  have nul: "NUL \<in> set (bcontents (lbuff ls1))"
    unfolding ls1_def using assms by (intro buffreplace_NUL) (auto simp: lwf_def)
  have "lwf (buffreplace ls1 c d)" for c d
    using step buffreplace_step lstep_lwf by blast
  with step nul show ?thesis
    by (simp add: trydecpoint_def Let_def p ls1_def [symmetric] buffer_number_def buffer_cstr_def
          lexerror_ok split: option.splits)
qed

lemma read_numeral_ok:
  assumes "lwf ls" "isdigit (current ls)" "clib_ok C"
  shows "okr (\<lambda>(d, ls'). lstep ls ls') (read_numeral C ls)"
proof -
  have ne: "current ls \<noteq> EOZ" using assms(2) by (auto simp: isdigit_def EOZ_def)
  have nn: "\<not> \<not> isdigit (current ls)" using assms(2) by blast
  show ?thesis unfolding read_numeral_def if_not_P [OF nn]
  proof (rule ok_rbind [OF save_and_next_ok [OF assms(1) ne]], goal_cases)
    case (1 a)
    then have a: "lstep ls a" by blast
    show ?case
    proof (rule ok_rbind [OF digits_loop_ok [OF lstep_lwf [OF a]]], goal_cases)
      case (1 b)
      then have b: "lstep ls b" using a lstep_trans by blast
      have "okr (\<lambda>(e, ls'). lstep b ls') (check_next C b ''Ee'')"
        by (rule check_next_ok [OF lstep_lwf [OF b]]) simp
      then show ?case
      proof (rule ok_rbind, goal_cases)
        case (1 e)
        obtain t d where e: "e = (t, d)" by (cases e)
        with 1 have d: "lstep ls d" using b lstep_trans by auto
        have "okr (lstep ls) (rmap snd (check_next C d ''+-''))"
          using check_next_ok [OF lstep_lwf [OF d], of "''+-''" C] d
          by (auto elim!: ok_mono intro: lstep_trans)
        then have "okr (lstep ls) (if t then rmap snd (check_next C d ''+-'') else Inr d)" using d by simp
        then show ?case unfolding e prod.case
        proof (rule ok_rbind, goal_cases)
          case (1 f)
          show ?case
          proof (rule ok_rbind [OF name_loop_ok [OF lstep_lwf [OF 1(2)]]], goal_cases)
            case (1 g)
            then have g: "lstep ls g" using \<open>lstep ls f\<close> lstep_trans by blast
            show ?case
            proof (rule ok_rbind [OF lex_save_ok [OF lstep_lwf [OF g]]], goal_cases)
              case (1 h)
              define i where "i = buffreplace h (CHR ''.'') (decpoint h)"
              have h: "lstep ls h" "NUL \<in> set (bcontents (lbuff h))" using 1 g lstep_trans by auto
              have i: "lstep ls i" "NUL \<in> set (bcontents (lbuff i))"
                unfolding i_def using h buffreplace_step buffreplace_NUL [of "CHR ''.''" h] lstep_lwf lstep_trans
                by (blast, simp)
              have "okr (\<lambda>(d, ls'). lstep ls ls') (trydecpoint C i)"
                using trydecpoint_ok [OF lstep_lwf [OF i(1)] assms(3) i(2)] i(1)
                by (auto elim!: ok_mono intro: lstep_trans)
              then show ?case using i
                by (auto simp: i_def [symmetric] buffer_number_def buffer_cstr_def split: option.split)
            qed
          qed
        qed
      qed
    qed
  qed
qed

subsection \<open>Quoted strings\<close>

abbreviation grows :: "LexState \<Rightarrow> LexState \<Rightarrow> bool" where
  "grows ls ls' \<equiv> lstep ls ls' \<and> blen ls \<le> blen ls'"

lemma grows_trans: "grows a b \<Longrightarrow> grows b c \<Longrightarrow> grows a c"
  by (auto intro: lstep_trans)

lemma esc_digits_ok:
  "lwf ls \<Longrightarrow> isdigit (current ls) \<Longrightarrow> okr (\<lambda>(d, ls'). lstep ls ls' \<and> blen ls' = blen ls) (esc_digits i c ls)"
proof (induction i c ls rule: esc_digits.induct)
  case (2 i c ls)
  have ne: "current ls \<noteq> EOZ" using "2.prems"(2) by (auto simp: isdigit_def EOZ_def)
  show ?case unfolding esc_digits.simps Let_def
  proof (rule ok_rbind [OF lex_next_ok [OF "2.prems"(1) ne]], goal_cases)
    case (1 a)
    show ?case
    proof (rule ok_if, goal_cases)
      case c: 1
      from 1 lstep_lwf have a: "lwf a" by blast
      from "2.IH" [OF refl 1(1) c a] c 1(2) show ?case
        by (auto elim!: ok_mono intro: lstep_trans)
    qed (use 1 in simp)
  qed
qed simp

lemma read_escape_ok:
  assumes "lwf ls" "current ls \<noteq> EOZ"
  shows "okr (grows ls) (read_escape C ls)"
  unfolding read_escape_def
proof (rule ok_rbind [OF lex_next_ok [OF assms]], goal_cases)
  case (1 a)
  then have a: "grows ls a" "lwf a" by (auto dest: lstep_lwf)
  have save: "okr (\<lambda>b. grows ls b \<and> current b = current a) (lex_save C a c)" for c
    by (rule ok_mono [OF lex_save_ok [OF a(2)]]) (use a lstep_trans in auto)
  show ?case
  proof (cases "simple_escape (current a)")
    case (Some c)
    then have ne: "current a \<noteq> EOZ" by (auto simp: simple_escape_def EOZ_def split: if_splits)
    have "okr (grows ls) (rbind (lex_save C a c) lex_next)"
    proof (rule ok_rbind [OF save], goal_cases)
      case (1 b)
      then have "lwf b" "current b \<noteq> EOZ" using ne by (auto dest: lstep_lwf)
      from lex_next_ok [OF this] show ?case
        by (rule ok_mono) (use 1 in \<open>auto intro: lstep_trans\<close>)
    qed
    with Some show ?thesis by simp
  next
    case None
    have nl: "okr (grows ls) (rbind (lex_save C a 10) (inclinenumber C))" if "currIsNewline a"
    proof (rule ok_rbind [OF save], goal_cases)
      case (1 b)
      then have "lwf b" "currIsNewline b" using that by (auto simp: currIsNewline_def dest: lstep_lwf)
      from inclinenumber_ok [OF this] show ?case
        by (rule ok_mono) (use 1 in \<open>auto intro: lstep_trans\<close>)
    qed
    have sn: "okr (grows ls) (save_and_next C a)" if "current a \<noteq> EOZ"
      by (rule ok_mono [OF save_and_next_ok [OF a(2) that]]) (use a lstep_trans in auto)
    have dg: "okr (grows ls) (rbind (esc_digits 3 0 a) (\<lambda>(c, ls).
        if c > 255 then luaX_lexerror C ls ''escape sequence too large'' TK_STRING else lex_save C ls c))"
      if "isdigit (current a)"
    proof (rule ok_rbind [OF esc_digits_ok [OF a(2) that]], goal_cases)
      case (1 d)
      obtain c b where d: "d = (c, b)" by (cases d)
      with 1 a have b: "grows ls b" "lwf b" by (auto dest: lstep_lwf intro: lstep_trans)
      have "okr (grows ls) (lex_save C b c)"
        by (rule ok_mono [OF lex_save_ok [OF b(2)]]) (use b lstep_trans in auto)
      with b show ?case by (auto simp: d lexerror_ok)
    qed
    show ?thesis using None nl sn dg a(1) by simp
  qed
qed

lemma string_step_ok: "lwf ls \<Longrightarrow> okr (grows ls) (string_step C ls)"
  unfolding string_step_def
  by (auto simp: lexerror_ok read_escape_ok elim!: ok_mono [OF save_and_next_ok])

lemma string_loop_ok:
  "lwf ls \<Longrightarrow> okr (\<lambda>ls'. grows ls ls' \<and> current ls' = del) (string_loop C del ls)"
proof (induction C del ls rule: string_loop.induct)
  case (1 C del ls)
  show ?case
  proof (cases "current ls = del")
    case False
    show ?thesis unfolding string_loop.simps [of C del ls] if_not_P [OF False]
    proof (rule ok_rbind [OF string_step_ok [OF "1.prems"]], goal_cases)
      case (1 a)
      then have "lwf a" by (auto dest: lstep_lwf)
      from "1.IH" [OF False 1(1) this] show ?case
        by (rule ok_mono) (use 1(2) lstep_trans in auto)
    qed
  qed (simp add: string_loop.simps [of C del ls] "1.prems")
qed

lemma read_string_ok:
  assumes "lwf ls" "current ls \<noteq> EOZ" "del \<noteq> EOZ"
  shows "okr (\<lambda>(ts, ls'). lstep ls ls') (read_string C del ls)"
  unfolding read_string_def
proof (rule ok_rbind [OF save_and_next_ok [OF assms(1,2)]], goal_cases)
  case (1 a)
  then have a: "lstep ls a" "1 \<le> blen a" by auto
  show ?case
  proof (rule ok_rbind [OF string_loop_ok [OF lstep_lwf [OF a(1)]]], goal_cases)
    case (1 b)
    then have b: "lstep ls b" "1 \<le> blen b" "current b \<noteq> EOZ" using a assms(3) by (auto intro: lstep_trans)
    show ?case
    proof (rule ok_rbind [OF save_and_next_ok [OF lstep_lwf [OF b(1)] b(3)]], goal_cases)
      case (1 d)
      then have d: "lstep ls d" "2 \<le> blen d" using b by (auto intro: lstep_trans)
      then have "size_sub (blen d) 2 = blen d - 2"
        using lwf_blen [OF lstep_lwf [OF d(1)]] by (intro size_sub_nat)
      then have "okr (\<lambda>(ts, ls'). lstep d ls') (newstring_at d 1 (size_sub (length (bcontents (lbuff d))) 2))"
        using d by (intro newstring_at_ok lstep_lwf [OF d(1)]) (simp add: blen_def [symmetric])
      then show ?case by (rule ok_mono) (use d lstep_trans in auto)
    qed
  qed
qed

subsection \<open>The analyser\<close>

text \<open>A token whose semantic information is what the parser reads from the union.\<close>

definition typed_token :: "Token \<Rightarrow> bool" where
  "typed_token t \<longleftrightarrow> valid_token (token t) \<and> (token t = TK_NUMBER \<longrightarrow> (\<exists>d. seminfo t = InfoR d)) \<and>
     (token t = TK_NAME \<or> token t = TK_STRING \<longrightarrow> (\<exists>s. seminfo t = InfoTS s))"

lemma luaX_init_range: "0 \<le> luaX_init s \<and> luaX_init s \<le> 21"
proof -
  have "\<forall>s. 0 \<le> luaX_init s \<and> luaX_init s \<le> 21"
    unfolding luaX_init_def
    by (rule fold_invariant [where Q = "\<lambda>i. i < 21" and P = "\<lambda>r. \<forall>s. 0 \<le> r s \<and> r s \<le> 21"])
       (auto simp: NUM_RESERVED_def token_defs)
  then show ?thesis by blast
qed

abbreviation step_post :: "LexState \<Rightarrow> Token option \<times> LexState \<Rightarrow> bool" where
  "step_post ls \<equiv> \<lambda>(t, ls'). lstep ls ls' \<and> (\<forall>u. t = Some u \<longrightarrow> typed_token u)"

lemma typed_simple:
  "valid_token t \<Longrightarrow> t \<noteq> TK_NUMBER \<Longrightarrow> t \<noteq> TK_NAME \<Longrightarrow> t \<noteq> TK_STRING \<Longrightarrow> typed_token \<lparr>token = t, seminfo = i\<rparr>"
  by (simp add: typed_token_def)

lemma single_ok:
  assumes "lwf ls" "current ls \<noteq> EOZ" "typed_token \<lparr>token = t, seminfo = NoInfo\<rparr>"
    "typed_token \<lparr>token = t2, seminfo = NoInfo\<rparr>"
  shows "okr (step_post ls) (single t t2 ls)"
  unfolding single_def Let_def
proof (rule ok_rbind [OF lex_next_ok [OF assms(1,2)]], goal_cases)
  case (1 a)
  then have a: "lstep ls a" by blast
  have "okr (lstep ls) (lex_next a)" if "current a = 61"
    by (rule ok_mono [OF lex_next_ok [OF lstep_lwf [OF a]]])
       (use a that lstep_trans in \<open>auto simp: EOZ_def\<close>)
  with a assms(3,4) show ?case by (auto elim!: ok_mono)
qed

lemma llex_number_ok:
  "lwf ls \<Longrightarrow> isdigit (current ls) \<Longrightarrow> clib_ok C \<Longrightarrow> okr (step_post ls) (llex_number C ls)"
  unfolding llex_number_def ok_rmap
  by (rule ok_mono [OF read_numeral_ok]) (auto simp: typed_token_def token_defs valid_token_def)

lemma llex_name_ok:
  assumes "lwf ls" "current ls \<noteq> EOZ" shows "okr (step_post ls) (llex_name C ls)"
  unfolding llex_name_def
proof (rule ok_rbind [OF save_and_next_ok [OF assms]], goal_cases)
  case (1 a)
  then have a: "lstep ls a" by blast
  show ?case
  proof (rule ok_rbind [OF name_loop_ok [OF lstep_lwf [OF a]]], goal_cases)
    case (1 b)
    with a have b: "lstep ls b" by (blast intro: lstep_trans)
    have "okr (\<lambda>(ts, ls'). lstep ls ls') (newstring_at b 0 (length (bcontents (lbuff b))))"
      by (rule ok_mono [OF newstring_at_ok [OF lstep_lwf [OF b]]])
         (use b lstep_trans in \<open>auto simp: blen_def\<close>)
    then show ?case
    proof (rule ok_rbind, goal_cases)
      case (1 x)
      have "typed_token \<lparr>token = luaX_init s - 1 + FIRST_RESERVED, seminfo = NoInfo\<rparr>" if "0 < luaX_init s" for s
        using luaX_init_range [of s] that by (intro typed_simple) (auto simp: valid_token_def token_defs)
      with 1 show ?case by (auto simp: typed_token_def valid_token_def token_defs split: prod.splits)
    qed
  qed
qed

lemma llex_comment_ok:
  assumes "lwf ls" "current ls \<noteq> EOZ" shows "okr (lstep ls) (llex_comment C ls)"
  unfolding llex_comment_def
proof (rule ok_rbind [OF lex_next_ok [OF assms]], goal_cases)
  case (1 a)
  then have a: "lstep ls a" "lwf a" by (auto dest: lstep_lwf)
  have line: "okr (lstep ls) (skip_line b)" if "lstep ls b" for b
    by (rule ok_mono [OF skip_line_ok [OF lstep_lwf [OF that]]]) (use that lstep_trans in blast)
  show ?case
  proof (rule ok_if, goal_cases)
    case 1
    show ?case
    proof (rule ok_rbind [OF skip_sep_ok [OF a(2)]], goal_cases)
      case (2 x)
      obtain n b where x: "x = (n, b)" by (cases x)
      with 2 a have b: "lstep ls b" "0 \<le> n \<Longrightarrow> current b = 91" using 1 by (auto intro: lstep_trans)
      define d where "d = reset_buffer b"
      have d: "lstep ls d" "0 \<le> n \<Longrightarrow> current d \<noteq> EOZ"
        unfolding d_def using b reset_buffer_step lstep_lwf lstep_trans by (blast, simp add: EOZ_def)
      have "okr (lstep ls) (rmap (\<lambda>(_, ls). reset_buffer ls) (read_long_string C False n d))" if "0 \<le> n"
      proof -
        have "lstep ls (reset_buffer e)" if "lstep d e" for e
          using that d(1) reset_buffer_step(1) lstep_lwf lstep_trans by meson
        with read_long_string_ok [OF lstep_lwf [OF d(1)] d(2) [OF that] that, of False C] show ?thesis
          by (auto elim!: ok_mono)
      qed
      with line [OF d(1)] show ?case by (simp add: x d_def [symmetric])
    qed (use 1 in simp)
  next
    case 2
    show ?case by (rule line [OF a(1)])
  qed
qed

text \<open>The rounds of \<open>llex\<close> that are more than one call.\<close>

lemma long_bracket_ok:
  assumes "lwf ls" "current ls = 91"
  shows "okr (step_post ls)
    (rbind (skip_sep C ls) (\<lambda>(sep, ls).
       if sep \<ge> 0 then
         rbind (read_long_string C True sep ls) (\<lambda>(info, ls).
         Inr (Some \<lparr>token = TK_STRING, seminfo = info\<rparr>, ls))
       else if sep = - 1 then Inr (Some \<lparr>token = 91, seminfo = NoInfo\<rparr>, ls)
       else luaX_lexerror C ls ''invalid long string delimiter'' TK_STRING))"
proof (rule ok_rbind [OF skip_sep_ok [OF assms(1)]], goal_cases)
  case (2 x)
  obtain n b where x: "x = (n, b)" by (cases x)
  with 2 assms(2) have b: "lstep ls b" "lwf b" "0 \<le> n \<Longrightarrow> current b = 91 \<and> 1 + n \<le> int (blen b)"
    by (auto dest: lstep_lwf)
  have info: "(\<exists>s. i = InfoTS s)" if "read_long_string C True n b = Inr (i, d)" for i d
    using that by (auto simp: read_long_string_def res_simps)
  have "okr (\<lambda>(i, d). lstep b d) (read_long_string C True n b)" if "0 \<le> n"
    using b(3) [OF that] that by (intro read_long_string_ok b(2)) (auto simp: EOZ_def)
  then have "okr (\<lambda>(i, d). lstep ls d) (read_long_string C True n b)" if "0 \<le> n"
    using that b(1) lstep_trans by (auto elim!: ok_mono)
  then show ?case using b(1,2) info
    by (auto simp: x lexerror_ok typed_token_def valid_token_def token_defs elim!: ok_rbind)
qed (use assms in simp)

lemma minus_ok:
  assumes "lwf ls" "current ls = 45"
  shows "okr (step_post ls)
    (rbind (lex_next ls) (\<lambda>ls.
       if current ls \<noteq> 45 then Inr (Some \<lparr>token = 45, seminfo = NoInfo\<rparr>, ls)
       else rmap (Pair None) (llex_comment C ls)))"
proof (rule ok_rbind [OF lex_next_ok [OF assms(1)]], goal_cases)
  case (2 a)
  then have a: "lstep ls a" "lwf a" by (auto dest: lstep_lwf)
  have "okr (lstep ls) (llex_comment C a)" if "current a = 45"
    by (rule ok_mono [OF llex_comment_ok [OF a(2)]]) (use that a(1) lstep_trans in \<open>auto simp: EOZ_def\<close>)
  with a(1) show ?case by (auto simp: typed_token_def valid_token_def token_defs elim!: ok_mono)
qed (use assms in \<open>simp add: EOZ_def\<close>)

lemma quote_ok:
  assumes "lwf ls" "current ls = c" "c \<noteq> EOZ"
  shows "okr (step_post ls) (rbind (read_string C c ls) (\<lambda>(ts, ls).
    Inr (Some \<lparr>token = TK_STRING, seminfo = InfoTS ts\<rparr>, ls)))"
  by (rule ok_rbind [OF read_string_ok])
     (use assms in \<open>auto simp: typed_token_def valid_token_def token_defs\<close>)

lemma dot_ok:
  assumes "lwf ls" "current ls = 46" "clib_ok C"
  shows "okr (step_post ls)
    (rbind (save_and_next C ls) (\<lambda>ls.
     rbind (check_next C ls ''.'') (\<lambda>(two, ls).
     if two then
       rbind (check_next C ls ''.'') (\<lambda>(three, ls).
       Inr (Some \<lparr>token = if three then TK_DOTS else TK_CONCAT, seminfo = NoInfo\<rparr>, ls))
     else if \<not> isdigit (current ls) then Inr (Some \<lparr>token = 46, seminfo = NoInfo\<rparr>, ls)
     else llex_number C ls)))"
proof (rule ok_rbind [OF save_and_next_ok [OF assms(1)]], goal_cases)
  case (2 a)
  then have a: "lstep ls a" by blast
  have next2: "okr (\<lambda>(t, d). lstep ls d) (check_next C b ''.'')" if "lstep ls b" for b
    by (rule ok_mono [OF check_next_ok [OF lstep_lwf [OF that]]]) (use that lstep_trans in auto)
  from next2 [OF a] show ?case
  proof (rule ok_rbind, goal_cases)
    case (1 x)
    obtain two b where x: "x = (two, b)" by (cases x)
    with 1 have b: "lstep ls b" by simp
    have num: "okr (step_post ls) (llex_number C b)" if "isdigit (current b)"
      by (rule ok_mono [OF llex_number_ok [OF lstep_lwf [OF b] that assms(3)]]) (use b lstep_trans in auto)
    have dots: "okr (step_post ls) (rbind (check_next C b ''.'') (\<lambda>(three, ls).
       Inr (Some \<lparr>token = if three then TK_DOTS else TK_CONCAT, seminfo = NoInfo\<rparr>, ls)))"
      by (rule ok_rbind [OF next2 [OF b]]) (auto simp: typed_token_def valid_token_def token_defs)
    show ?case unfolding x prod.case
      by (intro ok_if num dots) (use b in \<open>auto simp: typed_token_def valid_token_def token_defs\<close>)
  qed
qed (use assms in \<open>simp add: EOZ_def\<close>)

lemma byte_token: "lwf ls \<Longrightarrow> current ls \<noteq> EOZ \<Longrightarrow> typed_token \<lparr>token = current ls, seminfo = NoInfo\<rparr>"
  by (auto simp: lwf_def typed_token_def valid_token_def token_defs)

lemma next_none_ok:
  "lwf ls \<Longrightarrow> current ls \<noteq> EOZ \<Longrightarrow> (\<And>u. t = Some u \<Longrightarrow> typed_token u) \<Longrightarrow>
     okr (step_post ls) (rmap (Pair t) (lex_next ls))"
  unfolding ok_rmap by (rule ok_mono [OF lex_next_ok]) auto

lemma llex_step_ok:
  assumes "lwf ls" "clib_ok C" shows "okr (step_post ls) (llex_step C ls)"
proof -
  have nl: "okr (step_post ls) (rmap (Pair None) (inclinenumber C ls))" if "current ls = 10 \<or> current ls = 13"
    unfolding ok_rmap
    by (rule ok_mono [OF inclinenumber_ok [OF assms(1)]]) (use that in \<open>auto simp: currIsNewline_def\<close>)
  have simple: "typed_token \<lparr>token = t, seminfo = NoInfo\<rparr>"
    if "t \<in> {45, 46, 60, 61, 62, 91, 126, TK_EQ, TK_LE, TK_GE, TK_NE, TK_EOS}" for t
    using that by (auto simp: typed_token_def valid_token_def token_defs)
  show ?thesis unfolding llex_step_def Let_def
    by (intro ok_if nl minus_ok long_bracket_ok single_ok quote_ok dot_ok next_none_ok llex_number_ok
          llex_name_ok assms simple)
       (use assms(1) byte_token simple in \<open>auto simp: EOZ_def ctype_defs\<close>)
qed

lemma llex_loop_ok:
  "lwf ls \<Longrightarrow> clib_ok C \<Longrightarrow> okr (\<lambda>(t, ls'). lstep ls ls' \<and> typed_token t) (llex_loop C ls)"
proof (induction C ls rule: llex_loop.induct)
  case (1 C ls)
  show ?case unfolding llex_loop.simps [of C ls]
  proof (rule ok_rbind [OF llex_step_ok [OF "1.prems"]], goal_cases)
    case (1 x)
    obtain t a where x: "x = (t, a)" by (cases x)
    show ?case
    proof (cases t)
      case None
      have "okr (\<lambda>(t, ls'). lstep a ls' \<and> typed_token t) (llex_loop C a)"
        using 1(2) None "1.prems"(2) by (intro "1.IH" [OF 1(1) x [symmetric] None]) (auto simp: x dest: lstep_lwf)
      then have "okr (\<lambda>(t, ls'). lstep ls ls' \<and> typed_token t) (llex_loop C a)"
        by (rule ok_mono) (use 1(2) lstep_trans in \<open>auto simp: x\<close>)
      with None show ?thesis by (simp add: x)
    qed (use 1 in \<open>simp add: x\<close>)
  qed
qed

lemma llex_ok:
  assumes "lwf ls" "clib_ok C" shows "okr (\<lambda>(t, ls'). lstep ls ls' \<and> typed_token t) (llex C ls)"
  unfolding llex_def
  by (rule ok_mono [OF llex_loop_ok [OF _ assms(2)]])
     (use reset_buffer_step(1) [OF assms(1)] lstep_lwf lstep_trans in auto)

text \<open>
  The states the parser can see: after \<open>luaX_setinput\<close> and \<open>open_func\<close> for the main function, any
  sequence of calls of \<open>luaX_next\<close> and \<open>luaX_lookahead\<close>, the second only when no token is looked
  ahead, as the parser calls it; between them a nested function may be opened or closed, which
  makes another function's table of constants the current one.
\<close>

inductive lex_reach :: "clib \<Rightarrow> LexState \<Rightarrow> ZIO \<Rightarrow> string \<Rightarrow> LexState \<Rightarrow> bool"
  for C ls0 z src where
  start: "luaX_setinput ls0 z src = Inr ls \<Longrightarrow> lex_reach C ls0 z src (open_func ls)"
| step_func: "lex_reach C ls0 z src ls \<Longrightarrow> lex_reach C ls0 z src (ls\<lparr>fsh := h\<rparr>)"
| step_next: "lex_reach C ls0 z src ls \<Longrightarrow> luaX_next C ls = Inr ls' \<Longrightarrow> lex_reach C ls0 z src ls'"
| step_peek: "lex_reach C ls0 z src ls \<Longrightarrow> token (lookahead ls) = TK_EOS \<Longrightarrow> luaX_lookahead C ls = Inr ls' \<Longrightarrow>
    lex_reach C ls0 z src ls'"

definition lex_inv :: "LexState \<Rightarrow> bool" where
  "lex_inv ls \<longleftrightarrow> lwf ls \<and> typed_token (lookahead ls)"

lemma typed_new_token [simp]: "typed_token t \<Longrightarrow> typed_token (new_token old t)"
  by (auto simp: typed_token_def new_token_def)

lemma typed_valid: "typed_token t \<Longrightarrow> valid_token (token t)"
  by (simp add: typed_token_def)

lemma typed_eos [simp]: "typed_token (t\<lparr>token := TK_EOS\<rparr>)"
  by (simp add: typed_token_def valid_token_def token_defs)

lemma lwf_token: "lwf ls \<Longrightarrow> valid_token (token t) \<Longrightarrow> lwf (ls\<lparr>tok := t\<rparr>)"
  by (auto simp: lwf_def lview_def blen_def)

lemma lwf_lookahead [simp]: "lwf (ls\<lparr>lookahead := t\<rparr>) = lwf ls" "lwf (ls\<lparr>lastline := n\<rparr>) = lwf ls"
  by (auto simp: lwf_def lview_def blen_def)

lemma luaX_next_ok:
  assumes "lex_inv ls" "clib_ok C"
  shows "okr (\<lambda>ls'. lex_inv ls' \<and> typed_token (tok ls')) (luaX_next C ls)"
proof (cases "token (lookahead ls) \<noteq> TK_EOS")
  case True
  with assms(1) show ?thesis
    by (auto simp: luaX_next_def Let_def lex_inv_def lwf_token typed_valid)
next
  case False
  have "lwf (ls\<lparr>lastline := linenumber ls\<rparr>)" using assms(1) by (simp add: lex_inv_def)
  from llex_ok [OF this assms(2)]
  have "okr (\<lambda>ls'. lex_inv ls' \<and> typed_token (tok ls'))
    (rbind (llex C (ls\<lparr>lastline := linenumber ls\<rparr>)) (\<lambda>(t, ls). Inr (ls\<lparr>tok := new_token (tok ls) t\<rparr>)))"
    by (rule ok_rbind)
       (use assms(1) in \<open>auto simp: lex_inv_def lstep_def intro!: lwf_token typed_valid\<close>)
  with False show ?thesis by (simp add: luaX_next_def)
qed

lemma luaX_lookahead_ok:
  assumes "lex_inv ls" "clib_ok C" "token (lookahead ls) = TK_EOS"
  shows "okr (\<lambda>ls'. lex_inv ls' \<and> typed_token (lookahead ls') \<and> tok ls' = tok ls) (luaX_lookahead C ls)"
proof -
  have "lwf ls" using assms(1) by (simp add: lex_inv_def)
  from llex_ok [OF this assms(2)]
  have "okr (\<lambda>ls'. lex_inv ls' \<and> typed_token (lookahead ls') \<and> tok ls' = tok ls)
    (rbind (llex C ls) (\<lambda>(t, ls). Inr (ls\<lparr>lookahead := new_token (lookahead ls) t\<rparr>)))"
    by (rule ok_rbind) (auto simp: lex_inv_def lstep_def)
  with assms(3) show ?thesis by (simp add: luaX_lookahead_def)
qed

lemma lex_next_open: "lex_next (open_func ls) = rmap open_func (lex_next ls)"
  by (cases "zgetc (lz ls)") (auto simp: lex_next_def open_func_def)

lemma luaX_setinput_ok:
  assumes "zinv z" "length (zbytes z) < 2 ^ 31 - 1" "valid_token (token (tok ls0))" "bcontents (lbuff ls0) = []"
  shows "okr lex_inv (rmap open_func (luaX_setinput ls0 z src))"
proof -
  let ?ls = "open_func (ls0\<lparr>decpoint := CHR ''.'', lookahead := (lookahead ls0)\<lparr>token := TK_EOS\<rparr>, lz := z,
       has_fs := False, linenumber := 1, lastline := 1, lsource := src,
       lbuff := luaZ_resizebuffer (lbuff ls0) LUA_MINBUFFER, current := 0\<rparr>)"
  have "lwf ?ls"
    using assms by (auto simp: lwf_def lview_def blen_def EOZ_def luaZ_resizebuffer_def LUA_MINBUFFER_def open_func_def)
  from lex_next_ok [OF this] have "okr (lstep ?ls) (lex_next ?ls)"
    by (auto simp: EOZ_def open_func_def elim!: ok_mono)
  then have "okr lex_inv (lex_next ?ls)"
    by (rule ok_mono) (auto simp: lex_inv_def lstep_def open_func_def)
  moreover have "lex_next (l\<lparr>current := 0\<rparr>) = lex_next l" for l
    by (simp add: lex_next_def)
  ultimately show ?thesis unfolding luaX_setinput_def lex_next_open by simp
qed

lemma lex_reach_inv:
  assumes "lex_reach C ls0 z src ls" "clib_ok C" "zinv z" "length (zbytes z) < 2 ^ 31 - 1"
    "valid_token (token (tok ls0))" "bcontents (lbuff ls0) = []"
  shows "lex_inv ls"
  using assms(1)
proof induction
  case (start ls)
  then show ?case using luaX_setinput_ok [OF assms(3-6), of src] by simp
next
  case (step_func ls h)
  then show ?case by (auto simp: lex_inv_def lwf_def lview_def blen_def)
next
  case (step_next ls ls')
  then show ?case using luaX_next_ok [of ls C] assms(2) by auto
next
  case (step_peek ls ls')
  then show ?case using luaX_lookahead_ok [of ls C] assms(2) by auto
qed

text \<open>
  C18. The analyser is memory safe and typed. In every state that calls of \<open>luaX_next\<close> and
  \<open>luaX_lookahead\<close> reach on an input shorter than \<open>2 ^ 31 - 1\<close> bytes, the next call reads only
  bytes of the stream and of the token buffer, writes only inside the buffer, violates no assertion
  and overflows no counter; and the token it returns carries a number when it is \<open>TK_NUMBER\<close> and
  a string when it is \<open>TK_NAME\<close> or \<open>TK_STRING\<close>, so that the parser reads the member of the union
  that was written. The hypotheses on the caller's \<open>LexState\<close> are needed: its token is read by
  the error for too many lines before it is set.
\<close>

theorem lexer_safe:
  assumes "lex_reach C ls0 z src ls" "clib_ok C" "zinv z" "length (zbytes z) < 2 ^ 31 - 1"
    "valid_token (token (tok ls0))" "bcontents (lbuff ls0) = []"
  shows "\<not> is_UB (luaX_next C ls) \<and>
    (\<forall>ls'. luaX_next C ls = Inr ls' \<longrightarrow> typed_token (tok ls')) \<and>
    (token (lookahead ls) = TK_EOS \<longrightarrow> \<not> is_UB (luaX_lookahead C ls) \<and>
      (\<forall>ls'. luaX_lookahead C ls = Inr ls' \<longrightarrow> typed_token (lookahead ls')))"
proof -
  have inv: "lex_inv ls" by (rule lex_reach_inv [OF assms])
  note next_ok = luaX_next_ok [OF inv assms(2)]
  note peek_ok = luaX_lookahead_ok [OF inv assms(2)]
  show ?thesis
    using ok_not_UB [OF next_ok] ok_InrD [OF next_ok] ok_not_UB [OF peek_ok] ok_InrD [OF peek_ok] by blast
qed

definition sample_clib :: clib where
  "sample_clib = \<lparr>c_strtod = (\<lambda>s. let d = takeWhile (\<lambda>c. isdigit (uchar c)) s in
       (dbl_of_int (foldl (\<lambda>a c. a * 10 + uchar c - 48) 0 d), length d)),
     c_num2str = (\<lambda>_. ''1''), c_ptr2str = (\<lambda>_. ''0x0''), c_localeconv = Some ''.'', c_pow = (\<lambda>a b. a)\<rparr>"

definition sample_lex :: LexState where
  "sample_lex = \<lparr>current = 0, linenumber = 0, lastline = 0, tok = \<lparr>token = 0, seminfo = NoInfo\<rparr>,
     lookahead = \<lparr>token = 0, seminfo = NoInfo\<rparr>, lz = luaZ_init [], lbuff = \<lparr>bcontents = [], buffsize = 0\<rparr>,
     lsource = [], decpoint = NUL, has_fs = False, fsh = (\<lambda>_. Nil)\<rparr>"

theorem lexer_safe_witness:
  "\<exists>ls ls'. luaX_setinput sample_lex (luaZ_init [[120, 61], [49]]) ''=x'' = Inr ls \<and>
     luaX_next sample_clib (open_func ls) = Inr ls' \<and> tok ls' = \<lparr>token = TK_NAME, seminfo = InfoTS ''x''\<rparr> \<and>
     typed_token (tok ls')"
proof -
  obtain ls where ls: "luaX_setinput sample_lex (luaZ_init [[120, 61], [49]]) ''=x'' = Inr ls"
    by (cases "luaX_setinput sample_lex (luaZ_init [[120, 61], [49]]) ''=x''")
       (simp_all add: luaX_setinput_def lex_next_def zgetc_def luaZ_init_def luaZ_fill_def sample_lex_def)
  have "rmap tok (rbind (luaX_setinput sample_lex (luaZ_init [[120, 61], [49]]) ''=x'') (\<lambda>ls. luaX_next sample_clib (open_func ls))) =
    Inr \<lparr>token = TK_NAME, seminfo = InfoTS ''x''\<rparr>" by code_simp
  then obtain ls' where ls': "luaX_next sample_clib (open_func ls) = Inr ls'" "tok ls' = \<lparr>token = TK_NAME, seminfo = InfoTS ''x''\<rparr>"
    unfolding ls by (cases "luaX_next sample_clib (open_func ls)") auto
  have "lex_reach sample_clib sample_lex (luaZ_init [[120, 61], [49]]) ''=x'' (open_func ls)" by (rule lex_reach.start [OF ls])
  then have "typed_token (tok ls')"
    using lexer_safe [of sample_clib sample_lex "luaZ_init [[120, 61], [49]]" "''=x''" "open_func ls"] ls'(1)
    by (simp add: sample_clib_def clib_ok_def sample_lex_def valid_token_def)
  with ls ls' show ?thesis by blast
qed

end
