(* ===== verification/LexerQuote.thy ===== *)
theory LexerQuote
  imports LexerProps StrFormat
begin

text \<open>
  What the lexical analyser returns: the exact effect of its primitives on the bytes to come and on
  the token buffer, the string literal that \<open>string.format\<close> writes for \<open>%q\<close>, and a zero byte in the
  source text.
\<close>

lemma view_current:
  assumes "lwf ls" "lview ls = b # bs"
  shows "current ls = uint b \<and> current ls \<noteq> EOZ"
  using assms by (auto simp: lview_def lwf_def unsigned_of_int take_bit_int_eq_self split: if_splits)

text \<open>The part of the state that reading characters does not change.\<close>

definition lsame :: "LexState \<Rightarrow> LexState \<Rightarrow> bool" where
  "lsame ls ls' \<longleftrightarrow> tok ls' = tok ls \<and> lookahead ls' = lookahead ls \<and> lsource ls' = lsource ls \<and>
     fsh ls' = fsh ls \<and> decpoint ls' = decpoint ls \<and> lastline ls' = lastline ls"

lemma lsame_trans: "lsame a b \<Longrightarrow> lsame b c \<Longrightarrow> lsame a c"
  by (simp add: lsame_def)

lemma lsame_refl [simp]: "lsame a a"
  by (simp add: lsame_def)

lemma lex_next_view:
  assumes "lwf ls" "lview ls = b # bs"
  obtains ls' where "lex_next ls = Inr ls'" "lwf ls'" "lview ls' = bs" "lbuff ls' = lbuff ls"
    "linenumber ls' = linenumber ls" "lsame ls ls'"
  using lex_next_eq [OF assms(1)] view_current [OF assms] assms(2) by (fastforce simp: lsame_def)

lemma lex_save_view:
  assumes "lwf ls" "blen ls < 2 ^ 62"
  obtains ls' where "lex_save C ls c = Inr ls'" "lwf ls'" "lview ls' = lview ls" "current ls' = current ls"
    "bcontents (lbuff ls') = bcontents (lbuff ls) @ [char_of c]" "linenumber ls' = linenumber ls" "lsame ls ls'"
proof -
  have "\<exists>ls'. lex_save C ls c = Inr ls'"
    using assms by (auto simp: lex_save_def put_byte_def Let_def lwf_def blen_def luaZ_resizebuffer_def MAX_SIZET_def)
  then obtain ls' where e: "lex_save C ls c = Inr ls'" by blast
  have "lsame ls ls'" using lex_save_Inr [OF e] by (auto simp: lsame_def)
  with e lex_save_ok [OF assms(1), of c C] that show ?thesis by (auto dest: lstep_lwf)
qed

lemma save_and_next_view:
  assumes "lwf ls" "lview ls = b # bs" "blen ls < 2 ^ 62"
  obtains ls' where "save_and_next C ls = Inr ls'" "lwf ls'" "lview ls' = bs"
    "bcontents (lbuff ls') = bcontents (lbuff ls) @ [char_of (uint b)]" "linenumber ls' = linenumber ls" "lsame ls ls'"
proof -
  obtain a where a: "lex_save C ls (current ls) = Inr a" "lwf a" "lview a = b # bs" "current a = current ls"
    "bcontents (lbuff a) = bcontents (lbuff ls) @ [char_of (current ls)]" "linenumber a = linenumber ls" "lsame ls a"
    using lex_save_view [OF assms(1,3), of C "current ls"] assms(2) by metis
  obtain d where d: "lex_next a = Inr d" "lwf d" "lview d = bs" "lbuff d = lbuff a" "linenumber d = linenumber a" "lsame a d"
    using lex_next_view [OF a(2,3)] by metis
  show ?thesis
    by (rule that [of d])
       (use a d view_current [OF assms(1,2)] in \<open>simp_all add: save_and_next_def lsame_def\<close>)
qed

subsection \<open>A zero byte after a dot\<close>

lemma uint_low: "take_bit 8 (uint (b::byte)) = uint b"
  using byte_range [of b] by (intro take_bit_int_eq_self) simp_all

lemma reset_view: "lwf ls \<Longrightarrow> lwf (reset_buffer ls)" "lview (reset_buffer ls) = lview ls"
    "bcontents (lbuff (reset_buffer ls)) = []" "linenumber (reset_buffer ls) = linenumber ls" "lsame ls (reset_buffer ls)"
  using reset_buffer_step(1) [of ls] lstep_lwf
  by (blast, auto simp: reset_buffer_def luaZ_resetbuffer_def lview_def lsame_def)

lemma check_next_view:
  assumes "lwf ls" "lview ls = b # bs" "strchr cs (uint b)" "blen ls < 2 ^ 62"
  obtains ls' where "check_next C ls cs = Inr (True, ls')" "lwf ls'" "lview ls' = bs"
    "blen ls' = Suc (blen ls)"
proof -
  obtain a where "save_and_next C ls = Inr a" "lwf a" "lview a = bs"
    "bcontents (lbuff a) = bcontents (lbuff ls) @ [char_of (uint b)]"
    using save_and_next_view [OF assms(1,2,4)] by metis
  with that [of a] assms(3) view_current [OF assms(1,2)] show ?thesis
    by (simp add: check_next_def blen_def)
qed

text \<open>
  \<open>strchr\<close> finds the terminator of its set, so \<open>check_next\<close> accepts a zero byte as a member of
  every set: a dot and a zero byte in the source are read as the operator \<open>..\<close>, and a third
  character is then tried the same way, although the source holds no second dot.
\<close>

theorem zero_byte_is_dot:
  assumes "lwf ls" "lview ls = 46 # 0 # rest" "rest = [] \<or> hd rest \<noteq> 46 \<and> hd rest \<noteq> 0"
  shows "\<exists>ls'. llex C ls = Inr (\<lparr>token = TK_CONCAT, seminfo = NoInfo\<rparr>, ls') \<and> lview ls' = rest"
proof -
  let ?ls = "reset_buffer ls"
  have r: "lwf ?ls" "lview ?ls = 46 # 0 # rest" "blen ?ls = 0"
    using reset_view [of ls] assms by (simp_all add: blen_def)
  have small: "blen ?ls < 2 ^ 62" using r(3) by simp
  obtain a where a: "save_and_next C ?ls = Inr a" "lwf a" "lview a = 0 # rest"
    "bcontents (lbuff a) = bcontents (lbuff ?ls) @ [char_of (uint (46::byte))]"
    using save_and_next_view [OF r(1,2) small] by metis
  have "blen a < 2 ^ 62" using a(4) r(3) by (simp add: blen_def)
  then obtain d where d: "check_next C a ''.'' = Inr (True, d)" "lwf d" "lview d = rest"
    using check_next_view [OF a(2,3), of "''.''" C] by (auto simp: strchr_def)
  have three: "check_next C d ''.'' = Inr (False, d)"
  proof (cases rest)
    case Nil
    with d have "current d = EOZ" by (simp add: lview_def split: if_splits)
    moreover have "char_of (- 1 :: int) = CHR 0xFF" by (simp add: char_of_def)
    ultimately show ?thesis by (simp add: check_next_def strchr_def EOZ_def cstr_def)
  next
    case (Cons b bs)
    with d have "current d = uint b" using view_current by blast
    moreover have "char_of (uint b) \<noteq> CHR ''.'' \<and> char_of (uint b) \<noteq> NUL"
      using Cons assms(3) by (auto simp: char_of_eq_iff uint_low word_uint_eq_iff)
    ultimately show ?thesis by (simp add: check_next_def strchr_def cstr_def)
  qed
  have "current ?ls = 46" using view_current [OF r(1,2)] by simp
  then have "llex_step C ?ls = Inr (Some \<lparr>token = TK_CONCAT, seminfo = NoInfo\<rparr>, d)"
    by (simp add: llex_step_def Let_def a d three EOZ_def)
  then have "llex C ls = Inr (\<lparr>token = TK_CONCAT, seminfo = NoInfo\<rparr>, d)"
    by (simp add: llex_def llex_loop.simps [of C ?ls])
  with d show ?thesis by blast
qed

theorem zero_byte_is_dot_witness:
  "\<exists>ls ls'. luaX_setinput sample_lex (luaZ_init [[46, 0, 97]]) ''=x'' = Inr ls \<and>
     llex sample_clib (open_func ls) = Inr (\<lparr>token = TK_CONCAT, seminfo = NoInfo\<rparr>, ls') \<and> lview ls' = [97]"
proof -
  obtain ls where ls: "luaX_setinput sample_lex (luaZ_init [[46, 0, 97]]) ''=x'' = Inr ls"
    by (cases "luaX_setinput sample_lex (luaZ_init [[46, 0, 97]]) ''=x''")
       (simp_all add: luaX_setinput_def lex_next_def zgetc_def luaZ_init_def luaZ_fill_def sample_lex_def)
  have "okr lex_inv (rmap open_func (luaX_setinput sample_lex (luaZ_init [[46, 0, 97]]) ''=x''))"
    by (rule luaX_setinput_ok) (simp_all add: sample_lex_def valid_token_def)
  then have "lwf (open_func ls)" by (simp add: ls lex_inv_def)
  moreover have "lview (open_func ls) = [46, 0, 97]"
    using ls by (auto simp: open_func_def luaX_setinput_def lex_next_def zgetc_def luaZ_init_def luaZ_fill_def sample_lex_def
        lview_def EOZ_def zbytes_def)
  ultimately have "\<exists>ls'. llex sample_clib (open_func ls) = Inr (\<lparr>token = TK_CONCAT, seminfo = NoInfo\<rparr>, ls') \<and> lview ls' = [97]"
    by (intro zero_byte_is_dot) auto
  with ls show ?thesis by blast
qed

subsection \<open>Reading back a quoted string\<close>

lemma newline_view:
  assumes "lwf ls" "lview ls = 10 # bs" "bs = [] \<or> hd bs \<noteq> 13" "linenumber ls + 1 < MAX_INT"
  obtains ls' where "inclinenumber C ls = Inr ls'" "lwf ls'" "lview ls' = bs" "lbuff ls' = lbuff ls"
    "linenumber ls' = linenumber ls + 1" "lsame ls ls'"
proof -
  obtain a where a: "lex_next ls = Inr a" "lwf a" "lview a = bs" "lbuff a = lbuff ls"
    "linenumber a = linenumber ls" "lsame ls a"
    using lex_next_view [OF assms(1,2)] by metis
  have c: "current ls = 10" using view_current [OF assms(1,2)] by simp
  have "\<not> (currIsNewline a \<and> current a \<noteq> 10)"
  proof (cases bs)
    case Nil
    with a show ?thesis by (auto simp: lview_def currIsNewline_def EOZ_def split: if_splits)
  next
    case (Cons b bs')
    with a have "current a = uint b" using view_current by blast
    with Cons assms(3) show ?thesis by (auto simp: currIsNewline_def word_uint_eq_iff)
  qed
  then have "inclinenumber C ls = Inr (a\<lparr>linenumber := linenumber a + 1\<rparr>)"
    using a(1,5) c assms(4) by (auto simp: inclinenumber_def Let_def currIsNewline_def)
  with a that [of "a\<lparr>linenumber := linenumber a + 1\<rparr>"] show ?thesis by (simp add: lsame_def)
qed

lemma escape_char_view:
  assumes "lwf ls" "lview ls = 92 # b # bs" "blen ls < 2 ^ 62" "b = 34 \<or> b = 92"
  obtains ls' where "read_escape C ls = Inr ls'" "lwf ls'" "lview ls' = bs"
    "bcontents (lbuff ls') = bcontents (lbuff ls) @ [char_of (uint b)]" "linenumber ls' = linenumber ls"
    "lsame ls ls'"
proof -
  obtain a where a: "lex_next ls = Inr a" "lwf a" "lview a = b # bs" "lbuff a = lbuff ls"
    "linenumber a = linenumber ls" "lsame ls a"
    using lex_next_view [OF assms(1,2)] by metis
  then have small: "blen a < 2 ^ 62" using assms(3) by (simp add: blen_def)
  obtain d where d: "save_and_next C a = Inr d" "lwf d" "lview d = bs"
    "bcontents (lbuff d) = bcontents (lbuff a) @ [char_of (uint b)]" "linenumber d = linenumber a" "lsame a d"
    using save_and_next_view [OF a(2,3) small] by metis
  have c: "current a = 34 \<or> current a = 92" using view_current [OF a(2,3)] assms(4) by auto
  have "read_escape C ls = save_and_next C a"
    using c by (auto simp: read_escape_def a simple_escape_def currIsNewline_def EOZ_def isdigit_def)
  with a d that [of d] show ?thesis by (simp add: lsame_def)
qed

lemma escape_newline_view:
  assumes "lwf ls" "lview ls = 92 # 10 # bs" "blen ls < 2 ^ 62" "bs = [] \<or> hd bs \<noteq> 13"
    "linenumber ls + 1 < MAX_INT"
  obtains ls' where "read_escape C ls = Inr ls'" "lwf ls'" "lview ls' = bs"
    "bcontents (lbuff ls') = bcontents (lbuff ls) @ [CHR 0x0A]" "linenumber ls' = linenumber ls + 1" "lsame ls ls'"
proof -
  obtain a where a: "lex_next ls = Inr a" "lwf a" "lview a = 10 # bs" "lbuff a = lbuff ls"
    "linenumber a = linenumber ls" "lsame ls a"
    using lex_next_view [OF assms(1,2)] by metis
  then have small: "blen a < 2 ^ 62" using assms(3) by (simp add: blen_def)
  obtain d where d: "lex_save C a 10 = Inr d" "lwf d" "lview d = lview a"
    "bcontents (lbuff d) = bcontents (lbuff a) @ [char_of (10::int)]" "linenumber d = linenumber a" "lsame a d"
    using lex_save_view [OF a(2) small, of C 10] by metis
  have "lview d = 10 # bs" "linenumber d + 1 < MAX_INT" using a d assms(5) by simp_all
  from newline_view [OF d(2) this(1) assms(4) this(2), where C = C] obtain e where
    e: "inclinenumber C d = Inr e" "lwf e" "lview e = bs" "lbuff e = lbuff d" "linenumber e = linenumber d + 1" "lsame d e"
    by metis
  have "current a = 10" using view_current [OF a(2,3)] by simp
  then have "read_escape C ls = Inr e"
    by (simp add: read_escape_def a d e simple_escape_def currIsNewline_def)
  moreover have "char_of (10::int) = CHR 0x0A" by (simp add: char_of_def)
  ultimately show ?thesis using a d e that [of e] by (simp add: lsame_def)
qed

lemma escape_r_view:
  assumes "lwf ls" "lview ls = 92 # 114 # bs" "blen ls < 2 ^ 62"
  obtains ls' where "read_escape C ls = Inr ls'" "lwf ls'" "lview ls' = bs"
    "bcontents (lbuff ls') = bcontents (lbuff ls) @ [CHR 0x0D]" "linenumber ls' = linenumber ls" "lsame ls ls'"
proof -
  obtain a where a: "lex_next ls = Inr a" "lwf a" "lview a = 114 # bs" "lbuff a = lbuff ls"
    "linenumber a = linenumber ls" "lsame ls a"
    using lex_next_view [OF assms(1,2)] by metis
  then have small: "blen a < 2 ^ 62" using assms(3) by (simp add: blen_def)
  obtain d where d: "lex_save C a 13 = Inr d" "lwf d" "lview d = lview a"
    "bcontents (lbuff d) = bcontents (lbuff a) @ [char_of (13::int)]" "linenumber d = linenumber a" "lsame a d"
    using lex_save_view [OF a(2) small, of C 13] by metis
  have "lview d = 114 # bs" using a d by simp
  from lex_next_view [OF d(2) this] obtain e where
    e: "lex_next d = Inr e" "lwf e" "lview e = bs" "lbuff e = lbuff d" "linenumber e = linenumber d" "lsame d e"
    by metis
  have "current a = 114" using view_current [OF a(2,3)] by simp
  then have "read_escape C ls = Inr e"
    by (simp add: read_escape_def a d e simple_escape_def)
  moreover have "char_of (13::int) = CHR 0x0D" by (simp add: char_of_def)
  ultimately show ?thesis using a d e that [of e] by (simp add: lsame_def)
qed

lemma esc_digit_view:
  assumes "lwf ls" "lview ls = 48 # bs"
  obtains ls' where "esc_digits (Suc i) c ls = (if i \<noteq> 0 \<and> isdigit (current ls') then esc_digits i (10 * c) ls'
      else Inr (10 * c, ls'))" "lwf ls'" "lview ls' = bs" "lbuff ls' = lbuff ls" "linenumber ls' = linenumber ls" "lsame ls ls'"
proof -
  obtain a where a: "lex_next ls = Inr a" "lwf a" "lview a = bs" "lbuff a = lbuff ls"
    "linenumber a = linenumber ls" "lsame ls a"
    using lex_next_view [OF assms] by metis
  have "current ls = 48" using view_current [OF assms] by simp
  with a that [of a] show ?thesis by simp
qed

lemma escape_000_view:
  assumes "lwf ls" "lview ls = 92 # 48 # 48 # 48 # bs" "blen ls < 2 ^ 62"
  obtains ls' where "read_escape C ls = Inr ls'" "lwf ls'" "lview ls' = bs"
    "bcontents (lbuff ls') = bcontents (lbuff ls) @ [NUL]" "linenumber ls' = linenumber ls" "lsame ls ls'"
proof -
  obtain a where a: "lex_next ls = Inr a" "lwf a" "lview a = 48 # 48 # 48 # bs" "lbuff a = lbuff ls"
    "linenumber a = linenumber ls" "lsame ls a"
    using lex_next_view [OF assms(1,2)] by metis
  obtain b where b: "esc_digits (Suc (Suc (Suc 0))) 0 a = (if Suc (Suc 0) \<noteq> 0 \<and> isdigit (current b)
      then esc_digits (Suc (Suc 0)) (10 * 0) b else Inr (10 * 0, b))" "lwf b" "lview b = 48 # 48 # bs"
    "lbuff b = lbuff a" "linenumber b = linenumber a" "lsame a b"
    using esc_digit_view [OF a(2,3)] by metis
  obtain d where d: "esc_digits (Suc (Suc 0)) 0 b = (if Suc 0 \<noteq> 0 \<and> isdigit (current d)
      then esc_digits (Suc 0) (10 * 0) d else Inr (10 * 0, d))" "lwf d" "lview d = 48 # bs"
    "lbuff d = lbuff b" "linenumber d = linenumber b" "lsame b d"
    using esc_digit_view [OF b(2,3)] by metis
  obtain e where e: "esc_digits (Suc 0) 0 d = (if (0::nat) \<noteq> 0 \<and> isdigit (current e)
      then esc_digits 0 (10 * 0) e else Inr (10 * 0, e))" "lwf e" "lview e = bs"
    "lbuff e = lbuff d" "linenumber e = linenumber d" "lsame d e"
    using esc_digit_view [OF d(2,3)] by metis
  have dig: "isdigit (current b)" "isdigit (current d)" "current a = 48"
    using view_current [OF b(2,3)] view_current [OF d(2,3)] view_current [OF a(2,3)] by (simp_all add: isdigit_def)
  have three: "esc_digits 3 0 a = Inr (0, e)"
    using b(1) d(1) e(1) dig unfolding numeral_3_eq_3 by (simp del: esc_digits.simps)
  have small: "blen e < 2 ^ 62" using assms(3) a b d e by (simp add: blen_def)
  obtain f where f: "lex_save C e 0 = Inr f" "lwf f" "lview f = lview e"
    "bcontents (lbuff f) = bcontents (lbuff e) @ [char_of (0::int)]" "linenumber f = linenumber e" "lsame e f"
    using lex_save_view [OF e(2) small, of C 0] by metis
  have "read_escape C ls = Inr f"
    using dig by (simp add: read_escape_def a simple_escape_def currIsNewline_def EOZ_def isdigit_def three f)
  then show ?thesis using a b d e f that [of f] by (simp add: lsame_def)
qed

lemma plain_char_step:
  assumes "lwf ls" "lview ls = b # bs" "blen ls < 2 ^ 62" "b \<noteq> 92" "b \<noteq> 10" "b \<noteq> 13"
  obtains ls' where "string_step C ls = Inr ls'" "lwf ls'" "lview ls' = bs"
    "bcontents (lbuff ls') = bcontents (lbuff ls) @ [char_of (uint b)]" "linenumber ls' = linenumber ls" "lsame ls ls'"
proof -
  have c: "current ls = uint b" "current ls \<noteq> EOZ" using view_current [OF assms(1,2)] by auto
  then have "string_step C ls = save_and_next C ls"
    using assms(4-6) by (auto simp: string_step_def currIsNewline_def word_uint_eq_iff)
  then show ?thesis using save_and_next_view [OF assms(1-3), of C thesis] that by simp
qed

abbreviation bytes_of :: "string \<Rightarrow> byte list" where "bytes_of \<equiv> map of_char"

lemma char_byte [simp]: "char_of (uint (of_char c :: byte)) = c"
proof -
  have "uint (word_of_int (of_char c) :: byte) = take_bit 8 (of_char c)" by (simp add: unsigned_of_int)
  moreover have "(word_of_int (of_char c) :: byte) = of_char c" by (rule of_int_of_char)
  ultimately show ?thesis by (simp add: char_of_take_bit_eq)
qed

lemma of_char_byte_eq: "(of_char c :: byte) = of_char d \<longleftrightarrow> c = d"
  by (metis char_byte)

lemma byte_codes: "of_char c = (34::byte) \<longleftrightarrow> c = CHR 0x22" "of_char c = (92::byte) \<longleftrightarrow> c = CHR 0x5C"
  "of_char c = (10::byte) \<longleftrightarrow> c = CHR 0x0A" "of_char c = (13::byte) \<longleftrightarrow> c = CHR 0x0D"
  using of_char_byte_eq [of c "CHR 0x22"] of_char_byte_eq [of c "CHR 0x5C"] of_char_byte_eq [of c "CHR 0x0A"]
    of_char_byte_eq [of c "CHR 0x0D"] by simp_all

lemma quoted_no_cr: "CHR 0x0D \<notin> set (addquoted_body s)"
  by (induction s rule: addquoted_body.induct) auto

lemma string_step_escape: "current ls = 92 \<Longrightarrow> string_step C ls = read_escape C ls"
  by (simp add: string_step_def EOZ_def currIsNewline_def)

text \<open>One character of the quoted text takes one round of the loop.\<close>

lemma quoted_step:
  assumes "lwf ls" "lview ls = bytes_of (addquoted_body (c # s)) @ 34 # rest" "blen ls < 2 ^ 62"
    "linenumber ls + 1 < MAX_INT"
  obtains ls' where "string_step C ls = Inr ls'" "lwf ls'" "lview ls' = bytes_of (addquoted_body s) @ 34 # rest"
    "bcontents (lbuff ls') = bcontents (lbuff ls) @ [c]" "linenumber ls' \<le> linenumber ls + 1" "lsame ls ls'"
    "current ls \<noteq> 34"
proof -
  let ?r = "bytes_of (addquoted_body s) @ 34 # rest"
  have esc: "string_step C ls = read_escape C ls \<and> current ls \<noteq> 34" if "lview ls = 92 # bs" for bs
    using view_current [OF assms(1) that] by (simp add: string_step_escape)
  consider "c = CHR 0x22 \<or> c = CHR 0x5C" | "c = CHR 0x0A" | "c = CHR 0x0D" | "c = NUL"
    | "c \<notin> {CHR 0x22, CHR 0x5C, CHR 0x0A, CHR 0x0D, NUL}" by blast
  then show ?thesis
  proof cases
    case 1
    then have v: "lview ls = 92 # of_char c # ?r" "of_char c = (34::byte) \<or> of_char c = (92::byte)"
      using assms(2) by (auto simp: byte_codes)
    obtain ls' where "read_escape C ls = Inr ls'" "lwf ls'" "lview ls' = ?r"
      "bcontents (lbuff ls') = bcontents (lbuff ls) @ [char_of (uint (of_char c :: byte))]"
      "linenumber ls' = linenumber ls" "lsame ls ls'"
      using escape_char_view [OF assms(1) v(1) assms(3) v(2)] by metis
    with that [of ls'] esc [OF v(1)] show ?thesis by simp
  next
    case 2
    then have v: "lview ls = 92 # 10 # ?r" using assms(2) by simp
    have nocr: "?r = [] \<or> hd ?r \<noteq> 13"
      using quoted_no_cr [of s] by (cases "addquoted_body s") (auto simp: byte_codes)
    obtain ls' where "read_escape C ls = Inr ls'" "lwf ls'" "lview ls' = ?r"
      "bcontents (lbuff ls') = bcontents (lbuff ls) @ [CHR 0x0A]" "linenumber ls' = linenumber ls + 1" "lsame ls ls'"
      using escape_newline_view [OF assms(1) v assms(3) nocr assms(4)] by metis
    with that [of ls'] esc [OF v] 2 show ?thesis by simp
  next
    case 3
    then have v: "lview ls = 92 # 114 # ?r" using assms(2) by simp
    obtain ls' where "read_escape C ls = Inr ls'" "lwf ls'" "lview ls' = ?r"
      "bcontents (lbuff ls') = bcontents (lbuff ls) @ [CHR 0x0D]" "linenumber ls' = linenumber ls" "lsame ls ls'"
      using escape_r_view [OF assms(1) v assms(3)] by metis
    with that [of ls'] esc [OF v] 3 show ?thesis by simp
  next
    case 4
    then have v: "lview ls = 92 # 48 # 48 # 48 # ?r" using assms(2) by simp
    obtain ls' where "read_escape C ls = Inr ls'" "lwf ls'" "lview ls' = ?r"
      "bcontents (lbuff ls') = bcontents (lbuff ls) @ [NUL]" "linenumber ls' = linenumber ls" "lsame ls ls'"
      using escape_000_view [OF assms(1) v assms(3)] by metis
    with that [of ls'] esc [OF v] 4 show ?thesis by simp
  next
    case 5
    then have v: "lview ls = of_char c # ?r" and ne: "of_char c \<noteq> (92::byte)" "of_char c \<noteq> (10::byte)"
      "of_char c \<noteq> (13::byte)" "of_char c \<noteq> (34::byte)"
      using assms(2) by (auto simp: byte_codes)
    obtain ls' where "string_step C ls = Inr ls'" "lwf ls'" "lview ls' = ?r"
      "bcontents (lbuff ls') = bcontents (lbuff ls) @ [char_of (uint (of_char c :: byte))]"
      "linenumber ls' = linenumber ls" "lsame ls ls'"
      using plain_char_step [OF assms(1) v assms(3) ne(1-3)] by metis
    with that [of ls'] view_current [OF assms(1) v] ne(4) show ?thesis
      by (auto simp: word_uint_eq_iff)
  qed
qed

lemma quoted_loop:
  "lwf ls \<Longrightarrow> lview ls = bytes_of (addquoted_body s) @ 34 # rest \<Longrightarrow> blen ls + length s < 2 ^ 62 \<Longrightarrow>
     linenumber ls + int (length s) < MAX_INT \<Longrightarrow>
     \<exists>ls'. string_loop C 34 ls = Inr ls' \<and> lwf ls' \<and> lview ls' = 34 # rest \<and>
       bcontents (lbuff ls') = bcontents (lbuff ls) @ s \<and> lsame ls ls'"
proof (induction s arbitrary: ls)
  case Nil
  then have "current ls = 34" using view_current [of ls 34 rest] by simp
  then have "string_loop C 34 ls = Inr ls" by (simp add: string_loop.simps [of C 34 ls])
  with Nil show ?case by simp
next
  case (Cons c s)
  obtain a where a: "string_step C ls = Inr a" "lwf a" "lview a = bytes_of (addquoted_body s) @ 34 # rest"
    "bcontents (lbuff a) = bcontents (lbuff ls) @ [c]" "linenumber a \<le> linenumber ls + 1" "lsame ls a"
    "current ls \<noteq> 34"
    using quoted_step [OF Cons.prems(1,2), of C] Cons.prems(3,4) by auto
  have "blen a + length s < 2 ^ 62" "linenumber a + int (length s) < MAX_INT"
    using a(4,5) Cons.prems(3,4) by (simp_all add: blen_def)
  from Cons.IH [OF a(2,3) this] obtain ls' where "string_loop C 34 a = Inr ls'" "lwf ls'" "lview ls' = 34 # rest"
    "bcontents (lbuff ls') = bcontents (lbuff a) @ s" "lsame a ls'" by blast
  with a show ?case
    by (intro exI [of _ ls']) (simp add: string_loop.simps [of C 34 ls] lsame_def)
qed

text \<open>
  C19. What \<open>string.format\<close> writes for \<open>%q\<close> is a string literal of the language: the lexical
  analyser reads \<open>addquoted s\<close> back as the one token \<open>TK_STRING\<close> with the value \<open>s\<close>, whatever bytes
  \<open>s\<close> has and whatever follows the literal, which is left for the next token.
\<close>

theorem quoted_string_roundtrip:
  assumes "lwf ls" "lview ls = bytes_of (addquoted s) @ rest" "linenumber ls + int (length s) < MAX_INT"
  shows "\<exists>ls'. llex C ls = Inr (\<lparr>token = TK_STRING, seminfo = InfoTS s\<rparr>, ls') \<and> lview ls' = rest"
proof -
  let ?ls = "reset_buffer ls"
  have r: "lwf ?ls" "lview ?ls = 34 # bytes_of (addquoted_body s) @ 34 # rest" "bcontents (lbuff ?ls) = []"
    "linenumber ?ls = linenumber ls"
    using reset_view [of ls] assms(1,2) by (simp_all add: addquoted_def)
  have len: "length s \<le> length (addquoted_body s)" by (induction s rule: addquoted_body.induct) auto
  have "length (lview ls) < 2 ^ 31" using assms(1) by (simp add: lwf_def)
  with len have small: "length s < 2 ^ 31" using assms(2) by (simp add: addquoted_def)
  have sm: "blen ?ls < 2 ^ 62" using r(3) by (simp add: blen_def)
  obtain a where a: "save_and_next C ?ls = Inr a" "lwf a" "lview a = bytes_of (addquoted_body s) @ 34 # rest"
    "bcontents (lbuff a) = bcontents (lbuff ?ls) @ [char_of (uint (34::byte))]" "linenumber a = linenumber ?ls"
    using save_and_next_view [OF r(1,2) sm] by metis
  have "blen a + length s < 2 ^ 62" "linenumber a + int (length s) < MAX_INT"
    using a r small assms(3) by (simp_all add: blen_def)
  from quoted_loop [OF a(2,3) this] obtain b where b: "string_loop C 34 a = Inr b" "lwf b" "lview b = 34 # rest"
    "bcontents (lbuff b) = bcontents (lbuff a) @ s" by blast
  have sm: "blen b < 2 ^ 62" using a b r small by (simp add: blen_def)
  obtain d where d: "save_and_next C b = Inr d" "lwf d" "lview d = rest"
    "bcontents (lbuff d) = bcontents (lbuff b) @ [char_of (uint (34::byte))]"
    using save_and_next_view [OF b(2,3) sm] by metis
  have n: "length (bcontents (lbuff d)) = length s + 2" using a b d r by simp
  have "size_sub (length (bcontents (lbuff d))) 2 = length s"
    using small by (subst size_sub_nat) (simp_all add: n)
  moreover obtain d' where d': "luaX_newstring d s = Inr (s, d')" "lview d' = lview d"
    using d(2) by (cases "h_get (fsh d) (Str s) = Nil") (auto simp: luaX_newstring_def lview_def lwf_def)
  ultimately have "newstring_at d 1 (size_sub (length (bcontents (lbuff d))) 2) = Inr (s, d')"
    using a b d r n by (simp add: newstring_at_def)
  then have "read_string C 34 ?ls = Inr (s, d')"
    by (simp add: read_string_def a b d)
  moreover have "current ?ls = 34" using view_current [OF r(1,2)] by simp
  ultimately have "llex C ls = Inr (\<lparr>token = TK_STRING, seminfo = InfoTS s\<rparr>, d')"
    by (simp add: llex_def llex_loop.simps [of C ?ls] llex_step_def Let_def)
  moreover have "lview d' = rest" using d(3) d'(2) by simp
  ultimately show ?thesis by blast
qed

theorem quoted_string_roundtrip_witness:
  "\<exists>ls ls'. luaX_setinput sample_lex (luaZ_init [bytes_of (addquoted (CHR 0x0A # ''a'')) @ [59]]) ''=x'' = Inr ls \<and>
     llex sample_clib (open_func ls) = Inr (\<lparr>token = TK_STRING, seminfo = InfoTS (CHR 0x0A # ''a'')\<rparr>, ls') \<and> lview ls' = [59]"
proof -
  let ?z = "luaZ_init [bytes_of (addquoted (CHR 0x0A # ''a'')) @ [59]]"
  obtain ls where ls: "luaX_setinput sample_lex ?z ''=x'' = Inr ls"
    by (cases "luaX_setinput sample_lex ?z ''=x''")
       (simp_all add: luaX_setinput_def lex_next_def zgetc_def luaZ_init_def luaZ_fill_def sample_lex_def addquoted_def)
  have "okr lex_inv (rmap open_func (luaX_setinput sample_lex ?z ''=x''))"
    by (rule luaX_setinput_ok) (simp_all add: sample_lex_def valid_token_def addquoted_def)
  then have "lwf (open_func ls)" by (simp add: ls lex_inv_def)
  moreover have "lview (open_func ls) = bytes_of (addquoted (CHR 0x0A # ''a'')) @ [59] \<and> linenumber (open_func ls) = 1"
    using ls by (auto simp: open_func_def luaX_setinput_def lex_next_def zgetc_def luaZ_init_def luaZ_fill_def sample_lex_def
        lview_def EOZ_def zbytes_def addquoted_def)
  ultimately have "\<exists>ls'. llex sample_clib (open_func ls) = Inr (\<lparr>token = TK_STRING, seminfo = InfoTS (CHR 0x0A # ''a'')\<rparr>, ls') \<and>
      lview ls' = [59]"
    by (intro quoted_string_roundtrip) (auto simp: MAX_INT_def)
  with ls show ?thesis by blast
qed

end
