(* ===== verification/CodeGen.thy ===== *)
theory CodeGen
  imports Opcodes Lexer
begin

text \<open>
  \<open>lua/lcode.c\<close>: the code generator, with the growth policy of \<open>lua/lmem.c\<close> and the descriptors
  of \<open>lua/lparser.h\<close>. A step takes the \<open>FuncState\<close> and returns it updated; the arrays of the
  function header that it extends are fields of it: \<open>code\<close> and \<open>lineinfo\<close> hold what has been
  written so far (at least \<open>pc\<close> elements), \<open>kvec\<close> all the \<open>sizek\<close> constants. The table \<open>h\<close> is the
  field \<open>fsh\<close> of the lexical state. Reading or writing outside an array and violating an assertion
  are \<open>UB\<close>. A walk along a jump list takes fuel, one step for every instruction and one more:
  no list that ends visits an instruction twice.
\<close>

subsection \<open>Growing an array\<close>

definition MINSIZEARRAY :: int where "MINSIZEARRAY = 4"

definition luaM_growaux :: "int \<Rightarrow> int \<Rightarrow> string \<Rightarrow> int res" where
  "luaM_growaux sz limit errormsg =
     (if sz \<ge> limit div 2 then
        if sz \<ge> limit then Inl (LuaError LUA_ERRRUN errormsg) else Inr limit
      else
        let newsize = sz * 2 in Inr (if newsize < MINSIZEARRAY then MINSIZEARRAY else newsize))"

definition luaM_growvector :: "int \<Rightarrow> int \<Rightarrow> int \<Rightarrow> string \<Rightarrow> int res" where
  "luaM_growvector nelems sz limit errormsg =
     (if nelems + 1 > sz then luaM_growaux sz limit errormsg else Inr sz)"

text \<open>A write to slot \<open>i\<close> of an array of \<open>sz\<close> slots of which a prefix has been written.\<close>

definition vec_put :: "int \<Rightarrow> 'a list \<Rightarrow> int \<Rightarrow> 'a \<Rightarrow> 'a list res" where
  "vec_put sz xs i x =
     (if 0 \<le> i \<and> i < sz \<and> i \<le> int (length xs)
      then Inr (if i = int (length xs) then xs @ [x] else xs[nat i := x])
      else Inl (UB ''array write''))"

subsection \<open>Descriptors and the state\<close>

datatype expkind = VVOID | VNIL | VTRUE | VFALSE | VK | VKNUM | VLOCAL | VUPVAL | VGLOBAL | VINDEXED
  | VJMP | VRELOCABLE | VNONRELOC | VCALL | VVARARG

text \<open>The members of the union are separate fields: \<open>einfo\<close>, \<open>eaux\<close> and \<open>enval\<close>.\<close>

record expdesc =
  ek :: expkind
  einfo :: int
  eaux :: int
  enval :: lua_Number
  et :: int
  ef :: int

record FuncState =
  code :: "Instruction list"
  sizecode :: int
  lineinfo :: "int list"
  sizelineinfo :: int
  kvec :: "TValue list"
  sizek :: int
  maxstacksize :: int
  fls :: LexState
  pc :: int
  lasttarget :: int
  jpc :: int
  freereg :: int
  nk :: int
  nactvar :: int

definition NO_JUMP :: int where "NO_JUMP = - 1"

datatype BinOpr = OPR_ADD | OPR_SUB | OPR_MUL | OPR_DIV | OPR_MOD | OPR_POW | OPR_CONCAT
  | OPR_NE | OPR_EQ | OPR_LT | OPR_LE | OPR_GT | OPR_GE | OPR_AND | OPR_OR | OPR_NOBINOPR

datatype UnOpr = OPR_MINUS | OPR_NOT | OPR_LEN | OPR_NOUNOPR

definition hasjumps :: "expdesc \<Rightarrow> bool" where "hasjumps e \<longleftrightarrow> et e \<noteq> ef e"

definition isnumeral :: "expdesc \<Rightarrow> bool" where
  "isnumeral e \<longleftrightarrow> ek e = VKNUM \<and> et e = NO_JUMP \<and> ef e = NO_JUMP"

definition getcode :: "FuncState \<Rightarrow> int \<Rightarrow> Instruction res" where
  "getcode fs p = aget (code fs) p"

definition set_code :: "FuncState \<Rightarrow> int \<Rightarrow> Instruction \<Rightarrow> FuncState res" where
  "set_code fs p i = rmap (\<lambda>c. fs\<lparr>code := c\<rparr>) (aput (code fs) p i)"

definition map_code :: "FuncState \<Rightarrow> int \<Rightarrow> (Instruction \<Rightarrow> Instruction) \<Rightarrow> FuncState res" where
  "map_code fs p f = rbind (getcode fs p) (\<lambda>i. set_code fs p (f i))"

text \<open>\<open>testTMode\<close> of an opcode field: the field can hold numbers beyond the table.\<close>

definition field_TMode :: "Instruction \<Rightarrow> bool res" where
  "field_TMode i = (case opcode_of (GET_OPCODE i) of Some m \<Rightarrow> Inr (testTMode m)
     | None \<Rightarrow> Inl (UB ''luaP_opmodes''))"

subsection \<open>Jump lists\<close>

definition fixjump :: "clib \<Rightarrow> FuncState \<Rightarrow> int \<Rightarrow> int \<Rightarrow> FuncState res" where
  "fixjump C fs p dest =
     (let offset = dest - (p + 1) in
      if dest = NO_JUMP then Inl (UB ''lua_assert'')
      else if \<bar>offset\<bar> > MAXARG_sBx then luaX_syntaxerror C (fls fs) ''control structure too long''
      else map_code fs p (\<lambda>i. SETARG_sBx i offset))"

definition luaK_getlabel :: "FuncState \<Rightarrow> int \<times> FuncState" where
  "luaK_getlabel fs = (pc fs, fs\<lparr>lasttarget := pc fs\<rparr>)"

definition getjump :: "FuncState \<Rightarrow> int \<Rightarrow> int res" where
  "getjump fs p =
     rbind (getcode fs p) (\<lambda>i.
     let offset = GETARG_sBx i in
     Inr (if offset = NO_JUMP then NO_JUMP else (p + 1) + offset))"

text \<open>The position of the instruction that controls a jump.\<close>

definition getjumpcontrol :: "FuncState \<Rightarrow> int \<Rightarrow> int res" where
  "getjumpcontrol fs p =
     (if p \<ge> 1 then
        rbind (getcode fs (p - 1)) (\<lambda>i.
        rbind (field_TMode i) (\<lambda>t. Inr (if t then p - 1 else p)))
      else Inr p)"

definition list_fuel :: "FuncState \<Rightarrow> nat" where
  "list_fuel fs = length (code fs) + 1"

fun need_value :: "nat \<Rightarrow> FuncState \<Rightarrow> int \<Rightarrow> bool res" where
  "need_value 0 fs l = Inl (UB ''endless jump list'')"
| "need_value (Suc n) fs l =
     (if l = NO_JUMP then Inr False
      else
        rbind (getjumpcontrol fs l) (\<lambda>c.
        rbind (getcode fs c) (\<lambda>i.
        if \<not> has_op i OP_TESTSET then Inr True
        else rbind (getjump fs l) (need_value n fs))))"

definition patchtestreg :: "FuncState \<Rightarrow> int \<Rightarrow> int \<Rightarrow> (bool \<times> FuncState) res" where
  "patchtestreg fs node reg =
     rbind (getjumpcontrol fs node) (\<lambda>c.
     rbind (getcode fs c) (\<lambda>i.
     if \<not> has_op i OP_TESTSET then Inr (False, fs)
     else
       rmap (Pair True) (set_code fs c
         (if reg \<noteq> NO_REG \<and> reg \<noteq> GETARG_B i then SETARG_A i reg
          else CREATE_ABC (opnum OP_TEST) (GETARG_B i) 0 (GETARG_C i)))))"

fun removevalues :: "nat \<Rightarrow> FuncState \<Rightarrow> int \<Rightarrow> FuncState res" where
  "removevalues 0 fs l = Inl (UB ''endless jump list'')"
| "removevalues (Suc n) fs l =
     (if l = NO_JUMP then Inr fs
      else
        rbind (patchtestreg fs l NO_REG) (\<lambda>(_, fs).
        rbind (getjump fs l) (removevalues n fs)))"

fun patchlistaux :: "nat \<Rightarrow> clib \<Rightarrow> FuncState \<Rightarrow> int \<Rightarrow> int \<Rightarrow> int \<Rightarrow> int \<Rightarrow> FuncState res" where
  "patchlistaux 0 C fs l vtarget reg dtarget = Inl (UB ''endless jump list'')"
| "patchlistaux (Suc n) C fs l vtarget reg dtarget =
     (if l = NO_JUMP then Inr fs
      else
        rbind (getjump fs l) (\<lambda>l'.
        rbind (patchtestreg fs l reg) (\<lambda>(b, fs).
        rbind (fixjump C fs l (if b then vtarget else dtarget)) (\<lambda>fs.
        patchlistaux n C fs l' vtarget reg dtarget))))"

definition dischargejpc :: "clib \<Rightarrow> FuncState \<Rightarrow> FuncState res" where
  "dischargejpc C fs =
     rbind (patchlistaux (list_fuel fs) C fs (jpc fs) (pc fs) NO_REG (pc fs)) (\<lambda>fs.
     Inr (fs\<lparr>jpc := NO_JUMP\<rparr>))"

fun list_last :: "nat \<Rightarrow> FuncState \<Rightarrow> int \<Rightarrow> int res" where
  "list_last 0 fs l = Inl (UB ''endless jump list'')"
| "list_last (Suc n) fs l =
     rbind (getjump fs l) (\<lambda>l'. if l' \<noteq> NO_JUMP then list_last n fs l' else Inr l)"

text \<open>\<open>luaK_concat\<close> returns the new value of \<open>*l1\<close>.\<close>

definition luaK_concat :: "clib \<Rightarrow> FuncState \<Rightarrow> int \<Rightarrow> int \<Rightarrow> (int \<times> FuncState) res" where
  "luaK_concat C fs l1 l2 =
     (if l2 = NO_JUMP then Inr (l1, fs)
      else if l1 = NO_JUMP then Inr (l2, fs)
      else
        rbind (list_last (list_fuel fs) fs l1) (\<lambda>l.
        rmap (Pair l1) (fixjump C fs l l2)))"

definition luaK_patchtohere :: "clib \<Rightarrow> FuncState \<Rightarrow> int \<Rightarrow> FuncState res" where
  "luaK_patchtohere C fs l =
     (let fs = snd (luaK_getlabel fs) in
      rbind (luaK_concat C fs (jpc fs) l) (\<lambda>(j, fs). Inr (fs\<lparr>jpc := j\<rparr>)))"

definition luaK_patchlist :: "clib \<Rightarrow> FuncState \<Rightarrow> int \<Rightarrow> int \<Rightarrow> FuncState res" where
  "luaK_patchlist C fs l target =
     (if target = pc fs then luaK_patchtohere C fs l
      else if \<not> target < pc fs then Inl (UB ''lua_assert'')
      else patchlistaux (list_fuel fs) C fs l target NO_REG target)"

subsection \<open>Emitting instructions\<close>

definition luaK_code :: "clib \<Rightarrow> FuncState \<Rightarrow> Instruction \<Rightarrow> int \<Rightarrow> (int \<times> FuncState) res" where
  "luaK_code C fs i line =
     rbind (dischargejpc C fs) (\<lambda>fs.
     rbind (luaM_growvector (pc fs) (sizecode fs) MAX_INT ''code size overflow'') (\<lambda>n.
     rbind (vec_put n (code fs) (pc fs) i) (\<lambda>c.
     rbind (luaM_growvector (pc fs) (sizelineinfo fs) MAX_INT ''code size overflow'') (\<lambda>m.
     rbind (vec_put m (lineinfo fs) (pc fs) line) (\<lambda>li.
     Inr (pc fs, fs\<lparr>code := c, sizecode := n, lineinfo := li, sizelineinfo := m, pc := pc fs + 1\<rparr>))))))"

definition luaK_codeABC :: "clib \<Rightarrow> FuncState \<Rightarrow> OpCode \<Rightarrow> int \<Rightarrow> int \<Rightarrow> int \<Rightarrow> (int \<times> FuncState) res" where
  "luaK_codeABC C fs m a b c =
     (if getOpMode m = opmode_num iABC \<and> (getBMode m \<noteq> opargmask_num OpArgN \<or> b = 0) \<and>
         (getCMode m \<noteq> opargmask_num OpArgN \<or> c = 0)
      then luaK_code C fs (CREATE_ABC (opnum m) a b c) (lastline (fls fs))
      else Inl (UB ''lua_assert''))"

definition luaK_codeABx :: "clib \<Rightarrow> FuncState \<Rightarrow> OpCode \<Rightarrow> int \<Rightarrow> int \<Rightarrow> (int \<times> FuncState) res" where
  "luaK_codeABx C fs m a bc =
     (if (getOpMode m = opmode_num iABx \<or> getOpMode m = opmode_num iAsBx) \<and>
         getCMode m = opargmask_num OpArgN
      then luaK_code C fs (CREATE_ABx (opnum m) a bc) (lastline (fls fs))
      else Inl (UB ''lua_assert''))"

definition luaK_codeAsBx :: "clib \<Rightarrow> FuncState \<Rightarrow> OpCode \<Rightarrow> int \<Rightarrow> int \<Rightarrow> (int \<times> FuncState) res" where
  "luaK_codeAsBx C fs m a sbx = luaK_codeABx C fs m a (sbx + MAXARG_sBx)"

definition luaK_fixline :: "FuncState \<Rightarrow> int \<Rightarrow> FuncState res" where
  "luaK_fixline fs line = rmap (\<lambda>l. fs\<lparr>lineinfo := l\<rparr>) (aput (lineinfo fs) (pc fs - 1) line)"

definition luaK_jump :: "clib \<Rightarrow> FuncState \<Rightarrow> (int \<times> FuncState) res" where
  "luaK_jump C fs =
     (let j0 = jpc fs; fs = fs\<lparr>jpc := NO_JUMP\<rparr> in
      rbind (luaK_codeAsBx C fs OP_JMP 0 NO_JUMP) (\<lambda>(j, fs).
      luaK_concat C fs j j0))"

definition luaK_ret :: "clib \<Rightarrow> FuncState \<Rightarrow> int \<Rightarrow> int \<Rightarrow> FuncState res" where
  "luaK_ret C fs first nret = rmap snd (luaK_codeABC C fs OP_RETURN first (nret + 1) 0)"

definition condjump :: "clib \<Rightarrow> FuncState \<Rightarrow> OpCode \<Rightarrow> int \<Rightarrow> int \<Rightarrow> int \<Rightarrow> (int \<times> FuncState) res" where
  "condjump C fs m a b c = rbind (luaK_codeABC C fs m a b c) (\<lambda>(_, fs). luaK_jump C fs)"

definition luaK_nil :: "clib \<Rightarrow> FuncState \<Rightarrow> int \<Rightarrow> int \<Rightarrow> FuncState res" where
  "luaK_nil C fs from n =
     (let emit = rmap snd (luaK_codeABC C fs OP_LOADNIL from (from + n - 1) 0) in
      if pc fs > lasttarget fs then
        if pc fs = 0 then (if from \<ge> nactvar fs then Inr fs else emit)
        else
          rbind (getcode fs (pc fs - 1)) (\<lambda>previous.
          if has_op previous OP_LOADNIL then
            let pfrom = GETARG_A previous; pto = GETARG_B previous in
            if pfrom \<le> from \<and> from \<le> pto + 1 then
              if from + n - 1 > pto then set_code fs (pc fs - 1) (SETARG_B previous (from + n - 1))
              else Inr fs
            else emit
          else emit)
      else emit)"

subsection \<open>Registers and constants\<close>

definition luaK_checkstack :: "clib \<Rightarrow> FuncState \<Rightarrow> int \<Rightarrow> FuncState res" where
  "luaK_checkstack C fs n =
     (let newstack = freereg fs + n in
      if newstack > maxstacksize fs then
        if newstack \<ge> MAXSTACK then luaX_syntaxerror C (fls fs) ''function or expression too complex''
        else Inr (fs\<lparr>maxstacksize := newstack mod 256\<rparr>)
      else Inr fs)"

definition luaK_reserveregs :: "clib \<Rightarrow> FuncState \<Rightarrow> int \<Rightarrow> FuncState res" where
  "luaK_reserveregs C fs n =
     rbind (luaK_checkstack C fs n) (\<lambda>fs. Inr (fs\<lparr>freereg := freereg fs + n\<rparr>))"

definition free_reg :: "FuncState \<Rightarrow> int \<Rightarrow> FuncState res" where
  "free_reg fs reg =
     (if \<not> ISK reg \<and> reg \<ge> nactvar fs then
        let fs = fs\<lparr>freereg := freereg fs - 1\<rparr> in
        if reg = freereg fs then Inr fs else Inl (UB ''lua_assert'')
      else Inr fs)"

definition freeexp :: "FuncState \<Rightarrow> expdesc \<Rightarrow> FuncState res" where
  "freeexp fs e = (if ek e = VNONRELOC then free_reg fs (einfo e) else Inr fs)"

text \<open>
  \<open>addk\<close> looks the key up in the table and finds the index of the constant there, or takes a new
  slot. \<open>luaH_set\<close> refuses a NaN as a key.
\<close>

definition addk :: "FuncState \<Rightarrow> TValue \<Rightarrow> TValue \<Rightarrow> (int \<times> FuncState) res" where
  "addk fs k v =
     (let h = fsh (fls fs) in
      case h_get h k of
        Number idx \<Rightarrow>
          rbind (lua_number2int idx) (\<lambda>i.
          rbind (aget (kvec fs) i) (\<lambda>x.
          if luaO_rawequalObj x v then Inr (i, fs) else Inl (UB ''lua_assert'')))
      | _ \<Rightarrow>
          if (case k of Number d \<Rightarrow> luai_numisnan d | _ \<Rightarrow> False)
          then Inl (LuaError LUA_ERRRUN ''table index is NaN'')
          else
            rbind (luaM_growvector (nk fs) (sizek fs) MAXARG_Bx ''constant table overflow'') (\<lambda>n.
            let ks = kvec fs @ replicate (nat (n - sizek fs)) Nil in
            rbind (aput ks (nk fs) v) (\<lambda>ks.
            Inr (nk fs,
              fs\<lparr>fls := (fls fs)\<lparr>fsh := h_set h k (Number (dbl_of_int (nk fs)))\<rparr>,
                 kvec := ks, sizek := n, nk := nk fs + 1\<rparr>))))"

definition luaK_stringK :: "FuncState \<Rightarrow> string \<Rightarrow> (int \<times> FuncState) res" where
  "luaK_stringK fs s = addk fs (Str s) (Str s)"

definition luaK_numberK :: "FuncState \<Rightarrow> lua_Number \<Rightarrow> (int \<times> FuncState) res" where
  "luaK_numberK fs r = addk fs (Number r) (Number r)"

definition boolK :: "FuncState \<Rightarrow> bool \<Rightarrow> (int \<times> FuncState) res" where
  "boolK fs b = addk fs (Boolean b) (Boolean b)"

text \<open>The table itself is the key of nil; it is the only table among the keys, at address 0.\<close>

definition nilK :: "FuncState \<Rightarrow> (int \<times> FuncState) res" where
  "nilK fs = addk fs (Table 0) Nil"

subsection \<open>Expressions\<close>

definition luaK_setreturns :: "clib \<Rightarrow> FuncState \<Rightarrow> expdesc \<Rightarrow> int \<Rightarrow> FuncState res" where
  "luaK_setreturns C fs e nresults =
     (if ek e = VCALL then map_code fs (einfo e) (\<lambda>i. SETARG_C i (nresults + 1))
      else if ek e = VVARARG then
        rbind (map_code fs (einfo e) (\<lambda>i. SETARG_B i (nresults + 1))) (\<lambda>fs.
        rbind (map_code fs (einfo e) (\<lambda>i. SETARG_A i (freereg fs))) (\<lambda>fs.
        luaK_reserveregs C fs 1))
      else Inr fs)"

definition luaK_setoneret :: "FuncState \<Rightarrow> expdesc \<Rightarrow> (expdesc \<times> FuncState) res" where
  "luaK_setoneret fs e =
     (if ek e = VCALL then
        rbind (getcode fs (einfo e)) (\<lambda>i. Inr (e\<lparr>ek := VNONRELOC, einfo := GETARG_A i\<rparr>, fs))
      else if ek e = VVARARG then
        rbind (map_code fs (einfo e) (\<lambda>i. SETARG_B i 2)) (\<lambda>fs. Inr (e\<lparr>ek := VRELOCABLE\<rparr>, fs))
      else Inr (e, fs))"

definition relocable :: "expdesc \<Rightarrow> (int \<times> FuncState) res \<Rightarrow> (expdesc \<times> FuncState) res" where
  "relocable e r = rmap (\<lambda>(i, fs). (e\<lparr>einfo := i, ek := VRELOCABLE\<rparr>, fs)) r"

definition luaK_dischargevars :: "clib \<Rightarrow> FuncState \<Rightarrow> expdesc \<Rightarrow> (expdesc \<times> FuncState) res" where
  "luaK_dischargevars C fs e =
     (case ek e of
        VLOCAL \<Rightarrow> Inr (e\<lparr>ek := VNONRELOC\<rparr>, fs)
      | VUPVAL \<Rightarrow> relocable e (luaK_codeABC C fs OP_GETUPVAL 0 (einfo e) 0)
      | VGLOBAL \<Rightarrow> relocable e (luaK_codeABx C fs OP_GETGLOBAL 0 (einfo e))
      | VINDEXED \<Rightarrow>
          rbind (free_reg fs (eaux e)) (\<lambda>fs.
          rbind (free_reg fs (einfo e)) (\<lambda>fs.
          relocable e (luaK_codeABC C fs OP_GETTABLE 0 (einfo e) (eaux e))))
      | VVARARG \<Rightarrow> luaK_setoneret fs e
      | VCALL \<Rightarrow> luaK_setoneret fs e
      | _ \<Rightarrow> Inr (e, fs))"

definition code_label :: "clib \<Rightarrow> FuncState \<Rightarrow> int \<Rightarrow> int \<Rightarrow> int \<Rightarrow> (int \<times> FuncState) res" where
  "code_label C fs a b jump = luaK_codeABC C (snd (luaK_getlabel fs)) OP_LOADBOOL a b jump"

definition discharge2reg :: "clib \<Rightarrow> FuncState \<Rightarrow> expdesc \<Rightarrow> int \<Rightarrow> (expdesc \<times> FuncState) res" where
  "discharge2reg C fs e reg =
     rbind (luaK_dischargevars C fs e) (\<lambda>(e, fs).
     let fin = rmap (\<lambda>fs. (e\<lparr>einfo := reg, ek := VNONRELOC\<rparr>, fs)) in
     case ek e of
       VNIL \<Rightarrow> fin (luaK_nil C fs reg 1)
     | VFALSE \<Rightarrow> fin (rmap snd (luaK_codeABC C fs OP_LOADBOOL reg 0 0))
     | VTRUE \<Rightarrow> fin (rmap snd (luaK_codeABC C fs OP_LOADBOOL reg 1 0))
     | VK \<Rightarrow> fin (rmap snd (luaK_codeABx C fs OP_LOADK reg (einfo e)))
     | VKNUM \<Rightarrow>
         fin (rbind (luaK_numberK fs (enval e)) (\<lambda>(k, fs). rmap snd (luaK_codeABx C fs OP_LOADK reg k)))
     | VRELOCABLE \<Rightarrow> fin (map_code fs (einfo e) (\<lambda>i. SETARG_A i reg))
     | VNONRELOC \<Rightarrow>
         fin (if reg \<noteq> einfo e then rmap snd (luaK_codeABC C fs OP_MOVE reg (einfo e) 0) else Inr fs)
     | _ \<Rightarrow> if ek e = VVOID \<or> ek e = VJMP then Inr (e, fs) else Inl (UB ''lua_assert''))"

definition discharge2anyreg :: "clib \<Rightarrow> FuncState \<Rightarrow> expdesc \<Rightarrow> (expdesc \<times> FuncState) res" where
  "discharge2anyreg C fs e =
     (if ek e \<noteq> VNONRELOC then
        rbind (luaK_reserveregs C fs 1) (\<lambda>fs. discharge2reg C fs e (freereg fs - 1))
      else Inr (e, fs))"

definition exp2reg :: "clib \<Rightarrow> FuncState \<Rightarrow> expdesc \<Rightarrow> int \<Rightarrow> (expdesc \<times> FuncState) res" where
  "exp2reg C fs e reg =
     rbind (discharge2reg C fs e reg) (\<lambda>(e, fs).
     rbind (if ek e = VJMP then rmap (\<lambda>(t, fs). (e\<lparr>et := t\<rparr>, fs)) (luaK_concat C fs (et e) (einfo e))
            else Inr (e, fs)) (\<lambda>(e, fs).
     rbind
       (if hasjumps e then
          rbind (need_value (list_fuel fs) fs (et e)) (\<lambda>nt.
          rbind (if nt then Inr True else need_value (list_fuel fs) fs (ef e)) (\<lambda>nv.
          rbind
            (if nv then
               rbind (if ek e = VJMP then Inr (NO_JUMP, fs) else luaK_jump C fs) (\<lambda>(fj, fs).
               rbind (code_label C fs reg 0 1) (\<lambda>(p_f, fs).
               rbind (code_label C fs reg 1 0) (\<lambda>(p_t, fs).
               rmap (\<lambda>fs. (p_f, p_t, fs)) (luaK_patchtohere C fs fj))))
             else Inr (NO_JUMP, NO_JUMP, fs)) (\<lambda>(p_f, p_t, fs).
          case luaK_getlabel fs of (fin, fs) \<Rightarrow>
          rbind (patchlistaux (list_fuel fs) C fs (ef e) fin reg p_f) (\<lambda>fs.
          patchlistaux (list_fuel fs) C fs (et e) fin reg p_t))))
        else Inr fs) (\<lambda>fs.
     Inr (e\<lparr>ef := NO_JUMP, et := NO_JUMP, einfo := reg, ek := VNONRELOC\<rparr>, fs))))"

definition luaK_exp2nextreg :: "clib \<Rightarrow> FuncState \<Rightarrow> expdesc \<Rightarrow> (expdesc \<times> FuncState) res" where
  "luaK_exp2nextreg C fs e =
     rbind (luaK_dischargevars C fs e) (\<lambda>(e, fs).
     rbind (freeexp fs e) (\<lambda>fs.
     rbind (luaK_reserveregs C fs 1) (\<lambda>fs.
     exp2reg C fs e (freereg fs - 1))))"

definition luaK_exp2anyreg :: "clib \<Rightarrow> FuncState \<Rightarrow> expdesc \<Rightarrow> (int \<times> expdesc \<times> FuncState) res" where
  "luaK_exp2anyreg C fs e =
     (let info = rmap (\<lambda>(e, fs). (einfo e, e, fs)) in
      rbind (luaK_dischargevars C fs e) (\<lambda>(e, fs).
      if ek e = VNONRELOC \<and> \<not> hasjumps e then Inr (einfo e, e, fs)
      else if ek e = VNONRELOC \<and> einfo e \<ge> nactvar fs then info (exp2reg C fs e (einfo e))
      else info (luaK_exp2nextreg C fs e)))"

definition luaK_exp2val :: "clib \<Rightarrow> FuncState \<Rightarrow> expdesc \<Rightarrow> (expdesc \<times> FuncState) res" where
  "luaK_exp2val C fs e =
     (if hasjumps e then rmap snd (luaK_exp2anyreg C fs e) else luaK_dischargevars C fs e)"

definition luaK_exp2RK :: "clib \<Rightarrow> FuncState \<Rightarrow> expdesc \<Rightarrow> (int \<times> expdesc \<times> FuncState) res" where
  "luaK_exp2RK C fs e =
     rbind (luaK_exp2val C fs e) (\<lambda>(e, fs).
     if ek e = VKNUM \<or> ek e = VTRUE \<or> ek e = VFALSE \<or> ek e = VNIL then
       if nk fs \<le> MAXINDEXRK then
         rmap (\<lambda>(i, fs). (RKASK i, e\<lparr>einfo := i, ek := VK\<rparr>, fs))
           (if ek e = VNIL then nilK fs
            else if ek e = VKNUM then luaK_numberK fs (enval e)
            else boolK fs (ek e = VTRUE))
       else luaK_exp2anyreg C fs e
     else if ek e = VK \<and> einfo e \<le> MAXINDEXRK then Inr (RKASK (einfo e), e, fs)
     else luaK_exp2anyreg C fs e)"

text \<open>\<open>luaK_storevar\<close>: \<open>e\<close> is the expression, \<open>v\<close> the variable.\<close>

definition luaK_storevar :: "clib \<Rightarrow> FuncState \<Rightarrow> expdesc \<Rightarrow> expdesc \<Rightarrow> FuncState res" where
  "luaK_storevar C fs v e =
     (case ek v of
        VLOCAL \<Rightarrow> rbind (freeexp fs e) (\<lambda>fs. rmap snd (exp2reg C fs e (einfo v)))
      | VUPVAL \<Rightarrow>
          rbind (luaK_exp2anyreg C fs e) (\<lambda>(r, e, fs).
          rbind (luaK_codeABC C fs OP_SETUPVAL r (einfo v) 0) (\<lambda>(_, fs). freeexp fs e))
      | VGLOBAL \<Rightarrow>
          rbind (luaK_exp2anyreg C fs e) (\<lambda>(r, e, fs).
          rbind (luaK_codeABx C fs OP_SETGLOBAL r (einfo v)) (\<lambda>(_, fs). freeexp fs e))
      | VINDEXED \<Rightarrow>
          rbind (luaK_exp2RK C fs e) (\<lambda>(r, e, fs).
          rbind (luaK_codeABC C fs OP_SETTABLE (einfo v) (eaux v) r) (\<lambda>(_, fs). freeexp fs e))
      | _ \<Rightarrow> Inl (UB ''lua_assert''))"

definition luaK_self :: "clib \<Rightarrow> FuncState \<Rightarrow> expdesc \<Rightarrow> expdesc \<Rightarrow> (expdesc \<times> FuncState) res" where
  "luaK_self C fs e key =
     rbind (luaK_exp2anyreg C fs e) (\<lambda>(_, e, fs).
     rbind (freeexp fs e) (\<lambda>fs.
     let func = freereg fs in
     rbind (luaK_reserveregs C fs 2) (\<lambda>fs.
     rbind (luaK_exp2RK C fs key) (\<lambda>(k, key, fs).
     rbind (luaK_codeABC C fs OP_SELF func (einfo e) k) (\<lambda>(_, fs).
     rbind (freeexp fs key) (\<lambda>fs.
     Inr (e\<lparr>einfo := func, ek := VNONRELOC\<rparr>, fs)))))))"

subsection \<open>Conditions\<close>

definition invertjump :: "FuncState \<Rightarrow> expdesc \<Rightarrow> FuncState res" where
  "invertjump fs e =
     rbind (getjumpcontrol fs (einfo e)) (\<lambda>c.
     rbind (getcode fs c) (\<lambda>i.
     rbind (field_TMode i) (\<lambda>t.
     if t \<and> \<not> has_op i OP_TESTSET \<and> \<not> has_op i OP_TEST
     then set_code fs c (SETARG_A i (if GETARG_A i = 0 then 1 else 0))
     else Inl (UB ''lua_assert''))))"

definition jumponcond :: "clib \<Rightarrow> FuncState \<Rightarrow> expdesc \<Rightarrow> bool \<Rightarrow> (int \<times> expdesc \<times> FuncState) res" where
  "jumponcond C fs e cond =
     (let direct =
        rbind (discharge2anyreg C fs e) (\<lambda>(e, fs).
        rbind (freeexp fs e) (\<lambda>fs.
        rmap (\<lambda>(j, fs). (j, e, fs))
          (condjump C fs OP_TESTSET NO_REG (einfo e) (of_bool cond))))
      in
      if ek e = VRELOCABLE then
        rbind (getcode fs (einfo e)) (\<lambda>ie.
        if has_op ie OP_NOT then
          rmap (\<lambda>(j, fs). (j, e, fs))
            (condjump C (fs\<lparr>pc := pc fs - 1\<rparr>) OP_TEST (GETARG_B ie) 0 (of_bool (\<not> cond)))
        else direct)
      else direct)"

definition luaK_goiftrue :: "clib \<Rightarrow> FuncState \<Rightarrow> expdesc \<Rightarrow> (expdesc \<times> FuncState) res" where
  "luaK_goiftrue C fs e =
     rbind (luaK_dischargevars C fs e) (\<lambda>(e, fs).
     rbind
       (if ek e = VK \<or> ek e = VKNUM \<or> ek e = VTRUE then Inr (NO_JUMP, e, fs)
        else if ek e = VFALSE then rmap (\<lambda>(j, fs). (j, e, fs)) (luaK_jump C fs)
        else if ek e = VJMP then rmap (\<lambda>fs. (einfo e, e, fs)) (invertjump fs e)
        else jumponcond C fs e False) (\<lambda>(p, e, fs).
     rbind (luaK_concat C fs (ef e) p) (\<lambda>(f, fs).
     rbind (luaK_patchtohere C fs (et e)) (\<lambda>fs.
     Inr (e\<lparr>ef := f, et := NO_JUMP\<rparr>, fs)))))"

definition luaK_goiffalse :: "clib \<Rightarrow> FuncState \<Rightarrow> expdesc \<Rightarrow> (expdesc \<times> FuncState) res" where
  "luaK_goiffalse C fs e =
     rbind (luaK_dischargevars C fs e) (\<lambda>(e, fs).
     rbind
       (if ek e = VNIL \<or> ek e = VFALSE then Inr (NO_JUMP, e, fs)
        else if ek e = VTRUE then rmap (\<lambda>(j, fs). (j, e, fs)) (luaK_jump C fs)
        else if ek e = VJMP then Inr (einfo e, e, fs)
        else jumponcond C fs e True) (\<lambda>(p, e, fs).
     rbind (luaK_concat C fs (et e) p) (\<lambda>(t, fs).
     rbind (luaK_patchtohere C fs (ef e)) (\<lambda>fs.
     Inr (e\<lparr>et := t, ef := NO_JUMP\<rparr>, fs)))))"

definition codenot :: "clib \<Rightarrow> FuncState \<Rightarrow> expdesc \<Rightarrow> (expdesc \<times> FuncState) res" where
  "codenot C fs e =
     rbind (luaK_dischargevars C fs e) (\<lambda>(e, fs).
     rbind
       (if ek e = VNIL \<or> ek e = VFALSE then Inr (e\<lparr>ek := VTRUE\<rparr>, fs)
        else if ek e = VK \<or> ek e = VKNUM \<or> ek e = VTRUE then Inr (e\<lparr>ek := VFALSE\<rparr>, fs)
        else if ek e = VJMP then rmap (Pair e) (invertjump fs e)
        else if ek e = VRELOCABLE \<or> ek e = VNONRELOC then
          rbind (discharge2anyreg C fs e) (\<lambda>(e, fs).
          rbind (freeexp fs e) (\<lambda>fs.
          relocable e (luaK_codeABC C fs OP_NOT 0 (einfo e) 0)))
        else Inl (UB ''lua_assert'')) (\<lambda>(e, fs).
     let e = e\<lparr>ef := et e, et := ef e\<rparr> in
     rbind (removevalues (list_fuel fs) fs (ef e)) (\<lambda>fs.
     rbind (removevalues (list_fuel fs) fs (et e)) (\<lambda>fs.
     Inr (e, fs)))))"

definition luaK_indexed :: "clib \<Rightarrow> FuncState \<Rightarrow> expdesc \<Rightarrow> expdesc \<Rightarrow> (expdesc \<times> FuncState) res" where
  "luaK_indexed C fs t k =
     rmap (\<lambda>(r, _, fs). (t\<lparr>eaux := r, ek := VINDEXED\<rparr>, fs)) (luaK_exp2RK C fs k)"

subsection \<open>Operators\<close>

definition constfolding :: "clib \<Rightarrow> OpCode \<Rightarrow> expdesc \<Rightarrow> expdesc \<Rightarrow> expdesc option res" where
  "constfolding C m e1 e2 =
     (if \<not> isnumeral e1 \<or> \<not> isnumeral e2 then Inr None
      else
        let v1 = enval e1; v2 = enval e2;
            fold = (\<lambda>r. Inr (if luai_numisnan r then None else Some (e1\<lparr>enval := r\<rparr>))) in
        case m of
          OP_ADD \<Rightarrow> fold (luai_numadd v1 v2)
        | OP_SUB \<Rightarrow> fold (luai_numsub v1 v2)
        | OP_MUL \<Rightarrow> fold (luai_nummul v1 v2)
        | OP_DIV \<Rightarrow> if luai_numeq v2 0 then Inr None else fold (luai_numdiv v1 v2)
        | OP_MOD \<Rightarrow> if luai_numeq v2 0 then Inr None else fold (luai_nummod v1 v2)
        | OP_POW \<Rightarrow> fold (c_pow C v1 v2)
        | OP_UNM \<Rightarrow> fold (luai_numunm v1)
        | OP_LEN \<Rightarrow> Inr None
        | _ \<Rightarrow> Inl (UB ''lua_assert''))"

text \<open>The second operand is dead after \<open>codearith\<close>, \<open>codecomp\<close> and \<open>luaK_posfix\<close>.\<close>

definition codearith :: "clib \<Rightarrow> FuncState \<Rightarrow> OpCode \<Rightarrow> expdesc \<Rightarrow> expdesc \<Rightarrow> (expdesc \<times> FuncState) res" where
  "codearith C fs m e1 e2 =
     rbind (constfolding C m e1 e2) (\<lambda>r.
     case r of
       Some e \<Rightarrow> Inr (e, fs)
     | None \<Rightarrow>
         rbind (if m \<noteq> OP_UNM \<and> m \<noteq> OP_LEN then luaK_exp2RK C fs e2 else Inr (0, e2, fs)) (\<lambda>(o2, e2, fs).
         rbind (luaK_exp2RK C fs e1) (\<lambda>(o1, e1, fs).
         rbind (if o1 > o2 then rbind (freeexp fs e1) (\<lambda>fs. freeexp fs e2)
                else rbind (freeexp fs e2) (\<lambda>fs. freeexp fs e1)) (\<lambda>fs.
         relocable e1 (luaK_codeABC C fs m 0 o1 o2)))))"

definition codecomp :: "clib \<Rightarrow> FuncState \<Rightarrow> OpCode \<Rightarrow> int \<Rightarrow> expdesc \<Rightarrow> expdesc \<Rightarrow> (expdesc \<times> FuncState) res" where
  "codecomp C fs m cond e1 e2 =
     rbind (luaK_exp2RK C fs e1) (\<lambda>(o1, e1, fs).
     rbind (luaK_exp2RK C fs e2) (\<lambda>(o2, e2, fs).
     rbind (freeexp fs e2) (\<lambda>fs.
     rbind (freeexp fs e1) (\<lambda>fs.
     let (cond, o1, o2) = (if cond = 0 \<and> m \<noteq> OP_EQ then (1, o2, o1) else (cond, o1, o2)) in
     rmap (\<lambda>(j, fs). (e1\<lparr>einfo := j, ek := VJMP\<rparr>, fs)) (condjump C fs m cond o1 o2)))))"

definition luaK_prefix :: "clib \<Rightarrow> FuncState \<Rightarrow> UnOpr \<Rightarrow> expdesc \<Rightarrow> (expdesc \<times> FuncState) res" where
  "luaK_prefix C fs m e =
     (let e2 = \<lparr>ek = VKNUM, einfo = 0, eaux = 0, enval = 0, et = NO_JUMP, ef = NO_JUMP\<rparr> in
      case m of
        OPR_MINUS \<Rightarrow>
          rbind (if \<not> isnumeral e then rmap snd (luaK_exp2anyreg C fs e) else Inr (e, fs)) (\<lambda>(e, fs).
          codearith C fs OP_UNM e e2)
      | OPR_NOT \<Rightarrow> codenot C fs e
      | OPR_LEN \<Rightarrow>
          rbind (luaK_exp2anyreg C fs e) (\<lambda>(_, e, fs). codearith C fs OP_LEN e e2)
      | OPR_NOUNOPR \<Rightarrow> Inl (UB ''lua_assert''))"

definition is_arith_opr :: "BinOpr \<Rightarrow> bool" where
  "is_arith_opr m \<longleftrightarrow> m \<in> {OPR_ADD, OPR_SUB, OPR_MUL, OPR_DIV, OPR_MOD, OPR_POW}"

definition luaK_infix :: "clib \<Rightarrow> FuncState \<Rightarrow> BinOpr \<Rightarrow> expdesc \<Rightarrow> (expdesc \<times> FuncState) res" where
  "luaK_infix C fs m v =
     (if m = OPR_AND then luaK_goiftrue C fs v
      else if m = OPR_OR then luaK_goiffalse C fs v
      else if m = OPR_CONCAT then luaK_exp2nextreg C fs v
      else if is_arith_opr m then
        (if \<not> isnumeral v then rmap snd (luaK_exp2RK C fs v) else Inr (v, fs))
      else rmap snd (luaK_exp2RK C fs v))"

definition posfix_concat :: "clib \<Rightarrow> FuncState \<Rightarrow> expdesc \<Rightarrow> expdesc \<Rightarrow> (expdesc \<times> FuncState) res" where
  "posfix_concat C fs e1 e2 =
     rbind (luaK_exp2val C fs e2) (\<lambda>(e2, fs).
     let other = rbind (luaK_exp2nextreg C fs e2) (\<lambda>(e2, fs). codearith C fs OP_CONCAT e1 e2) in
     if ek e2 = VRELOCABLE then
       rbind (getcode fs (einfo e2)) (\<lambda>i.
       if has_op i OP_CONCAT then
         if einfo e1 \<noteq> GETARG_B i - 1 then Inl (UB ''lua_assert'')
         else
           rbind (freeexp fs e1) (\<lambda>fs.
           rbind (map_code fs (einfo e2) (\<lambda>i. SETARG_B i (einfo e1))) (\<lambda>fs.
           Inr (e1\<lparr>ek := VRELOCABLE, einfo := einfo e2\<rparr>, fs)))
       else other)
     else other)"

definition luaK_posfix ::
  "clib \<Rightarrow> FuncState \<Rightarrow> BinOpr \<Rightarrow> expdesc \<Rightarrow> expdesc \<Rightarrow> (expdesc \<times> FuncState) res" where
  "luaK_posfix C fs m e1 e2 =
     (case m of
        OPR_AND \<Rightarrow>
          if et e1 \<noteq> NO_JUMP then Inl (UB ''lua_assert'')
          else
            rbind (luaK_dischargevars C fs e2) (\<lambda>(e2, fs).
            rmap (\<lambda>(f, fs). (e2\<lparr>ef := f\<rparr>, fs)) (luaK_concat C fs (ef e2) (ef e1)))
      | OPR_OR \<Rightarrow>
          if ef e1 \<noteq> NO_JUMP then Inl (UB ''lua_assert'')
          else
            rbind (luaK_dischargevars C fs e2) (\<lambda>(e2, fs).
            rmap (\<lambda>(t, fs). (e2\<lparr>et := t\<rparr>, fs)) (luaK_concat C fs (et e2) (et e1)))
      | OPR_CONCAT \<Rightarrow> posfix_concat C fs e1 e2
      | OPR_ADD \<Rightarrow> codearith C fs OP_ADD e1 e2
      | OPR_SUB \<Rightarrow> codearith C fs OP_SUB e1 e2
      | OPR_MUL \<Rightarrow> codearith C fs OP_MUL e1 e2
      | OPR_DIV \<Rightarrow> codearith C fs OP_DIV e1 e2
      | OPR_MOD \<Rightarrow> codearith C fs OP_MOD e1 e2
      | OPR_POW \<Rightarrow> codearith C fs OP_POW e1 e2
      | OPR_EQ \<Rightarrow> codecomp C fs OP_EQ 1 e1 e2
      | OPR_NE \<Rightarrow> codecomp C fs OP_EQ 0 e1 e2
      | OPR_LT \<Rightarrow> codecomp C fs OP_LT 1 e1 e2
      | OPR_LE \<Rightarrow> codecomp C fs OP_LE 1 e1 e2
      | OPR_GT \<Rightarrow> codecomp C fs OP_LT 0 e1 e2
      | OPR_GE \<Rightarrow> codecomp C fs OP_LE 0 e1 e2
      | OPR_NOBINOPR \<Rightarrow> Inl (UB ''lua_assert''))"

text \<open>The division of the C code truncates.\<close>

definition luaK_setlist :: "clib \<Rightarrow> FuncState \<Rightarrow> int \<Rightarrow> int \<Rightarrow> int \<Rightarrow> FuncState res" where
  "luaK_setlist C fs base nelems tostore =
     (let c = (if nelems \<ge> 1 then (nelems - 1) div LFIELDS_PER_FLUSH
               else - ((1 - nelems) div LFIELDS_PER_FLUSH)) + 1;
          b = (if tostore = LUA_MULTRET then 0 else tostore) in
      if tostore = 0 then Inl (UB ''lua_assert'')
      else
        rbind (if c \<le> MAXARG_C then luaK_codeABC C fs OP_SETLIST base b c
               else
                 rbind (luaK_codeABC C fs OP_SETLIST base b 0) (\<lambda>(_, fs).
                 luaK_code C fs (word_of_int c) (lastline (fls fs)))) (\<lambda>(_, fs).
        Inr (fs\<lparr>freereg := base + 1\<rparr>)))"

end
