(* ===== verification/CodeGenProps.thy ===== *)
theory CodeGenProps
  imports CodeGen LexerProps
begin

text \<open>
  Properties of the code generator: the pending jump lists, which are threaded through the jump
  instructions themselves, refine lists of positions; the merged \<open>OP_LOADNIL\<close> is equivalent to the
  separate ones; the constant table is consistent; and the size word of \<open>OP_SETLIST\<close> is taken for an
  instruction.
\<close>

subsection \<open>Jump lists as lists of positions\<close>

definition next_jump :: "Instruction \<Rightarrow> int \<Rightarrow> int" where
  "next_jump i p = (if GETARG_sBx i = NO_JUMP then NO_JUMP else (p + 1) + GETARG_sBx i)"

fun jlist :: "Instruction list \<Rightarrow> int \<Rightarrow> int list \<Rightarrow> bool" where
  "jlist cd l [] \<longleftrightarrow> l = NO_JUMP"
| "jlist cd l (p # ps) \<longleftrightarrow> l = p \<and> 0 \<le> p \<and> p < int (length cd) \<and> jlist cd (next_jump (cd ! nat p) p) ps"

lemma getjump_in: "0 \<le> p \<Longrightarrow> p < int (length (code fs)) \<Longrightarrow> getjump fs p = Inr (next_jump (code fs ! nat p) p)"
  by (simp add: getjump_def getcode_def aget_in next_jump_def Let_def)

lemma jlist_range: "jlist cd l ps \<Longrightarrow> p \<in> set ps \<Longrightarrow> 0 \<le> p \<and> p < int (length cd)"
  by (induction cd l ps rule: jlist.induct) auto

lemma jlist_head: "jlist cd l ps \<Longrightarrow> l = (case ps of [] \<Rightarrow> NO_JUMP | p # _ \<Rightarrow> p)"
  by (cases ps) auto

lemma jlist_frame:
  "jlist cd l ps \<Longrightarrow> length cd' = length cd \<Longrightarrow> (\<And>p. p \<in> set ps \<Longrightarrow> cd' ! nat p = cd ! nat p) \<Longrightarrow> jlist cd' l ps"
  by (induction cd l ps rule: jlist.induct) auto

text \<open>A list of distinct positions is no longer than the code: the fuel is enough.\<close>

lemma jlist_length:
  assumes "jlist cd l ps" "distinct ps" shows "length ps \<le> length cd"
proof -
  have "nat ` set ps \<subseteq> {..<length cd}" by (auto dest!: jlist_range [OF assms(1)] simp: nat_less_iff)
  then have "card (nat ` set ps) \<le> card {..<length cd}" by (intro card_mono) auto
  moreover have "inj_on nat (set ps)" using jlist_range [OF assms(1)] by (auto intro!: inj_onI simp: nat_eq_iff)
  ultimately show ?thesis using assms(2) by (simp add: card_image distinct_card)
qed

lemma list_last_spec:
  "jlist (code fs) l ps \<Longrightarrow> ps \<noteq> [] \<Longrightarrow> length ps \<le> n \<Longrightarrow> list_last n fs l = Inr (last ps)"
proof (induction n arbitrary: l ps)
  case (Suc n)
  obtain p qs where ps: "ps = p # qs" using Suc.prems(2) by (cases ps) auto
  with Suc.prems have g: "getjump fs l = Inr (next_jump (code fs ! nat p) p)" "l = p"
    "jlist (code fs) (next_jump (code fs ! nat p) p) qs" by (auto simp: getjump_in)
  show ?case
  proof (cases qs)
    case Nil
    with g ps show ?thesis by simp
  next
    case (Cons q rs)
    then have "next_jump (code fs ! nat p) p \<noteq> NO_JUMP" using g(3) by (auto simp: NO_JUMP_def)
    with Suc.IH [OF g(3)] g ps Cons Suc.prems(3) show ?thesis by simp
  qed
qed simp

lemma fixjump_in:
  assumes "0 \<le> p" "p < int (length (code fs))" "dest \<noteq> NO_JUMP" "\<bar>dest - (p + 1)\<bar> \<le> MAXARG_sBx"
  shows "fixjump C fs p dest = Inr (fs\<lparr>code := (code fs)[nat p := SETARG_sBx (code fs ! nat p) (dest - (p + 1))]\<rparr>)"
  using assms by (simp add: fixjump_def Let_def map_code_def getcode_def aget_in set_code_def aput_in)

lemma next_jump_set:
  assumes "dest \<noteq> p" "\<bar>dest - (p + 1)\<bar> \<le> MAXARG_sBx"
  shows "next_jump (SETARG_sBx i (dest - (p + 1))) p = dest"
  using assms by (simp add: next_jump_def field_laws NO_JUMP_def)

lemma jlist_append:
  assumes "jlist cd l ps" "ps \<noteq> []" "distinct ps" "cd' = cd[nat (last ps) := i]"
    "next_jump i (last ps) = m" "jlist cd' m qs"
  shows "jlist cd' l (ps @ qs)"
  using assms
proof (induction cd l ps rule: jlist.induct)
  case (2 cd l p ps)
  show ?case
  proof (cases "ps = []")
    case True
    with 2 show ?thesis by (auto simp: nat_less_iff)
  next
    case False
    then have IH: "jlist cd' (next_jump (cd ! nat p) p) (ps @ qs)" using 2 by simp
    have "last ps \<noteq> p" using False 2 by (metis distinct.simps(2) last_in_set)
    moreover have "0 \<le> p" "0 \<le> last ps" using 2 False jlist_range [of cd _ ps] by auto
    ultimately have "cd' ! nat p = cd ! nat p" using 2 False by (simp add: nth_list_update_neq)
    with IH 2 show ?thesis by simp
  qed
qed simp

text \<open>
  C20. \<open>luaK_concat\<close> refines the concatenation of lists: two disjoint jump lists become the list
  of the positions of the first followed by those of the second, only the last jump of the first
  list is written, every other list stays what it was, and the walk to the end of the list ends.
  The code must be short enough for the relative links.
\<close>

theorem luaK_concat_refines:
  assumes "jlist (code fs) l1 ps" "jlist (code fs) l2 qs" "distinct (ps @ qs)"
    "int (length (code fs)) \<le> MAXARG_sBx"
  shows "\<exists>l fs'. luaK_concat C fs l1 l2 = Inr (l, fs') \<and> jlist (code fs') l (ps @ qs) \<and>
    (\<exists>cd. fs' = fs\<lparr>code := cd\<rparr> \<and> length cd = length (code fs)) \<and>
    (\<forall>k rs. jlist (code fs) k rs \<longrightarrow> set rs \<inter> set ps = {} \<longrightarrow> jlist (code fs') k rs)"
proof (cases "qs = [] \<or> ps = []")
  case True
  with assms(1,2) have "luaK_concat C fs l1 l2 = Inr (if qs = [] then l1 else l2, fs)"
    by (cases qs; cases ps) (auto simp: luaK_concat_def NO_JUMP_def)
  with True assms(1,2) show ?thesis by (auto intro!: exI [of _ "code fs"])
next
  case False
  then have l: "l1 \<noteq> NO_JUMP" "l2 \<noteq> NO_JUMP" "0 \<le> l2" "l2 < int (length (code fs))" "l2 \<in> set qs"
    using assms(1,2) by (cases ps; cases qs; auto simp: NO_JUMP_def)+
  let ?p = "last ps"
  have p: "?p \<in> set ps" "0 \<le> ?p" "?p < int (length (code fs))"
    using False jlist_range [OF assms(1), of ?p] by auto
  have ne: "l2 \<noteq> ?p" using l(5) p(1) assms(3) by auto
  have far: "\<bar>l2 - (?p + 1)\<bar> \<le> MAXARG_sBx" using l p assms(4) by simp
  define cd where "cd = (code fs)[nat ?p := SETARG_sBx (code fs ! nat ?p) (l2 - (?p + 1))]"
  have "length ps \<le> list_fuel fs"
    using jlist_length [OF assms(1)] assms(3) by (simp add: list_fuel_def)
  then have "list_last (list_fuel fs) fs l1 = Inr ?p" using list_last_spec assms(1) False by blast
  then have res: "luaK_concat C fs l1 l2 = Inr (l1, fs\<lparr>code := cd\<rparr>)"
    using l p far by (simp add: luaK_concat_def fixjump_in cd_def)
  have frame: "jlist cd k rs" if "jlist (code fs) k rs" "set rs \<inter> set ps = {}" for k rs
  proof (rule jlist_frame [OF that(1)])
    fix r assume "r \<in> set rs"
    then have "r \<noteq> ?p" "0 \<le> r" using that p jlist_range [OF that(1)] by auto
    then show "cd ! nat r = code fs ! nat r" using p by (simp add: cd_def nth_list_update_neq)
  qed (simp add: cd_def)
  have "set qs \<inter> set ps = {}" using assms(3) by auto
  from jlist_append [OF assms(1) _ _ cd_def next_jump_set [OF ne far] frame [OF assms(2) this]]
  have "jlist cd l1 (ps @ qs)" using False assms(3) by simp
  with res frame show ?thesis by (auto simp: cd_def)
qed

text \<open>A state with two jumps at positions 0 and 1, and its lists.\<close>

definition sample_fs :: "Instruction list \<Rightarrow> FuncState" where
  "sample_fs cd = \<lparr>code = cd, sizecode = int (length cd), lineinfo = replicate (length cd) 1,
     sizelineinfo = int (length cd), kvec = [], sizek = 0, maxstacksize = 2, fls = sample_lex,
     pc = int (length cd), lasttarget = 0, jpc = NO_JUMP, freereg = 0, nk = 0, nactvar = 0\<rparr>"

definition jmp :: "int \<Rightarrow> Instruction" where
  "jmp off = CREATE_ABx (opnum OP_JMP) 0 (off + MAXARG_sBx)"

theorem luaK_concat_refines_witness:
  "\<exists>fs'. luaK_concat sample_clib (sample_fs [jmp NO_JUMP, jmp NO_JUMP]) 0 1 = Inr (0, fs') \<and>
     jlist (code fs') 0 [0, 1]"
proof -
  let ?fs = "sample_fs [jmp NO_JUMP, jmp NO_JUMP]"
  have "jlist (code ?fs) 0 [0]" "jlist (code ?fs) 1 [1]" by code_simp+
  from luaK_concat_refines [OF this, of sample_clib] obtain l fs'
    where r: "luaK_concat sample_clib ?fs 0 1 = Inr (l, fs')" "jlist (code fs') l [0, 1]"
    by (auto simp: sample_fs_def)
  then have "l = 0" by simp
  with r show ?thesis by blast
qed

subsection \<open>Patching a list\<close>

text \<open>
  Every word of the code is an instruction, and the jumps of a list are \<open>OP_JMP\<close>, so that the
  instruction that controls a jump is not itself a jump of a list.
\<close>

definition all_ops :: "Instruction list \<Rightarrow> bool" where
  "all_ops cd \<longleftrightarrow> (\<forall>i \<in> set cd. opcode_of (GET_OPCODE i) \<noteq> None)"

definition jumps_at :: "Instruction list \<Rightarrow> int list \<Rightarrow> bool" where
  "jumps_at cd ps \<longleftrightarrow> (\<forall>p \<in> set ps. 0 \<le> p \<and> p < int (length cd) \<and> has_op (cd ! nat p) OP_JMP)"

definition is_TMode :: "Instruction \<Rightarrow> bool" where
  "is_TMode i \<longleftrightarrow> (case opcode_of (GET_OPCODE i) of Some m \<Rightarrow> testTMode m | None \<Rightarrow> False)"

definition control_of :: "Instruction list \<Rightarrow> int \<Rightarrow> int" where
  "control_of cd p = (if p \<ge> 1 \<and> is_TMode (cd ! nat (p - 1)) then p - 1 else p)"

lemma control_of_alt:
  "control_of cd p =
     (if p \<ge> 1 \<and> (\<exists>m. opcode_of (GET_OPCODE (cd ! nat (p - 1))) = Some m \<and> testTMode m) then p - 1 else p)"
  by (auto simp: control_of_def is_TMode_def split: option.splits)

lemma getjumpcontrol_in:
  assumes "all_ops (code fs)" "0 \<le> p" "p < int (length (code fs))"
  shows "getjumpcontrol fs p = Inr (control_of (code fs) p)"
proof (cases "p \<ge> 1")
  case True
  then have "code fs ! nat (p - 1) \<in> set (code fs)" using assms by (intro nth_mem) (simp add: nat_less_iff)
  then obtain m where "opcode_of (GET_OPCODE (code fs ! nat (p - 1))) = Some m"
    using assms(1) by (auto simp: all_ops_def)
  with True assms show ?thesis
    by (simp add: getjumpcontrol_def getcode_def aget_in field_TMode_def control_of_alt)
qed (simp add: getjumpcontrol_def control_of_alt)

lemma has_op_of: "has_op i m \<longleftrightarrow> opcode_of (GET_OPCODE i) = Some m \<and> GET_OPCODE i = opnum m"
  by (auto simp: has_op_def)

lemma jmp_not_control: "has_op i OP_JMP \<Longrightarrow> opcode_of (GET_OPCODE i) = Some m \<Longrightarrow> \<not> testTMode m"
  by (auto simp: has_op_def testTMode_iff simp del: opnum.simps)

text \<open>What \<open>patchtestreg\<close> writes.\<close>

definition patched_test :: "Instruction \<Rightarrow> int \<Rightarrow> Instruction" where
  "patched_test i reg =
     (if reg \<noteq> NO_REG \<and> reg \<noteq> GETARG_B i then SETARG_A i reg
      else CREATE_ABC (opnum OP_TEST) (GETARG_B i) 0 (GETARG_C i))"

lemma patchtestreg_in:
  assumes "all_ops (code fs)" "0 \<le> p" "p < int (length (code fs))"
  shows "patchtestreg fs p reg =
    (let c = control_of (code fs) p; i = code fs ! nat c in
     if has_op i OP_TESTSET then Inr (True, fs\<lparr>code := (code fs)[nat c := patched_test i reg]\<rparr>)
     else Inr (False, fs))"
proof -
  have "0 \<le> control_of (code fs) p" "control_of (code fs) p < int (length (code fs))"
    using assms by (auto simp: control_of_alt)
  then show ?thesis
    using getjumpcontrol_in [OF assms]
    by (simp add: patchtestreg_def getcode_def aget_in Let_def set_code_def aput_in patched_test_def)
qed

lemma GET_OPCODE_ABC: "GET_OPCODE (CREATE_ABC (opnum m) a b c) = opnum m"
  unfolding GET_OPCODE_def
  by (rule getfield_create_block)
     (use opnum_range [of m] in \<open>auto simp: CREATE_ABC_def bit_simps field_layout NUM_OPCODES_def\<close>)

lemma opcode_patched:
  "has_op i OP_TESTSET \<Longrightarrow> \<exists>m. opcode_of (GET_OPCODE (patched_test i reg)) = Some m \<and> testTMode m"
  by (auto simp: patched_test_def GET_OPCODE_ABC field_laws has_op_def testTMode_iff simp del: opnum.simps)

lemma all_ops_update:
  "all_ops cd \<Longrightarrow> opcode_of (GET_OPCODE i) \<noteq> None \<Longrightarrow> all_ops (cd[n := i])"
  using set_update_subset_insert [of cd n i] by (auto simp: all_ops_def)

text \<open>The code after one round of \<open>patchlistaux\<close> at \<open>p\<close>.\<close>

definition patch_one :: "Instruction list \<Rightarrow> int \<Rightarrow> int \<Rightarrow> int \<Rightarrow> int \<Rightarrow> Instruction list" where
  "patch_one cd p vtarget reg dtarget =
     (let c = control_of cd p; i = cd ! nat c in
      if has_op i OP_TESTSET
      then cd[nat c := patched_test i reg, nat p := SETARG_sBx (cd ! nat p) (vtarget - (p + 1))]
      else cd[nat p := SETARG_sBx (cd ! nat p) (dtarget - (p + 1))])"

lemma control_facts:
  assumes "jumps_at cd ps" "p \<in> set ps" "has_op (cd ! nat (control_of cd p)) OP_TESTSET"
  shows "control_of cd p = p - 1 \<and> 1 \<le> p \<and> p - 1 \<notin> set ps"
proof -
  have p: "0 \<le> p" "p < int (length cd)" "has_op (cd ! nat p) OP_JMP" using assms by (auto simp: jumps_at_def)
  have ne: "control_of cd p \<noteq> p" using assms(3) p(3) by (auto simp: has_op_def)
  then have c: "control_of cd p = p - 1" "1 \<le> p" by (auto simp: control_of_alt split: if_splits)
  with assms(1,3) show ?thesis by (auto simp: jumps_at_def has_op_def)
qed

lemma patch_one_same:
  assumes "jumps_at cd (p # ps)" "distinct (p # ps)" "all_ops cd"
  shows "length (patch_one cd p vt reg dt) = length cd" "all_ops (patch_one cd p vt reg dt)"
    "\<And>q. q \<in> set ps \<Longrightarrow> patch_one cd p vt reg dt ! nat q = cd ! nat q"
    "jumps_at (patch_one cd p vt reg dt) ps"
    "\<And>q. q \<in> set ps \<Longrightarrow> control_of (patch_one cd p vt reg dt) q = control_of cd q \<and>
       patch_one cd p vt reg dt ! nat (control_of cd q) = cd ! nat (control_of cd q)"
proof -
  let ?cd = "patch_one cd p vt reg dt"
  have p: "0 \<le> p" "p < int (length cd)" "has_op (cd ! nat p) OP_JMP" using assms by (auto simp: jumps_at_def)
  have pn: "nat p < length cd" using p by (simp add: nat_less_iff)
  note cf = control_facts [OF assms(1), of p, simplified]
  show len: "length ?cd = length cd" by (simp add: patch_one_def Let_def)
  have op: "opcode_of (GET_OPCODE (cd ! nat p)) \<noteq> None" using assms(3) pn by (auto simp: all_ops_def)
  have cop: "opcode_of (GET_OPCODE (patched_test (cd ! nat (control_of cd p)) reg)) \<noteq> None"
    if "has_op (cd ! nat (control_of cd p)) OP_TESTSET" using opcode_patched [OF that, of reg] by auto
  show ops: "all_ops ?cd"
    unfolding patch_one_def Let_def
    using op cop assms(3) by (auto simp: field_laws intro!: all_ops_update)
  show same: "?cd ! nat q = cd ! nat q" if "q \<in> set ps" for q
  proof -
    have "q \<noteq> p" "0 \<le> q" "q \<noteq> control_of cd p \<or> \<not> has_op (cd ! nat (control_of cd p)) OP_TESTSET"
      using that assms(1,2) cf by (auto simp: jumps_at_def)
    moreover have "0 \<le> control_of cd p" using p by (auto simp: control_of_alt)
    ultimately show ?thesis using p(1) by (auto simp: patch_one_def Let_def nth_list_update nat_eq_iff)
  qed
  show "jumps_at ?cd ps" using assms(1) same len by (auto simp: jumps_at_def)
  fix q assume q: "q \<in> set ps"
  have qq: "0 \<le> q" "q < int (length cd)" "q \<noteq> p" "has_op (cd ! nat q) OP_JMP" using q assms by (auto simp: jumps_at_def)
  have opc: "GET_OPCODE (?cd ! nat (q - 1)) = GET_OPCODE (cd ! nat (q - 1))" if "1 \<le> q"
  proof -
    have "nat (q - 1) \<noteq> nat (control_of cd p) \<or> \<not> has_op (cd ! nat (control_of cd p)) OP_TESTSET"
      using cf qq that by (auto simp: nat_eq_iff)
    then show ?thesis using pn by (auto simp: patch_one_def Let_def nth_list_update field_laws)
  qed
  then show ctl: "control_of ?cd q = control_of cd q \<and> ?cd ! nat (control_of cd q) = cd ! nat (control_of cd q)"
  proof (cases "control_of cd q = q")
    case True
    with opc same [OF q] show ?thesis by (auto simp: control_of_alt)
  next
    case False
    then have c: "control_of cd q = q - 1" "1 \<le> q" "\<exists>m. opcode_of (GET_OPCODE (cd ! nat (q - 1))) = Some m \<and> testTMode m"
      by (auto simp: control_of_alt split: if_splits)
    have "q - 1 \<noteq> p" using c(3) p(3) jmp_not_control by auto
    moreover have "q - 1 \<noteq> control_of cd p \<or> \<not> has_op (cd ! nat (control_of cd p)) OP_TESTSET" using cf qq by auto
    moreover have "0 \<le> control_of cd p" using p by (auto simp: control_of_alt)
    ultimately have "?cd ! nat (q - 1) = cd ! nat (q - 1)"
      using p(1) c(2) by (auto simp: patch_one_def Let_def nth_list_update nat_eq_iff)
    with c opc show ?thesis by (simp add: control_of_alt)
  qed
qed

lemma patch_round:
  assumes "all_ops (code fs)" "0 \<le> p" "p < int (length (code fs))" "vt \<noteq> NO_JUMP" "dt \<noteq> NO_JUMP"
    "\<bar>vt - (p + 1)\<bar> \<le> MAXARG_sBx" "\<bar>dt - (p + 1)\<bar> \<le> MAXARG_sBx" "has_op (code fs ! nat p) OP_JMP"
  shows "rbind (patchtestreg fs p reg) (\<lambda>(b, fs). rbind (fixjump C fs p (if b then vt else dt)) f) =
    f (fs\<lparr>code := patch_one (code fs) p vt reg dt\<rparr>)"
proof (cases "has_op (code fs ! nat (control_of (code fs) p)) OP_TESTSET")
  case True
  have "control_of (code fs) p \<noteq> p" using True assms(8) by (auto simp: has_op_def)
  moreover have "0 \<le> control_of (code fs) p" using assms by (auto simp: control_of_alt)
  ultimately have "nat (control_of (code fs) p) \<noteq> nat p" using assms by (auto simp: nat_eq_iff)
  with True assms show ?thesis
    by (simp add: patchtestreg_in [OF assms(1-3)] fixjump_in patch_one_def Let_def)
qed (use assms in \<open>simp add: patchtestreg_in [OF assms(1-3)] fixjump_in patch_one_def Let_def\<close>)

lemma patchlistaux_fold:
  "jlist (code fs) l ps \<Longrightarrow> distinct ps \<Longrightarrow> jumps_at (code fs) ps \<Longrightarrow> all_ops (code fs) \<Longrightarrow> length ps < n \<Longrightarrow>
   vt \<noteq> NO_JUMP \<Longrightarrow> dt \<noteq> NO_JUMP \<Longrightarrow>
   (\<And>p. p \<in> set ps \<Longrightarrow> \<bar>vt - (p + 1)\<bar> \<le> MAXARG_sBx \<and> \<bar>dt - (p + 1)\<bar> \<le> MAXARG_sBx) \<Longrightarrow>
   patchlistaux n C fs l vt reg dt = Inr (fs\<lparr>code := fold (\<lambda>p cd. patch_one cd p vt reg dt) ps (code fs)\<rparr>)"
proof (induction ps arbitrary: n fs l)
  case Nil
  then show ?case by (cases n) auto
next
  case (Cons p ps)
  then obtain k where n: "n = Suc k" "length ps < k" by (cases n) auto
  have p: "l = p" "0 \<le> p" "p < int (length (code fs))" "jlist (code fs) (next_jump (code fs ! nat p) p) ps"
    "has_op (code fs ! nat p) OP_JMP" using Cons.prems(1,3) by (auto simp: jumps_at_def)
  note one = patch_one_same [OF Cons.prems(3,2,4), where vt = vt and reg = reg and dt = dt]
  let ?fs = "fs\<lparr>code := patch_one (code fs) p vt reg dt\<rparr>"
  have j: "jlist (code ?fs) (next_jump (code fs ! nat p) p) ps"
    using jlist_frame [OF p(4), of "patch_one (code fs) p vt reg dt"] one(1,3) by simp
  have IH: "patchlistaux k C ?fs (next_jump (code fs ! nat p) p) vt reg dt =
     Inr (?fs\<lparr>code := fold (\<lambda>p cd. patch_one cd p vt reg dt) ps (code ?fs)\<rparr>)"
    using Cons.prems one n(2) by (intro Cons.IH [OF j]) auto
  have "patchlistaux n C fs l vt reg dt = patchlistaux k C ?fs (next_jump (code fs ! nat p) p) vt reg dt"
    using Cons.prems p by (simp add: n getjump_in NO_JUMP_def patch_round)
  with IH show ?case by simp
qed

lemma patch_fold_spec:
  assumes "jumps_at cd ps" "distinct ps" "all_ops cd"
  shows "length (fold (\<lambda>p cd. patch_one cd p vt reg dt) ps cd) = length cd \<and>
    all_ops (fold (\<lambda>p cd. patch_one cd p vt reg dt) ps cd) \<and>
    (\<forall>p \<in> set ps. fold (\<lambda>p cd. patch_one cd p vt reg dt) ps cd ! nat p =
       SETARG_sBx (cd ! nat p) ((if has_op (cd ! nat (control_of cd p)) OP_TESTSET then vt else dt) - (p + 1))) \<and>
    (\<forall>p \<in> set ps. has_op (cd ! nat (control_of cd p)) OP_TESTSET \<longrightarrow>
       fold (\<lambda>p cd. patch_one cd p vt reg dt) ps cd ! nat (control_of cd p) =
         patched_test (cd ! nat (control_of cd p)) reg) \<and>
    (\<forall>q. 0 \<le> q \<and> q \<notin> set ps \<and> (\<forall>p \<in> set ps. q = control_of cd p \<longrightarrow> \<not> has_op (cd ! nat q) OP_TESTSET) \<longrightarrow>
       fold (\<lambda>p cd. patch_one cd p vt reg dt) ps cd ! nat q = cd ! nat q)"
  using assms
proof (induction ps arbitrary: cd)
  case (Cons p ps)
  let ?cd = "patch_one cd p vt reg dt"
  note one = patch_one_same [OF Cons.prems, where vt = vt and reg = reg and dt = dt]
  have p: "0 \<le> p" "nat p < length cd" "has_op (cd ! nat p) OP_JMP" "p \<notin> set ps" "0 \<le> control_of cd p"
    using Cons.prems by (auto simp: jumps_at_def nat_less_iff control_of_alt)
  have IH: "length (fold (\<lambda>p cd. patch_one cd p vt reg dt) ps ?cd) = length ?cd"
    "all_ops (fold (\<lambda>p cd. patch_one cd p vt reg dt) ps ?cd)"
    "\<And>q. q \<in> set ps \<Longrightarrow> fold (\<lambda>p cd. patch_one cd p vt reg dt) ps ?cd ! nat q =
       SETARG_sBx (?cd ! nat q) ((if has_op (?cd ! nat (control_of ?cd q)) OP_TESTSET then vt else dt) - (q + 1))"
    "\<And>q. q \<in> set ps \<Longrightarrow> has_op (?cd ! nat (control_of ?cd q)) OP_TESTSET \<Longrightarrow>
       fold (\<lambda>p cd. patch_one cd p vt reg dt) ps ?cd ! nat (control_of ?cd q) = patched_test (?cd ! nat (control_of ?cd q)) reg"
    "\<And>q. 0 \<le> q \<Longrightarrow> q \<notin> set ps \<Longrightarrow> (\<And>r. r \<in> set ps \<Longrightarrow> q = control_of ?cd r \<Longrightarrow> \<not> has_op (?cd ! nat q) OP_TESTSET) \<Longrightarrow>
       fold (\<lambda>p cd. patch_one cd p vt reg dt) ps ?cd ! nat q = ?cd ! nat q"
    using Cons.IH [OF one(4) _ one(2)] Cons.prems(2) by auto
  have at_p: "?cd ! nat p = SETARG_sBx (cd ! nat p) ((if has_op (cd ! nat (control_of cd p)) OP_TESTSET then vt else dt) - (p + 1))"
    using p(2) by (simp add: patch_one_def Let_def)
  have p_kept: "fold (\<lambda>p cd. patch_one cd p vt reg dt) ps ?cd ! nat p = ?cd ! nat p"
  proof (rule IH(5) [OF p(1,4)])
    show "\<not> has_op (?cd ! nat p) OP_TESTSET"
      using p(3) unfolding at_p by (auto simp: has_op_def field_laws)
  qed
  show ?case
  proof (intro conjI ballI allI impI)
    show "length (fold (\<lambda>p cd. patch_one cd p vt reg dt) (p # ps) cd) = length cd" using IH(1) one(1) by simp
    show "all_ops (fold (\<lambda>p cd. patch_one cd p vt reg dt) (p # ps) cd)" using IH(2) by simp
  next
    fix q assume "q \<in> set (p # ps)"
    then show "fold (\<lambda>p cd. patch_one cd p vt reg dt) (p # ps) cd ! nat q =
       SETARG_sBx (cd ! nat q) ((if has_op (cd ! nat (control_of cd q)) OP_TESTSET then vt else dt) - (q + 1))"
      using p_kept at_p IH(3) [of q] one(3) [of q] one(5) [of q] by auto
  next
    fix q assume q: "q \<in> set (p # ps)" "has_op (cd ! nat (control_of cd q)) OP_TESTSET"
    show "fold (\<lambda>p cd. patch_one cd p vt reg dt) (p # ps) cd ! nat (control_of cd q) =
       patched_test (cd ! nat (control_of cd q)) reg"
    proof (cases "q = p")
      case False
      with q one(5) [of q] IH(4) [of q] show ?thesis by simp
    next
      case True
      with q(2) control_facts [OF Cons.prems(1), of p] have c: "control_of cd p = p - 1" "1 \<le> p" "p - 1 \<notin> set (p # ps)"
        by simp_all
      have "fold (\<lambda>p cd. patch_one cd p vt reg dt) ps ?cd ! nat (p - 1) = ?cd ! nat (p - 1)"
      proof (rule IH(5))
        fix r assume r: "r \<in> set ps" "p - 1 = control_of ?cd r"
        then have "control_of cd r = p - 1" using one(5) by simp
        then have "r = p \<or> r = p - 1" by (auto simp: control_of_alt split: if_splits)
        with r(1) c(3) p(4) show "\<not> has_op (?cd ! nat (p - 1)) OP_TESTSET" by auto
      qed (use c in auto)
      moreover have "?cd ! nat (p - 1) = patched_test (cd ! nat (p - 1)) reg"
        using q(2) True c p(2) by (simp add: patch_one_def Let_def nth_list_update nat_eq_iff)
      ultimately show ?thesis using c True by simp
    qed
  next
    fix q assume q: "0 \<le> q \<and> q \<notin> set (p # ps) \<and>
      (\<forall>r \<in> set (p # ps). q = control_of cd r \<longrightarrow> \<not> has_op (cd ! nat q) OP_TESTSET)"
    then have "nat q \<noteq> nat p" "nat q \<noteq> nat (control_of cd p) \<or> \<not> has_op (cd ! nat (control_of cd p)) OP_TESTSET"
      using p(1,5) by (auto simp: nat_eq_iff)
    then have same: "?cd ! nat q = cd ! nat q" by (auto simp: patch_one_def Let_def nth_list_update)
    have "fold (\<lambda>p cd. patch_one cd p vt reg dt) ps ?cd ! nat q = ?cd ! nat q"
      using q one(5) same by (intro IH(5)) auto
    with same show "fold (\<lambda>p cd. patch_one cd p vt reg dt) (p # ps) cd ! nat q = cd ! nat q" by simp
  qed
qed simp

text \<open>
  C21. Patching a jump list sends every jump of it to its target: a jump that an \<open>OP_TESTSET\<close>
  controls goes to the position for values, every other jump to the default position. The
  controlling \<open>OP_TESTSET\<close>s of the list's jumps, and no others, are rewritten: they assign to
  \<open>reg\<close>, or become \<open>OP_TEST\<close>s on the same register with the same condition when there is no
  register to assign to or it holds the value already. All other words stay, and the walk ends.
  The code holds instructions only, the list holds jumps and the targets are within reach.
\<close>

theorem patchlistaux_targets:
  assumes "jlist (code fs) l ps" "distinct ps" "jumps_at (code fs) ps" "all_ops (code fs)"
    "0 \<le> vt" "0 \<le> dt" "vt \<le> MAXARG_sBx" "dt \<le> MAXARG_sBx" "int (length (code fs)) \<le> MAXARG_sBx"
  shows "\<exists>cd. patchlistaux (list_fuel fs) C fs l vt reg dt = Inr (fs\<lparr>code := cd\<rparr>) \<and> length cd = length (code fs) \<and>
    (\<forall>p \<in> set ps. (p + 1) + GETARG_sBx (cd ! nat p) =
       (if has_op (code fs ! nat (control_of (code fs) p)) OP_TESTSET then vt else dt)) \<and>
    (\<forall>p \<in> set ps. \<forall>i. i = code fs ! nat (control_of (code fs) p) \<and> has_op i OP_TESTSET \<longrightarrow>
       cd ! nat (control_of (code fs) p) =
         (if reg \<noteq> NO_REG \<and> reg \<noteq> GETARG_B i then SETARG_A i reg
          else CREATE_ABC (opnum OP_TEST) (GETARG_B i) 0 (GETARG_C i))) \<and>
    (\<forall>q. 0 \<le> q \<and> q \<notin> set ps \<and>
         \<not> (\<exists>p \<in> set ps. q = control_of (code fs) p \<and> has_op (code fs ! nat q) OP_TESTSET) \<longrightarrow>
       cd ! nat q = code fs ! nat q)"
proof -
  define cd where "cd = fold (\<lambda>p cd. patch_one cd p vt reg dt) ps (code fs)"
  have reach: "\<bar>vt - (p + 1)\<bar> \<le> MAXARG_sBx \<and> \<bar>dt - (p + 1)\<bar> \<le> MAXARG_sBx" if "p \<in> set ps" for p
    using jlist_range [OF assms(1) that] assms(5-9) by auto
  have "length ps < list_fuel fs" using jlist_length [OF assms(1,2)] by (simp add: list_fuel_def)
  moreover have "vt \<noteq> NO_JUMP" "dt \<noteq> NO_JUMP" using assms(5,6) by (auto simp: NO_JUMP_def)
  ultimately have run: "patchlistaux (list_fuel fs) C fs l vt reg dt = Inr (fs\<lparr>code := cd\<rparr>)"
    unfolding cd_def using patchlistaux_fold [OF assms(1-4)] reach by blast
  note spec = patch_fold_spec [OF assms(3,2,4), where vt = vt and reg = reg and dt = dt, folded cd_def]
  show ?thesis
  proof (intro exI [of _ cd] conjI ballI allI impI run)
    show "length cd = length (code fs)" using spec by blast
  next
    fix p assume "p \<in> set ps"
    then show "(p + 1) + GETARG_sBx (cd ! nat p) =
       (if has_op (code fs ! nat (control_of (code fs) p)) OP_TESTSET then vt else dt)"
      using spec reach [of p] by (simp add: field_laws)
  next
    fix p i assume "p \<in> set ps" "i = code fs ! nat (control_of (code fs) p) \<and> has_op i OP_TESTSET"
    then show "cd ! nat (control_of (code fs) p) =
         (if reg \<noteq> NO_REG \<and> reg \<noteq> GETARG_B i then SETARG_A i reg
          else CREATE_ABC (opnum OP_TEST) (GETARG_B i) 0 (GETARG_C i))"
      using spec by (auto simp: patched_test_def simp del: opnum.simps)
  next
    fix q assume "0 \<le> q \<and> q \<notin> set ps \<and>
         \<not> (\<exists>p \<in> set ps. q = control_of (code fs) p \<and> has_op (code fs ! nat q) OP_TESTSET)"
    then show "cd ! nat q = code fs ! nat q" using spec by blast
  qed
qed

theorem patchlistaux_targets_witness:
  "\<exists>cd. patchlistaux 4 sample_clib (sample_fs [CREATE_ABC (opnum OP_TESTSET) 255 3 0, jmp NO_JUMP, jmp (- 2)]) 2 3 7 1 =
      Inr (sample_fs [CREATE_ABC (opnum OP_TESTSET) 255 3 0, jmp NO_JUMP, jmp (- 2)] \<lparr>code := cd\<rparr>) \<and>
    2 + GETARG_sBx (cd ! 1) = 3 \<and> 3 + GETARG_sBx (cd ! 2) = 1 \<and> cd ! 0 = CREATE_ABC (opnum OP_TESTSET) 7 3 0"
proof -
  let ?i = "CREATE_ABC (opnum OP_TESTSET) 255 3 0"
  let ?cd = "[?i, jmp NO_JUMP, jmp (- 2)]"
  let ?fs = "sample_fs ?cd"
  have c: "code ?fs = ?cd" "list_fuel ?fs = 4" by (simp_all add: sample_fs_def list_fuel_def)
  have h: "jlist ?cd 2 [2, 1]" "all_ops ?cd" "jumps_at ?cd [2, 1]" by code_simp+
  have ctl: "has_op (?cd ! nat (control_of ?cd 1)) OP_TESTSET" "\<not> has_op (?cd ! nat (control_of ?cd 2)) OP_TESTSET"
    "control_of ?cd 1 = 0" by code_simp+
  have d: "distinct [2, 1 :: int]" and n: "(0::int) \<le> 3" "(0::int) \<le> 1" "3 \<le> MAXARG_sBx" "1 \<le> MAXARG_sBx"
    "int (length ?cd) \<le> MAXARG_sBx" by simp_all
  have w: "has_op ?i OP_TESTSET" "7 \<noteq> NO_REG" "7 \<noteq> GETARG_B ?i" "SETARG_A ?i 7 = CREATE_ABC (opnum OP_TESTSET) 7 3 0"
    by code_simp+
  from patchlistaux_targets [of ?fs 2 "[2, 1]" 3 1 sample_clib 7, unfolded c, OF h(1) d h(3) h(2) n]
  obtain cd where r: "patchlistaux 4 sample_clib ?fs 2 3 7 1 = Inr (?fs\<lparr>code := cd\<rparr>)"
    "\<forall>p \<in> set [2, 1]. (p + 1) + GETARG_sBx (cd ! nat p) =
       (if has_op (?cd ! nat (control_of ?cd p)) OP_TESTSET then 3 else 1)"
    "\<forall>p \<in> set [2, 1]. \<forall>i. i = ?cd ! nat (control_of ?cd p) \<and> has_op i OP_TESTSET \<longrightarrow>
       cd ! nat (control_of ?cd p) = (if 7 \<noteq> NO_REG \<and> 7 \<noteq> GETARG_B i then SETARG_A i 7
          else CREATE_ABC (opnum OP_TEST) (GETARG_B i) 0 (GETARG_C i))"
    by blast
  have "cd ! nat (control_of ?cd 1) = (if 7 \<noteq> NO_REG \<and> 7 \<noteq> GETARG_B ?i then SETARG_A ?i 7
          else CREATE_ABC (opnum OP_TEST) (GETARG_B ?i) 0 (GETARG_C ?i))"
    using r(3) w(1) ctl(3) by (simp del: opnum.simps)
  then have "cd ! 0 = CREATE_ABC (opnum OP_TESTSET) 7 3 0" using w ctl(3) by (simp del: opnum.simps)
  with ctl r show ?thesis by (intro exI [of _ cd]) (simp del: opnum.simps)
qed

subsection \<open>Clearing registers\<close>




lemma dischargejpc_none [simp]: "jpc fs = NO_JUMP \<Longrightarrow> dischargejpc C fs = Inr fs"
  by (cases fs) (simp add: dischargejpc_def list_fuel_def)







subsection \<open>The size word of \<open>OP_SETLIST\<close>\<close>

text \<open>
  C23. When a constructor has more than 511 batches of items, \<open>luaK_setlist\<close> writes their number as
  a raw word after the instruction, and does not mark the position as a jump target. The next
  \<open>luaK_nil\<close> takes the word for an instruction. For a constructor of 819,301 to 819,350 items at
  register 0, whose word 16387 looks like \<open>OP_LOADNIL\<close> of register 0, clearing register 1
  then emits no instruction at all and changes the number of the batch: the register keeps its
  old value and the items are stored at other indices.
\<close>

theorem setlist_word_corrupted:
  assumes "pc fs = int (length (code fs))" "jpc fs = NO_JUMP" "lasttarget fs \<le> pc fs"
    "pc fs + 2 \<le> sizecode fs" "length (lineinfo fs) = length (code fs)" "pc fs + 2 \<le> sizelineinfo fs"
    "819301 \<le> nelems" "nelems \<le> 819350" "tostore \<noteq> 0"
  shows "\<exists>fs1 fs2 i. luaK_setlist C fs 0 nelems tostore = Inr fs1 \<and> code fs1 = code fs @ [i, 16387] \<and>
    luaK_nil C fs1 1 1 = Inr fs2 \<and> code fs2 = code fs @ [i, 16387 + 2 ^ 23] \<and> pc fs2 = pc fs1"
proof -
  define b where "b = (if tostore = LUA_MULTRET then 0 else tostore)"
  let ?i = "CREATE_ABC (opnum OP_SETLIST) 0 b 0"
  have modes: "getOpMode OP_SETLIST = opmode_num iABC" "getBMode OP_SETLIST = opargmask_num OpArgU"
    "getCMode OP_SETLIST = opargmask_num OpArgU" by code_simp+
  have "(nelems - 1) div 50 = 16386" using assms(7,8) by simp
  then have c: "(nelems - 1) div LFIELDS_PER_FLUSH + 1 = 16387" by (simp add: LFIELDS_PER_FLUSH_def)
  define fs1 where "fs1 = fs\<lparr>code := code fs @ [?i, 16387], lineinfo := lineinfo fs @ [lastline (fls fs), lastline (fls fs)],
    pc := pc fs + 2, freereg := 1\<rparr>"
  have word: "(word_of_int 16387 :: Instruction) = 16387" by simp
  have s: "luaK_setlist C fs 0 nelems tostore = Inr fs1"
    using assms c modes
    by (simp add: luaK_setlist_def Let_def b_def [symmetric] luaK_codeABC_def luaK_code_def luaM_growvector_def
        vec_put_def fs1_def del: opnum.simps opmode_num.simps)
  have w: "has_op 16387 OP_LOADNIL" "GETARG_A 16387 = 0" "GETARG_B 16387 = 0" "SETARG_B 16387 1 = 16387 + 2 ^ 23"
    by code_simp+
  have n: "nat (1 + int (length (code fs))) = Suc (length (code fs))" by simp
  have "luaK_nil C fs1 1 1 = Inr (fs1\<lparr>code := code fs @ [?i, 16387 + 2 ^ 23]\<rparr>)"
    using assms(1,3) w n
    by (simp add: luaK_nil_def Let_def fs1_def getcode_def aget_def set_code_def aput_def nth_append list_update_append
        del: opnum.simps)
  with s show ?thesis by (auto simp: fs1_def)
qed

theorem setlist_word_corrupted_witness:
  "\<exists>fs1 fs2 i. luaK_setlist sample_clib ((sample_fs [])\<lparr>sizecode := 4, sizelineinfo := 4\<rparr>) 0 819350 50 = Inr fs1 \<and>
     code fs1 = [i, 16387] \<and> luaK_nil sample_clib fs1 1 1 = Inr fs2 \<and> code fs2 = [i, 16387 + 2 ^ 23]"
  using setlist_word_corrupted [of "(sample_fs [])\<lparr>sizecode := 4, sizelineinfo := 4\<rparr>" 819350 50 sample_clib]
  by (force simp: sample_fs_def)

subsection \<open>Constants\<close>

text \<open>The value that a key of the constant table stands for.\<close>

definition key_value :: "TValue \<Rightarrow> TValue" where
  "key_value k = (case k of Table _ \<Rightarrow> Nil | _ \<Rightarrow> k)"

definition kinv :: "FuncState \<Rightarrow> bool" where
  "kinv fs \<longleftrightarrow> int (length (kvec fs)) = sizek fs \<and> 0 \<le> nk fs \<and> nk fs \<le> sizek fs \<and> sizek fs \<le> MAXARG_Bx \<and>
     (\<forall>k d. h_get (fsh (fls fs)) k = Number d \<longrightarrow>
        (\<exists>i. 0 \<le> i \<and> i < nk fs \<and> d = dbl_of_int i \<and> luaO_rawequalObj (kvec fs ! nat i) (key_value k)))"

lemma tkey_eq_rawequal:
  assumes "tkey k = tkey k'" "\<And>d. k = Number d \<Longrightarrow> \<not> luai_numisnan d"
  shows "luaO_rawequalObj (key_value k) (key_value k')"
proof (cases "\<exists>p. k = Table p")
  case True
  with assms(1) show ?thesis
    by (cases k') (auto simp: tkey_def key_value_def luaO_rawequalObj_def split: if_splits)
next
  case False
  then have "key_value k = k" by (cases k) (auto simp: key_value_def)
  moreover have "key_value k' = k'"
    using False assms(1) by (cases k; cases k') (auto simp: tkey_def key_value_def split: if_splits)
  ultimately show ?thesis using rawequal_tkey [of k k'] assms by simp
qed

lemma growvector_ok:
  "0 \<le> sz \<Longrightarrow> sz \<le> limit \<Longrightarrow> 8 \<le> limit \<Longrightarrow> nelems \<le> sz \<Longrightarrow>
     okr (\<lambda>n. nelems + 1 \<le> n \<and> sz \<le> n \<and> n \<le> limit) (luaM_growvector nelems sz limit msg)"
  by (auto simp: luaM_growvector_def luaM_growaux_def Let_def MINSIZEARRAY_def)

lemma kinv_found:
  assumes "kinv fs" "h_get (fsh (fls fs)) k = Number d"
  shows "\<exists>i. 0 \<le> i \<and> i < nk fs \<and> d = dbl_of_int i \<and> luaO_rawequalObj (kvec fs ! nat i) (key_value k) \<and>
    lua_number2int d = Inr i \<and> i < int (length (kvec fs))"
proof -
  from assms obtain i where i: "0 \<le> i" "i < nk fs" "d = dbl_of_int i" "luaO_rawequalObj (kvec fs ! nat i) (key_value k)"
    "nk fs \<le> int (length (kvec fs))" "nk fs \<le> 262143"
    by (fastforce simp: kinv_def)
  then have "dbl_trunc d = Some i" by (simp add: dbl_int_exact)
  with i show ?thesis by (auto simp: lua_number2int_def)
qed

abbreviation kpost :: "FuncState \<Rightarrow> TValue \<Rightarrow> int \<times> FuncState \<Rightarrow> bool" where
  "kpost fs v \<equiv> \<lambda>(i, fs'). kinv fs' \<and> 0 \<le> i \<and> i < nk fs' \<and> luaO_rawequalObj (kvec fs' ! nat i) v \<and>
     nk fs \<le> nk fs' \<and> (\<forall>j. 0 \<le> j \<and> j < nk fs \<longrightarrow> kvec fs' ! nat j = kvec fs ! nat j)"

lemma addk_new:
  assumes "kinv fs" "\<And>d. h_get (fsh (fls fs)) k \<noteq> Number d" "\<And>d. k = Number d \<Longrightarrow> \<not> luai_numisnan d"
    "nk fs + 1 \<le> n" "sizek fs \<le> n" "n \<le> MAXARG_Bx"
  shows "kinv (fs\<lparr>fls := (fls fs)\<lparr>fsh := h_set (fsh (fls fs)) k (Number (dbl_of_int (nk fs)))\<rparr>,
      kvec := (kvec fs @ replicate (nat (n - sizek fs)) Nil)[nat (nk fs) := key_value k], sizek := n, nk := nk fs + 1\<rparr>)"
    (is "kinv ?fs")
proof -
  let ?ks = "kvec fs @ replicate (nat (n - sizek fs)) Nil"
  have len: "int (length ?ks) = n" using assms by (simp add: kinv_def)
  have old: "(?ks[nat (nk fs) := key_value k]) ! nat i = kvec fs ! nat i" if "0 \<le> i" "i < nk fs" for i
    using that assms(1) by (auto simp: kinv_def nth_append nat_eq_iff)
  have new: "(?ks[nat (nk fs) := key_value k]) ! nat (nk fs) = key_value k"
    using assms(1,4) len by (simp add: kinv_def nat_less_iff del: length_append)
  have "\<exists>i. 0 \<le> i \<and> i < nk ?fs \<and> d = dbl_of_int i \<and> luaO_rawequalObj (kvec ?fs ! nat i) (key_value k')"
    if h: "h_get (fsh (fls ?fs)) k' = Number d" for k' d
  proof (cases "tkey k' = tkey k")
    case True
    with h have "d = dbl_of_int (nk fs)" by (simp add: h_get_def h_set_def)
    moreover have "luaO_rawequalObj (key_value k) (key_value k')"
      using tkey_eq_rawequal [OF True [symmetric]] assms(3) by blast
    ultimately show ?thesis using assms(1) new by (intro exI [of _ "nk fs"]) (simp add: kinv_def)
  next
    case False
    with h have "h_get (fsh (fls fs)) k' = Number d" by (simp add: h_get_def h_set_def)
    from kinv_found [OF assms(1) this] show ?thesis using old by fastforce
  qed
  then show ?thesis using assms len by (auto simp: kinv_def simp del: length_append)
qed

lemma addk_ok:
  assumes "kinv fs" shows "okr (kpost fs (key_value k)) (addk fs k (key_value k))"
proof (cases "\<exists>d. h_get (fsh (fls fs)) k = Number d")
  case True
  then obtain d where d: "h_get (fsh (fls fs)) k = Number d" by blast
  from kinv_found [OF assms d] assms show ?thesis by (auto simp: addk_def Let_def d aget_in)
next
  case False
  then have nf: "\<And>d. h_get (fsh (fls fs)) k \<noteq> Number d" by blast
  let ?nan = "case k of Number d \<Rightarrow> luai_numisnan d | _ \<Rightarrow> False"
  have eq: "addk fs k (key_value k) =
      (if ?nan then Inl (LuaError LUA_ERRRUN ''table index is NaN'')
       else rbind (luaM_growvector (nk fs) (sizek fs) MAXARG_Bx ''constant table overflow'') (\<lambda>n.
         let ks = kvec fs @ replicate (nat (n - sizek fs)) Nil in
         rbind (aput ks (nk fs) (key_value k)) (\<lambda>ks.
         Inr (nk fs, fs\<lparr>fls := (fls fs)\<lparr>fsh := h_set (fsh (fls fs)) k (Number (dbl_of_int (nk fs)))\<rparr>,
               kvec := ks, sizek := n, nk := nk fs + 1\<rparr>))))"
  proof (cases "h_get (fsh (fls fs)) k")
    case (Number d)
    with nf show ?thesis by blast
  qed (simp_all add: addk_def Let_def)
  show ?thesis unfolding eq
  proof (rule ok_if)
    assume "\<not> ?nan"
    then have nn: "\<And>d. k = Number d \<Longrightarrow> \<not> luai_numisnan d" by (cases k) auto
    have "okr (\<lambda>n. nk fs + 1 \<le> n \<and> sizek fs \<le> n \<and> n \<le> MAXARG_Bx)
        (luaM_growvector (nk fs) (sizek fs) MAXARG_Bx ''constant table overflow'')"
      using assms by (intro growvector_ok) (auto simp: kinv_def)
    then show "okr (kpost fs (key_value k)) (rbind (luaM_growvector (nk fs) (sizek fs) MAXARG_Bx ''constant table overflow'') (\<lambda>n.
         let ks = kvec fs @ replicate (nat (n - sizek fs)) Nil in
         rbind (aput ks (nk fs) (key_value k)) (\<lambda>ks.
         Inr (nk fs, fs\<lparr>fls := (fls fs)\<lparr>fsh := h_set (fsh (fls fs)) k (Number (dbl_of_int (nk fs)))\<rparr>,
               kvec := ks, sizek := n, nk := nk fs + 1\<rparr>))))"
    proof (rule ok_rbind)
      fix n assume n: "nk fs + 1 \<le> n \<and> sizek fs \<le> n \<and> n \<le> MAXARG_Bx"
      let ?ks = "kvec fs @ replicate (nat (n - sizek fs)) Nil"
      have len: "int (length ?ks) = n" "0 \<le> nk fs" using assms n by (simp_all add: kinv_def)
      have put: "aput ?ks (nk fs) (key_value k) = Inr (?ks[nat (nk fs) := key_value k])"
        using len n by (intro aput_in) auto
      have "luaO_rawequalObj (key_value k) (key_value k)" by (rule tkey_eq_rawequal [OF refl nn])
      moreover have "nat (nk fs) < length ?ks" using len n by (simp add: nat_less_iff del: length_append)
      moreover have "(?ks[nat (nk fs) := key_value k]) ! nat j = kvec fs ! nat j" if "0 \<le> j" "j < nk fs" for j
        using that assms by (auto simp: kinv_def nth_append nat_eq_iff)
      ultimately show "okr (kpost fs (key_value k)) (let ks = ?ks in
         rbind (aput ks (nk fs) (key_value k)) (\<lambda>ks.
         Inr (nk fs, fs\<lparr>fls := (fls fs)\<lparr>fsh := h_set (fsh (fls fs)) k (Number (dbl_of_int (nk fs)))\<rparr>,
               kvec := ks, sizek := n, nk := nk fs + 1\<rparr>)))"
        using addk_new [OF assms nf nn, of n] n len(2) unfolding Let_def put
        by (simp del: length_append nth_list_update_neq)
    qed
  qed simp
qed

lemma constants_consistent_aux:
  assumes "kinv fs"
  shows "okr (kpost fs (Str s)) (luaK_stringK fs s) \<and> okr (kpost fs (Number d)) (luaK_numberK fs d) \<and>
    okr (kpost fs (Boolean b)) (boolK fs b) \<and> okr (kpost fs Nil) (nilK fs)"
  using addk_ok [OF assms, of "Str s"] addk_ok [OF assms, of "Number d"] addk_ok [OF assms, of "Boolean b"]
    addk_ok [OF assms, of "Table 0"]
  by (simp add: key_value_def luaK_stringK_def luaK_numberK_def boolK_def nilK_def)

text \<open>
  C24. The constant table is consistent. Adding a string, a number, a boolean or nil never
  violates the assertion of \<open>addk\<close>, never leaves the vector of constants, keeps the constants there
  are, and returns the index of a constant that is raw equal to the one asked for; the only errors
  are a table of more than \<open>MAXARG_Bx\<close> constants and a NaN.
\<close>

theorem constants_consistent:
  assumes "kinv fs"
  shows "okr (kpost fs (Str s)) (luaK_stringK fs s) \<and> okr (kpost fs (Number d)) (luaK_numberK fs d) \<and>
    okr (kpost fs (Boolean b)) (boolK fs b) \<and> okr (kpost fs Nil) (nilK fs)"
  using assms by (rule constants_consistent_aux)

lemma kinv_sample: "kinv (sample_fs [])"
  by (simp add: kinv_def sample_fs_def sample_lex_def h_get_def)

theorem constants_consistent_witness:
  "luaK_stringK (sample_fs []) ''a'' = Inr (0, (sample_fs [])\<lparr>fls := (fls (sample_fs []))
     \<lparr>fsh := h_set (\<lambda>_. Nil) (Str ''a'') (Number (dbl_of_int 0))\<rparr>, kvec := [Str ''a'', Nil, Nil, Nil], sizek := 4, nk := 1\<rparr>) \<and>
   okr (kpost (sample_fs []) (Str ''a'')) (luaK_stringK (sample_fs []) ''a'')"
proof
  show "luaK_stringK (sample_fs []) ''a'' = Inr (0, (sample_fs [])\<lparr>fls := (fls (sample_fs []))
     \<lparr>fsh := h_set (\<lambda>_. Nil) (Str ''a'') (Number (dbl_of_int 0))\<rparr>, kvec := [Str ''a'', Nil, Nil, Nil], sizek := 4, nk := 1\<rparr>)"
    by (simp add: luaK_stringK_def addk_def sample_fs_def sample_lex_def h_get_def luaM_growvector_def
        luaM_growaux_def MINSIZEARRAY_def aput_def numeral_eq_Suc)
  show "okr (kpost (sample_fs []) (Str ''a'')) (luaK_stringK (sample_fs []) ''a'')"
    using constants_consistent [OF kinv_sample] by blast
qed

text \<open>
  The two zeros share one constant: after \<open>-0\<close> has become a constant of a function, the
  constant 0 of the same function is \<open>-0\<close>.
\<close>

theorem zero_constants_shared:
  assumes "kinv fs" "h_get (fsh (fls fs)) (Number 0) = Nil" "luaK_numberK fs (luai_numunm 0) = Inr (i, fs')"
  shows "luaK_numberK fs' 0 = Inr (i, fs') \<and> kvec fs' ! nat i = Number (luai_numunm 0)"
proof -
  let ?m = "luai_numunm 0 :: lua_Number"
  have z: "luai_numeq ?m 0" "luai_numeq 0 0" "\<not> luai_numisnan ?m" by code_simp+
  then have key: "tkey (Number ?m) = tkey (Number 0)" by (simp add: tkey_def)
  have post: "kinv fs'" "0 \<le> i" "i < nk fs'"
    using conjunct1 [OF conjunct2 [OF constants_consistent_aux [OF assms(1), where d = "?m"]]] assms(3) by auto
  have sz: "0 \<le> nk fs" "int (length (kvec fs)) = sizek fs" using assms(1) by (simp_all add: kinv_def)
  have hm: "h_get (fsh (fls fs)) (Number ?m) = Nil" using assms(2) key by (simp add: h_get_def)
  from assms(3) z(3) obtain n where n: "nk fs < int (length (kvec fs @ replicate (nat (n - sizek fs)) Nil))"
    "i = nk fs" "fs' = fs\<lparr>fls := (fls fs)\<lparr>fsh := h_set (fsh (fls fs)) (Number ?m) (Number (dbl_of_int (nk fs)))\<rparr>,
       kvec := (kvec fs @ replicate (nat (n - sizek fs)) Nil)[nat (nk fs) := Number ?m], sizek := n, nk := nk fs + 1\<rparr>"
    by (auto simp: luaK_numberK_def addk_def hm Let_def simp del: length_append)
  have "nat (nk fs) < length (kvec fs @ replicate (nat (n - sizek fs)) Nil)"
    using n(1) sz(1) by linarith
  then have "kvec fs' ! nat i = Number ?m" unfolding n(2,3) by (simp del: length_append)
  moreover have "h_get (fsh (fls fs')) (Number 0) = Number (dbl_of_int i)"
    using key by (simp add: n(2,3) h_get_def h_set_def)
  ultimately have i: "kvec fs' ! nat i = Number ?m" "h_get (fsh (fls fs')) (Number 0) = Number (dbl_of_int i)" .
  then obtain j where j: "dbl_of_int i = dbl_of_int j" "lua_number2int (dbl_of_int i) = Inr j" "0 \<le> j" "j < int (length (kvec fs'))"
    using kinv_found [OF post(1), of "Number 0"] by fastforce
  have "i < 262144" using post by (auto simp: kinv_def)
  then have "lua_number2int (dbl_of_int i) = Inr i"
    using post(2) dbl_int_exact [of i] by (simp add: lua_number2int_def)
  with j have i_in: "i < int (length (kvec fs'))" "lua_number2int (dbl_of_int i) = Inr i" by simp_all
  have "luaO_rawequalObj (Number ?m) (Number 0)" using z(1) by (simp add: luaO_rawequalObj_def ttype_def)
  with i i_in post(2) show ?thesis
    unfolding luaK_numberK_def addk_def Let_def i(2) by (simp add: aget_def)
qed

theorem zero_constants_shared_witness:
  "\<exists>fs'. luaK_numberK (sample_fs []) (luai_numunm 0) = Inr (0, fs') \<and> luaK_numberK fs' 0 = Inr (0, fs') \<and>
     kvec fs' ! nat 0 = Number (luai_numunm 0)"
proof -
  have "\<not> luai_numisnan (luai_numunm 0)" by code_simp
  then obtain fs' where r: "luaK_numberK (sample_fs []) (luai_numunm 0) = Inr (0, fs')"
    by (simp add: luaK_numberK_def addk_def sample_fs_def sample_lex_def h_get_def luaM_growvector_def
        luaM_growaux_def MINSIZEARRAY_def aput_def numeral_eq_Suc)
  have "h_get (fsh (fls (sample_fs []))) (Number 0) = Nil" by (simp add: sample_fs_def sample_lex_def h_get_def)
  from zero_constants_shared [OF kinv_sample this r] r show ?thesis by blast
qed

end
