(* ===== verification/CodeCheck.thy ===== *)
theory CodeCheck
  imports Chunk Opcodes
begin

text \<open>
  The checker of precompiled code, \<open>precheck\<close> to \<open>luaG_checkcode\<close> of \<open>lua/ldebug.c\<close>. A failed
  \<open>check\<close> leaves \<open>symbexec\<close> with 0, here \<open>None\<close>; every word and every constant is read through a
  checked access. Positions are exact integers: functions of more than \<open>2 ^ 31 - 2 ^ 17\<close>
  instructions, whose jump distances could overflow an \<open>int\<close>, are outside the model.
\<close>

definition sizecode :: "Proto \<Rightarrow> int" where "sizecode pt = int (length (f_code pt))"
definition sizek :: "Proto \<Rightarrow> int" where "sizek pt = int (length (f_k pt))"
definition sizep :: "Proto \<Rightarrow> int" where "sizep pt = int (length (f_p pt))"
definition code_at :: "Proto \<Rightarrow> int \<Rightarrow> Instruction res" where "code_at pt pc = aget (f_code pt) pc"

text \<open>The slots that are free above every frame (\<open>lua/lstate.h\<close>).\<close>

definition EXTRA_STACK :: int where "EXTRA_STACK = 5"

definition VARARG_HASARG :: byte where "VARARG_HASARG = 1"
definition VARARG_ISVARARG :: byte where "VARARG_ISVARARG = 2"
definition VARARG_NEEDSARG :: byte where "VARARG_NEEDSARG = 4"

definition chk :: "bool \<Rightarrow> 'a option res \<Rightarrow> 'a option res" where
  "chk b m = (if b then m else Inr None)"

primrec is_KString :: "Konst \<Rightarrow> bool" where
  "is_KString KNil = False" | "is_KString (KBool b) = False"
| "is_KString (KNumber x) = False" | "is_KString (KString s) = True"

definition checkreg :: "Proto \<Rightarrow> int \<Rightarrow> bool" where
  "checkreg pt r \<longleftrightarrow> r < uint (f_maxstacksize pt)"

definition precheck :: "Proto \<Rightarrow> bool" where
  "precheck pt \<longleftrightarrow>
     uint (f_maxstacksize pt) \<le> MAXSTACK \<and>
     uint (f_numparams pt) + uint (f_is_vararg pt AND VARARG_HASARG) \<le> uint (f_maxstacksize pt) \<and>
     (f_is_vararg pt AND VARARG_NEEDSARG = 0 \<or> f_is_vararg pt AND VARARG_HASARG \<noteq> 0) \<and>
     int (length (f_upvalues pt)) \<le> uint (f_nups pt) \<and>
     (length (f_lineinfo pt) = length (f_code pt) \<or> length (f_lineinfo pt) = 0) \<and>
     sizecode pt > 0 \<and> has_op (f_code pt ! nat (sizecode pt - 1)) OP_RETURN"

definition luaG_checkopenop :: "Instruction \<Rightarrow> bool" where
  "luaG_checkopenop i \<longleftrightarrow>
     (has_op i OP_CALL \<or> has_op i OP_TAILCALL \<or> has_op i OP_RETURN \<or> has_op i OP_SETLIST) \<and> GETARG_B i = 0"

definition checkopenop :: "Proto \<Rightarrow> int \<Rightarrow> 'a option res \<Rightarrow> 'a option res" where
  "checkopenop pt pc m = rbind (code_at pt (pc + 1)) (\<lambda>i. chk (luaG_checkopenop i) m)"

definition checkArgMode :: "Proto \<Rightarrow> int \<Rightarrow> int \<Rightarrow> bool" where
  "checkArgMode pt r mode =
     (if mode = opargmask_num OpArgN then r = 0
      else if mode = opargmask_num OpArgU then True
      else if mode = opargmask_num OpArgR then checkreg pt r
      else if ISK r then INDEXK r < sizek pt else checkreg pt r)"

text \<open>A word that looks like a \<open>SETLIST\<close> followed by a count, and how many of them end at \<open>dest - 1\<close>.\<close>

definition setlist_word :: "Instruction \<Rightarrow> bool" where
  "setlist_word d \<longleftrightarrow> has_op d OP_SETLIST \<and> GETARG_C d = 0"

fun setlist_run :: "Instruction list \<Rightarrow> nat \<Rightarrow> nat" where
  "setlist_run code 0 = 0"
| "setlist_run code (Suc n) = (if setlist_word (code ! n) then Suc (setlist_run code n) else 0)"

text \<open>The first switch of \<open>symbexec\<close>: the operands \<open>b\<close> and \<open>c\<close>, when they pass.\<close>

definition symb_args :: "Proto \<Rightarrow> int \<Rightarrow> Instruction \<Rightarrow> OpCode \<Rightarrow> (int \<times> int) option" where
  "symb_args pt pc i op =
     (if getOpMode op = opmode_num iABC then
        let b = GETARG_B i; c = GETARG_C i in
        if checkArgMode pt b (getBMode op) \<and> checkArgMode pt c (getCMode op) then Some (b, c) else None
      else if getOpMode op = opmode_num iABx then
        let b = GETARG_Bx i in
        if getBMode op = opargmask_num OpArgK \<and> \<not> b < sizek pt then None else Some (b, 0)
      else
        let b = GETARG_sBx i in
        if getBMode op = opargmask_num OpArgR then
          let dest = pc + 1 + b in
          if 0 \<le> dest \<and> dest < sizecode pt \<and> even (setlist_run (f_code pt) (nat dest))
          then Some (b, 0) else None
        else Some (b, 0))"

text \<open>The jump of \<open>OP_JMP\<close>, \<open>OP_FORLOOP\<close> and \<open>OP_FORPREP\<close>: taken when tracing, forwards and not past \<open>lastpc\<close>.\<close>

definition symb_jump :: "int \<Rightarrow> int \<Rightarrow> int \<Rightarrow> int \<Rightarrow> int" where
  "symb_jump lastpc reg pc b =
     (let dest = pc + 1 + b in if reg \<noteq> NO_REG \<and> pc < dest \<and> dest \<le> lastpc then pc + b else pc)"

definition is_pseudo :: "Instruction \<Rightarrow> bool" where
  "is_pseudo i \<longleftrightarrow> has_op i OP_GETUPVAL \<or> has_op i OP_MOVE"

definition symb_call :: "Proto \<Rightarrow> int \<Rightarrow> int \<Rightarrow> int \<Rightarrow> int \<Rightarrow> int \<Rightarrow> int \<Rightarrow> (int \<times> int) option res" where
  "symb_call pt reg pc lst a b c =
     chk (b \<noteq> 0 \<longrightarrow> checkreg pt (a + b - 1))
       (let c = c - 1; m = Inr (Some (pc, if reg \<ge> a then pc else lst)) in
        if c = LUA_MULTRET then checkopenop pt pc m
        else if c \<noteq> 0 then chk (checkreg pt (a + c - 1)) m
        else m)"

text \<open>The second switch: the position before the next one, and the last change of the register.\<close>

definition symb_op :: "Proto \<Rightarrow> int \<Rightarrow> int \<Rightarrow> int \<Rightarrow> int \<Rightarrow> OpCode \<Rightarrow> int \<Rightarrow> int \<Rightarrow> int \<Rightarrow>
    (int \<times> int) option res" where
  "symb_op pt lastpc reg pc lst op a b c = (case op of
     OP_LOADBOOL \<Rightarrow>
       if c = 1 then
         chk (pc + 2 < sizecode pt)
           (rbind (code_at pt (pc + 1)) (\<lambda>i. chk (\<not> setlist_word i) (Inr (Some (pc, lst)))))
       else Inr (Some (pc, lst))
   | OP_LOADNIL \<Rightarrow> Inr (Some (pc, if a \<le> reg \<and> reg \<le> b then pc else lst))
   | OP_GETUPVAL \<Rightarrow> chk (b < uint (f_nups pt)) (Inr (Some (pc, lst)))
   | OP_SETUPVAL \<Rightarrow> chk (b < uint (f_nups pt)) (Inr (Some (pc, lst)))
   | OP_GETGLOBAL \<Rightarrow> rbind (aget (f_k pt) b) (\<lambda>k. chk (is_KString k) (Inr (Some (pc, lst))))
   | OP_SETGLOBAL \<Rightarrow> rbind (aget (f_k pt) b) (\<lambda>k. chk (is_KString k) (Inr (Some (pc, lst))))
   | OP_SELF \<Rightarrow> chk (checkreg pt (a + 1)) (Inr (Some (pc, if reg = a + 1 then pc else lst)))
   | OP_CONCAT \<Rightarrow> chk (b < c) (Inr (Some (pc, lst)))
   | OP_TFORLOOP \<Rightarrow>
       chk (c \<ge> 1) (chk (checkreg pt (a + 2 + c)) (Inr (Some (pc, if reg \<ge> a + 2 then pc else lst))))
   | OP_FORLOOP \<Rightarrow> chk (checkreg pt (a + 3)) (Inr (Some (symb_jump lastpc reg pc b, lst)))
   | OP_FORPREP \<Rightarrow> chk (checkreg pt (a + 3)) (Inr (Some (symb_jump lastpc reg pc b, lst)))
   | OP_JMP \<Rightarrow> Inr (Some (symb_jump lastpc reg pc b, lst))
   | OP_CALL \<Rightarrow> symb_call pt reg pc lst a b c
   | OP_TAILCALL \<Rightarrow> symb_call pt reg pc lst a b c
   | OP_RETURN \<Rightarrow> let b = b - 1 in chk (b > 0 \<longrightarrow> checkreg pt (a + b - 1)) (Inr (Some (pc, lst)))
   | OP_SETLIST \<Rightarrow>
       chk (b > 0 \<longrightarrow> checkreg pt (a + b))
         (if c = 0 then chk (pc + 1 < sizecode pt - 1) (Inr (Some (pc + 1, lst))) else Inr (Some (pc, lst)))
   | OP_CLOSURE \<Rightarrow>
       chk (b < sizep pt)
         (rbind (aget (f_p pt) b) (\<lambda>g. let nup = uint (f_nups g) in
          chk (pc + nup < sizecode pt)
            (chk (list_all is_pseudo (take (nat nup) (drop (nat (pc + 1)) (f_code pt))))
               (Inr (Some (if reg \<noteq> NO_REG then pc + nup else pc, lst))))))
   | OP_VARARG \<Rightarrow>
       chk (f_is_vararg pt AND VARARG_ISVARARG \<noteq> 0 \<and> f_is_vararg pt AND VARARG_NEEDSARG = 0)
         (let b = b - 1; m = chk (checkreg pt (a + b - 1)) (Inr (Some (pc, lst))) in
          if b = LUA_MULTRET then checkopenop pt pc m else m)
   | _ \<Rightarrow> Inr (Some (pc, lst)))"

definition symb_step :: "Proto \<Rightarrow> int \<Rightarrow> int \<Rightarrow> int \<Rightarrow> int \<Rightarrow> (int \<times> int) option res" where
  "symb_step pt lastpc reg pc lst =
     rbind (code_at pt pc) (\<lambda>i.
     case opcode_of (GET_OPCODE i) of
       None \<Rightarrow> Inr None
     | Some op \<Rightarrow>
         let a = GETARG_A i in
         chk (checkreg pt a)
         (case symb_args pt pc i op of
            None \<Rightarrow> Inr None
          | Some (b, c) \<Rightarrow>
              let lst = (if testAMode op \<and> a = reg then pc else lst);
                  m = symb_op pt lastpc reg pc lst op a b c in
              if testTMode op then
                chk (pc + 2 < sizecode pt) (rbind (code_at pt (pc + 1)) (\<lambda>j. chk (has_op j OP_JMP) m))
              else m))"

lemma chk_Some [simp]: "chk b m = Inr (Some r) \<longleftrightarrow> b \<and> m = Inr (Some r)"
  by (simp add: chk_def)

lemma checkopenop_Some [simp]: "checkopenop pt pc m = Inr (Some r) \<longleftrightarrow>
    (\<exists>i. code_at pt (pc + 1) = Inr i \<and> luaG_checkopenop i \<and> m = Inr (Some r))"
  by (simp add: checkopenop_def rbind_Inr_iff)

lemma symb_op_advances: "symb_op pt lastpc reg pc lst op a b c = Inr (Some (pc', lst')) \<Longrightarrow> pc \<le> pc'"
  by (cases op) (auto simp: symb_op_def symb_call_def symb_jump_def rbind_Inr_iff Let_def split: if_splits)

lemma symb_step_advances: "symb_step pt lastpc reg pc lst = Inr (Some (pc', lst')) \<Longrightarrow> pc \<le> pc'"
  by (auto simp: symb_step_def rbind_Inr_iff Let_def split: option.splits if_splits dest: symb_op_advances)

function symb_loop :: "Proto \<Rightarrow> int \<Rightarrow> int \<Rightarrow> int \<Rightarrow> int \<Rightarrow> Instruction res" where
  "symb_loop pt lastpc reg pc lst =
     (if pc < lastpc then
        rbind (symb_step pt lastpc reg pc lst) (\<lambda>r. case r of
          None \<Rightarrow> Inr 0
        | Some (pc, lst) \<Rightarrow> symb_loop pt lastpc reg (pc + 1) lst)
      else code_at pt lst)"
  by pat_completeness auto
termination
  by (relation "measure (\<lambda>(pt, lastpc, reg, pc, lst). nat (lastpc - pc))")
     (auto dest: symb_step_advances)

declare symb_loop.simps [simp del]

definition symbexec :: "Proto \<Rightarrow> int \<Rightarrow> int \<Rightarrow> Instruction res" where
  "symbexec pt lastpc reg =
     (if precheck pt then symb_loop pt lastpc reg 0 (sizecode pt - 1) else Inr 0)"

definition luaG_checkcode :: "Proto \<Rightarrow> bool res" where
  "luaG_checkcode pt = rmap (\<lambda>i. i \<noteq> 0) (symbexec pt (sizecode pt) NO_REG)"

end
