(* ===== verification/CodeSafe.thy ===== *)
theory CodeSafe
  imports CodeCheck ChunkProps
begin

text \<open>
  What acceptance by \<open>luaG_checkcode\<close> is worth to \<open>luaV_execute\<close>: every position that the interpreter can
  reach in accepted code holds an instruction, its operands exist and its jumps stay inside. The
  checker goes through the code once, from start to end; the positions it visits are those whose
  preceding run of words that look like a \<open>SETLIST\<close> with a count is of even length, which is the
  test it makes on the target of a jump.
\<close>

subsection \<open>What the interpreter does with an instruction\<close>

text \<open>
  The values of \<open>pc\<close> with which the loop of \<open>luaV_execute\<close> (\<open>lua/lvm.c\<close>) comes round after the
  instruction at \<open>pc\<close>, whatever the registers hold; none after a \<open>RETURN\<close>. A call comes back at the
  position it saved. \<open>next\<close> is the word after the instruction, which the tests and the generic loop
  read for their jump.
\<close>

definition next_pcs :: "Proto \<Rightarrow> int \<Rightarrow> int list res" where
  "next_pcs pt at =
     rbind (code_at pt at) (\<lambda>i.
     let pc = at + 1; test = rmap (\<lambda>j. [pc + GETARG_sBx j + 1, pc + 1]) (code_at pt pc) in
     case opcode_of (GET_OPCODE i) of
       None \<Rightarrow> Inl (UB ''opcode'')
     | Some op \<Rightarrow> (case op of
         OP_LOADBOOL \<Rightarrow> Inr [if GETARG_C i \<noteq> 0 then pc + 1 else pc]
       | OP_JMP \<Rightarrow> Inr [pc + GETARG_sBx i]
       | OP_EQ \<Rightarrow> test | OP_LT \<Rightarrow> test | OP_LE \<Rightarrow> test
       | OP_TEST \<Rightarrow> test | OP_TESTSET \<Rightarrow> test | OP_TFORLOOP \<Rightarrow> test
       | OP_RETURN \<Rightarrow> Inr []
       | OP_FORLOOP \<Rightarrow> Inr [pc + GETARG_sBx i, pc]
       | OP_FORPREP \<Rightarrow> Inr [pc + GETARG_sBx i]
       | OP_SETLIST \<Rightarrow> if GETARG_C i = 0 then rmap (\<lambda>_. [pc + 1]) (code_at pt pc) else Inr [pc]
       | OP_CLOSURE \<Rightarrow>
           rbind (aget (f_p pt) (GETARG_Bx i)) (\<lambda>g. let nup = uint (f_nups g) in
           if pc + nup \<le> sizecode pt then Inr [pc + nup] else Inl (UB ''pseudo-instructions''))
       | _ \<Rightarrow> Inr [pc]))"

inductive runs :: "Proto \<Rightarrow> int \<Rightarrow> bool" for pt where
  start: "runs pt 0"
| advance: "runs pt pc \<Longrightarrow> next_pcs pt pc = Inr ps \<Longrightarrow> pc' \<in> set ps \<Longrightarrow> runs pt pc'"

text \<open>
  The registers that the case of an opcode reads or writes, apart from its register-or-constant
  operands; where the number of registers depends on \<open>L->top\<close>, only those the instruction names.
\<close>

definition vm_regs :: "OpCode \<Rightarrow> int \<Rightarrow> int \<Rightarrow> int \<Rightarrow> int list" where
  "vm_regs op a b c = (case op of
     OP_MOVE \<Rightarrow> [a, b] | OP_LOADK \<Rightarrow> [a] | OP_LOADBOOL \<Rightarrow> [a] | OP_LOADNIL \<Rightarrow> b # [a..b]
   | OP_GETUPVAL \<Rightarrow> [a] | OP_GETGLOBAL \<Rightarrow> [a] | OP_GETTABLE \<Rightarrow> [a, b] | OP_SETGLOBAL \<Rightarrow> [a]
   | OP_SETUPVAL \<Rightarrow> [a] | OP_SETTABLE \<Rightarrow> [a] | OP_NEWTABLE \<Rightarrow> [a] | OP_SELF \<Rightarrow> [a, a + 1, b]
   | OP_ADD \<Rightarrow> [a] | OP_SUB \<Rightarrow> [a] | OP_MUL \<Rightarrow> [a] | OP_DIV \<Rightarrow> [a] | OP_MOD \<Rightarrow> [a] | OP_POW \<Rightarrow> [a]
   | OP_UNM \<Rightarrow> [a, b] | OP_NOT \<Rightarrow> [a, b] | OP_LEN \<Rightarrow> [a, b] | OP_CONCAT \<Rightarrow> a # [b..c] | OP_JMP \<Rightarrow> []
   | OP_EQ \<Rightarrow> [] | OP_LT \<Rightarrow> [] | OP_LE \<Rightarrow> [] | OP_TEST \<Rightarrow> [a] | OP_TESTSET \<Rightarrow> [a, b]
   | OP_CALL \<Rightarrow> a # [a..a + b - 1] @ [a..a + c - 2]
   | OP_TAILCALL \<Rightarrow> a # [a..a + b - 1]
   | OP_RETURN \<Rightarrow> a # [a..a + b - 2]
   | OP_FORLOOP \<Rightarrow> [a, a + 1, a + 2, a + 3] | OP_FORPREP \<Rightarrow> [a, a + 1, a + 2]
   | OP_TFORLOOP \<Rightarrow> [a, a + 1, a + 2] @ [a + 3..a + 2 + c]
   | OP_SETLIST \<Rightarrow> [a..a + b] | OP_CLOSE \<Rightarrow> [a] | OP_CLOSURE \<Rightarrow> [a]
   | OP_VARARG \<Rightarrow> a # [a..a + b - 2])"

text \<open>The register-or-constant operands, the constants, upvalues and prototypes of an instruction.\<close>

definition vm_rks :: "OpCode \<Rightarrow> int \<Rightarrow> int \<Rightarrow> int list" where
  "vm_rks op b c = (case op of
     OP_GETTABLE \<Rightarrow> [c] | OP_SELF \<Rightarrow> [c] | OP_SETTABLE \<Rightarrow> [b, c]
   | OP_ADD \<Rightarrow> [b, c] | OP_SUB \<Rightarrow> [b, c] | OP_MUL \<Rightarrow> [b, c] | OP_DIV \<Rightarrow> [b, c] | OP_MOD \<Rightarrow> [b, c]
   | OP_POW \<Rightarrow> [b, c] | OP_EQ \<Rightarrow> [b, c] | OP_LT \<Rightarrow> [b, c] | OP_LE \<Rightarrow> [b, c] | _ \<Rightarrow> [])"

definition vm_consts :: "OpCode \<Rightarrow> int \<Rightarrow> int list" where
  "vm_consts op bx = (if op \<in> {OP_LOADK, OP_GETGLOBAL, OP_SETGLOBAL} then [bx] else [])"

definition vm_globals :: "OpCode \<Rightarrow> int \<Rightarrow> int list" where
  "vm_globals op bx = (if op \<in> {OP_GETGLOBAL, OP_SETGLOBAL} then [bx] else [])"

definition vm_upvals :: "OpCode \<Rightarrow> int \<Rightarrow> int list" where
  "vm_upvals op b = (if op \<in> {OP_GETUPVAL, OP_SETUPVAL} then [b] else [])"

definition vm_protos :: "OpCode \<Rightarrow> int \<Rightarrow> int list" where
  "vm_protos op bx = (if op = OP_CLOSURE then [bx] else [])"

definition rk_ok :: "Proto \<Rightarrow> int \<Rightarrow> bool" where
  "rk_ok pt r \<longleftrightarrow> (if ISK r then INDEXK r < sizek pt else checkreg pt r)"

text \<open>
  The generic loop copies the function and its two arguments above its registers; the stack has
  \<open>EXTRA_STACK\<close> free slots above every frame (\<open>lua/lstate.h\<close>).
\<close>

definition vm_extra :: "OpCode \<Rightarrow> int \<Rightarrow> int list" where
  "vm_extra op a = (if op = OP_TFORLOOP then [a + 3, a + 4, a + 5] else [])"

text \<open>
  What \<open>luaV_execute\<close> relies on without testing it: the word is an instruction, its registers are in
  the frame, its constants, upvalues and prototypes exist, and a global's name is a string.
\<close>

definition word_ok :: "Proto \<Rightarrow> Instruction \<Rightarrow> bool" where
  "word_ok pt i \<longleftrightarrow> (case opcode_of (GET_OPCODE i) of None \<Rightarrow> False
     | Some op \<Rightarrow>
         list_all (checkreg pt) (vm_regs op (GETARG_A i) (GETARG_B i) (GETARG_C i)) \<and>
         list_all (\<lambda>r. r < uint (f_maxstacksize pt) + EXTRA_STACK) (vm_extra op (GETARG_A i)) \<and>
         list_all (rk_ok pt) (vm_rks op (GETARG_B i) (GETARG_C i)) \<and>
         list_all (\<lambda>k. k < sizek pt) (vm_consts op (GETARG_Bx i)) \<and>
         list_all (\<lambda>k. is_KString (f_k pt ! nat k)) (vm_globals op (GETARG_Bx i)) \<and>
         list_all (\<lambda>u. u < uint (f_nups pt)) (vm_upvals op (GETARG_B i)) \<and>
         list_all (\<lambda>p. p < sizep pt) (vm_protos op (GETARG_Bx i)))"

text \<open>The words a \<open>CLOSURE\<close> reads after itself, one for each upvalue of the new function.\<close>

definition capture_ok :: "Proto \<Rightarrow> Instruction \<Rightarrow> bool" where
  "capture_ok pt j \<longleftrightarrow>
     has_op j OP_GETUPVAL \<and> GETARG_B j < uint (f_nups pt) \<or> has_op j OP_MOVE \<and> checkreg pt (GETARG_B j)"

definition captures_ok :: "Proto \<Rightarrow> int \<Rightarrow> Instruction \<Rightarrow> bool" where
  "captures_ok pt pc i \<longleftrightarrow> (has_op i OP_CLOSURE \<longrightarrow>
     (\<forall>j. 1 \<le> j \<and> j \<le> uint (f_nups (f_p pt ! nat (GETARG_Bx i))) \<longrightarrow> capture_ok pt (f_code pt ! nat (pc + j))))"

definition pc_ok :: "Proto \<Rightarrow> int \<Rightarrow> bool" where
  "pc_ok pt pc \<longleftrightarrow> 0 \<le> pc \<and> pc < sizecode pt \<and> word_ok pt (f_code pt ! nat pc) \<and>
     captures_ok pt pc (f_code pt ! nat pc) \<and> (\<exists>ps. next_pcs pt pc = Inr ps)"

text \<open>The verifier looks at the target of a \<open>LOADBOOL\<close> only when its third operand is 1.\<close>

definition strict_loadbool :: "Proto \<Rightarrow> bool" where
  "strict_loadbool pt \<longleftrightarrow> (\<forall>i\<in>set (f_code pt). has_op i OP_LOADBOOL \<longrightarrow> GETARG_C i \<le> 1)"

subsection \<open>The positions that the checker visits\<close>

definition swept :: "Proto \<Rightarrow> int \<Rightarrow> bool" where
  "swept pt d \<longleftrightarrow> 0 \<le> d \<and> even (setlist_run (f_code pt) (nat d))"

definition passes :: "Proto \<Rightarrow> int \<Rightarrow> bool" where
  "passes pt d \<longleftrightarrow> (\<exists>lst r. symb_step pt (sizecode pt) NO_REG d lst = Inr (Some r))"

abbreviation word :: "Proto \<Rightarrow> int \<Rightarrow> Instruction" where "word pt d \<equiv> f_code pt ! nat d"

lemma swept_0 [simp]: "swept pt 0"
  by (simp add: swept_def)

lemma setlist_run_Suc: "0 \<le> d \<Longrightarrow> setlist_run code (nat (d + 1)) =
    (if setlist_word (code ! nat d) then Suc (setlist_run code (nat d)) else 0)"
  by (simp add: nat_add_distrib)

lemma swept_next: "0 \<le> d \<Longrightarrow> \<not> setlist_word (word pt d) \<Longrightarrow> swept pt (d + 1)"
  by (simp add: swept_def setlist_run_Suc)

lemma swept_count: "swept pt d \<Longrightarrow> setlist_word (word pt d) \<Longrightarrow> \<not> swept pt (d + 1) \<and> swept pt (d + 2)"
  using setlist_run_Suc [of "d + 1" "f_code pt"]
  by (auto simp: swept_def setlist_run_Suc add.commute [of 2])

lemma not_swept: "0 \<le> d \<Longrightarrow> \<not> swept pt d \<Longrightarrow> 1 \<le> d \<and> swept pt (d - 1) \<and> setlist_word (word pt (d - 1))"
proof -
  assume d: "0 \<le> d" "\<not> swept pt d"
  then have "d \<noteq> 0" by auto
  with d have d1: "1 \<le> d" by simp
  with d setlist_run_Suc [of "d - 1" "f_code pt"] show ?thesis
    by (auto simp: swept_def split: if_splits)
qed

lemma mode_table:
  "getOpMode op = (case op of
     OP_LOADK \<Rightarrow> 1 | OP_GETGLOBAL \<Rightarrow> 1 | OP_SETGLOBAL \<Rightarrow> 1 | OP_CLOSURE \<Rightarrow> 1
   | OP_JMP \<Rightarrow> 2 | OP_FORLOOP \<Rightarrow> 2 | OP_FORPREP \<Rightarrow> 2 | _ \<Rightarrow> 0)"
  by (cases op; simp add: getOpMode_def luaP_opmodes_def opmode_def; code_simp)

lemma b_mode_table:
  "getBMode op = (case op of
     OP_TFORLOOP \<Rightarrow> 0 | OP_CLOSE \<Rightarrow> 0
   | OP_LOADBOOL \<Rightarrow> 1 | OP_GETUPVAL \<Rightarrow> 1 | OP_SETUPVAL \<Rightarrow> 1 | OP_NEWTABLE \<Rightarrow> 1 | OP_CALL \<Rightarrow> 1
   | OP_TAILCALL \<Rightarrow> 1 | OP_RETURN \<Rightarrow> 1 | OP_SETLIST \<Rightarrow> 1 | OP_CLOSURE \<Rightarrow> 1 | OP_VARARG \<Rightarrow> 1
   | OP_LOADK \<Rightarrow> 3 | OP_GETGLOBAL \<Rightarrow> 3 | OP_SETGLOBAL \<Rightarrow> 3 | OP_SETTABLE \<Rightarrow> 3 | OP_ADD \<Rightarrow> 3 | OP_SUB \<Rightarrow> 3
   | OP_MUL \<Rightarrow> 3 | OP_DIV \<Rightarrow> 3 | OP_MOD \<Rightarrow> 3 | OP_POW \<Rightarrow> 3 | OP_EQ \<Rightarrow> 3 | OP_LT \<Rightarrow> 3 | OP_LE \<Rightarrow> 3
   | _ \<Rightarrow> 2)"
  by (cases op; simp add: getBMode_def luaP_opmodes_def opmode_def; code_simp)

lemma c_mode_table:
  "getCMode op = (case op of
     OP_LOADBOOL \<Rightarrow> 1 | OP_NEWTABLE \<Rightarrow> 1 | OP_TEST \<Rightarrow> 1 | OP_TESTSET \<Rightarrow> 1 | OP_CALL \<Rightarrow> 1 | OP_TAILCALL \<Rightarrow> 1
   | OP_TFORLOOP \<Rightarrow> 1 | OP_SETLIST \<Rightarrow> 1 | OP_CONCAT \<Rightarrow> 2
   | OP_GETTABLE \<Rightarrow> 3 | OP_SETTABLE \<Rightarrow> 3 | OP_SELF \<Rightarrow> 3 | OP_ADD \<Rightarrow> 3 | OP_SUB \<Rightarrow> 3
   | OP_MUL \<Rightarrow> 3 | OP_DIV \<Rightarrow> 3 | OP_MOD \<Rightarrow> 3 | OP_POW \<Rightarrow> 3 | OP_EQ \<Rightarrow> 3 | OP_LT \<Rightarrow> 3 | OP_LE \<Rightarrow> 3
   | _ \<Rightarrow> 0)"
  by (cases op; simp add: getCMode_def luaP_opmodes_def opmode_def; code_simp)

lemma opcode_of_Some: "opcode_of n = Some op \<longleftrightarrow> n = opnum op"
proof
  assume a: "opcode_of n = Some op"
  then have n: "0 \<le> n" "n < 38" by (simp_all add: opcode_of_def NUM_OPCODES_def split: if_splits)
  have "nat n \<in> set [0..<38]" using n by auto
  moreover have "\<forall>k\<in>set [0..<38]. opnum (all_opcodes ! k) = int k" by code_simp
  ultimately have "opnum (all_opcodes ! nat n) = n" using n by simp
  with a show "n = opnum op" by (auto simp: opcode_of_def split: if_splits)
qed simp

lemma has_op_decoded: "opcode_of (GET_OPCODE i) = Some op \<Longrightarrow> has_op i m \<longleftrightarrow> op = m"
  by (simp add: opcode_of_Some has_op_def opnum_inj)

lemma passesE:
  assumes "passes pt d"
  obtains op b c lst r where "0 \<le> d" "d < sizecode pt" "opcode_of (GET_OPCODE (word pt d)) = Some op"
    "checkreg pt (GETARG_A (word pt d))" "symb_args pt d (word pt d) op = Some (b, c)"
    "testTMode op \<Longrightarrow> d + 2 < sizecode pt \<and> has_op (word pt (d + 1)) OP_JMP"
    "symb_op pt (sizecode pt) NO_REG d lst op (GETARG_A (word pt d)) b c = Inr (Some r)"
proof -
  from assms obtain lst r where step: "symb_step pt (sizecode pt) NO_REG d lst = Inr (Some r)"
    by (auto simp: passes_def)
  then obtain i where i: "0 \<le> d" "d < sizecode pt" "i = word pt d"
    by (auto simp: symb_step_def rbind_Inr_iff code_at_def sizecode_def)
  have at: "code_at pt d = Inr (word pt d)" using i by (simp add: code_at_def sizecode_def)
  from step obtain op where op: "opcode_of (GET_OPCODE (word pt d)) = Some op"
    by (auto simp: symb_step_def at split: option.splits)
  from step obtain b c where bc: "symb_args pt d (word pt d) op = Some (b, c)"
    by (auto simp: symb_step_def at op Let_def split: option.splits)
  from step i op bc show thesis
    by (intro that [OF i(1,2) op _ bc, where lst = "if testAMode op \<and> GETARG_A (word pt d) = NO_REG then d else lst"])
       (auto simp: symb_step_def at Let_def rbind_Inr_iff code_at_def sizecode_def split: if_splits)
qed

lemma checkArgMode_simps [simp]:
  "checkArgMode pt r 0 \<longleftrightarrow> r = 0" "checkArgMode pt r 1" "checkArgMode pt r 2 \<longleftrightarrow> checkreg pt r"
  "checkArgMode pt r 3 \<longleftrightarrow> rk_ok pt r"
  by (simp_all add: checkArgMode_def rk_ok_def)

lemma symb_args_ABC: "getOpMode op = 0 \<Longrightarrow> symb_args pt pc i op = Some (b, c) \<longleftrightarrow>
    checkArgMode pt b (getBMode op) \<and> checkArgMode pt c (getCMode op) \<and> b = GETARG_B i \<and> c = GETARG_C i"
  by (auto simp: symb_args_def Let_def)

lemma symb_args_ABx: "getOpMode op = 1 \<Longrightarrow> symb_args pt pc i op = Some (b, c) \<longleftrightarrow>
    (getBMode op = 3 \<longrightarrow> b < sizek pt) \<and> b = GETARG_Bx i \<and> c = 0"
  by (auto simp: symb_args_def Let_def)

lemma symb_args_AsBx: "getOpMode op = 2 \<Longrightarrow> getBMode op = 2 \<Longrightarrow> symb_args pt pc i op = Some (b, c) \<longleftrightarrow>
    swept pt (pc + 1 + b) \<and> pc + 1 + b < sizecode pt \<and> b = GETARG_sBx i \<and> c = 0"
  by (auto simp: symb_args_def Let_def swept_def)

lemma symb_call_Some:
  assumes "symb_call pt reg pc lst a b c = Inr (Some r)" "checkreg pt a" "0 \<le> b" "0 \<le> c"
  shows "\<forall>x. x \<le> a + b - 1 \<or> x \<le> a + c - 2 \<longrightarrow> x < uint (f_maxstacksize pt)"
proof -
  have "b \<noteq> 0 \<longrightarrow> a + b - 1 < uint (f_maxstacksize pt)" "c \<ge> 2 \<longrightarrow> a + c - 2 < uint (f_maxstacksize pt)"
    using assms(1) by (auto simp: symb_call_def Let_def checkreg_def LUA_MULTRET_def split: if_splits)
  with assms(2-) show ?thesis by (auto simp: checkreg_def)
qed

lemma passes_word:
  assumes "passes pt d"
  shows "word_ok pt (word pt d)"
proof -
  note uses = vm_regs_def vm_rks_def vm_consts_def vm_globals_def vm_upvals_def vm_protos_def vm_extra_def
  from assms show ?thesis
  proof (rule passesE)
    fix op b c lst r
    let ?i = "word pt d"
    assume op: "opcode_of (GET_OPCODE ?i) = Some op" and a: "checkreg pt (GETARG_A ?i)"
      and args: "symb_args pt d ?i op = Some (b, c)"
      and sop: "symb_op pt (sizecode pt) NO_REG d lst op (GETARG_A ?i) b c = Inr (Some r)"
    have nn: "0 \<le> GETARG_B ?i" "0 \<le> GETARG_C ?i" "0 \<le> GETARG_A ?i" "0 \<le> GETARG_Bx ?i"
      by (simp_all add: GETARG_B_def GETARG_C_def GETARG_A_def GETARG_Bx_def getfield_range)
    consider "getOpMode op = 0" | "getOpMode op = 1" | "getOpMode op = 2 \<and> getBMode op = 2"
      by (cases op) (auto simp: mode_table b_mode_table)
    then show ?thesis
    proof cases
      case 1
      with args have "checkArgMode pt (GETARG_B ?i) (getBMode op)" "checkArgMode pt (GETARG_C ?i) (getCMode op)"
        and bc: "b = GETARG_B ?i" "c = GETARG_C ?i"
        by (auto simp: symb_args_ABC)
      with 1 a sop nn show ?thesis
        unfolding word_ok_def op option.case bc
        by (cases op)
          (auto simp: mode_table b_mode_table c_mode_table uses symb_op_def Let_def checkreg_def
             list_all_iff EXTRA_STACK_def rbind_Inr_iff dest!: symb_call_Some split: if_splits)
    next
      case 2
      with args have "getBMode op = 3 \<longrightarrow> b < sizek pt" and bc: "b = GETARG_Bx ?i" "c = 0"
        by (auto simp: symb_args_ABx)
      with 2 a sop nn show ?thesis
        unfolding word_ok_def op option.case bc
        by (cases op)
          (auto simp: mode_table b_mode_table uses symb_op_def Let_def checkreg_def rbind_Inr_iff)
    next
      case 3
      with args have bc: "b = GETARG_sBx ?i" "c = 0" by (auto simp: symb_args_AsBx)
      from 3 a sop nn show ?thesis
        unfolding word_ok_def op option.case bc
        by (cases op)
          (auto simp: mode_table b_mode_table uses symb_op_def Let_def checkreg_def rbind_Inr_iff)
    qed
  qed
qed

subsection \<open>Acceptance\<close>

lemma setlist_word_op: "opcode_of (GET_OPCODE i) = Some op \<Longrightarrow> setlist_word i \<longleftrightarrow> op = OP_SETLIST \<and> GETARG_C i = 0"
  by (simp add: setlist_word_def has_op_decoded)

lemma symb_call_pos: "symb_call pt reg pc lst a b c = Inr (Some (pc', lst')) \<Longrightarrow> pc' = pc"
  by (auto simp: symb_call_def Let_def split: if_splits)

lemma symb_op_pos:
  assumes "symb_op pt lastpc NO_REG pc lst op a b c = Inr (Some (pc', lst'))"
  shows "pc' = (if op = OP_SETLIST \<and> c = 0 then pc + 1 else pc)"
    "op = OP_SETLIST \<Longrightarrow> c = 0 \<Longrightarrow> pc + 1 < sizecode pt - 1"
  using assms
  by (cases op; auto simp: symb_op_def symb_jump_def Let_def rbind_Inr_iff dest: symb_call_pos split: if_splits)+

lemma symb_args_C: "symb_args pt pc i op = Some (b, c) \<Longrightarrow> getOpMode op = 0 \<Longrightarrow> c = GETARG_C i"
  by (auto simp: symb_args_ABC)

lemma symb_step_op:
  assumes "symb_step pt lastpc reg pc lst = Inr (Some (pc', lst'))"
  shows "\<exists>op b c. opcode_of (GET_OPCODE (word pt pc)) = Some op \<and> symb_args pt pc (word pt pc) op = Some (b, c) \<and>
    symb_op pt lastpc reg pc (if testAMode op \<and> GETARG_A (word pt pc) = reg then pc else lst) op
      (GETARG_A (word pt pc)) b c = Inr (Some (pc', lst'))"
  using assms by (auto simp: symb_step_def code_at_def Let_def rbind_Inr_iff split: option.splits if_splits)

lemma symb_step_pos:
  assumes "symb_step pt lastpc NO_REG pc lst = Inr (Some (pc', lst'))"
  shows "pc' = (if setlist_word (word pt pc) then pc + 1 else pc)"
    "setlist_word (word pt pc) \<Longrightarrow> pc + 1 < sizecode pt - 1"
proof -
  from symb_step_op [OF assms] obtain op b c where op: "opcode_of (GET_OPCODE (word pt pc)) = Some op"
    and args: "symb_args pt pc (word pt pc) op = Some (b, c)"
    and sop: "symb_op pt lastpc NO_REG pc (if testAMode op \<and> GETARG_A (word pt pc) = NO_REG then pc else lst) op
      (GETARG_A (word pt pc)) b c = Inr (Some (pc', lst'))" by blast
  have "op = OP_SETLIST \<Longrightarrow> c = GETARG_C (word pt pc)" using args by (auto simp: mode_table intro: symb_args_C)
  with symb_op_pos [OF sop] op show "pc' = (if setlist_word (word pt pc) then pc + 1 else pc)"
    "setlist_word (word pt pc) \<Longrightarrow> pc + 1 < sizecode pt - 1"
    by (auto simp: setlist_word_op)
qed

lemma loop_passes:
  "symb_loop pt lastpc reg pc lst = Inr w \<Longrightarrow> w \<noteq> 0 \<Longrightarrow> reg = NO_REG \<Longrightarrow> lastpc = sizecode pt \<Longrightarrow>
   swept pt pc \<Longrightarrow> pc \<le> d \<Longrightarrow> d < sizecode pt \<Longrightarrow> swept pt d \<Longrightarrow> passes pt d"
proof (induction pt lastpc reg pc lst rule: symb_loop.induct)
  case (1 pt lastpc reg pc lst)
  then have lt: "pc < lastpc" by simp
  with "1.prems"(1) have "rbind (symb_step pt lastpc reg pc lst) (\<lambda>r. case r of None \<Rightarrow> Inr 0
      | Some (pc, lst) \<Rightarrow> symb_loop pt lastpc reg (pc + 1) lst) = Inr w"
    by (subst (asm) symb_loop.simps) simp
  with "1.prems"(2) obtain pc' lst' where step: "symb_step pt lastpc reg pc lst = Inr (Some (pc', lst'))"
    and rest: "symb_loop pt lastpc reg (pc' + 1) lst' = Inr w"
    by (auto split: option.splits)
  have pc': "pc' = (if setlist_word (word pt pc) then pc + 1 else pc)"
    using symb_step_pos(1) step "1.prems"(3) by simp
  have nx: "swept pt (pc' + 1)"
    using "1.prems"(5) swept_next [of pc pt] swept_count [of pt pc] by (auto simp: pc' swept_def add.assoc)
  show ?case
  proof (cases "pc' + 1 \<le> d")
    case True
    show ?thesis by (rule "1.IH" [OF lt step refl refl rest]) (use "1.prems" nx True in auto)
  next
    case False
    have "d = pc"
    proof (rule ccontr)
      assume "d \<noteq> pc"
      with False "1.prems"(6) have "setlist_word (word pt pc) \<and> d = pc + 1" by (auto simp: pc' split: if_splits)
      with swept_count [of pt pc] "1.prems"(5,8) show False by auto
    qed
    with step "1.prems"(3,4) show ?thesis by (auto simp: passes_def)
  qed
qed

text \<open>What acceptance comes to: the prototype passes \<open>precheck\<close> and every swept position passes its step.\<close>

definition checked :: "Proto \<Rightarrow> bool" where
  "checked pt \<longleftrightarrow> precheck pt \<and> (\<forall>d. swept pt d \<longrightarrow> d < sizecode pt \<longrightarrow> passes pt d)"

lemma checkcode_checked: "luaG_checkcode pt = Inr True \<Longrightarrow> checked pt"
  by (auto simp: luaG_checkcode_def symbexec_def rmap_Inr_iff checked_def swept_def
      intro!: loop_passes [where pc = 0] split: if_splits)

lemma checked_last:
  assumes "checked pt"
  shows "0 < sizecode pt" "has_op (word pt (sizecode pt - 1)) OP_RETURN" "swept pt (sizecode pt - 1)"
proof -
  show size: "0 < sizecode pt" and "has_op (word pt (sizecode pt - 1)) OP_RETURN"
    using assms by (simp_all add: checked_def precheck_def)
  show "swept pt (sizecode pt - 1)"
  proof (rule ccontr)
    assume "\<not> swept pt (sizecode pt - 1)"
    with not_swept [of "sizecode pt - 1" pt] size have d: "1 \<le> sizecode pt - 1"
      "swept pt (sizecode pt - 1 - 1)" "setlist_word (word pt (sizecode pt - 1 - 1))" by auto
    with assms have "passes pt (sizecode pt - 1 - 1)" by (simp add: checked_def)
    then obtain lst pc' lst' where "symb_step pt (sizecode pt) NO_REG (sizecode pt - 1 - 1) lst = Inr (Some (pc', lst'))"
      by (auto simp: passes_def)
    from symb_step_pos(2) [OF this d(3)] show False by simp
  qed
qed

abbreviation target :: "Proto \<Rightarrow> int \<Rightarrow> bool" where "target pt p \<equiv> swept pt p \<and> p < sizecode pt"

lemma target_read: "target pt p \<Longrightarrow> code_at pt p = Inr (word pt p)"
  by (simp add: swept_def code_at_def sizecode_def)

lemma checked_after:
  assumes "checked pt" "target pt d" "\<not> has_op (word pt d) OP_RETURN" "\<not> setlist_word (word pt d)"
  shows "target pt (d + 1)"
proof -
  have "d \<noteq> sizecode pt - 1" using checked_last [OF assms(1)] assms(3) by auto
  with assms show ?thesis by (auto simp: swept_def intro: swept_next [unfolded swept_def, THEN conjunct2])
qed

lemma checked_jump:
  assumes "checked pt" "target pt d" "opcode_of (GET_OPCODE (word pt d)) = Some op" "getOpMode op = 2"
  shows "target pt (d + 1 + GETARG_sBx (word pt d))"
proof -
  have "getBMode op = 2" using assms(4) by (cases op) (auto simp: mode_table b_mode_table)
  moreover have "passes pt d" using assms(1,2) by (simp add: checked_def)
  ultimately show ?thesis using assms(3,4) by (elim passesE) (auto simp: symb_args_AsBx)
qed

lemma checked_test:
  assumes "checked pt" "target pt d" "opcode_of (GET_OPCODE (word pt d)) = Some op" "testTMode op"
  shows "target pt (d + 1)" "target pt (d + 2)" "target pt (d + 2 + GETARG_sBx (word pt (d + 1)))"
proof -
  have "passes pt d" using assms(1,2) by (simp add: checked_def)
  then have jmp: "d + 2 < sizecode pt" "has_op (word pt (d + 1)) OP_JMP" using assms(3,4) by (auto elim: passesE)
  have "\<not> has_op (word pt d) OP_RETURN" "\<not> setlist_word (word pt d)"
    using assms(3,4) by (auto simp: has_op_decoded setlist_word_op testTMode_iff)
  with checked_after assms(1,2) show d1: "target pt (d + 1)" by blast
  have op: "opcode_of (GET_OPCODE (word pt (d + 1))) = Some OP_JMP"
    using jmp(2) by (simp add: has_op_def opcode_of_Some)
  then have "\<not> has_op (word pt (d + 1)) OP_RETURN" "\<not> setlist_word (word pt (d + 1))"
    by (auto simp: has_op_decoded setlist_word_op)
  with checked_after [OF assms(1) d1] show "target pt (d + 2)" by (simp add: add.assoc)
  have "getOpMode OP_JMP = 2" by (simp add: mode_table)
  from checked_jump [OF assms(1) d1 op this] show "target pt (d + 2 + GETARG_sBx (word pt (d + 1)))"
    by (simp add: add.assoc)
qed

lemma checked_pseudo:
  assumes "checked pt" "target pt d" "has_op (word pt d) OP_CLOSURE" "0 \<le> j"
    and "j \<le> uint (f_nups (f_p pt ! nat (GETARG_Bx (word pt d))))"
  shows "target pt (d + j) \<and> (0 < j \<longrightarrow> is_pseudo (word pt (d + j)))"
proof -
  let ?g = "f_p pt ! nat (GETARG_Bx (word pt d))"
  let ?n = "nat (uint (f_nups ?g))"
  have op: "opcode_of (GET_OPCODE (word pt d)) = Some OP_CLOSURE"
    using assms(3) by (simp add: has_op_def opcode_of_Some)
  have "passes pt d" using assms(1,2) by (simp add: checked_def)
  then have c: "d + uint (f_nups ?g) < sizecode pt"
      "list_all is_pseudo (take ?n (drop (nat (d + 1)) (f_code pt)))"
    using op by (auto elim!: passesE simp: symb_args_ABx mode_table symb_op_def rbind_Inr_iff Let_def)
  have d0: "0 \<le> d" using assms(2) by (simp add: swept_def)
  have ps: "is_pseudo (word pt (d + k))" if k: "1 \<le> k" "k \<le> uint (f_nups ?g)" for k
  proof -
    have lt: "nat (k - 1) < ?n" using k by (subst nat_less_eq_zless) auto
    moreover have "nat (k - 1) < length (f_code pt) - nat (d + 1)"
      using k c(1) d0 unfolding sizecode_def by linarith
    ultimately have "nat (k - 1) < length (take ?n (drop (nat (d + 1)) (f_code pt)))" by simp
    with c(2) have "is_pseudo (take ?n (drop (nat (d + 1)) (f_code pt)) ! nat (k - 1))"
      by (simp only: list_all_length)
    moreover have "nat (d + 1) + nat (k - 1) = nat (d + k)" using k d0 by simp
    moreover have "nat (d + 1) \<le> length (f_code pt)" using k c(1) d0 unfolding sizecode_def by linarith
    ultimately show ?thesis by (simp only: nth_take [OF lt] nth_drop)
  qed
  have "target pt (d + int i)" if "int i \<le> uint (f_nups ?g)" for i
    using that
  proof (induction i)
    case 0
    with assms(2) show ?case by simp
  next
    case (Suc i)
    then have t: "target pt (d + int i)" by simp
    have "\<not> setlist_word (word pt (d + int i))"
    proof (cases "i = 0")
      case True
      with op show ?thesis by (simp add: setlist_word_op)
    next
      case False
      with ps [of "int i"] Suc.prems show ?thesis
        by (auto simp: is_pseudo_def setlist_word_def has_op_def opnum_inj simp del: opnum.simps)
    qed
    with t have "swept pt (d + int i + 1)" by (intro swept_next) (simp_all add: swept_def)
    with Suc.prems c(1) show ?case by (simp add: algebra_simps)
  qed
  from this [of "nat j"] ps [of j] assms(4,5) show ?thesis by simp
qed

lemma checked_loadbool:
  assumes "checked pt" "target pt d" "has_op (word pt d) OP_LOADBOOL" "GETARG_C (word pt d) = 1"
  shows "target pt (d + 2)"
proof -
  have op: "opcode_of (GET_OPCODE (word pt d)) = Some OP_LOADBOOL"
    using assms(3) by (simp add: has_op_def opcode_of_Some)
  have "passes pt d" using assms(1,2) by (simp add: checked_def)
  then have "d + 2 < sizecode pt" "\<not> setlist_word (word pt (d + 1))"
    using op assms(4)
    by (auto elim!: passesE simp: symb_args_ABC mode_table symb_op_def rbind_Inr_iff code_at_def)
  with swept_next [of "d + 1" pt] assms(2) show ?thesis by (simp add: swept_def add.assoc)
qed

lemma checked_setlist:
  assumes "checked pt" "target pt d" "setlist_word (word pt d)"
  shows "d + 1 < sizecode pt" "target pt (d + 2)"
proof -
  have "passes pt d" using assms(1,2) by (simp add: checked_def)
  then obtain lst pc' lst' where "symb_step pt (sizecode pt) NO_REG d lst = Inr (Some (pc', lst'))"
    by (auto simp: passes_def)
  from symb_step_pos(2) [OF this assms(3)] have "d + 1 < sizecode pt - 1" .
  then show "d + 1 < sizecode pt" "target pt (d + 2)" using swept_count [of pt d] assms(2,3) by auto
qed

lemma checked_proto:
  assumes "checked pt" "target pt d" "has_op (word pt d) OP_CLOSURE"
  shows "aget (f_p pt) (GETARG_Bx (word pt d)) = Inr (f_p pt ! nat (GETARG_Bx (word pt d)))"
proof -
  have op: "opcode_of (GET_OPCODE (word pt d)) = Some OP_CLOSURE"
    using assms(3) by (simp add: has_op_def opcode_of_Some)
  have "passes pt d" using assms(1,2) by (simp add: checked_def)
  then have "GETARG_Bx (word pt d) < sizep pt"
    using op by (auto elim!: passesE simp: symb_args_ABx mode_table symb_op_def)
  then show ?thesis by (simp add: sizep_def GETARG_Bx_def getfield_range)
qed

lemma checked_next:
  assumes "checked pt" "strict_loadbool pt" "target pt d"
  shows "\<exists>ps. next_pcs pt d = Inr ps \<and> (\<forall>p\<in>set ps. target pt p)"
proof -
  let ?i = "word pt d"
  have "passes pt d" using assms(1,3) by (simp add: checked_def)
  then obtain op where op: "opcode_of (GET_OPCODE ?i) = Some op" by (auto elim: passesE)
  have at: "code_at pt d = Inr ?i" using assms(3) by (rule target_read)
  have hop: "has_op ?i m \<longleftrightarrow> op = m" for m using op by (rule has_op_decoded)
  have after: "op \<noteq> OP_RETURN \<Longrightarrow> \<not> setlist_word ?i \<Longrightarrow> target pt (d + 1)"
    using checked_after [OF assms(1,3)] by (simp add: hop)
  have jump: "getOpMode op = 2 \<Longrightarrow> target pt (d + 1 + GETARG_sBx ?i)"
    using checked_jump [OF assms(1,3) op] by simp
  have test: "testTMode op \<Longrightarrow> target pt (d + 1) \<and> target pt (d + 2) \<and> target pt (d + 2 + GETARG_sBx (word pt (d + 1)))"
    using checked_test [OF assms(1,3) op] by simp
  have setl: "setlist_word ?i \<Longrightarrow> code_at pt (d + 1) = Inr (word pt (d + 1)) \<and> target pt (d + 2)"
    using checked_setlist [OF assms(1,3)] assms(3) by (auto simp: code_at_def sizecode_def swept_def)
  have lbool: "op = OP_LOADBOOL \<Longrightarrow> GETARG_C ?i \<noteq> 0 \<Longrightarrow> target pt (d + 2)"
  proof -
    assume l: "op = OP_LOADBOOL" "GETARG_C ?i \<noteq> 0"
    have "?i \<in> set (f_code pt)" using assms(3) by (intro nth_mem) (auto simp: swept_def sizecode_def)
    with l assms(2) have "GETARG_C ?i \<le> 1" by (simp add: strict_loadbool_def hop)
    moreover have "0 \<le> GETARG_C ?i" by (simp add: GETARG_C_def getfield_range)
    ultimately show "target pt (d + 2)" using l checked_loadbool [OF assms(1,3)] by (simp add: hop)
  qed
  have clos: "op = OP_CLOSURE \<Longrightarrow> aget (f_p pt) (GETARG_Bx ?i) = Inr (f_p pt ! nat (GETARG_Bx ?i)) \<and>
      target pt (d + 1 + uint (f_nups (f_p pt ! nat (GETARG_Bx ?i))))"
  proof -
    assume c: "op = OP_CLOSURE"
    let ?n = "uint (f_nups (f_p pt ! nat (GETARG_Bx ?i)))"
    have en: "target pt (d + ?n)" and ps: "0 < ?n \<longrightarrow> is_pseudo (word pt (d + ?n))"
      using checked_pseudo [OF assms(1,3), of ?n] c by (auto simp: hop)
    have "\<not> has_op (word pt (d + ?n)) OP_RETURN \<and> \<not> setlist_word (word pt (d + ?n))"
    proof (cases "?n = 0")
      case True
      with c op show ?thesis by (simp add: hop setlist_word_op)
    next
      case False
      moreover have "0 \<le> ?n" by simp
      ultimately have "is_pseudo (word pt (d + ?n))" using ps by linarith
      then show ?thesis by (auto simp: is_pseudo_def setlist_word_def has_op_def opnum_inj simp del: opnum.simps)
    qed
    with checked_after [OF assms(1) en] have "target pt (d + 1 + ?n)" by (simp add: algebra_simps)
    with checked_proto [OF assms(1,3)] c show ?thesis by (simp add: hop)
  qed
  show ?thesis
    unfolding next_pcs_def at op rbind_simps Let_def option.case
    using after jump test setl lbool clos setlist_word_op [OF op] target_read [of pt "d + 1"]
    by (cases op) (auto simp: testTMode_iff mode_table add.assoc aget_in)
qed

lemma runs_target:
  assumes "runs pt pc" "checked pt" "strict_loadbool pt"
  shows "target pt pc"
  using assms
proof (induction rule: runs.induct)
  case start
  with checked_last(1) show ?case by simp
next
  case (advance pc ps pc')
  with checked_next [of pt pc] show ?case by auto
qed

lemma target_pc_ok:
  assumes "checked pt" "strict_loadbool pt" "target pt pc"
  shows "pc_ok pt pc"
proof -
  have "passes pt pc" using assms(1,3) by (simp add: checked_def)
  then have "word_ok pt (word pt pc)" by (rule passes_word)
  moreover have "captures_ok pt pc (word pt pc)"
    unfolding captures_ok_def
  proof (intro impI allI, elim conjE)
    fix j assume j: "has_op (word pt pc) OP_CLOSURE" "1 \<le> j" "j \<le> uint (f_nups (f_p pt ! nat (GETARG_Bx (word pt pc))))"
    with checked_pseudo [OF assms(1,3), of j] have t: "target pt (pc + j)" "is_pseudo (word pt (pc + j))" by auto
    then have "passes pt (pc + j)" using assms(1) by (simp add: checked_def)
    then have "word_ok pt (word pt (pc + j))" by (rule passes_word)
    with t(2) show "capture_ok pt (word pt (pc + j))"
      by (auto simp: is_pseudo_def has_op_def capture_ok_def word_ok_def vm_upvals_def vm_regs_def opnum_inj
          simp del: opnum.simps)
  qed
  moreover from checked_next [OF assms] obtain ps where "next_pcs pt pc = Inr ps" by blast
  ultimately show ?thesis using assms(3) by (auto simp: pc_ok_def swept_def)
qed

subsection \<open>Symbolic execution always returns\<close>

lemma chk_total: "(b \<Longrightarrow> \<exists>r. m = Inr r) \<Longrightarrow> \<exists>r. chk b m = Inr r"
  by (simp add: chk_def)

lemma checkopenop_total: "0 \<le> pc \<Longrightarrow> pc + 1 < sizecode pt \<Longrightarrow> \<exists>r. m = Inr r \<Longrightarrow> \<exists>r. checkopenop pt pc m = Inr r"
  by (auto simp: checkopenop_def chk_def code_at_def sizecode_def aget_in)

lemma symb_call_total: "0 \<le> pc \<Longrightarrow> pc + 1 < sizecode pt \<Longrightarrow> \<exists>r. symb_call pt reg pc lst a b c = Inr r"
  unfolding symb_call_def Let_def by (intro chk_total) (auto intro: checkopenop_total chk_total)

lemma symb_op_total:
  assumes "0 \<le> pc" "pc < sizecode pt" "op = OP_RETURN \<or> pc + 1 < sizecode pt" "symb_args pt pc i op = Some (b, c)"
  shows "\<exists>r. symb_op pt lastpc reg pc lst op a b c = Inr r"
proof -
  have bx: "0 \<le> GETARG_Bx i" by (simp add: GETARG_Bx_def getfield_range)
  have glob: "\<exists>k. aget (f_k pt) b = Inr k" if "op = OP_GETGLOBAL \<or> op = OP_SETGLOBAL"
    using that assms(4) bx by (auto simp: symb_args_ABx mode_table b_mode_table sizek_def aget_def)
  have clos: "\<exists>g. aget (f_p pt) b = Inr g" if "op = OP_CLOSURE" "b < sizep pt"
    using that assms(4) bx by (auto simp: symb_args_ABx mode_table sizep_def aget_def)
  have at: "pc + 2 < sizecode pt \<Longrightarrow> code_at pt (pc + 1) = Inr (word pt (pc + 1))"
    using assms(1) by (simp add: code_at_def sizecode_def)
  consider "op = OP_GETGLOBAL \<or> op = OP_SETGLOBAL" | "op = OP_CLOSURE" | "op = OP_VARARG" | "op = OP_LOADBOOL"
    | "op \<notin> {OP_GETGLOBAL, OP_SETGLOBAL, OP_CLOSURE, OP_VARARG, OP_LOADBOOL}" by blast
  then show ?thesis
  proof cases
    case 1
    with glob obtain k where k: "aget (f_k pt) b = Inr k" by blast
    from 1 show ?thesis by (elim disjE) (simp_all add: symb_op_def k chk_def)
  next
    case 2
    show ?thesis
    proof (cases "b < sizep pt")
      case True
      with clos 2 obtain g where g: "aget (f_p pt) b = Inr g" by blast
      from 2 show ?thesis by (simp add: symb_op_def g chk_def Let_def)
    qed (simp add: 2 symb_op_def chk_def)
  next
    case 3
    with assms(1,3) show ?thesis
      by (simp add: symb_op_def Let_def) (auto intro!: chk_total checkopenop_total)
  next
    case 4
    with at show ?thesis by (simp add: symb_op_def chk_def)
  next
    case 5
    with assms(1,3) show ?thesis
      by (cases op) (auto simp: symb_op_def Let_def intro!: chk_total symb_call_total)
  qed
qed

lemma precheck_last: "precheck pt \<Longrightarrow> 0 \<le> pc \<Longrightarrow> pc < sizecode pt \<Longrightarrow>
    opcode_of (GET_OPCODE (word pt pc)) = Some op \<Longrightarrow> op = OP_RETURN \<or> pc + 1 < sizecode pt"
  by (cases "pc = sizecode pt - 1") (auto simp: precheck_def has_op_decoded)

lemma symb_step_total:
  assumes "precheck pt" "0 \<le> pc" "pc < sizecode pt"
  shows "\<exists>r. symb_step pt lastpc reg pc lst = Inr r"
proof (cases "opcode_of (GET_OPCODE (word pt pc))")
  case None
  with assms show ?thesis by (simp add: symb_step_def code_at_def sizecode_def aget_in)
next
  case (Some op)
  have at: "code_at pt pc = Inr (word pt pc)" using assms by (simp add: code_at_def sizecode_def)
  have at1: "pc + 2 < sizecode pt \<Longrightarrow> code_at pt (pc + 1) = Inr (word pt (pc + 1))"
    using assms by (simp add: code_at_def sizecode_def)
  note total = symb_op_total [OF assms(2,3) precheck_last [OF assms Some]]
  show ?thesis
  proof (cases "symb_args pt pc (word pt pc) op")
    case None
    with Some at show ?thesis by (simp add: symb_step_def chk_def)
  next
    case (Some bc)
    obtain b c where bc: "bc = (b, c)" by (cases bc)
    with Some have args: "symb_args pt pc (word pt pc) op = Some (b, c)" by simp
    from total [OF this] show ?thesis
      unfolding symb_step_def at \<open>opcode_of _ = Some op\<close> args rbind_simps option.case Let_def prod.case
      using at1 by (auto simp: chk_def)
  qed
qed

lemma symb_op_indep:
  assumes "symb_op pt lastpc reg pc lst op a b c = Inr (Some r)"
  shows "\<exists>r'. symb_op pt lastpc' reg' pc lst' op a b c = Inr (Some r')"
  using assms
  by (cases op) (auto simp: symb_op_def symb_call_def Let_def rbind_Inr_iff split: if_splits)

lemma symb_step_passes:
  assumes "symb_step pt lastpc reg pc lst = Inr (Some r)"
  shows "passes pt pc"
proof -
  let ?i = "word pt pc"
  from assms obtain pc' lst' where "symb_step pt lastpc reg pc lst = Inr (Some (pc', lst'))" by (cases r) auto
  from symb_step_op [OF this] obtain op b c where op: "opcode_of (GET_OPCODE ?i) = Some op"
    and args: "symb_args pt pc ?i op = Some (b, c)"
    and "symb_op pt lastpc reg pc (if testAMode op \<and> GETARG_A ?i = reg then pc else lst) op
      (GETARG_A ?i) b c = Inr (Some (pc', lst'))" by blast
  from symb_op_indep [OF this(3)] obtain r' where
    "symb_op pt (sizecode pt) NO_REG pc (if testAMode op \<and> GETARG_A ?i = NO_REG then pc else lst) op
      (GETARG_A ?i) b c = Inr (Some r')" by blast
  with assms op args have "symb_step pt (sizecode pt) NO_REG pc lst = Inr (Some r')"
    by (auto simp: symb_step_def code_at_def Let_def rbind_Inr_iff split: if_splits)
  then show ?thesis unfolding passes_def by blast
qed

text \<open>A traced instruction: the final \<open>RETURN\<close>, or one that passed and, if it is a move, set the register.\<close>

definition traced :: "Proto \<Rightarrow> int \<Rightarrow> int \<Rightarrow> bool" where
  "traced pt reg d \<longleftrightarrow> 0 \<le> d \<and> d < sizecode pt \<and>
     (has_op (word pt d) OP_RETURN \<or>
      passes pt d \<and> (has_op (word pt d) OP_MOVE \<longrightarrow> GETARG_A (word pt d) = reg))"

lemma symb_op_last:
  "symb_op pt lastpc reg pc lst op a b c = Inr (Some (pc', lst')) \<Longrightarrow> lst' = lst \<or> lst' = pc \<and> op \<noteq> OP_MOVE"
  by (cases op) (auto simp: symb_op_def symb_call_def Let_def rbind_Inr_iff split: if_splits)

lemma symb_step_traced:
  assumes "symb_step pt lastpc reg pc lst = Inr (Some (pc', lst'))" "traced pt reg lst" "0 \<le> pc" "pc < sizecode pt"
  shows "traced pt reg lst'"
proof -
  from symb_step_op [OF assms(1)] obtain op b c where op: "opcode_of (GET_OPCODE (word pt pc)) = Some op"
    and sop: "symb_op pt lastpc reg pc (if testAMode op \<and> GETARG_A (word pt pc) = reg then pc else lst) op
      (GETARG_A (word pt pc)) b c = Inr (Some (pc', lst'))" by blast
  have "passes pt pc" using assms(1) by (rule symb_step_passes)
  moreover have "lst' = lst \<or> lst' = pc \<and> (op = OP_MOVE \<longrightarrow> GETARG_A (word pt pc) = reg)"
    using symb_op_last [OF sop] by (auto split: if_splits)
  ultimately show ?thesis using assms(2-) op by (auto simp: traced_def has_op_decoded)
qed

lemma symb_loop_traced:
  "precheck pt \<Longrightarrow> 0 \<le> pc \<Longrightarrow> lastpc \<le> sizecode pt \<Longrightarrow> traced pt reg lst \<Longrightarrow>
   symb_loop pt lastpc reg pc lst = Inr 0 \<or> (\<exists>d. traced pt reg d \<and> symb_loop pt lastpc reg pc lst = Inr (word pt d))"
proof (induction pt lastpc reg pc lst rule: symb_loop.induct)
  case (1 pt lastpc reg pc lst)
  show ?case
  proof (cases "pc < lastpc")
    case False
    with "1.prems"(4) have "symb_loop pt lastpc reg pc lst = Inr (word pt lst)"
      by (subst symb_loop.simps) (simp add: code_at_def sizecode_def traced_def)
    with "1.prems"(4) show ?thesis by blast
  next
    case True
    with "1.prems" have pc: "pc < sizecode pt" by simp
    from symb_step_total [OF "1.prems"(1,2) pc] obtain r where r: "symb_step pt lastpc reg pc lst = Inr r" by blast
    show ?thesis
    proof (cases r)
      case None
      with r True show ?thesis by (subst symb_loop.simps) simp
    next
      case (Some x)
      obtain pc' lst' where x: "x = (pc', lst')" by (cases x)
      with r Some have step: "symb_step pt lastpc reg pc lst = Inr (Some (pc', lst'))" by simp
      have eq: "symb_loop pt lastpc reg pc lst = symb_loop pt lastpc reg (pc' + 1) lst'"
        using True step by (subst symb_loop.simps) simp
      show ?thesis
        unfolding eq
        by (rule "1.IH" [OF True step refl refl])
           (use "1.prems" symb_step_advances [OF step] symb_step_traced [OF step "1.prems"(4,2) pc] in auto)
    qed
  qed
qed

lemma symbexec_traced:
  assumes "lastpc \<le> sizecode pt"
  shows "symbexec pt lastpc reg = Inr 0 \<or> (\<exists>d. traced pt reg d \<and> symbexec pt lastpc reg = Inr (word pt d))"
proof (cases "precheck pt")
  case True
  then have "traced pt reg (sizecode pt - 1)" by (simp add: traced_def precheck_def)
  from symb_loop_traced [OF True _ assms this] True show ?thesis by (simp add: symbexec_def)
qed (simp add: symbexec_def)

subsection \<open>Loaded functions\<close>

fun subprotos :: "Proto \<Rightarrow> Proto list" where
  "subprotos (Proto code ks ps lineinfo locvars upvalues source linedefined lastlinedefined
      nups numparams is_vararg maxstacksize) =
     Proto code ks ps lineinfo locvars upvalues source linedefined lastlinedefined
       nups numparams is_vararg maxstacksize # concat (map subprotos ps)"

definition accepts :: "Proto \<Rightarrow> bool" where "accepts pt \<longleftrightarrow> luaG_checkcode pt = Inr True"

lemma load_list_elem:
  "load_list n ld S = Inr (xs, S') \<Longrightarrow> x \<in> set xs \<Longrightarrow> \<exists>S1 S2. ld S1 = Inr (x, S2)"
  by (induction n arbitrary: S xs) (auto simp: rmap_Inr_iff split: prod.splits, blast)

lemma load_constants_elem:
  "LoadConstants nm lf S = Inr ((ks, ps), S') \<Longrightarrow> g \<in> set ps \<Longrightarrow> \<exists>S1 S2. lf S1 = Inr (g, S2)"
  by (auto simp: LoadConstants_def rmap_Inr_iff rbind_Inr_iff split: prod.splits dest: load_list_elem)

lemma LoadFunction_InrE:
  assumes "LoadFunction cc nm nc p S = Inr (f, S')"
  obtains source ks ps S1 S2 where "nc < LUAI_MAXCCALLS" "cc f" "f_p f = ps"
    "LoadConstants nm (LoadFunction cc nm (nc + 1) source) S1 = Inr ((ks, ps), S2)"
  using assms
  by (subst (asm) LoadFunction.simps)
    (auto simp: Let_def rmap_Inr_iff split: if_splits prod.splits)

lemma subprotos_unfold: "subprotos f = f # concat (map subprotos (f_p f))"
  by (cases f) simp

lemma load_function_checked:
  "LoadFunction cc nm nc p S = Inr (f, S') \<Longrightarrow> g \<in> set (subprotos f) \<Longrightarrow> cc g"
proof (induction "LUAI_MAXCCALLS - nc" arbitrary: nc p S f S' rule: less_induct)
  case less
  from less.prems(1) obtain source ks ps S1 S2 where f: "nc < LUAI_MAXCCALLS" "cc f" "f_p f = ps"
    "LoadConstants nm (LoadFunction cc nm (nc + 1) source) S1 = Inr ((ks, ps), S2)"
    by (rule LoadFunction_InrE)
  show ?case
  proof (cases "g = f")
    case True
    with f(2) show ?thesis by simp
  next
    case False
    with less.prems(2) f(3) obtain h where h: "h \<in> set ps" "g \<in> set (subprotos h)"
      by (subst (asm) subprotos_unfold) auto
    from load_constants_elem [OF f(4) h(1)] obtain T1 T2 where
      "LoadFunction cc nm (nc + 1) source T1 = Inr (h, T2)" by blast
    from less.hyps [OF _ this h(2)] f(1) show ?thesis by simp
  qed
qed

lemma undump_checked:
  assumes "luaU_undump cc nc Z buff name = Inr (f, S)" "g \<in> set (subprotos f)"
  shows "cc g"
  using assms by (auto simp: luaU_undump_def Let_def intro: load_function_checked)

text \<open>
  C29. Code that the loader lets through stays inside itself. For every function of a chunk that
  \<open>luaU_undump\<close> accepts with \<open>luaG_checkcode\<close> as its check, and every position that the interpreter can
  reach in it, by falling through, jumping, skipping a word after a test, a list size or the captures
  of a closure: the position is inside the code, the word there is an instruction, its registers lie in
  the frame (the generic loop's call in the spare slots above it), its constants, upvalues and
  prototypes exist, a global's name is a string, and a closure's captures name
  registers and upvalues that exist. It holds for code whose \<open>LOADBOOL\<close> instructions have a third operand of 0 or 1.
\<close>

theorem loaded_code_safe:
  assumes "luaU_undump accepts nc Z buff name = Inr (f, S)" "g \<in> set (subprotos f)"
    and "strict_loadbool g" "runs g pc"
  shows "pc_ok g pc"
proof -
  from undump_checked [OF assms(1,2)] have "checked g" by (simp add: accepts_def checkcode_checked)
  with runs_target [OF assms(4) this assms(3)] show ?thesis by (intro target_pc_ok assms(3))
qed

text \<open>A loop that counts to ten into a table, with a list of two chunks and a closure.\<close>

definition demo_code :: "Instruction list" where
  "demo_code =
    [CREATE_ABC (opnum OP_LOADBOOL) 0 1 1, CREATE_ABx (opnum OP_LOADK) 0 0,
     CREATE_ABx (opnum OP_FORPREP) 1 (131071 + 0),
     CREATE_ABx (opnum OP_FORLOOP) 1 (131071 - 1),
     CREATE_ABC (opnum OP_SETLIST) 0 2 0, 7,
     CREATE_ABx (opnum OP_CLOSURE) 1 0, CREATE_ABC (opnum OP_MOVE) 0 3 0,
     CREATE_ABC (opnum OP_TEST) 1 0 0, CREATE_ABx (opnum OP_JMP) 0 (131071 - 9),
     CREATE_ABC (opnum OP_RETURN) 0 1 0]"

definition demo_loop :: Proto where
  "demo_loop = Proto demo_code [KNumber 0]
     [Proto [CREATE_ABC (opnum OP_GETUPVAL) 0 0 0, CREATE_ABC (opnum OP_RETURN) 0 2 0] [] [] [] [] [] (Some ''@x'') 2 2 1 0 0 2]
     [] [] [] (Some ''@x'') 0 9 0 0 2 5"

lemma demo_accepted: "accepts demo_loop" "\<forall>g\<in>set (subprotos demo_loop). accepts g"
  by code_simp+

lemma demo_strict: "strict_loadbool demo_loop"
proof -
  have "list_all (\<lambda>i. has_op i OP_LOADBOOL \<longrightarrow> GETARG_C i \<le> 1) (f_code demo_loop)" by code_simp
  then show ?thesis by (simp add: strict_loadbool_def list_all_iff)
qed

lemma demo_next:
  "next_pcs demo_loop 0 = Inr [2]" "next_pcs demo_loop 2 = Inr [3]" "next_pcs demo_loop 3 = Inr [3, 4]"
  "next_pcs demo_loop 4 = Inr [6]" "next_pcs demo_loop 6 = Inr [8]" "next_pcs demo_loop 8 = Inr [1, 10]"
  by code_simp+

lemma demo_runs: "runs demo_loop 6" "runs demo_loop 10"
proof -
  have "runs demo_loop 2" by (rule runs.advance [OF runs.start demo_next(1)]) simp
  then have "runs demo_loop 3" by (rule runs.advance [OF _ demo_next(2)]) simp
  then have "runs demo_loop 4" by (rule runs.advance [OF _ demo_next(3)]) simp
  then show 6: "runs demo_loop 6" by (rule runs.advance [OF _ demo_next(4)]) simp
  then have "runs demo_loop 8" by (rule runs.advance [OF _ demo_next(5)]) simp
  then show "runs demo_loop 10" by (rule runs.advance [OF _ demo_next(6)]) simp
qed

lemma demo_loads:
  "\<exists>blocks S. luaU_undump accepts 0 (luaZ_init blocks) \<lparr>bcontents = [], buffsize = 0\<rparr> ''@x'' = Inr (demo_loop, S)"
proof -
  have "proto_ok accepts False (LUAI_MAXCCALLS - 0) None (Some ''=?'') demo_loop"
    using demo_accepted [unfolded demo_loop_def demo_code_def]
    by (simp add: demo_loop_def no_debug_def new_source_def demo_code_def LUAI_MAXCCALLS_def len_ok_def string_ok_def int_ok_def const_ok_def debug_ok_def)
  note ok = this
  obtain s bytes where dump: "luaU_dump demo_loop (\<lambda>b w. (0, w @ b)) [] False = (s, bytes)"
    by (metis prod.collapse)
  have blocks: "concat (takeWhile (\<lambda>b. b \<noteq> []) [bytes]) = bytes @ []" by simp
  have "has_sources demo_loop" by (simp add: demo_loop_def)
  with undump_dump_aux [OF ok _ dump blocks, of "\<lparr>bcontents = [], buffsize = 0\<rparr>" "''@x''"] show ?thesis
    by (intro exI [where x = "[bytes]"]) auto
qed

definition skip_proto :: Proto where
  "skip_proto = Proto [CREATE_ABC (opnum OP_LOADBOOL) 0 0 2, CREATE_ABC (opnum OP_RETURN) 0 1 0]
     [] [] [] [] [] (Some ''@x'') 0 0 0 0 0 2"

text \<open>
  The condition on \<open>LOADBOOL\<close> is needed. Without it there is accepted code that goes past its end. The interpreter skips a word for every
  third operand but 0, the checker looks at the word skipped to only when it is 1.
\<close>

lemma loadbool_runs_off: "accepts skip_proto \<and> runs skip_proto 2 \<and> \<not> pc_ok skip_proto 2"
proof -
  have "accepts skip_proto" "next_pcs skip_proto 0 = Inr [2]" "sizecode skip_proto = 2" by code_simp+
  then show ?thesis using runs.advance [OF runs.start, of skip_proto "[2]" 2] by (simp add: pc_ok_def)
qed

theorem loaded_code_safe_witness:
  "pc_ok demo_loop 6 \<and> pc_ok demo_loop 10"
proof -
  obtain blocks S where "luaU_undump accepts 0 (luaZ_init blocks) \<lparr>bcontents = [], buffsize = 0\<rparr> ''@x'' = Inr (demo_loop, S)"
    using demo_loads by blast
  from loaded_code_safe [OF this _ demo_strict] demo_runs show ?thesis by (simp add: subprotos_unfold [of demo_loop])
qed

end
