(* ===== verification/Table.thy ===== *)
theory Table
  imports Objects
begin

text \<open>
  \<open>lua/ltable.c\<close>: tables with an array part and a hash part, a chained scatter table whose colliding
  nodes are kept in one vector. A pointer to a node is its index in the vector and \<open>NULL\<close> is
  \<open>None\<close>; a pointer to a value is a \<open>slot\<close>, and the address of \<open>luaO_nilobject\<close> is \<open>SNil\<close>. The
  shared \<open>dummynode\<close> is a vector of one empty node with the flag \<open>tdummy\<close>. Accesses outside a vector
  and violated assertions are \<open>UB\<close>.

  \<open>N\<close> is the platform's \<open>lua_number2int\<close>. \<open>luaconf.h\<close> defines it in three ways: an \<open>fistp\<close> in
  assembler or the addition of a magic number into a union, both of which yield some \<open>int\<close> for every
  double, and the plain cast, which is undefined in C when the double is out of range, as \<open>Number\<close>
  has it. The keys of a table are arbitrary doubles, and the code applies the macro to every one of
  them before it compares the result with the key; it relies on the result for exact integers
  only. So here \<open>N\<close> is any total function, as for the first two definitions; for a plain cast
  that means the value the processor leaves, whatever it is.
\<close>

subsection \<open>Nodes and tables\<close>

text \<open>A key that the collector has cleared is \<open>Dead\<close>: its type is \<open>LUA_TDEADKEY\<close>, its pointer stays.\<close>

datatype TKey = Live TValue | Dead TValue

record Node =
  nval :: TValue
  nkey :: TKey
  nnext :: "nat option"

record LTable =
  tflags :: int
  tlsizenode :: nat
  tarray :: "TValue list"
  tnode :: "Node list"
  tdummy :: bool
  tlastfree :: int
  tsizearray :: int

datatype slot = SArr nat | SNode nat | SNil

definition MAXBITS :: nat where "MAXBITS = 26"
definition MAXASIZE :: int where "MAXASIZE = 2 ^ MAXBITS"

definition sizenode :: "LTable \<Rightarrow> nat" where "sizenode t = 2 ^ tlsizenode t"

definition ceillog2 :: "int \<Rightarrow> int" where
  "ceillog2 x = luaO_log2 (word_of_int (x - 1)) + 1"

definition empty_node :: Node where
  "empty_node = \<lparr>nval = Nil, nkey = Live Nil, nnext = None\<rparr>"

definition read_slot :: "LTable \<Rightarrow> slot \<Rightarrow> TValue res" where
  "read_slot t s = (case s of
     SArr i \<Rightarrow> aget (tarray t) (int i)
   | SNode i \<Rightarrow> rmap nval (aget (tnode t) (int i))
   | SNil \<Rightarrow> Inr Nil)"

text \<open>Writing to the shared constant or to the shared dummy node is undefined.\<close>

definition write_slot :: "LTable \<Rightarrow> slot \<Rightarrow> TValue \<Rightarrow> LTable res" where
  "write_slot t s v = (case s of
     SArr i \<Rightarrow> rmap (\<lambda>a. t\<lparr>tarray := a\<rparr>) (aput (tarray t) (int i) v)
   | SNode i \<Rightarrow>
       if tdummy t then Inl (UB ''write to a constant'')
       else rbind (aget (tnode t) (int i)) (\<lambda>n.
            rmap (\<lambda>ns. t\<lparr>tnode := ns\<rparr>) (aput (tnode t) (int i) (n\<lparr>nval := v\<rparr>)))
   | SNil \<Rightarrow> Inl (UB ''write to a constant''))"

subsection \<open>Main positions\<close>

definition hashpow2 :: "LTable \<Rightarrow> u32 \<Rightarrow> nat" where
  "hashpow2 t n = unat (n AND (word_of_nat (sizenode t) - 1))"

definition hashmod :: "LTable \<Rightarrow> u32 \<Rightarrow> nat" where
  "hashmod t n = unat n mod (nat ((int (sizenode t) - 1) OR 1))"

text \<open>\<open>hash\<close> of a string, as \<open>luaS_newlstr\<close> computes it.\<close>

function luaS_hash_loop :: "string \<Rightarrow> nat \<Rightarrow> nat \<Rightarrow> u32 \<Rightarrow> u32" where
  "luaS_hash_loop s step l1 h =
     (if l1 \<ge> step \<and> 0 < step then
        luaS_hash_loop s step (l1 - step)
          (h XOR (push_bit 5 h + drop_bit 2 h + of_char (s ! (l1 - 1))))
      else h)"
  by pat_completeness auto
termination by (relation "measure (\<lambda>(s, step, l1, h). l1)") auto

declare luaS_hash_loop.simps [simp del]

definition luaS_hash :: "string \<Rightarrow> u32" where
  "luaS_hash s = luaS_hash_loop s (length s div 32 + 1) (length s) (word_of_nat (length s))"

definition hashnum :: "LTable \<Rightarrow> lua_Number \<Rightarrow> nat" where
  "hashnum t n =
     (if luai_numeq n 0 then 0
      else hashmod t (ucast n + ucast (drop_bit 32 n)))"

text \<open>The position of a key; nil has none. The address of an object is its number.\<close>

definition main_index :: "LTable \<Rightarrow> TValue \<Rightarrow> nat" where
  "main_index t key = (case key of
     Number d \<Rightarrow> hashnum t d
   | Str s \<Rightarrow> hashpow2 t (luaS_hash s)
   | Boolean b \<Rightarrow> hashpow2 t (if b then 1 else 0)
   | LightUserdata p \<Rightarrow> hashmod t (word_of_nat p)
   | Table p \<Rightarrow> hashmod t (word_of_nat p)
   | Function p \<Rightarrow> hashmod t (word_of_nat p)
   | Userdata p \<Rightarrow> hashmod t (word_of_nat p)
   | Thread p \<Rightarrow> hashmod t (word_of_nat p)
   | Nil \<Rightarrow> 0)"

definition mainposition :: "LTable \<Rightarrow> TValue \<Rightarrow> nat res" where
  "mainposition t key = (if key = Nil then Inl (UB ''gcvalue of nil'') else Inr (main_index t key))"

definition arrayindex :: "(lua_Number \<Rightarrow> int) \<Rightarrow> TValue \<Rightarrow> int" where
  "arrayindex N key = (case key of
     Number n \<Rightarrow> if luai_numeq (dbl_of_int (N n)) n then N n else - 1
   | _ \<Rightarrow> - 1)"

subsection \<open>Search\<close>

text \<open>The walk along a chain; as long as the vector, as no chain that ends visits a node twice.\<close>

fun chain_find :: "nat \<Rightarrow> Node list \<Rightarrow> (Node \<Rightarrow> bool) \<Rightarrow> nat \<Rightarrow> nat option res" where
  "chain_find 0 ns P i = Inl (UB ''endless chain'')"
| "chain_find (Suc k) ns P i =
     rbind (aget ns (int i)) (\<lambda>n.
     if P n then Inr (Some i)
     else case nnext n of None \<Rightarrow> Inr None | Some j \<Rightarrow> chain_find k ns P j)"

definition find_from :: "LTable \<Rightarrow> (Node \<Rightarrow> bool) \<Rightarrow> nat \<Rightarrow> nat option res" where
  "find_from t P i = chain_find (length (tnode t)) (tnode t) P i"

definition node_slot :: "nat option \<Rightarrow> slot" where
  "node_slot r = (case r of Some i \<Rightarrow> SNode i | None \<Rightarrow> SNil)"

text \<open>The comparison of the index is unsigned, after a signed subtraction.\<close>

definition luaH_getnum :: "LTable \<Rightarrow> int \<Rightarrow> slot res" where
  "luaH_getnum t key =
     (if key - 1 < - (2 ^ 31) then Inl (UB ''signed overflow'')
      else if (key - 1) mod 2 ^ 32 < tsizearray t mod 2 ^ 32 then Inr (SArr (nat (key - 1)))
      else
        rmap node_slot (find_from t
          (\<lambda>n. case nkey n of Live (Number d) \<Rightarrow> luai_numeq d (dbl_of_int key) | _ \<Rightarrow> False)
          (hashnum t (dbl_of_int key))))"

definition luaH_getstr :: "LTable \<Rightarrow> string \<Rightarrow> slot res" where
  "luaH_getstr t key = rmap node_slot (find_from t (\<lambda>n. nkey n = Live (Str key)) (hashpow2 t (luaS_hash key)))"

definition key_is :: "TValue \<Rightarrow> Node \<Rightarrow> bool" where
  "key_is key n \<longleftrightarrow> (case nkey n of Live k \<Rightarrow> luaO_rawequalObj k key | Dead _ \<Rightarrow> False)"

definition luaH_get :: "(lua_Number \<Rightarrow> int) \<Rightarrow> LTable \<Rightarrow> TValue \<Rightarrow> slot res" where
  "luaH_get N t key =
     (let dflt = rbind (mainposition t key) (\<lambda>i. rmap node_slot (find_from t (key_is key) i)) in
      case key of
        Nil \<Rightarrow> Inr SNil
      | Str s \<Rightarrow> luaH_getstr t s
      | Number n \<Rightarrow> if luai_numeq (dbl_of_int (N n)) n then luaH_getnum t (N n) else dflt
      | _ \<Rightarrow> dflt)"

subsection \<open>Traversal\<close>

definition iscollectable :: "TValue \<Rightarrow> bool" where
  "iscollectable v \<longleftrightarrow> ttype v \<ge> 4"

definition findindex :: "(lua_Number \<Rightarrow> int) \<Rightarrow> LTable \<Rightarrow> TValue \<Rightarrow> int res" where
  "findindex N t key =
     (if key = Nil then Inr (- 1)
      else
        let i = arrayindex N key in
        if 0 < i \<and> i \<le> tsizearray t then Inr (i - 1)
        else
          rbind (mainposition t key) (\<lambda>m.
          rbind (find_from t (\<lambda>n. key_is key n \<or> iscollectable key \<and> nkey n = Dead key) m) (\<lambda>r.
          case r of
            Some i \<Rightarrow> Inr (int i + tsizearray t)
          | None \<Rightarrow> Inl (LuaError LUA_ERRRUN (''invalid key to '' @ [CHR 0x27] @ ''next'' @ [CHR 0x27])))))"

text \<open>The loops of \<open>luaH_next\<close>, from index \<open>i\<close> on with \<open>k\<close> indices to go.\<close>

fun next_array :: "LTable \<Rightarrow> nat \<Rightarrow> nat \<Rightarrow> (TValue \<times> TValue) option res" where
  "next_array t 0 i = Inr None"
| "next_array t (Suc k) i =
     rbind (aget (tarray t) (int i)) (\<lambda>v.
     if v \<noteq> Nil then Inr (Some (Number (dbl_of_int (int i + 1)), v)) else next_array t k (i + 1))"

fun next_hash :: "LTable \<Rightarrow> nat \<Rightarrow> nat \<Rightarrow> (TValue \<times> TValue) option res" where
  "next_hash t 0 i = Inr None"
| "next_hash t (Suc k) i =
     rbind (aget (tnode t) (int i)) (\<lambda>n.
     if nval n \<noteq> Nil then
       (case nkey n of Live v \<Rightarrow> Inr (Some (v, nval n)) | Dead _ \<Rightarrow> Inl (UB ''dead key with a value''))
     else next_hash t k (i + 1))"

definition luaH_next :: "(lua_Number \<Rightarrow> int) \<Rightarrow> LTable \<Rightarrow> TValue \<Rightarrow> (TValue \<times> TValue) option res" where
  "luaH_next N t key =
     rbind (findindex N t key) (\<lambda>i.
     let i = i + 1; na = tsizearray t in
     rbind (if i < na then next_array t (nat (na - i)) (nat i) else Inr None) (\<lambda>r.
     case r of
       Some e \<Rightarrow> Inr (Some e)
     | None \<Rightarrow>
         let i = max i na - na in next_hash t (sizenode t - nat i) (nat i)))"

subsection \<open>The new sizes\<close>

text \<open>The loop of \<open>computesizes\<close>: \<open>a\<close> elements so far, \<open>na\<close> of them for an array of size \<open>n\<close>.\<close>

function computesizes_loop :: "int list \<Rightarrow> int \<Rightarrow> nat \<Rightarrow> int \<Rightarrow> int \<Rightarrow> int \<Rightarrow> int \<Rightarrow> (int \<times> int) res" where
  "computesizes_loop nums narray i twotoi a na n =
     (if twotoi div 2 < narray then
        if i < length nums then
          let c = nums ! i;
              (a, na, n) = (if c > 0 then
                              (if a + c > twotoi div 2 then (a + c, a + c, twotoi) else (a + c, na, n))
                            else (a, na, n)) in
          if a = narray then Inr (na, n)
          else computesizes_loop nums narray (i + 1) (twotoi * 2) a na n
        else Inl (UB ''array read'')
      else Inr (na, n))"
  by pat_completeness auto
termination
  by (relation "measure (\<lambda>(nums, narray, i, twotoi, a, na, n). length nums - i)") auto

declare computesizes_loop.simps [simp del]

definition computesizes :: "int list \<Rightarrow> int \<Rightarrow> (int \<times> int) res" where
  "computesizes nums narray =
     rbind (computesizes_loop nums narray 0 1 0 0 0) (\<lambda>(na, n).
     if n div 2 \<le> na \<and> na \<le> n then Inr (na, n) else Inl (UB ''lua_assert''))"

text \<open>The result is whether the key was counted.\<close>

definition countint :: "(lua_Number \<Rightarrow> int) \<Rightarrow> TValue \<Rightarrow> int list \<Rightarrow> (int \<times> int list) res" where
  "countint N key nums =
     (let k = arrayindex N key in
      if 0 < k \<and> k \<le> MAXASIZE then
        rbind (aget nums (ceillog2 k)) (\<lambda>c.
        rmap (Pair 1) (aput nums (ceillog2 k) (c + 1)))
      else Inr (0, nums))"

fun count_slice :: "LTable \<Rightarrow> nat \<Rightarrow> int \<Rightarrow> int res" where
  "count_slice t 0 i = Inr 0"
| "count_slice t (Suc k) i =
     rbind (aget (tarray t) (i - 1)) (\<lambda>v.
     rmap (\<lambda>c. (if v \<noteq> Nil then 1 else 0) + c) (count_slice t k (i + 1)))"

text \<open>The slices from \<open>lg\<close> on, \<open>m\<close> of them to go; \<open>i\<close> is the first key that is not counted.\<close>

fun numusearray_loop :: "LTable \<Rightarrow> nat \<Rightarrow> nat \<Rightarrow> int \<Rightarrow> int list \<Rightarrow> int \<Rightarrow> (int \<times> int list) res" where
  "numusearray_loop t 0 lg i nums ause = Inr (ause, nums)"
| "numusearray_loop t (Suc m) lg i nums ause =
     (let ttlg = 2 ^ lg; lim = (if ttlg > tsizearray t then tsizearray t else ttlg) in
      if ttlg > tsizearray t \<and> i > lim then Inr (ause, nums)
      else
        rbind (count_slice t (nat (lim - i + 1)) i) (\<lambda>lc.
        rbind (aget nums (int lg)) (\<lambda>c.
        rbind (aput nums (int lg) (c + lc)) (\<lambda>nums.
        numusearray_loop t m (lg + 1) (max i (lim + 1)) nums (ause + lc)))))"

definition numusearray :: "LTable \<Rightarrow> int list \<Rightarrow> (int \<times> int list) res" where
  "numusearray t nums = numusearray_loop t (MAXBITS + 1) 0 1 nums 0"

text \<open>The nodes below \<open>i\<close>, from the last to the first.\<close>

fun numusehash_loop ::
  "(lua_Number \<Rightarrow> int) \<Rightarrow> LTable \<Rightarrow> nat \<Rightarrow> int list \<Rightarrow> int \<Rightarrow> int \<Rightarrow> (int \<times> int \<times> int list) res" where
  "numusehash_loop N t 0 nums totaluse ause = Inr (totaluse, ause, nums)"
| "numusehash_loop N t (Suc i) nums totaluse ause =
     rbind (aget (tnode t) (int i)) (\<lambda>n.
     if nval n \<noteq> Nil then
       (case nkey n of
          Live k \<Rightarrow> rbind (countint N k nums) (\<lambda>(c, nums).
            numusehash_loop N t i nums (totaluse + 1) (ause + c))
        | Dead _ \<Rightarrow> Inl (UB ''dead key with a value''))
     else numusehash_loop N t i nums totaluse ause)"

text \<open>The number of elements, and the counted keys added to \<open>nasize\<close>.\<close>

definition numusehash :: "(lua_Number \<Rightarrow> int) \<Rightarrow> LTable \<Rightarrow> int list \<Rightarrow> int \<Rightarrow> (int \<times> int \<times> int list) res" where
  "numusehash N t nums nasize =
     rmap (\<lambda>(totaluse, ause, nums). (totaluse, nasize + ause, nums)) (numusehash_loop N t (sizenode t) nums 0 0)"

definition setarrayvector :: "LTable \<Rightarrow> int \<Rightarrow> LTable" where
  "setarrayvector t sz =
     t\<lparr>tarray := take (nat (min (tsizearray t) sz)) (tarray t) @ replicate (nat (sz - tsizearray t)) Nil,
       tsizearray := sz\<rparr>"

definition setnodevector :: "LTable \<Rightarrow> int \<Rightarrow> LTable res" where
  "setnodevector t sz =
     (if sz = 0 then
        Inr (t\<lparr>tnode := [empty_node], tdummy := True, tlsizenode := 0, tlastfree := 0\<rparr>)
      else
        let lsize = ceillog2 sz in
        if lsize > int MAXBITS then Inl (LuaError LUA_ERRRUN ''table overflow'')
        else
          Inr (t\<lparr>tnode := replicate (2 ^ nat lsize) empty_node, tdummy := False,
                 tlsizenode := nat lsize, tlastfree := 2 ^ nat lsize\<rparr>))"

subsection \<open>Insertion\<close>

text \<open>
  \<open>getfreepos\<close>: the nodes below \<open>k\<close> are tried from the last to the first; the pointer is
  decremented once more when none is free.
\<close>

fun getfree_loop :: "Node list \<Rightarrow> nat \<Rightarrow> (nat option \<times> int) res" where
  "getfree_loop ns 0 = Inr (None, - 1)"
| "getfree_loop ns (Suc k) =
     rbind (aget ns (int k)) (\<lambda>n.
     if nkey n = Live Nil then Inr (Some k, int k) else getfree_loop ns k)"

definition getfreepos :: "LTable \<Rightarrow> (nat option \<times> LTable) res" where
  "getfreepos t =
     (if tlastfree t > 0
      then rmap (\<lambda>(r, l). (r, t\<lparr>tlastfree := l\<rparr>)) (getfree_loop (tnode t) (nat (tlastfree t)))
      else Inr (None, t\<lparr>tlastfree := tlastfree t - 1\<rparr>))"

text \<open>The node before \<open>mp\<close> in the chain from \<open>i\<close>.\<close>

fun find_previous :: "nat \<Rightarrow> Node list \<Rightarrow> nat \<Rightarrow> nat \<Rightarrow> nat res" where
  "find_previous 0 ns mp i = Inl (UB ''endless chain'')"
| "find_previous (Suc k) ns mp i =
     rbind (aget ns (int i)) (\<lambda>n.
     if nnext n = Some mp then Inr i
     else case nnext n of None \<Rightarrow> Inl (UB ''null pointer'') | Some j \<Rightarrow> find_previous k ns mp j)"

definition put_key :: "LTable \<Rightarrow> TValue \<Rightarrow> nat \<Rightarrow> (slot \<times> LTable) res" where
  "put_key t key mp =
     rbind (aget (tnode t) (int mp)) (\<lambda>m.
     if nval m \<noteq> Nil then Inl (UB ''lua_assert'')
     else
       rmap (\<lambda>ns. (SNode mp, t\<lparr>tnode := ns\<rparr>)) (aput (tnode t) (int mp) (m\<lparr>nkey := Live key\<rparr>)))"

text \<open>
  \<open>newkey\<close>, with the branch of the full table as a parameter: \<open>grow\<close> rehashes and sets the key
  again. In \<open>*n = *mp\<close> the node that was there moves with its chain pointer.
\<close>

definition newkey :: "(LTable \<Rightarrow> TValue \<Rightarrow> (slot \<times> LTable) res) \<Rightarrow> LTable \<Rightarrow> TValue \<Rightarrow> (slot \<times> LTable) res" where
  "newkey grow t key =
     rbind (mainposition t key) (\<lambda>mp.
     rbind (aget (tnode t) (int mp)) (\<lambda>m.
     if nval m \<noteq> Nil \<or> tdummy t then
       rbind (getfreepos t) (\<lambda>(r, t).
       case r of
         None \<Rightarrow> grow t key
       | Some n \<Rightarrow>
           if tdummy t then Inl (UB ''lua_assert'')
           else
             rbind (case nkey m of Live k \<Rightarrow> mainposition t k | Dead _ \<Rightarrow> Inl (UB ''dead key with a value'')) (\<lambda>othern.
             if othern \<noteq> mp then
               rbind (find_previous (length (tnode t)) (tnode t) mp othern) (\<lambda>prev.
               rbind (aget (tnode t) (int prev)) (\<lambda>p.
               let ns = (tnode t)[prev := p\<lparr>nnext := Some n\<rparr>, n := m, mp := m\<lparr>nnext := None, nval := Nil\<rparr>] in
               put_key (t\<lparr>tnode := ns\<rparr>) key mp))
             else
               rbind (aget (tnode t) (int n)) (\<lambda>f.
               let ns = (tnode t)[n := f\<lparr>nnext := nnext m\<rparr>, mp := m\<lparr>nnext := Some n\<rparr>] in
               put_key (t\<lparr>tnode := ns\<rparr>) key n)))
     else put_key t key mp))"

definition set_with ::
  "(lua_Number \<Rightarrow> int) \<Rightarrow> (LTable \<Rightarrow> TValue \<Rightarrow> (slot \<times> LTable) res) \<Rightarrow> LTable \<Rightarrow> TValue \<Rightarrow> (slot \<times> LTable) res" where
  "set_with N grow t key =
     rbind (luaH_get N t key) (\<lambda>p.
     let t = t\<lparr>tflags := 0\<rparr> in
     if p \<noteq> SNil then Inr (p, t)
     else if key = Nil then Inl (LuaError LUA_ERRRUN ''table index is nil'')
     else if (case key of Number d \<Rightarrow> luai_numisnan d | _ \<Rightarrow> False)
       then Inl (LuaError LUA_ERRRUN ''table index is NaN'')
     else newkey grow t key)"

definition setnum_with ::
  "(LTable \<Rightarrow> TValue \<Rightarrow> (slot \<times> LTable) res) \<Rightarrow> LTable \<Rightarrow> int \<Rightarrow> (slot \<times> LTable) res" where
  "setnum_with grow t key =
     rbind (luaH_getnum t key) (\<lambda>p.
     if p \<noteq> SNil then Inr (p, t) else newkey grow t (Number (dbl_of_int key)))"

definition store_at :: "TValue \<Rightarrow> (slot \<times> LTable) res \<Rightarrow> LTable res" where
  "store_at v r = rbind r (\<lambda>(s, t). write_slot t s v)"

subsection \<open>Rehash\<close>

text \<open>The two loops of \<open>resize\<close> that insert the elements again; \<open>arr\<close> and \<open>nold\<close> are the old vectors.\<close>

fun reinsert_array ::
  "(LTable \<Rightarrow> TValue \<Rightarrow> (slot \<times> LTable) res) \<Rightarrow> TValue list \<Rightarrow> nat \<Rightarrow> nat \<Rightarrow> LTable \<Rightarrow> LTable res" where
  "reinsert_array grow arr 0 i t = Inr t"
| "reinsert_array grow arr (Suc k) i t =
     rbind (aget arr (int i)) (\<lambda>v.
     rbind (if v \<noteq> Nil then store_at v (setnum_with grow t (int i + 1)) else Inr t)
       (reinsert_array grow arr k (i + 1)))"

fun reinsert_hash ::
  "(lua_Number \<Rightarrow> int) \<Rightarrow> (LTable \<Rightarrow> TValue \<Rightarrow> (slot \<times> LTable) res) \<Rightarrow> Node list \<Rightarrow> nat \<Rightarrow> LTable \<Rightarrow> LTable res" where
  "reinsert_hash N grow nold 0 t = Inr t"
| "reinsert_hash N grow nold (Suc i) t =
     rbind (aget nold (int i)) (\<lambda>old.
     rbind (if nval old \<noteq> Nil then
              (case nkey old of
                 Live k \<Rightarrow> store_at (nval old) (set_with N grow t k)
               | Dead _ \<Rightarrow> Inl (UB ''dead key with a value''))
            else Inr t)
       (reinsert_hash N grow nold i))"

definition resize ::
  "(lua_Number \<Rightarrow> int) \<Rightarrow> (LTable \<Rightarrow> TValue \<Rightarrow> (slot \<times> LTable) res) \<Rightarrow> LTable \<Rightarrow> int \<Rightarrow> int \<Rightarrow> LTable res" where
  "resize N grow t nasize nhsize =
     (let oldasize = tsizearray t; oldhsize = tlsizenode t; nold = tnode t;
          t = (if nasize > oldasize then setarrayvector t nasize else t) in
      rbind (setnodevector t nhsize) (\<lambda>t.
      rbind
        (if nasize < oldasize then
           let t = t\<lparr>tsizearray := nasize\<rparr> in
           rbind (reinsert_array grow (tarray t) (nat (oldasize - nasize)) (nat nasize) t) (\<lambda>t.
           Inr (t\<lparr>tarray := take (nat nasize) (tarray t)\<rparr>))
         else Inr t)
        (reinsert_hash N grow nold (2 ^ oldhsize))))"

definition rehash ::
  "(lua_Number \<Rightarrow> int) \<Rightarrow> (LTable \<Rightarrow> TValue \<Rightarrow> (slot \<times> LTable) res) \<Rightarrow> LTable \<Rightarrow> TValue \<Rightarrow> LTable res" where
  "rehash N grow t ek =
     rbind (numusearray t (replicate (MAXBITS + 1) 0)) (\<lambda>(nasize, nums).
     let totaluse = nasize in
     rbind (numusehash N t nums nasize) (\<lambda>(use, nasize, nums).
     let totaluse = totaluse + use in
     rbind (countint N ek nums) (\<lambda>(c, nums).
     let nasize = nasize + c; totaluse = totaluse + 1 in
     rbind (computesizes nums nasize) (\<lambda>(na, nasize).
     resize N grow t nasize (totaluse - na)))))"

text \<open>
  The recursion of \<open>newkey\<close>, \<open>rehash\<close>, \<open>resize\<close> and \<open>luaH_set\<close>, bounded by a depth: a rehash makes
  room, so that the elements it inserts again and the new key do not rehash again.
\<close>

fun grow :: "(lua_Number \<Rightarrow> int) \<Rightarrow> nat \<Rightarrow> LTable \<Rightarrow> TValue \<Rightarrow> (slot \<times> LTable) res" where
  "grow N 0 t key = Inl (UB ''endless recursion'')"
| "grow N (Suc d) t key = rbind (rehash N (grow N d) t key) (\<lambda>t. set_with N (grow N d) t key)"

definition GROW_DEPTH :: nat where "GROW_DEPTH = 1"

definition luaH_set :: "(lua_Number \<Rightarrow> int) \<Rightarrow> LTable \<Rightarrow> TValue \<Rightarrow> (slot \<times> LTable) res" where
  "luaH_set N t key = set_with N (grow N GROW_DEPTH) t key"

definition luaH_setnum :: "(lua_Number \<Rightarrow> int) \<Rightarrow> LTable \<Rightarrow> int \<Rightarrow> (slot \<times> LTable) res" where
  "luaH_setnum N t key = setnum_with (grow N GROW_DEPTH) t key"

definition luaH_setstr :: "(lua_Number \<Rightarrow> int) \<Rightarrow> LTable \<Rightarrow> string \<Rightarrow> (slot \<times> LTable) res" where
  "luaH_setstr N t key =
     rbind (luaH_getstr t key) (\<lambda>p.
     if p \<noteq> SNil then Inr (p, t) else newkey (grow N GROW_DEPTH) t (Str key))"

definition luaH_resizearray :: "(lua_Number \<Rightarrow> int) \<Rightarrow> LTable \<Rightarrow> int \<Rightarrow> LTable res" where
  "luaH_resizearray N t nasize =
     resize N (grow N GROW_DEPTH) t nasize (if tdummy t then 0 else int (sizenode t))"

definition luaH_new :: "int \<Rightarrow> int \<Rightarrow> LTable res" where
  "luaH_new narray nhash =
     setnodevector (setarrayvector
       \<lparr>tflags = 255, tlsizenode = 0, tarray = [], tnode = [empty_node], tdummy = True, tlastfree = 0,
        tsizearray = 0\<rparr> narray) nhash"

subsection \<open>Boundaries\<close>

definition is_nil_at :: "LTable \<Rightarrow> int \<Rightarrow> bool res" where
  "is_nil_at t key = rbind (luaH_getnum t key) (\<lambda>s. rmap (\<lambda>v. v = Nil) (read_slot t s))"

text \<open>The binary searches: over the array part, and over all integer keys.\<close>

function array_search :: "LTable \<Rightarrow> int \<Rightarrow> int \<Rightarrow> int res" where
  "array_search t i j =
     (if j - i > 1 then
        let m = (i + j) div 2 in
        rbind (aget (tarray t) (m - 1)) (\<lambda>v.
        if v = Nil then array_search t i m else array_search t m j)
      else Inr i)"
  by pat_completeness auto
termination by (relation "measure (\<lambda>(t, i, j). nat (j - i))") auto

function key_search :: "LTable \<Rightarrow> int \<Rightarrow> int \<Rightarrow> int res" where
  "key_search t i j =
     (if j - i > 1 then
        let m = (i + j) div 2 in
        rbind (is_nil_at t m) (\<lambda>b. if b then key_search t i m else key_search t m j)
      else Inr i)"
  by pat_completeness auto
termination by (relation "measure (\<lambda>(t, i, j). nat (j - i))") auto

text \<open>The linear search; a table has no more keys in a row than slots.\<close>

fun linear_search :: "nat \<Rightarrow> LTable \<Rightarrow> int \<Rightarrow> int res" where
  "linear_search 0 t i = Inl (UB ''endless search'')"
| "linear_search (Suc k) t i =
     rbind (is_nil_at t i) (\<lambda>b. if b then Inr (i - 1) else linear_search k t (i + 1))"

function unbound_loop :: "LTable \<Rightarrow> int \<Rightarrow> int \<Rightarrow> int res" where
  "unbound_loop t i j =
     (if j \<le> 0 then Inl (UB ''not a key'')
      else
        rbind (is_nil_at t j) (\<lambda>b.
        if b then key_search t i j
        else if j * 2 > MAX_INT then linear_search (length (tarray t) + length (tnode t) + 1) t 1
        else unbound_loop t j (j * 2)))"
  by pat_completeness auto
termination by (relation "measure (\<lambda>(t, i, j). nat (MAX_INT - j))") (auto simp: MAX_INT_def)

declare array_search.simps [simp del] key_search.simps [simp del] unbound_loop.simps [simp del]

definition unbound_search :: "LTable \<Rightarrow> int \<Rightarrow> int res" where
  "unbound_search t j = unbound_loop t j (j + 1)"

definition luaH_getn :: "LTable \<Rightarrow> int res" where
  "luaH_getn t =
     (let j = tsizearray t;
          hash = (if tdummy t then Inr j else unbound_search t j) in
      if j > 0 then
        rbind (aget (tarray t) (j - 1)) (\<lambda>v. if v = Nil then array_search t 0 j else hash)
      else hash)"

end
