(* ===== verification/TableInv.thy ===== *)
theory TableInv
  imports Table
begin

text \<open>
  Tables refine maps. The invariant \<open>chains\<close> of the hash part says that every node whose key is set
  can be reached from the main position of its key, that the node in a main position is in its own
  one, and that the chains are acyclic and do not merge. Searching, the three ways of inserting a
  key and the rehash keep it, and act on the abstract map as look-up and update.
\<close>

subsection \<open>Keys\<close>

definition cvt_ok :: "(lua_Number \<Rightarrow> int) \<Rightarrow> bool" where
  "cvt_ok N \<longleftrightarrow> (\<forall>d k. - (2 ^ 31) \<le> k \<and> k < 2 ^ 31 \<and> luai_numeq (dbl_of_int k) d \<longrightarrow> N d = k) \<and>
     (\<forall>d. - (2 ^ 31) \<le> N d \<and> N d < 2 ^ 31)"

text \<open>The key \<open>- 2 ^ 31\<close> makes the subtraction of \<open>luaH_getnum\<close> overflow.\<close>

definition key_ok :: "TValue \<Rightarrow> bool" where
  "key_ok k \<longleftrightarrow> k \<noteq> Nil \<and>
     (\<forall>d. k = Number d \<longrightarrow> \<not> luai_numisnan d \<and> \<not> luai_numeq (dbl_of_int (- (2 ^ 31))) d)"

lemma dbl_of_int_numeq: "\<bar>k\<bar> < 2 ^ 53 \<Longrightarrow> luai_numeq (dbl_of_int k) (dbl_of_int k)"
proof -
  assume "\<bar>k\<bar> < 2 ^ 53"
  then have "dbl_expo (dbl_of_int k) \<noteq> 2047" using dbl_int_exact [of k] by (auto simp: dbl_trunc_def)
  then have "\<not> dbl_isnan (dbl_of_int k)" by (simp add: dbl_isnan_def)
  then show ?thesis by (simp add: luai_numeq_def)
qed

lemma cvt_of_int: "cvt_ok N \<Longrightarrow> - (2 ^ 31) \<le> k \<Longrightarrow> k < 2 ^ 31 \<Longrightarrow> N (dbl_of_int k) = k"
  using dbl_of_int_numeq [of k] by (auto simp: cvt_ok_def)

lemma dbl_of_int_0: "dbl_of_int 0 = 0"
  by code_simp

lemma tkey_simps [simp]:
  "tkey Nil = Nil" "tkey (Str s) = Str s" "tkey (Boolean b) = Boolean b" "tkey k = Nil \<longleftrightarrow> k = Nil" "Nil = tkey k \<longleftrightarrow> k = Nil"
  by (auto simp: tkey_def split: TValue.splits)

lemma arrayindex_tkey:
  assumes "cvt_ok N" shows "arrayindex N (tkey k) = arrayindex N k"
proof (cases k)
  case (Number d)
  have z: "N e = 0" if "luai_numeq e 0" for e
    using assms that by (auto simp: cvt_ok_def dbl_of_int_0 numeq_sym)
  then show ?thesis
    by (simp add: Number tkey_def arrayindex_def z dbl_of_int_0 numeq_sym)
qed (simp_all add: tkey_def)

lemma hashnum_tnode [simp]:
  "main_index (t\<lparr>tnode := x\<rparr>) k = main_index t k" "main_index (t\<lparr>tlastfree := l\<rparr>) k = main_index t k"
  "main_index (t\<lparr>tflags := fl\<rparr>) k = main_index t k" "main_index (t\<lparr>tarray := a\<rparr>) k = main_index t k"
  by (simp_all add: main_index_def hashnum_def hashmod_def hashpow2_def sizenode_def split: TValue.split)

lemma main_index_tkey: "main_index t (tkey k) = main_index t k"
  by (auto simp: tkey_def main_index_def hashnum_def split: TValue.splits)

lemma main_index_range: "main_index t k < sizenode t" if "tlsizenode t \<le> 26"
proof -
  let ?n = "sizenode t"
  have n: "0 < ?n" "?n \<le> 2 ^ 26"
    using power_increasing [OF that, of "2::nat"] by (simp_all add: sizenode_def)
  have p: "hashpow2 t x < ?n" for x
  proof -
    have "unat (word_of_nat ?n - 1 :: u32) = ?n - 1"
      using n by (subst unat_sub) (simp_all add: word_le_nat_alt unat_of_nat)
    moreover have "unat (x AND (word_of_nat ?n - 1)) \<le> unat (word_of_nat ?n - 1 :: u32)"
      by (simp add: word_and_le1 flip: word_le_nat_alt)
    ultimately show ?thesis using n by (simp add: hashpow2_def)
  qed
  have m: "hashmod t x < ?n" for x
  proof (cases "tlsizenode t")
    case 0
    then show ?thesis by (simp add: hashmod_def sizenode_def)
  next
    case (Suc k)
    then have o: "(int ?n - 1) OR 1 = int ?n - 1" by (simp add: or_one_eq sizenode_def)
    have "1 < ?n" using power_increasing [of 1 "tlsizenode t" "2::nat"] Suc by (simp add: sizenode_def del: power_Suc)
    then have "unat x mod (?n - 1) < ?n - 1" by simp
    moreover have "nat (int ?n - 1) = ?n - 1" by simp
    ultimately show ?thesis unfolding hashmod_def o by (metis diff_le_self less_le_trans)
  qed
  show ?thesis using n p m by (auto simp: main_index_def hashnum_def split: TValue.split)
qed

subsection \<open>Chains\<close>

text \<open>The nodes \<open>c\<close> follow each other, the last one is followed by \<open>e\<close>.\<close>

fun path :: "Node list \<Rightarrow> nat list \<Rightarrow> nat option \<Rightarrow> bool" where
  "path ns [] e \<longleftrightarrow> True"
| "path ns (x # r) e \<longleftrightarrow>
     x < length ns \<and> nnext (ns ! x) = (case r of [] \<Rightarrow> e | y # _ \<Rightarrow> Some y) \<and> path ns r e"

definition used :: "Node \<Rightarrow> bool" where "used n \<longleftrightarrow> nkey n \<noteq> Live Nil"

fun key_of :: "TKey \<Rightarrow> TValue" where
  "key_of (Live k) = k"
| "key_of (Dead k) = k"

definition reach :: "nat list list \<Rightarrow> nat \<Rightarrow> nat \<Rightarrow> bool" where
  "reach cs a i \<longleftrightarrow> (\<exists>c\<in>set cs. \<exists>xs ys. c = xs @ a # ys \<and> i \<in> set (a # ys))"

lemma path_bound: "path ns c e \<Longrightarrow> i \<in> set c \<Longrightarrow> i < length ns"
  by (induction c) auto

lemma path_append: "path ns (xs @ y # ys) e \<longleftrightarrow> path ns xs (Some y) \<and> path ns (y # ys) e"
  by (induction xs) (auto split: list.splits)

lemma path_cong:
  "(\<And>i. i \<in> set c \<Longrightarrow> nnext (ns' ! i) = nnext (ns ! i)) \<Longrightarrow> length ns' = length ns \<Longrightarrow> path ns' c e = path ns c e"
  by (induction c) auto

lemma path_retarget:
  "path ns (xs @ [x]) e \<Longrightarrow> length ns' = length ns \<Longrightarrow>
   (\<And>i. i \<in> set xs \<Longrightarrow> nnext (ns' ! i) = nnext (ns ! i)) \<Longrightarrow> nnext (ns' ! x) = e' \<Longrightarrow> path ns' (xs @ [x]) e'"
proof (induction xs)
  case (Cons a xs)
  then show ?case by (cases xs) simp_all
qed simp

lemma chain_find_path:
  "path ns (i # c) None \<Longrightarrow> length (i # c) \<le> k \<Longrightarrow>
   chain_find k ns P i = Inr (find (\<lambda>j. P (ns ! j)) (i # c))"
proof (induction c arbitrary: i k)
  case Nil
  then obtain k' where "k = Suc k'" by (cases k) auto
  with Nil show ?case by (simp add: aget_in)
next
  case (Cons j c)
  then obtain k' where "k = Suc k'" by (cases k) auto
  with Cons show ?case by (simp add: aget_in)
qed

lemma find_previous_path:
  "path ns (xs @ p # mp # ys) e \<Longrightarrow> distinct (xs @ p # mp # ys) \<Longrightarrow> length xs < k \<Longrightarrow>
   find_previous k ns mp (hd (xs @ [p])) = Inr p"
proof (induction xs arbitrary: k)
  case Nil
  then obtain k' where "k = Suc k'" by (cases k) auto
  with Nil show ?case by (simp add: aget_in)
next
  case (Cons x xs)
  then obtain k' where k: "k = Suc k'" by (cases k) auto
  define y where "y = hd (xs @ [p])"
  from Cons.prems have "path ns (x # y # tl (xs @ [p]) @ mp # ys) e"
    by (cases xs) (auto simp: y_def)
  then have "x < length ns" "nnext (ns ! x) = Some y" by auto
  moreover have "y \<noteq> mp" using Cons.prems by (cases xs) (auto simp: y_def)
  moreover have "find_previous k' ns mp y = Inr p"
    using Cons.IH [of k'] Cons.prems k by (cases xs) (auto simp: y_def)
  ultimately show ?case by (simp add: k aget_in)
qed

text \<open>\<open>M\<close> is the main position of a key.\<close>

definition chained :: "Node list \<Rightarrow> nat list list \<Rightarrow> bool" where
  "chained ns cs \<longleftrightarrow>
     distinct (concat cs) \<and> set (concat cs) = {i. i < length ns \<and> used (ns ! i)} \<and> (\<forall>c\<in>set cs. path ns c None)"

definition homed :: "(TValue \<Rightarrow> nat) \<Rightarrow> Node list \<Rightarrow> nat list list \<Rightarrow> bool" where
  "homed M ns cs \<longleftrightarrow>
     (\<forall>i<length ns. used (ns ! i) \<longrightarrow>
        reach cs (M (key_of (nkey (ns ! i)))) i \<and>
        M (key_of (nkey (ns ! M (key_of (nkey (ns ! i)))))) = M (key_of (nkey (ns ! i))))"

definition nodes_ok :: "Node list \<Rightarrow> bool" where
  "nodes_ok ns \<longleftrightarrow>
     (\<forall>n\<in>set ns. (\<not> used n \<longrightarrow> n = empty_node) \<and> (\<forall>k. nkey n = Live k \<and> k \<noteq> Nil \<longrightarrow> key_ok k) \<and>
        (\<forall>k. nkey n = Dead k \<longrightarrow> nval n = Nil \<and> k \<noteq> Nil)) \<and>
     (\<forall>i<length ns. \<forall>j<length ns. \<forall>k l. nkey (ns ! i) = Live k \<and> nkey (ns ! j) = Live l \<and> k \<noteq> Nil \<and> tkey k = tkey l \<longrightarrow> i = j)"

definition hash_ok :: "(TValue \<Rightarrow> nat) \<Rightarrow> Node list \<Rightarrow> bool" where
  "hash_ok M ns \<longleftrightarrow> nodes_ok ns \<and> (\<exists>cs. chained ns cs \<and> homed M ns cs)"

text \<open>The value of a key in the hash part.\<close>

definition hget :: "Node list \<Rightarrow> TValue \<Rightarrow> TValue" where
  "hget ns k = (case find (key_is k) ns of Some n \<Rightarrow> nval n | None \<Rightarrow> Nil)"

lemma distinct_split:
  "distinct (xs @ a # ys) \<Longrightarrow> xs @ a # ys = xs' @ a # ys' \<Longrightarrow> xs' = xs \<and> ys' = ys"
  by (metis append_Cons_eq_iff distinct.simps(2) distinct_append not_distinct_conv_prefix)

lemma concat_same:
  "distinct (concat cs) \<Longrightarrow> c \<in> set cs \<Longrightarrow> d \<in> set cs \<Longrightarrow> a \<in> set c \<Longrightarrow> a \<in> set d \<Longrightarrow> c = d"
  by (induction cs) auto

lemma reachD:
  assumes "distinct (concat cs)" "xs @ a # ys \<in> set cs" "reach cs a i"
  shows "i \<in> set (a # ys)"
proof -
  obtain c xs' ys' where c: "c \<in> set cs" "c = xs' @ a # ys'" "i \<in> set (a # ys')"
    using assms(3) unfolding reach_def by blast
  have e: "c = xs @ a # ys" using concat_same [OF assms(1) c(1) assms(2), of a] c(2) by simp
  have "distinct (xs @ a # ys)" using assms(1,2) unfolding distinct_concat_iff by blast
  moreover have "xs @ a # ys = xs' @ a # ys'" using c(2) e by metis
  ultimately have "ys' = ys" using distinct_split by metis
  then show ?thesis using c(3) by simp
qed

lemma reach_mem: "reach cs a i \<Longrightarrow> a \<in> set (concat cs) \<and> i \<in> set (concat cs)"
  unfolding reach_def by (metis UN_I Un_iff list.set_intros(1) set_append set_concat)

lemma in_chainE:
  assumes "a \<in> set (concat cs)"
  obtains c A B xs ys where "cs = A @ c # B" "c = xs @ a # ys"
proof -
  obtain c where "c \<in> set cs" "a \<in> set c" using assms by auto
  then obtain A B xs ys where "cs = A @ c # B" "c = xs @ a # ys" by (metis split_list)
  then show ?thesis by (rule that)
qed

lemma unused_empty: "nodes_ok ns \<Longrightarrow> i < length ns \<Longrightarrow> \<not> used (ns ! i) \<Longrightarrow> ns ! i = empty_node"
  by (simp add: nodes_ok_def)

lemma chain_length:
  assumes "chained ns cs" "c \<in> set cs" shows "length c \<le> length ns"
proof -
  have "distinct c" using assms by (auto simp: chained_def distinct_concat_iff)
  moreover have "set c \<subseteq> {..<length ns}" using assms by (auto simp: chained_def dest: path_bound)
  ultimately show ?thesis by (metis card_lessThan card_mono distinct_card finite_lessThan)
qed

lemma chain_search:
  assumes ok: "nodes_ok ns" "chained ns cs" "homed M ns cs" and k: "M k < length ns"
    and P: "\<And>n. P n \<Longrightarrow> \<exists>k'. key_of (nkey n) = k' \<and> k' \<noteq> Nil \<and> M k' = M k"
  shows "\<exists>r. chain_find (length ns) ns P (M k) = Inr r \<and>
    (case r of None \<Rightarrow> \<forall>i<length ns. \<not> P (ns ! i) | Some i \<Rightarrow> i < length ns \<and> P (ns ! i))"
proof -
  have hit: "reach cs (M k) i" if "i < length ns" "P (ns ! i)" for i
  proof -
    have "used (ns ! i)" using P [OF that(2)] by (auto simp: used_def)
    then show ?thesis using ok(3) that(1) P [OF that(2)] unfolding homed_def by metis
  qed
  show ?thesis
  proof (cases "used (ns ! M k)")
    case True
    then have "M k \<in> set (concat cs)" using ok(2) k by (simp add: chained_def)
    then obtain c A B xs ys where c: "cs = A @ c # B" "c = xs @ M k # ys" by (rule in_chainE)
    have "path ns (M k # ys) None" using ok(2) c by (auto simp: chained_def path_append)
    moreover have "length (M k # ys) \<le> length ns" using chain_length [OF ok(2), of c] c by simp
    ultimately have f: "chain_find (length ns) ns P (M k) = Inr (find (\<lambda>j. P (ns ! j)) (M k # ys))"
      by (rule chain_find_path)
    show ?thesis
    proof (cases "find (\<lambda>j. P (ns ! j)) (M k # ys)")
      case None
      then have "\<forall>j\<in>set (M k # ys). \<not> P (ns ! j)" by (metis find_None_iff2)
      moreover have "i \<in> set (M k # ys)" if "i < length ns" "P (ns ! i)" for i
        by (rule reachD [OF _ _ hit [OF that]]) (use ok(2) c in \<open>auto simp: chained_def\<close>)
      ultimately show ?thesis using f None by auto
    next
      case (Some i)
      then have "i \<in> set c" "P (ns ! i)" unfolding c(2) by (metis find_Some_iff in_set_conv_nth Un_iff set_append, metis find_Some_iff)
      moreover have "path ns c None" using ok(2) c by (simp add: chained_def)
      ultimately show ?thesis using f Some by (auto dest: path_bound)
    qed
  next
    case False
    then have e: "ns ! M k = empty_node" using ok(1) k by (simp add: unused_empty)
    have nP: "\<not> P (ns ! i)" if "i < length ns" for i
      using reach_mem [OF hit [OF that]] False ok(2) by (auto simp: chained_def)
    obtain m where "length ns = Suc m" using k by (cases "length ns") auto
    then show ?thesis using k nP [OF k] nP e by (auto simp: aget_in empty_node_def)
  qed
qed

lemma key_isD: "key_is k n \<Longrightarrow> \<exists>k'. nkey n = Live k' \<and> luaO_rawequalObj k' k"
  by (auto simp: key_is_def split: TKey.splits)

lemma key_ok_nan: "key_ok (Number d) \<Longrightarrow> \<not> luai_numisnan d"
  by (simp add: key_ok_def)

lemma key_is_tkey:
  assumes "nodes_ok ns" "n \<in> set ns" "k \<noteq> Nil"
  shows "key_is k n \<longleftrightarrow> (\<exists>k'. nkey n = Live k' \<and> tkey k' = tkey k)"
proof (cases "nkey n")
  case (Live k')
  show ?thesis
  proof (cases "k' = Nil")
    case True
    with assms(3) show ?thesis by (auto simp: Live key_is_def luaO_rawequalObj_def ttype_def tkey_def split: TValue.splits)
  next
    case False
    then have "key_ok k'" using assms(1,2) Live by (simp add: nodes_ok_def)
    then have "luaO_rawequalObj k' k = (tkey k' = tkey k)" by (intro rawequal_tkey) (simp add: key_ok_nan)
    then show ?thesis by (simp add: Live key_is_def)
  qed
qed (simp add: key_is_def)

lemma hget_hit:
  assumes ok: "nodes_ok ns" and k: "k \<noteq> Nil" and i: "i < length ns" "key_is k (ns ! i)"
  shows "hget ns k = nval (ns ! i)"
proof -
  obtain n where n: "find (key_is k) ns = Some n" using i by (metis find_None_iff nth_mem not_None_eq)
  then obtain j where j: "j < length ns" "key_is k (ns ! j)" "n = ns ! j" by (metis find_Some_iff)
  obtain a b where "nkey (ns ! i) = Live a" "tkey a = tkey k" "nkey (ns ! j) = Live b" "tkey b = tkey k"
    using i j key_is_tkey [OF ok _ k] by (metis nth_mem)
  moreover have "a \<noteq> Nil" using calculation k by auto
  ultimately have "i = j" using ok i(1) j(1) unfolding nodes_ok_def by metis
  then show ?thesis by (simp add: hget_def n j)
qed

lemma hget_miss: "(\<And>i. i < length ns \<Longrightarrow> \<not> key_is k (ns ! i)) \<Longrightarrow> hget ns k = Nil"
  by (simp add: hget_def) (metis find_None_iff2 in_set_conv_nth option.simps(4))

lemma hget_Nil: "nodes_ok ns \<Longrightarrow> hget ns Nil = Nil"
  unfolding hget_def
proof (cases "find (key_is Nil) ns")
  case (Some n)
  assume ok: "nodes_ok ns"
  from Some have "n \<in> set ns" "key_is Nil n" by (metis find_Some_iff nth_mem)+
  then have "nkey n = Live Nil" by (auto simp: key_is_def luaO_rawequalObj_def ttype_def split: TKey.splits TValue.splits)
  then have "n = empty_node" using ok \<open>n \<in> set ns\<close> by (simp add: nodes_ok_def used_def)
  then show "(case find (key_is Nil) ns of None \<Rightarrow> Nil | Some n \<Rightarrow> nval n) = Nil" by (simp add: Some empty_node_def)
qed simp

lemma hget_tkey:
  assumes "nodes_ok ns" "tkey k = tkey l" shows "hget ns k = hget ns l"
proof (cases "k = Nil")
  case True
  then have "l = Nil" using assms(2) by (metis tkey_simps(1,4))
  with True show ?thesis by simp
next
  case False
  then have "l \<noteq> Nil" using assms(2) by (metis tkey_simps(1,4))
  have "find (key_is k) ns = find (key_is l) ns"
    using key_is_tkey [OF assms(1) _ False] key_is_tkey [OF assms(1) _ \<open>l \<noteq> Nil\<close>] assms(2)
    by (intro find_cong) auto
  then show ?thesis by (simp add: hget_def)
qed

subsection \<open>Tables\<close>

definition tab_ok :: "(lua_Number \<Rightarrow> int) \<Rightarrow> LTable \<Rightarrow> bool" where
  "tab_ok N t \<longleftrightarrow>
     tlsizenode t \<le> MAXBITS \<and> length (tnode t) = sizenode t \<and>
     0 \<le> tsizearray t \<and> tsizearray t \<le> MAXASIZE \<and> tsizearray t \<le> int (length (tarray t)) \<and>
     hash_ok (main_index t) (tnode t) \<and>
     (if tdummy t then tnode t = [empty_node] \<and> tlastfree t \<le> 0
      else tlastfree t \<le> int (length (tnode t)) \<and>
        (\<forall>i<length (tnode t). tlastfree t \<le> int i \<longrightarrow> used (tnode t ! i))) \<and>
     (\<forall>n\<in>set (tnode t). \<forall>k. nkey n = Live k \<longrightarrow> \<not> (0 < arrayindex N k \<and> arrayindex N k \<le> tsizearray t))"

definition tget :: "(lua_Number \<Rightarrow> int) \<Rightarrow> LTable \<Rightarrow> TValue \<Rightarrow> TValue" where
  "tget N t k =
     (let i = arrayindex N k in
      if 0 < i \<and> i \<le> tsizearray t then tarray t ! nat (i - 1) else hget (tnode t) k)"

text \<open>The keys whose look-up is defined.\<close>

definition look_ok :: "TValue \<Rightarrow> bool" where
  "look_ok k \<longleftrightarrow> (\<forall>d. k = Number d \<longrightarrow> \<not> luai_numeq (dbl_of_int (- (2 ^ 31))) d)"

lemma tab_okD:
  assumes "tab_ok N t"
  shows "tlsizenode t \<le> 26" "length (tnode t) = sizenode t" "0 \<le> tsizearray t" "tsizearray t \<le> 2 ^ 26"
    "tsizearray t \<le> int (length (tarray t))" "hash_ok (main_index t) (tnode t)" "nodes_ok (tnode t)"
    "main_index t k < length (tnode t)"
proof -
  show "tlsizenode t \<le> 26" "length (tnode t) = sizenode t" "0 \<le> tsizearray t" "tsizearray t \<le> 2 ^ 26"
    "tsizearray t \<le> int (length (tarray t))" "hash_ok (main_index t) (tnode t)" "nodes_ok (tnode t)"
    using assms by (auto simp: tab_ok_def MAXBITS_def MAXASIZE_def hash_ok_def)
  then show "main_index t k < length (tnode t)" using main_index_range by simp
qed

lemma find_from_ok:
  assumes t: "tab_ok N t" and k: "k \<noteq> Nil"
  shows "\<exists>r. find_from t (key_is k) (main_index t k) = Inr r \<and>
    (case r of None \<Rightarrow> (\<forall>i<length (tnode t). \<not> key_is k (tnode t ! i)) \<and> hget (tnode t) k = Nil
     | Some i \<Rightarrow> i < length (tnode t) \<and> key_is k (tnode t ! i) \<and> hget (tnode t) k = nval (tnode t ! i))"
proof -
  note ok = tab_okD [OF t]
  obtain cs where cs: "chained (tnode t) cs" "homed (main_index t) (tnode t) cs"
    using ok(6) by (auto simp: hash_ok_def)
  let ?P = "\<lambda>n. n \<in> set (tnode t) \<and> key_is k n"
  have "\<exists>k'. key_of (nkey n) = k' \<and> k' \<noteq> Nil \<and> main_index t k' = main_index t k" if n: "?P n" for n
  proof -
    obtain k' where "nkey n = Live k'" "tkey k' = tkey k" using key_is_tkey [OF ok(7) _ k] n by blast
    moreover from this have "k' \<noteq> Nil" using k by (metis tkey_simps(1,4))
    ultimately show ?thesis using main_index_tkey by (metis key_of.simps(1))
  qed
  from chain_search [OF ok(7) cs ok(8), of ?P, OF this]
  obtain r where r: "chain_find (length (tnode t)) (tnode t) ?P (main_index t k) = Inr r"
    "case r of None \<Rightarrow> \<forall>i<length (tnode t). \<not> ?P (tnode t ! i) | Some i \<Rightarrow> i < length (tnode t) \<and> ?P (tnode t ! i)"
    by blast
  have "chain_find m (tnode t) ?P i = chain_find m (tnode t) (key_is k) i" for m i
    by (induction m arbitrary: i) (auto intro!: rbind_cong split: option.split)
  then show ?thesis using r hget_hit [OF ok(7) k] hget_miss [of "tnode t" k]
    by (auto simp: find_from_def split: option.splits)
qed

text \<open>All searches are the search of the key in the array or from its main position.\<close>

definition search :: "(lua_Number \<Rightarrow> int) \<Rightarrow> LTable \<Rightarrow> TValue \<Rightarrow> slot res" where
  "search N t k =
     (if 0 < arrayindex N k \<and> arrayindex N k \<le> tsizearray t then Inr (SArr (nat (arrayindex N k - 1)))
      else rmap node_slot (find_from t (key_is k) (main_index t k)))"

lemma key_is_Number: "key_is (Number d) = (\<lambda>n. case nkey n of Live (Number e) \<Rightarrow> luai_numeq e d | _ \<Rightarrow> False)"
  by (auto simp: fun_eq_iff key_is_def luaO_rawequalObj_def ttype_def split: TKey.splits TValue.splits)

lemma key_is_Str: "key_is (Str s) = (\<lambda>n. nkey n = Live (Str s))"
  by (auto simp: fun_eq_iff key_is_def luaO_rawequalObj_def ttype_def split: TKey.splits TValue.splits)

lemma index_in_array:
  assumes "- (2 ^ 31) < (k :: int)" "k < 2 ^ 31" "0 \<le> a" "a < 2 ^ 31"
  shows "(k - 1) mod 2 ^ 32 < a mod 2 ^ 32 \<longleftrightarrow> 0 < k \<and> k \<le> a"
proof (cases "0 < k")
  case True
  with assms show ?thesis by (auto simp: mod_pos_pos_trivial)
next
  case False
  have "(k - 1) mod 2 ^ 32 = (k - 1 + 2 ^ 32) mod 2 ^ 32" by (rule mod_add_self2 [symmetric])
  also have "\<dots> = k - 1 + 2 ^ 32" using False assms by (intro mod_pos_pos_trivial) auto
  finally show ?thesis using False assms by (simp add: mod_pos_pos_trivial)
qed

lemma getnum_search:
  assumes N: "cvt_ok N" and t: "tab_ok N t" and k: "- (2 ^ 31) < k" "k < 2 ^ 31"
  shows "luaH_getnum t k = search N t (Number (dbl_of_int k))"
proof -
  have "N (dbl_of_int k) = k" using N k by (intro cvt_of_int) auto
  moreover have "luai_numeq (dbl_of_int k) (dbl_of_int k)" using k by (intro dbl_of_int_numeq) auto
  ultimately have "arrayindex N (Number (dbl_of_int k)) = k" by (simp add: arrayindex_def)
  moreover have "main_index t (Number (dbl_of_int k)) = hashnum t (dbl_of_int k)" by (simp add: main_index_def)
  ultimately show ?thesis
    using index_in_array [of k "tsizearray t"] tab_okD(3,4) [OF t] k
    by (simp add: luaH_getnum_def search_def key_is_Number)
qed

lemma getstr_search: "luaH_getstr t s = search N t (Str s)"
  by (simp add: luaH_getstr_def search_def arrayindex_def main_index_def key_is_Str)

lemma search_tkey:
  assumes "cvt_ok N" "tab_ok N t" "k \<noteq> Nil" "tkey k = tkey l"
  shows "search N t k = search N t l"
proof -
  have l: "l \<noteq> Nil" using assms(3,4) by (metis tkey_simps(1,4))
  have "arrayindex N k = arrayindex N l" "main_index t k = main_index t l"
    using assms(4) arrayindex_tkey [OF assms(1)] main_index_tkey by metis+
  moreover have "chain_find m (tnode t) (key_is k) i = chain_find m (tnode t) (key_is l) i" for m i
  proof -
    have "key_is k n = key_is l n" if "n \<in> set (tnode t)" for n
      using that key_is_tkey [OF tab_okD(7) [OF assms(2)]] assms(3,4) l by metis
    then show ?thesis by (induction m arbitrary: i) (auto intro!: rbind_cong split: option.split)
  qed
  ultimately show ?thesis by (simp add: search_def find_from_def)
qed

lemma tkey_int: 
  assumes "luai_numeq (dbl_of_int k) d" shows "tkey (Number (dbl_of_int k)) = tkey (Number d)"
proof -
  have "\<not> luai_numisnan (dbl_of_int k)" using assms by (auto simp: luai_numisnan_def luai_numeq_def)
  then show ?thesis using assms rawequal_tkey [of "Number (dbl_of_int k)" "Number d"]
    by (simp add: luaO_rawequalObj_def ttype_def)
qed

lemma arrayindex_inj:
  assumes N: "cvt_ok N" and k: "0 < arrayindex N k" and l: "0 < arrayindex N l"
  shows "arrayindex N k = arrayindex N l \<longleftrightarrow> tkey k = tkey l"
proof
  assume e: "arrayindex N k = arrayindex N l"
  obtain d d' where d: "k = Number d" "luai_numeq (dbl_of_int (N d)) d" "l = Number d'" "luai_numeq (dbl_of_int (N d')) d'"
    using k l by (auto simp: arrayindex_def split: TValue.splits if_splits)
  then show "tkey k = tkey l" using e tkey_int [of "N d" d] tkey_int [of "N d'" d'] by (simp add: arrayindex_def)
next
  assume "tkey k = tkey l"
  then show "arrayindex N k = arrayindex N l" using arrayindex_tkey [OF N] by metis
qed

lemma get_search:
  assumes N: "cvt_ok N" and t: "tab_ok N t" and k: "look_ok k" "k \<noteq> Nil"
  shows "luaH_get N t k = search N t k"
proof (cases k)
  case (Number d)
  show ?thesis
  proof (cases "luai_numeq (dbl_of_int (N d)) d")
    case True
    then have "N d \<noteq> - (2 ^ 31)" using k(1) by (auto simp: look_ok_def Number)
    moreover have "- (2 ^ 31) \<le> N d" "N d < 2 ^ 31" using N unfolding cvt_ok_def by blast+
    ultimately have "luaH_getnum t (N d) = search N t (Number (dbl_of_int (N d)))"
      by (intro getnum_search N t) auto
    also have "\<dots> = search N t k"
      unfolding Number by (rule search_tkey [OF N t]) (simp_all add: tkey_int True)
    finally show ?thesis using True by (simp add: luaH_get_def Number)
  qed (simp add: luaH_get_def Number search_def arrayindex_def mainposition_def)
next
  case (Str s)
  then show ?thesis by (simp add: luaH_get_def getstr_search)
qed (use k in \<open>simp_all add: luaH_get_def search_def arrayindex_def mainposition_def\<close>)

lemma search_spec:
  assumes t: "tab_ok N t" and k: "k \<noteq> Nil"
  shows "\<exists>s. search N t k = Inr s \<and> read_slot t s = Inr (tget N t k)"
proof (cases "0 < arrayindex N k \<and> arrayindex N k \<le> tsizearray t")
  case True
  then show ?thesis using tab_okD(5) [OF t] by (auto simp: search_def read_slot_def tget_def aget_in)
next
  case False
  obtain r where r: "find_from t (key_is k) (main_index t k) = Inr r"
    "case r of None \<Rightarrow> hget (tnode t) k = Nil | Some i \<Rightarrow> i < length (tnode t) \<and> hget (tnode t) k = nval (tnode t ! i)"
    using find_from_ok [OF t k] by (auto split: option.splits)
  then have "read_slot t (node_slot r) = Inr (hget (tnode t) k)"
    by (auto simp: read_slot_def node_slot_def aget_in split: option.splits)
  with False r show ?thesis by (auto simp: search_def tget_def Let_def)
qed

lemma get_spec:
  assumes "cvt_ok N" "tab_ok N t" "look_ok k"
  shows "\<exists>s. luaH_get N t k = Inr s \<and> read_slot t s = Inr (tget N t k)"
proof (cases "k = Nil")
  case True
  then show ?thesis using hget_Nil tab_okD(7) [OF assms(2)]
    by (simp add: luaH_get_def read_slot_def tget_def arrayindex_def)
next
  case False
  with assms get_search search_spec show ?thesis by metis
qed

subsection \<open>Inserting a key\<close>

text \<open>The keys that have a value, with it.\<close>

definition entries :: "Node list \<Rightarrow> (TValue \<times> TValue) set" where
  "entries ns = {(k, v). v \<noteq> Nil \<and> (\<exists>i<length ns. nkey (ns ! i) = Live k \<and> nval (ns ! i) = v)}"

lemma entriesI: "i < length ns \<Longrightarrow> nkey (ns ! i) = Live k \<Longrightarrow> nval (ns ! i) = v \<Longrightarrow> v \<noteq> Nil \<Longrightarrow> (k, v) \<in> entries ns"
  by (auto simp: entries_def)

lemma entriesE:
  assumes "(k, v) \<in> entries ns"
  obtains i where "i < length ns" "nkey (ns ! i) = Live k" "nval (ns ! i) = v" "v \<noteq> Nil"
  using assms by (auto simp: entries_def)

lemma hget_entries:
  assumes ok: "nodes_ok ns" and q: "q \<noteq> Nil"
  shows "hget ns q = v \<and> v \<noteq> Nil \<longleftrightarrow> (\<exists>k. (k, v) \<in> entries ns \<and> tkey k = tkey q)"
proof -
  have kis: "key_is q (ns ! i) \<longleftrightarrow> (\<exists>k. nkey (ns ! i) = Live k \<and> tkey k = tkey q)" if "i < length ns" for i
    using key_is_tkey [OF ok _ q] that by simp
  show ?thesis
  proof (cases "\<exists>i<length ns. key_is q (ns ! i)")
    case True
    then obtain i where i: "i < length ns" "key_is q (ns ! i)" by blast
    then obtain k where k: "nkey (ns ! i) = Live k" "tkey k = tkey q" using kis by blast
    have h: "hget ns q = nval (ns ! j)" if "j < length ns" "nkey (ns ! j) = Live l" "tkey l = tkey q" for j l
    proof (rule hget_hit [OF ok q that(1)])
      show "key_is q (ns ! j)" unfolding kis [OF that(1)] using that(2,3) by (intro exI conjI)
    qed
    show ?thesis
    proof
      assume "hget ns q = v \<and> v \<noteq> Nil"
      with h [OF i(1) k] have "(k, v) \<in> entries ns" by (intro entriesI [OF i(1) k(1)]) simp_all
      then show "\<exists>k. (k, v) \<in> entries ns \<and> tkey k = tkey q" using k(2) by (intro exI conjI)
    next
      assume "\<exists>k. (k, v) \<in> entries ns \<and> tkey k = tkey q"
      then obtain l where "(l, v) \<in> entries ns" and l: "tkey l = tkey q" by (elim exE conjE)
      then obtain j where j: "j < length ns" "nkey (ns ! j) = Live l" "nval (ns ! j) = v" "v \<noteq> Nil" by (elim entriesE)
      show "hget ns q = v \<and> v \<noteq> Nil" using h [OF j(1,2) l] j(3,4) by simp
    qed
  next
    case False
    then have "hget ns q = Nil" by (intro hget_miss) blast
    moreover have "\<not> (\<exists>k. (k, v) \<in> entries ns \<and> tkey k = tkey q)"
    proof (intro notI, elim exE conjE)
      fix l assume "(l, v) \<in> entries ns" and l: "tkey l = tkey q"
      then obtain j where j: "j < length ns" "nkey (ns ! j) = Live l" by (elim entriesE)
      then have "key_is q (ns ! j)" unfolding kis [OF j(1)] using l by (intro exI conjI)
      with False j show False by blast
    qed
    ultimately show ?thesis by auto
  qed
qed

lemma hget_eq:
  assumes "nodes_ok ns" "nodes_ok ns'" "entries ns' = entries ns"
  shows "hget ns' q = hget ns q"
proof (cases "q = Nil")
  case True
  then show ?thesis by (simp add: hget_Nil assms)
next
  case False
  then show ?thesis
    using hget_entries [OF assms(1), of q] hget_entries [OF assms(2), of q] assms(3) by metis
qed

text \<open>A key is fresh when no node holds it.\<close>

definition fresh :: "Node list \<Rightarrow> TValue \<Rightarrow> bool" where
  "fresh ns k \<longleftrightarrow> (\<forall>i<length ns. \<forall>l. nkey (ns ! i) = Live l \<longrightarrow> tkey l \<noteq> tkey k)"

lemma nodes_okD:
  assumes "nodes_ok ns" "i < length ns"
  shows "\<not> used (ns ! i) \<Longrightarrow> ns ! i = empty_node"
    "nkey (ns ! i) = Live k \<Longrightarrow> k \<noteq> Nil \<Longrightarrow> key_ok k"
    "nkey (ns ! i) = Dead k \<Longrightarrow> nval (ns ! i) = Nil \<and> k \<noteq> Nil"
    "nkey (ns ! i) = Live k \<Longrightarrow> j < length ns \<Longrightarrow> nkey (ns ! j) = Live l \<Longrightarrow> k \<noteq> Nil \<Longrightarrow> tkey k = tkey l \<Longrightarrow> i = j"
  using assms by (auto simp: nodes_ok_def)

lemma nodes_okI:
  assumes "\<And>i. i < length ns \<Longrightarrow> \<not> used (ns ! i) \<Longrightarrow> ns ! i = empty_node"
    "\<And>i k. i < length ns \<Longrightarrow> nkey (ns ! i) = Live k \<Longrightarrow> k \<noteq> Nil \<Longrightarrow> key_ok k"
    "\<And>i k. i < length ns \<Longrightarrow> nkey (ns ! i) = Dead k \<Longrightarrow> nval (ns ! i) = Nil \<and> k \<noteq> Nil"
    "\<And>i j k l. i < length ns \<Longrightarrow> j < length ns \<Longrightarrow> nkey (ns ! i) = Live k \<Longrightarrow> nkey (ns ! j) = Live l \<Longrightarrow>
       k \<noteq> Nil \<Longrightarrow> tkey k = tkey l \<Longrightarrow> i = j"
  shows "nodes_ok ns"
  unfolding nodes_ok_def all_set_conv_all_nth using assms by blast

lemma key_ok_not_Nil: "key_ok k \<Longrightarrow> k \<noteq> Nil"
  by (simp add: key_ok_def)

text \<open>The key is stored in a node without a value.\<close>

lemma put_nodes_ok:
  assumes ok: "nodes_ok ns" and i: "i < length ns" and k: "key_ok k" "fresh ns k" and x: "nkey x = Live k"
  shows "nodes_ok (ns[i := x])"
proof (rule nodes_okI, simp_all only: length_list_update)
  fix j assume "j < length ns" "\<not> used (ns[i := x] ! j)"
  then show "ns[i := x] ! j = empty_node"
    using nodes_okD(1) [OF ok, of j] x key_ok_not_Nil [OF k(1)] i
    by (auto simp: nth_list_update used_def split: if_splits)
next
  fix j l assume "j < length ns" "nkey (ns[i := x] ! j) = Live l" "l \<noteq> Nil"
  then show "key_ok l"
    using nodes_okD(2) [OF ok, of j] x k(1) i by (auto simp: nth_list_update split: if_splits)
next
  fix j l assume "j < length ns" "nkey (ns[i := x] ! j) = Dead l"
  then show "nval (ns[i := x] ! j) = Nil \<and> l \<noteq> Nil"
    using nodes_okD(3) [OF ok, of j] x i by (auto simp: nth_list_update split: if_splits)
next
  fix j j' l l' assume *: "j < length ns" "j' < length ns" "nkey (ns[i := x] ! j) = Live l"
    "nkey (ns[i := x] ! j') = Live l'" "l \<noteq> Nil" "tkey l = tkey l'"
  have f: "tkey m \<noteq> tkey k" if "nkey (ns ! a) = Live m" "a < length ns" for a m using k(2) that by (simp add: fresh_def)
  show "j = j'"
  proof (cases "j = i"; cases "j' = i")
    assume a: "j = i" "j' \<noteq> i"
    then have "l = k" "nkey (ns ! j') = Live l'" using * x i by auto
    then show ?thesis using f [of j' l'] * by simp
  next
    assume a: "j \<noteq> i" "j' = i"
    then have "l' = k" "nkey (ns ! j) = Live l" using * x i by auto
    then show ?thesis using f [of j l] * by simp
  next
    assume a: "j \<noteq> i" "j' \<noteq> i"
    then show ?thesis using nodes_okD(4) [OF ok, of j l j' l'] * by simp
  qed simp
qed

lemma put_entries:
  assumes i: "i < length ns" and v: "nval (ns ! i) = Nil" and x: "nval x = Nil"
  shows "entries (ns[i := x]) = entries ns"
  using assms by (auto simp: entries_def nth_list_update split: if_splits)

lemma put_chains:
  assumes ok: "nodes_ok ns" and cs: "chained ns cs" "homed M ns cs" and i: "i < length ns" "M k = i" and k: "k \<noteq> Nil"
  shows "\<exists>cs. chained (ns[i := (ns ! i)\<lparr>nkey := Live k\<rparr>]) cs \<and> homed M (ns[i := (ns ! i)\<lparr>nkey := Live k\<rparr>]) cs"
proof -
  let ?ns = "ns[i := (ns ! i)\<lparr>nkey := Live k\<rparr>]"
  let ?cs = "if used (ns ! i) then cs else [i] # cs"
  have p: "path ?ns c None = path ns c None" for c
    by (rule path_cong) (auto simp: nth_list_update i(1))
  have "nnext (ns ! i) = None" if "\<not> used (ns ! i)"
    using unused_empty [OF ok i(1) that] by (simp add: empty_node_def)
  then have "chained ?ns ?cs" using cs(1) i(1) k
    by (auto simp: chained_def p nth_list_update used_def)
  moreover have "homed M ?ns ?cs"
    unfolding homed_def
  proof (intro allI impI)
    fix j assume j: "j < length ?ns" "used (?ns ! j)"
    let ?h = "M (key_of (nkey (?ns ! j)))"
    show "reach ?cs ?h j \<and> M (key_of (nkey (?ns ! ?h))) = ?h"
    proof (cases "j = i")
      case True
      have "reach ?cs i i"
      proof (cases "used (ns ! i)")
        case True
        then have "i \<in> set (concat cs)" using cs(1) i(1) by (simp add: chained_def)
        then obtain c A B xs ys where "cs = A @ c # B" "c = xs @ i # ys" by (rule in_chainE)
        then have "xs @ i # ys \<in> set ?cs" using True by simp
        then show ?thesis unfolding reach_def by (metis list.set_intros(1))
      qed (auto simp: reach_def)
      then show ?thesis using True i by simp
    next
      case False
      then have u: "used (ns ! j)" "j < length ns" using j by auto
      then have "reach cs ?h j" "M (key_of (nkey (ns ! ?h))) = ?h" using cs(2) False by (auto simp: homed_def)
      moreover from this have "reach ?cs ?h j" by (auto simp: reach_def)
      ultimately show ?thesis using i by (auto simp: nth_list_update)
    qed
  qed
  ultimately show ?thesis by blast
qed

lemma put_hash_ok:
  assumes h: "hash_ok M ns" and i: "i < length ns" "M k = i" "nval (ns ! i) = Nil" and k: "key_ok k" "fresh ns k"
  shows "hash_ok M (ns[i := (ns ! i)\<lparr>nkey := Live k\<rparr>])" "entries (ns[i := (ns ! i)\<lparr>nkey := Live k\<rparr>]) = entries ns"
proof -
  have "nodes_ok ns" using h by (simp add: hash_ok_def)
  moreover obtain cs where "chained ns cs" "homed M ns cs" using h by (auto simp: hash_ok_def)
  ultimately show "hash_ok M (ns[i := (ns ! i)\<lparr>nkey := Live k\<rparr>])"
    using put_nodes_ok [of ns i k "(ns ! i)\<lparr>nkey := Live k\<rparr>"] put_chains i k key_ok_not_Nil [OF k(1)]
    by (simp add: hash_ok_def)
  show "entries (ns[i := (ns ! i)\<lparr>nkey := Live k\<rparr>]) = entries ns" using i by (simp add: put_entries)
qed

text \<open>The key goes to a free node, after the node in its main position.\<close>

lemma entries_cong:
  assumes "length ns' = length ns"
    "\<And>j. j < length ns \<Longrightarrow> nval (ns ! j) = Nil \<and> nval (ns' ! j) = Nil \<or> nval (ns' ! j) = nval (ns ! j) \<and> nkey (ns' ! j) = nkey (ns ! j)"
  shows "entries ns' = entries ns"
proof -
  have "(nkey (ns' ! j) = Live k \<and> nval (ns' ! j) = v) = (nkey (ns ! j) = Live k \<and> nval (ns ! j) = v)"
    if "v \<noteq> Nil" "j < length ns" for j k v using assms(2) [OF that(2)] that(1) by auto
  then show ?thesis unfolding entries_def assms(1) by blast
qed

lemma after_entries:
  assumes "i < length ns" "n < length ns" "n \<noteq> i" "nval (ns ! n) = Nil"
  shows "entries (ns[n := (ns ! n)\<lparr>nnext := e, nkey := x\<rparr>, i := (ns ! i)\<lparr>nnext := f\<rparr>]) = entries ns"
  by (rule entries_cong) (use assms in \<open>auto simp: nth_list_update\<close>)

lemma relink_nodes_ok:
  assumes ok: "nodes_ok ns" and i: "i < length ns" "used (ns ! i)"
  shows "nodes_ok (ns[i := (ns ! i)\<lparr>nnext := e\<rparr>])"
proof -
  let ?ns = "ns[i := (ns ! i)\<lparr>nnext := e\<rparr>]"
  have s: "nkey (?ns ! j) = nkey (ns ! j)" "nval (?ns ! j) = nval (ns ! j)" for j by (simp_all add: nth_list_update i(1))
  have u: "j \<noteq> i \<Longrightarrow> ?ns ! j = ns ! j" "used (?ns ! j) = used (ns ! j)" for j by (simp_all add: s used_def)
  show ?thesis
  proof (rule nodes_okI)
    fix j assume "j < length ?ns" "\<not> used (?ns ! j)"
    moreover from this have "j \<noteq> i" using u i by auto
    ultimately show "?ns ! j = empty_node" using u nodes_okD(1) [OF ok, of j] by simp
  qed (use nodes_okD [OF ok] s in auto)
qed

text \<open>\<open>i\<close> is in the chain at or after \<open>a\<close>.\<close>

fun follows :: "nat list \<Rightarrow> nat \<Rightarrow> nat \<Rightarrow> bool" where
  "follows [] a i \<longleftrightarrow> False"
| "follows (x # c) a i \<longleftrightarrow> x = a \<and> i \<in> set (x # c) \<or> follows c a i"

lemma follows_iff: "follows c a i \<longleftrightarrow> (\<exists>xs ys. c = xs @ a # ys \<and> i \<in> set (a # ys))"
proof (induction c)
  case (Cons x c)
  have "(\<exists>xs ys. x # c = xs @ a # ys \<and> i \<in> set (a # ys)) \<longleftrightarrow>
    x = a \<and> i \<in> set (x # c) \<or> (\<exists>xs ys. c = xs @ a # ys \<and> i \<in> set (a # ys))"
    by (auto simp: Cons_eq_append_conv)
  then show ?case using Cons.IH by simp
qed simp

lemma reach_follows: "reach cs a i \<longleftrightarrow> (\<exists>c\<in>set cs. follows c a i)"
  by (simp add: reach_def follows_iff)

lemma follows_append: "follows (us @ vs) a i \<longleftrightarrow> follows us a i \<or> a \<in> set us \<and> i \<in> set vs \<or> follows vs a i"
  by (induction us) auto

lemma follows_mem: "follows c a i \<Longrightarrow> a \<in> set c \<and> i \<in> set c"
  by (auto simp: follows_iff)

lemma reach_split:
  "reach (A @ (xs @ m # ys) # B) a i \<Longrightarrow> reach (A @ (xs @ m # n # ys) # B) a i"
  by (auto simp: reach_follows follows_append)

lemma key_of_Live [simp]: "nkey n = Live k \<Longrightarrow> key_of (nkey n) = k"
  by simp

lemma chainedD:
  assumes "chained ns cs"
  shows "distinct (concat cs)" "set (concat cs) = {i. i < length ns \<and> used (ns ! i)}" "c \<in> set cs \<Longrightarrow> path ns c None"
  using assms by (auto simp: chained_def)

lemma homedD:
  assumes "homed M ns cs" "i < length ns" "used (ns ! i)"
  shows "reach cs (M (key_of (nkey (ns ! i)))) i"
    "M (key_of (nkey (ns ! M (key_of (nkey (ns ! i)))))) = M (key_of (nkey (ns ! i)))"
  using assms by (auto simp: homed_def)

lemma after_chains:
  assumes cs: "chained ns cs" "homed M ns cs" and mp: "mp < length ns" "used (ns ! mp)" "M (key_of (nkey (ns ! mp))) = mp"
    and n: "n < length ns" "\<not> used (ns ! n)" and k: "M k = mp" "k \<noteq> Nil"
  defines "ns' \<equiv> ns[n := (ns ! n)\<lparr>nnext := nnext (ns ! mp), nkey := Live k\<rparr>, mp := (ns ! mp)\<lparr>nnext := Some n\<rparr>]"
  shows "\<exists>cs'. chained ns' cs' \<and> homed M ns' cs'"
proof -
  note c = chainedD [OF cs(1)]
  have nmp: "n \<noteq> mp" using mp n by auto
  have "mp \<in> set (concat cs)" using c(2) mp by simp
  then obtain c0 A B xs ys where s: "cs = A @ (xs @ mp # ys) # B" by (metis in_chainE)
  let ?cs = "A @ (xs @ mp # n # ys) # B"
  have nn: "n \<notin> set (concat cs)" using c(2) n by simp
  have ns: "ns' ! j = (if j = mp then (ns ! mp)\<lparr>nnext := Some n\<rparr>
      else if j = n then (ns ! n)\<lparr>nnext := nnext (ns ! mp), nkey := Live k\<rparr> else ns ! j)" for j
    using mp n nmp by (simp add: ns'_def nth_list_update)
  have u: "used (ns' ! j) \<longleftrightarrow> used (ns ! j) \<or> j = n" for j using nmp k(2) by (simp add: ns used_def)
  have len: "length ns' = length ns" by (simp add: ns'_def)
  have other: "path ns' d e = path ns d e" if "mp \<notin> set d" "n \<notin> set d" for d e
  proof (rule path_cong)
    fix i assume "i \<in> set d"
    then have "i \<noteq> mp" "i \<noteq> n" using that by auto
    then show "nnext (ns' ! i) = nnext (ns ! i)" by (simp add: ns)
  qed (simp add: ns'_def)
  have D: "distinct (concat ?cs)" using c(1) nn unfolding s by auto
  moreover have "set (concat ?cs) = {i. i < length ns' \<and> used (ns' ! i)}"
  proof -
    have "set (concat ?cs) = insert n (set (concat cs))" unfolding s by auto
    then show ?thesis using c(2) n(1) by (auto simp: u len)
  qed
  moreover have "path ns' d None" if "d \<in> set ?cs" for d
  proof (cases "d = xs @ mp # n # ys")
    case True
    have p: "path ns xs (Some mp)" "path ns (mp # ys) None"
      using c(3) [of "xs @ mp # ys"] unfolding s by (auto simp: path_append)
    moreover have "mp \<notin> set xs" "mp \<notin> set ys" "n \<notin> set xs" "n \<notin> set ys" using c(1) nn unfolding s by auto
    ultimately have "path ns' xs (Some mp)" "path ns' ys None" using other by auto
    moreover have "length ns' = length ns" by (simp add: ns'_def)
    ultimately show ?thesis unfolding True path_append using p(2) mp n nmp by (auto simp: ns split: list.splits)
  next
    case False
    then have d: "d \<in> set A \<union> set B" using that by auto
    then have "mp \<notin> set d" "n \<notin> set d" using D by auto
    then show ?thesis using other c(3) [of d] d unfolding s by auto
  qed
  ultimately have "chained ns' ?cs" unfolding chained_def by blast
  moreover have "homed M ns' ?cs"
    unfolding homed_def
  proof (intro allI impI)
    fix j assume j: "j < length ns'" "used (ns' ! j)"
    let ?h = "M (key_of (nkey (ns' ! j)))"
    show "reach ?cs ?h j \<and> M (key_of (nkey (ns' ! ?h))) = ?h"
    proof (cases "j = n")
      case True
      then have "?h = mp" using k nmp by (simp add: ns)
      moreover have "reach ?cs mp n" by (auto simp: reach_follows follows_append)
      ultimately show ?thesis using True mp(3) by (simp add: ns)
    next
      case False
      then have j': "j < length ns" "used (ns ! j)" "key_of (nkey (ns' ! j)) = key_of (nkey (ns ! j))"
        using j u [of j] by (auto simp: ns len)
      note h = homedD [OF cs(2) j'(1,2)]
      then have "?h \<in> set (concat cs)" using reach_mem j'(3) by metis
      then have "?h \<noteq> n" using nn by auto
      then have "key_of (nkey (ns' ! ?h)) = key_of (nkey (ns ! ?h))" by (simp add: ns)
      moreover have "reach ?cs ?h j" using reach_split h(1) unfolding s j'(3) by blast
      ultimately show ?thesis using h(2) j'(3) by simp
    qed
  qed
  ultimately show ?thesis by blast
qed

lemma reach_move:
  assumes "reach (A @ (xs @ p # m # ys) # B) a i" "a \<noteq> m"
  shows "i \<noteq> m \<Longrightarrow> reach (A @ (xs @ p # n # ys) # [m] # B) a i"
    "i = m \<Longrightarrow> m \<notin> set (concat A @ xs @ p # ys @ concat B) \<Longrightarrow> reach (A @ (xs @ p # n # ys) # [m] # B) a n"
  using assms by (auto simp: reach_follows follows_append dest: follows_mem)

text \<open>The node in the main position of the key is out of its own: it moves to a free node.\<close>

lemma move_chains:
  assumes cs: "chained ns cs" "homed M ns cs" and mp: "mp < length ns" "nkey (ns ! mp) = Live l" "M l \<noteq> mp" "l \<noteq> Nil"
    and n: "n < length ns" "\<not> used (ns ! n)" and k: "M k = mp" "k \<noteq> Nil"
    and s: "cs = A @ (xs @ p # mp # ys) # B"
  defines "ns' \<equiv> ns[p := (ns ! p)\<lparr>nnext := Some n\<rparr>, n := ns ! mp, mp := \<lparr>nval = Nil, nkey = Live k, nnext = None\<rparr>]"
  shows "\<exists>cs'. chained ns' cs' \<and> homed M ns' cs'"
proof -
  note c = chainedD [OF cs(1)]
  let ?cs = "A @ (xs @ p # n # ys) # [mp] # B"
  have um: "used (ns ! mp)" using mp by (simp add: used_def)
  have nn: "n \<notin> set (concat cs)" using c(2) n by simp
  have p: "p \<in> set (concat cs)" "p \<noteq> mp" using c(1) unfolding s by auto
  then have pn: "p < length ns" "used (ns ! p)" "p \<noteq> n" using c(2) nn by auto
  have nmp: "n \<noteq> mp" using um n by auto
  have ns: "ns' ! j = (if j = mp then \<lparr>nval = Nil, nkey = Live k, nnext = None\<rparr> else if j = n then ns ! mp
      else if j = p then (ns ! p)\<lparr>nnext := Some n\<rparr> else ns ! j)" for j
    using mp n pn by (simp add: ns'_def nth_list_update)
  have u: "used (ns' ! j) \<longleftrightarrow> used (ns ! j) \<or> j = n" for j using nmp k(2) um pn n by (simp add: ns used_def)
  have len: "length ns' = length ns" by (simp add: ns'_def)
  have other: "path ns' d e = path ns d e" if "mp \<notin> set d" "n \<notin> set d" "p \<notin> set d" for d e
  proof (rule path_cong)
    fix i assume "i \<in> set d"
    then have "i \<noteq> mp" "i \<noteq> n" "i \<noteq> p" using that by auto
    then show "nnext (ns' ! i) = nnext (ns ! i)" by (simp add: ns)
  qed (rule len)
  have D: "distinct (concat ?cs)" using c(1) nn unfolding s by auto
  moreover have "set (concat ?cs) = {i. i < length ns' \<and> used (ns' ! i)}"
  proof -
    have "set (concat ?cs) = insert n (set (concat cs))" unfolding s by auto
    then show ?thesis using c(2) n(1) by (auto simp: u len)
  qed
  moreover have "path ns' d None" if "d \<in> set ?cs" for d
  proof -
    have "d = xs @ p # n # ys \<or> d = [mp] \<or> d \<in> set A \<union> set B" using that by auto
    then consider "d = xs @ p # n # ys" | "d = [mp]" | "d \<in> set A \<union> set B" by blast
    then show ?thesis
    proof cases
      case 1
      have q: "path ns xs (Some p)" "path ns (mp # ys) None"
        using c(3) [of "xs @ p # mp # ys"] unfolding s by (auto simp: path_append)
      moreover have "mp \<notin> set xs" "mp \<notin> set ys" "n \<notin> set xs" "n \<notin> set ys" "p \<notin> set xs" "p \<notin> set ys"
        using c(1) nn unfolding s by auto
      ultimately have "path ns' xs (Some p)" "path ns' ys None" using other by auto
      then show ?thesis unfolding 1 path_append using q(2) p n nmp pn len by (simp add: ns split: list.splits)
    next
      case 2
      then show ?thesis using mp(1) by (simp add: ns len)
    next
      case 3
      then have "mp \<notin> set d" "n \<notin> set d" "p \<notin> set d" using D by auto
      then show ?thesis using other c(3) [of d] 3 unfolding s by auto
    qed
  qed
  ultimately have "chained ns' ?cs" unfolding chained_def by blast
  moreover have "homed M ns' ?cs"
    unfolding homed_def
  proof (intro allI impI)
    fix j assume j: "j < length ns'" "used (ns' ! j)"
    let ?h = "M (key_of (nkey (ns' ! j)))"
    have key: "key_of (nkey (ns' ! i)) = key_of (nkey (ns ! i))" if "i \<noteq> mp" "i \<noteq> n" for i
      using that by (simp add: ns)
    have old: "M (key_of (nkey (ns ! i))) \<noteq> n" if "i < length ns" "used (ns ! i)" for i
      using reach_mem [OF homedD(1) [OF cs(2) that]] nn by auto
    have hm: "M (key_of (nkey (ns ! i))) \<noteq> mp" if "i < length ns" "used (ns ! i)" for i
      using homedD(2) [OF cs(2) that] mp(2,3) by auto
    show "reach ?cs ?h j \<and> M (key_of (nkey (ns' ! ?h))) = ?h"
    proof (cases "j = mp")
      case True
      then show ?thesis using k by (simp add: ns reach_follows)
    next
      case jm: False
      define i where "i = (if j = n then mp else j)"
      have i: "i < length ns" "used (ns ! i)" "key_of (nkey (ns' ! j)) = key_of (nkey (ns ! i))"
        using j jm mp(1) um u [of j] by (auto simp: i_def len ns)
      have h: "?h \<noteq> mp" "?h \<noteq> n" using hm old i by simp_all
      have "reach ?cs ?h j"
      proof (cases "j = n")
        case True
        have "mp \<notin> set (concat A @ xs @ p # ys @ concat B)" using c(1) unfolding s by auto
        then show ?thesis
          using reach_move(2) [of A xs p mp ys B ?h i n] homedD(1) [OF cs(2) i(1,2)] h True unfolding s i(3) i_def by simp
      next
        case False
        then show ?thesis
          using reach_move(1) [of A xs p mp ys B ?h i n] homedD(1) [OF cs(2) i(1,2)] h jm unfolding s i(3) i_def by simp
      qed
      then show ?thesis using homedD(2) [OF cs(2) i(1,2)] key h i(3) by simp
    qed
  qed
  ultimately show ?thesis by blast
qed

lemma move_entries:
  assumes m: "m < length ns" and n: "n < length ns" and p: "p < length ns" "p \<noteq> m" "p \<noteq> n"
    and v: "nval (ns ! n) = Nil" and nm: "n \<noteq> m"
  shows "entries (ns[p := (ns ! p)\<lparr>nnext := e\<rparr>, n := ns ! m, m := \<lparr>nval = Nil, nkey = x, nnext = f\<rparr>]) = entries ns"
    (is "entries ?ns = _")
proof -
  have ns: "?ns ! j = (if j = m then \<lparr>nval = Nil, nkey = x, nnext = f\<rparr> else if j = n then ns ! m
      else if j = p then (ns ! p)\<lparr>nnext := e\<rparr> else ns ! j)" for j
    using m n p by (simp add: nth_list_update)
  show ?thesis
  proof (intro set_eqI iffI; clarify)
    fix k w assume "(k, w) \<in> entries ?ns"
    then obtain i where i: "i < length ns" "nkey (?ns ! i) = Live k" "nval (?ns ! i) = w" "w \<noteq> Nil" by (auto elim: entriesE)
    show "(k, w) \<in> entries ns"
      by (rule entriesI [of "if i = n then m else i"]) (use i m n in \<open>auto simp: ns split: if_splits\<close>)
  next
    fix k w assume "(k, w) \<in> entries ns"
    then obtain i where i: "i < length ns" "nkey (ns ! i) = Live k" "nval (ns ! i) = w" "w \<noteq> Nil" by (auto elim: entriesE)
    then have "i \<noteq> n" using v by auto
    with i show "(k, w) \<in> entries ?ns"
      by (intro entriesI [of "if i = m then n else i"]) (use m n nm in \<open>auto simp: ns\<close>)
  qed
qed

lemma move_nodes_ok:
  assumes ok: "nodes_ok ns" and m: "m < length ns" and n: "n < length ns" "\<not> used (ns ! n)"
    and p: "p < length ns" "p \<noteq> m" and k: "key_ok k" "fresh ns k" and up: "used (ns ! p)"
  shows "nodes_ok (ns[p := (ns ! p)\<lparr>nnext := e\<rparr>, n := ns ! m, m := \<lparr>nval = Nil, nkey = Live k, nnext = f\<rparr>])"
    (is "nodes_ok ?ns")
proof -
  have pn: "p \<noteq> n" using up n by auto
  have ns: "?ns ! j = (if j = m then \<lparr>nval = Nil, nkey = Live k, nnext = f\<rparr> else if j = n then ns ! m
      else if j = p then (ns ! p)\<lparr>nnext := e\<rparr> else ns ! j)" for j
    using m n p pn by (simp add: nth_list_update)
  define g where "g = (\<lambda>j. if j = n then m else j)"
  have old: "nkey (?ns ! j) = nkey (ns ! g j)" "nval (?ns ! j) = nval (ns ! g j)" "j < length ns \<Longrightarrow> g j < length ns"
    if "j \<noteq> m" for j using that m by (auto simp: ns g_def)
  have new: "nkey (?ns ! m) = Live k" "nval (?ns ! m) = Nil" by (simp_all add: ns)
  have kN: "k \<noteq> Nil" by (rule key_ok_not_Nil [OF k(1)])
  have fr: "tkey l \<noteq> tkey k" if "nkey (ns ! i) = Live l" "i < length ns" for i l using k(2) that by (simp add: fresh_def)
  show ?thesis
  proof (rule nodes_okI, simp_all only: length_list_update)
    fix j assume j: "j < length ns" "\<not> used (?ns ! j)"
    then have jm: "j \<noteq> m" using new kN by (auto simp: used_def)
    then have "\<not> used (ns ! g j)" using j old(1) by (simp add: used_def)
    moreover from this have "g j \<noteq> p" using up by auto
    moreover have "?ns ! j = ns ! g j" using jm \<open>g j \<noteq> p\<close> by (auto simp: ns g_def)
    ultimately show "?ns ! j = empty_node" using nodes_okD(1) [OF ok old(3) [OF jm j(1)]] by simp
  next
    fix j l assume j: "j < length ns" "nkey (?ns ! j) = Live l" "l \<noteq> Nil"
    show "key_ok l"
    proof (cases "j = m")
      case False
      then show ?thesis using nodes_okD(2) [OF ok old(3) [OF False j(1)]] j old(1) by simp
    qed (use j new k in simp)
  next
    fix j l assume j: "j < length ns" "nkey (?ns ! j) = Dead l"
    then have jm: "j \<noteq> m" using new by auto
    then show "nval (?ns ! j) = Nil \<and> l \<noteq> Nil" using nodes_okD(3) [OF ok old(3) [OF jm j(1)]] j old by simp
  next
    fix i j l l' assume *: "i < length ns" "j < length ns" "nkey (?ns ! i) = Live l" "nkey (?ns ! j) = Live l'" "l \<noteq> Nil" "tkey l = tkey l'"
    show "i = j"
    proof (cases "i = m"; cases "j = m")
      assume a: "i = m" "j \<noteq> m"
      then show ?thesis using * new old(1,3) [of j] fr [of "g j" l'] by simp
    next
      assume a: "i \<noteq> m" "j = m"
      then show ?thesis using * new old(1,3) [of i] fr [of "g i" l] by simp
    next
      assume a: "i \<noteq> m" "j \<noteq> m"
      then have "g i = g j" using nodes_okD(4) [OF ok old(3) [OF a(1) *(1)], of l "g j" l'] * old(1,3) by simp
      then show ?thesis using a by (auto simp: g_def split: if_splits)
    qed simp
  qed
qed

definition used_count :: "Node list \<Rightarrow> nat" where
  "used_count ns = card {i. i < length ns \<and> used (ns ! i)}"

lemma used_count_insert:
  assumes "length ns' = length ns" "\<And>j. j < length ns \<Longrightarrow> used (ns' ! j) \<Longrightarrow> used (ns ! j) \<or> j = i"
  shows "used_count ns' \<le> Suc (used_count ns)"
proof -
  have "card {j. j < length ns' \<and> used (ns' ! j)} \<le> card (insert i {j. j < length ns \<and> used (ns ! j)})"
    by (rule card_mono) (use assms in auto)
  also have "\<dots> \<le> Suc (card {j. j < length ns \<and> used (ns ! j)})" by (simp add: card_insert_if)
  finally show ?thesis by (simp add: used_count_def)
qed

lemma used_count_full: "used_count ns < length ns \<Longrightarrow> \<exists>i<length ns. \<not> used (ns ! i)"
proof (rule ccontr)
  assume *: "used_count ns < length ns" "\<not> (\<exists>i<length ns. \<not> used (ns ! i))"
  then have "{i. i < length ns \<and> used (ns ! i)} = {..<length ns}" by auto
  then show False using *(1) by (simp add: used_count_def)
qed

text \<open>The key \<open>k\<close> is in node \<open>i\<close> of \<open>t'\<close>, without a value; nothing else has changed.\<close>

definition placed :: "(lua_Number \<Rightarrow> int) \<Rightarrow> LTable \<Rightarrow> TValue \<Rightarrow> nat \<Rightarrow> LTable \<Rightarrow> bool" where
  "placed N t k i t' \<longleftrightarrow>
     tab_ok N t' \<and> i < length (tnode t') \<and> nkey (tnode t' ! i) = Live k \<and> nval (tnode t' ! i) = Nil \<and>
     entries (tnode t') = entries (tnode t) \<and> tarray t' = tarray t \<and> tsizearray t' = tsizearray t \<and>
     tlsizenode t' = tlsizenode t \<and> tflags t' = tflags t \<and> \<not> tdummy t' \<and>
     used_count (tnode t') \<le> Suc (used_count (tnode t))"

lemma getfree_ok:
  "m \<le> length ns \<Longrightarrow>
   \<exists>r l. getfree_loop ns m = Inr (r, l) \<and> (\<forall>j. l < int j \<and> j < m \<longrightarrow> used (ns ! j)) \<and>
     (case r of None \<Rightarrow> l = - 1 | Some i \<Rightarrow> l = int i \<and> i < m \<and> \<not> used (ns ! i))"
proof (induction m)
  case (Suc m)
  show ?case
  proof (cases "nkey (ns ! m) = Live Nil")
    case True
    then show ?thesis using Suc.prems by (auto simp: aget_in used_def)
  next
    case False
    obtain r l where "getfree_loop ns m = Inr (r, l)" "\<forall>j. l < int j \<and> j < m \<longrightarrow> used (ns ! j)"
      "case r of None \<Rightarrow> l = - 1 | Some i \<Rightarrow> l = int i \<and> i < m \<and> \<not> used (ns ! i)"
      using Suc by auto
    with False Suc.prems show ?thesis
      by (auto simp: aget_in used_def less_Suc_eq split: option.splits)
  qed
qed simp

lemma getfreepos_ok:
  assumes t: "tab_ok N t" "\<not> tdummy t"
  shows "\<exists>r l. getfreepos t = Inr (r, t\<lparr>tlastfree := l\<rparr>) \<and> l \<le> int (length (tnode t)) \<and>
    (\<forall>j<length (tnode t). l < int j \<longrightarrow> used (tnode t ! j)) \<and>
    (case r of None \<Rightarrow> (\<forall>j<length (tnode t). used (tnode t ! j))
     | Some i \<Rightarrow> l = int i \<and> i < length (tnode t) \<and> \<not> used (tnode t ! i))"
proof (cases "tlastfree t > 0")
  case True
  have l: "tlastfree t \<le> int (length (tnode t))" "\<And>j. j < length (tnode t) \<Longrightarrow> tlastfree t \<le> int j \<Longrightarrow> used (tnode t ! j)"
    using t by (auto simp: tab_ok_def)
  have "nat (tlastfree t) \<le> length (tnode t)" using l(1) by simp
  then obtain r l' where r: "getfree_loop (tnode t) (nat (tlastfree t)) = Inr (r, l')"
    "\<forall>j. l' < int j \<and> j < nat (tlastfree t) \<longrightarrow> used (tnode t ! j)"
    "case r of None \<Rightarrow> l' = - 1 | Some i \<Rightarrow> l' = int i \<and> i < nat (tlastfree t) \<and> \<not> used (tnode t ! i)"
    by (blast dest: getfree_ok)
  have "used (tnode t ! j)" if "j < length (tnode t)" "l' < int j" for j
  proof (cases "tlastfree t \<le> int j")
    case False
    then show ?thesis using r(2) that(2) True by simp
  qed (use l(2) that(1) in simp)
  then show ?thesis using r(1,3) True l(1) by (auto simp: getfreepos_def split: option.splits)
next
  case False
  then show ?thesis using t by (auto simp: getfreepos_def tab_ok_def)
qed

lemma tab_ok_lastfree:
  assumes "tab_ok N t" "if tdummy t then l \<le> 0 else l \<le> int (length (tnode t)) \<and> (\<forall>i<length (tnode t). l \<le> int i \<longrightarrow> used (tnode t ! i))"
  shows "tab_ok N (t\<lparr>tlastfree := l\<rparr>)"
proof -
  have "main_index (t\<lparr>tlastfree := l\<rparr>) = main_index t" "sizenode (t\<lparr>tlastfree := l\<rparr>) = sizenode t"
    by (simp_all add: fun_eq_iff sizenode_def)
  then show ?thesis using assms unfolding tab_ok_def by (auto split: if_splits)
qed

lemma tab_ok_nodes:
  assumes t: "tab_ok N t" "\<not> tdummy t" and ns: "length ns = length (tnode t)" "hash_ok (main_index t) ns"
    and l: "l \<le> int (length ns)" "\<And>i. i < length ns \<Longrightarrow> l \<le> int i \<Longrightarrow> used (ns ! i)"
    and k: "\<And>n k'. n \<in> set ns \<Longrightarrow> nkey n = Live k' \<Longrightarrow> (\<exists>m\<in>set (tnode t). nkey m = Live k') \<or> k' = k"
    "\<not> (0 < arrayindex N k \<and> arrayindex N k \<le> tsizearray t)"
  shows "tab_ok N (t\<lparr>tlastfree := l, tnode := ns\<rparr>)"
proof -
  have "\<not> (0 < arrayindex N k' \<and> arrayindex N k' \<le> tsizearray t)" if "n \<in> set ns" "nkey n = Live k'" for n k'
    using k(1) [OF that] k(2) t(1) unfolding tab_ok_def by blast
  moreover have "main_index (t\<lparr>tlastfree := l, tnode := ns\<rparr>) = main_index t" by (simp add: fun_eq_iff)
  ultimately show ?thesis using t ns l by (simp add: tab_ok_def sizenode_def)
qed

lemma chain_before:
  assumes "reach cs a m" "a \<noteq> m"
  shows "\<exists>A B xs us p ws. cs = A @ ((xs @ us) @ p # m # ws) # B \<and> a = hd (us @ [p])"
proof -
  obtain c xs ys where c: "c \<in> set cs" "c = xs @ a # ys" "m \<in> set (a # ys)" using assms(1) unfolding reach_def by blast
  obtain A B where "cs = A @ c # B" using c(1) by (metis split_list)
  moreover obtain zs ws where "ys = zs @ m # ws" using c(3) assms(2) by (metis set_ConsD split_list)
  moreover obtain us p where "a # zs = us @ [p]" by (metis append_butlast_last_id list.distinct(1))
  moreover from this have "a = hd (us @ [p])" by (metis list.sel(1))
  ultimately show ?thesis using c(2) by (metis append.assoc append_Cons append_Nil)
qed

definition absent :: "(lua_Number \<Rightarrow> int) \<Rightarrow> LTable \<Rightarrow> TValue \<Rightarrow> bool" where
  "absent N t k \<longleftrightarrow> fresh (tnode t) k \<and> \<not> (0 < arrayindex N k \<and> arrayindex N k \<le> tsizearray t)"

lemma placedI:
  assumes t: "tab_ok N t" "\<not> tdummy t" and k: "absent N t k" and i: "i < length ns"
    and ns: "length ns = length (tnode t)" "hash_ok (main_index t) ns" "entries ns = entries (tnode t)"
      "nkey (ns ! i) = Live k" "nval (ns ! i) = Nil"
    and keys: "\<And>j. j < length ns \<Longrightarrow> j \<noteq> u \<Longrightarrow> (\<exists>m<length ns. nkey (ns ! j) = nkey (tnode t ! m)) \<or> nkey (ns ! j) = Live k"
      "nkey (ns ! u) = Live k \<or> (\<exists>m<length ns. nkey (ns ! u) = nkey (tnode t ! m))"
      "\<And>j. j < length ns \<Longrightarrow> used (ns ! j) \<Longrightarrow> used (tnode t ! j) \<or> j = u"
    and l: "l \<le> int (length ns)" "\<And>j. j < length ns \<Longrightarrow> l \<le> int j \<Longrightarrow> used (ns ! j)"
  shows "placed N t k i (t\<lparr>tlastfree := l, tnode := ns\<rparr>)"
proof -
  have "(\<exists>m\<in>set (tnode t). nkey m = Live k') \<or> k' = k" if n: "n \<in> set ns" "nkey n = Live k'" for n k'
  proof -
    obtain j where j: "j < length ns" "n = ns ! j" using n(1) by (auto simp: in_set_conv_nth)
    have "(\<exists>m<length ns. nkey (ns ! j) = nkey (tnode t ! m)) \<or> nkey (ns ! j) = Live k"
      using keys(1) [OF j(1)] keys(2) by (cases "j = u") auto
    then show ?thesis
    proof
      assume "\<exists>m<length ns. nkey (ns ! j) = nkey (tnode t ! m)"
      then obtain m where "m < length (tnode t)" "nkey (tnode t ! m) = Live k'" using n(2) j(2) ns(1) by auto
      then show ?thesis by (intro disjI1 bexI [of _ "tnode t ! m"]) simp_all
    qed (use n(2) j(2) in simp)
  qed
  then have "tab_ok N (t\<lparr>tlastfree := l, tnode := ns\<rparr>)"
    using tab_ok_nodes [OF t ns(1,2) l(1), of k] l(2) k by (simp add: absent_def)
  moreover have "used_count ns \<le> Suc (used_count (tnode t))"
    by (rule used_count_insert [of _ _ u]) (use ns(1) keys(3) in auto)
  ultimately show ?thesis using assms by (simp add: placed_def)
qed

lemma newkey_spec:
  assumes N: "cvt_ok N" and t: "tab_ok N t" and k: "key_ok k" "absent N t k"
  shows "(\<not> tdummy t \<and> (\<exists>i t'. newkey g t k = Inr (SNode i, t') \<and> placed N t k i t')) \<or>
    (\<exists>l. newkey g t k = g (t\<lparr>tlastfree := l\<rparr>) k \<and> tab_ok N (t\<lparr>tlastfree := l\<rparr>) \<and>
       (tdummy t \<or> (\<forall>i<length (tnode t). used (tnode t ! i))))"
proof -
  note ok = tab_okD [OF t]
  note kN = key_ok_not_Nil [OF k(1)]
  define ns where "ns = tnode t"
  define M where "M = main_index t"
  define mp where "mp = M k"
  have mp: "mp < length ns" using ok(8) by (simp add: mp_def M_def ns_def)
  have h: "hash_ok M ns" and no: "nodes_ok ns" using ok(6,7) by (simp_all add: M_def ns_def)
  obtain cs where cs: "chained ns cs" "homed M ns cs" using h by (auto simp: hash_ok_def)
  have fr: "fresh ns k" using k(2) by (simp add: absent_def ns_def)
  have pos: "mainposition t k = Inr mp" using kN by (simp add: mainposition_def mp_def M_def)
  show ?thesis
  proof (cases "nval (ns ! mp) \<noteq> Nil \<or> tdummy t")
    case False
    have "newkey g t k = Inr (SNode mp, t\<lparr>tnode := ns[mp := (ns ! mp)\<lparr>nkey := Live k\<rparr>]\<rparr>)"
      using False mp by (simp add: newkey_def pos aget_in aput_in put_key_def ns_def [symmetric])
    moreover have "placed N t k mp (t\<lparr>tlastfree := tlastfree t, tnode := ns[mp := (ns ! mp)\<lparr>nkey := Live k\<rparr>]\<rparr>)"
    proof (rule placedI [OF t _ k(2), where u = mp])
      have "hash_ok M (ns[mp := (ns ! mp)\<lparr>nkey := Live k\<rparr>])"
        using put_hash_ok(1) [OF h mp _ _ k(1) fr] False by (simp add: mp_def)
      then show "hash_ok (main_index t) (ns[mp := (ns ! mp)\<lparr>nkey := Live k\<rparr>])" by (simp add: M_def)
      show "entries (ns[mp := (ns ! mp)\<lparr>nkey := Live k\<rparr>]) = entries (tnode t)"
        using put_hash_ok(2) [OF h mp _ _ k(1) fr] False by (simp add: mp_def ns_def)
      show "used (ns[mp := (ns ! mp)\<lparr>nkey := Live k\<rparr>] ! j)"
        if "j < length (ns[mp := (ns ! mp)\<lparr>nkey := Live k\<rparr>])" "tlastfree t \<le> int j" for j
        using that t False kN by (cases "j = mp") (auto simp: used_def tab_ok_def ns_def)
      show "tlastfree t \<le> int (length (ns[mp := (ns ! mp)\<lparr>nkey := Live k\<rparr>]))"
        using t False by (auto simp: tab_ok_def ns_def)
    qed (use False mp in \<open>auto simp: ns_def nth_list_update\<close>)
    ultimately show ?thesis using False by auto
  next
    case True
    show ?thesis
    proof (cases "tdummy t")
      case dummy: True
      then have "getfreepos t = Inr (None, t\<lparr>tlastfree := tlastfree t - 1\<rparr>)"
        using t by (simp add: getfreepos_def tab_ok_def)
      then have "newkey g t k = g (t\<lparr>tlastfree := tlastfree t - 1\<rparr>) k"
        using dummy mp by (simp add: newkey_def pos aget_in ns_def)
      moreover have "tab_ok N (t\<lparr>tlastfree := tlastfree t - 1\<rparr>)"
        by (rule tab_ok_lastfree [OF t]) (use t dummy in \<open>simp add: tab_ok_def\<close>)
      ultimately show ?thesis using dummy by blast
    next
      case nd: False
      then have v: "nval (ns ! mp) \<noteq> Nil" using True by simp
      obtain r l where g: "getfreepos t = Inr (r, t\<lparr>tlastfree := l\<rparr>)" "l \<le> int (length ns)"
        "\<forall>j<length ns. l < int j \<longrightarrow> used (ns ! j)"
        "case r of None \<Rightarrow> (\<forall>j<length ns. used (ns ! j)) | Some i \<Rightarrow> l = int i \<and> i < length ns \<and> \<not> used (ns ! i)"
        using getfreepos_ok [OF t nd] unfolding ns_def by blast
      show ?thesis
      proof (cases r)
        case None
        then have "newkey g t k = g (t\<lparr>tlastfree := l\<rparr>) k"
          using v mp g(1) by (simp add: newkey_def pos aget_in ns_def)
        moreover have "tab_ok N (t\<lparr>tlastfree := l\<rparr>)"
          by (rule tab_ok_lastfree [OF t]) (use nd g None in \<open>simp add: ns_def\<close>)
        ultimately show ?thesis using g None by (auto simp: ns_def)
      next
        case (Some n)
        then have n: "n < length ns" "\<not> used (ns ! n)" "l = int n" using g(4) by auto
        have en: "ns ! n = empty_node" by (rule unused_empty [OF no n(1,2)])
        obtain q where o: "nkey (ns ! mp) = Live q" using nodes_okD(3) [OF no mp] v by (cases "nkey (ns ! mp)") auto
        have um: "used (ns ! mp)" using v unused_empty [OF no mp] by (cases "used (ns ! mp)") (simp_all add: empty_node_def)
        then have oN: "q \<noteq> Nil" using o by (auto simp: used_def)
        have posq: "mainposition (t\<lparr>tlastfree := l\<rparr>) q = Inr (M q)" using oN by (simp add: mainposition_def M_def)
        have evn: "nval (ns ! n) = Nil" using en by (simp add: empty_node_def)
        have nmp: "n \<noteq> mp" using um n by auto
        have l: "used (ns' ! j)" if "length ns' = length ns" "used (ns' ! n)"
          "\<And>j. j < length ns \<Longrightarrow> used (ns ! j) \<Longrightarrow> used (ns' ! j)" "j < length ns'" "l \<le> int j" for ns' j
          using that g(3) n(3) by (cases "j = n") auto
        show ?thesis
        proof (cases "M q = mp")
          case True
          define ns' where "ns' = ns[n := (ns ! n)\<lparr>nnext := nnext (ns ! mp), nkey := Live k\<rparr>, mp := (ns ! mp)\<lparr>nnext := Some n\<rparr>]"
          have e: "ns[n := (ns ! n)\<lparr>nnext := nnext (ns ! mp)\<rparr>, mp := (ns ! mp)\<lparr>nnext := Some n\<rparr>, n := (ns ! n)\<lparr>nnext := nnext (ns ! mp), nkey := Live k\<rparr>] = ns'"
            using nmp by (simp add: ns'_def list_update_swap)
          have "newkey g t k = Inr (SNode n, t\<lparr>tlastfree := l, tnode := ns'\<rparr>)"
            using v mp g(1) Some nd o oN n(1) True nmp e evn
            by (simp add: newkey_def pos aget_in aput_in put_key_def posq ns_def [symmetric] nth_list_update)
          moreover have "placed N t k n (t\<lparr>tlastfree := l, tnode := ns'\<rparr>)"
          proof (rule placedI [OF t nd k(2), where u = n])
            have "nodes_ok ns'"
              unfolding ns'_def using relink_nodes_ok [of "ns[n := (ns ! n)\<lparr>nnext := nnext (ns ! mp), nkey := Live k\<rparr>]" mp "Some n"]
                put_nodes_ok [OF no n(1) k(1) fr] mp um nmp by simp
            then show "hash_ok (main_index t) ns'"
              unfolding hash_ok_def M_def [symmetric] ns'_def
              using after_chains [OF cs mp um _ n(1,2) mp_def [symmetric] kN] o True by simp
            show "entries ns' = entries (tnode t)"
              unfolding ns'_def using after_entries [OF mp n(1) nmp] en by (simp add: ns_def empty_node_def)
            show "used (ns' ! j)" if "j < length ns'" "l \<le> int j" for j
              by (rule l) (use that mp n nmp kN um in \<open>auto simp: ns'_def nth_list_update used_def\<close>)
          qed (use mp n nmp en g(2) in \<open>auto simp: ns'_def ns_def [symmetric] nth_list_update empty_node_def used_def split: if_splits\<close>)
          ultimately show ?thesis using nd by blast
        next
          case False
          then obtain A B xs us p ws where c: "cs = A @ ((xs @ us) @ p # mp # ws) # B" "M q = hd (us @ [p])"
            using chain_before [OF homedD(1) [OF cs(2) mp um]] o by auto
          have cc: "path ns ((xs @ us) @ p # mp # ws) None" "distinct ((xs @ us) @ p # mp # ws)"
            using chainedD [OF cs(1)] unfolding c by auto
          have len: "length us < length ns" using chain_length [OF cs(1), of "(xs @ us) @ p # mp # ws"] c(1) by simp
          have fp: "find_previous (length ns) ns mp (M q) = Inr p"
            unfolding c(2)
          proof (rule find_previous_path)
            show "path ns (us @ p # mp # ws) None" using cc(1) by (cases us) (auto simp: path_append)
          qed (use cc(2) len in simp_all)
          define ns' where "ns' = ns[p := (ns ! p)\<lparr>nnext := Some n\<rparr>, n := ns ! mp, mp := \<lparr>nval = Nil, nkey = Live k, nnext = None\<rparr>]"
          have pl: "p < length ns" "p \<noteq> mp" using path_bound [OF cc(1), of p] cc(2) by auto
          have "used (ns ! p)" using chainedD(2) [OF cs(1)] c(1) by auto
          then have pn: "p \<noteq> n" using n(2) by auto
          have e: "ns[p := (ns ! p)\<lparr>nnext := Some n\<rparr>, n := ns ! mp, mp := (ns ! mp)\<lparr>nnext := None, nval := Nil\<rparr>, mp := (ns ! mp)\<lparr>nnext := None, nval := Nil, nkey := Live k\<rparr>] = ns'"
            by (cases "ns ! mp") (simp add: ns'_def)
          have "newkey g t k = Inr (SNode mp, t\<lparr>tlastfree := l, tnode := ns'\<rparr>)"
            using v mp g(1) Some nd o oN n(1) False nmp e fp pl
            by (simp add: newkey_def pos aget_in aput_in put_key_def posq ns_def [symmetric])
          moreover have "placed N t k mp (t\<lparr>tlastfree := l, tnode := ns'\<rparr>)"
          proof (rule placedI [OF t nd k(2), where u = n])
            show "hash_ok (main_index t) ns'"
              unfolding hash_ok_def M_def [symmetric] ns'_def
              using move_chains [OF cs mp o False oN n(1,2) mp_def [symmetric] kN c(1)]
                move_nodes_ok [OF no mp n(1,2) pl k(1) fr] \<open>used (ns ! p)\<close> by simp
            show "entries ns' = entries (tnode t)"
              unfolding ns'_def using move_entries [OF mp n(1) pl pn evn nmp] by (simp add: ns_def)
            show "used (ns' ! j)" if "j < length ns'" "l \<le> int j" for j
              by (rule l) (use that mp n nmp kN um pl pn in \<open>auto simp: ns'_def nth_list_update used_def\<close>)
          qed (use mp n nmp en g(2) pl pn um in \<open>auto simp: ns'_def ns_def [symmetric] nth_list_update empty_node_def used_def split: if_splits\<close>)
          ultimately show ?thesis using nd by blast
        qed
      qed
    qed
  qed
qed

end
