(* ===== verification/TableSize.thy ===== *)
theory TableSize
  imports TableInv
begin

text \<open>
  The new sizes of a table: what \<open>numusearray\<close>, \<open>numusehash\<close> and \<open>countint\<close> count, and that
  \<open>computesizes\<close> chooses the largest power of two of which more than half the slots would be in use.
\<close>

subsection \<open>Slices\<close>

definition slice :: "int \<Rightarrow> nat" where "slice a = nat (ceillog2 a)"

lemma ceillog2_le:
  assumes "0 < a" "a < 2 ^ 32"
  shows "0 \<le> ceillog2 a" "ceillog2 a \<le> int l \<longleftrightarrow> a \<le> 2 ^ l"
proof -
  have "0 \<le> ceillog2 a \<and> (ceillog2 a \<le> int l \<longleftrightarrow> a \<le> 2 ^ l)"
  proof (cases "a = 1")
    case True
    have "ceillog2 1 = 0" by code_simp
    then show ?thesis using True by simp
  next
    case False
    define b where "b = a - 1"
    have b: "0 < b" "b < 2 ^ 32" using assms False by (simp_all add: b_def)
    let ?w = "word_of_int (a - 1) :: u32"
    have u: "unat ?w = nat (a - 1)" unfolding b_def [symmetric] using b by (simp add: unsigned_of_int take_bit_int_eq_self)
    have "?w \<noteq> 0"
    proof
      assume "?w = 0"
      then have "nat b = 0" using u by (simp add: b_def)
      then show False using b(1) by simp
    qed
    from luaO_log2_floor_aux [OF this] u have l: "0 \<le> luaO_log2 ?w" "2 ^ nat (luaO_log2 ?w) \<le> nat (a - 1)" "nat (a - 1) < 2 ^ (nat (luaO_log2 ?w) + 1)"
      by simp_all
    define m where "m = nat (luaO_log2 ?w)"
    have c: "ceillog2 a = int m + 1" using l(1) by (simp add: ceillog2_def m_def)
    have m: "(2::nat) ^ m \<le> nat (a - 1)" "nat (a - 1) < 2 ^ (m + 1)" using l by (simp_all add: m_def)
    have "a \<le> 2 ^ l \<longleftrightarrow> nat (a - 1) < 2 ^ l"
      using assms(1) by (auto simp: nat_less_iff)
    also have "\<dots> \<longleftrightarrow> m + 1 \<le> l"
    proof
      assume "nat (a - 1) < 2 ^ l"
      with m(1) have "(2::nat) ^ m < 2 ^ l" by (rule le_less_trans)
      then show "m + 1 \<le> l" by simp
    next
      assume "m + 1 \<le> l"
      then have "(2::nat) ^ (m + 1) \<le> 2 ^ l" by (intro power_increasing) simp_all
      with m(2) show "nat (a - 1) < 2 ^ l" by (rule less_le_trans)
    qed
    finally show ?thesis using c by auto
  qed
  then show "0 \<le> ceillog2 a" "ceillog2 a \<le> int l \<longleftrightarrow> a \<le> 2 ^ l" by simp_all
qed

lemma slice_le: "0 < a \<Longrightarrow> a < 2 ^ 32 \<Longrightarrow> slice a \<le> l \<longleftrightarrow> a \<le> 2 ^ l"
  using ceillog2_le(1) [of a] ceillog2_le(2) [of a l] by (simp add: slice_def nat_le_iff)

text \<open>\<open>nums\<close> counts the elements of \<open>A\<close> slice by slice.\<close>

definition index_set :: "int set \<Rightarrow> bool" where
  "index_set A \<longleftrightarrow> A \<subseteq> {0<..MAXASIZE}"

definition slices :: "int set \<Rightarrow> int list \<Rightarrow> bool" where
  "slices A nums \<longleftrightarrow> length nums = MAXBITS + 1 \<and> (\<forall>l\<le>MAXBITS. nums ! l = int (card {a\<in>A. slice a = l}))"

lemma index_set_finite: "index_set A \<Longrightarrow> finite A"
  unfolding index_set_def by (rule finite_subset) auto

lemma index_setD: "index_set A \<Longrightarrow> a \<in> A \<Longrightarrow> 0 < a \<and> a \<le> 2 ^ 26"
  by (auto simp: index_set_def MAXASIZE_def MAXBITS_def)

lemma index_slice: "index_set A \<Longrightarrow> a \<in> A \<Longrightarrow> slice a \<le> l \<longleftrightarrow> a \<le> 2 ^ l"
  using index_setD [of A a] by (intro slice_le) force+

lemma slices_empty: "slices {} (replicate (MAXBITS + 1) 0)"
  by (simp add: slices_def nth_replicate less_Suc_eq_le del: replicate_Suc)

lemma slices_insert:
  assumes "slices A nums" "index_set (insert a A)" "a \<notin> A"
  shows "slices (insert a A) (nums[slice a := nums ! slice a + 1])"
proof -
  have f: "finite A" using assms(2) index_set_finite [of "insert a A"] by simp
  have "slice a \<le> MAXBITS" using index_slice [OF assms(2), of a MAXBITS] index_setD [OF assms(2), of a]
    by (simp add: MAXBITS_def)
  moreover have "{b \<in> insert a A. slice b = l} = (if l = slice a then insert a {b\<in>A. slice b = l} else {b\<in>A. slice b = l})" for l
    by auto
  ultimately show ?thesis using assms(1,3) f by (simp add: slices_def nth_list_update)
qed

lemma slices_prefix:
  assumes "slices A nums" "index_set A" "j \<le> MAXBITS"
  shows "(\<Sum>l\<le>j. nums ! l) = int (card {a\<in>A. a \<le> 2 ^ j})"
proof -
  have f: "finite A" by (rule index_set_finite [OF assms(2)])
  have "{a\<in>A. a \<le> 2 ^ j} = (\<Union>l\<le>j. {a\<in>A. slice a = l})"
    using index_slice [OF assms(2), of _ j] by auto
  then have "card {a\<in>A. a \<le> 2 ^ j} = (\<Sum>l\<le>j. card {a\<in>A. slice a = l})"
    using f by (simp add: card_UN_disjoint disjoint_iff)
  moreover have "(\<Sum>l\<le>j. nums ! l) = (\<Sum>l\<le>j. int (card {a\<in>A. slice a = l}))"
    using assms(1,3) by (intro sum.cong) (auto simp: slices_def)
  ultimately show ?thesis by simp
qed

lemma slices_all: "slices A nums \<Longrightarrow> index_set A \<Longrightarrow> (\<Sum>l\<le>MAXBITS. nums ! l) = int (card A)"
proof -
  assume *: "slices A nums" "index_set A"
  have "{a\<in>A. a \<le> 2 ^ MAXBITS} = A" using index_setD [OF *(2)] by (auto simp: MAXBITS_def)
  then show ?thesis using slices_prefix [OF *, of MAXBITS] by simp
qed

lemma card_below: 
  assumes "index_set A" shows "card {a\<in>A. a \<le> 2 ^ j} \<le> 2 ^ j"
proof -
  have "{a\<in>A. a \<le> 2 ^ j} \<subseteq> {0<..2 ^ j}" using index_setD [OF assms] by auto
  then have "card {a\<in>A. a \<le> 2 ^ j} \<le> card {0<..(2::int) ^ j}" by (intro card_mono) auto
  then show ?thesis by (simp add: nat_power_eq)
qed


subsection \<open>Counting\<close>

text \<open>The keys of the array part that have a value, below \<open>b\<close>.\<close>

definition array_keys :: "LTable \<Rightarrow> int \<Rightarrow> int set" where
  "array_keys t b = {a. 0 < a \<and> a \<le> tsizearray t \<and> a < b \<and> tarray t ! nat (a - 1) \<noteq> Nil}"

lemma count_slice_spec:
  "1 \<le> i \<Longrightarrow> i + int m \<le> int (length (tarray t)) + 1 \<Longrightarrow>
   count_slice t m i = Inr (int (card {a. i \<le> a \<and> a < i + int m \<and> tarray t ! nat (a - 1) \<noteq> Nil}))"
proof (induction m arbitrary: i)
  case 0
  have e: "{a. i \<le> a \<and> a < i + int 0 \<and> tarray t ! nat (a - 1) \<noteq> Nil} = {}" by auto
  show ?case unfolding e by simp
next
  case (Suc m)
  let ?S = "\<lambda>i m. {a. i \<le> a \<and> a < i + int m \<and> tarray t ! nat (a - 1) \<noteq> Nil}"
  have f: "finite (?S (i + 1) m)" by (rule finite_subset [of _ "{i..i + 1 + int m}"]) auto
  have "?S i (Suc m) = (if tarray t ! nat (i - 1) \<noteq> Nil then insert i (?S (i + 1) m) else ?S (i + 1) m)"
    by (auto simp: order_le_less)
  then have "int (card (?S i (Suc m))) = (if tarray t ! nat (i - 1) \<noteq> Nil then 1 else 0) + int (card (?S (i + 1) m))"
    using f by simp
  moreover have "count_slice t m (i + 1) = Inr (int (card (?S (i + 1) m)))" using Suc by simp
  ultimately show ?case using Suc.prems by (simp add: aget_in)
qed

lemma slices_union:
  assumes s: "slices A nums" and S: "finite S" "finite A" "A \<inter> S = {}" "\<And>a. a \<in> S \<Longrightarrow> slice a = g" and g: "g \<le> MAXBITS"
  shows "slices (A \<union> S) (nums[g := nums ! g + int (card S)])"
proof -
  have "{a \<in> A \<union> S. slice a = l} = {a \<in> A. slice a = l} \<union> (if l = g then S else {})" for l using S(4) by auto
  moreover have "card ({a \<in> A. slice a = g} \<union> S) = card {a \<in> A. slice a = g} + card S"
    using S by (intro card_Un_disjoint) auto
  ultimately show ?thesis using s g by (simp add: slices_def nth_list_update)
qed

text \<open>The first index that the slice \<open>g\<close> counts.\<close>

definition slice_start :: "LTable \<Rightarrow> nat \<Rightarrow> int" where
  "slice_start t g = (if g = 0 then 1 else min (2 ^ (g - 1)) (tsizearray t) + 1)"

lemma array_keys_finite [simp]: "finite (array_keys t b)"
  by (rule finite_subset [of _ "{0..b}"]) (auto simp: array_keys_def)

lemma numusearray_loop_spec:
  assumes size: "0 \<le> tsizearray t" "tsizearray t \<le> int (length (tarray t))" "tsizearray t \<le> MAXASIZE"
  defines "all \<equiv> array_keys t (tsizearray t + 1)"
  shows "g + m = MAXBITS + 1 \<Longrightarrow> slices (array_keys t (slice_start t g)) nums \<Longrightarrow>
    \<exists>nums'. numusearray_loop t m g (slice_start t g) nums (int (card (array_keys t (slice_start t g)))) =
      Inr (int (card all), nums') \<and> slices all nums'"
proof (induction m arbitrary: g nums)
  case 0
  have "slice_start t g = tsizearray t + 1" using 0 size(3) by (simp add: slice_start_def MAXASIZE_def min_def)
  then show ?case using 0 by (simp add: all_def)
next
  case (Suc m)
  let ?i = "slice_start t g"
  have i1: "1 \<le> ?i" "?i \<le> tsizearray t + 1 \<or> g = 0" using size(1) by (auto simp: slice_start_def)
  show ?case
  proof (cases "2 ^ g > tsizearray t \<and> ?i > tsizearray t")
    case True
    then have "array_keys t ?i = all" by (auto simp: all_def array_keys_def)
    then show ?thesis using True Suc.prems(2) by (auto simp: Let_def)
  next
    case False
    define lim where "lim = min (2 ^ g) (tsizearray t)"
    have nx: "slice_start t (g + 1) = lim + 1" by (simp add: slice_start_def lim_def)
    have pow: "(2::int) ^ (g - 1) \<le> 2 ^ g" "(2::int) ^ (g - Suc 0) \<le> 2 ^ g" by (intro power_increasing; simp)+
    have il: "?i \<le> lim + 1"
    proof (cases "g = 0")
      case True
      then show ?thesis using size(1) by (simp add: slice_start_def lim_def)
    next
      case False
      have "min (2 ^ (g - 1)) (tsizearray t) \<le> lim" unfolding lim_def by (rule min.mono [OF pow(1)]) simp
      then show ?thesis using False by (simp add: slice_start_def)
    qed
    define S where "S = {a. ?i \<le> a \<and> a < ?i + int (nat (lim - ?i + 1)) \<and> tarray t ! nat (a - 1) \<noteq> Nil}"
    have S: "S = {a. ?i \<le> a \<and> a \<le> lim \<and> tarray t ! nat (a - 1) \<noteq> Nil}" using il by (auto simp: S_def)
    have fS: "finite S" unfolding S by (rule finite_subset [of _ "{?i..lim}"]) auto
    have cnt: "count_slice t (nat (lim - ?i + 1)) ?i = Inr (int (card S))"
      unfolding S_def using il i1 size(2) by (intro count_slice_spec) (auto simp: lim_def)
    have un: "array_keys t (lim + 1) = array_keys t ?i \<union> S" "array_keys t ?i \<inter> S = {}"
      using i1 il by (auto simp: S array_keys_def lim_def)
    have g: "g \<le> MAXBITS" using Suc.prems(1) by simp
    have sl: "slice a = g" if a: "a \<in> S" for a
    proof -
      have a: "0 < a" "a \<le> 2 ^ g" "a \<le> tsizearray t" "?i \<le> a" using a i1 by (auto simp: S lim_def)
      have l: "slice a \<le> j \<longleftrightarrow> a \<le> 2 ^ j" for j
        using a size(3) by (intro slice_le) (simp_all add: MAXASIZE_def MAXBITS_def)
      show ?thesis
      proof (cases g)
        case 0
        then show ?thesis using l [of 0] a by simp
      next
        case (Suc h)
        then have "\<not> a \<le> 2 ^ h" using a by (auto simp: slice_start_def)
        then show ?thesis using l [of h] l [of g] a Suc by simp
      qed
    qed
    let ?nums = "nums[g := nums ! g + int (card S)]"
    have s: "slices (array_keys t (slice_start t (g + 1))) ?nums"
      unfolding nx un(1) by (rule slices_union) (use Suc.prems(2) fS un sl g in auto)
    have c: "int (card (array_keys t (slice_start t (g + 1)))) = int (card (array_keys t ?i)) + int (card S)"
      unfolding nx un(1) using card_Un_disjoint [OF _ fS un(2)] by simp
    obtain nums' where n: "numusearray_loop t m (g + 1) (slice_start t (g + 1)) ?nums
        (int (card (array_keys t (slice_start t (g + 1))))) = Inr (int (card all), nums')" "slices all nums'"
      using Suc.IH [of "g + 1" ?nums] s Suc.prems(1) by auto
    have ln: "length nums = MAXBITS + 1" using Suc.prems(2) by (simp add: slices_def)
    have "(if 2 ^ g > tsizearray t then tsizearray t else 2 ^ g) = lim" by (simp add: lim_def min_def)
    moreover have nb: "\<not> (2 ^ g > tsizearray t \<and> ?i > lim)" using False by (auto simp: lim_def)
    moreover have "max ?i (lim + 1) = slice_start t (g + 1)" using il nx by simp
    ultimately have "numusearray_loop t (Suc m) g ?i nums (int (card (array_keys t ?i))) =
      numusearray_loop t m (g + 1) (slice_start t (g + 1)) ?nums (int (card (array_keys t ?i)) + int (card S))"
      using g ln by (auto simp: Let_def cnt aget_in aput_in)
    then show ?thesis using n c by metis
  qed
qed

lemma numusearray_spec:
  assumes "tab_ok N t"
  shows "\<exists>nums. numusearray t (replicate (MAXBITS + 1) 0) = Inr (int (card (array_keys t (tsizearray t + 1))), nums) \<and>
    slices (array_keys t (tsizearray t + 1)) nums"
proof -
  have e: "array_keys t (slice_start t 0) = {}" by (auto simp: array_keys_def slice_start_def)
  have "0 \<le> tsizearray t" "tsizearray t \<le> int (length (tarray t))" "tsizearray t \<le> MAXASIZE"
    using assms by (simp_all add: tab_ok_def)
  from numusearray_loop_spec [OF this, of 0 "MAXBITS + 1" "replicate (MAXBITS + 1) 0"]
  show ?thesis unfolding numusearray_def e using slices_empty by (simp add: slice_start_def del: replicate_Suc numusearray_loop.simps)
qed


text \<open>The nodes with a value, and the indices among their keys.\<close>

definition valued :: "LTable \<Rightarrow> nat \<Rightarrow> nat set" where
  "valued t m = {j. j < m \<and> nval (tnode t ! j) \<noteq> Nil}"

definition node_index :: "(lua_Number \<Rightarrow> int) \<Rightarrow> LTable \<Rightarrow> nat \<Rightarrow> int" where
  "node_index N t j = arrayindex N (key_of (nkey (tnode t ! j)))"

definition hash_keys :: "(lua_Number \<Rightarrow> int) \<Rightarrow> LTable \<Rightarrow> nat \<Rightarrow> int set" where
  "hash_keys N t m = {a. 0 < a \<and> a \<le> MAXASIZE \<and> a \<in> node_index N t ` valued t m}"

lemma valued_Suc: "valued t (Suc m) = (if nval (tnode t ! m) \<noteq> Nil then insert m (valued t m) else valued t m)"
  by (auto simp: valued_def less_Suc_eq)

lemma valued_finite [simp]: "finite (valued t m)"
  by (simp add: valued_def)

lemma hash_keys_finite [simp]: "finite (hash_keys N t m)"
  by (rule finite_subset [of _ "node_index N t ` valued t m"]) (auto simp: hash_keys_def)

lemma hash_keys_Suc:
  "hash_keys N t (Suc m) =
    (if nval (tnode t ! m) \<noteq> Nil \<and> 0 < node_index N t m \<and> node_index N t m \<le> MAXASIZE
     then insert (node_index N t m) (hash_keys N t m) else hash_keys N t m)"
  by (auto simp: hash_keys_def valued_Suc)

lemma valued_live:
  assumes "nodes_ok (tnode t)" "j \<in> valued t m" "m \<le> length (tnode t)"
  shows "\<exists>k. nkey (tnode t ! j) = Live k \<and> k \<noteq> Nil"
proof -
  have j: "j < length (tnode t)" "nval (tnode t ! j) \<noteq> Nil" using assms(2,3) by (auto simp: valued_def)
  have "used (tnode t ! j)" using j nodes_okD(1) [OF assms(1) j(1)] by (cases "used (tnode t ! j)") (auto simp: empty_node_def)
  then show ?thesis using nodes_okD(3) [OF assms(1) j(1)] j(2) by (cases "nkey (tnode t ! j)") (auto simp: used_def)
qed

text \<open>Two nodes do not hold the same index.\<close>

lemma node_index_inj:
  assumes N: "cvt_ok N" and ok: "nodes_ok (tnode t)" and m: "m \<le> length (tnode t)"
  shows "inj_on (node_index N t) {j \<in> valued t m. 0 < node_index N t j}"
proof (rule inj_onI)
  fix i j assume *: "i \<in> {j \<in> valued t m. 0 < node_index N t j}" "j \<in> {j \<in> valued t m. 0 < node_index N t j}"
    "node_index N t i = node_index N t j"
  obtain k l where k: "nkey (tnode t ! i) = Live k" "k \<noteq> Nil" "nkey (tnode t ! j) = Live l"
    using valued_live [OF ok _ m] * by blast
  then have "tkey k = tkey l" using * arrayindex_inj [OF N, of k l] by (simp add: node_index_def)
  then show "i = j" using nodes_okD(4) [OF ok, of i k j l] k * m by (auto simp: valued_def)
qed

lemma countint_spec:
  assumes "slices A nums" "index_set A" "arrayindex N k \<notin> A"
  shows "\<exists>nums'. countint N k nums = Inr (if 0 < arrayindex N k \<and> arrayindex N k \<le> MAXASIZE then 1 else 0, nums') \<and>
    slices (A \<union> ({arrayindex N k} \<inter> {0<..MAXASIZE})) nums'"
proof (cases "0 < arrayindex N k \<and> arrayindex N k \<le> MAXASIZE")
  case True
  then have i: "index_set (insert (arrayindex N k) A)" using assms(2) by (auto simp: index_set_def)
  have c: "0 \<le> ceillog2 (arrayindex N k)" "slice (arrayindex N k) \<le> MAXBITS"
    using True ceillog2_le(1) [of "arrayindex N k"] index_slice [OF i, of "arrayindex N k" MAXBITS]
    by (simp_all add: MAXASIZE_def MAXBITS_def)
  moreover have "length nums = MAXBITS + 1" using assms(1) by (simp add: slices_def)
  ultimately have "countint N k nums = Inr (1, nums[slice (arrayindex N k) := nums ! slice (arrayindex N k) + 1])"
    using True by (simp add: countint_def aget_in aput_in slice_def nat_le_iff Let_def)
  moreover have "A \<union> ({arrayindex N k} \<inter> {0<..MAXASIZE}) = insert (arrayindex N k) A" using True by auto
  ultimately show ?thesis using slices_insert [OF assms(1) i assms(3)] True by auto
next
  case False
  then have "{arrayindex N k} \<inter> {0<..MAXASIZE} = {}" by auto
  moreover have "countint N k nums = Inr (0, nums)" using False by (auto simp: countint_def)
  ultimately show ?thesis using False assms(1) by auto
qed

lemma numusehash_loop_spec:
  assumes N: "cvt_ok N" and ok: "nodes_ok (tnode t)"
  shows "m \<le> length (tnode t) \<Longrightarrow> slices A nums \<Longrightarrow> index_set A \<Longrightarrow> A \<inter> hash_keys N t m = {} \<Longrightarrow>
    \<exists>nums'. numusehash_loop N t m nums u e = Inr (u + int (card (valued t m)), e + int (card (hash_keys N t m)), nums') \<and>
      slices (A \<union> hash_keys N t m) nums'"
proof (induction m arbitrary: nums u e A)
  case 0
  then show ?case by (simp add: valued_def hash_keys_def)
next
  case (Suc m)
  show ?case
  proof (cases "nval (tnode t ! m) = Nil")
    case True
    then show ?thesis using Suc by (simp add: aget_in valued_Suc hash_keys_Suc)
  next
    case False
    then have mv: "m \<in> valued t (Suc m)" by (simp add: valued_def)
    obtain k where k: "nkey (tnode t ! m) = Live k" using valued_live [OF ok mv Suc.prems(1)] by blast
    let ?a = "arrayindex N k"
    have na: "node_index N t m = ?a" by (simp add: node_index_def k)
    let ?B = "{?a} \<inter> {0<..MAXASIZE}"
    have hk: "hash_keys N t (Suc m) = hash_keys N t m \<union> ?B" using False by (auto simp: hash_keys_Suc na)
    have nin: "?a \<notin> hash_keys N t m"
    proof
      assume "?a \<in> hash_keys N t m"
      then obtain j where j: "j \<in> valued t m" "node_index N t j = ?a" "0 < ?a" by (auto simp: hash_keys_def)
      then have "j \<in> valued t (Suc m)" "j \<noteq> m" by (auto simp: valued_def)
      then show False using inj_onD [OF node_index_inj [OF N ok Suc.prems(1)], of j m] j mv na by simp
    qed
    have nA: "?a \<notin> A"
      using Suc.prems(3,4) by (auto simp: hk index_set_def)
    obtain nums1 where c: "countint N k nums = Inr (if 0 < ?a \<and> ?a \<le> MAXASIZE then 1 else 0, nums1)" "slices (A \<union> ?B) nums1"
      using countint_spec [OF Suc.prems(2,3) nA] by blast
    have "index_set (A \<union> ?B)" "(A \<union> ?B) \<inter> hash_keys N t m = {}"
      using Suc.prems(3,4) nin by (auto simp: hk index_set_def)
    then obtain nums' where n: "numusehash_loop N t m nums1 (u + 1) (e + (if 0 < ?a \<and> ?a \<le> MAXASIZE then 1 else 0)) =
        Inr (u + 1 + int (card (valued t m)), e + (if 0 < ?a \<and> ?a \<le> MAXASIZE then 1 else 0) + int (card (hash_keys N t m)), nums')"
      "slices (A \<union> ?B \<union> hash_keys N t m) nums'"
      using Suc.IH [OF _ c(2)] Suc.prems(1) by (metis Suc_leD)
    have cv: "card (valued t (Suc m)) = Suc (card (valued t m))" using False by (simp add: valued_Suc) (simp add: valued_def)
    have ch: "int (card (hash_keys N t (Suc m))) = (if 0 < ?a \<and> ?a \<le> MAXASIZE then 1 else 0) + int (card (hash_keys N t m))"
      using nin False by (simp add: hash_keys_Suc na)
    have "A \<union> ?B \<union> hash_keys N t m = A \<union> hash_keys N t (Suc m)" unfolding hk by blast
    then show ?thesis using n Suc.prems(1) False by (simp add: aget_in k c(1) cv ch add.assoc)
  qed
qed


subsection \<open>The size of the array\<close>

text \<open>More than half the slots of an array of size \<open>2 ^ j\<close> are in use.\<close>

definition dense :: "int set \<Rightarrow> nat \<Rightarrow> bool" where
  "dense A j \<longleftrightarrow> 2 ^ j < 2 * int (card {a\<in>A. a \<le> 2 ^ j})"

text \<open>\<open>n\<close> is the largest power of two below \<open>2 ^ i\<close> for which the array is dense, or 0.\<close>

definition best :: "int set \<Rightarrow> nat \<Rightarrow> int \<Rightarrow> bool" where
  "best A i n \<longleftrightarrow> (n = 0 \<or> (\<exists>j<i. n = 2 ^ j \<and> dense A j)) \<and> (\<forall>j<i. dense A j \<longrightarrow> 2 ^ j \<le> n)"

lemma half_less: "2 ^ i div 2 < (a::int) \<longleftrightarrow> 2 ^ i < 2 * a"
  by (cases i) auto

lemma prefix_mono: "index_set A \<Longrightarrow> card {a\<in>A. a \<le> 2 ^ j} \<le> card A"
  by (rule card_mono) (auto simp: index_set_finite)

lemma computesizes_loop_spec:
  assumes s: "slices A nums" "index_set A"
  shows "i \<le> MAXBITS + 1 \<Longrightarrow> best A i n \<Longrightarrow> a = (\<Sum>l<i. nums ! l) \<Longrightarrow> na = int (card {a\<in>A. a \<le> n}) \<Longrightarrow>
    \<exists>n'. computesizes_loop nums (int (card A)) i (2 ^ i) a na n = Inr (int (card {a\<in>A. a \<le> n'}), n') \<and> best A (MAXBITS + 1) n'"
proof (induction "MAXBITS + 1 - i" arbitrary: i n a na)
  case 0
  then have i: "i = MAXBITS + 1" by simp
  have "card A \<le> 2 ^ MAXBITS"
    using card_below [OF s(2), of MAXBITS] slices_prefix [OF s, of MAXBITS] slices_all [OF s] by simp
  then have "\<not> (2 ^ i div 2 < int (card A))" by (simp add: i)
  then have "computesizes_loop nums (int (card A)) i (2 ^ i) a na n = Inr (na, n)"
    by (subst computesizes_loop.simps) simp
  then show ?case using 0 i by blast
next
  case (Suc d)
  have i: "i \<le> MAXBITS" using Suc.hyps(2) by simp
  have ln: "length nums = MAXBITS + 1" using s(1) by (simp add: slices_def)
  have pre: "(\<Sum>l<Suc i. nums ! l) = int (card {a\<in>A. a \<le> 2 ^ i})"
    using slices_prefix [OF s i] by (simp add: lessThan_Suc_atMost)
  have nn: "0 \<le> nums ! i" using s(1) i by (simp add: slices_def)
  have a': "a + nums ! i = int (card {a\<in>A. a \<le> 2 ^ i})" using pre Suc.prems(3) by simp
  have low: "a \<le> 2 ^ i div 2"
  proof (cases i)
    case 0
    then show ?thesis using Suc.prems(3) by simp
  next
    case (Suc h)
    then have "a = (\<Sum>l\<le>h. nums ! l)" using Suc.prems(3) by (simp add: lessThan_Suc_atMost)
    also have "\<dots> = int (card {a\<in>A. a \<le> 2 ^ h})" using slices_prefix [OF s, of h] i Suc by simp
    also have "\<dots> \<le> 2 ^ h" using card_below [OF s(2), of h, folded of_nat_le_iff [where 'a = int]] by simp
    finally show ?thesis using Suc by simp
  qed
  have far: "best A (MAXBITS + 1) m" if "best A j m" "2 * int (card A) \<le> 2 ^ j" "j \<le> MAXBITS + 1" for j m
  proof -
    have "\<not> dense A l" if l: "j \<le> l" for l
    proof -
      have "2 * int (card {a\<in>A. a \<le> 2 ^ l}) \<le> 2 * int (card A)" using prefix_mono [OF s(2), of l] by simp
      also have "\<dots> \<le> 2 ^ j" by fact
      also have "\<dots> \<le> 2 ^ l" using l by (intro power_increasing) auto
      finally show ?thesis by (simp add: dense_def)
    qed
    then have "l < j" if "dense A l" for l using that by (meson leI)
    then show ?thesis using that(1,3) unfolding best_def by (auto intro: less_le_trans)
  qed
  show ?case
  proof (cases "2 ^ i div 2 < int (card A)")
    case False
    then have "computesizes_loop nums (int (card A)) i (2 ^ i) a na n = Inr (na, n)"
      by (subst computesizes_loop.simps) simp
    moreover have "2 * int (card A) \<le> 2 ^ i" using False half_less [of i "int (card A)"] by simp
    ultimately show ?thesis using far [OF Suc.prems(2)] Suc.prems(1,4) by blast
  next
    case True
    define n1 where "n1 = (if dense A i then 2 ^ i else n)"
    define na1 where "na1 = (if dense A i then a + nums ! i else na)"
    have d: "dense A i \<longleftrightarrow> 2 ^ i div 2 < a + nums ! i" unfolding half_less a' dense_def by simp
    have upd: "(if 0 < nums ! i then if 2 ^ i div 2 < a + nums ! i then (a + nums ! i, a + nums ! i, 2 ^ i)
        else (a + nums ! i, na, n) else (a, na, n)) = (a + nums ! i, na1, n1)"
      using low nn d by (auto simp: n1_def na1_def)
    have b1: "best A (Suc i) n1"
      using Suc.prems(2) unfolding best_def n1_def by (auto simp: less_Suc_eq)
    have na1: "na1 = int (card {a\<in>A. a \<le> n1})" using Suc.prems(4) a' by (simp add: na1_def n1_def)
    have step: "computesizes_loop nums (int (card A)) i (2 ^ i) a na n =
      (if a + nums ! i = int (card A) then Inr (na1, n1)
       else computesizes_loop nums (int (card A)) (i + 1) (2 ^ i * 2) (a + nums ! i) na1 n1)"
      by (subst computesizes_loop.simps) (use True i ln upd in \<open>simp add: Let_def split: prod.split\<close>)
    show ?thesis
    proof (cases "a + nums ! i = int (card A)")
      case True
      have "int (card {a\<in>A. a \<le> 2 ^ i}) \<le> int (2 ^ i)" unfolding of_nat_le_iff by (rule card_below [OF s(2)])
      then have "int (card A) \<le> 2 ^ i" using a' True by simp
      then show ?thesis using far [OF b1] step True na1 i by auto
    next
      case False
      have "\<exists>n'. computesizes_loop nums (int (card A)) (Suc i) (2 ^ Suc i) (a + nums ! i) na1 n1 =
          Inr (int (card {a\<in>A. a \<le> n'}), n') \<and> best A (MAXBITS + 1) n'"
        using Suc.hyps(2) i Suc.prems(3) na1 b1 by (intro Suc.hyps(1)) simp_all
      then show ?thesis using step False by (simp add: mult.commute)
    qed
  qed
qed

lemma computesizes_spec:
  assumes s: "slices A nums" "index_set A"
  shows "\<exists>n. computesizes nums (int (card A)) = Inr (int (card {a\<in>A. a \<le> n}), n) \<and> best A (MAXBITS + 1) n"
proof -
  have e: "{a\<in>A. a \<le> 0} = {}" using index_setD [OF s(2)] by fastforce
  obtain n where n: "computesizes_loop nums (int (card A)) 0 (2 ^ 0) 0 0 0 = Inr (int (card {a\<in>A. a \<le> n}), n)" "best A (MAXBITS + 1) n"
    using computesizes_loop_spec [OF s, of 0 0 0 0] by (auto simp: best_def e)
  have "n div 2 \<le> int (card {a\<in>A. a \<le> n}) \<and> int (card {a\<in>A. a \<le> n}) \<le> n"
  proof (cases "n = 0")
    case False
    then obtain j where "n = 2 ^ j" "dense A j" using n(2) by (auto simp: best_def)
    moreover have "int (card {a\<in>A. a \<le> 2 ^ j}) \<le> 2 ^ j" using card_below [OF s(2), of j, folded of_nat_le_iff [where 'a = int]] by simp
    ultimately show ?thesis using half_less [of j "int (card {a\<in>A. a \<le> 2 ^ j})"] by (simp add: dense_def)
  qed (simp add: e)
  then show ?thesis using n by (auto simp: computesizes_def)
qed

lemma best_range: "best A (MAXBITS + 1) n \<Longrightarrow> 0 \<le> n \<and> n \<le> MAXASIZE"
  using power_increasing [of _ MAXBITS "2::int"] by (auto simp: best_def MAXASIZE_def)

end
