(* ===== verification/TableProps.thy ===== *)
theory TableProps
  imports TableSize
begin

text \<open>
  Tables refine maps: setting, resizing and rehashing act on the abstract map \<open>tget\<close> as the update of
  one key and as nothing. A rehash makes room for every key it inserts again and for the new one, so
  that the recursion of \<open>luaH_set\<close> ends after one rehash.
\<close>

subsection \<open>Storing a value\<close>

definition upd :: "(TValue \<Rightarrow> TValue) \<Rightarrow> TValue \<Rightarrow> TValue \<Rightarrow> TValue \<Rightarrow> TValue" where
  "upd f k v = (\<lambda>q. if tkey q = tkey k then v else f q)"

definition in_array :: "(lua_Number \<Rightarrow> int) \<Rightarrow> LTable \<Rightarrow> TValue \<Rightarrow> bool" where
  "in_array N t k \<longleftrightarrow> 0 < arrayindex N k \<and> arrayindex N k \<le> tsizearray t"

text \<open>The slot \<open>s\<close> holds the value of \<open>k\<close>.\<close>

definition located :: "(lua_Number \<Rightarrow> int) \<Rightarrow> LTable \<Rightarrow> TValue \<Rightarrow> slot \<Rightarrow> bool" where
  "located N t k s \<longleftrightarrow> (case s of
     SArr i \<Rightarrow> in_array N t k \<and> i = nat (arrayindex N k - 1)
   | SNode i \<Rightarrow> \<not> in_array N t k \<and> i < length (tnode t) \<and> (\<exists>k'. nkey (tnode t ! i) = Live k' \<and> tkey k' = tkey k)
   | SNil \<Rightarrow> False)"

text \<open>The vectors have the same sizes, and what is beyond the array part is the same.\<close>

definition same_shape :: "LTable \<Rightarrow> LTable \<Rightarrow> bool" where
  "same_shape t t' \<longleftrightarrow>
     tsizearray t' = tsizearray t \<and> tlsizenode t' = tlsizenode t \<and> tdummy t' = tdummy t \<and>
     length (tarray t') = length (tarray t) \<and> (\<forall>j. tsizearray t \<le> int j \<longrightarrow> tarray t' ! j = tarray t ! j)"

lemma same_shape_refl [simp]: "same_shape t t"
  by (simp add: same_shape_def)

lemma same_shape_trans: "same_shape t u \<Longrightarrow> same_shape u w \<Longrightarrow> same_shape t w"
  by (auto simp: same_shape_def)

lemma search_cases:
  assumes t: "tab_ok N t" and k: "k \<noteq> Nil"
  shows "(\<exists>s. search N t k = Inr s \<and> s \<noteq> SNil \<and> located N t k s) \<or>
    (search N t k = Inr SNil \<and> absent N t k \<and> \<not> in_array N t k)"
proof (cases "in_array N t k")
  case True
  then show ?thesis by (auto simp: search_def located_def in_array_def)
next
  case False
  obtain r where r: "find_from t (key_is k) (main_index t k) = Inr r"
    "case r of None \<Rightarrow> \<forall>i<length (tnode t). \<not> key_is k (tnode t ! i) | Some i \<Rightarrow> i < length (tnode t) \<and> key_is k (tnode t ! i)"
    using find_from_ok [OF t k] by (auto split: option.splits)
  note ki = key_is_tkey [OF tab_okD(7) [OF t] _ k]
  show ?thesis
  proof (cases r)
    case None
    then have "fresh (tnode t) k" using r(2) ki by (auto simp: fresh_def)
    then show ?thesis using False r(1) None by (auto simp: search_def node_slot_def absent_def in_array_def)
  next
    case (Some i)
    then have "located N t k (SNode i)" using r(2) ki False by (auto simp: located_def)
    then show ?thesis using False r(1) Some by (auto simp: search_def node_slot_def in_array_def)
  qed
qed

lemma placed_located:
  assumes "placed N t k i t'" "\<not> in_array N t k" shows "located N t' k (SNode i)"
  using assms by (auto simp: placed_def located_def in_array_def)

lemma placed_tget:
  assumes "tab_ok N t" "placed N t k i t'" shows "tget N t' = tget N t"
proof -
  have p: "tab_ok N t'" "entries (tnode t') = entries (tnode t)" "tarray t' = tarray t" "tsizearray t' = tsizearray t"
    using assms(2) by (simp_all add: placed_def)
  have "hget (tnode t') q = hget (tnode t) q" for q
    by (rule hget_eq [OF tab_okD(7) [OF assms(1)] tab_okD(7) [OF p(1)] p(2)])
  then show ?thesis by (simp add: fun_eq_iff tget_def p(3,4) Let_def)
qed

lemma placed_shape: "placed N t k i t' \<Longrightarrow> \<not> tdummy t \<Longrightarrow> same_shape t t'"
  by (simp add: placed_def same_shape_def)

lemma tab_ok_array:
  assumes "tab_ok N t" "tsizearray t \<le> int (length a)"
  shows "tab_ok N (t\<lparr>tarray := a\<rparr>)"
proof -
  have "main_index (t\<lparr>tarray := a\<rparr>) = main_index t" "sizenode (t\<lparr>tarray := a\<rparr>) = sizenode t"
    by (simp_all add: fun_eq_iff sizenode_def)
  then show ?thesis using assms unfolding tab_ok_def by (auto split: if_splits)
qed

lemma tab_ok_flags: "tab_ok N (t\<lparr>tflags := f\<rparr>) = tab_ok N t"
proof -
  have "main_index (t\<lparr>tflags := f\<rparr>) = main_index t" by (simp add: fun_eq_iff)
  then show ?thesis by (simp add: tab_ok_def sizenode_def)
qed

lemma store_hget:
  assumes ok: "nodes_ok ns" and i: "i < length ns" "nkey (ns ! i) = Live k" "k \<noteq> Nil"
  shows "nodes_ok (ns[i := (ns ! i)\<lparr>nval := v\<rparr>])" "hget (ns[i := (ns ! i)\<lparr>nval := v\<rparr>]) = upd (hget ns) k v"
proof -
  let ?ns = "ns[i := (ns ! i)\<lparr>nval := v\<rparr>]"
  have s: "nkey (?ns ! j) = nkey (ns ! j)" "j \<noteq> i \<Longrightarrow> ?ns ! j = ns ! j" for j by (simp_all add: nth_list_update i(1))
  have u: "used (?ns ! j) = used (ns ! j)" "key_is q (?ns ! j) = key_is q (ns ! j)" for j q by (simp_all add: used_def key_is_def s)
  have ui: "used (ns ! i)" using i by (simp add: used_def)
  show ok': "nodes_ok ?ns"
  proof (rule nodes_okI, simp_all only: length_list_update s u)
    show "?ns ! j = empty_node" if "j < length ns" "\<not> used (ns ! j)" for j
      using that ui s(2) [of j] nodes_okD(1) [OF ok that(1)] by (cases "j = i") auto
    show "nval (?ns ! j) = Nil \<and> l \<noteq> Nil" if "j < length ns" "nkey (ns ! j) = Dead l" for j l
      using that i s(2) [of j] nodes_okD(3) [OF ok that(1,2)] by (cases "j = i") auto
  qed (use nodes_okD(2,4) [OF ok] in blast)+
  show "hget ?ns = upd (hget ns) k v"
  proof
    fix q
    show "hget ?ns q = upd (hget ns) k v q"
    proof (cases "q = Nil")
      case True
      then show ?thesis using i(3) by (simp add: hget_Nil ok ok' upd_def)
    next
      case q: False
      show ?thesis
      proof (cases "tkey q = tkey k")
        case True
        then have "key_is q (?ns ! i)" unfolding u using key_is_tkey [OF ok _ q, of "ns ! i"] i by simp
        then have "hget ?ns q = nval (?ns ! i)" using i(1) by (intro hget_hit [OF ok' q]) simp_all
        then show ?thesis using True i(1) by (simp add: upd_def)
      next
        case False
        have ni: "\<not> key_is q (ns ! i)" using key_is_tkey [OF ok _ q, of "ns ! i"] i False by auto
        show ?thesis
        proof (cases "\<exists>j<length ns. key_is q (ns ! j)")
          case True
          then obtain j where j: "j < length ns" "key_is q (ns ! j)" by blast
          then have "j \<noteq> i" using ni by auto
          then show ?thesis using hget_hit [OF ok q j] hget_hit [OF ok' q, of j] j u s False by (simp add: upd_def)
        next
          case False
          then have "hget ns q = Nil" "hget ?ns q = Nil" by (auto intro!: hget_miss simp: u)
          then show ?thesis using \<open>tkey q \<noteq> tkey k\<close> by (simp add: upd_def)
        qed
      qed
    qed
  qed
qed


lemma store_spec:
  assumes N: "cvt_ok N" and t: "tab_ok N t" and k: "k \<noteq> Nil" "located N t k s"
  shows "\<exists>t'. write_slot t s v = Inr t' \<and> tab_ok N t' \<and> tget N t' = upd (tget N t) k v \<and> same_shape t t' \<and>
    used_count (tnode t') = used_count (tnode t)"
proof (cases s)
  case (SArr i)
  then have i: "in_array N t k" "i = nat (arrayindex N k - 1)" using k(2) by (simp_all add: located_def)
  then have il: "int i < tsizearray t" "int i = arrayindex N k - 1" by (auto simp: in_array_def)
  then have len: "i < length (tarray t)" using tab_okD(5) [OF t] by simp
  let ?t = "t\<lparr>tarray := (tarray t)[i := v]\<rparr>"
  have w: "write_slot t s v = Inr ?t" using len by (simp add: SArr write_slot_def aput_in)
  have ok: "tab_ok N ?t" using tab_okD(5) [OF t] by (intro tab_ok_array t) simp
  have g: "tget N ?t = upd (tget N t) k v"
  proof
    fix q
    show "tget N ?t q = upd (tget N t) k v q"
    proof (cases "in_array N t q")
      case True
      have "arrayindex N q = arrayindex N k \<longleftrightarrow> tkey q = tkey k"
        using True i(1) by (intro arrayindex_inj [OF N]) (simp_all add: in_array_def)
      then show ?thesis using True il len
        by (auto simp: tget_def upd_def in_array_def nth_list_update Let_def)
    next
      case False
      then have "tkey q \<noteq> tkey k" using i(1) arrayindex_tkey [OF N] unfolding in_array_def by metis
      then show ?thesis using False by (auto simp: tget_def upd_def in_array_def)
    qed
  qed
  show ?thesis using w ok g il by (auto simp: same_shape_def)
next
  case (SNode i)
  then obtain k' where i: "\<not> in_array N t k" "i < length (tnode t)" "nkey (tnode t ! i) = Live k'" "tkey k' = tkey k"
    using k(2) by (auto simp: located_def)
  have k': "k' \<noteq> Nil" using i(4) k(1) by auto
  let ?ns = "(tnode t)[i := (tnode t ! i)\<lparr>nval := v\<rparr>]"
  let ?t = "t\<lparr>tnode := ?ns\<rparr>"
  have nd: "\<not> tdummy t"
  proof
    assume "tdummy t"
    then have "tnode t = [empty_node]" using t by (simp add: tab_ok_def)
    then show False using i k' by (simp add: empty_node_def)
  qed
  have w: "write_slot t s v = Inr ?t" using i(2) nd by (simp add: SNode write_slot_def aget_in aput_in)
  have s: "nkey (?ns ! j) = nkey (tnode t ! j)" "nnext (?ns ! j) = nnext (tnode t ! j)" for j
    using i(2) by (simp_all add: nth_list_update)
  note u = used_def s
  have cs: "chained ?ns cs = chained (tnode t) cs" "homed M ?ns cs = homed M (tnode t) cs" for cs M
  proof -
    have "path ?ns c e = path (tnode t) c e" for c e by (rule path_cong) (simp_all add: s)
    then show "chained ?ns cs = chained (tnode t) cs" by (simp add: chained_def u)
    show "homed M ?ns cs = homed M (tnode t) cs" by (simp add: homed_def u)
  qed
  note st = store_hget [OF tab_okD(7) [OF t] i(2,3) k', of v]
  have "hash_ok (main_index t) ?ns" using st(1) cs tab_okD(6) [OF t] by (simp add: hash_ok_def)
  then have ok: "tab_ok N (t\<lparr>tlastfree := tlastfree t, tnode := ?ns\<rparr>)"
  proof (rule tab_ok_nodes [OF t nd _ _ _ _ _ i(1) [unfolded in_array_def], rotated])
    show "used (?ns ! j)" if "j < length ?ns" "tlastfree t \<le> int j" for j
      using that t nd by (simp add: tab_ok_def u)
    show "(\<exists>m\<in>set (tnode t). nkey m = Live l) \<or> l = k" if n: "n \<in> set ?ns" "nkey n = Live l" for n l
    proof -
      obtain j where "j < length (tnode t)" "n = ?ns ! j" using n(1) by (auto simp: in_set_conv_nth)
      then show ?thesis using n(2) s(1) [of j] by (metis nth_mem)
    qed
  qed (use t nd in \<open>simp_all add: tab_ok_def\<close>)
  have g: "tget N ?t = upd (tget N t) k v"
  proof
    fix q
    have "in_array N t q \<Longrightarrow> tkey q \<noteq> tkey k" using i(1) arrayindex_tkey [OF N] unfolding in_array_def by metis
    then show "tget N ?t q = upd (tget N t) k v q"
      using st(2) i(4) by (auto simp: tget_def upd_def in_array_def Let_def)
  qed
  have "used_count ?ns = used_count (tnode t)" by (simp add: used_count_def u)
  then show ?thesis using w ok g by (auto simp: same_shape_def)
qed (use k in \<open>simp add: located_def\<close>)


subsection \<open>Setting a key\<close>

text \<open>What \<open>luaH_set\<close>, \<open>luaH_setnum\<close> and \<open>luaH_setstr\<close> have in common.\<close>

definition put_with where
  "put_with N g t k = rbind (search N t k) (\<lambda>p. if p \<noteq> SNil then Inr (p, t) else newkey g t k)"

definition has_room :: "(lua_Number \<Rightarrow> int) \<Rightarrow> LTable \<Rightarrow> TValue \<Rightarrow> bool" where
  "has_room N t k \<longleftrightarrow> in_array N t k \<or> \<not> tdummy t \<and> used_count (tnode t) < length (tnode t)"

text \<open>\<open>t'\<close> has a slot for the key, and the same contents.\<close>

definition ready :: "(lua_Number \<Rightarrow> int) \<Rightarrow> LTable \<Rightarrow> TValue \<Rightarrow> slot \<Rightarrow> LTable \<Rightarrow> bool" where
  "ready N t k s t' \<longleftrightarrow>
     located N t' k s \<and> tab_ok N t' \<and> tget N t' = tget N t \<and> same_shape t t' \<and>
     used_count (tnode t') \<le> used_count (tnode t) + (if in_array N t k then 0 else 1)"

lemma put_with_cases:
  assumes N: "cvt_ok N" and t: "tab_ok N t" and k: "key_ok k"
  shows "(\<exists>s t'. put_with N g t k = Inr (s, t') \<and> ready N t k s t') \<or>
    (\<exists>l. put_with N g t k = g (t\<lparr>tlastfree := l\<rparr>) k \<and> tab_ok N (t\<lparr>tlastfree := l\<rparr>) \<and> absent N t k \<and>
       (tdummy t \<or> (\<forall>i<length (tnode t). used (tnode t ! i))))"
  using search_cases [OF t key_ok_not_Nil [OF k]]
proof
  assume "\<exists>s. search N t k = Inr s \<and> s \<noteq> SNil \<and> located N t k s"
  then show ?thesis using t by (auto simp: put_with_def ready_def)
next
  assume s: "search N t k = Inr SNil \<and> absent N t k \<and> \<not> in_array N t k"
  then have p: "put_with N g t k = newkey g t k" by (simp add: put_with_def)
  have "absent N t k" using s by simp
  from newkey_spec [OF N t k this, of g] show ?thesis
  proof
    assume "\<not> tdummy t \<and> (\<exists>i t'. newkey g t k = Inr (SNode i, t') \<and> placed N t k i t')"
    then obtain i t' where *: "newkey g t k = Inr (SNode i, t')" "placed N t k i t'" and nd: "\<not> tdummy t" by blast
    have "ready N t k (SNode i) t'"
      using placed_located [OF *(2)] placed_tget [OF t *(2)] placed_shape [OF *(2) nd] *(2) s
      by (simp add: ready_def placed_def)
    then show ?thesis using * p by auto
  next
    assume "\<exists>l. newkey g t k = g (t\<lparr>tlastfree := l\<rparr>) k \<and> tab_ok N (t\<lparr>tlastfree := l\<rparr>) \<and>
      (tdummy t \<or> (\<forall>i<length (tnode t). used (tnode t ! i)))"
    then show ?thesis using p s by auto
  qed
qed

lemma put_with_room:
  assumes "cvt_ok N" "tab_ok N t" "key_ok k" "has_room N t k"
  shows "\<exists>s t'. put_with N g t k = Inr (s, t') \<and> ready N t k s t'"
proof -
  have "\<not> absent N t k \<or> \<not> (tdummy t \<or> (\<forall>i<length (tnode t). used (tnode t ! i)))"
    using assms(4) used_count_full by (auto simp: has_room_def absent_def in_array_def)
  then show ?thesis using put_with_cases [OF assms(1-3)] by blast
qed

lemma set_with_put:
  assumes "cvt_ok N" "tab_ok N t" "key_ok k"
  shows "set_with N g t k = put_with N g (t\<lparr>tflags := 0\<rparr>) k"
proof -
  have k: "k \<noteq> Nil" "look_ok k" "\<not> (case k of Number d \<Rightarrow> luai_numisnan d | _ \<Rightarrow> False)"
    using assms(3) by (auto simp: key_ok_def look_ok_def split: TValue.splits)
  have "search N (t\<lparr>tflags := 0\<rparr>) k = search N t k" by (simp add: search_def find_from_def)
  then show ?thesis using get_search [OF assms(1,2) k(2,1)] k by (simp add: set_with_def put_with_def Let_def)
qed

lemma key_ok_int:
  assumes "cvt_ok N" "- (2 ^ 31) < i" "i < 2 ^ 31"
  shows "key_ok (Number (dbl_of_int i))" "arrayindex N (Number (dbl_of_int i)) = i"
proof -
  have e: "luai_numeq (dbl_of_int i) (dbl_of_int i)" using assms(2,3) by (intro dbl_of_int_numeq) auto
  have c: "N (dbl_of_int i) = i" using assms by (intro cvt_of_int) auto
  have "\<not> luai_numeq (dbl_of_int (- (2 ^ 31))) (dbl_of_int i)"
  proof
    assume "luai_numeq (dbl_of_int (- (2 ^ 31))) (dbl_of_int i)"
    then have "N (dbl_of_int i) = - (2 ^ 31)" using assms(1) unfolding cvt_ok_def by force
    then show False using c assms(2) by simp
  qed
  then show "key_ok (Number (dbl_of_int i))" using e by (simp add: key_ok_def luai_numisnan_def)
  show "arrayindex N (Number (dbl_of_int i)) = i" using c e by (simp add: arrayindex_def)
qed

lemma setnum_with_put:
  assumes "cvt_ok N" "tab_ok N t" "- (2 ^ 31) < i" "i < 2 ^ 31"
  shows "setnum_with g t i = put_with N g t (Number (dbl_of_int i))"
  by (simp add: setnum_with_def put_with_def getnum_search [OF assms])

lemma put_store:
  assumes N: "cvt_ok N" and t: "tab_ok N t" and k: "key_ok k" and r: "has_room N t k"
  shows "\<exists>t'. store_at v (put_with N g t k) = Inr t' \<and> tab_ok N t' \<and> tget N t' = upd (tget N t) k v \<and>
    same_shape t t' \<and> used_count (tnode t') \<le> used_count (tnode t) + (if in_array N t k then 0 else 1)"
proof -
  obtain s t1 where p: "put_with N g t k = Inr (s, t1)" "ready N t k s t1" using put_with_room [OF N t k r] by blast
  then have q: "located N t1 k s" "tab_ok N t1" "tget N t1 = tget N t" "same_shape t t1"
    "used_count (tnode t1) \<le> used_count (tnode t) + (if in_array N t k then 0 else 1)"
    by (simp_all add: ready_def)
  obtain t' where "write_slot t1 s v = Inr t'" "tab_ok N t'" "tget N t' = upd (tget N t1) k v" "same_shape t1 t'"
    "used_count (tnode t') = used_count (tnode t1)"
    using store_spec [OF N q(2) key_ok_not_Nil [OF k] q(1)] by blast
  then show ?thesis using p(1) q same_shape_trans by (auto simp: store_at_def)
qed

lemma tget_flags [simp]: "tget N (t\<lparr>tflags := f\<rparr>) = tget N t"
  by (simp add: tget_def fun_eq_iff Let_def)

lemma in_array_upd [simp]:
  "in_array N (t\<lparr>tflags := f\<rparr>) k = in_array N t k" "in_array N (t\<lparr>tlastfree := l\<rparr>) k = in_array N t k"
  by (simp_all add: in_array_def)

lemma set_store:
  assumes N: "cvt_ok N" and t: "tab_ok N t" and k: "key_ok k" and r: "has_room N t k"
  shows "\<exists>t'. store_at v (set_with N g t k) = Inr t' \<and> tab_ok N t' \<and> tget N t' = upd (tget N t) k v \<and>
    same_shape t t' \<and> used_count (tnode t') \<le> used_count (tnode t) + (if in_array N t k then 0 else 1)"
proof -
  have "tab_ok N (t\<lparr>tflags := 0\<rparr>)" using t by (simp add: tab_ok_flags)
  moreover have "has_room N (t\<lparr>tflags := 0\<rparr>) k" using r by (simp add: has_room_def)
  ultimately show ?thesis
    using put_store [OF N _ k, of "t\<lparr>tflags := 0\<rparr>" v g] set_with_put [OF N t k]
    by (simp add: same_shape_def)
qed

lemma shape_length: "tab_ok N t \<Longrightarrow> tab_ok N t' \<Longrightarrow> same_shape t t' \<Longrightarrow> length (tnode t') = length (tnode t)"
  by (simp add: tab_ok_def same_shape_def sizenode_def)

lemma shape_in_array: "same_shape t t' \<Longrightarrow> in_array N t' k = in_array N t k"
  by (simp add: same_shape_def in_array_def)

subsection \<open>Inserting again\<close>

text \<open>There is room for \<open>m\<close> more keys.\<close>

definition room_for :: "LTable \<Rightarrow> nat \<Rightarrow> bool" where
  "room_for t m \<longleftrightarrow> used_count (tnode t) + m \<le> length (tnode t) \<and> (0 < m \<longrightarrow> \<not> tdummy t)"

lemma room_forD: "room_for t (Suc m) \<Longrightarrow> has_room N t k"
  by (simp add: room_for_def has_room_def)

lemma room_for_step:
  assumes "tab_ok N t" "tab_ok N t'" "same_shape t t'" "used_count (tnode t') \<le> used_count (tnode t) + c" "room_for t (m + c)"
  shows "room_for t' m"
  using shape_length [OF assms(1-3)] assms(3-5) by (auto simp: room_for_def same_shape_def)

definition live_slots :: "TValue list \<Rightarrow> nat \<Rightarrow> nat \<Rightarrow> nat set" where
  "live_slots arr i m = {j. i \<le> j \<and> j < i + m \<and> arr ! j \<noteq> Nil}"

lemma live_slots_0 [simp]: "live_slots arr i 0 = {}"
  by (auto simp: live_slots_def)

lemma live_slots_Suc:
  "live_slots arr i (Suc m) = (if arr ! i \<noteq> Nil then insert i (live_slots arr (Suc i) m) else live_slots arr (Suc i) m)"
  by (auto simp: live_slots_def Suc_le_eq order_le_less)

lemma live_slots_finite [simp]: "finite (live_slots arr i m)"
  by (rule finite_subset [of _ "{i..i + m}"]) (auto simp: live_slots_def)

lemma reinsert_array_spec:
  assumes N: "cvt_ok N"
  shows "tab_ok N t \<Longrightarrow> tsizearray t \<le> int i \<Longrightarrow> i + m \<le> length arr \<Longrightarrow> int (i + m) \<le> MAXASIZE \<Longrightarrow>
    room_for t (card (live_slots arr i m) + r) \<Longrightarrow>
    \<exists>t'. reinsert_array g arr m i t = Inr t' \<and> tab_ok N t' \<and> same_shape t t' \<and> room_for t' r \<and>
      used_count (tnode t') \<le> used_count (tnode t) + card (live_slots arr i m) \<and>
      tget N t' = (\<lambda>q. if 0 < arrayindex N q \<and> nat (arrayindex N q - 1) \<in> live_slots arr i m
                       then arr ! nat (arrayindex N q - 1) else tget N t q)"
proof (induction m arbitrary: i t)
  case 0
  then show ?case by simp
next
  case (Suc m)
  show ?case
  proof (cases "arr ! i = Nil")
    case True
    then have l: "live_slots arr i (Suc m) = live_slots arr (Suc i) m" by (simp add: live_slots_Suc)
    then show ?thesis using Suc.IH [of t "Suc i"] Suc.prems True by (simp add: aget_in)
  next
    case False
    let ?k = "Number (dbl_of_int (int i + 1))"
    have r: "- (2 ^ 31) < int i + 1" "int i + 1 < 2 ^ 31" using Suc.prems(4) by (simp_all add: MAXASIZE_def MAXBITS_def)
    note k = key_ok_int [OF N r]
    have na: "\<not> in_array N t ?k" using k(2) Suc.prems(2) by (simp add: in_array_def)
    have c: "card (live_slots arr i (Suc m)) = Suc (card (live_slots arr (Suc i) m))"
      using False by (simp add: live_slots_Suc) (simp add: live_slots_def)
    have rm: "has_room N t ?k" using Suc.prems(5) unfolding c by (simp add: room_forD)
    obtain t1 where t1: "store_at (arr ! i) (setnum_with g t (int i + 1)) = Inr t1" "tab_ok N t1"
      "tget N t1 = upd (tget N t) ?k (arr ! i)" "same_shape t t1" "used_count (tnode t1) \<le> used_count (tnode t) + 1"
      using put_store [OF N Suc.prems(1) k(1) rm, of "arr ! i" g] na by (auto simp: setnum_with_put [OF N Suc.prems(1) r])
    have "room_for t1 (card (live_slots arr (Suc i) m) + r)"
      by (rule room_for_step [OF Suc.prems(1) t1(2,4,5)]) (use Suc.prems(5) c in simp)
    moreover have "tsizearray t1 \<le> int (Suc i)" using t1(4) Suc.prems(2) by (simp add: same_shape_def)
    ultimately obtain t' where t': "reinsert_array g arr m (Suc i) t1 = Inr t'" "tab_ok N t'" "same_shape t1 t'" "room_for t' r"
      "used_count (tnode t') \<le> used_count (tnode t1) + card (live_slots arr (Suc i) m)"
      "tget N t' = (\<lambda>q. if 0 < arrayindex N q \<and> nat (arrayindex N q - 1) \<in> live_slots arr (Suc i) m
                       then arr ! nat (arrayindex N q - 1) else tget N t1 q)"
      using Suc.IH [OF t1(2), of "Suc i"] Suc.prems(3,4) by auto
    have "tget N t' q = (if 0 < arrayindex N q \<and> nat (arrayindex N q - 1) \<in> live_slots arr i (Suc m)
                       then arr ! nat (arrayindex N q - 1) else tget N t q)" for q
    proof -
      have "tkey q = tkey ?k \<longleftrightarrow> 0 < arrayindex N q \<and> nat (arrayindex N q - 1) = i"
      proof
        assume "tkey q = tkey ?k"
        then have "arrayindex N q = arrayindex N ?k" using arrayindex_tkey [OF N] by metis
        then show "0 < arrayindex N q \<and> nat (arrayindex N q - 1) = i" using k(2) by simp
      next
        assume "0 < arrayindex N q \<and> nat (arrayindex N q - 1) = i"
        then have "0 < arrayindex N q" "arrayindex N q = arrayindex N ?k" using k(2) by auto
        then show "tkey q = tkey ?k" using arrayindex_inj [OF N, of q ?k] by simp
      qed
      then show ?thesis using False unfolding t'(6) t1(3) live_slots_Suc upd_def by auto
    qed
    then show ?thesis using t' t1 c False Suc.prems(3) same_shape_trans [OF t1(4) t'(3)] by (auto simp: aget_in)
  qed
qed

lemma nodes_ok_take: "nodes_ok ns \<Longrightarrow> nodes_ok (take i ns)"
  by (rule nodes_okI) (auto dest: nodes_okD(1,2,3) nodes_okD(4))

definition hash_slots :: "(lua_Number \<Rightarrow> int) \<Rightarrow> Node list \<Rightarrow> int \<Rightarrow> nat \<Rightarrow> nat set" where
  "hash_slots N ns n m = {j. j < m \<and> nval (ns ! j) \<noteq> Nil \<and>
     \<not> (0 < arrayindex N (key_of (nkey (ns ! j))) \<and> arrayindex N (key_of (nkey (ns ! j))) \<le> n)}"

lemma hash_slots_finite [simp]: "finite (hash_slots N ns n m)"
  by (simp add: hash_slots_def)

lemma hash_slots_Suc:
  "hash_slots N ns n (Suc m) =
    (if nval (ns ! m) \<noteq> Nil \<and> \<not> (0 < arrayindex N (key_of (nkey (ns ! m))) \<and> arrayindex N (key_of (nkey (ns ! m))) \<le> n)
     then insert m (hash_slots N ns n m) else hash_slots N ns n m)"
  by (auto simp: hash_slots_def less_Suc_eq)

lemma find_snoc: "\<not> P x \<Longrightarrow> find P (xs @ [x]) = find P xs"
  by (induction xs) auto

lemma hash_slots_0 [simp]: "hash_slots N ns n 0 = {}"
  by (simp add: hash_slots_def)

lemma valued_node:
  assumes "nodes_ok ns" "i < length ns" "nval (ns ! i) \<noteq> Nil"
  shows "\<exists>k. nkey (ns ! i) = Live k \<and> key_ok k"
proof -
  have "used (ns ! i)" using assms nodes_okD(1) [OF assms(1,2)] by (cases "used (ns ! i)") (auto simp: empty_node_def)
  then show ?thesis using nodes_okD(2,3) [OF assms(1,2)] assms(3) by (cases "nkey (ns ! i)") (auto simp: used_def)
qed

text \<open>One more node: its key is not among those before it.\<close>

lemma hget_take_Suc:
  assumes ok: "nodes_ok ns" and i: "i < length ns" "nkey (ns ! i) = Live k" "k \<noteq> Nil"
  shows "hget (take (Suc i) ns) q = (if tkey q = tkey k then nval (ns ! i) else hget (take i ns) q)"
    "tkey q = tkey k \<Longrightarrow> hget (take i ns) q = Nil"
proof -
  have ok1: "nodes_ok (take (Suc i) ns)" by (rule nodes_ok_take [OF ok])
  have none: "hget (take i ns) q = Nil" if q: "tkey q = tkey k"
  proof (rule hget_miss)
    fix j assume j: "j < length (take i ns)"
    then have j': "j < i" by simp
    have qN: "q \<noteq> Nil" using q i(3) by auto
    show "\<not> key_is q (take i ns ! j)"
    proof
      assume "key_is q (take i ns ! j)"
      then obtain l where "nkey (ns ! j) = Live l" "tkey l = tkey q" using key_is_tkey [OF ok _ qN, of "ns ! j"] i(1) j' by auto
      then have "i = j" using nodes_okD(4) [OF ok i(1,2), of j l] i j' q by simp
      then show False using j' by simp
    qed
  qed
  then show "tkey q = tkey k \<Longrightarrow> hget (take i ns) q = Nil" .
  show "hget (take (Suc i) ns) q = (if tkey q = tkey k then nval (ns ! i) else hget (take i ns) q)"
  proof (cases "tkey q = tkey k")
    case True
    then have qN: "q \<noteq> Nil" using i(3) by auto
    have "key_is q (take (Suc i) ns ! i)" using key_is_tkey [OF ok _ qN, of "ns ! i"] i True by simp
    then show ?thesis using hget_hit [OF ok1 qN, of i] i(1) True by simp
  next
    case False
    have "\<not> key_is q (ns ! i)"
    proof (cases "q = Nil")
      case True
      then show ?thesis using i by (cases k) (auto simp: key_is_def luaO_rawequalObj_def ttype_def)
    next
      case qN: False
      then show ?thesis using key_is_tkey [OF ok _ qN, of "ns ! i"] i False by auto
    qed
    then show ?thesis using False i(1) by (simp add: hget_def take_Suc_conv_app_nth find_snoc)
  qed
qed

lemma hget_take_unvalued:
  assumes ok: "nodes_ok ns" and i: "i < length ns" "nval (ns ! i) = Nil"
  shows "hget (take (Suc i) ns) q = hget (take i ns) q"
proof (cases "key_is q (ns ! i)")
  case True
  then obtain l where l: "nkey (ns ! i) = Live l" using key_isD by blast
  show ?thesis
  proof (cases "l = Nil")
    case True
    with l \<open>key_is q (ns ! i)\<close> have "q = Nil"
      by (cases q) (auto simp: key_is_def luaO_rawequalObj_def ttype_def)
    then show ?thesis using hget_Nil nodes_ok_take [OF ok] by simp
  next
    case False
    then have "q \<noteq> Nil" using l True by (cases l) (auto simp: key_is_def luaO_rawequalObj_def ttype_def)
    then have "tkey q = tkey l" using key_is_tkey [OF ok _ \<open>q \<noteq> Nil\<close>, of "ns ! i"] True i(1) l by auto
    then show ?thesis using hget_take_Suc [OF ok i(1) l False, of q] i(2) by simp
  qed
next
  case False
  then show ?thesis using i(1) by (simp add: hget_def take_Suc_conv_app_nth find_snoc)
qed

lemma reinsert_hash_spec:
  assumes N: "cvt_ok N" and ok: "nodes_ok nold"
  shows "i \<le> length nold \<Longrightarrow> tab_ok N t \<Longrightarrow> room_for t (card (hash_slots N nold (tsizearray t) i) + r) \<Longrightarrow>
    \<exists>t'. reinsert_hash N g nold i t = Inr t' \<and> tab_ok N t' \<and> same_shape t t' \<and> room_for t' r \<and>
      used_count (tnode t') \<le> used_count (tnode t) + card (hash_slots N nold (tsizearray t) i) \<and>
      tget N t' = (\<lambda>q. if hget (take i nold) q \<noteq> Nil then hget (take i nold) q else tget N t q)"
proof (induction i arbitrary: t)
  case 0
  then show ?case by (simp add: hget_def)
next
  case (Suc i)
  let ?n = "nold ! i"
  have i: "i < length nold" using Suc.prems(1) by simp
  show ?case
  proof (cases "nval ?n = Nil")
    case True
    then have h: "hash_slots N nold (tsizearray t) (Suc i) = hash_slots N nold (tsizearray t) i" by (simp add: hash_slots_Suc)
    have e: "hget (take (Suc i) nold) = hget (take i nold)" by (rule ext) (rule hget_take_unvalued [OF ok i True])
    have "reinsert_hash N g nold (Suc i) t = reinsert_hash N g nold i t" using i True by (simp add: aget_in)
    then show ?thesis unfolding h e using Suc.IH [OF _ Suc.prems(2)] Suc.prems(3) i h by simp
  next
    case False
    obtain k where k: "nkey ?n = Live k" "key_ok k" using valued_node [OF ok i False] by blast
    have kN: "k \<noteq> Nil" by (rule key_ok_not_Nil [OF k(2)])
    let ?c = "if in_array N t k then 0 else 1 :: nat"
    have c: "card (hash_slots N nold (tsizearray t) (Suc i)) = card (hash_slots N nold (tsizearray t) i) + ?c"
      using False k(1) by (simp add: hash_slots_Suc in_array_def) (simp add: hash_slots_def)
    have rm: "has_room N t k"
    proof (cases "in_array N t k")
      case False
      then show ?thesis using Suc.prems(3) unfolding c by (simp add: room_forD)
    qed (simp add: has_room_def)
    obtain t1 where t1: "store_at (nval ?n) (set_with N g t k) = Inr t1" "tab_ok N t1"
      "tget N t1 = upd (tget N t) k (nval ?n)" "same_shape t t1" "used_count (tnode t1) \<le> used_count (tnode t) + ?c"
      using set_store [OF N Suc.prems(2) k(2) rm, of "nval ?n" g] by blast
    have sz: "tsizearray t1 = tsizearray t" using t1(4) by (simp add: same_shape_def)
    have "room_for t1 (card (hash_slots N nold (tsizearray t1) i) + r)"
      by (rule room_for_step [OF Suc.prems(2) t1(2,4,5)]) (use Suc.prems(3) c sz in \<open>simp add: ac_simps\<close>)
    then obtain t' where t': "reinsert_hash N g nold i t1 = Inr t'" "tab_ok N t'" "same_shape t1 t'" "room_for t' r"
      "used_count (tnode t') \<le> used_count (tnode t1) + card (hash_slots N nold (tsizearray t) i)"
      "tget N t' = (\<lambda>q. if hget (take i nold) q \<noteq> Nil then hget (take i nold) q else tget N t1 q)"
      using Suc.IH [OF _ t1(2)] i sz by auto
    have "tget N t' = (\<lambda>q. if hget (take (Suc i) nold) q \<noteq> Nil then hget (take (Suc i) nold) q else tget N t q)"
      using False hget_take_Suc [OF ok i k(1) kN] by (auto simp: fun_eq_iff t'(6) t1(3) upd_def)
    moreover have "used_count (tnode t') \<le> used_count (tnode t) + card (hash_slots N nold (tsizearray t) (Suc i))"
      using t'(5) t1(5) c by simp
    moreover have "reinsert_hash N g nold (Suc i) t = Inr t'" using i False k t1(1) t'(1) by (simp add: aget_in)
    ultimately show ?thesis using t'(2,4) same_shape_trans [OF t1(4) t'(3)] by blast
  qed
qed

subsection \<open>New vectors\<close>

lemma nodes_ok_fresh: "nodes_ok (replicate m empty_node)"
  by (rule nodes_okI) (auto simp: empty_node_def)

lemma used_fresh [simp]: "\<not> used empty_node"
  by (simp add: used_def empty_node_def)

lemma hash_ok_fresh: "hash_ok M (replicate m empty_node)"
proof -
  have "chained (replicate m empty_node) []" by (auto simp: chained_def)
  moreover have "homed M (replicate m empty_node) []" by (simp add: homed_def)
  ultimately show ?thesis using nodes_ok_fresh by (auto simp: hash_ok_def)
qed

lemma hget_fresh: "hget (replicate m empty_node) q = Nil"
  by (induction m) (auto simp: hget_def empty_node_def)

lemma used_count_fresh: "used_count (replicate m empty_node) = 0"
  by (simp add: used_count_def)

lemma setnodevector_spec:
  assumes t: "0 \<le> tsizearray t" "tsizearray t \<le> MAXASIZE" "tsizearray t \<le> int (length (tarray t))"
    and nh: "0 \<le> nh" "nh < 2 ^ 32"
  shows "setnodevector t nh = Inl (LuaError LUA_ERRRUN ''table overflow'') \<and> 2 ^ MAXBITS < nh \<or>
    (\<exists>t' m. setnodevector t nh = Inr t' \<and> tab_ok N t' \<and> tnode t' = replicate m empty_node \<and> nh \<le> int m \<and>
       tdummy t' = (nh = 0) \<and> tarray t' = tarray t \<and> tsizearray t' = tsizearray t \<and> tflags t' = tflags t)"
proof (cases "nh = 0")
  case True
  let ?t = "t\<lparr>tnode := [empty_node], tdummy := True, tlsizenode := 0, tlastfree := 0\<rparr>"
  have r: "[empty_node] = replicate 1 empty_node" by simp
  have "hash_ok (main_index ?t) [empty_node]" unfolding r by (rule hash_ok_fresh)
  then have "tab_ok N ?t" using t by (simp add: tab_ok_def sizenode_def empty_node_def arrayindex_def)
  then show ?thesis using True by (intro disjI2 exI [of _ ?t] exI [of _ 1]) (simp add: setnodevector_def)
next
  case False
  then have c: "0 \<le> ceillog2 nh" "\<And>l. ceillog2 nh \<le> int l \<longleftrightarrow> nh \<le> 2 ^ l"
    using ceillog2_le(1) [of nh] ceillog2_le(2) [of nh] nh by auto
  show ?thesis
  proof (cases "ceillog2 nh > int MAXBITS")
    case True
    then show ?thesis using c(2) [of MAXBITS] False by (simp add: setnodevector_def)
  next
    case le: False
    define l where "l = nat (ceillog2 nh)"
    have l: "ceillog2 nh = int l" "l \<le> MAXBITS" "nh \<le> 2 ^ l" using c(1) c(2) [of l] le by (simp_all add: l_def)
    let ?t = "t\<lparr>tnode := replicate (2 ^ l) empty_node, tdummy := False, tlsizenode := l, tlastfree := 2 ^ l\<rparr>"
    have "setnodevector t nh = Inr ?t" using False l(1,2) by (simp add: setnodevector_def)
    moreover have "tab_ok N ?t"
      using t l hash_ok_fresh [of "main_index ?t" "2 ^ l"]
      by (simp add: tab_ok_def sizenode_def) (simp add: empty_node_def arrayindex_def)
    ultimately show ?thesis using False l(3) by (intro disjI2 exI [of _ ?t] exI [of _ "2 ^ l"]) simp
  qed
qed

lemma tget_fresh: "tnode t = replicate m empty_node \<Longrightarrow> tget N t q = (if in_array N t q then tarray t ! nat (arrayindex N q - 1) else Nil)"
  by (simp add: tget_def in_array_def hget_fresh Let_def)

lemma in_array_hget:
  assumes N: "cvt_ok N" and t: "tab_ok N t" and q: "in_array N t q"
  shows "hget (tnode t) q = Nil"
proof (rule hget_miss)
  have qN: "q \<noteq> Nil" using q by (auto simp: in_array_def arrayindex_def)
  fix i assume i: "i < length (tnode t)"
  show "\<not> key_is q (tnode t ! i)"
  proof
    assume "key_is q (tnode t ! i)"
    then obtain k where "nkey (tnode t ! i) = Live k" "tkey k = tkey q"
      using key_is_tkey [OF tab_okD(7) [OF t] _ qN] i by auto
    then have "nkey (tnode t ! i) = Live k" "arrayindex N k = arrayindex N q" using arrayindex_tkey [OF N] by metis+
    then show False using t i q unfolding tab_ok_def in_array_def by (metis nth_mem)
  qed
qed

text \<open>The number of keys that a resize puts in the hash part.\<close>

definition rest_count :: "(lua_Number \<Rightarrow> int) \<Rightarrow> LTable \<Rightarrow> int \<Rightarrow> nat" where
  "rest_count N t n =
     card (live_slots (tarray t) (nat n) (nat (tsizearray t - n))) + card (hash_slots N (tnode t) n (length (tnode t)))"

lemma resize_spec:
  assumes N: "cvt_ok N" and t: "tab_ok N t" and n: "0 \<le> n" "n \<le> MAXASIZE" and nh: "0 \<le> nh" "nh < 2 ^ 32"
    and fit: "int (rest_count N t n) \<le> nh"
  shows "resize N g t n nh = Inl (LuaError LUA_ERRRUN ''table overflow'') \<and> 2 ^ MAXBITS < nh \<or>
    (\<exists>t'. resize N g t n nh = Inr t' \<and> tab_ok N t' \<and> tget N t' = tget N t \<and> tsizearray t' = n \<and>
       used_count (tnode t') \<le> rest_count N t n \<and> nh \<le> int (length (tnode t')) \<and> tdummy t' = (nh = 0))"
proof -
  note ok = tab_okD [OF t]
  define t1 where "t1 = (if n > tsizearray t then setarrayvector t n else t)"
  let ?R = "live_slots (tarray t) (nat n) (nat (tsizearray t - n))"
  let ?H = "hash_slots N (tnode t) n (length (tnode t))"
  have t1: "tsizearray t1 = max n (tsizearray t)" "tsizearray t1 \<le> int (length (tarray t1))" "tflags t1 = tflags t"
    "\<And>j. int j < tsizearray t \<Longrightarrow> tarray t1 ! j = tarray t ! j"
    "\<And>j. tsizearray t \<le> int j \<Longrightarrow> int j < n \<Longrightarrow> tarray t1 ! j = Nil"
    using ok(3,5) n(1) by (auto simp: t1_def setarrayvector_def nth_append)
  have ar: "tarray t1 = tarray t" if "n < tsizearray t" using that by (simp add: t1_def)
  have e0: "resize N g t n nh = rbind (setnodevector t1 nh) (\<lambda>u.
      rbind (if n < tsizearray t
             then rbind (reinsert_array g (tarray (u\<lparr>tsizearray := n\<rparr>)) (nat (tsizearray t - n)) (nat n) (u\<lparr>tsizearray := n\<rparr>)) (\<lambda>u.
               Inr (u\<lparr>tarray := take (nat n) (tarray u)\<rparr>))
             else Inr u)
        (reinsert_hash N g (tnode t) (2 ^ tlsizenode t)))"
    unfolding resize_def Let_def t1_def by simp
  have "0 \<le> tsizearray t1" "tsizearray t1 \<le> MAXASIZE" using t1(1) ok(3,4) n by (simp_all add: MAXASIZE_def MAXBITS_def)
  from setnodevector_spec [OF this t1(2) nh, of N] show ?thesis
  proof
    assume "setnodevector t1 nh = Inl (LuaError LUA_ERRRUN ''table overflow'') \<and> 2 ^ MAXBITS < nh"
    then show ?thesis by (simp add: e0)
  next
    assume "\<exists>t' m. setnodevector t1 nh = Inr t' \<and> tab_ok N t' \<and> tnode t' = replicate m empty_node \<and> nh \<le> int m \<and>
       tdummy t' = (nh = 0) \<and> tarray t' = tarray t1 \<and> tsizearray t' = tsizearray t1 \<and> tflags t' = tflags t1"
    then obtain t2 m where t2: "setnodevector t1 nh = Inr t2" "tab_ok N t2" "tnode t2 = replicate m empty_node" "nh \<le> int m"
      "tdummy t2 = (nh = 0)" "tarray t2 = tarray t1" "tsizearray t2 = tsizearray t1" by blast
    define t3 where "t3 = t2\<lparr>tsizearray := n\<rparr>"
    have t3: "tab_ok N t3" "tnode t3 = replicate m empty_node" "tsizearray t3 = n" "tarray t3 = tarray t1" "tdummy t3 = (nh = 0)"
    proof -
      have "main_index t3 = main_index t2"
        by (simp add: fun_eq_iff t3_def main_index_def hashnum_def hashmod_def hashpow2_def sizenode_def split: TValue.split)
      then show "tab_ok N t3" using t2(2,3,7) t1(1) n
        unfolding tab_ok_def by (auto simp: t3_def sizenode_def empty_node_def arrayindex_def)
    qed (simp_all add: t3_def t2)
    have room: "room_for t3 (card ?R + card ?H)"
      using fit t2(4) by (auto simp: room_for_def t3 used_count_fresh rest_count_def)
    have g3: "tget N t3 q = (if 0 < arrayindex N q \<and> arrayindex N q \<le> n then tarray t1 ! nat (arrayindex N q - 1) else Nil)" for q
      using tget_fresh [OF t3(2)] t3(3,4) by (simp add: in_array_def)
    have "\<exists>t5. (if n < tsizearray t
             then rbind (reinsert_array g (tarray t3) (nat (tsizearray t - n)) (nat n) t3) (\<lambda>u.
               Inr (u\<lparr>tarray := take (nat n) (tarray u)\<rparr>))
             else Inr t2) = Inr t5 \<and> tab_ok N t5 \<and> tsizearray t5 = n \<and> room_for t5 (card ?H) \<and>
        used_count (tnode t5) \<le> card ?R \<and> length (tnode t5) = m \<and> tdummy t5 = (nh = 0) \<and>
        tget N t5 = (\<lambda>q. if 0 < arrayindex N q \<and> nat (arrayindex N q - 1) \<in> ?R
                       then tarray t ! nat (arrayindex N q - 1) else tget N t3 q)"
    proof (cases "n < tsizearray t")
      case True
      have a3: "tarray t3 = tarray t" using ar [OF True] t3(4) by simp
      have pr: "tsizearray t3 \<le> int (nat n)" "nat n + nat (tsizearray t - n) \<le> length (tarray t)"
        "int (nat n + nat (tsizearray t - n)) \<le> MAXASIZE"
        using True ok(4,5) n t3(3) by (simp_all add: MAXASIZE_def MAXBITS_def)
      obtain t4 where t4: "reinsert_array g (tarray t) (nat (tsizearray t - n)) (nat n) t3 = Inr t4" "tab_ok N t4"
        "same_shape t3 t4" "room_for t4 (card ?H)" "used_count (tnode t4) \<le> used_count (tnode t3) + card ?R"
        "tget N t4 = (\<lambda>q. if 0 < arrayindex N q \<and> nat (arrayindex N q - 1) \<in> ?R
                       then tarray t ! nat (arrayindex N q - 1) else tget N t3 q)"
        using reinsert_array_spec [OF N t3(1) pr room, of g] by blast
      let ?t5 = "t4\<lparr>tarray := take (nat n) (tarray t4)\<rparr>"
      have sh: "tsizearray t4 = n" "tdummy t4 = (nh = 0)" "length (tarray t4) = length (tarray t)"
        using t4(3) t3 a3 by (simp_all add: same_shape_def)
      have "tab_ok N ?t5" using True ok(5) sh n(1) by (intro tab_ok_array [OF t4(2)]) simp
      moreover have "tget N ?t5 = tget N t4" using n(1) by (auto simp: fun_eq_iff tget_def Let_def sh)
      moreover have "room_for ?t5 (card ?H)" using t4(4) by (simp add: room_for_def)
      moreover have "length (tnode t4) = m" using shape_length [OF t3(1) t4(2,3)] t3(2) by simp
      ultimately show ?thesis using True t4 sh a3 t3(2) by (auto simp: used_count_fresh)
    next
      case False
      then have "tsizearray t2 = n" "?R = {}" using t2(7) t1(1) by simp_all
      moreover from this have "t3 = t2" by (simp add: t3_def)
      ultimately show ?thesis using False t3 room by (simp add: used_count_fresh)
    qed
    then obtain t5 where t5: "(if n < tsizearray t
             then rbind (reinsert_array g (tarray t3) (nat (tsizearray t - n)) (nat n) t3) (\<lambda>u.
               Inr (u\<lparr>tarray := take (nat n) (tarray u)\<rparr>))
             else Inr t2) = Inr t5" "tab_ok N t5" "tsizearray t5 = n" "room_for t5 (card ?H)"
        "used_count (tnode t5) \<le> card ?R" "length (tnode t5) = m" "tdummy t5 = (nh = 0)"
        "tget N t5 = (\<lambda>q. if 0 < arrayindex N q \<and> nat (arrayindex N q - 1) \<in> ?R
                       then tarray t ! nat (arrayindex N q - 1) else tget N t3 q)"
      by blast
    have len: "length (tnode t) = 2 ^ tlsizenode t" using ok(2) by (simp add: sizenode_def)
    have "room_for t5 (card (hash_slots N (tnode t) (tsizearray t5) (length (tnode t))) + 0)" using t5(3,4) by simp
    from reinsert_hash_spec [OF N ok(7) order.refl t5(2) this, of g]
    obtain t6 where t6: "reinsert_hash N g (tnode t) (length (tnode t)) t5 = Inr t6" "tab_ok N t6" "same_shape t5 t6"
      "used_count (tnode t6) \<le> used_count (tnode t5) + card ?H"
      "tget N t6 = (\<lambda>q. if hget (tnode t) q \<noteq> Nil then hget (tnode t) q else tget N t5 q)"
      unfolding take_all [OF order.refl] t5(3) by blast
    have r: "resize N g t n nh = Inr t6"
      unfolding e0 t2(1) rbind_simps using t5(1) t6(1) unfolding t3_def len by simp
    have g: "tget N t6 q = tget N t q" for q
    proof (cases "in_array N t q")
      case True
      define a where "a = nat (arrayindex N q - 1)"
      have a: "int a = arrayindex N q - 1" "int a < tsizearray t" using True by (auto simp: a_def in_array_def)
      have R: "a \<in> ?R \<longleftrightarrow> n \<le> int a \<and> tarray t ! a \<noteq> Nil" using a(2) n(1) by (auto simp: live_slots_def)
      have "tget N t6 q = (if a \<in> ?R then tarray t ! a else if int a < n then tarray t1 ! a else Nil)"
        using in_array_hget [OF N t True] True a by (simp add: t6(5) t5(8) g3 in_array_def flip: a_def)
      also have "\<dots> = tarray t ! a" using R t1(4) [OF a(2)] by auto
      finally show ?thesis using True by (simp add: tget_def in_array_def a_def Let_def)
    next
      case False
      then have ht: "tget N t q = hget (tnode t) q" by (auto simp: tget_def in_array_def Let_def)
      have "tget N t5 q = Nil" if "hget (tnode t) q = Nil"
      proof -
        have "\<not> (0 < arrayindex N q \<and> nat (arrayindex N q - 1) \<in> ?R)" using False n(1) by (auto simp: in_array_def live_slots_def)
        then have "tget N t5 q = tget N t3 q" by (auto simp: t5(8))
        also have "\<dots> = Nil" using False t1(5) [of "nat (arrayindex N q - 1)"] unfolding g3 in_array_def by auto
        finally show ?thesis .
      qed
      then show ?thesis by (auto simp: t6(5) ht)
    qed
    have "tsizearray t6 = n" "tdummy t6 = (nh = 0)" "length (tnode t6) = m"
      using t6(3) t5 shape_length [OF t5(2) t6(2,3)] by (simp_all add: same_shape_def)
    then show ?thesis using r t6(2,4) t5(5) t2(4) g by (auto simp: rest_count_def fun_eq_iff)
  qed
qed

subsection \<open>Rehash\<close>

lemma card_le_split:
  assumes "finite (A :: int set)" shows "card A = card {a\<in>A. a \<le> n} + card {a\<in>A. \<not> a \<le> n}"
proof -
  have "A = {a\<in>A. a \<le> n} \<union> {a\<in>A. \<not> a \<le> n}" by auto
  moreover have "card ({a\<in>A. a \<le> n} \<union> {a\<in>A. \<not> a \<le> n}) = card {a\<in>A. a \<le> n} + card {a\<in>A. \<not> a \<le> n}"
    using assms by (intro card_Un_disjoint) auto
  ultimately show ?thesis by metis
qed

lemma card_live_slots:
  assumes "0 \<le> n"
  shows "card (live_slots (tarray t) (nat n) (nat (tsizearray t - n))) = card {a \<in> array_keys t (tsizearray t + 1). \<not> a \<le> n}"
proof -
  let ?A = "{a \<in> array_keys t (tsizearray t + 1). \<not> a \<le> n}"
  have inj: "inj_on (\<lambda>a. nat (a - 1)) ?A" by (auto simp: inj_on_def array_keys_def)
  have "(\<lambda>a. nat (a - 1)) ` ?A = live_slots (tarray t) (nat n) (nat (tsizearray t - n))"
  proof (intro set_eqI iffI)
    fix j assume "j \<in> live_slots (tarray t) (nat n) (nat (tsizearray t - n))"
    then have "int j + 1 \<in> ?A" using assms by (auto simp: live_slots_def array_keys_def)
    then show "j \<in> (\<lambda>a. nat (a - 1)) ` ?A" by (intro image_eqI [of _ _ "int j + 1"]) auto
  qed (use assms in \<open>auto simp: live_slots_def array_keys_def\<close>)
  then show ?thesis using card_image [OF inj] by simp
qed

lemma card_hash_slots:
  assumes N: "cvt_ok N" and ok: "nodes_ok (tnode t)" and n: "n \<le> MAXASIZE"
  shows "card (valued t (length (tnode t))) =
    card {a \<in> hash_keys N t (length (tnode t)). a \<le> n} + card (hash_slots N (tnode t) n (length (tnode t)))"
proof -
  let ?m = "length (tnode t)"
  let ?V = "{j \<in> valued t ?m. 0 < node_index N t j \<and> node_index N t j \<le> n}"
  have v: "valued t ?m = ?V \<union> hash_slots N (tnode t) n ?m"
    by (auto simp: valued_def hash_slots_def node_index_def)
  have c: "card (?V \<union> hash_slots N (tnode t) n ?m) = card ?V + card (hash_slots N (tnode t) n ?m)"
    by (intro card_Un_disjoint) (auto simp: hash_slots_def node_index_def)
  have i: "inj_on (node_index N t) ?V"
    by (rule inj_on_subset [OF node_index_inj [OF N ok order.refl]]) auto
  have "node_index N t ` ?V = {a \<in> hash_keys N t ?m. a \<le> n}" using n by (auto simp: hash_keys_def)
  then have "card {a \<in> hash_keys N t ?m. a \<le> n} = card ?V" using card_image [OF i] by simp
  then show ?thesis using c unfolding v [symmetric] by simp
qed

lemma hash_key_node:
  assumes t: "tab_ok N t" and a: "a \<in> hash_keys N t (length (tnode t))"
  shows "\<exists>j<length (tnode t). \<exists>k. nkey (tnode t ! j) = Live k \<and> arrayindex N k = a \<and> 0 < a \<and> \<not> a \<le> tsizearray t"
proof -
  obtain j where j: "j \<in> valued t (length (tnode t))" "a = node_index N t j" "0 < a" using a by (auto simp: hash_keys_def)
  obtain k where k: "nkey (tnode t ! j) = Live k" using valued_live [OF tab_okD(7) [OF t] j(1) order.refl] by blast
  have l: "j < length (tnode t)" using j(1) by (simp add: valued_def)
  have "\<not> (0 < arrayindex N k \<and> arrayindex N k \<le> tsizearray t)" using t l k unfolding tab_ok_def by (metis nth_mem)
  then show ?thesis using l k j by (auto simp: node_index_def)
qed

lemma card_Un3:
  assumes "finite A" "finite B" "finite C" "A \<inter> B = {}" "(A \<union> B) \<inter> C = {}"
  shows "card {a \<in> A \<union> B \<union> C. P a} = card {a\<in>A. P a} + card {a\<in>B. P a} + card {a\<in>C. P a}"
proof -
  have "{a \<in> A \<union> B \<union> C. P a} = ({a\<in>A. P a} \<union> {a\<in>B. P a}) \<union> {a\<in>C. P a}" by auto
  also have "card \<dots> = card ({a\<in>A. P a} \<union> {a\<in>B. P a}) + card {a\<in>C. P a}" using assms by (intro card_Un_disjoint) auto
  also have "card ({a\<in>A. P a} \<union> {a\<in>B. P a}) = card {a\<in>A. P a} + card {a\<in>B. P a}" using assms by (intro card_Un_disjoint) auto
  finally show ?thesis .
qed

text \<open>The indices that a rehash counts for the new key \<open>k\<close>.\<close>

definition all_keys :: "(lua_Number \<Rightarrow> int) \<Rightarrow> LTable \<Rightarrow> TValue \<Rightarrow> int set" where
  "all_keys N t k = array_keys t (tsizearray t + 1) \<union> hash_keys N t (length (tnode t)) \<union> ({arrayindex N k} \<inter> {0<..MAXASIZE})"

lemma rehash_spec:
  assumes N: "cvt_ok N" and t: "tab_ok N t" and k: "absent N t k"
  shows "rehash N g t k = Inl (LuaError LUA_ERRRUN ''table overflow'') \<or>
    (\<exists>t'. rehash N g t k = Inr t' \<and> tab_ok N t' \<and> tget N t' = tget N t \<and> has_room N t' k \<and>
       best (all_keys N t k) (MAXBITS + 1) (tsizearray t'))"
proof -
  note ok = tab_okD [OF t]
  let ?len = "length (tnode t)"
  let ?I = "array_keys t (tsizearray t + 1)" and ?H = "hash_keys N t ?len" and ?E = "{arrayindex N k} \<inter> {0<..MAXASIZE}"
  let ?A = "all_keys N t k"
  have d1: "?I \<inter> ?H = {}" using hash_key_node [OF t] by (fastforce simp: array_keys_def)
  have eH: "arrayindex N k \<notin> ?H"
  proof
    assume "arrayindex N k \<in> ?H"
    then obtain j l where j: "j < ?len" "nkey (tnode t ! j) = Live l" "arrayindex N l = arrayindex N k" "0 < arrayindex N k"
      using hash_key_node [OF t] by blast
    then have "tkey l = tkey k" using arrayindex_inj [OF N, of l k] by simp
    then show False using k j by (auto simp: absent_def fresh_def)
  qed
  have eI: "arrayindex N k \<notin> ?I" using k by (auto simp: absent_def array_keys_def)
  have d2: "(?I \<union> ?H) \<inter> ?E = {}" using eI eH by auto
  have is1: "index_set ?I" using ok(4) by (auto simp: index_set_def array_keys_def MAXASIZE_def MAXBITS_def)
  have is2: "index_set (?I \<union> ?H)" using is1 by (auto simp: index_set_def hash_keys_def)
  have isA: "index_set ?A" using is2 by (auto simp: index_set_def all_keys_def)
  obtain nums1 where n1: "numusearray t (replicate (MAXBITS + 1) 0) = Inr (int (card ?I), nums1)" "slices ?I nums1"
    using numusearray_spec [OF t] by blast
  obtain nums2 where n2: "numusehash_loop N t ?len nums1 0 0 = Inr (int (card (valued t ?len)), int (card ?H), nums2)"
    "slices (?I \<union> ?H) nums2"
    using numusehash_loop_spec [OF N ok(7) order.refl n1(2) is1 d1, of 0 0] by auto
  obtain nums3 where n3: "countint N k nums2 = Inr (if 0 < arrayindex N k \<and> arrayindex N k \<le> MAXASIZE then 1 else 0, nums3)"
    "slices ?A nums3"
    using countint_spec [OF n2(2) is2, of N k] eI eH unfolding all_keys_def by auto
  have cE: "(if 0 < arrayindex N k \<and> arrayindex N k \<le> MAXASIZE then 1 else 0) = int (card ?E)" by auto
  have cA: "int (card ?A) = int (card ?I) + int (card ?H) + int (card ?E)"
    unfolding all_keys_def using card_Un_disjoint [OF _ _ d2] card_Un_disjoint [OF _ _ d1] by simp
  obtain n where n: "computesizes nums3 (int (card ?A)) = Inr (int (card {a\<in>?A. a \<le> n}), n)" "best ?A (MAXBITS + 1) n"
    using computesizes_spec [OF n3(2) isA] by blast
  have nr: "0 \<le> n" "n \<le> MAXASIZE" using best_range [OF n(2)] by simp_all
  define nh where "nh = int (card ?I) + int (card (valued t ?len)) + 1 - int (card {a\<in>?A. a \<le> n})"
  have re: "rehash N g t k = resize N g t n nh"
    using n1(1) n2(1) n3(1) n(1) cE cA ok(2)
    by (simp add: rehash_def numusehash_def Let_def nh_def ac_simps del: replicate_Suc)
  have cle: "card {a\<in>?A. a \<le> n} = card {a\<in>?I. a \<le> n} + card {a\<in>?H. a \<le> n} + card {a\<in>?E. a \<le> n}"
    unfolding all_keys_def by (rule card_Un3) (use d1 d2 in auto)
  have "{a\<in>?E. a \<le> n} = (if 0 < arrayindex N k \<and> arrayindex N k \<le> n then {arrayindex N k} else {})" using nr by auto
  then have ce: "card {a\<in>?E. a \<le> n} = (if 0 < arrayindex N k \<and> arrayindex N k \<le> n then 1 else 0)" by simp
  have nh: "nh = int (rest_count N t n) + (if 0 < arrayindex N k \<and> arrayindex N k \<le> n then 0 else 1)"
    using card_le_split [of ?I n] card_live_slots [OF nr(1), of t] card_hash_slots [OF N ok(7) nr(2)] cle ce
    by (simp add: nh_def rest_count_def)
  have "nh < 2 ^ 32"
  proof -
    have "card ?I \<le> card {0<..tsizearray t}" by (rule card_mono) (auto simp: array_keys_def)
    moreover have "card (valued t ?len) \<le> card {..<?len}" by (rule card_mono) (auto simp: valued_def)
    moreover have "(2::nat) ^ tlsizenode t \<le> 2 ^ 26" using ok(1) by (intro power_increasing) auto
    ultimately show ?thesis using ok(2,4) by (simp add: nh_def sizenode_def)
  qed
  from resize_spec [OF N t nr _ this, of g] nh
  have "resize N g t n nh = Inl (LuaError LUA_ERRRUN ''table overflow'') \<and> 2 ^ MAXBITS < nh \<or>
    (\<exists>t'. resize N g t n nh = Inr t' \<and> tab_ok N t' \<and> tget N t' = tget N t \<and> tsizearray t' = n \<and>
       used_count (tnode t') \<le> rest_count N t n \<and> nh \<le> int (length (tnode t')) \<and> tdummy t' = (nh = 0))"
    by simp
  then show ?thesis
  proof
    assume "\<exists>t'. resize N g t n nh = Inr t' \<and> tab_ok N t' \<and> tget N t' = tget N t \<and> tsizearray t' = n \<and>
       used_count (tnode t') \<le> rest_count N t n \<and> nh \<le> int (length (tnode t')) \<and> tdummy t' = (nh = 0)"
    then obtain t' where t': "resize N g t n nh = Inr t'" "tab_ok N t'" "tget N t' = tget N t" "tsizearray t' = n"
      "used_count (tnode t') \<le> rest_count N t n" "nh \<le> int (length (tnode t'))" "tdummy t' = (nh = 0)" by blast
    have "has_room N t' k" using nh t'(4-7) by (auto simp: has_room_def in_array_def split: if_splits)
    then show ?thesis using re t' n(2) by auto
  qed (simp add: re)
qed

lemma luaH_set_spec:
  assumes N: "cvt_ok N" and t: "tab_ok N t" and k: "key_ok k"
  shows "put_with N (grow N (Suc d)) t k = Inl (LuaError LUA_ERRRUN ''table overflow'') \<or>
    (\<exists>s t'. put_with N (grow N (Suc d)) t k = Inr (s, t') \<and> located N t' k s \<and> tab_ok N t' \<and> tget N t' = tget N t)"
  using put_with_cases [OF N t k, of "grow N (Suc d)"]
proof
  assume "\<exists>s t'. put_with N (grow N (Suc d)) t k = Inr (s, t') \<and> ready N t k s t'"
  then show ?thesis by (auto simp: ready_def)
next
  assume "\<exists>l. put_with N (grow N (Suc d)) t k = grow N (Suc d) (t\<lparr>tlastfree := l\<rparr>) k \<and> tab_ok N (t\<lparr>tlastfree := l\<rparr>) \<and>
    absent N t k \<and> (tdummy t \<or> (\<forall>i<length (tnode t). used (tnode t ! i)))"
  then obtain l where l: "put_with N (grow N (Suc d)) t k = grow N (Suc d) (t\<lparr>tlastfree := l\<rparr>) k"
    "tab_ok N (t\<lparr>tlastfree := l\<rparr>)" "absent N t k" by blast
  let ?t = "t\<lparr>tlastfree := l\<rparr>"
  have g: "tget N ?t = tget N t" by (simp add: fun_eq_iff tget_def Let_def)
  have "absent N ?t k" using l(3) by (simp add: absent_def)
  from rehash_spec [OF N l(2) this, of "grow N d"] show ?thesis
  proof
    assume "\<exists>t'. rehash N (grow N d) ?t k = Inr t' \<and> tab_ok N t' \<and> tget N t' = tget N ?t \<and> has_room N t' k \<and>
       best (all_keys N ?t k) (MAXBITS + 1) (tsizearray t')"
    then obtain t1 where t1: "rehash N (grow N d) ?t k = Inr t1" "tab_ok N t1" "tget N t1 = tget N t" "has_room N t1 k"
      using g by auto
    let ?t1 = "t1\<lparr>tflags := 0\<rparr>"
    have "tab_ok N ?t1" "has_room N ?t1 k" using t1 by (simp_all add: tab_ok_flags has_room_def)
    then obtain s t' where "put_with N (grow N d) ?t1 k = Inr (s, t')" "ready N ?t1 k s t'"
      using put_with_room [OF N _ k] by blast
    then show ?thesis using l(1) t1 set_with_put [OF N t1(2) k] by (auto simp: ready_def)
  qed (simp add: l(1))
qed

subsection \<open>Look-up and update\<close>

text \<open>A conversion that \<open>lua_number2int\<close> may be.\<close>

definition number2int :: "lua_Number \<Rightarrow> int" where
  "number2int d = (case dbl_trunc d of Some i \<Rightarrow> if - (2 ^ 31) \<le> i \<and> i < 2 ^ 31 then i else 0 | None \<Rightarrow> 0)"

lemma trunc_zero: "luai_numeq d 0 \<Longrightarrow> dbl_trunc d = Some 0"
proof -
  assume "luai_numeq d 0"
  then have "dbl_key d = 0" by (simp add: luai_numeq_def dbl_key_0)
  then have "dbl_mag d = 0" by (auto simp: dbl_key_def split: if_splits)
  then show ?thesis by (simp add: dbl_trunc_def dbl_expo_def dbl_scaled_def dbl_sig_def dbl_ex_def dbl_frac_def)
qed

lemma number2int_ok: "cvt_ok number2int"
  unfolding cvt_ok_def
proof (intro conjI allI impI)
  fix d k assume k: "- (2 ^ 31) \<le> k \<and> k < 2 ^ 31 \<and> luai_numeq (dbl_of_int k) d"
  have tr: "dbl_trunc (dbl_of_int k) = Some k" using k by (intro dbl_int_exact) auto
  show "number2int d = k"
  proof (cases "d = dbl_of_int k")
    case True
    then show ?thesis using tr k by (simp add: number2int_def)
  next
    case False
    have z: "luai_numeq (dbl_of_int k) 0" using numeq_bits [of "dbl_of_int k" d] False k by auto
    then have "k = 0" using trunc_zero tr by simp
    moreover have "luai_numeq d 0" using z k numeq_trans numeq_sym by blast
    ultimately show ?thesis using trunc_zero by (simp add: number2int_def)
  qed
qed (auto simp: number2int_def split: option.splits)

lemma luaH_new_ok:
  assumes "0 \<le> na" "na \<le> MAXASIZE" "0 \<le> nh" "nh \<le> 2 ^ MAXBITS"
  shows "\<exists>t. luaH_new na nh = Inr t \<and> tab_ok N t \<and> tget N t = (\<lambda>_. Nil)"
proof -
  let ?t = "setarrayvector \<lparr>tflags = 255, tlsizenode = 0, tarray = [], tnode = [empty_node], tdummy = True, tlastfree = 0,
    tsizearray = 0\<rparr> na"
  have t: "tsizearray ?t = na" "tarray ?t = replicate (nat na) Nil" using assms(1) by (simp_all add: setarrayvector_def)
  then have p: "0 \<le> tsizearray ?t" "tsizearray ?t \<le> MAXASIZE" "tsizearray ?t \<le> int (length (tarray ?t))" using assms by simp_all
  have "nh < 2 ^ 32" using assms(4) by (simp add: MAXBITS_def)
  then obtain t' m where t': "setnodevector ?t nh = Inr t'" "tab_ok N t'" "tnode t' = replicate m empty_node"
    "tarray t' = tarray ?t" "tsizearray t' = tsizearray ?t"
    using setnodevector_spec [OF p assms(3), of N] assms(4) by auto
  have "tget N t' q = Nil" for q
    unfolding tget_fresh [OF t'(3)] using t t'(4,5) by (auto simp: in_array_def)
  then show ?thesis using t' by (auto simp: luaH_new_def)
qed

lemma table_value:
  assumes "cvt_ok N" "tab_ok N t" "look_ok k"
  shows "rbind (luaH_get N t k) (read_slot t) = Inr (tget N t k)"
  using get_spec [OF assms] by auto

lemma key_look: "key_ok k \<Longrightarrow> look_ok k"
  by (simp add: key_ok_def look_ok_def)

text \<open>
  Looking up a key, in the array part or along the chain of its main position, returns the value
  that the abstract map of the table has for it, for every table that satisfies the invariant.
\<close>

theorem luaH_get_value:
  assumes "cvt_ok N" "tab_ok N t" "look_ok k"
  shows "rbind (luaH_get N t k) (read_slot t) = Inr (tget N t k)"
  using assms by (rule table_value)

text \<open>
  C25. \<open>luaH_set\<close> refines the update of a map. On a table that satisfies the invariant it fails only
  with ``table overflow''; otherwise the invariant holds again, the contents are the same (through
  collisions, moved nodes and a rehash), the slot holds the value of the key, and after any value is
  stored in the slot every look-up sees the map updated at that key.
\<close>

theorem luaH_set_refines:
  assumes "cvt_ok N" "tab_ok N t" "key_ok k"
  shows "luaH_set N t k = Inl (LuaError LUA_ERRRUN ''table overflow'') \<or>
    (\<exists>s t'. luaH_set N t k = Inr (s, t') \<and> tab_ok N t' \<and> tget N t' = tget N t \<and>
       (\<forall>v. \<exists>t''. write_slot t' s v = Inr t'' \<and> tab_ok N t'' \<and>
          (\<forall>q. look_ok q \<longrightarrow>
             rbind (luaH_get N t'' q) (read_slot t'') = Inr (if tkey q = tkey k then v else tget N t q))))"
proof -
  let ?t = "t\<lparr>tflags := 0\<rparr>"
  have t: "tab_ok N ?t" using assms(2) by (simp add: tab_ok_flags)
  have e: "luaH_set N t k = put_with N (grow N (Suc 0)) ?t k"
    unfolding luaH_set_def GROW_DEPTH_def using set_with_put [OF assms(1-3)] by simp
  from luaH_set_spec [OF assms(1) t assms(3), of 0] show ?thesis
  proof
    assume "\<exists>s t'. put_with N (grow N (Suc 0)) ?t k = Inr (s, t') \<and> located N t' k s \<and> tab_ok N t' \<and> tget N t' = tget N ?t"
    then obtain s t' where t': "put_with N (grow N (Suc 0)) ?t k = Inr (s, t')" "located N t' k s" "tab_ok N t'" "tget N t' = tget N t"
      by auto
    have "\<exists>t''. write_slot t' s v = Inr t'' \<and> tab_ok N t'' \<and>
        (\<forall>q. look_ok q \<longrightarrow> rbind (luaH_get N t'' q) (read_slot t'') = Inr (if tkey q = tkey k then v else tget N t q))" for v
    proof -
      obtain t'' where "write_slot t' s v = Inr t''" "tab_ok N t''" "tget N t'' = upd (tget N t') k v"
        using store_spec [OF assms(1) t'(3) key_ok_not_Nil [OF assms(3)] t'(2)] by blast
      then show ?thesis using table_value [OF assms(1)] t'(4) by (auto simp: upd_def)
    qed
    then show ?thesis using e t' by metis
  qed (simp add: e)
qed

text \<open>The keys that a rehash counts are the integer keys that have a value, and the new key.\<close>

lemma all_keys_eq:
  assumes N: "cvt_ok N" and t: "tab_ok N t"
  shows "all_keys N t k = {a. 0 < a \<and> a \<le> MAXASIZE \<and> (tget N t (Number (dbl_of_int a)) \<noteq> Nil \<or> arrayindex N k = a)}"
proof -
  note ok = tab_okD [OF t]
  have "a \<in> array_keys t (tsizearray t + 1) \<or> a \<in> hash_keys N t (length (tnode t)) \<longleftrightarrow> tget N t (Number (dbl_of_int a)) \<noteq> Nil"
    if a: "0 < a" "a \<le> MAXASIZE" for a
  proof -
    let ?q = "Number (dbl_of_int a)"
    have r: "- (2 ^ 31) < a" "a < 2 ^ 31" using a by (simp_all add: MAXASIZE_def MAXBITS_def)
    have i: "arrayindex N ?q = a" by (rule key_ok_int(2) [OF N r])
    show ?thesis
    proof (cases "a \<le> tsizearray t")
      case True
      have "a \<notin> hash_keys N t (length (tnode t))" using hash_key_node [OF t, of a] True by auto
      then show ?thesis using True a i by (simp add: tget_def array_keys_def)
    next
      case False
      then have g: "tget N t ?q = hget (tnode t) ?q" by (simp add: tget_def i)
      have "a \<in> hash_keys N t (length (tnode t)) \<longleftrightarrow> (\<exists>l v. (l, v) \<in> entries (tnode t) \<and> tkey l = tkey ?q)"
      proof
        assume "a \<in> hash_keys N t (length (tnode t))"
        then obtain j where j: "j \<in> valued t (length (tnode t))" "node_index N t j = a" by (auto simp: hash_keys_def)
        then obtain l where l: "nkey (tnode t ! j) = Live l" using valued_live [OF ok(7) j(1) order.refl] by blast
        then have "tkey l = tkey ?q" using j(2) a i arrayindex_inj [OF N, of l ?q] by (simp add: node_index_def)
        moreover have "(l, nval (tnode t ! j)) \<in> entries (tnode t)" using j(1) l by (intro entriesI) (auto simp: valued_def)
        ultimately show "\<exists>l v. (l, v) \<in> entries (tnode t) \<and> tkey l = tkey ?q" by (intro exI conjI)
      next
        assume "\<exists>l v. (l, v) \<in> entries (tnode t) \<and> tkey l = tkey ?q"
        then obtain l v where "(l, v) \<in> entries (tnode t)" and l: "tkey l = tkey ?q" by (elim exE conjE)
        then obtain j where j: "j < length (tnode t)" "nkey (tnode t ! j) = Live l" "nval (tnode t ! j) = v" "v \<noteq> Nil" by (elim entriesE)
        have "arrayindex N l = a" using l i arrayindex_tkey [OF N] by metis
        then have "node_index N t j = a" using j(2) by (simp add: node_index_def)
        moreover have "j \<in> valued t (length (tnode t))" using j by (simp add: valued_def)
        ultimately show "a \<in> hash_keys N t (length (tnode t))" using a by (auto simp: hash_keys_def)
      qed
      also have "\<dots> \<longleftrightarrow> hget (tnode t) ?q \<noteq> Nil"
      proof -
        have h: "(\<exists>l. (l, v) \<in> entries (tnode t) \<and> tkey l = tkey ?q) \<longleftrightarrow> hget (tnode t) ?q = v \<and> v \<noteq> Nil" for v
          using hget_entries [OF ok(7), of ?q v] by simp
        have "(\<exists>l v. (l, v) \<in> entries (tnode t) \<and> tkey l = tkey ?q) \<longleftrightarrow>
          (\<exists>v l. (l, v) \<in> entries (tnode t) \<and> tkey l = tkey ?q)" by (rule ex_comm)
        then show ?thesis unfolding h by simp
      qed
      finally show ?thesis using False g by (auto simp: array_keys_def)
    qed
  qed
  moreover have "0 < a \<and> a \<le> MAXASIZE" if "a \<in> array_keys t (tsizearray t + 1) \<or> a \<in> hash_keys N t (length (tnode t))" for a
    using that ok(4) by (auto simp: array_keys_def hash_keys_def MAXASIZE_def MAXBITS_def)
  ultimately show ?thesis unfolding all_keys_def by (auto simp: set_eq_iff)
qed

text \<open>
  C26. A rehash keeps the contents and makes the array as large as it can be with more than half of
  its slots in use: its size is the largest power of two \<open>n\<close> for which more than \<open>n / 2\<close> of the keys
  from 1 to \<open>n\<close> have a value or are the new key, or 0.
\<close>

theorem rehash_array_size:
  assumes "cvt_ok N" "tab_ok N t" "absent N t k"
  defines "A \<equiv> {a. 0 < a \<and> a \<le> MAXASIZE \<and> (tget N t (Number (dbl_of_int a)) \<noteq> Nil \<or> arrayindex N k = a)}"
  shows "rehash N g t k = Inl (LuaError LUA_ERRRUN ''table overflow'') \<or>
    (\<exists>t'. rehash N g t k = Inr t' \<and> tab_ok N t' \<and> tget N t' = tget N t \<and> best A (MAXBITS + 1) (tsizearray t'))"
  using rehash_spec [OF assms(1-3), of g] unfolding A_def all_keys_eq [OF assms(1,2), of k, symmetric] by blast

definition table_0 :: LTable where
  "table_0 = \<lparr>tflags = 255, tlsizenode = 0, tarray = [], tnode = [empty_node], tdummy = True, tlastfree = 0, tsizearray = 0\<rparr>"

lemma table_0_new: "luaH_new 0 0 = Inr table_0"
  by (simp add: luaH_new_def setarrayvector_def setnodevector_def table_0_def)

lemma table_0_ok: "tab_ok N table_0" "tget N table_0 = (\<lambda>_. Nil)"
  using luaH_new_ok [of 0 0 N] table_0_new by (auto simp: MAXASIZE_def)

lemma table_0_absent: "k \<noteq> Nil \<Longrightarrow> absent N table_0 k"
  by (auto simp: absent_def fresh_def table_0_def empty_node_def)

theorem luaH_get_value_witness:
  "rbind (luaH_get number2int table_0 (Str ''key'')) (read_slot table_0) = Inr Nil"
  using luaH_get_value [OF number2int_ok table_0_ok(1), of "Str ''key''"] by (simp add: table_0_ok look_ok_def)

theorem luaH_set_refines_witness:
  "\<exists>s t' t''. luaH_set number2int table_0 (Str ''x'') = Inr (s, t') \<and> write_slot t' s (Boolean True) = Inr t'' \<and>
     rbind (luaH_get number2int t'' (Str ''x'')) (read_slot t'') = Inr (Boolean True)"
proof -
  have k: "key_ok (Str ''x'')" by (simp add: key_ok_def)
  have "luaH_set number2int table_0 (Str ''x'') \<noteq> Inl (LuaError LUA_ERRRUN ''table overflow'')" by code_simp
  with luaH_set_refines [OF number2int_ok table_0_ok(1) k]
  obtain s t' where t': "luaH_set number2int table_0 (Str ''x'') = Inr (s, t')"
    "\<exists>t''. write_slot t' s (Boolean True) = Inr t'' \<and> tab_ok number2int t'' \<and>
       (\<forall>q. look_ok q \<longrightarrow> rbind (luaH_get number2int t'' q) (read_slot t'') =
          Inr (if tkey q = tkey (Str ''x'') then Boolean True else tget number2int table_0 q))"
    by blast
  then obtain t'' where t'': "write_slot t' s (Boolean True) = Inr t''"
    "\<forall>q. look_ok q \<longrightarrow> rbind (luaH_get number2int t'' q) (read_slot t'') =
          Inr (if tkey q = tkey (Str ''x'') then Boolean True else tget number2int table_0 q)" by blast
  have "rbind (luaH_get number2int t'' (Str ''x'')) (read_slot t'') = Inr (Boolean True)"
    using t''(2) key_look [OF k] by simp
  with t'(1) t''(1) show ?thesis by (intro exI conjI)
qed

theorem rehash_array_size_witness:
  "\<exists>t'. rehash number2int (grow number2int 0) table_0 (Number (dbl_of_int 1)) = Inr t' \<and> tsizearray t' = 1 \<and>
     best {a. 0 < a \<and> a \<le> MAXASIZE \<and> (tget number2int table_0 (Number (dbl_of_int a)) \<noteq> Nil \<or>
       arrayindex number2int (Number (dbl_of_int 1)) = a)} (MAXBITS + 1) (tsizearray t')"
proof -
  have e: "(case rehash number2int (grow number2int 0) table_0 (Number (dbl_of_int 1)) of Inr t' \<Rightarrow> tsizearray t' = 1 | Inl _ \<Rightarrow> False)"
    by code_simp
  show ?thesis
    using e rehash_array_size [OF number2int_ok table_0_ok(1) table_0_absent, of "Number (dbl_of_int 1)" "grow number2int 0"]
    by (auto split: sum.splits)
qed

end
