(* ===== verification/TabLib.thy ===== *)
theory TabLib
  imports TableProps Lexer
begin

text \<open>
  The library for tables, \<open>lua/ltablib.c\<close>, on the table that is its first argument; the checks of the
  types of the arguments are left to the caller, who passes values. The functions that call Lua
  functions work on a state \<open>'s\<close> that the calls may change, the table included, through the raw reads
  and writes \<open>rget\<close> and \<open>rset\<close> of its integer keys; a call returns the first result of the function.
  Sums of two positions are exact: a table has less than \<open>2 ^ 30\<close> elements. Messages are without the
  position that \<open>luaL_where\<close> puts in front of them.
\<close>

type_synonym 's getter = "'s \<Rightarrow> int \<Rightarrow> TValue res"
type_synonym 's setter = "'s \<Rightarrow> int \<Rightarrow> TValue \<Rightarrow> 's res"
type_synonym 's caller = "TValue list \<Rightarrow> 's \<Rightarrow> (TValue \<times> 's) res"

definition lua_rawgeti :: "LTable getter" where
  "lua_rawgeti t n = rbind (luaH_getnum t n) (read_slot t)"

definition lua_rawseti :: "(lua_Number \<Rightarrow> int) \<Rightarrow> LTable setter" where
  "lua_rawseti N t n v = store_at v (luaH_setnum N t n)"

definition luaL_error :: "string \<Rightarrow> 'a res" where
  "luaL_error msg = Inl (LuaError LUA_ERRRUN msg)"

definition LUA_QL :: "string \<Rightarrow> string" where "LUA_QL x = [CHR 0x27] @ x @ [CHR 0x27]"

text \<open>\<open>luaT_typenames\<close> of \<open>lua/ltm.c\<close>.\<close>

definition luaT_typenames :: "string list" where
  "luaT_typenames = [''nil'', ''boolean'', ''userdata'', ''number'', ''string'', ''table'', ''function'',
     ''userdata'', ''thread'', ''proto'', ''upval'']"

definition luaL_typename :: "TValue \<Rightarrow> string" where
  "luaL_typename v = luaT_typenames ! nat (ttype v)"

subsection \<open>Traversal\<close>

function foreachi_loop :: "'s getter \<Rightarrow> 's caller \<Rightarrow> int \<Rightarrow> int \<Rightarrow> 's \<Rightarrow> (TValue option \<times> 's) res" where
  "foreachi_loop rget call i n s =
     (if i \<le> n then
        rbind (rget s i) (\<lambda>v.
        rbind (call [Number (dbl_of_int i), v] s) (\<lambda>(r, s).
        if r \<noteq> Nil then Inr (Some r, s) else foreachi_loop rget call (i + 1) n s))
      else Inr (None, s))"
  by pat_completeness auto
termination by (relation "measure (\<lambda>(rget, call, i, n, s). nat (n + 1 - i))") auto

declare foreachi_loop.simps [simp del]

definition foreachi :: "'s getter \<Rightarrow> ('s \<Rightarrow> int res) \<Rightarrow> 's caller \<Rightarrow> 's \<Rightarrow> (TValue option \<times> 's) res" where
  "foreachi rget rlen call s = rbind (rlen s) (\<lambda>n. foreachi_loop rget call 1 n s)"

text \<open>The loop ends when the traversal does; \<open>fuel\<close> bounds the entries it visits.\<close>

fun foreach_loop :: "nat \<Rightarrow> ('s \<Rightarrow> TValue \<Rightarrow> (TValue \<times> TValue) option res) \<Rightarrow> 's caller \<Rightarrow> TValue \<Rightarrow> 's \<Rightarrow>
    (TValue option \<times> 's) res" where
  "foreach_loop 0 nx call key s = Inl (UB ''out of fuel'')"
| "foreach_loop (Suc fuel) nx call key s =
     rbind (nx s key) (\<lambda>e. case e of
       None \<Rightarrow> Inr (None, s)
     | Some (k, v) \<Rightarrow>
         rbind (call [k, v] s) (\<lambda>(r, s).
         if r \<noteq> Nil then Inr (Some r, s) else foreach_loop fuel nx call k s))"

definition foreach where "foreach fuel nx call s = foreach_loop fuel nx call Nil s"

fun maxn_loop :: "nat \<Rightarrow> (lua_Number \<Rightarrow> int) \<Rightarrow> LTable \<Rightarrow> TValue \<Rightarrow> lua_Number \<Rightarrow> lua_Number res" where
  "maxn_loop 0 N t key mx = Inl (UB ''out of fuel'')"
| "maxn_loop (Suc fuel) N t key mx =
     rbind (luaH_next N t key) (\<lambda>e. case e of
       None \<Rightarrow> Inr mx
     | Some (k, v) \<Rightarrow>
         maxn_loop fuel N t k (case k of Number d \<Rightarrow> if luai_numlt mx d then d else mx | _ \<Rightarrow> mx))"

text \<open>A traversal of an unchanged table visits every slot at most once.\<close>

definition maxn :: "(lua_Number \<Rightarrow> int) \<Rightarrow> LTable \<Rightarrow> lua_Number res" where
  "maxn N t = maxn_loop (nat (tsizearray t) + length (tnode t) + 1) N t Nil 0"

definition getn :: "LTable \<Rightarrow> lua_Number res" where
  "getn t = rmap dbl_of_int (luaH_getn t)"

definition setn :: "LTable \<Rightarrow> LTable res" where
  "setn t = luaL_error (LUA_QL ''setn'' @ '' is obsolete'')"

subsection \<open>Insertion and removal\<close>

function insert_shift :: "'s getter \<Rightarrow> 's setter \<Rightarrow> int \<Rightarrow> int \<Rightarrow> 's \<Rightarrow> 's res" where
  "insert_shift rget rset i pos s =
     (if i > pos then
        rbind (rget s (i - 1)) (\<lambda>v. rbind (rset s i v) (\<lambda>s. insert_shift rget rset (i - 1) pos s))
      else Inr s)"
  by pat_completeness auto
termination by (relation "measure (\<lambda>(rget, rset, i, pos, s). nat (i - pos))") auto

declare insert_shift.simps [simp del]

text \<open>\<open>pos\<close> is the second of three arguments, and absent with two.\<close>

definition tinsert :: "'s getter \<Rightarrow> 's setter \<Rightarrow> ('s \<Rightarrow> int res) \<Rightarrow> int \<Rightarrow> int option \<Rightarrow> TValue \<Rightarrow> 's \<Rightarrow> 's res" where
  "tinsert rget rset rlen nargs pos v s =
     rbind (rlen s) (\<lambda>n.
     let e = n + 1 in
     if nargs = 2 then rset s e v
     else if nargs = 3 then
       (case pos of None \<Rightarrow> luaL_error ''number expected'' | Some pos \<Rightarrow>
          let e = (if pos > e then pos else e) in
          rbind (insert_shift rget rset e pos s) (\<lambda>s. rset s pos v))
     else luaL_error (''wrong number of arguments to '' @ LUA_QL ''insert''))"

function remove_shift :: "'s getter \<Rightarrow> 's setter \<Rightarrow> int \<Rightarrow> int \<Rightarrow> 's \<Rightarrow> 's res" where
  "remove_shift rget rset pos e s =
     (if pos < e then
        rbind (rget s (pos + 1)) (\<lambda>v. rbind (rset s pos v) (\<lambda>s. remove_shift rget rset (pos + 1) e s))
      else Inr s)"
  by pat_completeness auto
termination by (relation "measure (\<lambda>(rget, rset, pos, e, s). nat (e - pos))") auto

declare remove_shift.simps [simp del]

definition tremove :: "'s getter \<Rightarrow> 's setter \<Rightarrow> ('s \<Rightarrow> int res) \<Rightarrow> int option \<Rightarrow> 's \<Rightarrow> (TValue option \<times> 's) res" where
  "tremove rget rset rlen pos s =
     rbind (rlen s) (\<lambda>e.
     let pos = (case pos of None \<Rightarrow> e | Some p \<Rightarrow> p) in
     if \<not> (1 \<le> pos \<and> pos \<le> e) then Inr (None, s)
     else
       rbind (rget s pos) (\<lambda>r.
       rbind (remove_shift rget rset pos e s) (\<lambda>s.
       rmap (Pair (Some r)) (rset s e Nil))))"

subsection \<open>Concatenation\<close>

definition addfield :: "clib \<Rightarrow> LTable \<Rightarrow> int \<Rightarrow> string \<Rightarrow> string res" where
  "addfield C t i b =
     rbind (lua_rawgeti t i) (\<lambda>v. case v of
       Str s \<Rightarrow> Inr (b @ s)
     | Number d \<Rightarrow> Inr (b @ c_num2str C d)
     | _ \<Rightarrow>
         rbind (luaO_pushvfstring (c_num2str C) (c_ptr2str C)
             (''invalid value (%s) at index %d in table for '' @ LUA_QL ''concat'')
             [VString (Some (luaL_typename v)), VInt i]) luaL_error)"

function tconcat_loop :: "clib \<Rightarrow> LTable \<Rightarrow> string \<Rightarrow> int \<Rightarrow> int \<Rightarrow> string \<Rightarrow> string res" where
  "tconcat_loop C t sep i lim b =
     (if i < lim then rbind (addfield C t i b) (\<lambda>b. tconcat_loop C t sep (i + 1) lim (b @ sep))
      else if i = lim then addfield C t i b
      else Inr b)"
  by pat_completeness auto
termination by (relation "measure (\<lambda>(C, t, sep, i, lim, b). nat (lim - i))") auto

declare tconcat_loop.simps [simp del]

definition tconcat :: "clib \<Rightarrow> LTable \<Rightarrow> string option \<Rightarrow> int option \<Rightarrow> int option \<Rightarrow> string res" where
  "tconcat C t sep i lim =
     (let sep = (case sep of None \<Rightarrow> [] | Some s \<Rightarrow> s); i = (case i of None \<Rightarrow> 1 | Some i \<Rightarrow> i) in
      rbind (case lim of None \<Rightarrow> luaH_getn t | Some l \<Rightarrow> Inr l) (\<lambda>lim. tconcat_loop C t sep i lim []))"

subsection \<open>Sorting\<close>

text \<open>\<open>sort_comp\<close> is the order function or \<open>lua_lessthan\<close>, on the two values.\<close>

type_synonym 's order = "TValue \<Rightarrow> TValue \<Rightarrow> 's \<Rightarrow> (bool \<times> 's) res"

definition sort_comp :: "'s caller option \<Rightarrow> 's order \<Rightarrow> 's order" where
  "sort_comp f lt a b s = (case f of
     Some call \<Rightarrow> rmap (\<lambda>(r, s). (\<not> l_isfalse r, s)) (call [a, b] s)
   | None \<Rightarrow> lt a b s)"

text \<open>\<open>set2\<close>: the value on top of the stack goes to the first position, the next one to the second.\<close>

definition set2 :: "'s setter \<Rightarrow> int \<Rightarrow> int \<Rightarrow> TValue \<Rightarrow> TValue \<Rightarrow> 's \<Rightarrow> 's res" where
  "set2 rset i j v w s = rbind (rset s i v) (\<lambda>s. rset s j w)"

function scan_up :: "'s getter \<Rightarrow> 's order \<Rightarrow> TValue \<Rightarrow> int \<Rightarrow> int \<Rightarrow> 's \<Rightarrow> (int \<times> TValue \<times> 's) res" where
  "scan_up rget cmp p u i0 s =
     (let i = i0 + 1 in
      rbind (rget s i) (\<lambda>v.
      rbind (cmp v p s) (\<lambda>(b, s).
      if b then
        (if i > u then luaL_error ''invalid order function for sorting'' else scan_up rget cmp p u i s)
      else Inr (i, v, s))))"
  by pat_completeness auto
termination by (relation "measure (\<lambda>(rget, cmp, p, u, i, s). nat (u + 1 - i))") auto

function scan_down :: "'s getter \<Rightarrow> 's order \<Rightarrow> TValue \<Rightarrow> int \<Rightarrow> int \<Rightarrow> 's \<Rightarrow> (int \<times> TValue \<times> 's) res" where
  "scan_down rget cmp p l j0 s =
     (let j = j0 - 1 in
      rbind (rget s j) (\<lambda>v.
      rbind (cmp p v s) (\<lambda>(b, s).
      if b then
        (if j < l then luaL_error ''invalid order function for sorting'' else scan_down rget cmp p l j s)
      else Inr (j, v, s))))"
  by pat_completeness auto
termination by (relation "measure (\<lambda>(rget, cmp, p, l, j, s). nat (j + 1 - l))") auto

declare scan_up.simps [simp del] scan_down.simps [simp del]

lemma scan_up_advances: "scan_up rget cmp p u i s = Inr (i', v, s') \<Longrightarrow> i < i'"
  by (induction rget cmp p u i s rule: scan_up.induct, subst (asm) scan_up.simps)
    (auto simp: Let_def luaL_error_def rbind_Inr_iff split: if_splits prod.splits, fastforce)

lemma scan_down_advances: "scan_down rget cmp p l j s = Inr (j', v, s') \<Longrightarrow> j' < j"
  by (induction rget cmp p l j s rule: scan_down.induct, subst (asm) scan_down.simps)
    (auto simp: Let_def luaL_error_def rbind_Inr_iff split: if_splits prod.splits, fastforce)

text \<open>The inner loop; its result is the final \<open>i\<close>.\<close>

function part_loop :: "'s getter \<Rightarrow> 's setter \<Rightarrow> 's order \<Rightarrow> TValue \<Rightarrow> int \<Rightarrow> int \<Rightarrow> int \<Rightarrow> int \<Rightarrow> 's \<Rightarrow>
    (int \<times> 's) res" where
  "part_loop rget rset cmp p l u i j s =
     rbind (scan_up rget cmp p u i s) (\<lambda>(i1, ai, s).
     rbind (scan_down rget cmp p l j s) (\<lambda>(j1, aj, s).
     if j1 < i1 then Inr (i1, s)
     else rbind (set2 rset i1 j1 aj ai s) (\<lambda>s. part_loop rget rset cmp p l u i1 j1 s)))"
  by pat_completeness auto
termination
  by (relation "measure (\<lambda>(rget, rset, cmp, p, l, u, i, j, s). nat (j - i))")
    (auto dest!: scan_up_advances scan_down_advances)

declare part_loop.simps [simp del]

text \<open>The steps of \<open>auxsort\<close>: the two ends, the middle element, and the partition around it.\<close>

definition sort_ends :: "'s getter \<Rightarrow> 's setter \<Rightarrow> 's order \<Rightarrow> int \<Rightarrow> int \<Rightarrow> 's \<Rightarrow> 's res" where
  "sort_ends rget rset cmp l u s =
     rbind (rget s l) (\<lambda>al.
     rbind (rget s u) (\<lambda>au.
     rbind (cmp au al s) (\<lambda>(b, s).
     if b then set2 rset l u au al s else Inr s)))"

definition sort_middle :: "'s getter \<Rightarrow> 's setter \<Rightarrow> 's order \<Rightarrow> int \<Rightarrow> int \<Rightarrow> int \<Rightarrow> 's \<Rightarrow> 's res" where
  "sort_middle rget rset cmp l u i s =
     rbind (rget s i) (\<lambda>ai.
     rbind (rget s l) (\<lambda>al.
     rbind (cmp ai al s) (\<lambda>(b, s).
     if b then set2 rset i l al ai s
     else
       rbind (rget s u) (\<lambda>au.
       rbind (cmp au ai s) (\<lambda>(b, s).
       if b then set2 rset i u au ai s else Inr s)))))"

definition sort_partition :: "'s getter \<Rightarrow> 's setter \<Rightarrow> 's order \<Rightarrow> int \<Rightarrow> int \<Rightarrow> int \<Rightarrow> 's \<Rightarrow> (int \<times> 's) res" where
  "sort_partition rget rset cmp l u i s =
     rbind (rget s i) (\<lambda>p.
     rbind (rget s (u - 1)) (\<lambda>v.
     rbind (set2 rset i (u - 1) v p s) (\<lambda>s.
     rbind (part_loop rget rset cmp p l u l (u - 1) s) (\<lambda>(i, s).
     rbind (rget s (u - 1)) (\<lambda>v.
     rbind (rget s i) (\<lambda>ai.
     rmap (Pair i) (set2 rset (u - 1) i ai v s)))))))"

text \<open>
  The recursive call takes the smaller half, the loop goes on with the larger one. An order
  function that answers at random can keep it going for ever, so it takes fuel.
\<close>

fun auxsort :: "nat \<Rightarrow> 's getter \<Rightarrow> 's setter \<Rightarrow> 's order \<Rightarrow> int \<Rightarrow> int \<Rightarrow> 's \<Rightarrow> 's res" where
  "auxsort 0 rget rset cmp l u s = Inl (UB ''out of fuel'')"
| "auxsort (Suc fuel) rget rset cmp l u s =
     (if \<not> l < u then Inr s
      else
        rbind (sort_ends rget rset cmp l u s) (\<lambda>s.
        if u - l = 1 then Inr s
        else
          rbind (sort_middle rget rset cmp l u ((l + u) div 2) s) (\<lambda>s.
          if u - l = 2 then Inr s
          else
            rbind (sort_partition rget rset cmp l u ((l + u) div 2) s) (\<lambda>(i, s).
            if i - l < u - i
            then rbind (auxsort fuel rget rset cmp l (i - 1) s) (auxsort fuel rget rset cmp (i + 1) u)
            else rbind (auxsort fuel rget rset cmp (i + 1) u s) (auxsort fuel rget rset cmp l (i - 1))))))"

text \<open>\<open>sort\<close>: \<open>f\<close> is the order function, when there is one, \<open>lessthan\<close> is \<open>lua_lessthan\<close>.\<close>

definition tsort :: "nat \<Rightarrow> 's getter \<Rightarrow> 's setter \<Rightarrow> ('s \<Rightarrow> int res) \<Rightarrow> 's caller option \<Rightarrow> 's order \<Rightarrow> 's \<Rightarrow> 's res" where
  "tsort fuel rget rset rlen f lessthan s =
     rbind (rlen s) (\<lambda>n. auxsort fuel rget rset (sort_comp f lessthan) 1 n s)"

end
