(* ===== verification/TabSort.thy ===== *)
theory TabSort
  imports TabLib "HOL-Library.Multiset"
begin

text \<open>
  The sort of \<open>lua/ltablib.c\<close> sorts. The store it works on is described by a contract, raw reads and
  writes of integer keys that hold a value, which tables satisfy; the order function by another one, a strict
  weak order on the values. A list between two positions is \<open>permuted\<close> when the values are the
  same with their multiplicities and everything outside is untouched.
\<close>

subsection \<open>Permutations of a range\<close>

definition permuted :: "int \<Rightarrow> int \<Rightarrow> (int \<Rightarrow> 'a) \<Rightarrow> (int \<Rightarrow> 'a) \<Rightarrow> bool" where
  "permuted l u f g \<longleftrightarrow>
     (\<forall>i. i \<notin> {l..u} \<longrightarrow> g i = f i) \<and> image_mset g (mset_set {l..u}) = image_mset f (mset_set {l..u})"

lemma permuted_refl [simp]: "permuted l u f f"
  by (simp add: permuted_def)

lemma permuted_trans: "permuted l u f g \<Longrightarrow> permuted l u g h \<Longrightarrow> permuted l u f h"
  by (simp add: permuted_def)

lemma permuted_image: "permuted l u f g \<Longrightarrow> g ` {l..u} = f ` {l..u}"
proof -
  assume "permuted l u f g"
  then have "set_mset (image_mset g (mset_set {l..u})) = set_mset (image_mset f (mset_set {l..u}))"
    by (simp add: permuted_def)
  then show ?thesis by simp
qed

lemma permuted_swap:
  assumes "i \<in> {l..u}" "j \<in> {l..u}"
  shows "permuted l u f (f(i := f j, j := f i))"
proof -
  let ?t = "\<lambda>k. if k = i then j else if k = j then i else k"
  have inj: "inj_on ?t {l..u}" by (auto simp: inj_on_def)
  have "?t ` {l..u} = {l..u}"
  proof
    show "?t ` {l..u} \<subseteq> {l..u}" using assms by auto
    show "{l..u} \<subseteq> ?t ` {l..u}"
    proof
      fix k assume "k \<in> {l..u}"
      then have "k = ?t (?t k)" "?t k \<in> {l..u}" using assms by auto
      then show "k \<in> ?t ` {l..u}" by blast
    qed
  qed
  then have "image_mset ?t (mset_set {l..u}) = mset_set {l..u}"
    using image_mset_mset_set [OF inj] by simp
  then have "image_mset f (mset_set {l..u}) = image_mset f (image_mset ?t (mset_set {l..u}))" by simp
  also have "\<dots> = image_mset (f \<circ> ?t) (mset_set {l..u})" by (simp add: multiset.map_comp)
  also have "f \<circ> ?t = f(i := f j, j := f i)" by (auto simp: fun_eq_iff)
  finally have m: "image_mset f (mset_set {l..u}) = image_mset (f(i := f j, j := f i)) (mset_set {l..u})" .
  have "(f(i := f j, j := f i)) k = f k" if "k \<notin> {l..u}" for k using that assms by auto
  with m [symmetric] show ?thesis unfolding permuted_def by blast
qed

lemma permuted_mono:
  assumes "permuted l' u' f g" "l \<le> l'" "u' \<le> u"
  shows "permuted l u f g"
proof -
  let ?R = "{l..u} - {l'..u'}"
  have "{l'..u'} \<subseteq> {l..u}" using assms(2,3) by auto
  then have "{l..u} = {l'..u'} \<union> ?R" by auto
  then have split: "mset_set {l..u} = mset_set {l'..u'} + mset_set ?R"
    using mset_set_Union [of "{l'..u'}" ?R] by auto
  have "image_mset g (mset_set ?R) = image_mset f (mset_set ?R)"
    using assms(1) by (intro image_mset_cong) (auto simp: permuted_def)
  with assms(1) split have "image_mset g (mset_set {l..u}) = image_mset f (mset_set {l..u})"
    by (simp add: permuted_def)
  then show ?thesis using assms by (auto simp: permuted_def)
qed

subsection \<open>The contracts\<close>

locale int_store =
  fixes rget :: "'s getter" and rset :: "'s setter" and ok :: "'s \<Rightarrow> bool" and val :: "'s \<Rightarrow> int \<Rightarrow> TValue"
  assumes get_law: "ok s \<Longrightarrow> \<bar>i\<bar> < 2 ^ 31 \<Longrightarrow> rget s i = Inr (val s i)"
    and set_law: "ok s \<Longrightarrow> \<bar>i\<bar> < 2 ^ 31 \<Longrightarrow> val s i \<noteq> Nil \<Longrightarrow>
      \<exists>s'. rset s i v = Inr s' \<and> ok s' \<and> val s' = (val s)(i := v)"
    and grow_law: "ok s \<Longrightarrow> \<bar>i\<bar> < 2 ^ 31 \<Longrightarrow>
      (\<exists>m. rset s i v = Inl (LuaError LUA_ERRRUN m)) \<or> (\<exists>s'. rset s i v = Inr s' \<and> ok s' \<and> val s' = (val s)(i := v))"

text \<open>With a length: some border of the values.\<close>

locale list_store = int_store rget rset ok val
  for rget :: "'s getter" and rset :: "'s setter" and ok :: "'s \<Rightarrow> bool" and val :: "'s \<Rightarrow> int \<Rightarrow> TValue" +
  fixes rlen :: "'s \<Rightarrow> int res"
  assumes len_law: "ok s \<Longrightarrow> \<exists>n. rlen s = Inr n \<and> 0 \<le> n \<and> n < 2 ^ 31 \<and> (n = 0 \<or> val s n \<noteq> Nil) \<and>
      (n + 1 < 2 ^ 31 \<longrightarrow> val s (n + 1) = Nil)"

definition strict_weak :: "'a set \<Rightarrow> ('a \<Rightarrow> 'a \<Rightarrow> bool) \<Rightarrow> bool" where
  "strict_weak A lt \<longleftrightarrow> (\<forall>a\<in>A. \<not> lt a a) \<and> (\<forall>a\<in>A. \<forall>b\<in>A. lt a b \<longrightarrow> \<not> lt b a) \<and>
     (\<forall>a\<in>A. \<forall>b\<in>A. \<forall>c\<in>A. \<not> lt b a \<longrightarrow> \<not> lt c b \<longrightarrow> \<not> lt c a)"

definition sorted_range :: "('a \<Rightarrow> 'a \<Rightarrow> bool) \<Rightarrow> int \<Rightarrow> int \<Rightarrow> (int \<Rightarrow> 'a) \<Rightarrow> bool" where
  "sorted_range lt l u f \<longleftrightarrow> (\<forall>a b. l \<le> a \<longrightarrow> a < b \<longrightarrow> b \<le> u \<longrightarrow> \<not> lt (f b) (f a))"

text \<open>An order function that answers \<open>lt\<close> on the values of \<open>A\<close>, and leaves the state alone.\<close>

locale ordered_store = int_store rget rset ok val
  for rget :: "'s getter" and rset :: "'s setter" and ok :: "'s \<Rightarrow> bool" and val :: "'s \<Rightarrow> int \<Rightarrow> TValue" +
  fixes cmp :: "'s order" and A :: "TValue set" and lt :: "TValue \<Rightarrow> TValue \<Rightarrow> bool"
  assumes cmp_law: "a \<in> A \<Longrightarrow> b \<in> A \<Longrightarrow> ok s \<Longrightarrow> cmp a b s = Inr (lt a b, s)"
    and order: "strict_weak A lt"
    and no_nil: "Nil \<notin> A"
begin

lemma irrefl: "a \<in> A \<Longrightarrow> \<not> lt a a"
  using order unfolding strict_weak_def by blast

lemma asym: "a \<in> A \<Longrightarrow> b \<in> A \<Longrightarrow> lt a b \<Longrightarrow> \<not> lt b a"
  using order unfolding strict_weak_def by blast

lemma le_trans: "\<not> lt b a \<Longrightarrow> \<not> lt c b \<Longrightarrow> a \<in> A \<Longrightarrow> b \<in> A \<Longrightarrow> c \<in> A \<Longrightarrow> \<not> lt c a"
  using order unfolding strict_weak_def by blast

definition list_at :: "int \<Rightarrow> int \<Rightarrow> 's \<Rightarrow> bool" where
  "list_at l u s \<longleftrightarrow> ok s \<and> val s ` {l..u} \<subseteq> A \<and> \<bar>l\<bar> < 2 ^ 31 \<and> \<bar>u\<bar> < 2 ^ 31"

lemma list_atD:
  assumes "list_at l u s" "l \<le> i" "i \<le> u"
  shows "ok s" "val s i \<in> A" "rget s i = Inr (val s i)" "\<bar>i\<bar> < 2 ^ 31"
proof -
  show "ok s" "val s i \<in> A" using assms by (auto simp: list_at_def)
  show i: "\<bar>i\<bar> < 2 ^ 31" using assms by (auto simp: list_at_def)
  show "rget s i = Inr (val s i)" using assms i by (auto simp: list_at_def intro: get_law)
qed

lemma list_at_permuted: "list_at l u s \<Longrightarrow> ok s' \<Longrightarrow> permuted l u (val s) (val s') \<Longrightarrow> list_at l u s'"
  using permuted_image by (fastforce simp: list_at_def)

lemma list_at_sub: "list_at l u s \<Longrightarrow> l \<le> l' \<Longrightarrow> u' \<le> u \<Longrightarrow> l' \<le> u + 1 \<Longrightarrow> l - 1 \<le> u' \<Longrightarrow>
   \<bar>l'\<bar> < 2 ^ 31 \<Longrightarrow> \<bar>u'\<bar> < 2 ^ 31 \<Longrightarrow> list_at l' u' s"
  by (fastforce simp: list_at_def)

lemma set2_step:
  assumes "list_at l u s" "i \<in> {l..u}" "j \<in> {l..u}"
  shows "\<exists>s'. set2 rset i j (val s j) (val s i) s = Inr s' \<and> list_at l u s' \<and>
    val s' = (val s)(i := val s j, j := val s i) \<and> permuted l u (val s) (val s')"
proof -
  have i: "ok s" "val s i \<noteq> Nil" "\<bar>i\<bar> < 2 ^ 31" and j: "val s j \<noteq> Nil" "\<bar>j\<bar> < 2 ^ 31"
    using list_atD [OF assms(1), of i] list_atD [OF assms(1), of j] assms(2,3) no_nil by auto
  obtain s1 where s1: "rset s i (val s j) = Inr s1" "ok s1" "val s1 = (val s)(i := val s j)"
    using set_law [OF i(1,3,2)] by blast
  have "val s1 j \<noteq> Nil" using s1(3) j by simp
  from set_law [OF s1(2) j(2) this] obtain s2 where
    s2: "rset s1 j (val s i) = Inr s2" "ok s2" "val s2 = (val s1)(j := val s i)" by blast
  have p: "permuted l u (val s) (val s2)" using permuted_swap [OF assms(2,3), of "val s"] s1 s2 by simp
  show ?thesis using s1 s2 p list_at_permuted [OF assms(1) s2(2) p] by (auto simp: set2_def)
qed

text \<open>The order of the three elements; \<open>le\<close> of the code is ``not less the other way round''.\<close>

lemma sort_ends_ok:
  assumes "list_at l u s" "l < u"
  shows "\<exists>s'. sort_ends rget rset cmp l u s = Inr s' \<and> list_at l u s' \<and> permuted l u (val s) (val s') \<and>
    \<not> lt (val s' u) (val s' l)"
proof -
  have lu: "l \<in> {l..u}" "u \<in> {l..u}" using assms(2) by auto
  note L = list_atD [OF assms(1), of l] and U = list_atD [OF assms(1), of u]
  show ?thesis
  proof (cases "lt (val s u) (val s l)")
    case True
    from set2_step [OF assms(1) lu] obtain s' where
      s': "set2 rset l u (val s u) (val s l) s = Inr s'" "list_at l u s'"
      "val s' = (val s)(l := val s u, u := val s l)" "permuted l u (val s) (val s')" by blast
    have "\<not> lt (val s' u) (val s' l)" using asym [OF _ _ True] L U assms(2) s'(3) by simp
    then show ?thesis using s' True L U assms(2) by (simp add: sort_ends_def cmp_law)
  next
    case False
    then show ?thesis using assms L U by (simp add: sort_ends_def cmp_law)
  qed
qed

lemma sort_middle_ok:
  assumes "list_at l u s" "l < i" "i < u" and le: "\<not> lt (val s u) (val s l)"
  shows "\<exists>s'. sort_middle rget rset cmp l u i s = Inr s' \<and> list_at l u s' \<and> permuted l u (val s) (val s') \<and>
    \<not> lt (val s' i) (val s' l) \<and> \<not> lt (val s' u) (val s' i)"
proof -
  have lu: "l \<in> {l..u}" "i \<in> {l..u}" "u \<in> {l..u}" using assms(2,3) by auto
  note L = list_atD [OF assms(1), of l] and I = list_atD [OF assms(1), of i] and U = list_atD [OF assms(1), of u]
  have in_A: "val s l \<in> A" "val s i \<in> A" "val s u \<in> A" "ok s" using L I U assms(2,3) by auto
  show ?thesis
  proof (cases "lt (val s i) (val s l)")
    case True
    from set2_step [OF assms(1) lu(2,1)] obtain s' where
      s': "set2 rset i l (val s l) (val s i) s = Inr s'" "list_at l u s'"
      "val s' = (val s)(i := val s l, l := val s i)" "permuted l u (val s) (val s')" by blast
    have "\<not> lt (val s' i) (val s' l)" "\<not> lt (val s' u) (val s' i)"
      using asym [OF in_A(2,1) True] le assms(2,3) s'(3) by auto
    then show ?thesis using s' True in_A L(3) I(3) assms(2,3) by (simp add: sort_middle_def cmp_law)
  next
    case False
    show ?thesis
    proof (cases "lt (val s u) (val s i)")
      case True
      from set2_step [OF assms(1) lu(2,3)] obtain s' where
        s': "set2 rset i u (val s u) (val s i) s = Inr s'" "list_at l u s'"
        "val s' = (val s)(i := val s u, u := val s i)" "permuted l u (val s) (val s')" by blast
      have "\<not> lt (val s' i) (val s' l)" "\<not> lt (val s' u) (val s' i)"
        using asym [OF in_A(3,2) True] le assms(2,3) s'(3) by auto
      then show ?thesis
        using s' True \<open>\<not> lt (val s i) (val s l)\<close> in_A L(3) I(3) U(3) assms(2,3) by (simp add: sort_middle_def cmp_law)
    next
      case False
      then show ?thesis
        using \<open>\<not> lt (val s i) (val s l)\<close> in_A L(3) I(3) U(3) assms by (simp add: sort_middle_def cmp_law)
    qed
  qed
qed

text \<open>The scans stop inside the range: at the pivot going up, at the first element going down.\<close>

lemma scan_up_ok:
  assumes "list_at l u s" "l \<le> i" "i < u - 1" "p = val s (u - 1)"
  shows "\<exists>i'. scan_up rget cmp p u i s = Inr (i', val s i', s) \<and> i < i' \<and> i' \<le> u - 1 \<and> \<not> lt (val s i') p \<and>
    (\<forall>k. i < k \<longrightarrow> k < i' \<longrightarrow> lt (val s k) p)"
  using assms(2,3)
proof (induction "nat (u - 1 - i)" arbitrary: i rule: less_induct)
  case less
  note I = list_atD [OF assms(1), of "i + 1"] and P = list_atD [OF assms(1), of "u - 1"]
  have in_A: "val s (i + 1) \<in> A" "p \<in> A" "ok s" "rget s (i + 1) = Inr (val s (i + 1))"
    using I P less.prems assms(4) by auto
  show ?case
  proof (cases "lt (val s (i + 1)) p")
    case False
    then show ?thesis using in_A less.prems
      by (intro exI [of _ "i + 1"]) (subst scan_up.simps, simp add: cmp_law Let_def)
  next
    case True
    then have "i + 1 \<noteq> u - 1" using irrefl [OF in_A(2)] unfolding assms(4) by metis
    with less.prems have i: "l \<le> i + 1" "i + 1 < u - 1" by auto
    have e: "scan_up rget cmp p u i s = scan_up rget cmp p u (i + 1) s"
      using in_A True i by (subst scan_up.simps) (simp add: cmp_law Let_def)
    from less.hyps [OF _ i] less.prems obtain i' where i':
      "scan_up rget cmp p u (i + 1) s = Inr (i', val s i', s)" "i + 1 < i'" "i' \<le> u - 1" "\<not> lt (val s i') p"
      "\<forall>k. i + 1 < k \<longrightarrow> k < i' \<longrightarrow> lt (val s k) p" by auto
    have "lt (val s k) p" if "i < k" "k < i'" for k
      using that i'(5) True by (cases "k = i + 1") auto
    then show ?thesis using e i' by (intro exI [of _ i']) auto
  qed
qed

lemma scan_down_ok:
  assumes "list_at l u s" "l < j" "j \<le> u" "p \<in> A" "\<not> lt p (val s l)"
  shows "\<exists>j'. scan_down rget cmp p l j s = Inr (j', val s j', s) \<and> l \<le> j' \<and> j' < j \<and> \<not> lt p (val s j') \<and>
    (\<forall>k. j' < k \<longrightarrow> k < j \<longrightarrow> lt p (val s k))"
  using assms(2,3)
proof (induction "nat (j - l)" arbitrary: j rule: less_induct)
  case less
  note J = list_atD [OF assms(1), of "j - 1"]
  have in_A: "val s (j - 1) \<in> A" "ok s" "rget s (j - 1) = Inr (val s (j - 1))"
    using J less.prems by auto
  show ?case
  proof (cases "lt p (val s (j - 1))")
    case False
    then show ?thesis using in_A assms(4) less.prems
      by (intro exI [of _ "j - 1"]) (subst scan_down.simps, simp add: cmp_law Let_def)
  next
    case True
    then have "j - 1 \<noteq> l" using assms(5) by auto
    with less.prems have j: "l < j - 1" "j - 1 \<le> u" by auto
    have e: "scan_down rget cmp p l j s = scan_down rget cmp p l (j - 1) s"
      using in_A assms(4) True j by (subst scan_down.simps) (simp add: cmp_law Let_def)
    from less.hyps [OF _ j] less.prems obtain j' where j':
      "scan_down rget cmp p l (j - 1) s = Inr (j', val s j', s)" "l \<le> j'" "j' < j - 1" "\<not> lt p (val s j')"
      "\<forall>k. j' < k \<longrightarrow> k < j - 1 \<longrightarrow> lt p (val s k)" by auto
    have "lt p (val s k)" if "j' < k" "k < j" for k
      using that j'(5) True by (cases "k = j - 1") auto
    then show ?thesis using e j' by (intro exI [of _ j']) auto
  qed
qed

text \<open>The invariant of the inner loop, as the comment of the code has it.\<close>

definition parted :: "TValue \<Rightarrow> int \<Rightarrow> int \<Rightarrow> int \<Rightarrow> int \<Rightarrow> 's \<Rightarrow> bool" where
  "parted p l u i j s \<longleftrightarrow> (\<forall>k. l \<le> k \<longrightarrow> k \<le> i \<longrightarrow> \<not> lt p (val s k)) \<and> (\<forall>k. j \<le> k \<longrightarrow> k \<le> u \<longrightarrow> \<not> lt (val s k) p)"

lemma part_loop_ok:
  assumes "list_at l u s" "l \<le> i" "i \<le> j" "l < j" "j \<le> u - 1" "i < u - 1" "val s (u - 1) = p" "parted p l u i j s"
  shows "\<exists>i' s'. part_loop rget rset cmp p l u i j s = Inr (i', s') \<and> list_at l u s' \<and> permuted l u (val s) (val s') \<and>
    val s' (u - 1) = p \<and> l < i' \<and> i' \<le> u - 1 \<and> parted p l u (i' - 1) i' s'"
  using assms
proof (induction "nat (j - i)" arbitrary: i j s rule: less_induct)
  case less
  have p: "p \<in> A" "\<not> lt p (val s l)"
    using list_atD(2) [OF less.prems(1), of "u - 1"] less.prems by (auto simp: parted_def)
  from scan_up_ok [OF less.prems(1,2,6), of p] less.prems(7) obtain i1 where
    i1: "scan_up rget cmp p u i s = Inr (i1, val s i1, s)" "i < i1" "i1 \<le> u - 1" "\<not> lt (val s i1) p"
    "\<And>k. i < k \<Longrightarrow> k < i1 \<Longrightarrow> lt (val s k) p" by auto
  have "j \<le> u" using less.prems(5) by simp
  from scan_down_ok [OF less.prems(1,4) this p] obtain j1 where
    j1: "scan_down rget cmp p l j s = Inr (j1, val s j1, s)" "l \<le> j1" "j1 < j" "\<not> lt p (val s j1)"
    "\<And>k. j1 < k \<Longrightarrow> k < j \<Longrightarrow> lt p (val s k)" by auto
  have A: "val s k \<in> A" if "l \<le> k" "k \<le> u" for k using list_atD(2) [OF less.prems(1) that] .
  have low: "\<not> lt p (val s k)" if "l \<le> k" "k < i1" for k
  proof (cases "k \<le> i")
    case True
    then show ?thesis using less.prems(8) that by (simp add: parted_def)
  next
    case False
    then show ?thesis using i1(3,5) that asym [OF A p(1)] less.prems(5) by auto
  qed
  have high: "\<not> lt (val s k) p" if "j1 < k" "k \<le> u" for k
  proof (cases "j \<le> k")
    case True
    then show ?thesis using less.prems(8) that by (simp add: parted_def)
  next
    case False
    then show ?thesis using j1(2,5) that asym [OF p(1) A] by auto
  qed
  show ?case
  proof (cases "j1 < i1")
    case True
    then have "part_loop rget rset cmp p l u i j s = Inr (i1, s)"
      using i1(1) j1(1) by (subst part_loop.simps) simp
    moreover have "parted p l u (i1 - 1) i1 s" using low high True by (auto simp: parted_def)
    ultimately show ?thesis using less.prems i1 by auto
  next
    case False
    have in_range: "i1 \<in> {l..u}" "j1 \<in> {l..u}" using i1(2,3) j1(2,3) less.prems by auto
    from set2_step [OF less.prems(1) in_range] obtain s1 where
      s1: "set2 rset i1 j1 (val s j1) (val s i1) s = Inr s1" "list_at l u s1"
      "val s1 = (val s)(i1 := val s j1, j1 := val s i1)" "permuted l u (val s) (val s1)" by blast
    have e: "part_loop rget rset cmp p l u i j s = part_loop rget rset cmp p l u i1 j1 s1"
      using i1(1) j1(1) False s1(1) by (subst part_loop.simps) simp
    have "\<not> lt p (val s1 k)" if "l \<le> k" "k \<le> i1" for k
      using that s1(3) low [OF that(1)] j1(4) False by (cases "k = i1") auto
    moreover have "\<not> lt (val s1 k) p" if "j1 \<le> k" "k \<le> u" for k
      using that s1(3) high [OF _ that(2)] i1(4) False by (cases "k = j1") auto
    ultimately have pt: "parted p l u i1 j1 s1" by (simp add: parted_def)
    have v: "val s1 (u - 1) = p" using s1(3) less.prems(5,7) False j1(3) by auto
    have d: "nat (j1 - i1) < nat (j - i)" "l \<le> i1" "i1 \<le> j1" "l < j1" "j1 \<le> u - 1" "i1 < u - 1"
      using False i1(2) j1(3) less.prems by auto
    from less.hyps [OF d(1) s1(2) d(2-6) v pt] obtain i' s' where
      "part_loop rget rset cmp p l u i1 j1 s1 = Inr (i', s')" "list_at l u s'" "permuted l u (val s1) (val s')"
      "val s' (u - 1) = p" "l < i'" "i' \<le> u - 1" "parted p l u (i' - 1) i' s'" by blast
    then show ?thesis using e permuted_trans [OF s1(4)] by auto
  qed
qed

lemma sort_partition_ok:
  assumes "list_at l u s" "l < i" "i < u - 1" "\<not> lt (val s i) (val s l)" "\<not> lt (val s u) (val s i)"
  shows "\<exists>i' s'. sort_partition rget rset cmp l u i s = Inr (i', s') \<and> list_at l u s' \<and> permuted l u (val s) (val s') \<and>
    l < i' \<and> i' < u \<and> parted (val s' i') l u i' i' s'"
proof -
  let ?p = "val s i"
  have r: "i \<in> {l..u}" "u - 1 \<in> {l..u}" using assms(2,3) by auto
  note I = list_atD [OF assms(1), of i] and U = list_atD [OF assms(1), of "u - 1"]
  have p: "?p \<in> A" using I(2) assms(2,3) by auto
  from set2_step [OF assms(1) r] obtain s1 where
    s1: "set2 rset i (u - 1) (val s (u - 1)) ?p s = Inr s1" "list_at l u s1"
    "val s1 = (val s)(i := val s (u - 1), u - 1 := ?p)" "permuted l u (val s) (val s1)" by blast
  have "parted ?p l u l (u - 1) s1"
    unfolding parted_def
  proof (intro conjI allI impI)
    fix k assume "l \<le> k" "k \<le> l"
    then show "\<not> lt ?p (val s1 k)" using s1(3) assms(2-4) by auto
  next
    fix k assume "u - 1 \<le> k" "k \<le> u"
    then have "k = u - 1 \<or> k = u" by auto
    then show "\<not> lt (val s1 k) ?p" using s1(3) assms(2,3,5) irrefl [OF p] by auto
  qed
  moreover have "val s1 (u - 1) = ?p" using s1(3) by simp
  ultimately obtain i' s2 where s2: "part_loop rget rset cmp ?p l u l (u - 1) s1 = Inr (i', s2)" "list_at l u s2"
    "permuted l u (val s1) (val s2)" "val s2 (u - 1) = ?p" "l < i'" "i' \<le> u - 1" "parted ?p l u (i' - 1) i' s2"
    using part_loop_ok [OF s1(2), of l "u - 1" ?p] assms(2,3) by auto
  have r2: "u - 1 \<in> {l..u}" "i' \<in> {l..u}" using assms(2,3) s2(5,6) by auto
  from set2_step [OF s2(2) r2] obtain s3 where
    s3: "set2 rset (u - 1) i' (val s2 i') (val s2 (u - 1)) s2 = Inr s3" "list_at l u s3"
    "val s3 = (val s2)(u - 1 := val s2 i', i' := val s2 (u - 1))" "permuted l u (val s2) (val s3)" by blast
  have v: "val s3 i' = ?p" using s3(3) s2(4) by simp
  have "parted ?p l u i' i' s3"
    unfolding parted_def
  proof (intro conjI allI impI)
    fix k assume k: "l \<le> k" "k \<le> i'"
    show "\<not> lt ?p (val s3 k)"
    proof (cases "k = i'")
      case True
      then show ?thesis using v irrefl [OF p] by simp
    next
      case False
      then show ?thesis using k s3(3) s2(6,7) by (simp add: parted_def)
    qed
  next
    fix k assume k: "i' \<le> k" "k \<le> u"
    show "\<not> lt (val s3 k) ?p"
    proof (cases "k = i'")
      case True
      then show ?thesis using v irrefl [OF p] by simp
    next
      case False
      then show ?thesis using k s3(3) s2(6,7) by (simp add: parted_def)
    qed
  qed
  moreover have "sort_partition rget rset cmp l u i s = Inr (i', s3)"
    using I U s1(1) s2(1) s3(1) list_atD(3) [OF s2(2), of "u - 1"] list_atD(3) [OF s2(2), of i'] assms(2,3) s2(5,6)
    by (simp add: sort_partition_def)
  ultimately show ?thesis
    using s3(2) permuted_trans [OF s1(4) permuted_trans [OF s2(3) s3(4)]] s2(5,6) v by auto
qed

lemma sorted_join:
  assumes "parted p l u i i s" "val s ` {l..u} \<subseteq> A" "l \<le> i" "i \<le> u" "h i = p" "val s i = p"
    and "h ` {l..i - 1} = val s ` {l..i - 1}" "h ` {i + 1..u} = val s ` {i + 1..u}"
    and "sorted_range lt l (i - 1) h" "sorted_range lt (i + 1) u h"
  shows "sorted_range lt l u h"
proof -
  have low: "\<not> lt p (h a) \<and> h a \<in> A" if "l \<le> a" "a < i" for a
  proof -
    have "h a \<in> val s ` {l..i - 1}" using that assms(7) by auto
    then obtain k where "h a = val s k" "l \<le> k" "k < i" by auto
    with assms(1,2,4) show ?thesis by (auto simp: parted_def)
  qed
  have high: "\<not> lt (h b) p \<and> h b \<in> A" if "i < b" "b \<le> u" for b
  proof -
    have "h b \<in> val s ` {i + 1..u}" using that assms(8) by auto
    then obtain k where "h b = val s k" "i < k" "k \<le> u" by auto
    with assms(1,2,3) show ?thesis by (auto simp: parted_def)
  qed
  have p: "p \<in> A" using assms(2-4,6) by auto
  show ?thesis
    unfolding sorted_range_def
  proof (intro allI impI)
    fix a b assume ab: "l \<le> a" "a < b" "b \<le> u"
    consider "b < i" | "b = i" | "a = i" | "i < a" | "a < i" "i < b" using ab by linarith
    then show "\<not> lt (h b) (h a)"
    proof cases
      case 1
      with ab assms(9) show ?thesis by (simp add: sorted_range_def)
    next
      case 2
      with ab low [of a] assms(5) show ?thesis by simp
    next
      case 3
      with ab high [of b] assms(5) show ?thesis by simp
    next
      case 4
      with ab assms(10) show ?thesis by (simp add: sorted_range_def)
    next
      case 5
      with ab low [of a] high [of b] le_trans [of p "h a" "h b"] p show ?thesis by blast
    qed
  qed
qed

lemma sorted_range_cong: "sorted_range lt l u g \<Longrightarrow> (\<And>k. k \<in> {l..u} \<Longrightarrow> h k = g k) \<Longrightarrow> sorted_range lt l u h"
  by (simp add: sorted_range_def)

text \<open>Both halves sorted, one after the other, whichever comes first.\<close>

lemma sort_halves:
  assumes st: "list_at l u s" "parted (val s i) l u i i s" "l < i" "i < u"
    and ab: "{(a, b), (c, d)} = {(l, i - 1), (i + 1, u)}"
    and 1: "permuted a b (val s) (val s1)" "sorted_range lt a b (val s1)"
    and 2: "permuted c d (val s1) (val s2)" "sorted_range lt c d (val s2)"
  shows "permuted l u (val s) (val s2) \<and> sorted_range lt l u (val s2)"
proof -
  have cases: "(a, b) = (l, i - 1) \<and> (c, d) = (i + 1, u) \<or> (a, b) = (i + 1, u) \<and> (c, d) = (l, i - 1)"
    using ab by (auto simp: doubleton_eq_iff)
  have perm: "permuted l u (val s) (val s2)"
    using cases permuted_mono [OF 1(1), of l u] permuted_mono [OF 2(1), of l u] st(3,4)
    by (elim disjE) (auto intro: permuted_trans)
  have first: "val s2 k = val s1 k" if "k \<in> {a..b}" for k
    using 2(1) cases that unfolding permuted_def by auto
  have second: "val s1 k = val s k" if "k \<in> {c..d}" for k
    using 1(1) cases that unfolding permuted_def by auto
  have "i \<notin> {a..b}" "i \<notin> {c..d}" using cases by auto
  then have mid: "val s2 i = val s i" using 1(1) 2(1) by (simp add: permuted_def)
  have "val s2 ` {a..b} = val s1 ` {a..b}" using first by (intro image_cong) auto
  also have "\<dots> = val s ` {a..b}" using permuted_image [OF 1(1)] .
  finally have im1: "val s2 ` {a..b} = val s ` {a..b}" .
  have "val s2 ` {c..d} = val s1 ` {c..d}" using permuted_image [OF 2(1)] .
  also have "\<dots> = val s ` {c..d}" using second by (intro image_cong) auto
  finally have im2: "val s2 ` {c..d} = val s ` {c..d}" .
  have sorted1: "sorted_range lt a b (val s2)" by (rule sorted_range_cong [OF 1(2) first])
  have A: "val s ` {l..u} \<subseteq> A" using st(1) by (simp add: list_at_def)
  have li: "l \<le> i" "i \<le> u" using st(3,4) by auto
  from cases have "sorted_range lt l u (val s2)"
  proof (elim disjE conjE)
    assume "(a, b) = (l, i - 1)" "(c, d) = (i + 1, u)"
    then show ?thesis using sorted_join [OF st(2) A li, of "val s2"] mid im1 im2 sorted1 2(2) by auto
  next
    assume "(a, b) = (i + 1, u)" "(c, d) = (l, i - 1)"
    then show ?thesis using sorted_join [OF st(2) A li, of "val s2"] mid im1 im2 sorted1 2(2) by auto
  qed
  with perm show ?thesis by blast
qed

lemma auxsort_sorts:
  "list_at l u s \<Longrightarrow> nat (u - l) < fuel \<Longrightarrow>
   \<exists>s'. auxsort fuel rget rset cmp l u s = Inr s' \<and> ok s' \<and> permuted l u (val s) (val s') \<and> sorted_range lt l u (val s')"
proof (induction fuel arbitrary: l u s)
  case 0
  then show ?case by simp
next
  case (Suc fuel)
  show ?case
  proof (cases "l < u")
    case False
    then show ?thesis using Suc.prems by (auto simp: sorted_range_def list_at_def)
  next
    case True
    let ?i = "(l + u) div 2"
    obtain s1 where s1: "sort_ends rget rset cmp l u s = Inr s1" "list_at l u s1" "permuted l u (val s) (val s1)"
      "\<not> lt (val s1 u) (val s1 l)" using sort_ends_ok [OF Suc.prems(1) True] by blast
    show ?thesis
    proof (cases "u - l = 1")
      case u1: True
      have "sorted_range lt l u (val s1)"
        unfolding sorted_range_def
      proof (intro allI impI)
        fix a b assume "l \<le> a" "a < b" "b \<le> u"
        with u1 have "a = l" "b = u" by auto
        with s1(4) show "\<not> lt (val s1 b) (val s1 a)" by simp
      qed
      with s1 u1 True show ?thesis by (auto simp: list_at_def)
    next
      case u1: False
      with True have i: "l < ?i" "?i < u" by auto
      obtain s2 where s2: "sort_middle rget rset cmp l u ?i s1 = Inr s2" "list_at l u s2" "permuted l u (val s1) (val s2)"
        "\<not> lt (val s2 ?i) (val s2 l)" "\<not> lt (val s2 u) (val s2 ?i)" using sort_middle_ok [OF s1(2) i s1(4)] by blast
      show ?thesis
      proof (cases "u - l = 2")
        case u2: True
        then have m: "?i = l + 1" by auto
        have A: "val s2 l \<in> A" "val s2 ?i \<in> A" "val s2 u \<in> A" using list_atD(2) [OF s2(2)] i by auto
        have "sorted_range lt l u (val s2)"
          unfolding sorted_range_def
        proof (intro allI impI)
          fix a b assume "l \<le> a" "a < b" "b \<le> u"
          with u2 m have "a = l \<and> b = ?i \<or> a = ?i \<and> b = u \<or> a = l \<and> b = u" by auto
          with s2(4,5) le_trans [OF s2(4,5)] A show "\<not> lt (val s2 b) (val s2 a)" by auto
        qed
        with s1 s2 u1 u2 True permuted_trans [OF s1(3) s2(3)] show ?thesis by (auto simp: list_at_def)
      next
        case u2: False
        with u1 True have "?i < u - 1" by auto
        from sort_partition_ok [OF s2(2) i(1) this s2(4,5)] obtain k s3 where
          s3: "sort_partition rget rset cmp l u ?i s2 = Inr (k, s3)" "list_at l u s3" "permuted l u (val s2) (val s3)"
          "l < k" "k < u" "parted (val s3 k) l u k k s3" by blast
        have perm: "permuted l u (val s) (val s3)"
          using permuted_trans [OF s1(3) permuted_trans [OF s2(3) s3(3)]] .
        have both: "\<exists>s'. rbind (auxsort fuel rget rset cmp a b s3) (auxsort fuel rget rset cmp c d) = Inr s' \<and> ok s' \<and>
            permuted l u (val s) (val s') \<and> sorted_range lt l u (val s')"
          if ab: "{(a, b), (c, d)} = {(l, k - 1), (k + 1, u)}" for a b c d
        proof -
          have r: "l \<le> a" "b \<le> u" "a \<le> u" "l - 1 \<le> b" "l \<le> c" "d \<le> u" "c \<le> u" "l - 1 \<le> d"
            and f: "nat (b - a) < fuel" "nat (d - c) < fuel"
            and w: "\<bar>a\<bar> < 2 ^ 31" "\<bar>b\<bar> < 2 ^ 31" "\<bar>c\<bar> < 2 ^ 31" "\<bar>d\<bar> < 2 ^ 31"
            using ab s3(2,4,5) Suc.prems(2) u1 u2 True by (auto simp: doubleton_eq_iff list_at_def)
          have "list_at a b s3" using list_at_sub [OF s3(2)] r w by auto
          from Suc.IH [OF this f(1)] obtain s4 where s4: "auxsort fuel rget rset cmp a b s3 = Inr s4" "ok s4"
            "permuted a b (val s3) (val s4)" "sorted_range lt a b (val s4)" by blast
          have "list_at l u s4" using list_at_permuted [OF s3(2) s4(2) permuted_mono [OF s4(3)]] r by auto
          then have "list_at c d s4" using list_at_sub r w by auto
          from Suc.IH [OF this f(2)] obtain s5 where s5: "auxsort fuel rget rset cmp c d s4 = Inr s5" "ok s5"
            "permuted c d (val s4) (val s5)" "sorted_range lt c d (val s5)" by blast
          from sort_halves [OF s3(2,6,4,5) ab s4(3,4) s5(3,4)] s4(1) s5(1,2) permuted_trans [OF perm]
          show ?thesis by auto
        qed
        have e: "auxsort (Suc fuel) rget rset cmp l u s =
            (if k - l < u - k
             then rbind (auxsort fuel rget rset cmp l (k - 1) s3) (auxsort fuel rget rset cmp (k + 1) u)
             else rbind (auxsort fuel rget rset cmp (k + 1) u s3) (auxsort fuel rget rset cmp l (k - 1)))"
          using True s1(1) u1 s2(1) u2 s3(1) by simp
        show ?thesis
          unfolding e using both [of l "k - 1" "k + 1" u] both [of "k + 1" u l "k - 1"] by (auto simp: insert_commute)
      qed
    qed
  qed
qed

end

end
