(* ===== verification/TableScan.thy ===== *)
theory TableScan
  imports TableProps
begin

text \<open>
  The length of a table and its traversal: \<open>luaH_getn\<close> finds a boundary, through the array part and
  the hash part, and \<open>luaH_next\<close> visits every entry once and ends.
\<close>

subsection \<open>Boundaries\<close>

definition ival :: "(lua_Number \<Rightarrow> int) \<Rightarrow> LTable \<Rightarrow> int \<Rightarrow> TValue" where
  "ival N t a = tget N t (Number (dbl_of_int a))"

definition boundary :: "(lua_Number \<Rightarrow> int) \<Rightarrow> LTable \<Rightarrow> int \<Rightarrow> bool" where
  "boundary N t n \<longleftrightarrow> 0 \<le> n \<and> n < 2 ^ 31 \<and> (n = 0 \<or> ival N t n \<noteq> Nil) \<and> ival N t (n + 1) = Nil"

lemma is_nil_at_spec:
  assumes "cvt_ok N" "tab_ok N t" "- (2 ^ 31) < a" "a < 2 ^ 31"
  shows "is_nil_at t a = Inr (ival N t a = Nil)"
proof -
  obtain s where "search N t (Number (dbl_of_int a)) = Inr s" "read_slot t s = Inr (ival N t a)"
    using search_spec [OF assms(2), of "Number (dbl_of_int a)"] by (auto simp: ival_def)
  then show ?thesis by (simp add: is_nil_at_def getnum_search [OF assms])
qed

lemma ival_array:
  assumes N: "cvt_ok N" and t: "tab_ok N t" and a: "0 < a" "a \<le> tsizearray t"
  shows "aget (tarray t) (a - 1) = Inr (ival N t a)"
proof -
  have "arrayindex N (Number (dbl_of_int a)) = a" by (rule key_ok_int(2) [OF N]) (use a tab_okD(4) [OF t] in auto)
  then show ?thesis using a tab_okD(5) [OF t] by (simp add: ival_def tget_def aget_in)
qed

lemma array_search_spec:
  assumes N: "cvt_ok N" and t: "tab_ok N t"
  shows "0 \<le> i \<Longrightarrow> i < j \<Longrightarrow> j \<le> tsizearray t \<Longrightarrow> i = 0 \<or> ival N t i \<noteq> Nil \<Longrightarrow> ival N t j = Nil \<Longrightarrow>
    \<exists>n. array_search t i j = Inr n \<and> boundary N t n"
proof (induction "nat (j - i)" arbitrary: i j rule: less_induct)
  case less
  show ?case
  proof (cases "j - i > 1")
    case True
    let ?m = "(i + j) div 2"
    have m: "i < ?m" "?m < j" using True by auto
    have g: "aget (tarray t) (?m - 1) = Inr (ival N t ?m)"
      by (rule ival_array [OF N t]) (use m less.prems in auto)
    have e: "array_search t i j = (if ival N t ?m = Nil then array_search t i ?m else array_search t ?m j)"
      by (subst array_search.simps) (use True g in \<open>simp add: Let_def del: aget_Inr\<close>)
    show ?thesis
    proof (cases "ival N t ?m = Nil")
      case True
      then show ?thesis using less.hyps [of ?m i] less.prems m e by auto
    next
      case False
      then show ?thesis using less.hyps [of j ?m] less.prems m e by auto
    qed
  next
    case False
    then have j: "i + 1 = j" using less.prems by simp
    have "i < 2 ^ 31" using less.prems tab_okD(4) [OF t] by simp
    with j have "boundary N t i" using less.prems unfolding boundary_def by blast
    moreover have "array_search t i j = Inr i" by (subst array_search.simps) (use False in simp)
    ultimately show ?thesis by blast
  qed
qed

lemma key_search_spec:
  assumes N: "cvt_ok N" and t: "tab_ok N t"
  shows "0 \<le> i \<Longrightarrow> i < j \<Longrightarrow> j < 2 ^ 31 \<Longrightarrow> i = 0 \<or> ival N t i \<noteq> Nil \<Longrightarrow> ival N t j = Nil \<Longrightarrow>
    \<exists>n. key_search t i j = Inr n \<and> boundary N t n"
proof (induction "nat (j - i)" arbitrary: i j rule: less_induct)
  case less
  show ?case
  proof (cases "j - i > 1")
    case True
    let ?m = "(i + j) div 2"
    have m: "i < ?m" "?m < j" using True by auto
    have g: "is_nil_at t ?m = Inr (ival N t ?m = Nil)"
      by (rule is_nil_at_spec [OF N t]) (use m less.prems in auto)
    have e: "key_search t i j = (if ival N t ?m = Nil then key_search t i ?m else key_search t ?m j)"
      by (subst key_search.simps) (use True g in \<open>simp add: Let_def\<close>)
    show ?thesis
    proof (cases "ival N t ?m = Nil")
      case True
      then show ?thesis using less.hyps [of ?m i] less.prems m e by auto
    next
      case False
      then show ?thesis using less.hyps [of j ?m] less.prems m e by auto
    qed
  next
    case False
    then have j: "i + 1 = j" using less.prems by simp
    have "i < 2 ^ 31" using less.prems by simp
    with j have "boundary N t i" using less.prems unfolding boundary_def by blast
    moreover have "key_search t i j = Inr i" by (subst key_search.simps) (use False in simp)
    ultimately show ?thesis by blast
  qed
qed

lemma tab_length: "tab_ok N t \<Longrightarrow> length (tnode t) \<le> 2 ^ 26"
  using power_increasing [of "tlsizenode t" 26 "2::nat"] by (simp add: tab_ok_def sizenode_def MAXBITS_def)

text \<open>A table has not more keys in a row than slots.\<close>

lemma nil_in_row:
  assumes N: "cvt_ok N" and t: "tab_ok N t"
  shows "\<exists>a. 0 < a \<and> a \<le> tsizearray t + int (length (tnode t)) + 1 \<and> ival N t a = Nil"
proof (rule ccontr)
  note ok = tab_okD [OF t]
  let ?s = "tsizearray t" and ?l = "length (tnode t)"
  assume "\<not> ?thesis"
  then have all: "ival N t a \<noteq> Nil" if "0 < a" "a \<le> ?s + int ?l + 1" for a using that by blast
  have small: "?s + int ?l + 1 < 2 ^ 31" using tab_length [OF t] ok(4) by simp
  have idx: "arrayindex N (Number (dbl_of_int a)) = a" if "?s < a" "a \<le> ?s + int ?l + 1" for a
    by (rule key_ok_int(2) [OF N]) (use that small ok(3) in auto)
  have "\<exists>j<?l. \<exists>k. nkey (tnode t ! j) = Live k \<and> arrayindex N k = a" if a: "?s < a" "a \<le> ?s + int ?l + 1" for a
  proof -
    let ?q = "Number (dbl_of_int a)"
    have "hget (tnode t) ?q \<noteq> Nil" using all [of a] a ok(3) idx [OF a] by (simp add: ival_def tget_def)
    then obtain k where "(k, hget (tnode t) ?q) \<in> entries (tnode t)" and k: "tkey k = tkey ?q"
      using hget_entries [OF ok(7), of ?q "hget (tnode t) ?q"] by auto
    then obtain j where "j < ?l" "nkey (tnode t ! j) = Live k" by (elim entriesE)
    moreover have "arrayindex N k = a" using k idx [OF a] arrayindex_tkey [OF N] by metis
    ultimately show ?thesis by blast
  qed
  note node = this
  define f where "f a = (SOME j. j < ?l \<and> (\<exists>k. nkey (tnode t ! j) = Live k \<and> arrayindex N k = a))" for a
  have f: "f a < ?l \<and> (\<exists>k. nkey (tnode t ! f a) = Live k \<and> arrayindex N k = a)" if "?s < a" "a \<le> ?s + int ?l + 1" for a
    using someI_ex [OF node [OF that]] unfolding f_def .
  let ?D = "{?s<..?s + int ?l + 1}"
  have "inj_on f ?D"
  proof (rule inj_onI)
    fix a b assume ab: "a \<in> ?D" "b \<in> ?D" "f a = f b"
    obtain k where k: "nkey (tnode t ! f a) = Live k" "arrayindex N k = a" using f [of a] ab(1) by auto
    obtain l where l: "nkey (tnode t ! f b) = Live l" "arrayindex N l = b" using f [of b] ab(2) by auto
    have "k = l" using k(1) l(1) ab(3) by simp
    then show "a = b" using k(2) l(2) by simp
  qed
  moreover have "f ` ?D \<subseteq> {..<?l}" using f by auto
  ultimately have "card ?D \<le> card {..<?l}" by (intro card_inj_on_le) auto
  then show False by simp
qed

lemma linear_search_spec:
  assumes N: "cvt_ok N" and t: "tab_ok N t"
  shows "0 < i \<Longrightarrow> \<forall>b. 0 < b \<and> b < i \<longrightarrow> ival N t b \<noteq> Nil \<Longrightarrow> i \<le> a \<Longrightarrow> a < i + int m \<Longrightarrow> a < 2 ^ 31 \<Longrightarrow> ival N t a = Nil \<Longrightarrow>
    \<exists>n. linear_search m t i = Inr n \<and> boundary N t n"
proof (induction m arbitrary: i)
  case (Suc m)
  have g: "is_nil_at t i = Inr (ival N t i = Nil)" by (rule is_nil_at_spec [OF N t]) (use Suc.prems in auto)
  show ?case
  proof (cases "ival N t i = Nil")
    case True
    then show ?thesis using g Suc.prems(1-3,5) by (auto simp: boundary_def)
  next
    case False
    then have "i \<noteq> a" using Suc.prems(6) by auto
    moreover have "\<forall>b. 0 < b \<and> b < i + 1 \<longrightarrow> ival N t b \<noteq> Nil"
    proof (intro allI impI)
      fix b assume "0 < b \<and> b < i + 1"
      then show "ival N t b \<noteq> Nil" using Suc.prems(2) False by (cases "b = i") auto
    qed
    ultimately show ?thesis using Suc.IH [of "i + 1"] Suc.prems g False by simp
  qed
qed simp

lemma unbound_loop_spec:
  assumes N: "cvt_ok N" and t: "tab_ok N t"
  shows "0 \<le> i \<Longrightarrow> i < j \<Longrightarrow> j \<le> MAX_INT \<Longrightarrow> i = 0 \<or> ival N t i \<noteq> Nil \<Longrightarrow>
    \<exists>n. unbound_loop t i j = Inr n \<and> boundary N t n"
proof (induction "nat (MAX_INT - j)" arbitrary: i j rule: less_induct)
  case less
  have j: "j < 2 ^ 31" using less.prems(3) by (simp add: MAX_INT_def)
  have g: "is_nil_at t j = Inr (ival N t j = Nil)" by (rule is_nil_at_spec [OF N t]) (use j less.prems in auto)
  show ?case
  proof (cases "ival N t j = Nil")
    case True
    then have "unbound_loop t i j = key_search t i j"
      by (subst unbound_loop.simps) (use less.prems g in simp)
    then show ?thesis using key_search_spec [OF N t less.prems(1,2) j less.prems(4) True] by simp
  next
    case nn: False
    show ?thesis
    proof (cases "j * 2 > MAX_INT")
      case True
      then have e: "unbound_loop t i j = linear_search (length (tarray t) + length (tnode t) + 1) t 1"
        by (subst unbound_loop.simps) (use less.prems g nn in simp)
      obtain a where a: "0 < a" "a \<le> tsizearray t + int (length (tnode t)) + 1" "ival N t a = Nil"
        using nil_in_row [OF N t] by blast
      have "a < 2 ^ 31" using a(2) tab_okD(4) [OF t] tab_length [OF t] by simp
      then show ?thesis unfolding e using a tab_okD(5) [OF t] by (intro linear_search_spec [OF N t, of 1 a]) auto
    next
      case False
      then have "unbound_loop t i j = unbound_loop t j (j * 2)"
        by (subst unbound_loop.simps) (use less.prems g nn in simp)
      then show ?thesis using less.hyps [of "j * 2" j] False less.prems nn by auto
    qed
  qed
qed

lemma luaH_getn_spec:
  assumes "cvt_ok N" "tab_ok N t"
  shows "\<exists>n. luaH_getn t = Inr n \<and> boundary N t n"
proof -
  note t = assms(2) and ok = tab_okD [OF assms(2)]
  let ?j = "tsizearray t"
  have jr: "0 \<le> ?j" "?j + 1 \<le> MAX_INT" using ok(3,4) by (simp_all add: MAX_INT_def)
  have last: "aget (tarray t) (?j - 1) = Inr (ival N t ?j)" if "0 < ?j" using ival_array [OF assms] that by simp
  have hash: "\<exists>n. (if tdummy t then Inr ?j else unbound_search t ?j) = Inr n \<and> boundary N t n" if v: "?j = 0 \<or> ival N t ?j \<noteq> Nil"
  proof (cases "tdummy t")
    case True
    then have "tnode t = [empty_node]" using t by (simp add: tab_ok_def)
    moreover have "arrayindex N (Number (dbl_of_int (?j + 1))) = ?j + 1"
      by (rule key_ok_int(2) [OF assms(1)]) (use jr in \<open>auto simp: MAX_INT_def\<close>)
    ultimately have "ival N t (?j + 1) = Nil" using hget_fresh [of 1] by (simp add: ival_def tget_def)
    then show ?thesis using True jr v by (simp add: boundary_def MAX_INT_def)
  next
    case False
    then show ?thesis using unbound_loop_spec [OF assms, of ?j "?j + 1"] jr v by (simp add: unbound_search_def)
  qed
  show ?thesis
  proof (cases "0 < ?j \<and> ival N t ?j = Nil")
    case True
    then show ?thesis using array_search_spec [OF assms, of 0 ?j] last by (simp add: luaH_getn_def Let_def del: aget_Inr)
  next
    case False
    then show ?thesis using hash last jr by (auto simp: luaH_getn_def Let_def simp del: aget_Inr)
  qed
qed

text \<open>
  C27. The length operator returns a boundary: a non-negative integer \<open>n\<close> that is 0 or has a value,
  such that \<open>n + 1\<close> has none, whatever gaps the array and the hash part have. The doubling and
  binary searches end, and the fallback to a linear search ends within the number of slots.
\<close>

theorem luaH_getn_boundary:
  assumes "cvt_ok N" "tab_ok N t"
  shows "\<exists>n. luaH_getn t = Inr n \<and> 0 \<le> n \<and> (n = 0 \<or> tget N t (Number (dbl_of_int n)) \<noteq> Nil) \<and>
    tget N t (Number (dbl_of_int (n + 1))) = Nil"
  using luaH_getn_spec [OF assms] by (auto simp: boundary_def ival_def)

theorem luaH_getn_boundary_witness: "\<exists>n. luaH_getn table_0 = Inr n \<and> 0 \<le> n"
  using luaH_getn_boundary [OF number2int_ok table_0_ok(1)] by blast

subsection \<open>Traversal\<close>

text \<open>Positions number the array part and then the nodes.\<close>

definition pos_count :: "LTable \<Rightarrow> nat" where
  "pos_count t = nat (tsizearray t) + length (tnode t)"

definition pos_key :: "LTable \<Rightarrow> nat \<Rightarrow> TValue" where
  "pos_key t p =
     (if p < nat (tsizearray t) then Number (dbl_of_int (int p + 1)) else key_of (nkey (tnode t ! (p - nat (tsizearray t)))))"

definition pos_val :: "LTable \<Rightarrow> nat \<Rightarrow> TValue" where
  "pos_val t p = (if p < nat (tsizearray t) then tarray t ! p else nval (tnode t ! (p - nat (tsizearray t))))"

definition items :: "LTable \<Rightarrow> (TValue \<times> TValue) list" where
  "items t = map (\<lambda>p. (pos_key t p, pos_val t p)) (filter (\<lambda>p. pos_val t p \<noteq> Nil) [0..<pos_count t])"

text \<open>No cleared key has the pointer of a key that is in use.\<close>

definition no_stale :: "LTable \<Rightarrow> bool" where
  "no_stale t \<longleftrightarrow> (\<forall>m\<in>set (tnode t). \<forall>n\<in>set (tnode t). \<forall>k. nkey m = Dead k \<longrightarrow> nkey n \<noteq> Live k)"

text \<open>The loop of a script: \<open>next\<close> from the key before until it returns nil.\<close>

fun traverse :: "(lua_Number \<Rightarrow> int) \<Rightarrow> nat \<Rightarrow> LTable \<Rightarrow> TValue \<Rightarrow> (TValue \<times> TValue) list res" where
  "traverse N 0 t k = Inl (UB ''not finished'')"
| "traverse N (Suc m) t k =
     rbind (luaH_next N t k) (\<lambda>r. case r of None \<Rightarrow> Inr [] | Some e \<Rightarrow> rmap (Cons e) (traverse N m t (fst e)))"

lemma next_array_spec:
  "i + m \<le> length (tarray t) \<Longrightarrow> i + m \<le> nat (tsizearray t) \<Longrightarrow>
   next_array t m i = Inr (map_option (\<lambda>p. (pos_key t p, pos_val t p)) (find (\<lambda>p. pos_val t p \<noteq> Nil) [i..<i + m]))"
proof (induction m arbitrary: i)
  case (Suc m)
  have "[i..<i + Suc m] = i # [Suc i..<Suc i + m]" by (simp add: upt_conv_Cons)
  then show ?case using Suc.IH [of "Suc i"] Suc.prems by (auto simp: aget_in pos_val_def pos_key_def)
qed simp

lemma next_hash_spec:
  assumes ok: "nodes_ok (tnode t)"
  shows "i + m \<le> length (tnode t) \<Longrightarrow>
   next_hash t m i = Inr (map_option (\<lambda>p. (pos_key t p, pos_val t p))
     (find (\<lambda>p. pos_val t p \<noteq> Nil) [nat (tsizearray t) + i..<nat (tsizearray t) + i + m]))"
proof (induction m arbitrary: i)
  case (Suc m)
  let ?a = "nat (tsizearray t)"
  have u: "[?a + i..<?a + i + Suc m] = (?a + i) # [?a + Suc i..<?a + Suc i + m]" by (simp add: upt_conv_Cons)
  have v: "pos_val t (?a + i) = nval (tnode t ! i)" "pos_key t (?a + i) = key_of (nkey (tnode t ! i))"
    by (simp_all add: pos_val_def pos_key_def)
  show ?case
  proof (cases "nval (tnode t ! i) = Nil")
    case True
    then show ?thesis using Suc.IH [of "Suc i"] Suc.prems unfolding u by (simp add: aget_in v)
  next
    case False
    then obtain k where "nkey (tnode t ! i) = Live k" using valued_node [OF ok, of i] Suc.prems by auto
    then show ?thesis using False Suc.prems unfolding u by (simp add: aget_in v)
  qed
qed simp

definition next_from :: "LTable \<Rightarrow> nat \<Rightarrow> (TValue \<times> TValue) option" where
  "next_from t p = map_option (\<lambda>p. (pos_key t p, pos_val t p)) (find (\<lambda>p. pos_val t p \<noteq> Nil) [p..<pos_count t])"

lemma find_app: "find P (xs @ ys) = (case find P xs of None \<Rightarrow> find P ys | Some x \<Rightarrow> Some x)"
  by (induction xs) auto

lemma luaH_next_from:
  assumes t: "tab_ok N t" and f: "findindex N t k = Inr (int p - 1)" and p: "p \<le> pos_count t"
  shows "luaH_next N t k = Inr (next_from t p)"
proof -
  note ok = tab_okD [OF t]
  let ?a = "nat (tsizearray t)"
  have sz: "sizenode t = length (tnode t)" "tsizearray t = int ?a" using ok(2,3) by simp_all
  have pc: "pos_count t = ?a + length (tnode t)" by (simp add: pos_count_def)
  have h: "next_hash t (sizenode t - i) i = Inr (next_from t (?a + i))" if "i \<le> length (tnode t)" for i
    using next_hash_spec [OF ok(7), of i "length (tnode t) - i"] that by (simp add: next_from_def pc sz(1))
  show ?thesis
  proof (cases "p < ?a")
    case True
    have a: "next_array t (?a - p) p = Inr (map_option (\<lambda>p. (pos_key t p, pos_val t p)) (find (\<lambda>p. pos_val t p \<noteq> Nil) [p..<?a]))"
      using next_array_spec [of p "?a - p" t] True ok(5) sz(2) by simp
    have s: "[p..<pos_count t] = [p..<?a] @ [?a..<pos_count t]" using True pc upt_add_eq_append [of p ?a "length (tnode t)"] by simp
    have "nat (tsizearray t - int p) = ?a - p" "int p < tsizearray t" using True by simp_all
    then have "luaH_next N t k = (case map_option (\<lambda>p. (pos_key t p, pos_val t p)) (find (\<lambda>p. pos_val t p \<noteq> Nil) [p..<?a]) of
        Some e \<Rightarrow> Inr (Some e) | None \<Rightarrow> next_hash t (sizenode t) 0)"
      using f True a by (simp add: luaH_next_def Let_def)
    also have "next_hash t (sizenode t) 0 = Inr (next_from t ?a)" using h [of 0] by simp
    also have "(case map_option (\<lambda>p. (pos_key t p, pos_val t p)) (find (\<lambda>p. pos_val t p \<noteq> Nil) [p..<?a]) of
        Some e \<Rightarrow> Inr (Some e) | None \<Rightarrow> Inr (next_from t ?a)) = Inr (next_from t p)"
      unfolding next_from_def s find_app by (simp split: option.split)
    finally show ?thesis .
  next
    case False
    then have i: "p - ?a \<le> length (tnode t)" "?a + (p - ?a) = p" "nat (int p - tsizearray t) = p - ?a" "\<not> int p < tsizearray t"
      "max (int p) (tsizearray t) = int p"
      using p pc ok(3) by (auto simp: nat_diff_distrib')
    show ?thesis using f h [OF i(1)] i(2-5) by (simp add: luaH_next_def Let_def)
  qed
qed

lemma pos_val_key:
  assumes t: "tab_ok N t" and p: "p < pos_count t" "pos_val t p \<noteq> Nil" and n: "\<not> p < nat (tsizearray t)"
  shows "\<exists>k. nkey (tnode t ! (p - nat (tsizearray t))) = Live k \<and> key_ok k \<and> pos_key t p = k"
proof -
  have "p - nat (tsizearray t) < length (tnode t)" using p(1) n by (auto simp: pos_count_def)
  then show ?thesis using valued_node [OF tab_okD(7) [OF t], of "p - nat (tsizearray t)"] p(2) n
    by (auto simp: pos_val_def pos_key_def)
qed

lemma findindex_pos:
  assumes N: "cvt_ok N" and t: "tab_ok N t" and s: "no_stale t" and p: "p < pos_count t" "pos_val t p \<noteq> Nil"
  shows "findindex N t (pos_key t p) = Inr (int p)"
proof -
  note ok = tab_okD [OF t]
  let ?a = "nat (tsizearray t)"
  show ?thesis
  proof (cases "p < ?a")
    case True
    have "arrayindex N (pos_key t p) = int p + 1"
      using True ok(4) key_ok_int(2) [OF N, of "int p + 1"] by (simp add: pos_key_def)
    moreover have "pos_key t p \<noteq> Nil" using True by (simp add: pos_key_def)
    moreover have "int p + 1 \<le> tsizearray t" using True by simp
    ultimately show ?thesis by (simp add: findindex_def)
  next
    case False
    let ?i = "p - ?a"
    have i: "?i < length (tnode t)" using p(1) False by (auto simp: pos_count_def)
    obtain k where k: "nkey (tnode t ! ?i) = Live k" "key_ok k" "pos_key t p = k"
      using pos_val_key [OF t p False] by blast
    have kN: "k \<noteq> Nil" by (rule key_ok_not_Nil [OF k(2)])
    have na: "\<not> (0 < arrayindex N k \<and> arrayindex N k \<le> tsizearray t)"
      using t i k(1) unfolding tab_ok_def by (metis nth_mem)
    let ?P = "\<lambda>n. key_is k n \<or> iscollectable k \<and> nkey n = Dead k"
    have nd: "nkey n \<noteq> Dead k" if "n \<in> set (tnode t)" for n
      using s that i k(1) unfolding no_stale_def by (metis nth_mem)
    have "chain_find m (tnode t) ?P j = chain_find m (tnode t) (key_is k) j" for m j
      by (induction m arbitrary: j) (auto intro!: rbind_cong simp: nd split: option.split)
    then have e: "find_from t ?P (main_index t k) = find_from t (key_is k) (main_index t k)" by (simp add: find_from_def)
    have ki: "key_is k (tnode t ! ?i)" using key_is_tkey [OF ok(7) _ kN, of "tnode t ! ?i"] i k(1) by simp
    obtain r where r: "find_from t (key_is k) (main_index t k) = Inr r"
      "case r of None \<Rightarrow> \<forall>i<length (tnode t). \<not> key_is k (tnode t ! i) | Some i \<Rightarrow> i < length (tnode t) \<and> key_is k (tnode t ! i)"
      using find_from_ok [OF t kN] by (auto split: option.splits)
    then obtain j where j: "r = Some j" "j < length (tnode t)" "key_is k (tnode t ! j)" using i ki by (cases r) auto
    then obtain l where l: "nkey (tnode t ! j) = Live l" "tkey l = tkey k" using key_is_tkey [OF ok(7) _ kN, of "tnode t ! j"] by auto
    then have "?i = j" using nodes_okD(4) [OF ok(7) i k(1) j(2) l(1) kN] by simp
    then have ij: "int j + tsizearray t = int p" using False ok(3) by auto
    have na': "(0 < arrayindex N k \<and> arrayindex N k \<le> tsizearray t) = False" using na by simp
    show ?thesis using r(1) j(1) e kN ij unfolding k(3)
      by (simp add: findindex_def Let_def mainposition_def na' del: not_less)
  qed
qed

lemma find_upt:
  "find P [p..<n] = Some q \<Longrightarrow> p \<le> q \<and> q < n \<and> P q \<and> filter P [p..<n] = q # filter P [Suc q..<n]"
proof (induction "n - p" arbitrary: p)
  case (Suc d)
  then have "[p..<n] = p # [Suc p..<n]" by (simp add: upt_conv_Cons)
  moreover have "d = n - Suc p" "p < n" using Suc.hyps(2) by simp_all
  ultimately show ?case using Suc.hyps(1) [of "Suc p"] Suc.prems by (cases "P p") auto
qed simp

lemma traverse_from:
  assumes N: "cvt_ok N" and t: "tab_ok N t" and s: "no_stale t"
  defines "P \<equiv> \<lambda>p. pos_val t p \<noteq> Nil"
  shows "p \<le> pos_count t \<Longrightarrow> findindex N t k = Inr (int p - 1) \<Longrightarrow> length (filter P [p..<pos_count t]) \<le> m \<Longrightarrow>
    traverse N (Suc m) t k = Inr (map (\<lambda>p. (pos_key t p, pos_val t p)) (filter P [p..<pos_count t]))"
proof (induction m arbitrary: p k)
  case 0
  then have "find P [p..<pos_count t] = None" by (auto simp: find_None_iff filter_empty_conv)
  then have "luaH_next N t k = Inr None" using luaH_next_from [OF t 0(2,1)] by (simp add: next_from_def P_def)
  then show ?case using 0 by simp
next
  case (Suc m)
  note n = luaH_next_from [OF t Suc.prems(2,1)]
  show ?case
  proof (cases "find P [p..<pos_count t]")
    case None
    then have "filter P [p..<pos_count t] = []" by (auto simp: find_None_iff filter_empty_conv)
    moreover have "luaH_next N t k = Inr None" using n None by (simp add: next_from_def P_def)
    ultimately show ?thesis by simp
  next
    case (Some q)
    note q = find_upt [OF Some]
    have "luaH_next N t k = Inr (Some (pos_key t q, pos_val t q))" using n Some by (simp add: next_from_def P_def)
    moreover have "findindex N t (pos_key t q) = Inr (int (Suc q) - 1)"
      using findindex_pos [OF N t s, of q] q by (simp add: P_def)
    moreover have "Suc q \<le> pos_count t" "length (filter P [Suc q..<pos_count t]) \<le> m" using q Suc.prems(3) by auto
    ultimately show ?thesis using Suc.IH [of "Suc q" "pos_key t q"] q by simp
  qed
qed

lemma pos_key_inj:
  assumes N: "cvt_ok N" and t: "tab_ok N t"
    and p: "p < pos_count t" "pos_val t p \<noteq> Nil" and q: "q < pos_count t" "pos_val t q \<noteq> Nil" and e: "tkey (pos_key t p) = tkey (pos_key t q)"
  shows "p = q"
proof -
  note ok = tab_okD [OF t]
  let ?a = "nat (tsizearray t)"
  have i: "arrayindex N (pos_key t p) = arrayindex N (pos_key t q)" using e arrayindex_tkey [OF N] by metis
  have arr: "arrayindex N (pos_key t r) = int r + 1" if "r < ?a" for r
    using that ok(4) key_ok_int(2) [OF N, of "int r + 1"] by (simp add: pos_key_def)
  have node: "\<not> (0 < arrayindex N (pos_key t r) \<and> arrayindex N (pos_key t r) \<le> tsizearray t)"
    if r: "r < pos_count t" "pos_val t r \<noteq> Nil" "\<not> r < ?a" for r
  proof -
    obtain k where "nkey (tnode t ! (r - ?a)) = Live k" "pos_key t r = k" using pos_val_key [OF t r] by blast
    moreover have "r - ?a < length (tnode t)" using r by (auto simp: pos_count_def)
    ultimately show ?thesis using t unfolding tab_ok_def by (metis nth_mem)
  qed
  consider "p < ?a" "q < ?a" | "p < ?a" "\<not> q < ?a" | "\<not> p < ?a" "q < ?a" | "\<not> p < ?a" "\<not> q < ?a" by blast
  then show ?thesis
  proof cases
    case 1
    then show ?thesis using arr i by simp
  next
    case 2
    then show ?thesis using arr [of p] node [OF q] i by auto
  next
    case 3
    then show ?thesis using arr [of q] node [OF p] i by auto
  next
    case 4
    obtain k where k: "nkey (tnode t ! (p - ?a)) = Live k" "key_ok k" "pos_key t p = k"
      using pos_val_key [OF t p 4(1)] by (elim exE conjE)
    obtain l where l: "nkey (tnode t ! (q - ?a)) = Live l" "pos_key t q = l"
      using pos_val_key [OF t q 4(2)] by (elim exE conjE)
    have i: "p - ?a < length (tnode t)" "q - ?a < length (tnode t)" using 4 p(1) q(1) by (auto simp: pos_count_def)
    have "p - ?a = q - ?a"
      by (rule nodes_okD(4) [OF ok(7) i(1) k(1) i(2) l(1) key_ok_not_Nil [OF k(2)]]) (use e k(3) l(2) in simp)
    then show ?thesis using 4 by simp
  qed
qed

lemma items_tget:
  assumes N: "cvt_ok N" and t: "tab_ok N t" and k: "k \<noteq> Nil"
  shows "(\<exists>l. (l, v) \<in> set (items t) \<and> tkey l = tkey k) \<longleftrightarrow> v \<noteq> Nil \<and> tget N t k = v"
proof -
  note ok = tab_okD [OF t]
  let ?a = "nat (tsizearray t)"
  have it: "(l, v) \<in> set (items t) \<longleftrightarrow> v \<noteq> Nil \<and> (\<exists>p<pos_count t. l = pos_key t p \<and> pos_val t p = v)" for l v
    by (auto simp: items_def)
  have arr: "arrayindex N (pos_key t r) = int r + 1" if "r < ?a" for r
    using that ok(4) key_ok_int(2) [OF N, of "int r + 1"] by (simp add: pos_key_def)
  have val: "tget N t (pos_key t p) = pos_val t p" if p: "p < pos_count t" "pos_val t p \<noteq> Nil" for p
  proof (cases "p < ?a")
    case True
    then have "int p + 1 \<le> tsizearray t" by simp
    then show ?thesis using arr [OF True] True by (simp add: tget_def pos_val_def Let_def)
  next
    case False
    obtain l where l: "nkey (tnode t ! (p - ?a)) = Live l" "key_ok l" "pos_key t p = l" using pos_val_key [OF t p False] by blast
    have i: "p - ?a < length (tnode t)" using False p by (auto simp: pos_count_def)
    have "\<not> (0 < arrayindex N l \<and> arrayindex N l \<le> tsizearray t)" using t i l(1) unfolding tab_ok_def by (metis nth_mem)
    moreover have "hget (tnode t) l = nval (tnode t ! (p - ?a))"
      by (rule hget_hit [OF ok(7) key_ok_not_Nil [OF l(2)] i]) (use key_is_tkey [OF ok(7) _ key_ok_not_Nil [OF l(2)], of "tnode t ! (p - ?a)"] i l(1) in simp)
    ultimately show ?thesis using False by (auto simp: tget_def l(3) pos_val_def Let_def)
  qed
  have cong: "tget N t l = tget N t k" if "tkey l = tkey k" for l
    using arrayindex_tkey [OF N, of l] arrayindex_tkey [OF N, of k] that hget_tkey [OF ok(7) that] by (simp add: tget_def Let_def)
  show ?thesis
  proof
    assume "\<exists>l. (l, v) \<in> set (items t) \<and> tkey l = tkey k"
    then obtain p where "p < pos_count t" "pos_val t p = v" "v \<noteq> Nil" "tkey (pos_key t p) = tkey k" by (auto simp: it)
    then show "v \<noteq> Nil \<and> tget N t k = v" using val [of p] cong [of "pos_key t p"] by simp
  next
    assume v: "v \<noteq> Nil \<and> tget N t k = v"
    have "\<exists>p<pos_count t. pos_val t p = v \<and> tkey (pos_key t p) = tkey k"
    proof (cases "in_array N t k")
      case True
      define p where "p = nat (arrayindex N k - 1)"
      have p: "p < ?a" "arrayindex N k = int p + 1" using True by (auto simp: p_def in_array_def)
      moreover from this have "int p + 1 \<le> tsizearray t" by simp
      ultimately have "pos_val t p = v" using v by (simp add: tget_def pos_val_def Let_def)
      moreover have "tkey (pos_key t p) = tkey k" using arrayindex_inj [OF N, of "pos_key t p" k] arr [OF p(1)] p(2) by simp
      moreover have "p < pos_count t" using p(1) by (simp add: pos_count_def)
      ultimately show ?thesis by (intro exI [of _ p] conjI)
    next
      case False
      then have "hget (tnode t) k = v" using v by (auto simp: tget_def in_array_def Let_def)
      then obtain l where "(l, v) \<in> entries (tnode t)" and l: "tkey l = tkey k" using hget_entries [OF ok(7) k, of v] v by auto
      then obtain i where i: "i < length (tnode t)" "nkey (tnode t ! i) = Live l" "nval (tnode t ! i) = v" by (elim entriesE)
      then show ?thesis using l by (intro exI [of _ "?a + i"]) (simp add: pos_count_def pos_val_def pos_key_def)
    qed
    then obtain p where p: "p < pos_count t" "pos_val t p = v" "tkey (pos_key t p) = tkey k" by (elim exE conjE)
    then have "(pos_key t p, v) \<in> set (items t)" unfolding it using v by (intro conjI exI [of _ p]) simp_all
    then show "\<exists>l. (l, v) \<in> set (items t) \<and> tkey l = tkey k" using p(3) by (intro exI conjI)
  qed
qed

text \<open>
  C28. A traversal with \<open>next\<close> from nil ends, after one step for each entry, and it has then visited
  every key that has a value, with its value, and none twice.
\<close>

theorem luaH_next_traversal:
  assumes "cvt_ok N" "tab_ok N t" "no_stale t"
  shows "\<exists>xs. traverse N (Suc (length xs)) t Nil = Inr xs \<and> distinct (map (\<lambda>e. tkey (fst e)) xs) \<and>
    (\<forall>k v. k \<noteq> Nil \<longrightarrow> ((\<exists>l. (l, v) \<in> set xs \<and> tkey l = tkey k) \<longleftrightarrow> v \<noteq> Nil \<and> tget N t k = v))"
proof -
  have "findindex N t Nil = Inr (int 0 - 1)" by (simp add: findindex_def)
  then have "traverse N (Suc (length (items t))) t Nil = Inr (items t)"
    using traverse_from [OF assms, of 0 Nil "length (items t)"] by (simp add: items_def)
  moreover have "distinct (map (\<lambda>e. tkey (fst e)) (items t))"
    by (auto simp: items_def distinct_map comp_def inj_on_def intro: pos_key_inj [OF assms(1,2)])
  ultimately show ?thesis using items_tget [OF assms(1,2)] by blast
qed

theorem luaH_next_traversal_witness: "\<exists>xs. traverse number2int (Suc (length xs)) table_0 Nil = Inr xs"
  using luaH_next_traversal [OF number2int_ok table_0_ok(1)] by (auto simp: no_stale_def table_0_def empty_node_def)

end
