(* ===== verification/TabList.thy ===== *)
theory TabList
  imports TabSort TableScan
begin

text \<open>
  The table library on lists: a table holds a list when its positive integer keys have the elements and
  no others have a value. Insertion, removal and sorting are the operations on the list; tables
  satisfy the contract they rest on.
\<close>

subsection \<open>Lists in a store\<close>

definition list_val :: "(int \<Rightarrow> TValue) \<Rightarrow> TValue list \<Rightarrow> bool" where
  "list_val f xs \<longleftrightarrow> Nil \<notin> set xs \<and> int (length xs) < 2 ^ 31 - 1 \<and>
     (\<forall>i>0. f i = (if i \<le> int (length xs) then xs ! nat (i - 1) else Nil))"

lemma list_val_nth: "list_val f xs \<Longrightarrow> 0 < i \<Longrightarrow> i \<le> int (length xs) \<Longrightarrow> f i = xs ! nat (i - 1) \<and> f i \<noteq> Nil"
  by (force simp: list_val_def in_set_conv_nth)

lemma list_val_out: "list_val f xs \<Longrightarrow> int (length xs) < i \<Longrightarrow> f i = Nil"
  by (simp add: list_val_def)

lemma list_val_map: "list_val f xs \<Longrightarrow> xs = map (\<lambda>k. f (int k + 1)) [0..<length xs]"
  by (intro nth_equalityI) (auto simp: list_val_def)

lemma list_val_border:
  assumes "list_val f xs" "0 \<le> n" "n < 2 ^ 31" "n = 0 \<or> f n \<noteq> Nil" "n + 1 < 2 ^ 31 \<longrightarrow> f (n + 1) = Nil"
  shows "n = int (length xs)"
proof (rule ccontr)
  assume n: "n \<noteq> int (length xs)"
  show False
  proof (cases "n < int (length xs)")
    case True
    then have "n + 1 < 2 ^ 31" using assms(1) by (simp add: list_val_def)
    with assms(5) list_val_nth [OF assms(1), of "n + 1"] True assms(2) show False by auto
  next
    case False
    with n assms(4) list_val_out [OF assms(1), of n] show False by auto
  qed
qed

lemma nth_insert:
  "n \<le> length xs \<Longrightarrow> m < n \<Longrightarrow> (take n xs @ v # drop n xs) ! m = xs ! m"
  "n \<le> length xs \<Longrightarrow> (take n xs @ v # drop n xs) ! n = v"
  "n \<le> m \<Longrightarrow> m < length xs \<Longrightarrow> (take n xs @ v # drop n xs) ! Suc m = xs ! m"
  by (simp_all add: nth_append Suc_diff_le)

lemma list_val_insert:
  assumes "list_val f xs" "1 \<le> p" "p \<le> int (length xs) + 1" "v \<noteq> Nil" "int (length xs) + 1 < 2 ^ 31 - 1"
    and "\<And>k. g k = (if k = p then v else if p < k \<and> k \<le> int (length xs) + 1 then f (k - 1) else f k)"
  shows "list_val g (take (nat (p - 1)) xs @ v # drop (nat (p - 1)) xs)"
proof -
  have f: "0 < i \<Longrightarrow> f i = (if i \<le> int (length xs) then xs ! nat (i - 1) else Nil)" for i
    using assms(1) by (simp add: list_val_def)
  have "g i = (take (nat (p - 1)) xs @ v # drop (nat (p - 1)) xs) ! nat (i - 1)"
    if i: "0 < i" "i \<le> int (length xs) + 1" for i
  proof -
    consider "i < p" | "i = p" | "p < i" by linarith
    then show ?thesis
    proof cases
      case 1
      then show ?thesis using assms(3) i f [of i] by (simp add: assms(6) nth_insert(1))
    next
      case 2
      then show ?thesis using assms(2,3) by (simp add: assms(6) nth_insert(2))
    next
      case 3
      have m: "nat (i - 1) = Suc (nat (i - 2))" "nat (p - 1) \<le> nat (i - 2)" "nat (i - 2) < length xs"
        using 3 assms(2) i by auto
      have "g i = xs ! nat (i - 2)" using 3 assms(2) i f [of "i - 1"] by (simp add: assms(6))
      then show ?thesis unfolding m(1) nth_insert(3) [OF m(2,3)] .
    qed
  qed
  moreover have "g i = Nil" if "int (length xs) + 1 < i" for i
    using that f [of i] assms(3) by (simp add: assms(6))
  moreover have "Nil \<notin> set (take (nat (p - 1)) xs @ v # drop (nat (p - 1)) xs)"
    using assms(1,4) by (auto simp: list_val_def dest: in_set_takeD in_set_dropD)
  ultimately show ?thesis using assms(3,5) by (simp add: list_val_def)
qed

lemma list_val_remove:
  assumes "list_val f xs" "1 \<le> p" "p \<le> int (length xs)"
    and "\<And>k. g k = (if k = int (length xs) then Nil else if p \<le> k \<and> k < int (length xs) then f (k + 1) else f k)"
  shows "list_val g (take (nat (p - 1)) xs @ drop (nat p) xs)"
proof -
  have f: "0 < i \<Longrightarrow> f i = (if i \<le> int (length xs) then xs ! nat (i - 1) else Nil)" for i
    using assms(1) by (simp add: list_val_def)
  have "g i = (take (nat (p - 1)) xs @ drop (nat p) xs) ! nat (i - 1)"
    if i: "0 < i" "i < int (length xs)" for i
  proof (cases "i < p")
    case True
    then show ?thesis using assms(3) i f [of i] by (simp add: assms(4) nth_append)
  next
    case False
    have "nat p + (nat (i - 1) - nat (p - 1)) = nat i" using False assms(2) by simp
    with False show ?thesis using assms(2,3) i f [of "i + 1"] by (simp add: assms(4) nth_append)
  qed
  moreover have "g i = Nil" if "int (length xs) \<le> i" for i
    using that f [of i] assms(2,3) by (simp add: assms(4))
  moreover have "Nil \<notin> set (take (nat (p - 1)) xs @ drop (nat p) xs)"
    using assms(1) by (auto simp: list_val_def dest: in_set_takeD in_set_dropD)
  moreover have "length (take (nat (p - 1)) xs @ drop (nat p) xs) = length xs - 1" using assms(2,3) by auto
  moreover have "0 < length xs" using assms(2,3) by auto
  ultimately show ?thesis using assms(1) by (auto simp: list_val_def)
qed

context list_store
begin

lemma len_list: "ok s \<Longrightarrow> list_val (val s) xs \<Longrightarrow> rlen s = Inr (int (length xs))"
proof -
  assume s: "ok s" "list_val (val s) xs"
  from len_law [OF s(1)] obtain n where n: "rlen s = Inr n" "0 \<le> n" "n < 2 ^ 31" "n = 0 \<or> val s n \<noteq> Nil"
    "n + 1 < 2 ^ 31 \<longrightarrow> val s (n + 1) = Nil" by (elim exE conjE)
  from list_val_border [OF s(2) n(2-5)] n(1) show ?thesis by simp
qed

lemma insert_shift_ok:
  "ok s \<Longrightarrow> \<bar>i\<bar> < 2 ^ 31 \<Longrightarrow> - (2 ^ 31) < pos \<Longrightarrow> pos \<le> i \<Longrightarrow>
   (\<exists>m. insert_shift rget rset i pos s = Inl (LuaError LUA_ERRRUN m)) \<or>
   (\<exists>s'. insert_shift rget rset i pos s = Inr s' \<and> ok s' \<and>
     (\<forall>k. val s' k = (if pos < k \<and> k \<le> i then val s (k - 1) else val s k)))"
proof (induction "nat (i - pos)" arbitrary: i s rule: less_induct)
  case less
  show ?case
  proof (cases "i > pos")
    case False
    then show ?thesis using less.prems by (subst (1 2) insert_shift.simps) auto
  next
    case True
    have g: "rget s (i - 1) = Inr (val s (i - 1))" using less.prems True by (intro get_law) auto
    have e: "insert_shift rget rset i pos s =
        rbind (rset s i (val s (i - 1))) (\<lambda>s. insert_shift rget rset (i - 1) pos s)"
      using True g by (subst insert_shift.simps) simp
    from grow_law [OF less.prems(1,2), of "val s (i - 1)"] show ?thesis
    proof
      assume "\<exists>m. rset s i (val s (i - 1)) = Inl (LuaError LUA_ERRRUN m)"
      then show ?thesis using e by auto
    next
      assume "\<exists>s'. rset s i (val s (i - 1)) = Inr s' \<and> ok s' \<and> val s' = (val s)(i := val s (i - 1))"
      then obtain s1 where s1: "rset s i (val s (i - 1)) = Inr s1" "ok s1" "val s1 = (val s)(i := val s (i - 1))" by blast
      have "nat (i - 1 - pos) < nat (i - pos)" "\<bar>i - 1\<bar> < 2 ^ 31" "pos \<le> i - 1" using True less.prems by auto
      note ih = less.hyps [OF this(1) s1(2) this(2) less.prems(3) this(3)]
      have e1: "insert_shift rget rset i pos s = insert_shift rget rset (i - 1) pos s1" using e s1(1) by simp
      from ih show ?thesis
      proof (elim disjE exE conjE)
        fix s' assume s': "insert_shift rget rset (i - 1) pos s1 = Inr s'" "ok s'"
          "\<forall>k. val s' k = (if pos < k \<and> k \<le> i - 1 then val s1 (k - 1) else val s1 k)"
        have "\<forall>k. val s' k = (if pos < k \<and> k \<le> i then val s (k - 1) else val s k)" using True s1(3) s'(3) by auto
        with s'(1,2) e1 show ?thesis by auto
      qed (use e1 in auto)
    qed
  qed
qed

lemma insert_ok:
  assumes "ok s" "list_val (val s) xs" "1 \<le> p" "p \<le> int (length xs) + 1" "v \<noteq> Nil" "int (length xs) + 1 < 2 ^ 31 - 1"
  shows "(\<exists>m. tinsert rget rset rlen 3 (Some p) v s = Inl (LuaError LUA_ERRRUN m)) \<or>
    (\<exists>s'. tinsert rget rset rlen 3 (Some p) v s = Inr s' \<and> ok s' \<and>
       list_val (val s') (take (nat (p - 1)) xs @ v # drop (nat (p - 1)) xs))"
proof -
  let ?e = "int (length xs) + 1"
  have e: "tinsert rget rset rlen 3 (Some p) v s = rbind (insert_shift rget rset ?e p s) (\<lambda>s. rset s p v)"
    using len_list [OF assms(1,2)] assms(4) by (simp add: tinsert_def Let_def)
  have b: "\<bar>?e\<bar> < 2 ^ 31" "- (2 ^ 31) < p" "\<bar>p\<bar> < 2 ^ 31" using assms(3,4,6) by auto
  from insert_shift_ok [OF assms(1) b(1,2) assms(4)] show ?thesis
  proof (elim disjE exE conjE)
    fix s1 assume s1: "insert_shift rget rset ?e p s = Inr s1" "ok s1"
      "\<forall>k. val s1 k = (if p < k \<and> k \<le> ?e then val s (k - 1) else val s k)"
    have e1: "tinsert rget rset rlen 3 (Some p) v s = rset s1 p v" using e s1(1) by simp
    from grow_law [OF s1(2) b(3), of v] show ?thesis
    proof (elim disjE exE conjE)
      fix s' assume s': "rset s1 p v = Inr s'" "ok s'" "val s' = (val s1)(p := v)"
      have "list_val (val s') (take (nat (p - 1)) xs @ v # drop (nat (p - 1)) xs)"
        by (rule list_val_insert [OF assms(2-6)]) (simp add: s'(3) s1(3))
      with s' e1 show ?thesis by auto
    qed (use e1 in auto)
  qed (use e in auto)
qed

lemma remove_shift_ok:
  "ok s \<Longrightarrow> 0 < pos \<Longrightarrow> pos \<le> e \<Longrightarrow> e < 2 ^ 31 \<Longrightarrow> \<forall>k. pos \<le> k \<and> k \<le> e \<longrightarrow> val s k \<noteq> Nil \<Longrightarrow>
   \<exists>s'. remove_shift rget rset pos e s = Inr s' \<and> ok s' \<and>
     (\<forall>k. val s' k = (if pos \<le> k \<and> k < e then val s (k + 1) else val s k))"
proof (induction "nat (e - pos)" arbitrary: pos s rule: less_induct)
  case less
  show ?case
  proof (cases "pos < e")
    case False
    then show ?thesis using less.prems by (subst remove_shift.simps) auto
  next
    case True
    have g: "rget s (pos + 1) = Inr (val s (pos + 1))" using less.prems True by (intro get_law) auto
    have b: "\<bar>pos\<bar> < 2 ^ 31" "val s pos \<noteq> Nil" using less.prems True by auto
    from set_law [OF less.prems(1) b, of "val s (pos + 1)"] obtain s1 where
      s1: "rset s pos (val s (pos + 1)) = Inr s1" "ok s1" "val s1 = (val s)(pos := val s (pos + 1))" by blast
    have e: "remove_shift rget rset pos e s = remove_shift rget rset (pos + 1) e s1"
      using True g s1(1) by (subst remove_shift.simps) simp
    have d: "nat (e - (pos + 1)) < nat (e - pos)" "0 < pos + 1" "pos + 1 \<le> e" using True less.prems by auto
    have "\<forall>k. pos + 1 \<le> k \<and> k \<le> e \<longrightarrow> val s1 k \<noteq> Nil" using less.prems(5) s1(3) by auto
    from less.hyps [OF d(1) s1(2) d(2,3) less.prems(4) this] obtain s' where
      "remove_shift rget rset (pos + 1) e s1 = Inr s'" "ok s'"
      "\<forall>k. val s' k = (if pos + 1 \<le> k \<and> k < e then val s1 (k + 1) else val s1 k)" by blast
    then show ?thesis using e True s1(3) by (intro exI [of _ s']) auto
  qed
qed

lemma remove_ok:
  assumes "ok s" "list_val (val s) xs" "1 \<le> p" "p \<le> int (length xs)"
  shows "\<exists>s'. tremove rget rset rlen (Some p) s = Inr (Some (xs ! nat (p - 1)), s') \<and> ok s' \<and>
    list_val (val s') (take (nat (p - 1)) xs @ drop (nat p) xs)"
proof -
  let ?e = "int (length xs)"
  have e: "?e < 2 ^ 31" using assms(2) by (simp add: list_val_def)
  have nn: "\<forall>k. p \<le> k \<and> k \<le> ?e \<longrightarrow> val s k \<noteq> Nil"
  proof (intro allI impI)
    fix k assume "p \<le> k \<and> k \<le> ?e"
    with list_val_nth [OF assms(2), of k] assms(3) show "val s k \<noteq> Nil" by linarith
  qed
  have "0 < p" using assms(3) by simp
  from remove_shift_ok [OF assms(1) this assms(4) e nn] obtain s1 where
    s1: "remove_shift rget rset p ?e s = Inr s1" "ok s1"
    "\<forall>k. val s1 k = (if p \<le> k \<and> k < ?e then val s (k + 1) else val s k)" by blast
  have b: "\<bar>?e\<bar> < 2 ^ 31" "val s1 ?e \<noteq> Nil" using s1(3) nn assms(4) e by auto
  from set_law [OF s1(2) b, of Nil] obtain s2 where
    s2: "rset s1 ?e Nil = Inr s2" "ok s2" "val s2 = (val s1)(?e := Nil)" by blast
  have "rget s p = Inr (val s p)" using assms(1,3,4) e by (intro get_law) auto
  moreover have "val s p = xs ! nat (p - 1)" using list_val_nth [OF assms(2), of p] assms(3,4) by simp
  ultimately have "tremove rget rset rlen (Some p) s = Inr (Some (xs ! nat (p - 1)), s2)"
    using len_list [OF assms(1,2)] assms(3,4) s1(1) s2(1) by (simp add: tremove_def Let_def)
  moreover have "list_val (val s2) (take (nat (p - 1)) xs @ drop (nat p) xs)"
    by (rule list_val_remove [OF assms(2-4)]) (simp add: s2(3) s1(3))
  ultimately show ?thesis using s2(2) by blast
qed

end

end
