(* ===== verification/Compare.thy ===== *)
theory Compare
  imports Objects "HOL-Library.List_Lexorder" "HOL-Library.Char_ord"
begin

text \<open>
  The comparisons of \<open>lua/lvm.c\<close>: \<open>l_strcmp\<close>, \<open>luaV_lessthan\<close>, \<open>lessequal\<close> and \<open>luaV_equalval\<close>. The C library's
  \<open>strcoll\<close> is a parameter on strings without zero bytes; so are \<open>call_orderTM\<close> with its event, as \<open>tm\<close>,
  and \<open>luaG_ordererror\<close>, which work on the state \<open>'s\<close> of the interpreter.
\<close>

datatype TMS = TM_INDEX | TM_NEWINDEX | TM_GC | TM_MODE | TM_EQ | TM_ADD | TM_SUB | TM_MUL | TM_DIV | TM_MOD
  | TM_POW | TM_UNM | TM_LEN | TM_LT | TM_LE | TM_CONCAT | TM_CALL

text \<open>
  The terminators of the two strings are at their ends; after an equal segment, the code goes on behind the
  zero byte of the left string, in both strings.
\<close>

function l_strcmp :: "(string \<Rightarrow> string \<Rightarrow> int) \<Rightarrow> string \<Rightarrow> string \<Rightarrow> int res" where
  "l_strcmp strcoll l r =
     (let temp = strcoll (cstr l) (cstr r) in
      if temp \<noteq> 0 then Inr temp
      else
        let len = length (cstr l) in
        if len = length r then Inr (if len = length l then 0 else 1)
        else if len = length l then Inr (- 1)
        else if len + 1 \<le> length r then l_strcmp strcoll (drop (len + 1) l) (drop (len + 1) r)
        else Inl (UB ''string read''))"
  by pat_completeness auto
termination
  by (relation "measure (\<lambda>(strcoll, l, r). length r)") auto

declare l_strcmp.simps [simp del]

text \<open>\<open>'e\<close> are the errors of the caller, in which \<open>lf\<close> embeds those of the comparison of strings.\<close>

type_synonym ('e, 's) order_tm = "TMS \<Rightarrow> TValue \<Rightarrow> TValue \<Rightarrow> 's \<Rightarrow> 'e + (int \<times> 's)"
type_synonym ('e, 's) order_err = "TValue \<Rightarrow> TValue \<Rightarrow> 's \<Rightarrow> 'e + (bool \<times> 's)"

definition luaV_lessthan :: "(int res \<Rightarrow> 'e + int) \<Rightarrow> (string \<Rightarrow> string \<Rightarrow> int) \<Rightarrow> ('e, 's) order_tm \<Rightarrow> ('e, 's) order_err \<Rightarrow>
    TValue \<Rightarrow> TValue \<Rightarrow> 's \<Rightarrow> 'e + (bool \<times> 's)" where
  "luaV_lessthan lf strcoll tm err l r s =
     (if ttype l \<noteq> ttype r then err l r s
      else case (l, r) of
        (Number a, Number b) \<Rightarrow> Inr (luai_numlt a b, s)
      | (Str a, Str b) \<Rightarrow> rmap (\<lambda>c. (c < 0, s)) (lf (l_strcmp strcoll a b))
      | _ \<Rightarrow> rbind (tm TM_LT l r s) (\<lambda>(res, s). if res \<noteq> - 1 then Inr (res \<noteq> 0, s) else err l r s))"

definition lessequal :: "(int res \<Rightarrow> 'e + int) \<Rightarrow> (string \<Rightarrow> string \<Rightarrow> int) \<Rightarrow> ('e, 's) order_tm \<Rightarrow> ('e, 's) order_err \<Rightarrow>
    TValue \<Rightarrow> TValue \<Rightarrow> 's \<Rightarrow> 'e + (bool \<times> 's)" where
  "lessequal lf strcoll tm err l r s =
     (if ttype l \<noteq> ttype r then err l r s
      else case (l, r) of
        (Number a, Number b) \<Rightarrow> Inr (luai_numle a b, s)
      | (Str a, Str b) \<Rightarrow> rmap (\<lambda>c. (c \<le> 0, s)) (lf (l_strcmp strcoll a b))
      | _ \<Rightarrow> rbind (tm TM_LE l r s) (\<lambda>(res, s).
             if res \<noteq> - 1 then Inr (res \<noteq> 0, s)
             else rbind (tm TM_LT r l s) (\<lambda>(res, s). if res \<noteq> - 1 then Inr (res = 0, s) else err l r s)))"

text \<open>\<open>eqtm\<close> is \<open>get_compTM\<close> and the call: \<open>None\<close> when there is no common metamethod.\<close>

definition luaV_equalval :: "(int res \<Rightarrow> 'e + int) \<Rightarrow> (TValue \<Rightarrow> TValue \<Rightarrow> 's \<Rightarrow> 'e + (bool option \<times> 's)) \<Rightarrow> TValue \<Rightarrow> TValue \<Rightarrow> 's \<Rightarrow>
    'e + (bool \<times> 's)" where
  "luaV_equalval lf eqtm t1 t2 s =
     (if ttype t1 \<noteq> ttype t2 then rmap (\<lambda>_. (False, s)) (lf (Inl (UB ''lua_assert'')))
      else case (t1, t2) of
        (Userdata a, Userdata b) \<Rightarrow>
          if a = b then Inr (True, s)
          else rmap (\<lambda>(r, s). (case r of None \<Rightarrow> False | Some b \<Rightarrow> b, s)) (eqtm t1 t2 s)
      | (Table a, Table b) \<Rightarrow>
          if a = b then Inr (True, s)
          else rmap (\<lambda>(r, s). (case r of None \<Rightarrow> False | Some b \<Rightarrow> b, s)) (eqtm t1 t2 s)
      | _ \<Rightarrow> Inr (luaO_rawequalObj t1 t2, s))"

subsection \<open>The order of strings\<close>

text \<open>\<open>strcoll\<close> in the C locale, \<open>strcmp\<close>: the difference of the first bytes that differ.\<close>

fun strcmp :: "string \<Rightarrow> string \<Rightarrow> int" where
  "strcmp [] [] = 0"
| "strcmp [] (d # r) = - uchar d"
| "strcmp (c # l) [] = uchar c"
| "strcmp (c # l) (d # r) = (if c = d then strcmp l r else uchar c - uchar d)"

lemma uchar_NUL: "uchar c = 0 \<longleftrightarrow> c = NUL" "0 < uchar c \<longleftrightarrow> c \<noteq> NUL"
proof -
  have z: "uchar NUL = 0" by (simp add: uchar_def)
  show "uchar c = 0 \<longleftrightarrow> c = NUL" using uchar_inj [of c NUL] unfolding z .
  then show "0 < uchar c \<longleftrightarrow> c \<noteq> NUL" using uchar_range(1) [of c] by auto
qed

lemma uchar_less: "uchar c < uchar d \<longleftrightarrow> c < d"
  by (simp add: uchar_def less_char_def)

lemma strcmp_lex:
  "NUL \<notin> set l \<Longrightarrow> NUL \<notin> set r \<Longrightarrow> (strcmp l r < 0 \<longleftrightarrow> l < r) \<and> (strcmp l r = 0 \<longleftrightarrow> l = r)"
  by (induction l r rule: strcmp.induct) (auto simp: uchar_NUL uchar_less uchar_range not_less)

lemma NUL_less: "NUL < c \<longleftrightarrow> c \<noteq> NUL" "\<not> c < NUL"
  using uchar_less [of NUL c] uchar_less [of c NUL] uchar_NUL [of c] uchar_NUL [of NUL] uchar_range(1) [of c] by auto

lemma cstr_NUL: "NUL \<notin> set (cstr s)"
  by (auto simp: cstr_def dest: set_takeWhileD)

lemma cstr_split: "s = cstr s \<or> (\<exists>t. s = cstr s @ NUL # t)"
  by (induction s) (auto simp: cstr_def)

lemma less_cstr: "cstr l \<noteq> cstr r \<Longrightarrow> l < r \<longleftrightarrow> cstr l < cstr r"
  by (induction l r rule: list_induct2') (auto simp: cstr_def NUL_less)

lemma append_less: "x @ a < x @ b \<longleftrightarrow> a < (b :: string)"
  by (induction x) auto

text \<open>Without a zero byte or with any number of them, the order is the lexicographic one of the bytes.\<close>

lemma l_strcmp_lex:
  "\<exists>c. l_strcmp strcmp l r = Inr c \<and> (c < 0 \<longleftrightarrow> l < r) \<and> (c = 0 \<longleftrightarrow> l = r)"
proof (induction "length r" arbitrary: l r rule: less_induct)
  case less
  note lex = strcmp_lex [OF cstr_NUL [of l] cstr_NUL [of r]]
  show ?case
  proof (cases "cstr l = cstr r")
    case False
    then have "l_strcmp strcmp l r = Inr (strcmp (cstr l) (cstr r))"
      using lex by (subst l_strcmp.simps) (simp add: Let_def)
    moreover have "l \<noteq> r" using False by auto
    ultimately show ?thesis using lex less_cstr [OF False] False by auto
  next
    case True
    define x where "x = cstr r"
    have zero: "strcmp x x = 0" using lex True by (simp add: x_def)
    have cl: "cstr l = x" "cstr r = x" using True by (simp_all add: x_def)
    note unf = l_strcmp.simps [of strcmp l r, unfolded cl Let_def zero]
    consider "l = x" "r = x" | t where "l = x @ NUL # t" "r = x" | t where "l = x" "r = x @ NUL # t"
      | t u where "l = x @ NUL # t" "r = x @ NUL # u"
      using cstr_split [of l] cstr_split [of r] True unfolding x_def by metis
    then show ?thesis
    proof cases
      case 1
      then show ?thesis by (subst unf) simp
    next
      case 2
      then have "\<not> l < r" "l \<noteq> r" using append_less [of x "NUL # t" "[]"] by auto
      with 2 show ?thesis by (subst unf) simp
    next
      case 3
      then have "l < r" "l \<noteq> r" using append_less [of x "[]" "NUL # t"] by auto
      with 3 show ?thesis by (subst unf) simp
    next
      case 4
      then have "length u < length r" by simp
      from less.hyps [OF this, of t] obtain c where
        c: "l_strcmp strcmp t u = Inr c" "c < 0 \<longleftrightarrow> t < u" "c = 0 \<longleftrightarrow> t = u" by blast
      have "l_strcmp strcmp l r = Inr c" using 4 c(1) by (subst unf) simp
      moreover have "l < r \<longleftrightarrow> t < u" "l = r \<longleftrightarrow> t = u" using 4 append_less [of x "NUL # t" "NUL # u"] by auto
      ultimately show ?thesis using c(2,3) by auto
    qed
  qed
qed

end
