(* ===== verification/TabProps.thy ===== *)
theory TabProps
  imports TabList Compare
begin

text \<open>
  The table library on tables: they are stores of lists, so that the library's operations are those on
  lists. The orders of numbers and of strings that \<open>lua_lessthan\<close> uses are strict weak orders.
\<close>

subsection \<open>Tables as stores\<close>

definition int_key :: "int \<Rightarrow> TValue" where "int_key i = Number (dbl_of_int i)"

definition tval :: "(lua_Number \<Rightarrow> int) \<Rightarrow> LTable \<Rightarrow> int \<Rightarrow> TValue" where
  "tval N t i = (if \<bar>i\<bar> < 2 ^ 31 then tget N t (int_key i) else Nil)"

text \<open>A table whose values at the other keys are \<open>g\<close>.\<close>

definition int_part :: "(lua_Number \<Rightarrow> int) \<Rightarrow> (TValue \<Rightarrow> TValue) \<Rightarrow> LTable \<Rightarrow> bool" where
  "int_part N g t \<longleftrightarrow> cvt_ok N \<and> tab_ok N t \<and>
     (\<forall>q. (\<forall>i. \<bar>i\<bar> < 2 ^ 31 \<longrightarrow> tkey q \<noteq> tkey (int_key i)) \<longrightarrow> tget N t q = g q)"

lemma int_part_self: "cvt_ok N \<Longrightarrow> tab_ok N t \<Longrightarrow> int_part N (tget N t) t"
  by (simp add: int_part_def)

lemma int_key_inj:
  assumes "cvt_ok N" "\<bar>a\<bar> < 2 ^ 31" "\<bar>i\<bar> < 2 ^ 31"
  shows "tkey (int_key a) = tkey (int_key i) \<longleftrightarrow> a = i"
proof
  assume "tkey (int_key a) = tkey (int_key i)"
  then have "arrayindex N (int_key a) = arrayindex N (int_key i)"
    using arrayindex_tkey [OF assms(1)] by metis
  moreover have "arrayindex N (int_key a) = a" "arrayindex N (int_key i) = i"
    unfolding int_key_def using assms by (auto intro!: key_ok_int(2))
  ultimately show "a = i" by simp
qed simp

lemma tval_upd:
  assumes "int_part N g t" "\<bar>i\<bar> < 2 ^ 31" "tab_ok N t'" "tget N t' = upd (tget N t) (int_key i) v"
  shows "int_part N g t' \<and> tval N t' = (tval N t)(i := v)"
proof -
  have N: "cvt_ok N" using assms(1) by (simp add: int_part_def)
  have "tval N t' a = ((tval N t)(i := v)) a" for a
    using int_key_inj [OF N, of a i] assms(2) by (auto simp: tval_def assms(4) upd_def)
  moreover have "int_part N g t'"
    using assms by (auto simp: int_part_def upd_def)
  ultimately show ?thesis by auto
qed

lemma rawset_put:
  assumes "cvt_ok N" "tab_ok N t" "\<bar>i\<bar> < 2 ^ 31"
  shows "lua_rawseti N t i v = store_at v (put_with N (grow N (Suc 0)) t (int_key i))"
  using assms by (simp add: lua_rawseti_def luaH_setnum_def GROW_DEPTH_def int_key_def setnum_with_put)

lemma rawget_law:
  assumes "int_part N g t" "\<bar>i\<bar> < 2 ^ 31"
  shows "lua_rawgeti t i = Inr (tval N t i)"
proof -
  have N: "cvt_ok N" and t: "tab_ok N t" using assms(1) by (simp_all add: int_part_def)
  obtain s where "search N t (int_key i) = Inr s" "read_slot t s = Inr (tget N t (int_key i))"
    using search_spec [OF t, of "int_key i"] by (auto simp: int_key_def)
  then show ?thesis
    using getnum_search [OF N t, of i] assms(2) by (simp add: lua_rawgeti_def tval_def int_key_def abs_less_iff)
qed

lemma int_key_ok: "cvt_ok N \<Longrightarrow> \<bar>i\<bar> < 2 ^ 31 \<Longrightarrow> key_ok (int_key i)"
  unfolding int_key_def by (rule key_ok_int(1)) auto

lemma rawset_law:
  assumes p: "int_part N g t" and i: "\<bar>i\<bar> < 2 ^ 31" and v: "tval N t i \<noteq> Nil"
  shows "\<exists>t'. lua_rawseti N t i v = Inr t' \<and> int_part N g t' \<and> tval N t' = (tval N t)(i := v)"
proof -
  have N: "cvt_ok N" and t: "tab_ok N t" using p by (simp_all add: int_part_def)
  have k: "int_key i \<noteq> Nil" by (simp add: int_key_def)
  obtain s where s: "search N t (int_key i) = Inr s" "read_slot t s = Inr (tget N t (int_key i))"
    using search_spec [OF t k] by blast
  have "s \<noteq> SNil"
  proof
    assume "s = SNil"
    with s(2) v i show False by (simp add: read_slot_def tval_def)
  qed
  then have "located N t (int_key i) s" using search_cases [OF t k] s(1) by auto
  from store_spec [OF N t k this] obtain t' where
    t': "write_slot t s v = Inr t'" "tab_ok N t'" "tget N t' = upd (tget N t) (int_key i) v" by blast
  have "lua_rawseti N t i v = Inr t'"
    using rawset_put [OF N t i] s(1) \<open>s \<noteq> SNil\<close> t'(1) by (simp add: put_with_def store_at_def)
  with tval_upd [OF p i t'(2,3)] show ?thesis by blast
qed

lemma rawset_grow_law:
  assumes p: "int_part N g t" and i: "\<bar>i\<bar> < 2 ^ 31"
  shows "(\<exists>m. lua_rawseti N t i v = Inl (LuaError LUA_ERRRUN m)) \<or>
    (\<exists>t'. lua_rawseti N t i v = Inr t' \<and> int_part N g t' \<and> tval N t' = (tval N t)(i := v))"
proof -
  have N: "cvt_ok N" and t: "tab_ok N t" using p by (simp_all add: int_part_def)
  note e = rawset_put [OF N t i, of v]
  from luaH_set_spec [OF N t int_key_ok [OF N i], of 0] show ?thesis
  proof (elim disjE exE conjE)
    fix s t1 assume t1: "put_with N (grow N (Suc 0)) t (int_key i) = Inr (s, t1)" "located N t1 (int_key i) s"
      "tab_ok N t1" "tget N t1 = tget N t"
    have "int_key i \<noteq> Nil" by (simp add: int_key_def)
    from store_spec [OF N t1(3) this t1(2)] obtain t' where
      t': "write_slot t1 s v = Inr t'" "tab_ok N t'" "tget N t' = upd (tget N t1) (int_key i) v" by blast
    have "lua_rawseti N t i v = Inr t'" unfolding e by (simp add: t1(1) t'(1) store_at_def)
    with tval_upd [OF p i t'(2)] t'(3) t1(4) show ?thesis by auto
  qed (simp add: e store_at_def)
qed

lemma table_len_law:
  assumes "int_part N g t"
  shows "\<exists>n. luaH_getn t = Inr n \<and> 0 \<le> n \<and> n < 2 ^ 31 \<and> (n = 0 \<or> tval N t n \<noteq> Nil) \<and>
    (n + 1 < 2 ^ 31 \<longrightarrow> tval N t (n + 1) = Nil)"
proof -
  have "cvt_ok N" "tab_ok N t" using assms by (simp_all add: int_part_def)
  from luaH_getn_spec [OF this] obtain n where n: "luaH_getn t = Inr n" "boundary N t n" by blast
  have "n = 0 \<or> tval N t n \<noteq> Nil" "n + 1 < 2 ^ 31 \<longrightarrow> tval N t (n + 1) = Nil"
    using n(2) unfolding boundary_def tval_def ival_def int_key_def by simp_all
  with n show ?thesis unfolding boundary_def by blast
qed

interpretation table_store: list_store lua_rawgeti "lua_rawseti N" "int_part N g" "tval N" luaH_getn for N g
  by unfold_locales (rule rawget_law rawset_law rawset_grow_law table_len_law; assumption)+

subsection \<open>The orders of numbers and strings\<close>

definition real_numbers :: "TValue set" where
  "real_numbers = {Number d | d. \<not> dbl_isnan d}"

definition strings :: "TValue set" where "strings = range Str"

primrec value_less :: "TValue \<Rightarrow> TValue \<Rightarrow> bool" where
  "value_less (Number a) r = (case r of Number b \<Rightarrow> luai_numlt a b | _ \<Rightarrow> False)"
| "value_less (Str a) r = (case r of Str b \<Rightarrow> a < b | _ \<Rightarrow> False)"
| "value_less Nil r = False" | "value_less (Boolean b) r = False" | "value_less (LightUserdata p) r = False"
| "value_less (Table p) r = False" | "value_less (Function p) r = False" | "value_less (Userdata p) r = False"
| "value_less (Thread p) r = False"

lemma numbers_order: "strict_weak real_numbers value_less"
  by (auto simp: strict_weak_def real_numbers_def luai_numlt_def)

lemma strings_order: "strict_weak strings value_less"
  by (auto simp: strict_weak_def strings_def)

lemma lessthan_numbers:
  "a \<in> real_numbers \<Longrightarrow> b \<in> real_numbers \<Longrightarrow> luaV_lessthan id strcoll tm err a b s = Inr (value_less a b, s)"
  by (auto simp: luaV_lessthan_def real_numbers_def ttype_def)

lemma lessthan_strings:
  assumes "a \<in> strings" "b \<in> strings"
  shows "luaV_lessthan id strcmp tm err a b s = Inr (value_less a b, s)"
proof -
  obtain l r where "a = Str l" "b = Str r" using assms by (auto simp: strings_def)
  with l_strcmp_lex [of l r] show ?thesis by (auto simp: luaV_lessthan_def ttype_def)
qed

interpretation number_sort: ordered_store lua_rawgeti "lua_rawseti N" "int_part N g" "tval N"
  "sort_comp None (luaV_lessthan id strcoll tm err)" real_numbers value_less for N g strcoll tm err
  by unfold_locales
    (auto simp: sort_comp_def lessthan_numbers numbers_order, simp add: real_numbers_def)

interpretation string_sort: ordered_store lua_rawgeti "lua_rawseti N" "int_part N g" "tval N"
  "sort_comp None (luaV_lessthan id strcmp tm err)" strings value_less for N g tm err
  by unfold_locales
    (auto simp: sort_comp_def lessthan_strings strings_order, auto simp: strings_def)

subsection \<open>Sorting a list\<close>

lemma mset_range: "mset (map (\<lambda>k. f (int k + 1)) [0..<n]) = image_mset f (mset_set {1..int n})"
proof -
  have inj: "inj_on (\<lambda>k. int k + 1) {0..<n}" by (simp add: inj_on_def)
  have "(\<lambda>k. int k + 1) ` {0..<n} = {1..int n}"
  proof
    show "{1..int n} \<subseteq> (\<lambda>k. int k + 1) ` {0..<n}"
    proof
      fix i assume "i \<in> {1..int n}"
      then have "i = int (nat (i - 1)) + 1" "nat (i - 1) \<in> {0..<n}" by auto
      then show "i \<in> (\<lambda>k. int k + 1) ` {0..<n}" by blast
    qed
  qed auto
  with image_mset_mset_set [OF inj] have e: "mset_set {1..int n} = image_mset (\<lambda>k. int k + 1) (mset_set {0..<n})" by simp
  have "mset [0..<n] = mset_set {0..<n}" by simp
  then show ?thesis unfolding e mset_map by (simp add: multiset.map_comp comp_def)
qed

definition outside_same :: "(lua_Number \<Rightarrow> int) \<Rightarrow> LTable \<Rightarrow> LTable \<Rightarrow> bool" where
  "outside_same N t t' \<longleftrightarrow>
     (\<forall>q. (\<forall>i. \<bar>i\<bar> < 2 ^ 31 \<longrightarrow> tkey q \<noteq> tkey (int_key i)) \<longrightarrow> tget N t' q = tget N t q)"

lemma permuted_list:
  assumes "list_val f xs" "permuted 1 (int (length xs)) f g"
  shows "\<exists>ys. list_val g ys \<and> mset ys = mset xs"
proof (intro exI conjI)
  let ?n = "length xs"
  let ?ys = "map (\<lambda>k. g (int k + 1)) [0..<?n]"
  have "mset ?ys = image_mset f (mset_set {1..int ?n})"
    using assms(2) by (simp only: mset_range permuted_def)
  also have "\<dots> = mset (map (\<lambda>k. f (int k + 1)) [0..<?n])" by (rule mset_range [symmetric])
  finally show m: "mset ?ys = mset xs" using list_val_map [OF assms(1)] by simp
  then have e: "set ?ys = set xs" by (rule mset_eq_setD)
  have "Nil \<notin> set xs" using assms(1) by (simp add: list_val_def)
  then have "Nil \<notin> set ?ys" unfolding e .
  moreover have "g i = (if i \<le> int (length ?ys) then ?ys ! nat (i - 1) else Nil)" if "0 < i" for i
  proof (cases "i \<le> int ?n")
    case True
    with that have "nat (i - 1) < ?n" "i \<le> int ?n" by auto
    with that show ?thesis by simp
  next
    case False
    then have "g i = f i" using assms(2) by (simp add: permuted_def)
    with False list_val_out [OF assms(1)] show ?thesis by simp
  qed
  moreover have "int (length ?ys) < 2 ^ 31 - 1" using assms(1) by (simp add: list_val_def)
  ultimately show "list_val g ?ys" unfolding list_val_def by blast
qed

lemma list_val_unique: "list_val f xs \<Longrightarrow> list_val f ys \<Longrightarrow> length xs = length ys \<Longrightarrow> xs = ys"
  using list_val_map by metis

text \<open>
  C30. The sort of the table library sorts: on a table that holds a list, with an order function (or the default
  comparison) that answers a strict weak order on its elements, it returns, within as many nested
  calls as there are elements and one more; the table then holds a permutation of the list, with the same
  multiplicities, in which no element is less than one before it, and nothing but the elements has changed.
\<close>

theorem tsort_sorts:
  assumes "cvt_ok N" "tab_ok N t" "list_val (tval N t) xs" "strict_weak (set xs) lt" "length xs < fuel"
    and "\<And>a b s. a \<in> set xs \<Longrightarrow> b \<in> set xs \<Longrightarrow> sort_comp f lessthan a b s = Inr (lt a b, s)"
  shows "\<exists>t' ys. tsort fuel lua_rawgeti (lua_rawseti N) luaH_getn f lessthan t = Inr t' \<and> tab_ok N t' \<and>
    list_val (tval N t') ys \<and> mset ys = mset xs \<and> sorted_wrt (\<lambda>a b. \<not> lt b a) ys \<and> outside_same N t t'"
proof -
  let ?n = "int (length xs)" and ?ok = "int_part N (tget N t)"
  have ok: "?ok t" using assms(1,2) by (rule int_part_self)
  have os: "ordered_store lua_rawgeti (lua_rawseti N) ?ok (tval N) (sort_comp f lessthan) (set xs) lt"
    using assms(3,4,6) by unfold_locales (auto simp: list_val_def)
  have at: "ordered_store.list_at ?ok (tval N) (set xs) 1 ?n t"
    using ok assms(3) list_val_nth [OF assms(3)]
    by (auto simp: ordered_store.list_at_def [OF os] list_val_def)
  have "nat (?n - 1) < fuel" using assms(5) by simp
  from ordered_store.auxsort_sorts [OF os at this] obtain t' where
    t': "auxsort fuel lua_rawgeti (lua_rawseti N) (sort_comp f lessthan) 1 ?n t = Inr t'" "?ok t'"
    "permuted 1 ?n (tval N t) (tval N t')" "sorted_range lt 1 ?n (tval N t')" by blast
  from permuted_list [OF assms(3) t'(3)] obtain ys where ys: "list_val (tval N t') ys" "mset ys = mset xs" by blast
  have len: "length ys = length xs" using ys(2) by (metis size_mset)
  have "sorted_wrt (\<lambda>a b. \<not> lt b a) ys"
    unfolding sorted_wrt_iff_nth_less
  proof (intro allI impI)
    fix i j assume ij: "i < j" "j < length ys"
    with t'(4) len have "\<not> lt (tval N t' (int j + 1)) (tval N t' (int i + 1))" by (simp add: sorted_range_def)
    with ij list_val_nth [OF ys(1), of "int i + 1"] list_val_nth [OF ys(1), of "int j + 1"]
    show "\<not> lt (ys ! j) (ys ! i)" by simp
  qed
  moreover have "tsort fuel lua_rawgeti (lua_rawseti N) luaH_getn f lessthan t = Inr t'"
    using table_store.len_list [OF ok assms(3)] t'(1) by (simp add: tsort_def)
  moreover have "tab_ok N t'" "outside_same N t t'" using t'(2) by (auto simp: int_part_def outside_same_def)
  ultimately show ?thesis using ys by blast
qed

definition array_table :: "TValue list \<Rightarrow> nat \<Rightarrow> LTable" where
  "array_table xs k = table_0\<lparr>tarray := xs @ replicate k Nil, tsizearray := int (length xs + k)\<rparr>"

lemma array_table_list:
  assumes "cvt_ok N" "Nil \<notin> set xs" "int (length xs + k) \<le> MAXASIZE"
  shows "tab_ok N (array_table xs k)" "list_val (tval N (array_table xs k)) xs"
proof -
  let ?t = "array_table xs k"
  have m: "main_index ?t = main_index table_0"
    by (rule ext) (simp add: main_index_def hashnum_def hashpow2_def hashmod_def sizenode_def array_table_def
        split: TValue.splits)
  have f: "tnode ?t = tnode table_0" "tlsizenode ?t = tlsizenode table_0" "sizenode ?t = sizenode table_0"
    "tdummy ?t = tdummy table_0" "tlastfree ?t = tlastfree table_0" "tarray ?t = xs @ replicate k Nil" "tsizearray ?t = int (length xs + k)"
    by (simp_all add: array_table_def sizenode_def)
  have e: "tnode table_0 = [empty_node]" "nkey empty_node = Live Nil" "tdummy table_0"
    by (simp_all add: table_0_def empty_node_def)
  show "tab_ok N ?t"
    using table_0_ok(1) [of N] assms(3) unfolding tab_ok_def m f by (simp add: e arrayindex_def)
  have "tval N ?t i = (if i \<le> int (length xs) then xs ! nat (i - 1) else Nil)" if i: "0 < i" for i
  proof (cases "\<bar>i\<bar> < 2 ^ 31")
    case True
    then have "arrayindex N (int_key i) = i" unfolding int_key_def using assms(1) by (intro key_ok_int(2)) auto
    with i True hget_fresh [of 1] show ?thesis by (auto simp: tval_def tget_def f e nth_append Let_def)
  next
    case False
    with i assms(3) show ?thesis by (simp add: tval_def MAXASIZE_def MAXBITS_def)
  qed
  with assms(2,3) show "list_val (tval N ?t) xs" by (simp add: list_val_def MAXASIZE_def MAXBITS_def)
qed

text \<open>A state without metamethods.\<close>

definition no_tm :: "(lua_error, LTable) order_tm" where "no_tm e l r s = Inr (- 1, s)"
definition no_order :: "(lua_error, LTable) order_err" where "no_order l r s = luaL_error ''attempt to compare''"

theorem tsort_sorts_witness:
  "\<exists>t' ys. tsort 4 lua_rawgeti (lua_rawseti number2int) luaH_getn None (luaV_lessthan id strcmp no_tm no_order)
       (array_table [Str ''b'', Str [CHR ''a'', NUL, CHR ''z''], Str ''a''] 0) = Inr t' \<and>
     list_val (tval number2int t') ys \<and> mset ys = {#Str ''b'', Str [CHR ''a'', NUL, CHR ''z''], Str ''a''#}"
proof -
  let ?xs = "[Str ''b'', Str [CHR ''a'', NUL, CHR ''z''], Str ''a'']"
  have s: "set ?xs \<subseteq> strings" by (auto simp: strings_def)
  have "strict_weak (set ?xs) value_less" using strings_order s unfolding strict_weak_def by blast
  moreover have "sort_comp None (luaV_lessthan id strcmp no_tm no_order) a b t = Inr (value_less a b, t)"
    if "a \<in> set ?xs" "b \<in> set ?xs" for a b t
    using lessthan_strings [of a b no_tm no_order t] s that by (auto simp: sort_comp_def)
  moreover have "Nil \<notin> set ?xs" "int (length ?xs + 0) \<le> MAXASIZE" by (simp_all add: MAXASIZE_def MAXBITS_def)
  ultimately show ?thesis
    using tsort_sorts [OF number2int_ok array_table_list [OF number2int_ok], of ?xs 0 value_less 4 None
        "luaV_lessthan id strcmp no_tm no_order"] by auto
qed

subsection \<open>Insertion and removal\<close>

text \<open>
  C31. Inserting a value into a list and removing it again are inverse: \<open>insert\<close> at a position puts the value
  there and moves the elements behind it up, unless the table cannot grow; \<open>remove\<close> at the same
  position then returns the value and leaves the list as it was.
\<close>

theorem insert_remove:
  assumes "cvt_ok N" "tab_ok N t" "list_val (tval N t) xs" "1 \<le> p" "p \<le> int (length xs) + 1" "v \<noteq> Nil"
    and "int (length xs) + 1 < 2 ^ 31 - 1"
    and "tinsert lua_rawgeti (lua_rawseti N) luaH_getn 3 (Some p) v t = Inr t1"
  shows "list_val (tval N t1) (take (nat (p - 1)) xs @ v # drop (nat (p - 1)) xs) \<and>
    (\<exists>t2. tremove lua_rawgeti (lua_rawseti N) luaH_getn (Some p) t1 = Inr (Some v, t2) \<and> tab_ok N t2 \<and>
       list_val (tval N t2) xs \<and> outside_same N t t2)"
proof -
  let ?ok = "int_part N (tget N t)" and ?ys = "take (nat (p - 1)) xs @ v # drop (nat (p - 1)) xs"
  have ok: "?ok t" using assms(1,2) by (rule int_part_self)
  from table_store.insert_ok [OF ok assms(3-7)] assms(8) have t1: "?ok t1" "list_val (tval N t1) ?ys" by auto
  have p: "p \<le> int (length ?ys)" using assms(5) by simp
  from table_store.remove_ok [OF t1 assms(4) p] obtain t2 where
    t2: "tremove lua_rawgeti (lua_rawseti N) luaH_getn (Some p) t1 = Inr (Some (?ys ! nat (p - 1)), t2)" "?ok t2"
    "list_val (tval N t2) (take (nat (p - 1)) ?ys @ drop (nat p) ?ys)" by blast
  have n: "nat (p - 1) \<le> length xs" "nat p = Suc (nat (p - 1))" using assms(4,5) by auto
  have "?ys ! nat (p - 1) = v" using nth_insert(2) [OF n(1)] .
  moreover have "take (nat (p - 1)) ?ys @ drop (nat p) ?ys = xs" using n by simp
  ultimately show ?thesis using t1(2) t2 by (auto simp: int_part_def outside_same_def)
qed

lemma array_insert: "\<exists>t1. tinsert lua_rawgeti (lua_rawseti number2int) luaH_getn 3 (Some 2) (Boolean True)
    (array_table [Boolean False, Str ''x''] 2) = Inr t1"
proof -
  have "(case tinsert lua_rawgeti (lua_rawseti number2int) luaH_getn 3 (Some 2) (Boolean True)
    (array_table [Boolean False, Str ''x''] 2) of Inr t1 \<Rightarrow> True | _ \<Rightarrow> False)" by code_simp
  then show ?thesis by (auto split: sum.splits)
qed

theorem insert_remove_witness:
  "\<exists>t1 t2. tinsert lua_rawgeti (lua_rawseti number2int) luaH_getn 3 (Some 2) (Boolean True)
       (array_table [Boolean False, Str ''x''] 2) = Inr t1 \<and>
     tremove lua_rawgeti (lua_rawseti number2int) luaH_getn (Some 2) t1 = Inr (Some (Boolean True), t2)"
proof -
  let ?xs = "[Boolean False, Str ''x'']"
  have "Nil \<notin> set ?xs" "int (length ?xs + 2) \<le> MAXASIZE" by (simp_all add: MAXASIZE_def MAXBITS_def)
  note l = array_table_list [OF number2int_ok this]
  obtain t1 where t1: "tinsert lua_rawgeti (lua_rawseti number2int) luaH_getn 3 (Some 2) (Boolean True)
    (array_table ?xs 2) = Inr t1" using array_insert by blast
  from insert_remove [OF number2int_ok l _ _ _ _ t1] t1 show ?thesis by auto
qed

end
