(* ===== verification/State.thy ===== *)
theory State
  imports TabLib Compare CodeCheck
begin

text \<open>
  The state of a thread (\<open>lua/lstate.h\<close>, \<open>lua/lobject.h\<close>), its stack and its call records, upvalues and
  closures (\<open>lua/lfunc.c\<close>), and the lookup of metamethods (\<open>lua/ltm.c\<close>).

  A pointer into the stack, a \<open>StkId\<close>, is an index, and so are a pointer into the array of call records
  and a \<open>savedpc\<close>, which points into the code of the function of its record. The stack is the vector of
  \<open>stacksize\<close> slots; a slot that was never written reads as nil. Upvalues, closures, tables and userdata
  are found by their addresses; an allocation takes the next unused address and succeeds. The collector
  is a parameter: its lists and colours, and with them the barriers, are not part of the state.
\<close>

subsection \<open>Objects\<close>

text \<open>An upvalue points to a slot of the stack or to the value that it holds.\<close>

datatype UpVal = Open int | Closed TValue

datatype Closure =
    LClosure (cl_env: nat) (cl_p: Proto) (cl_upvals: "nat option list")
  | CClosure (cl_env: nat) (cl_f: nat) (cl_upvalue: "TValue list")

text \<open>
  \<open>t_gen\<close> changes when an assignment of the interpreter allocates the vectors of the table anew: pointers
  into the old ones dangle. Only \<open>luaV_settable\<close> holds such pointers while it changes tables.
\<close>

record TableObj =
  t_tab :: LTable
  t_metatable :: "nat option"
  t_gen :: nat

record UdataObj =
  u_metatable :: "nat option"
  u_env :: nat
  u_len :: int

record CallInfo =
  ci_base :: int
  ci_func :: int
  ci_top :: int
  ci_savedpc :: int
  ci_nresults :: int
  ci_tailcalls :: int

record lua_State =
  l_status :: int
  l_top :: int
  l_base :: int
  l_ci :: int
  l_savedpc :: int
  l_stack_last :: int
  l_stack :: "TValue list"
  l_base_ci :: "CallInfo list"
  l_nCcalls :: int
  l_baseCcalls :: int
  l_hookmask :: byte
  l_allowhook :: bool
  l_basehookcount :: int
  l_hookcount :: int
  l_hook :: "nat option"
  l_gt :: TValue
  l_openupval :: "nat list"
  l_errfunc :: int
  g_upvals :: "nat \<Rightarrow> UpVal option"
  g_closures :: "nat \<Rightarrow> Closure option"
  g_tables :: "nat \<Rightarrow> TableObj option"
  g_udata :: "nat \<Rightarrow> UdataObj option"
  g_mt :: "nat option list"
  g_registry :: TValue
  g_alloc :: nat

text \<open>
  A step ends with a value, throws an error status in a state that has the message on top of its stack,
  does something undefined, or runs out of fuel.
\<close>

datatype vm_error = Throw lua_status lua_State | Undef string | Diverge

type_synonym 'a vres = "vm_error + 'a"
type_synonym caller = "int \<Rightarrow> int \<Rightarrow> lua_State \<Rightarrow> lua_State vres"

definition undef :: "string \<Rightarrow> 'a vres" where "undef w = Inl (Undef w)"

text \<open>Steps of the other components that never raise an error of Lua.\<close>

definition ub :: "'a res \<Rightarrow> 'a vres" where
  "ub r = (case r of Inr a \<Rightarrow> Inr a | Inl (UB w) \<Rightarrow> undef w | Inl (LuaError st m) \<Rightarrow> undef m)"

definition vassert :: "bool \<Rightarrow> unit vres" where
  "vassert b = (if b then Inr () else undef ''lua_assert'')"

lemma ub_simps [simp, res_simps]: "ub (Inr a) = Inr a" "ub (Inl (UB w)) = undef w"
  by (simp_all add: ub_def)

lemma ub_Inr [simp]: "ub r = Inr a \<longleftrightarrow> r = Inr a"
  by (auto simp: ub_def undef_def split: sum.splits lua_error.splits)

lemma undef_not_Inr [simp]: "undef w \<noteq> Inr a" "Inr a \<noteq> undef w"
  by (simp_all add: undef_def)

lemma vassert_simps [simp, res_simps]: "vassert True = Inr ()" "vassert b = Inr u \<longleftrightarrow> b"
  by (simp_all add: vassert_def)

lemma undef_rbind [simp, res_simps]: "rbind (undef w) f = undef w"
  by (simp add: undef_def)

text \<open>What the interpreter takes from outside.\<close>

record vm_env =
  v_strtod :: "string \<Rightarrow> lua_Number \<times> nat"
  v_num2str :: "lua_Number \<Rightarrow> string"
  v_ptr2str :: "nat \<Rightarrow> string"
  v_strcoll :: "string \<Rightarrow> string \<Rightarrow> int"
  v_pow :: "lua_Number \<Rightarrow> lua_Number \<Rightarrow> lua_Number"
  v_num2int :: "lua_Number \<Rightarrow> int"
  v_cfunction :: "caller \<Rightarrow> nat \<Rightarrow> lua_State \<Rightarrow> (int \<times> lua_State) vres"
  v_hook :: "caller \<Rightarrow> nat \<Rightarrow> int \<Rightarrow> int \<Rightarrow> int \<Rightarrow> lua_State \<Rightarrow> lua_State vres"
  v_checkGC :: "caller \<Rightarrow> lua_State \<Rightarrow> lua_State vres"

subsection \<open>The stack\<close>

definition LUA_MINSTACK :: int where "LUA_MINSTACK = 20"
definition BASIC_STACK_SIZE :: int where "BASIC_STACK_SIZE = 2 * LUA_MINSTACK"
definition BASIC_CI_SIZE :: int where "BASIC_CI_SIZE = 8"
definition LUAI_MAXCALLS :: int where "LUAI_MAXCALLS = 20000"
definition LUA_YIELD :: int where "LUA_YIELD = 1"

definition l_stacksize :: "lua_State \<Rightarrow> int" where "l_stacksize S = int (length (l_stack S))"
definition l_size_ci :: "lua_State \<Rightarrow> int" where "l_size_ci S = int (length (l_base_ci S))"

definition stk :: "lua_State \<Rightarrow> int \<Rightarrow> TValue vres" where
  "stk S i = ub (aget (l_stack S) i)"

definition set_stk :: "int \<Rightarrow> TValue \<Rightarrow> lua_State \<Rightarrow> lua_State vres" where
  "set_stk i v S = rmap (\<lambda>s. S\<lparr>l_stack := s\<rparr>) (ub (aput (l_stack S) i v))"

definition setobjs2s :: "int \<Rightarrow> int \<Rightarrow> lua_State \<Rightarrow> lua_State vres" where
  "setobjs2s dst src S = rbind (stk S src) (\<lambda>v. set_stk dst v S)"

definition get_ci :: "lua_State \<Rightarrow> int \<Rightarrow> CallInfo vres" where
  "get_ci S i = ub (aget (l_base_ci S) i)"

definition upd_ci :: "int \<Rightarrow> (CallInfo \<Rightarrow> CallInfo) \<Rightarrow> lua_State \<Rightarrow> lua_State vres" where
  "upd_ci i f S = rbind (get_ci S i) (\<lambda>c. rmap (\<lambda>cs. S\<lparr>l_base_ci := cs\<rparr>) (ub (aput (l_base_ci S) i (f c))))"

text \<open>The pointers into a vector that moved keep their indices, so that \<open>correctstack\<close> is the identity.\<close>

definition luaD_reallocstack :: "int \<Rightarrow> lua_State \<Rightarrow> lua_State vres" where
  "luaD_reallocstack newsize S =
     (let realsize = newsize + 1 + EXTRA_STACK in
      rbind (vassert (l_stack_last S = l_stacksize S - EXTRA_STACK - 1)) (\<lambda>_.
      Inr (S\<lparr>l_stack := take (nat realsize) (l_stack S) @ replicate (nat (realsize - l_stacksize S)) Nil,
             l_stack_last := newsize\<rparr>)))"

definition luaD_growstack :: "int \<Rightarrow> lua_State \<Rightarrow> lua_State vres" where
  "luaD_growstack n S =
     (if n \<le> l_stacksize S then luaD_reallocstack (2 * l_stacksize S) S
      else luaD_reallocstack (l_stacksize S + n) S)"

definition luaD_checkstack :: "int \<Rightarrow> lua_State \<Rightarrow> lua_State vres" where
  "luaD_checkstack n S = (if l_stack_last S - l_top S \<le> n then luaD_growstack n S else Inr S)"

definition incr_top :: "lua_State \<Rightarrow> lua_State vres" where
  "incr_top S = rmap (\<lambda>S. S\<lparr>l_top := l_top S + 1\<rparr>) (luaD_checkstack 1 S)"

definition push :: "TValue \<Rightarrow> lua_State \<Rightarrow> lua_State vres" where
  "push v S = rbind (set_stk (l_top S) v S) incr_top"

definition no_ci :: CallInfo where
  "no_ci = \<lparr>ci_base = 0, ci_func = 0, ci_top = 0, ci_savedpc = 0, ci_nresults = 0, ci_tailcalls = 0\<rparr>"

definition luaD_reallocCI :: "int \<Rightarrow> lua_State \<Rightarrow> lua_State" where
  "luaD_reallocCI newsize S =
     S\<lparr>l_base_ci := take (nat newsize) (l_base_ci S) @ replicate (nat (newsize - l_size_ci S)) no_ci\<rparr>"

text \<open>\<open>stack_init\<close> of \<open>lua/lstate.c\<close>.\<close>

definition stack_init :: "lua_State \<Rightarrow> lua_State" where
  "stack_init S = S\<lparr>l_base_ci := (replicate (nat BASIC_CI_SIZE) no_ci)
       [0 := \<lparr>ci_base = 1, ci_func = 0, ci_top = 1 + LUA_MINSTACK, ci_savedpc = 0, ci_nresults = 0, ci_tailcalls = 0\<rparr>],
     l_ci := 0, l_stack := replicate (nat (BASIC_STACK_SIZE + EXTRA_STACK)) Nil,
     l_stack_last := BASIC_STACK_SIZE - 1, l_top := 1, l_base := 1\<rparr>"

text \<open>\<open>preinit_state\<close>: the fields of the thread; the objects are those of the global state.\<close>

definition preinit_state :: "lua_State \<Rightarrow> lua_State" where
  "preinit_state S = S\<lparr>l_stack := [], l_hook := None, l_hookmask := 0, l_basehookcount := 0, l_allowhook := True,
     l_hookcount := 0, l_openupval := [], l_base_ci := [], l_nCcalls := 0, l_baseCcalls := 0, l_status := 0,
     l_savedpc := 0, l_errfunc := 0, l_gt := Nil\<rparr>"

definition NUM_TAGS :: nat where "NUM_TAGS = 9"

definition no_state :: lua_State where
  "no_state = \<lparr>l_status = 0, l_top = 0, l_base = 0, l_ci = 0, l_savedpc = 0, l_stack_last = 0, l_stack = [], l_base_ci = [],
     l_nCcalls = 0, l_baseCcalls = 0, l_hookmask = 0, l_allowhook = False, l_basehookcount = 0, l_hookcount = 0,
     l_hook = None, l_gt = Nil, l_openupval = [], l_errfunc = 0, g_upvals = Map.empty, g_closures = Map.empty,
     g_tables = Map.empty, g_udata = Map.empty, g_mt = replicate NUM_TAGS None, g_registry = Nil, g_alloc = 1\<rparr>"

subsection \<open>Upvalues and closures\<close>

definition uv_get :: "lua_State \<Rightarrow> nat \<Rightarrow> TValue vres" where
  "uv_get S u = (case g_upvals S u of
     Some (Open i) \<Rightarrow> stk S i | Some (Closed v) \<Rightarrow> Inr v | None \<Rightarrow> undef ''upvalue'')"

definition uv_set :: "nat \<Rightarrow> TValue \<Rightarrow> lua_State \<Rightarrow> lua_State vres" where
  "uv_set u v S = (case g_upvals S u of
     Some (Open i) \<Rightarrow> set_stk i v S
   | Some (Closed _) \<Rightarrow> Inr (S\<lparr>g_upvals := (g_upvals S)(u \<mapsto> Closed v)\<rparr>)
   | None \<Rightarrow> undef ''upvalue'')"

text \<open>The prototype of a new closure is the one that every caller stores next.\<close>

definition luaF_newLclosure :: "Proto \<Rightarrow> nat \<Rightarrow> nat \<Rightarrow> lua_State \<Rightarrow> nat \<times> lua_State" where
  "luaF_newLclosure p nelems e S =
     (g_alloc S, S\<lparr>g_closures := (g_closures S)(g_alloc S \<mapsto> LClosure e p (replicate nelems None)),
                   g_alloc := g_alloc S + 1\<rparr>)"

definition luaF_newCclosure :: "nat \<Rightarrow> nat \<Rightarrow> nat \<Rightarrow> lua_State \<Rightarrow> nat \<times> lua_State" where
  "luaF_newCclosure f nelems e S =
     (g_alloc S, S\<lparr>g_closures := (g_closures S)(g_alloc S \<mapsto> CClosure e f (replicate nelems Nil)),
                   g_alloc := g_alloc S + 1\<rparr>)"

definition luaF_newupval :: "lua_State \<Rightarrow> nat \<times> lua_State" where
  "luaF_newupval S =
     (g_alloc S, S\<lparr>g_upvals := (g_upvals S)(g_alloc S \<mapsto> Closed Nil), g_alloc := g_alloc S + 1\<rparr>)"

text \<open>
  The list of open upvalues is sorted by decreasing level. The walk of \<open>luaF_findupval\<close> gives the
  upvalue of \<open>level\<close> and the list, with the upvalue \<open>new\<close> in it when there was none.
\<close>

fun find_open :: "(nat \<Rightarrow> UpVal option) \<Rightarrow> int \<Rightarrow> nat \<Rightarrow> nat list \<Rightarrow> (nat \<times> nat list) vres" where
  "find_open us level new [] = Inr (new, [new])"
| "find_open us level new (p # ps) = (case us p of
     Some (Open v) \<Rightarrow>
       if v \<ge> level then
         if v = level then Inr (p, p # ps)
         else rmap (\<lambda>(u, l). (u, p # l)) (find_open us level new ps)
       else Inr (new, new # p # ps)
   | _ \<Rightarrow> undef ''lua_assert'')"

definition luaF_findupval :: "int \<Rightarrow> lua_State \<Rightarrow> (nat \<times> lua_State) vres" where
  "luaF_findupval level S =
     rbind (find_open (g_upvals S) level (g_alloc S) (l_openupval S)) (\<lambda>(u, l).
     Inr (u, if u = g_alloc S then
               S\<lparr>g_upvals := (g_upvals S)(u \<mapsto> Open level), l_openupval := l, g_alloc := g_alloc S + 1\<rparr>
             else S))"

fun close_loop :: "int \<Rightarrow> nat list \<Rightarrow> lua_State \<Rightarrow> lua_State vres" where
  "close_loop level [] S = Inr (S\<lparr>l_openupval := []\<rparr>)"
| "close_loop level (u # us) S = (case g_upvals S u of
     Some (Open v) \<Rightarrow>
       if v \<ge> level then
         rbind (stk S v) (\<lambda>x. close_loop level us (S\<lparr>g_upvals := (g_upvals S)(u \<mapsto> Closed x)\<rparr>))
       else Inr (S\<lparr>l_openupval := u # us\<rparr>)
   | _ \<Rightarrow> undef ''lua_assert'')"

definition luaF_close :: "int \<Rightarrow> lua_State \<Rightarrow> lua_State vres" where
  "luaF_close level S = close_loop level (l_openupval S) S"

text \<open>\<open>luaF_getlocalname\<close>: a name without a string is a null pointer.\<close>

fun getlocalname_loop :: "LocVar list \<Rightarrow> int \<Rightarrow> int \<Rightarrow> string option vres" where
  "getlocalname_loop [] n pc = Inr None"
| "getlocalname_loop (v # vs) n pc =
     (if startpc v \<le> pc then
        if pc < endpc v then
          if n - 1 = 0 then (case varname v of Some s \<Rightarrow> Inr (Some s) | None \<Rightarrow> undef ''null string'')
          else getlocalname_loop vs (n - 1) pc
        else getlocalname_loop vs n pc
      else Inr None)"

definition luaF_getlocalname :: "Proto \<Rightarrow> int \<Rightarrow> int \<Rightarrow> string option vres" where
  "luaF_getlocalname f n pc = getlocalname_loop (f_locvars f) n pc"

definition get_closure :: "lua_State \<Rightarrow> nat \<Rightarrow> Closure vres" where
  "get_closure S a = (case g_closures S a of Some c \<Rightarrow> Inr c | None \<Rightarrow> undef ''closure'')"

definition clvalue :: "lua_State \<Rightarrow> TValue \<Rightarrow> Closure vres" where
  "clvalue S v = (case v of Function a \<Rightarrow> get_closure S a | _ \<Rightarrow> undef ''clvalue'')"

primrec isC :: "Closure \<Rightarrow> bool" where
  "isC (LClosure e p us) = False" | "isC (CClosure e f us) = True"

definition ttisfunction :: "TValue \<Rightarrow> bool" where
  "ttisfunction v = (case v of Function _ \<Rightarrow> True | _ \<Rightarrow> False)"

definition ci_closure :: "lua_State \<Rightarrow> CallInfo \<Rightarrow> Closure vres" where
  "ci_closure S c = rbind (stk S (ci_func c)) (clvalue S)"

definition isLua :: "lua_State \<Rightarrow> CallInfo \<Rightarrow> bool vres" where
  "isLua S c = rbind (stk S (ci_func c)) (\<lambda>v.
     if ttisfunction v then rmap (\<lambda>f. \<not> isC f) (clvalue S v) else Inr False)"

definition getluaproto :: "lua_State \<Rightarrow> CallInfo \<Rightarrow> Proto option vres" where
  "getluaproto S c = rbind (isLua S c) (\<lambda>b. if b then rmap (\<lambda>f. Some (cl_p f)) (ci_closure S c) else Inr None)"

subsection \<open>Metamethods\<close>

primrec tms_num :: "TMS \<Rightarrow> nat" where
  "tms_num TM_INDEX = 0" | "tms_num TM_NEWINDEX = 1" | "tms_num TM_GC = 2" | "tms_num TM_MODE = 3" | "tms_num TM_EQ = 4"
| "tms_num TM_ADD = 5" | "tms_num TM_SUB = 6" | "tms_num TM_MUL = 7" | "tms_num TM_DIV = 8" | "tms_num TM_MOD = 9"
| "tms_num TM_POW = 10" | "tms_num TM_UNM = 11" | "tms_num TM_LEN = 12" | "tms_num TM_LT = 13" | "tms_num TM_LE = 14"
| "tms_num TM_CONCAT = 15" | "tms_num TM_CALL = 16"

definition luaT_eventname :: "string list" where
  "luaT_eventname = [''__index'', ''__newindex'', ''__gc'', ''__mode'', ''__eq'', ''__add'', ''__sub'', ''__mul'', ''__div'',
     ''__mod'', ''__pow'', ''__unm'', ''__len'', ''__lt'', ''__le'', ''__concat'', ''__call'']"

definition tmname :: "TMS \<Rightarrow> string" where "tmname e = luaT_eventname ! tms_num e"

definition get_table :: "lua_State \<Rightarrow> nat \<Rightarrow> TableObj vres" where
  "get_table S h = (case g_tables S h of Some t \<Rightarrow> Inr t | None \<Rightarrow> undef ''table'')"

definition put_table :: "nat \<Rightarrow> TableObj \<Rightarrow> lua_State \<Rightarrow> lua_State" where
  "put_table h t S = S\<lparr>g_tables := (g_tables S)(h \<mapsto> t)\<rparr>"

definition new_table :: "int \<Rightarrow> int \<Rightarrow> lua_State \<Rightarrow> (nat \<times> lua_State) vres" where
  "new_table narray nhash S = rmap (\<lambda>t.
     (g_alloc S, S\<lparr>g_tables := (g_tables S)(g_alloc S \<mapsto> \<lparr>t_tab = t, t_metatable = None, t_gen = 0\<rparr>),
                   g_alloc := g_alloc S + 1\<rparr>)) (ub (luaH_new narray nhash))"

text \<open>
  A pointer to a value, \<open>const TValue *\<close>: into the stack, to a value that nothing moves (a constant, a
  local of the C code, \<open>luaO_nilobject\<close>), or into a table, with the generation of its vectors. Reading
  through a pointer into vectors that were freed is undefined.
\<close>

datatype ptr = PStk int | PVal TValue | PSlot nat slot nat

definition deref :: "lua_State \<Rightarrow> ptr \<Rightarrow> TValue vres" where
  "deref S p = (case p of
     PStk i \<Rightarrow> stk S i
   | PVal v \<Rightarrow> Inr v
   | PSlot h s g \<Rightarrow> rbind (get_table S h) (\<lambda>t.
       if t_gen t = g then ub (read_slot (t_tab t) s) else undef ''dangling pointer''))"

definition getstr_ptr :: "lua_State \<Rightarrow> nat \<Rightarrow> string \<Rightarrow> ptr vres" where
  "getstr_ptr S h name = rbind (get_table S h) (\<lambda>t.
     rmap (\<lambda>s. if s = SNil then PVal Nil else PSlot h s (t_gen t)) (ub (luaH_getstr (t_tab t) name)))"

text \<open>The flags of a table remember which of the first five events its fields do not define.\<close>

definition luaT_gettm :: "nat \<Rightarrow> TMS \<Rightarrow> lua_State \<Rightarrow> (ptr option \<times> lua_State) vres" where
  "luaT_gettm events event S =
     rbind (getstr_ptr S events (tmname event)) (\<lambda>tm.
     rbind (deref S tm) (\<lambda>v.
     rbind (vassert (tms_num event \<le> tms_num TM_EQ)) (\<lambda>_.
     if v = Nil then
       rmap (\<lambda>t. (None, put_table events (t\<lparr>t_tab := (t_tab t)\<lparr>tflags := tflags (t_tab t) OR 2 ^ tms_num event\<rparr>\<rparr>) S))
         (get_table S events)
     else Inr (Some tm, S))))"

definition fasttm :: "nat option \<Rightarrow> TMS \<Rightarrow> lua_State \<Rightarrow> (ptr option \<times> lua_State) vres" where
  "fasttm et e S = (case et of
     None \<Rightarrow> Inr (None, S)
   | Some h \<Rightarrow> rbind (get_table S h) (\<lambda>t.
       if tflags (t_tab t) AND 2 ^ tms_num e \<noteq> 0 then Inr (None, S) else luaT_gettm h e S))"

definition luaT_gettmbyobj :: "lua_State \<Rightarrow> TValue \<Rightarrow> TMS \<Rightarrow> ptr vres" where
  "luaT_gettmbyobj S v event =
     rbind (case v of
         Table h \<Rightarrow> rmap t_metatable (get_table S h)
       | Userdata a \<Rightarrow> (case g_udata S a of Some u \<Rightarrow> Inr (u_metatable u) | None \<Rightarrow> undef ''userdata'')
       | _ \<Rightarrow> ub (aget (g_mt S) (ttype v))) (\<lambda>mt.
     case mt of Some h \<Rightarrow> getstr_ptr S h (tmname event) | None \<Rightarrow> Inr (PVal Nil))"

end
