(* ===== verification/Debug.thy ===== *)
theory Debug
  imports State
begin

text \<open>
  The debug interface and the error messages of \<open>lua/ldebug.c\<close>; \<open>symbexec\<close> is in \<open>CodeCheck\<close>. An error
  handler is called through \<open>call\<close>, which is \<open>luaD_call\<close>. The messages that \<open>luaO_pushvfstring\<close> puts
  together from pieces on the stack are pushed as one string.
\<close>

record lua_Debug =
  d_event :: int
  d_name :: "string option"
  d_namewhat :: string
  d_what :: string
  d_source :: string
  d_currentline :: int
  d_nups :: int
  d_linedefined :: int
  d_lastlinedefined :: int
  d_short_src :: string
  d_i_ci :: int

subsection \<open>Positions\<close>

definition currentpc :: "int \<Rightarrow> lua_State \<Rightarrow> (int \<times> lua_State) vres" where
  "currentpc ci S =
     rbind (get_ci S ci) (\<lambda>c.
     rbind (isLua S c) (\<lambda>b.
     if \<not> b then Inr (- 1, S)
     else
       rbind (if ci = l_ci S then upd_ci ci (\<lambda>c. c\<lparr>ci_savedpc := l_savedpc S\<rparr>) S else Inr S) (\<lambda>S.
       rmap (\<lambda>c. (ci_savedpc c - 1, S)) (get_ci S ci))))"

definition getline :: "Proto \<Rightarrow> int \<Rightarrow> int vres" where
  "getline p pc = (if f_lineinfo p = [] then Inr 0 else ub (aget (f_lineinfo p) pc))"

definition ci_proto :: "lua_State \<Rightarrow> int \<Rightarrow> Proto vres" where
  "ci_proto S ci = rbind (get_ci S ci) (\<lambda>c. rbind (ci_closure S c) (\<lambda>f.
     case f of LClosure e p us \<Rightarrow> Inr p | CClosure e f us \<Rightarrow> undef ''prototype of a C function''))"

definition currentline :: "int \<Rightarrow> lua_State \<Rightarrow> (int \<times> lua_State) vres" where
  "currentline ci S =
     rbind (currentpc ci S) (\<lambda>(pc, S).
     if pc < 0 then Inr (- 1, S)
     else rbind (ci_proto S ci) (\<lambda>p. rmap (\<lambda>l. (l, S)) (getline p pc)))"

definition lua_sethook :: "nat option \<Rightarrow> byte \<Rightarrow> int \<Rightarrow> lua_State \<Rightarrow> lua_State" where
  "lua_sethook func msk count S =
     (let (msk, func) = (if func = None \<or> msk = 0 then (0, None) else (msk, func)) in
      S\<lparr>l_hook := func, l_basehookcount := count, l_hookcount := count, l_hookmask := msk\<rparr>)"

definition ci_isLua :: "lua_State \<Rightarrow> int \<Rightarrow> bool vres" where
  "ci_isLua S ci = rbind (get_ci S ci) (\<lambda>c. rmap (\<lambda>f. \<not> isC f) (ci_closure S c))"

text \<open>The walk down the call records, at most to the base record.\<close>

function getstack_loop :: "lua_State \<Rightarrow> int \<Rightarrow> int \<Rightarrow> (int \<times> int) vres" where
  "getstack_loop S level ci =
     (if level > 0 \<and> ci > 0 then
        rbind (get_ci S ci) (\<lambda>c.
        rbind (ci_isLua S ci) (\<lambda>b.
        getstack_loop S (if b then level - 1 - ci_tailcalls c else level - 1) (ci - 1)))
      else Inr (level, ci))"
  by pat_completeness auto
termination by (relation "measure (\<lambda>(S, level, ci). nat ci)") auto

declare getstack_loop.simps [simp del]

definition lua_getstack :: "lua_State \<Rightarrow> int \<Rightarrow> int option vres" where
  "lua_getstack S level = rmap (\<lambda>(level, ci).
     if level = 0 \<and> ci > 0 then Some ci else if level < 0 then Some 0 else None) (getstack_loop S level (l_ci S))"

subsection \<open>Local variables\<close>

definition findlocal :: "int \<Rightarrow> int \<Rightarrow> lua_State \<Rightarrow> (string option \<times> lua_State) vres" where
  "findlocal ci n S =
     rbind (get_ci S ci) (\<lambda>c.
     rbind (getluaproto S c) (\<lambda>fp.
     rbind (case fp of
         Some p \<Rightarrow> rbind (currentpc ci S) (\<lambda>(pc, S). rmap (\<lambda>r. (r, S)) (luaF_getlocalname p n pc))
       | None \<Rightarrow> Inr (None, S)) (\<lambda>(name, S).
     if name \<noteq> None then Inr (name, S)
     else
       rbind (if ci = l_ci S then Inr (l_top S) else rmap ci_func (get_ci S (ci + 1))) (\<lambda>limit.
       Inr (if limit - ci_base c \<ge> n \<and> n > 0 then Some ''(*temporary)'' else None, S)))))"

definition lua_getlocal :: "int \<Rightarrow> int \<Rightarrow> lua_State \<Rightarrow> (string option \<times> lua_State) vres" where
  "lua_getlocal ci n S =
     rbind (findlocal ci n S) (\<lambda>(name, S).
     if name = None then Inr (None, S)
     else rbind (get_ci S ci) (\<lambda>c. rbind (setobjs2s (l_top S) (ci_base c + (n - 1)) S) (\<lambda>S.
       Inr (name, S\<lparr>l_top := l_top S + 1\<rparr>))))"

definition lua_setlocal :: "int \<Rightarrow> int \<Rightarrow> lua_State \<Rightarrow> (string option \<times> lua_State) vres" where
  "lua_setlocal ci n S =
     rbind (findlocal ci n S) (\<lambda>(name, S).
     rbind (get_ci S ci) (\<lambda>c.
     rbind (if name \<noteq> None then setobjs2s (ci_base c + (n - 1)) (l_top S - 1) S else Inr S) (\<lambda>S.
     Inr (name, S\<lparr>l_top := l_top S - 1\<rparr>))))"

subsection \<open>The names of values\<close>

definition konst_value :: "Konst \<Rightarrow> TValue vres" where
  "konst_value k = (case k of
     KNil \<Rightarrow> Inr Nil | KBool b \<Rightarrow> Inr (Boolean b) | KNumber d \<Rightarrow> Inr (Number d)
   | KString (Some s) \<Rightarrow> Inr (Str s) | KString None \<Rightarrow> undef ''null string'')"

definition konst_at :: "Proto \<Rightarrow> int \<Rightarrow> TValue vres" where
  "konst_at p i = rbind (ub (aget (f_k p) i)) konst_value"

definition kname :: "Proto \<Rightarrow> int \<Rightarrow> string vres" where
  "kname p c =
     (if ISK c then rmap (\<lambda>v. case v of Str s \<Rightarrow> cstr s | _ \<Rightarrow> ''?'') (konst_at p (INDEXK c)) else Inr ''?'')"

definition upvalname :: "Proto \<Rightarrow> int \<Rightarrow> string vres" where
  "upvalname p u =
     (if f_upvalues p = [] then Inr ''?''
      else rbind (ub (aget (f_upvalues p) u)) (\<lambda>n. case n of Some s \<Rightarrow> Inr (cstr s) | None \<Rightarrow> undef ''null string''))"

text \<open>
  The kind and the name of the value in a register. An instruction that moved it from a lower register
  sends the search there; \<open>fuel\<close> bounds these moves, which are at most the registers below.
\<close>

fun objname_loop :: "nat \<Rightarrow> Proto \<Rightarrow> int \<Rightarrow> int \<Rightarrow> (string \<times> string) option vres" where
  "objname_loop 0 p pc stackpos = Inl Diverge"
| "objname_loop (Suc fuel) p pc stackpos =
     rbind (luaF_getlocalname p (stackpos + 1) pc) (\<lambda>name.
     case name of Some s \<Rightarrow> Inr (Some (''local'', cstr s)) | None \<Rightarrow>
       rbind (ub (symbexec p pc stackpos)) (\<lambda>i.
       rbind (vassert (pc \<noteq> - 1)) (\<lambda>_.
       case opcode_of (GET_OPCODE i) of
         Some OP_GETGLOBAL \<Rightarrow>
           rbind (konst_at p (GETARG_Bx i)) (\<lambda>v.
           case v of Str s \<Rightarrow> Inr (Some (''global'', cstr s)) | _ \<Rightarrow> undef ''lua_assert'')
       | Some OP_MOVE \<Rightarrow> if GETARG_B i < GETARG_A i then objname_loop fuel p pc (GETARG_B i) else Inr None
       | Some OP_GETTABLE \<Rightarrow> rmap (\<lambda>s. Some (''field'', s)) (kname p (GETARG_C i))
       | Some OP_GETUPVAL \<Rightarrow> rmap (\<lambda>s. Some (''upvalue'', s)) (upvalname p (GETARG_B i))
       | Some OP_SELF \<Rightarrow> rmap (\<lambda>s. Some (''method'', s)) (kname p (GETARG_C i))
       | _ \<Rightarrow> Inr None)))"

definition getobjname :: "int \<Rightarrow> int \<Rightarrow> lua_State \<Rightarrow> ((string \<times> string) option \<times> lua_State) vres" where
  "getobjname ci stackpos S =
     rbind (get_ci S ci) (\<lambda>c.
     rbind (isLua S c) (\<lambda>b.
     if \<not> b then Inr (None, S)
     else
       rbind (ci_proto S ci) (\<lambda>p.
       rbind (currentpc ci S) (\<lambda>(pc, S).
       rmap (\<lambda>r. (r, S)) (objname_loop (nat (max MAXSTACK stackpos) + 1) p pc stackpos)))))"

definition getfuncname :: "int \<Rightarrow> lua_State \<Rightarrow> ((string \<times> string) option \<times> lua_State) vres" where
  "getfuncname ci S =
     rbind (get_ci S ci) (\<lambda>c.
     rbind (isLua S c) (\<lambda>b.
     if b \<and> ci_tailcalls c > 0 then Inr (None, S)
     else
       rbind (get_ci S (ci - 1)) (\<lambda>c1.
       rbind (isLua S c1) (\<lambda>b1.
       if \<not> b1 then Inr (None, S)
       else
         rbind (ci_proto S (ci - 1)) (\<lambda>p.
         rbind (currentpc (ci - 1) S) (\<lambda>(pc, S).
         rbind (ub (code_at p pc)) (\<lambda>i.
         if has_op i OP_CALL \<or> has_op i OP_TAILCALL \<or> has_op i OP_TFORLOOP
         then getobjname (ci - 1) (GETARG_A i) S else Inr (None, S))))))))"

subsection \<open>Information on a function\<close>

definition short_src :: "string \<Rightarrow> string vres" where
  "short_src source = ub (luaO_chunkid source LUA_IDSIZE)"

definition funcinfo :: "lua_Debug \<Rightarrow> Closure \<Rightarrow> lua_Debug vres" where
  "funcinfo ar cl =
     rbind (case cl of
       CClosure e f us \<Rightarrow>
         Inr (ar\<lparr>d_source := ''=[C]'', d_linedefined := - 1, d_lastlinedefined := - 1, d_what := ''C''\<rparr>)
     | LClosure e p us \<Rightarrow> (case f_source p of
         None \<Rightarrow> undef ''null string''
       | Some s \<Rightarrow> Inr (ar\<lparr>d_source := cstr s, d_linedefined := f_linedefined p, d_lastlinedefined := f_lastlinedefined p,
                         d_what := if f_linedefined p = 0 then ''main'' else ''Lua''\<rparr>))) (\<lambda>ar.
     rmap (\<lambda>s. ar\<lparr>d_short_src := s\<rparr>) (short_src (d_source ar)))"

definition info_tailcall :: "lua_Debug \<Rightarrow> lua_Debug vres" where
  "info_tailcall ar = rmap (\<lambda>s. ar\<lparr>d_name := Some [], d_namewhat := [], d_what := ''tail'', d_lastlinedefined := - 1,
     d_linedefined := - 1, d_currentline := - 1, d_source := ''=(tail call)'', d_short_src := s, d_nups := 0\<rparr>)
     (short_src ''=(tail call)'')"

primrec validlines :: "(lua_Number \<Rightarrow> int) \<Rightarrow> int list \<Rightarrow> LTable \<Rightarrow> LTable res" where
  "validlines N [] t = Inr t"
| "validlines N (l # ls) t = rbind (store_at (Boolean True) (luaH_setnum N t l)) (validlines N ls)"

definition collectvalidlines :: "vm_env \<Rightarrow> Closure option \<Rightarrow> lua_State \<Rightarrow> lua_State vres" where
  "collectvalidlines E f S = (case f of
     Some (LClosure e p us) \<Rightarrow>
       rbind (new_table 0 0 S) (\<lambda>(h, S).
       rbind (get_table S h) (\<lambda>t.
       rbind (ub (validlines (v_num2int E) (f_lineinfo p) (t_tab t))) (\<lambda>t'.
       push (Table h) (put_table h (t\<lparr>t_tab := t'\<rparr>) S))))
   | _ \<Rightarrow> push Nil S)"

definition getinfo_n :: "lua_Debug \<Rightarrow> int option \<Rightarrow> lua_State \<Rightarrow> (lua_Debug \<times> lua_State) vres" where
  "getinfo_n ar ci S =
     rmap (\<lambda>(r, S). (case r of
         None \<Rightarrow> ar\<lparr>d_namewhat := [], d_name := None\<rparr>
       | Some (kind, name) \<Rightarrow> ar\<lparr>d_namewhat := kind, d_name := Some name\<rparr>, S))
       (case ci of Some ci \<Rightarrow> getfuncname ci S | None \<Rightarrow> Inr (None, S))"

definition nupvalues :: "Closure \<Rightarrow> int" where
  "nupvalues f = int (case f of LClosure e p us \<Rightarrow> length us | CClosure e f us \<Rightarrow> length us)"

definition getinfo_char :: "char \<Rightarrow> Closure \<Rightarrow> int option \<Rightarrow> lua_Debug \<Rightarrow> lua_State \<Rightarrow> (int option \<times> lua_Debug \<times> lua_State) vres" where
  "getinfo_char c f ci ar S =
     (if c = CHR ''S'' then rmap (\<lambda>ar. (None, ar, S)) (funcinfo ar f)
      else if c = CHR ''l'' then
        rmap (\<lambda>(l, S). (None, ar\<lparr>d_currentline := l\<rparr>, S)) (case ci of Some ci \<Rightarrow> currentline ci S | None \<Rightarrow> Inr (- 1, S))
      else if c = CHR ''u'' then Inr (None, ar\<lparr>d_nups := nupvalues f\<rparr>, S)
      else if c = CHR ''n'' then rmap (\<lambda>(ar, S). (None, ar, S)) (getinfo_n ar ci S)
      else if c = CHR ''L'' \<or> c = CHR ''f'' then Inr (None, ar, S)
      else Inr (Some 0, ar, S))"

primrec getinfo_loop :: "string \<Rightarrow> Closure \<Rightarrow> int option \<Rightarrow> int \<Rightarrow> lua_Debug \<Rightarrow> lua_State \<Rightarrow> (int \<times> lua_Debug \<times> lua_State) vres" where
  "getinfo_loop [] f ci ok ar S = Inr (ok, ar, S)"
| "getinfo_loop (c # what) f ci ok ar S =
     rbind (getinfo_char c f ci ar S) (\<lambda>(st, ar, S).
     getinfo_loop what f ci (case st of Some s \<Rightarrow> s | None \<Rightarrow> ok) ar S)"

definition auxgetinfo :: "string \<Rightarrow> lua_Debug \<Rightarrow> Closure option \<Rightarrow> int option \<Rightarrow> lua_State \<Rightarrow> (int \<times> lua_Debug \<times> lua_State) vres" where
  "auxgetinfo what ar f ci S = (case f of
     None \<Rightarrow> rmap (\<lambda>ar. (1, ar, S)) (info_tailcall ar)
   | Some f \<Rightarrow> getinfo_loop what f ci 1 ar S)"

definition getinfo_func :: "string \<Rightarrow> lua_Debug \<Rightarrow> lua_State \<Rightarrow>
    (string \<times> TValue option \<times> int option \<times> lua_State) vres" where
  "getinfo_func what ar S =
     (if what \<noteq> [] \<and> hd what = CHR ''>'' then
        rbind (stk S (l_top S - 1)) (\<lambda>v. Inr (tl what, Some v, None, S\<lparr>l_top := l_top S - 1\<rparr>))
      else if d_i_ci ar \<noteq> 0 then
        rbind (get_ci S (d_i_ci ar)) (\<lambda>c.
        rbind (stk S (ci_func c)) (\<lambda>v. Inr (what, Some v, Some (d_i_ci ar), S)))
      else Inr (what, None, None, S))"

definition lua_getinfo :: "vm_env \<Rightarrow> string \<Rightarrow> lua_Debug \<Rightarrow> lua_State \<Rightarrow> (int \<times> lua_Debug \<times> lua_State) vres" where
  "lua_getinfo E what ar S =
     rbind (getinfo_func (cstr what) ar S) (\<lambda>(what, v, ci, S).
     rbind (case v of None \<Rightarrow> Inr None | Some v \<Rightarrow> rmap Some (clvalue S v)) (\<lambda>f.
     rbind (auxgetinfo what ar f ci S) (\<lambda>(ok, ar, S).
     rbind (if CHR ''f'' \<in> set what then push (case v of None \<Rightarrow> Nil | Some v \<Rightarrow> v) S else Inr S) (\<lambda>S.
     rmap (\<lambda>S. (ok, ar, S)) (if CHR ''L'' \<in> set what then collectvalidlines E f S else Inr S)))))"

subsection \<open>Errors\<close>

text \<open>\<open>luaG_errormsg\<close> and what ends with it never return: they are of every type.\<close>

definition luaD_throw :: "lua_status \<Rightarrow> lua_State \<Rightarrow> 'a vres" where
  "luaD_throw st S = Inl (Throw st S)"

definition luaG_errormsg :: "caller \<Rightarrow> lua_State \<Rightarrow> 'a vres" where
  "luaG_errormsg call S =
     (if l_errfunc S \<noteq> 0 then
        rbind (stk S (l_errfunc S)) (\<lambda>f.
        if \<not> ttisfunction f then luaD_throw LUA_ERRERR S
        else
          rbind (setobjs2s (l_top S) (l_top S - 1) S) (\<lambda>S.
          rbind (set_stk (l_top S - 1) f S) (\<lambda>S.
          rbind (incr_top S) (\<lambda>S.
          rbind (call (l_top S - 2) 1 S) (luaD_throw LUA_ERRRUN)))))
      else luaD_throw LUA_ERRRUN S)"

definition luaO_pushfstring :: "vm_env \<Rightarrow> string \<Rightarrow> va_arg list \<Rightarrow> lua_State \<Rightarrow> (string \<times> lua_State) vres" where
  "luaO_pushfstring E fmt args S =
     rbind (ub (luaO_pushvfstring (v_num2str E) (v_ptr2str E) fmt args)) (\<lambda>s. rmap (\<lambda>S. (s, S)) (push (Str s) S))"

definition addinfo :: "vm_env \<Rightarrow> string \<Rightarrow> lua_State \<Rightarrow> lua_State vres" where
  "addinfo E msg S =
     rbind (get_ci S (l_ci S)) (\<lambda>c.
     rbind (isLua S c) (\<lambda>b.
     if \<not> b then Inr S
     else
       rbind (currentline (l_ci S) S) (\<lambda>(line, S).
       rbind (ci_proto S (l_ci S)) (\<lambda>p.
       rbind (case f_source p of None \<Rightarrow> undef ''null string'' | Some s \<Rightarrow> short_src s) (\<lambda>buff.
       rmap snd (luaO_pushfstring E ''%s:%d: %s'' [VString (Some buff), VInt line, VString (Some msg)] S))))))"

definition luaG_runerror :: "vm_env \<Rightarrow> caller \<Rightarrow> string \<Rightarrow> va_arg list \<Rightarrow> lua_State \<Rightarrow> 'a vres" where
  "luaG_runerror E call fmt args S =
     rbind (luaO_pushfstring E fmt args S) (\<lambda>(msg, S).
     rbind (addinfo E (cstr msg) S) (luaG_errormsg call))"

definition typename :: "TValue \<Rightarrow> string" where "typename v = luaT_typenames ! nat (ttype v)"

text \<open>\<open>isinstack\<close>: whether a pointer is to a slot of the frame.\<close>

definition isinstack :: "CallInfo \<Rightarrow> ptr \<Rightarrow> int option" where
  "isinstack c p = (case p of PStk i \<Rightarrow> if ci_base c \<le> i \<and> i < ci_top c then Some i else None | _ \<Rightarrow> None)"

definition luaG_typeerror :: "vm_env \<Rightarrow> caller \<Rightarrow> ptr \<Rightarrow> string \<Rightarrow> lua_State \<Rightarrow> 'a vres" where
  "luaG_typeerror E call p opn S =
     rbind (deref S p) (\<lambda>v.
     rbind (get_ci S (l_ci S)) (\<lambda>c.
     rbind (case isinstack c p of Some i \<Rightarrow> getobjname (l_ci S) (i - l_base S) S | None \<Rightarrow> Inr (None, S)) (\<lambda>(kind, S).
     case kind of
       Some (k, name) \<Rightarrow> luaG_runerror E call (''attempt to %s %s '' @ LUA_QL ''%s'' @ '' (a %s value)'')
         [VString (Some opn), VString (Some k), VString (Some name), VString (Some (typename v))] S
     | None \<Rightarrow> luaG_runerror E call ''attempt to %s a %s value'' [VString (Some opn), VString (Some (typename v))] S)))"

definition ttisstring :: "TValue \<Rightarrow> bool" where "ttisstring v = (case v of Str _ \<Rightarrow> True | _ \<Rightarrow> False)"
definition ttisnumber :: "TValue \<Rightarrow> bool" where "ttisnumber v = (case v of Number _ \<Rightarrow> True | _ \<Rightarrow> False)"

definition luaG_concaterror :: "vm_env \<Rightarrow> caller \<Rightarrow> int \<Rightarrow> int \<Rightarrow> lua_State \<Rightarrow> 'a vres" where
  "luaG_concaterror E call p1 p2 S =
     rbind (stk S p1) (\<lambda>v1.
     let p1 = (if ttisstring v1 \<or> ttisnumber v1 then p2 else p1) in
     rbind (stk S p1) (\<lambda>v1.
     rbind (vassert (\<not> ttisstring v1 \<and> \<not> ttisnumber v1)) (\<lambda>_.
     luaG_typeerror E call (PStk p1) ''concatenate'' S)))"

definition luaV_tonumber :: "vm_env \<Rightarrow> TValue \<Rightarrow> lua_Number option" where
  "luaV_tonumber E v = (case v of Number n \<Rightarrow> Some n | Str s \<Rightarrow> luaO_str2d (v_strtod E) s | _ \<Rightarrow> None)"

definition luaG_aritherror :: "vm_env \<Rightarrow> caller \<Rightarrow> ptr \<Rightarrow> ptr \<Rightarrow> lua_State \<Rightarrow> 'a vres" where
  "luaG_aritherror E call p1 p2 S =
     rbind (deref S p1) (\<lambda>v1.
     luaG_typeerror E call (if luaV_tonumber E v1 = None then p1 else p2) ''perform arithmetic on'' S)"

text \<open>The third letters of the type names decide whether the types are the same.\<close>

definition luaG_ordererror :: "vm_env \<Rightarrow> caller \<Rightarrow> TValue \<Rightarrow> TValue \<Rightarrow> lua_State \<Rightarrow> 'a vres" where
  "luaG_ordererror E call v1 v2 S =
     (let t1 = typename v1; t2 = typename v2 in
      if t1 ! 2 = t2 ! 2 then luaG_runerror E call ''attempt to compare two %s values'' [VString (Some t1)] S
      else luaG_runerror E call ''attempt to compare %s with %s'' [VString (Some t1), VString (Some t2)] S)"

text \<open>An error that a table operation raises by \<open>luaG_runerror\<close>.\<close>

definition raising :: "vm_env \<Rightarrow> caller \<Rightarrow> lua_State \<Rightarrow> 'a res \<Rightarrow> 'a vres" where
  "raising E call S r = (case r of
     Inl (LuaError st msg) \<Rightarrow> luaG_runerror E call msg [] S | Inl (UB w) \<Rightarrow> undef w | Inr a \<Rightarrow> Inr a)"

text \<open>An error never returns to the code after it.\<close>

lemma rbind_case_sum: "rbind (case x of Inl e \<Rightarrow> Inl e | Inr a \<Rightarrow> f a) g = rbind x (\<lambda>a. rbind (f a) g)"
  by (cases x) simp_all

lemma throw_rbind [simp]: "rbind (luaD_throw st S) f = luaD_throw st S"
  by (simp add: luaD_throw_def)

lemma errormsg_rbind [simp]: "rbind (luaG_errormsg call S) f = luaG_errormsg call S"
  by (simp add: luaG_errormsg_def rbind_assoc if_distrib [where f = "\<lambda>x. rbind x f"] cong: if_cong)

lemma runerror_rbind [simp]: "rbind (luaG_runerror E call fmt args S) f = luaG_runerror E call fmt args S"
  by (simp add: luaG_runerror_def rbind_assoc split_def)

lemma typeerror_rbind [simp]: "rbind (luaG_typeerror E call p opn S) f = luaG_typeerror E call p opn S"
  unfolding luaG_typeerror_def rbind_assoc split_def
  by (intro arg_cong [where f = "rbind _"] ext) (auto split: option.splits)

lemma not_returning [simp]:
  "luaD_throw st S \<noteq> Inr a" "luaG_errormsg call S \<noteq> Inr a" "luaG_runerror E call fmt args S \<noteq> Inr a"
  "luaG_typeerror E call p opn S \<noteq> Inr a"
proof -
  show t: "luaD_throw st S \<noteq> Inr a" for st S and a :: 'a by (simp add: luaD_throw_def)
  show e: "luaG_errormsg call S \<noteq> Inr a" for S and a :: 'a
    by (auto simp: luaG_errormsg_def t split: if_splits)
  show r: "luaG_runerror E call fmt args S \<noteq> Inr a" for fmt args S and a :: 'a
    by (auto simp: luaG_runerror_def e)
  show "luaG_typeerror E call p opn S \<noteq> Inr a"
    by (auto simp: luaG_typeerror_def r split: option.splits)
qed

end
