(* ===== verification/Do.thy ===== *)
theory Do
  imports Debug
begin

text \<open>
  Calls, hooks, protected calls and coroutines, \<open>lua/ldo.c\<close>. Nested calls (of metamethods, hooks and error
  handlers) go through \<open>call\<close>, the \<open>luaD_call\<close> of the next depth, and \<open>exec\<close> is \<open>luaV_execute (L, 1)\<close>.
  A \<open>longjmp\<close> is the error value, which carries the state in which it was thrown; the chain of jump
  buffers is the nesting of \<open>luaD_rawrunprotected\<close>.
\<close>

primrec status_num :: "lua_status \<Rightarrow> int" where
  "status_num LUA_ERRRUN = 2" | "status_num LUA_ERRSYNTAX = 3" | "status_num LUA_ERRMEM = 4" | "status_num LUA_ERRERR = 5"

subsection \<open>Error recovery\<close>

definition luaD_seterrorobj :: "lua_status \<Rightarrow> int \<Rightarrow> lua_State \<Rightarrow> lua_State vres" where
  "luaD_seterrorobj errcode oldtop S =
     rmap (\<lambda>S. S\<lparr>l_top := oldtop + 1\<rparr>)
       (case errcode of
          LUA_ERRMEM \<Rightarrow> set_stk oldtop (Str ''not enough memory'') S
        | LUA_ERRERR \<Rightarrow> set_stk oldtop (Str ''error in error handling'') S
        | _ \<Rightarrow> setobjs2s oldtop (l_top S - 1) S)"

definition restore_stack_limit :: "lua_State \<Rightarrow> lua_State vres" where
  "restore_stack_limit S =
     rbind (vassert (l_stack_last S = l_stacksize S - EXTRA_STACK - 1)) (\<lambda>_.
     Inr (if l_size_ci S > LUAI_MAXCALLS \<and> l_ci S + 1 < LUAI_MAXCALLS then luaD_reallocCI LUAI_MAXCALLS S else S))"

definition resetstack :: "lua_status \<Rightarrow> lua_State \<Rightarrow> lua_State vres" where
  "resetstack st S =
     rbind (get_ci S 0) (\<lambda>c.
     rbind (luaF_close (ci_base c) (S\<lparr>l_ci := 0, l_base := ci_base c\<rparr>)) (\<lambda>S.
     rbind (luaD_seterrorobj st (l_base S) S) (\<lambda>S.
     rmap (\<lambda>S. S\<lparr>l_errfunc := 0\<rparr>) (restore_stack_limit (S\<lparr>l_nCcalls := l_baseCcalls S, l_allowhook := True\<rparr>)))))"

definition luaD_rawrunprotected :: "(lua_State \<Rightarrow> lua_State vres) \<Rightarrow> lua_State \<Rightarrow> (lua_status option \<times> lua_State) vres" where
  "luaD_rawrunprotected f S = (case f S of
     Inr S \<Rightarrow> Inr (None, S)
   | Inl (Throw st S) \<Rightarrow> Inr (Some st, S)
   | Inl e \<Rightarrow> Inl e)"

definition luaD_pcall :: "(lua_State \<Rightarrow> lua_State vres) \<Rightarrow> int \<Rightarrow> int \<Rightarrow> lua_State \<Rightarrow> (lua_status option \<times> lua_State) vres" where
  "luaD_pcall func old_top ef S0 =
     rbind (luaD_rawrunprotected func (S0\<lparr>l_errfunc := ef\<rparr>)) (\<lambda>(st, S).
     rbind (case st of
         None \<Rightarrow> Inr S
       | Some errcode \<Rightarrow>
           rbind (luaF_close old_top S) (\<lambda>S.
           rbind (luaD_seterrorobj errcode old_top S) (\<lambda>S.
           rbind (get_ci S (l_ci S0)) (\<lambda>c.
           restore_stack_limit (S\<lparr>l_nCcalls := l_nCcalls S0, l_ci := l_ci S0, l_base := ci_base c,
             l_savedpc := ci_savedpc c, l_allowhook := l_allowhook S0\<rparr>))))) (\<lambda>S.
     Inr (st, S\<lparr>l_errfunc := l_errfunc S0\<rparr>)))"

subsection \<open>Call records and hooks\<close>

text \<open>\<open>growCI\<close> and \<open>inc_ci\<close>: the new record is the one after \<open>l_ci\<close>.\<close>

definition growCI :: "vm_env \<Rightarrow> caller \<Rightarrow> lua_State \<Rightarrow> lua_State vres" where
  "growCI E call S =
     (if l_size_ci S > LUAI_MAXCALLS then luaD_throw LUA_ERRERR S
      else
        let S = luaD_reallocCI (2 * l_size_ci S) S in
        if l_size_ci S > LUAI_MAXCALLS then luaG_runerror E call ''stack overflow'' [] S
        else Inr (S\<lparr>l_ci := l_ci S + 1\<rparr>))"

definition inc_ci :: "vm_env \<Rightarrow> caller \<Rightarrow> lua_State \<Rightarrow> lua_State vres" where
  "inc_ci E call S = (if l_ci S = l_size_ci S - 1 then growCI E call S else Inr (S\<lparr>l_ci := l_ci S + 1\<rparr>))"

definition LUA_HOOKCALL :: int where "LUA_HOOKCALL = 0"
definition LUA_HOOKRET :: int where "LUA_HOOKRET = 1"
definition LUA_HOOKLINE :: int where "LUA_HOOKLINE = 2"
definition LUA_HOOKCOUNT :: int where "LUA_HOOKCOUNT = 3"
definition LUA_HOOKTAILRET :: int where "LUA_HOOKTAILRET = 4"
definition LUA_MASKCALL :: byte where "LUA_MASKCALL = 1"
definition LUA_MASKRET :: byte where "LUA_MASKRET = 2"
definition LUA_MASKLINE :: byte where "LUA_MASKLINE = 4"
definition LUA_MASKCOUNT :: byte where "LUA_MASKCOUNT = 8"

definition hooked :: "lua_State \<Rightarrow> byte \<Rightarrow> bool" where "hooked S m \<longleftrightarrow> l_hookmask S AND m \<noteq> 0"

definition luaD_callhook :: "vm_env \<Rightarrow> caller \<Rightarrow> int \<Rightarrow> int \<Rightarrow> lua_State \<Rightarrow> lua_State vres" where
  "luaD_callhook E call event line S = (case l_hook S of
     Some hook \<Rightarrow>
       if l_allowhook S then
         rbind (get_ci S (l_ci S)) (\<lambda>c.
         let top0 = l_top S; ci_top0 = ci_top c; i_ci = (if event = LUA_HOOKTAILRET then 0 else l_ci S) in
         rbind (luaD_checkstack LUA_MINSTACK S) (\<lambda>S.
         rbind (upd_ci (l_ci S) (\<lambda>c. c\<lparr>ci_top := l_top S + LUA_MINSTACK\<rparr>) S) (\<lambda>S.
         rbind (vassert (l_top S + LUA_MINSTACK \<le> l_stack_last S)) (\<lambda>_.
         rbind (v_hook E call hook event line i_ci (S\<lparr>l_allowhook := False\<rparr>)) (\<lambda>S.
         rbind (vassert (\<not> l_allowhook S)) (\<lambda>_.
         rmap (\<lambda>S. S\<lparr>l_allowhook := True, l_top := top0\<rparr>)
           (upd_ci (l_ci S) (\<lambda>c. c\<lparr>ci_top := ci_top0\<rparr>) S)))))))
       else Inr S
   | None \<Rightarrow> Inr S)"

subsection \<open>Arguments\<close>

primrec set_nils :: "nat \<Rightarrow> int \<Rightarrow> lua_State \<Rightarrow> lua_State vres" where
  "set_nils 0 i S = Inr S"
| "set_nils (Suc n) i S = rbind (set_stk i Nil S) (set_nils n (i + 1))"

definition push_nils :: "int \<Rightarrow> lua_State \<Rightarrow> lua_State vres" where
  "push_nils n S = rmap (\<lambda>S. S\<lparr>l_top := l_top S + max 0 n\<rparr>) (set_nils (nat n) (l_top S) S)"

primrec arg_fields :: "(lua_Number \<Rightarrow> int) \<Rightarrow> nat \<Rightarrow> int \<Rightarrow> int \<Rightarrow> lua_State \<Rightarrow> LTable \<Rightarrow> LTable vres" where
  "arg_fields N 0 i src S t = Inr t"
| "arg_fields N (Suc n) i src S t =
     rbind (stk S (src + i)) (\<lambda>v.
     rbind (ub (store_at v (luaH_setnum N t (i + 1)))) (arg_fields N n (i + 1) src S))"

text \<open>The table \<open>arg\<close> of a function in the old style, with the \<open>nvar\<close> extra arguments.\<close>

definition arg_table :: "vm_env \<Rightarrow> caller \<Rightarrow> int \<Rightarrow> lua_State \<Rightarrow> (nat \<times> lua_State) vres" where
  "arg_table E call nvar S =
     rbind (v_checkGC E call S) (\<lambda>S.
     rbind (new_table nvar 1 S) (\<lambda>(h, S).
     rbind (get_table S h) (\<lambda>t.
     rbind (arg_fields (v_num2int E) (nat nvar) 0 (l_top S - nvar) S (t_tab t)) (\<lambda>t'.
     rbind (ub (store_at (Number (dbl_of_int nvar)) (luaH_setstr (v_num2int E) t' ''n''))) (\<lambda>t'.
     Inr (h, put_table h (t\<lparr>t_tab := t'\<rparr>) S))))))"

primrec move_fixed :: "nat \<Rightarrow> int \<Rightarrow> lua_State \<Rightarrow> lua_State vres" where
  "move_fixed 0 fixed S = Inr S"
| "move_fixed (Suc n) fixed S =
     rbind (setobjs2s (l_top S) fixed S) (\<lambda>S.
     rbind (set_stk fixed Nil (S\<lparr>l_top := l_top S + 1\<rparr>)) (move_fixed n (fixed + 1)))"

definition adjust_varargs :: "vm_env \<Rightarrow> caller \<Rightarrow> Proto \<Rightarrow> int \<Rightarrow> lua_State \<Rightarrow> (int \<times> lua_State) vres" where
  "adjust_varargs E call p actual S =
     (let nfixargs = uint (f_numparams p) in
      rbind (push_nils (nfixargs - actual) S) (\<lambda>S.
      let actual = max actual nfixargs in
      rbind (if f_is_vararg p AND VARARG_NEEDSARG \<noteq> 0 then
               rbind (vassert (f_is_vararg p AND VARARG_HASARG \<noteq> 0)) (\<lambda>_.
               rmap (\<lambda>(h, S). (Some h, S)) (arg_table E call (actual - nfixargs) S))
             else Inr (None, S)) (\<lambda>(htab, S).
      let base = l_top S in
      rbind (move_fixed (nat nfixargs) (l_top S - actual) S) (\<lambda>S.
      case htab of
        Some h \<Rightarrow> rmap (\<lambda>S. (base, S\<lparr>l_top := l_top S + 1\<rparr>)) (set_stk (l_top S) (Table h) S)
      | None \<Rightarrow> Inr (base, S)))))"

primrec open_hole :: "nat \<Rightarrow> int \<Rightarrow> lua_State \<Rightarrow> lua_State vres" where
  "open_hole 0 p S = Inr S"
| "open_hole (Suc n) p S = rbind (setobjs2s p (p - 1) S) (open_hole n (p - 1))"

definition tryfuncTM :: "vm_env \<Rightarrow> caller \<Rightarrow> int \<Rightarrow> lua_State \<Rightarrow> lua_State vres" where
  "tryfuncTM E call func S =
     rbind (stk S func) (\<lambda>f.
     rbind (luaT_gettmbyobj S f TM_CALL) (\<lambda>tm.
     rbind (deref S tm) (\<lambda>m.
     if \<not> ttisfunction m then luaG_typeerror E call (PStk func) ''call'' S
     else
       rbind (open_hole (nat (l_top S - func)) (l_top S) S) (\<lambda>S.
       rbind (incr_top S) (set_stk func m)))))"

subsection \<open>Calls\<close>

datatype pcr = PCRLUA | PCRC | PCRYIELD

text \<open>The new frame of a Lua function, once its arguments are in place.\<close>

definition enter_lua :: "vm_env \<Rightarrow> caller \<Rightarrow> Proto \<Rightarrow> int \<Rightarrow> int \<Rightarrow> int \<Rightarrow> lua_State \<Rightarrow> lua_State vres" where
  "enter_lua E call p func base nresults S =
     rbind (inc_ci E call S) (\<lambda>S.
     let ctop = base + uint (f_maxstacksize p) in
     rbind (upd_ci (l_ci S) (\<lambda>c. c\<lparr>ci_func := func, ci_base := base, ci_top := ctop, ci_tailcalls := 0,
                                   ci_nresults := nresults\<rparr>) S) (\<lambda>S.
     rbind (vassert (ctop \<le> l_stack_last S)) (\<lambda>_.
     rbind (set_nils (nat (ctop - l_top S)) (l_top S) (S\<lparr>l_base := base, l_savedpc := 0\<rparr>)) (\<lambda>S.
     let S = S\<lparr>l_top := ctop\<rparr> in
     if hooked S LUA_MASKCALL then
       rmap (\<lambda>S. S\<lparr>l_savedpc := l_savedpc S - 1\<rparr>)
         (luaD_callhook E call LUA_HOOKCALL (- 1) (S\<lparr>l_savedpc := l_savedpc S + 1\<rparr>))
     else Inr S))))"

definition precall_lua :: "vm_env \<Rightarrow> caller \<Rightarrow> Proto \<Rightarrow> int \<Rightarrow> int \<Rightarrow> lua_State \<Rightarrow> lua_State vres" where
  "precall_lua E call p func nresults S =
     rbind (luaD_checkstack (uint (f_maxstacksize p)) S) (\<lambda>S.
     if f_is_vararg p = 0 then
       let base = func + 1 in
       enter_lua E call p func base nresults (S\<lparr>l_top := min (l_top S) (base + uint (f_numparams p))\<rparr>)
     else
       rbind (adjust_varargs E call p (l_top S - func - 1) S) (\<lambda>(base, S).
       enter_lua E call p func base nresults S))"

primrec rethook_loop :: "vm_env \<Rightarrow> caller \<Rightarrow> nat \<Rightarrow> lua_State \<Rightarrow> lua_State vres" where
  "rethook_loop E call 0 S = Inl Diverge"
| "rethook_loop E call (Suc n) S =
     (if hooked S LUA_MASKRET then
        rbind (get_ci S (l_ci S)) (\<lambda>c.
        rbind (upd_ci (l_ci S) (\<lambda>c. c\<lparr>ci_tailcalls := ci_tailcalls c - 1\<rparr>) S) (\<lambda>S.
        if ci_tailcalls c \<noteq> 0 then rbind (luaD_callhook E call LUA_HOOKTAILRET (- 1) S) (rethook_loop E call n)
        else Inr S))
      else Inr S)"

text \<open>The hooks for the tail calls that a function lost: one for each.\<close>

definition callrethooks :: "vm_env \<Rightarrow> caller \<Rightarrow> lua_State \<Rightarrow> lua_State vres" where
  "callrethooks E call S =
     rbind (luaD_callhook E call LUA_HOOKRET (- 1) S) (\<lambda>S.
     rbind (get_ci S (l_ci S)) (\<lambda>c.
     rbind (ci_isLua S (l_ci S)) (\<lambda>b.
     if b then rethook_loop E call (nat (ci_tailcalls c) + 1) S else Inr S)))"

function move_results :: "int \<Rightarrow> int \<Rightarrow> int \<Rightarrow> int \<Rightarrow> lua_State \<Rightarrow> (int \<times> int \<times> lua_State) vres" where
  "move_results i res first top0 S =
     (if i \<noteq> 0 \<and> first < top0 then
        rbind (setobjs2s res first S) (move_results (i - 1) (res + 1) (first + 1) top0)
      else Inr (i, res, S))"
  by pat_completeness auto
termination by (relation "measure (\<lambda>(i, res, first, top0, S). nat (top0 - first))") auto

declare move_results.simps [simp del]

definition luaD_poscall :: "vm_env \<Rightarrow> caller \<Rightarrow> int \<Rightarrow> lua_State \<Rightarrow> (int \<times> lua_State) vres" where
  "luaD_poscall E call firstResult S =
     rbind (if hooked S LUA_MASKRET then callrethooks E call S else Inr S) (\<lambda>S.
     rbind (get_ci S (l_ci S)) (\<lambda>c.
     rbind (get_ci S (l_ci S - 1)) (\<lambda>c1.
     rbind (move_results (ci_nresults c) (ci_func c) firstResult (l_top S)
              (S\<lparr>l_ci := l_ci S - 1, l_base := ci_base c1, l_savedpc := ci_savedpc c1\<rparr>)) (\<lambda>(i, res, S).
     rbind (set_nils (nat i) res S) (\<lambda>S.
     Inr (ci_nresults c - LUA_MULTRET, S\<lparr>l_top := res + max 0 i\<rparr>))))))"

definition precall_c :: "vm_env \<Rightarrow> caller \<Rightarrow> int \<Rightarrow> int \<Rightarrow> lua_State \<Rightarrow> (pcr \<times> lua_State) vres" where
  "precall_c E call func nresults S =
     rbind (luaD_checkstack LUA_MINSTACK S) (\<lambda>S.
     rbind (inc_ci E call S) (\<lambda>S.
     rbind (upd_ci (l_ci S) (\<lambda>c. c\<lparr>ci_func := func, ci_base := func + 1, ci_top := l_top S + LUA_MINSTACK,
                                   ci_nresults := nresults\<rparr>) S) (\<lambda>S.
     rbind (vassert (l_top S + LUA_MINSTACK \<le> l_stack_last S)) (\<lambda>_.
     let S = S\<lparr>l_base := func + 1\<rparr> in
     rbind (if hooked S LUA_MASKCALL then luaD_callhook E call LUA_HOOKCALL (- 1) S else Inr S) (\<lambda>S.
     rbind (get_ci S (l_ci S)) (\<lambda>c.
     rbind (ci_closure S c) (\<lambda>f.
     case f of
       LClosure e p us \<Rightarrow> undef ''C function''
     | CClosure e cf us \<Rightarrow>
         rbind (v_cfunction E call cf S) (\<lambda>(n, S).
         if n < 0 then Inr (PCRYIELD, S)
         else rmap (\<lambda>(_, S). (PCRC, S)) (luaD_poscall E call (l_top S - n) S)))))))))"

definition luaD_precall :: "vm_env \<Rightarrow> caller \<Rightarrow> int \<Rightarrow> int \<Rightarrow> lua_State \<Rightarrow> (pcr \<times> lua_State) vres" where
  "luaD_precall E call func nresults S =
     rbind (stk S func) (\<lambda>f.
     rbind (if ttisfunction f then Inr S else tryfuncTM E call func S) (\<lambda>S.
     rbind (stk S func) (\<lambda>f.
     rbind (clvalue S f) (\<lambda>cl.
     rbind (upd_ci (l_ci S) (\<lambda>c. c\<lparr>ci_savedpc := l_savedpc S\<rparr>) S) (\<lambda>S.
     case cl of
       LClosure e p us \<Rightarrow> rmap (\<lambda>S. (PCRLUA, S)) (precall_lua E call p func nresults S)
     | CClosure e cf us \<Rightarrow> precall_c E call func nresults S)))))"

definition call_body :: "vm_env \<Rightarrow> caller \<Rightarrow> (lua_State \<Rightarrow> lua_State vres) \<Rightarrow> caller" where
  "call_body E call exec func nResults S =
     (let S = S\<lparr>l_nCcalls := l_nCcalls S + 1\<rparr> in
      rbind (if l_nCcalls S = int LUAI_MAXCCALLS then luaG_runerror E call ''C stack overflow'' [] S
             else if l_nCcalls S \<ge> int (LUAI_MAXCCALLS + LUAI_MAXCCALLS div 8) then luaD_throw LUA_ERRERR S
             else Inr ()) (\<lambda>_.
      rbind (luaD_precall E call func nResults S) (\<lambda>(r, S).
      rbind (if r = PCRLUA then exec S else Inr S) (\<lambda>S.
      v_checkGC E call (S\<lparr>l_nCcalls := l_nCcalls S - 1\<rparr>)))))"

subsection \<open>Coroutines\<close>

text \<open>\<open>exec n\<close> is \<open>luaV_execute (L, n)\<close>.\<close>

definition resume_yielded :: "vm_env \<Rightarrow> caller \<Rightarrow> int \<Rightarrow> lua_State \<Rightarrow> lua_State vres" where
  "resume_yielded E call firstArg S0 =
     rbind (vassert (l_status S0 = LUA_YIELD)) (\<lambda>_.
     let S = S0\<lparr>l_status := 0\<rparr> in
     rbind (get_ci S (l_ci S)) (\<lambda>c.
     rbind (ci_isLua S (l_ci S)) (\<lambda>b.
     if \<not> b then
       rbind (get_ci S (l_ci S - 1)) (\<lambda>c1.
       rbind (ci_proto S (l_ci S - 1)) (\<lambda>p.
       rbind (ub (code_at p (ci_savedpc c1 - 1))) (\<lambda>i.
       rbind (vassert (has_op i OP_CALL \<or> has_op i OP_TAILCALL)) (\<lambda>_.
       rbind (luaD_poscall E call firstArg S) (\<lambda>(r, S).
       if r \<noteq> 0 then rmap (\<lambda>c. S\<lparr>l_top := ci_top c\<rparr>) (get_ci S (l_ci S)) else Inr S)))))
     else Inr (S\<lparr>l_base := ci_base c\<rparr>))))"

definition resume :: "vm_env \<Rightarrow> caller \<Rightarrow> (int \<Rightarrow> lua_State \<Rightarrow> lua_State vres) \<Rightarrow> int \<Rightarrow> lua_State \<Rightarrow> lua_State vres" where
  "resume E call exec firstArg S =
     (if l_status S = 0 then
        rbind (vassert (l_ci S = 0 \<and> firstArg > l_base S)) (\<lambda>_.
        rbind (luaD_precall E call (firstArg - 1) LUA_MULTRET S) (\<lambda>(r, S).
        if r \<noteq> PCRLUA then Inr S else exec (l_ci S) S))
      else rbind (resume_yielded E call firstArg S) (\<lambda>S. exec (l_ci S) S))"

definition resume_error :: "string \<Rightarrow> lua_State \<Rightarrow> (int \<times> lua_State) vres" where
  "resume_error msg S =
     rbind (get_ci S (l_ci S)) (\<lambda>c.
     rmap (\<lambda>S. (status_num LUA_ERRRUN, S)) (push (Str msg) (S\<lparr>l_top := ci_base c\<rparr>)))"

definition lua_resume :: "vm_env \<Rightarrow> caller \<Rightarrow> (int \<Rightarrow> lua_State \<Rightarrow> lua_State vres) \<Rightarrow> int \<Rightarrow> lua_State \<Rightarrow> (int \<times> lua_State) vres" where
  "lua_resume E call exec nargs S =
     (if l_status S \<noteq> LUA_YIELD \<and> (l_status S \<noteq> 0 \<or> l_ci S \<noteq> 0) then resume_error ''cannot resume non-suspended coroutine'' S
      else if l_nCcalls S \<ge> int LUAI_MAXCCALLS then resume_error ''C stack overflow'' S
      else
        rbind (vassert (l_errfunc S = 0)) (\<lambda>_.
        let S = S\<lparr>l_nCcalls := l_nCcalls S + 1, l_baseCcalls := l_nCcalls S + 1\<rparr> in
        rbind (luaD_rawrunprotected (resume E call exec (l_top S - nargs)) S) (\<lambda>(st, S).
        rbind (case st of
            Some errcode \<Rightarrow>
              rbind (luaD_seterrorobj errcode (l_top S) (S\<lparr>l_status := status_num errcode\<rparr>)) (\<lambda>S.
              rmap (\<lambda>S. (status_num errcode, S)) (upd_ci (l_ci S) (\<lambda>c. c\<lparr>ci_top := l_top S\<rparr>) S))
          | None \<Rightarrow> rmap (\<lambda>_. (l_status S, S)) (vassert (l_nCcalls S = l_baseCcalls S))) (\<lambda>(st, S).
        Inr (st, S\<lparr>l_nCcalls := l_nCcalls S - 1\<rparr>)))))"

text \<open>The value \<open>- 1\<close> tells \<open>luaD_precall\<close> that the C function yields.\<close>

definition lua_yield :: "vm_env \<Rightarrow> caller \<Rightarrow> int \<Rightarrow> lua_State \<Rightarrow> (int \<times> lua_State) vres" where
  "lua_yield E call nresults S =
     (if l_nCcalls S > l_baseCcalls S
      then luaG_runerror E call ''attempt to yield across metamethod/C-call boundary'' [] S
      else Inr (- 1, S\<lparr>l_base := l_top S - nresults, l_status := LUA_YIELD\<rparr>))"

subsection \<open>Protected loading\<close>

text \<open>\<open>parser\<close> is \<open>luaY_parser\<close>; both ways to a prototype raise their errors with the message that they pushed.\<close>

primrec new_upvals :: "nat \<Rightarrow> lua_State \<Rightarrow> nat list \<times> lua_State" where
  "new_upvals 0 S = ([], S)"
| "new_upvals (Suc n) S = (case luaF_newupval S of (u, S) \<Rightarrow> case new_upvals n S of (us, S) \<Rightarrow> (u # us, S))"

definition load_proto :: "(ZIO \<Rightarrow> Mbuffer \<Rightarrow> string \<Rightarrow> (Proto \<times> LoadState) res) \<Rightarrow> ZIO \<Rightarrow> Mbuffer \<Rightarrow> string \<Rightarrow> nat \<Rightarrow> Proto res" where
  "load_proto parser z buff nm nc =
     rbind (luaZ_lookahead z) (\<lambda>(c, z).
     rmap fst ((if c = 27 then luaU_undump (\<lambda>f. luaG_checkcode f = Inr True) nc else parser) z buff nm))"

definition f_parser :: "vm_env \<Rightarrow> caller \<Rightarrow> (ZIO \<Rightarrow> Mbuffer \<Rightarrow> string \<Rightarrow> (Proto \<times> LoadState) res) \<Rightarrow> ZIO \<Rightarrow> Mbuffer \<Rightarrow> string \<Rightarrow>
    lua_State \<Rightarrow> lua_State vres" where
  "f_parser E call parser z buff nm S =
     rbind (v_checkGC E call S) (\<lambda>S.
     rbind (case load_proto parser z buff nm (nat (l_nCcalls S)) of
         Inr tf \<Rightarrow> Inr tf
       | Inl (LuaError st msg) \<Rightarrow> rbind (push (Str msg) S) (luaD_throw st)
       | Inl (UB w) \<Rightarrow> undef w) (\<lambda>tf.
     rbind (case l_gt S of Table e \<Rightarrow> Inr e | _ \<Rightarrow> undef ''hvalue'') (\<lambda>e.
     case luaF_newLclosure tf (nat (uint (f_nups tf))) e S of (cl, S) \<Rightarrow>
     case new_upvals (nat (uint (f_nups tf))) S of (us, S) \<Rightarrow>
     push (Function cl) (S\<lparr>g_closures := (g_closures S)(cl \<mapsto> LClosure e tf (map Some us))\<rparr>))))"

definition luaD_protectedparser :: "vm_env \<Rightarrow> caller \<Rightarrow> (ZIO \<Rightarrow> Mbuffer \<Rightarrow> string \<Rightarrow> (Proto \<times> LoadState) res) \<Rightarrow> ZIO \<Rightarrow> string \<Rightarrow>
    lua_State \<Rightarrow> (lua_status option \<times> lua_State) vres" where
  "luaD_protectedparser E call parser z nm S =
     luaD_pcall (f_parser E call parser z \<lparr>bcontents = [], buffsize = 0\<rparr> nm) (l_top S) (l_errfunc S) S"

subsection \<open>States\<close>

text \<open>The fields of the thread that \<open>luaE_newthread\<close> makes from \<open>L\<close>; the objects stay shared.\<close>

definition luaE_newthread :: "lua_State \<Rightarrow> lua_State" where
  "luaE_newthread S = (stack_init (preinit_state S))\<lparr>l_gt := l_gt S, l_hookmask := l_hookmask S,
     l_basehookcount := l_basehookcount S, l_hook := l_hook S, l_hookcount := l_basehookcount S\<rparr>"

text \<open>\<open>f_luaopen\<close>, without the strings that it makes; they are interned as they are used.\<close>

definition f_luaopen :: "lua_State \<Rightarrow> lua_State vres" where
  "f_luaopen S =
     rbind (new_table 0 2 (stack_init S)) (\<lambda>(gt, S).
     rmap (\<lambda>(r, S). S\<lparr>l_gt := Table gt, g_registry := Table r\<rparr>) (new_table 0 2 S))"

definition lua_newstate :: "lua_State vres" where "lua_newstate = f_luaopen (preinit_state no_state)"

end
