(* ===== verification/VM.thy ===== *)
theory VM
  imports Do
begin

text \<open>
  The operations of the virtual machine on values, the first part of \<open>lua/lvm.c\<close>. \<open>call\<close> is \<open>luaD_call\<close>; the
  comparisons are those of \<open>Compare\<close>, with the metamethods that are called here.
\<close>

definition MAXTAGLOOP :: nat where "MAXTAGLOOP = 100"

text \<open>\<open>tostring\<close> and \<open>luaV_tostring\<close>: whether the slot holds a string afterwards.\<close>

definition luaV_tostring :: "vm_env \<Rightarrow> int \<Rightarrow> lua_State \<Rightarrow> (bool \<times> lua_State) vres" where
  "luaV_tostring E obj S =
     rbind (stk S obj) (\<lambda>v. case v of
       Number n \<Rightarrow> rmap (\<lambda>S. (True, S)) (set_stk obj (Str (v_num2str E n)) S)
     | _ \<Rightarrow> Inr (False, S))"

definition tostring :: "vm_env \<Rightarrow> int \<Rightarrow> lua_State \<Rightarrow> (bool \<times> lua_State) vres" where
  "tostring E obj S = rbind (stk S obj) (\<lambda>v. if ttisstring v then Inr (True, S) else luaV_tostring E obj S)"

subsection \<open>Calling metamethods\<close>

definition push_ptr :: "ptr \<Rightarrow> int \<Rightarrow> lua_State \<Rightarrow> lua_State vres" where
  "push_ptr p i S = rbind (deref S p) (\<lambda>v. set_stk (l_top S + i) v S)"

definition callTMres :: "caller \<Rightarrow> int \<Rightarrow> ptr \<Rightarrow> ptr \<Rightarrow> ptr \<Rightarrow> lua_State \<Rightarrow> lua_State vres" where
  "callTMres call res f p1 p2 S =
     rbind (push_ptr f 0 S) (\<lambda>S.
     rbind (push_ptr p1 1 S) (\<lambda>S.
     rbind (push_ptr p2 2 S) (\<lambda>S.
     rbind (luaD_checkstack 3 S) (\<lambda>S.
     rbind (call (l_top S) 1 (S\<lparr>l_top := l_top S + 3\<rparr>)) (\<lambda>S.
     setobjs2s res (l_top S - 1) (S\<lparr>l_top := l_top S - 1\<rparr>))))))"

definition callTM :: "caller \<Rightarrow> ptr \<Rightarrow> ptr \<Rightarrow> ptr \<Rightarrow> ptr \<Rightarrow> lua_State \<Rightarrow> lua_State vres" where
  "callTM call f p1 p2 p3 S =
     rbind (push_ptr f 0 S) (\<lambda>S.
     rbind (push_ptr p1 1 S) (\<lambda>S.
     rbind (push_ptr p2 2 S) (\<lambda>S.
     rbind (push_ptr p3 3 S) (\<lambda>S.
     rbind (luaD_checkstack 4 S) (\<lambda>S.
     call (l_top S) 0 (S\<lparr>l_top := l_top S + 4\<rparr>))))))"

definition call_binTM :: "caller \<Rightarrow> ptr \<Rightarrow> ptr \<Rightarrow> int \<Rightarrow> TMS \<Rightarrow> lua_State \<Rightarrow> (bool \<times> lua_State) vres" where
  "call_binTM call p1 p2 res event S =
     rbind (deref S p1) (\<lambda>v1.
     rbind (luaT_gettmbyobj S v1 event) (\<lambda>tm.
     rbind (deref S tm) (\<lambda>m.
     rbind (if m = Nil then rbind (deref S p2) (\<lambda>v2. luaT_gettmbyobj S v2 event) else Inr tm) (\<lambda>tm.
     rbind (deref S tm) (\<lambda>m.
     if m = Nil then Inr (False, S) else rmap (\<lambda>S. (True, S)) (callTMres call res tm p1 p2 S))))))"

text \<open>\<open>callTMres\<close> into the slot at the top, and the truth of the result there.\<close>

definition callTMbool :: "caller \<Rightarrow> ptr \<Rightarrow> TValue \<Rightarrow> TValue \<Rightarrow> lua_State \<Rightarrow> (bool \<times> lua_State) vres" where
  "callTMbool call tm v1 v2 S =
     rbind (callTMres call (l_top S) tm (PVal v1) (PVal v2) S) (\<lambda>S.
     rmap (\<lambda>v. (\<not> l_isfalse v, S)) (stk S (l_top S)))"

definition get_compTM :: "nat option \<Rightarrow> nat option \<Rightarrow> TMS \<Rightarrow> lua_State \<Rightarrow> (ptr option \<times> lua_State) vres" where
  "get_compTM mt1 mt2 event S =
     rbind (fasttm mt1 event S) (\<lambda>(tm1, S). case tm1 of
       None \<Rightarrow> Inr (None, S)
     | Some tm1 \<Rightarrow>
         if mt1 = mt2 then Inr (Some tm1, S)
         else
           rbind (fasttm mt2 event S) (\<lambda>(tm2, S). case tm2 of
             None \<Rightarrow> Inr (None, S)
           | Some tm2 \<Rightarrow> rbind (deref S tm1) (\<lambda>v1. rbind (deref S tm2) (\<lambda>v2.
               Inr (if luaO_rawequalObj v1 v2 then Some tm1 else None, S)))))"

definition call_orderTM :: "caller \<Rightarrow> (vm_error, lua_State) order_tm" where
  "call_orderTM call event v1 v2 S =
     rbind (luaT_gettmbyobj S v1 event) (\<lambda>tm1.
     rbind (deref S tm1) (\<lambda>m1.
     if m1 = Nil then Inr (- 1, S)
     else
       rbind (luaT_gettmbyobj S v2 event) (\<lambda>tm2.
       rbind (deref S tm2) (\<lambda>m2.
       if \<not> luaO_rawequalObj m1 m2 then Inr (- 1, S)
       else rmap (\<lambda>(b, S). (if b then 1 else 0, S)) (callTMbool call tm1 v1 v2 S)))))"

definition metatable :: "lua_State \<Rightarrow> TValue \<Rightarrow> nat option vres" where
  "metatable S v = (case v of
     Table h \<Rightarrow> rmap t_metatable (get_table S h)
   | Userdata a \<Rightarrow> (case g_udata S a of Some u \<Rightarrow> Inr (u_metatable u) | None \<Rightarrow> undef ''userdata'')
   | _ \<Rightarrow> Inr None)"

definition equal_tm :: "caller \<Rightarrow> TValue \<Rightarrow> TValue \<Rightarrow> lua_State \<Rightarrow> (bool option \<times> lua_State) vres" where
  "equal_tm call v1 v2 S =
     rbind (metatable S v1) (\<lambda>mt1.
     rbind (metatable S v2) (\<lambda>mt2.
     rbind (get_compTM mt1 mt2 TM_EQ S) (\<lambda>(tm, S). case tm of
       None \<Rightarrow> Inr (None, S)
     | Some tm \<Rightarrow> rmap (\<lambda>(b, S). (Some b, S)) (callTMbool call tm v1 v2 S))))"

definition equalobj :: "caller \<Rightarrow> TValue \<Rightarrow> TValue \<Rightarrow> lua_State \<Rightarrow> (bool \<times> lua_State) vres" where
  "equalobj call v1 v2 S =
     (if ttype v1 = ttype v2 then luaV_equalval ub (equal_tm call) v1 v2 S else Inr (False, S))"

definition less_than :: "vm_env \<Rightarrow> caller \<Rightarrow> TValue \<Rightarrow> TValue \<Rightarrow> lua_State \<Rightarrow> (bool \<times> lua_State) vres" where
  "less_than E call = luaV_lessthan ub (v_strcoll E) (call_orderTM call) (luaG_ordererror E call)"

definition less_equal :: "vm_env \<Rightarrow> caller \<Rightarrow> TValue \<Rightarrow> TValue \<Rightarrow> lua_State \<Rightarrow> (bool \<times> lua_State) vres" where
  "less_equal E call = lessequal ub (v_strcoll E) (call_orderTM call) (luaG_ordererror E call)"

subsection \<open>Indexing\<close>

text \<open>The loops over the chain of handlers; the first argument counts the iterations that are left.\<close>

primrec gettable_loop :: "vm_env \<Rightarrow> caller \<Rightarrow> nat \<Rightarrow> ptr \<Rightarrow> ptr \<Rightarrow> int \<Rightarrow> lua_State \<Rightarrow> lua_State vres" where
  "gettable_loop E call 0 t key val S = luaG_runerror E call ''loop in gettable'' [] S"
| "gettable_loop E call (Suc n) t key val S =
     rbind (deref S t) (\<lambda>tv.
     rbind (case tv of
         Table h \<Rightarrow>
           rbind (get_table S h) (\<lambda>ob.
           rbind (deref S key) (\<lambda>k.
           rbind (ub (luaH_get (v_num2int E) (t_tab ob) k)) (\<lambda>s.
           rbind (ub (read_slot (t_tab ob) s)) (\<lambda>res.
           if res \<noteq> Nil then Inr (Inl res, S)
           else rmap (\<lambda>(tm, S). (case tm of None \<Rightarrow> Inl res | Some tm \<Rightarrow> Inr tm, S)) (fasttm (t_metatable ob) TM_INDEX S)))))
       | _ \<Rightarrow>
           rbind (luaT_gettmbyobj S tv TM_INDEX) (\<lambda>tm.
           rbind (deref S tm) (\<lambda>m. if m = Nil then luaG_typeerror E call t ''index'' S else Inr (Inr tm, S)))) (\<lambda>(r, S).
     case r of
       Inl res \<Rightarrow> set_stk val res S
     | Inr tm \<Rightarrow> rbind (deref S tm) (\<lambda>m.
         if ttisfunction m then callTMres call val tm t key S else gettable_loop E call n tm key val S)))"

definition luaV_gettable :: "vm_env \<Rightarrow> caller \<Rightarrow> ptr \<Rightarrow> ptr \<Rightarrow> int \<Rightarrow> lua_State \<Rightarrow> lua_State vres" where
  "luaV_gettable E call t key val S = gettable_loop E call MAXTAGLOOP t key val S"

text \<open>Whether an insertion allocates the vectors anew: the key is new, its place taken and no node free.\<close>

definition set_moves :: "(lua_Number \<Rightarrow> int) \<Rightarrow> LTable \<Rightarrow> TValue \<Rightarrow> bool" where
  "set_moves N t k \<longleftrightarrow>
     (case luaH_get N t k of Inr s \<Rightarrow> s = SNil | _ \<Rightarrow> False) \<and>
     (case aget (tnode t) (int (main_index t k)) of Inr m \<Rightarrow> nval m \<noteq> Nil \<or> tdummy t | _ \<Rightarrow> False) \<and>
     (case getfreepos t of Inr (r, _) \<Rightarrow> r = None | _ \<Rightarrow> False)"

definition settable_set :: "vm_env \<Rightarrow> caller \<Rightarrow> nat \<Rightarrow> TValue \<Rightarrow> lua_State \<Rightarrow> (slot \<times> lua_State) vres" where
  "settable_set E call h k S =
     rbind (get_table S h) (\<lambda>ob.
     rmap (\<lambda>(s, t). (s, put_table h (ob\<lparr>t_tab := t, t_gen := (if set_moves (v_num2int E) (t_tab ob) k then t_gen ob + 1
                                                          else t_gen ob)\<rparr>) S))
       (raising E call S (luaH_set (v_num2int E) (t_tab ob) k)))"

definition write_val :: "nat \<Rightarrow> slot \<Rightarrow> TValue \<Rightarrow> lua_State \<Rightarrow> lua_State vres" where
  "write_val h s v S =
     rbind (get_table S h) (\<lambda>ob. rmap (\<lambda>t. put_table h (ob\<lparr>t_tab := t\<rparr>) S) (ub (write_slot (t_tab ob) s v)))"

primrec settable_loop :: "vm_env \<Rightarrow> caller \<Rightarrow> nat \<Rightarrow> ptr \<Rightarrow> ptr \<Rightarrow> ptr \<Rightarrow> lua_State \<Rightarrow> lua_State vres" where
  "settable_loop E call 0 t key val S = luaG_runerror E call ''loop in settable'' [] S"
| "settable_loop E call (Suc n) t key val S =
     rbind (deref S t) (\<lambda>tv.
     rbind (case tv of
         Table h \<Rightarrow>
           rbind (deref S key) (\<lambda>k.
           rbind (settable_set E call h k S) (\<lambda>(s, S).
           rbind (get_table S h) (\<lambda>ob.
           rbind (ub (read_slot (t_tab ob) s)) (\<lambda>oldval.
           if oldval \<noteq> Nil then Inr (Inl (h, s), S)
           else rmap (\<lambda>(tm, S). (case tm of None \<Rightarrow> Inl (h, s) | Some tm \<Rightarrow> Inr tm, S)) (fasttm (t_metatable ob) TM_NEWINDEX S)))))
       | _ \<Rightarrow>
           rbind (luaT_gettmbyobj S tv TM_NEWINDEX) (\<lambda>tm.
           rbind (deref S tm) (\<lambda>m. if m = Nil then luaG_typeerror E call t ''index'' S else Inr (Inr tm, S)))) (\<lambda>(r, S).
     case r of
       Inl (h, s) \<Rightarrow> rbind (deref S val) (\<lambda>v. write_val h s v S)
     | Inr tm \<Rightarrow> rbind (deref S tm) (\<lambda>m.
         if ttisfunction m then callTM call tm t key val S else settable_loop E call n tm key val S)))"

definition luaV_settable :: "vm_env \<Rightarrow> caller \<Rightarrow> ptr \<Rightarrow> ptr \<Rightarrow> ptr \<Rightarrow> lua_State \<Rightarrow> lua_State vres" where
  "luaV_settable E call t key val S = settable_loop E call MAXTAGLOOP t key val S"

subsection \<open>Concatenation\<close>

definition MAX_SIZET :: int where "MAX_SIZET = 2 ^ 64 - 3"

definition svalue :: "lua_State \<Rightarrow> int \<Rightarrow> string vres" where
  "svalue S i = rbind (stk S i) (\<lambda>v. case v of Str s \<Rightarrow> Inr s | _ \<Rightarrow> undef ''svalue'')"

text \<open>The operands below the last one, as long as they are strings or numbers: how many, and the total length.\<close>

primrec collect :: "vm_env \<Rightarrow> caller \<Rightarrow> nat \<Rightarrow> int \<Rightarrow> int \<Rightarrow> int \<Rightarrow> lua_State \<Rightarrow> (int \<times> lua_State) vres" where
  "collect E call 0 n tlen tp S = Inr (n, S)"
| "collect E call (Suc k) n tlen tp S =
     rbind (tostring E (tp - n - 1) S) (\<lambda>(b, S).
     if b then
       rbind (svalue S (tp - n - 1)) (\<lambda>s.
       let l = int (length s) in
       if l \<ge> MAX_SIZET - tlen then luaG_runerror E call ''string length overflow'' [] S
       else collect E call k (n + 1) (tlen + l) tp S)
     else Inr (n, S))"

primrec copy_strings :: "nat \<Rightarrow> int \<Rightarrow> lua_State \<Rightarrow> string vres" where
  "copy_strings 0 tp S = Inr []"
| "copy_strings (Suc i) tp S =
     rbind (svalue S (tp - int (Suc i))) (\<lambda>s. rmap (\<lambda>r. s @ r) (copy_strings i tp S))"

text \<open>One pass: the number of operands that became one, and the state.\<close>

definition concat_pass :: "vm_env \<Rightarrow> caller \<Rightarrow> int \<Rightarrow> int \<Rightarrow> lua_State \<Rightarrow> (int \<times> lua_State) vres" where
  "concat_pass E call tot lst S =
     (let tp = l_base S + lst + 1 in
      rbind (stk S (tp - 2)) (\<lambda>v2.
      rbind (if ttisstring v2 \<or> ttisnumber v2 then tostring E (tp - 1) S else Inr (False, S)) (\<lambda>(b, S).
      if \<not> b then
        rbind (call_binTM call (PStk (tp - 2)) (PStk (tp - 1)) (tp - 2) TM_CONCAT S) (\<lambda>(b, S).
        if b then Inr (2, S) else luaG_concaterror E call (tp - 2) (tp - 1) S)
      else
        rbind (svalue S (tp - 1)) (\<lambda>s1.
        if length s1 = 0 then rmap (\<lambda>(_, S). (2, S)) (tostring E (tp - 2) S)
        else
          rbind (collect E call (nat (tot - 1)) 1 (int (length s1)) tp S) (\<lambda>(n, S).
          rbind (copy_strings (nat n) tp S) (\<lambda>s.
          rmap (\<lambda>S. (n, S)) (set_stk (tp - n) (Str s) S)))))))"

text \<open>A pass leaves fewer operands, so that \<open>total\<close> passes are enough.\<close>

primrec concat_loop :: "vm_env \<Rightarrow> caller \<Rightarrow> nat \<Rightarrow> int \<Rightarrow> int \<Rightarrow> lua_State \<Rightarrow> lua_State vres" where
  "concat_loop E call 0 tot lst S = Inl Diverge"
| "concat_loop E call (Suc k) tot lst S =
     rbind (concat_pass E call tot lst S) (\<lambda>(n, S).
     if tot - (n - 1) > 1 then concat_loop E call k (tot - (n - 1)) (lst - (n - 1)) S else Inr S)"

definition luaV_concat :: "vm_env \<Rightarrow> caller \<Rightarrow> int \<Rightarrow> int \<Rightarrow> lua_State \<Rightarrow> lua_State vres" where
  "luaV_concat E call tot lst S = concat_loop E call (nat tot + 1) tot lst S"

subsection \<open>Arithmetic\<close>

definition num_arith :: "vm_env \<Rightarrow> TMS \<Rightarrow> lua_Number \<Rightarrow> lua_Number \<Rightarrow> lua_Number vres" where
  "num_arith E opn nb nc = (case opn of
     TM_ADD \<Rightarrow> Inr (luai_numadd nb nc)
   | TM_SUB \<Rightarrow> Inr (luai_numsub nb nc)
   | TM_MUL \<Rightarrow> Inr (luai_nummul nb nc)
   | TM_DIV \<Rightarrow> Inr (luai_numdiv nb nc)
   | TM_MOD \<Rightarrow> Inr (luai_nummod nb nc)
   | TM_POW \<Rightarrow> Inr (v_pow E nb nc)
   | TM_UNM \<Rightarrow> Inr (luai_numunm nb)
   | _ \<Rightarrow> undef ''lua_assert'')"

definition Arith :: "vm_env \<Rightarrow> caller \<Rightarrow> int \<Rightarrow> ptr \<Rightarrow> ptr \<Rightarrow> TMS \<Rightarrow> lua_State \<Rightarrow> lua_State vres" where
  "Arith E call ra rb rc opn S =
     rbind (deref S rb) (\<lambda>vb.
     rbind (deref S rc) (\<lambda>vc.
     case (luaV_tonumber E vb, luaV_tonumber E vc) of
       (Some nb, Some nc) \<Rightarrow> rbind (num_arith E opn nb nc) (\<lambda>r. set_stk ra (Number r) S)
     | _ \<Rightarrow>
         rbind (call_binTM call rb rc ra opn S) (\<lambda>(b, S).
         if b then Inr S else luaG_aritherror E call rb rc S)))"

text \<open>An environment and a caller for the examples.\<close>

definition sample_env :: vm_env where
  "sample_env = \<lparr>v_strtod = \<lambda>s. (0, 0), v_num2str = \<lambda>n. if n = 0 then ''0'' else ''1'', v_ptr2str = \<lambda>n. [], v_strcoll = strcmp,
     v_pow = \<lambda>a b. a, v_num2int = number2int, v_cfunction = \<lambda>c n S. Inr (0, S), v_hook = \<lambda>c n e l i S. Inr S,
     v_checkGC = \<lambda>c S. Inr S\<rparr>"

definition no_call :: caller where "no_call f n S = undef ''no call''"

end
