(* ===== verification/VMExec.thy ===== *)
theory VMExec
  imports VM
begin

text \<open>
  \<open>luaV_execute\<close>, the second part of \<open>lua/lvm.c\<close>, one definition per instruction. The locals of the C function
  are the closure \<open>cl\<close>, through its prototype \<open>p\<close>, its upvalues and its environment, the position \<open>pc\<close> of
  the next instruction and \<open>nexeccalls\<close>; its \<open>base\<close> is \<open>L->base\<close>, to which every protected call resets it.
  A failed \<open>lua_assert\<close> is undefined.
\<close>

text \<open>How an instruction ends: with the next position, with \<open>goto reentry\<close>, or with a return.\<close>

datatype vm_next = Continue int | Reentry int | Leave

definition RA :: "lua_State \<Rightarrow> Instruction \<Rightarrow> int" where "RA S i = l_base S + GETARG_A i"
definition RB :: "lua_State \<Rightarrow> Instruction \<Rightarrow> int" where "RB S i = l_base S + GETARG_B i"

definition RK :: "lua_State \<Rightarrow> Proto \<Rightarrow> int \<Rightarrow> ptr vres" where
  "RK S p x = (if ISK x then rmap PVal (konst_at p (INDEXK x)) else Inr (PStk (l_base S + x)))"

definition Protect :: "int \<Rightarrow> lua_State \<Rightarrow> lua_State" where "Protect pc S = S\<lparr>l_savedpc := pc\<rparr>"

text \<open>\<open>dojump\<close> by the distance in the instruction at \<open>pc\<close>, which is skipped in any case.\<close>

definition cond_jump :: "Proto \<Rightarrow> int \<Rightarrow> bool \<Rightarrow> int vres" where
  "cond_jump p pc b = (if b then rmap (\<lambda>j. pc + GETARG_sBx j + 1) (ub (code_at p pc)) else Inr (pc + 1))"

definition bool_num :: "bool \<Rightarrow> int" where "bool_num b = (if b then 1 else 0)"

definition nvalue :: "lua_State \<Rightarrow> int \<Rightarrow> lua_Number vres" where
  "nvalue S i = rbind (stk S i) (\<lambda>v. case v of Number d \<Rightarrow> Inr d | _ \<Rightarrow> undef ''nvalue'')"

subsection \<open>Moves and upvalues\<close>

definition op_move :: "Instruction \<Rightarrow> lua_State \<Rightarrow> lua_State vres" where
  "op_move i S = setobjs2s (RA S i) (RB S i) S"

definition op_loadk :: "Proto \<Rightarrow> Instruction \<Rightarrow> lua_State \<Rightarrow> lua_State vres" where
  "op_loadk p i S = rbind (konst_at p (GETARG_Bx i)) (\<lambda>v. set_stk (RA S i) v S)"

definition op_loadbool :: "int \<Rightarrow> Instruction \<Rightarrow> lua_State \<Rightarrow> (vm_next \<times> lua_State) vres" where
  "op_loadbool pc i S =
     rmap (\<lambda>S. (Continue (if GETARG_C i \<noteq> 0 then pc + 1 else pc), S)) (set_stk (RA S i) (Boolean (GETARG_B i \<noteq> 0)) S)"

text \<open>The loop sets at least the last register.\<close>

definition op_loadnil :: "Instruction \<Rightarrow> lua_State \<Rightarrow> lua_State vres" where
  "op_loadnil i S =
     (let n = max 1 (RB S i - RA S i + 1) in set_nils (nat n) (RB S i - n + 1) S)"

definition cl_upval :: "nat option list \<Rightarrow> int \<Rightarrow> nat vres" where
  "cl_upval us b = rbind (ub (aget us b)) (\<lambda>u. case u of Some u \<Rightarrow> Inr u | None \<Rightarrow> undef ''null upvalue'')"

definition op_getupval :: "nat option list \<Rightarrow> Instruction \<Rightarrow> lua_State \<Rightarrow> lua_State vres" where
  "op_getupval us i S =
     rbind (cl_upval us (GETARG_B i)) (\<lambda>u. rbind (uv_get S u) (\<lambda>v. set_stk (RA S i) v S))"

definition op_setupval :: "nat option list \<Rightarrow> Instruction \<Rightarrow> lua_State \<Rightarrow> lua_State vres" where
  "op_setupval us i S =
     rbind (cl_upval us (GETARG_B i)) (\<lambda>u. rbind (stk S (RA S i)) (\<lambda>v. uv_set u v S))"

subsection \<open>Tables\<close>

definition string_konst :: "Proto \<Rightarrow> int \<Rightarrow> TValue vres" where
  "string_konst p b = rbind (konst_at p b) (\<lambda>v. rmap (\<lambda>_. v) (vassert (ttisstring v)))"

definition op_getglobal :: "vm_env \<Rightarrow> caller \<Rightarrow> nat \<Rightarrow> Proto \<Rightarrow> int \<Rightarrow> Instruction \<Rightarrow> lua_State \<Rightarrow> lua_State vres" where
  "op_getglobal E call env p pc i S =
     rbind (string_konst p (GETARG_Bx i)) (\<lambda>k. luaV_gettable E call (PVal (Table env)) (PVal k) (RA S i) (Protect pc S))"

definition op_gettable :: "vm_env \<Rightarrow> caller \<Rightarrow> Proto \<Rightarrow> int \<Rightarrow> Instruction \<Rightarrow> lua_State \<Rightarrow> lua_State vres" where
  "op_gettable E call p pc i S =
     rbind (RK S p (GETARG_C i)) (\<lambda>rc. luaV_gettable E call (PStk (RB S i)) rc (RA S i) (Protect pc S))"

definition op_setglobal :: "vm_env \<Rightarrow> caller \<Rightarrow> nat \<Rightarrow> Proto \<Rightarrow> int \<Rightarrow> Instruction \<Rightarrow> lua_State \<Rightarrow> lua_State vres" where
  "op_setglobal E call env p pc i S =
     rbind (string_konst p (GETARG_Bx i)) (\<lambda>k.
     luaV_settable E call (PVal (Table env)) (PVal k) (PStk (RA S i)) (Protect pc S))"

definition op_settable :: "vm_env \<Rightarrow> caller \<Rightarrow> Proto \<Rightarrow> int \<Rightarrow> Instruction \<Rightarrow> lua_State \<Rightarrow> lua_State vres" where
  "op_settable E call p pc i S =
     rbind (RK S p (GETARG_B i)) (\<lambda>rb. rbind (RK S p (GETARG_C i)) (\<lambda>rc.
     luaV_settable E call (PStk (RA S i)) rb rc (Protect pc S)))"

definition op_newtable :: "vm_env \<Rightarrow> caller \<Rightarrow> int \<Rightarrow> Instruction \<Rightarrow> lua_State \<Rightarrow> lua_State vres" where
  "op_newtable E call pc i S =
     rbind (ub (luaO_fb2int (GETARG_B i))) (\<lambda>b. rbind (ub (luaO_fb2int (GETARG_C i))) (\<lambda>c.
     rbind (new_table b c S) (\<lambda>(h, S).
     rbind (set_stk (RA S i) (Table h) S) (\<lambda>S. v_checkGC E call (Protect pc S)))))"

definition op_self :: "vm_env \<Rightarrow> caller \<Rightarrow> Proto \<Rightarrow> int \<Rightarrow> Instruction \<Rightarrow> lua_State \<Rightarrow> lua_State vres" where
  "op_self E call p pc i S =
     rbind (setobjs2s (RA S i + 1) (RB S i) S) (\<lambda>S.
     rbind (RK S p (GETARG_C i)) (\<lambda>rc. luaV_gettable E call (PStk (RB S i)) rc (RA S i) (Protect pc S)))"

definition LFIELDS_PER_FLUSH :: int where "LFIELDS_PER_FLUSH = 50"

text \<open>The elements from the last one down, \<open>n\<close> of them.\<close>

primrec setlist_loop :: "vm_env \<Rightarrow> nat \<Rightarrow> nat \<Rightarrow> int \<Rightarrow> int \<Rightarrow> lua_State \<Rightarrow> lua_State vres" where
  "setlist_loop E h 0 ra lst S = Inr S"
| "setlist_loop E h (Suc n) ra lst S =
     rbind (stk S (ra + int (Suc n))) (\<lambda>v.
     rbind (get_table S h) (\<lambda>ob.
     rbind (ub (store_at v (luaH_setnum (v_num2int E) (t_tab ob) lst))) (\<lambda>t.
     setlist_loop E h n ra (lst - 1) (put_table h (ob\<lparr>t_tab := t\<rparr>) S))))"

definition setlist_table :: "vm_env \<Rightarrow> nat \<Rightarrow> int \<Rightarrow> int \<Rightarrow> int \<Rightarrow> lua_State \<Rightarrow> lua_State vres" where
  "setlist_table E h ra n c S =
     (let lst = (c - 1) * LFIELDS_PER_FLUSH + n in
      if \<not> (- (2 ^ 31) \<le> c - 1 \<and> - (2 ^ 31) \<le> (c - 1) * LFIELDS_PER_FLUSH \<and> (c - 1) * LFIELDS_PER_FLUSH < 2 ^ 31 \<and> lst < 2 ^ 31)
      then undef ''signed overflow''
      else
        rbind (get_table S h) (\<lambda>ob.
        rbind (if lst > tsizearray (t_tab ob) then ub (luaH_resizearray (v_num2int E) (t_tab ob) lst) else Inr (t_tab ob)) (\<lambda>t.
        setlist_loop E h (nat n) ra lst (put_table h (ob\<lparr>t_tab := t\<rparr>) S))))"

definition op_setlist :: "vm_env \<Rightarrow> Proto \<Rightarrow> int \<Rightarrow> Instruction \<Rightarrow> lua_State \<Rightarrow> (vm_next \<times> lua_State) vres" where
  "op_setlist E p pc i S =
     (let ra = RA S i; b = GETARG_B i in
      rbind (if b = 0 then rmap (\<lambda>ci. (l_top S - ra - 1, S\<lparr>l_top := ci_top ci\<rparr>)) (get_ci S (l_ci S))
             else Inr (b, S)) (\<lambda>(n, S).
      rbind (if GETARG_C i = 0 then rmap (\<lambda>w. (sint w, pc + 1)) (ub (code_at p pc)) else Inr (GETARG_C i, pc)) (\<lambda>(c, pc).
      rbind (stk S ra) (\<lambda>v. case v of
        Table h \<Rightarrow> rmap (\<lambda>S. (Continue pc, S)) (setlist_table E h ra n c S)
      | _ \<Rightarrow> Inr (Continue pc, S)))))"

subsection \<open>Operators\<close>

definition op_arith :: "vm_env \<Rightarrow> caller \<Rightarrow> Proto \<Rightarrow> int \<Rightarrow> TMS \<Rightarrow> Instruction \<Rightarrow> lua_State \<Rightarrow> lua_State vres" where
  "op_arith E call p pc opn i S =
     rbind (RK S p (GETARG_B i)) (\<lambda>rb.
     rbind (RK S p (GETARG_C i)) (\<lambda>rc.
     rbind (deref S rb) (\<lambda>vb.
     rbind (deref S rc) (\<lambda>vc. case (vb, vc) of
       (Number nb, Number nc) \<Rightarrow> rbind (num_arith E opn nb nc) (\<lambda>r. set_stk (RA S i) (Number r) S)
     | _ \<Rightarrow> Arith E call (RA S i) rb rc opn (Protect pc S)))))"

definition op_unm :: "vm_env \<Rightarrow> caller \<Rightarrow> int \<Rightarrow> Instruction \<Rightarrow> lua_State \<Rightarrow> lua_State vres" where
  "op_unm E call pc i S =
     rbind (stk S (RB S i)) (\<lambda>v. case v of
       Number nb \<Rightarrow> set_stk (RA S i) (Number (luai_numunm nb)) S
     | _ \<Rightarrow> Arith E call (RA S i) (PStk (RB S i)) (PStk (RB S i)) TM_UNM (Protect pc S))"

definition op_not :: "Instruction \<Rightarrow> lua_State \<Rightarrow> lua_State vres" where
  "op_not i S = rbind (stk S (RB S i)) (\<lambda>v. set_stk (RA S i) (Boolean (l_isfalse v)) S)"

definition op_len :: "vm_env \<Rightarrow> caller \<Rightarrow> int \<Rightarrow> Instruction \<Rightarrow> lua_State \<Rightarrow> lua_State vres" where
  "op_len E call pc i S =
     rbind (stk S (RB S i)) (\<lambda>v. case v of
       Table h \<Rightarrow> rbind (get_table S h) (\<lambda>ob. rbind (ub (luaH_getn (t_tab ob))) (\<lambda>n. set_stk (RA S i) (Number (dbl_of_int n)) S))
     | Str s \<Rightarrow> set_stk (RA S i) (Number (dbl_of_int (int (length s)))) S
     | _ \<Rightarrow>
         rbind (call_binTM call (PStk (RB S i)) (PVal Nil) (RA S i) TM_LEN (Protect pc S)) (\<lambda>(b, S).
         if b then Inr S else luaG_typeerror E call (PStk (RB S i)) ''get length of'' S))"

definition op_concat :: "vm_env \<Rightarrow> caller \<Rightarrow> int \<Rightarrow> Instruction \<Rightarrow> lua_State \<Rightarrow> lua_State vres" where
  "op_concat E call pc i S =
     (let b = GETARG_B i; c = GETARG_C i in
      rbind (luaV_concat E call (c - b + 1) c (Protect pc S)) (\<lambda>S.
      rbind (v_checkGC E call S) (\<lambda>S. setobjs2s (RA S i) (l_base S + b) S)))"

subsection \<open>Jumps\<close>

definition op_eq :: "caller \<Rightarrow> Proto \<Rightarrow> int \<Rightarrow> Instruction \<Rightarrow> lua_State \<Rightarrow> (vm_next \<times> lua_State) vres" where
  "op_eq call p pc i S =
     rbind (RK S p (GETARG_B i)) (\<lambda>rb.
     rbind (RK S p (GETARG_C i)) (\<lambda>rc.
     rbind (deref S rb) (\<lambda>vb.
     rbind (deref S rc) (\<lambda>vc.
     rbind (equalobj call vb vc (Protect pc S)) (\<lambda>(r, S).
     rmap (\<lambda>pc. (Continue pc, S)) (cond_jump p pc (bool_num r = GETARG_A i)))))))"

definition op_compare :: "(TValue \<Rightarrow> TValue \<Rightarrow> lua_State \<Rightarrow> (bool \<times> lua_State) vres) \<Rightarrow> Proto \<Rightarrow> int \<Rightarrow> Instruction \<Rightarrow>
    lua_State \<Rightarrow> (vm_next \<times> lua_State) vres" where
  "op_compare cmp p pc i S =
     rbind (RK S p (GETARG_B i)) (\<lambda>rb.
     rbind (RK S p (GETARG_C i)) (\<lambda>rc.
     rbind (deref S rb) (\<lambda>vb.
     rbind (deref S rc) (\<lambda>vc.
     rbind (cmp vb vc (Protect pc S)) (\<lambda>(r, S).
     rmap (\<lambda>pc. (Continue pc, S)) (cond_jump p pc (bool_num r = GETARG_A i)))))))"

definition op_lt :: "vm_env \<Rightarrow> caller \<Rightarrow> Proto \<Rightarrow> int \<Rightarrow> Instruction \<Rightarrow> lua_State \<Rightarrow> (vm_next \<times> lua_State) vres" where
  "op_lt E call = op_compare (less_than E call)"

definition op_le :: "vm_env \<Rightarrow> caller \<Rightarrow> Proto \<Rightarrow> int \<Rightarrow> Instruction \<Rightarrow> lua_State \<Rightarrow> (vm_next \<times> lua_State) vres" where
  "op_le E call = op_compare (less_equal E call)"

definition op_test :: "Proto \<Rightarrow> int \<Rightarrow> Instruction \<Rightarrow> lua_State \<Rightarrow> (vm_next \<times> lua_State) vres" where
  "op_test p pc i S =
     rbind (stk S (RA S i)) (\<lambda>v.
     rmap (\<lambda>pc. (Continue pc, S)) (cond_jump p pc (bool_num (l_isfalse v) \<noteq> GETARG_C i)))"

definition op_testset :: "Proto \<Rightarrow> int \<Rightarrow> Instruction \<Rightarrow> lua_State \<Rightarrow> (vm_next \<times> lua_State) vres" where
  "op_testset p pc i S =
     rbind (stk S (RB S i)) (\<lambda>v.
     let b = (bool_num (l_isfalse v) \<noteq> GETARG_C i) in
     rbind (if b then set_stk (RA S i) v S else Inr S) (\<lambda>S.
     rmap (\<lambda>pc. (Continue pc, S)) (cond_jump p pc b)))"

subsection \<open>Loops\<close>

definition op_forloop :: "int \<Rightarrow> Instruction \<Rightarrow> lua_State \<Rightarrow> (vm_next \<times> lua_State) vres" where
  "op_forloop pc i S =
     (let ra = RA S i in
      rbind (nvalue S (ra + 2)) (\<lambda>step.
      rbind (nvalue S ra) (\<lambda>x.
      rbind (nvalue S (ra + 1)) (\<lambda>limit.
      let idx = luai_numadd x step in
      if (if luai_numlt 0 step then luai_numle idx limit else luai_numle limit idx) then
        rbind (set_stk ra (Number idx) S) (\<lambda>S.
        rmap (\<lambda>S. (Continue (pc + GETARG_sBx i), S)) (set_stk (ra + 3) (Number idx) S))
      else Inr (Continue pc, S)))))"

definition for_number :: "vm_env \<Rightarrow> caller \<Rightarrow> int \<Rightarrow> string \<Rightarrow> lua_State \<Rightarrow> lua_State vres" where
  "for_number E call r what S =
     rbind (stk S r) (\<lambda>v. case v of
       Number _ \<Rightarrow> Inr S
     | _ \<Rightarrow> (case luaV_tonumber E v of
         Some n \<Rightarrow> set_stk r (Number n) S
       | None \<Rightarrow> luaG_runerror E call (LUA_QL ''for'' @ '' '' @ what @ '' must be a number'') [] S))"

definition op_forprep :: "vm_env \<Rightarrow> caller \<Rightarrow> int \<Rightarrow> Instruction \<Rightarrow> lua_State \<Rightarrow> (vm_next \<times> lua_State) vres" where
  "op_forprep E call pc i S =
     (let ra = RA S i in
      rbind (for_number E call ra ''initial value'' (Protect pc S)) (\<lambda>S.
      rbind (for_number E call (ra + 1) ''limit'' S) (\<lambda>S.
      rbind (for_number E call (ra + 2) ''step'' S) (\<lambda>S.
      rbind (nvalue S ra) (\<lambda>x.
      rbind (nvalue S (ra + 2)) (\<lambda>step.
      rmap (\<lambda>S. (Continue (pc + GETARG_sBx i), S)) (set_stk ra (Number (luai_numsub x step)) S)))))))"

definition op_tforloop :: "caller \<Rightarrow> Proto \<Rightarrow> int \<Rightarrow> Instruction \<Rightarrow> lua_State \<Rightarrow> (vm_next \<times> lua_State) vres" where
  "op_tforloop call p pc i S =
     (let ra = RA S i; cb = ra + 3 in
      rbind (setobjs2s (cb + 2) (ra + 2) S) (\<lambda>S.
      rbind (setobjs2s (cb + 1) (ra + 1) S) (\<lambda>S.
      rbind (setobjs2s cb ra S) (\<lambda>S.
      rbind (call cb (GETARG_C i) (Protect pc (S\<lparr>l_top := cb + 3\<rparr>))) (\<lambda>S.
      rbind (get_ci S (l_ci S)) (\<lambda>ci.
      let S = S\<lparr>l_top := ci_top ci\<rparr>; cb = RA S i + 3 in
      rbind (stk S cb) (\<lambda>v.
      rbind (if v \<noteq> Nil then set_stk (cb - 1) v S else Inr S) (\<lambda>S.
      rmap (\<lambda>pc. (Continue pc, S)) (cond_jump p pc (v \<noteq> Nil))))))))))"

subsection \<open>Calls\<close>

definition set_top_ci :: "lua_State \<Rightarrow> lua_State vres" where
  "set_top_ci S = rmap (\<lambda>ci. S\<lparr>l_top := ci_top ci\<rparr>) (get_ci S (l_ci S))"

definition op_call :: "vm_env \<Rightarrow> caller \<Rightarrow> int \<Rightarrow> int \<Rightarrow> Instruction \<Rightarrow> lua_State \<Rightarrow> (vm_next \<times> lua_State) vres" where
  "op_call E call nexeccalls pc i S =
     (let ra = RA S i; b = GETARG_B i; nresults = GETARG_C i - 1;
          S = (if b \<noteq> 0 then S\<lparr>l_top := ra + b\<rparr> else S) in
      rbind (luaD_precall E call ra nresults (Protect pc S)) (\<lambda>(r, S). case r of
        PCRLUA \<Rightarrow> Inr (Reentry (nexeccalls + 1), S)
      | PCRC \<Rightarrow> rmap (\<lambda>S. (Continue pc, S)) (if nresults \<ge> 0 then set_top_ci S else Inr S)
      | PCRYIELD \<Rightarrow> Inr (Leave, S)))"

primrec move_frame :: "nat \<Rightarrow> int \<Rightarrow> int \<Rightarrow> lua_State \<Rightarrow> lua_State vres" where
  "move_frame 0 dst src S = Inr S"
| "move_frame (Suc n) dst src S = rbind (setobjs2s dst src S) (move_frame n (dst + 1) (src + 1))"

text \<open>The new frame is put in the place of the one that made the tail call.\<close>

definition tail_frame :: "lua_State \<Rightarrow> lua_State vres" where
  "tail_frame S =
     (let cur = l_ci S; ci = cur - 1 in
      rbind (get_ci S ci) (\<lambda>c.
      rbind (get_ci S cur) (\<lambda>c1.
      let func = ci_func c; pfunc = ci_func c1; base = func + (ci_base c1 - pfunc) in
      rbind (if l_openupval S \<noteq> [] then luaF_close (ci_base c) S else Inr S) (\<lambda>S.
      let n = max 0 (l_top S - pfunc) in
      rbind (move_frame (nat n) func pfunc S) (\<lambda>S.
      rbind (upd_ci ci (\<lambda>c. c\<lparr>ci_base := base, ci_top := func + n, ci_savedpc := l_savedpc S,
                              ci_tailcalls := ci_tailcalls c + 1\<rparr>) S) (\<lambda>S.
      let S = S\<lparr>l_base := base, l_top := func + n, l_ci := ci\<rparr> in
      rbind (ci_proto S ci) (\<lambda>p.
      rbind (vassert (func + n = base + uint (f_maxstacksize p))) (\<lambda>_. Inr S))))))))"

definition op_tailcall :: "vm_env \<Rightarrow> caller \<Rightarrow> int \<Rightarrow> int \<Rightarrow> Instruction \<Rightarrow> lua_State \<Rightarrow> (vm_next \<times> lua_State) vres" where
  "op_tailcall E call nexeccalls pc i S =
     (let ra = RA S i; b = GETARG_B i; S = (if b \<noteq> 0 then S\<lparr>l_top := ra + b\<rparr> else S) in
      rbind (vassert (GETARG_C i - 1 = LUA_MULTRET)) (\<lambda>_.
      rbind (luaD_precall E call ra LUA_MULTRET (Protect pc S)) (\<lambda>(r, S). case r of
        PCRLUA \<Rightarrow> rmap (\<lambda>S. (Reentry nexeccalls, S)) (tail_frame S)
      | PCRC \<Rightarrow> Inr (Continue pc, S)
      | PCRYIELD \<Rightarrow> Inr (Leave, S))))"

text \<open>What the assertions of \<open>OP_RETURN\<close> require of the frame that goes on.\<close>

definition assert_caller :: "lua_State \<Rightarrow> unit vres" where
  "assert_caller S =
     rbind (get_ci S (l_ci S)) (\<lambda>c.
     rbind (isLua S c) (\<lambda>b.
     rbind (vassert b) (\<lambda>_.
     rbind (ci_proto S (l_ci S)) (\<lambda>p.
     rbind (ub (code_at p (ci_savedpc c - 1))) (\<lambda>i. vassert (has_op i OP_CALL))))))"

definition op_return :: "vm_env \<Rightarrow> caller \<Rightarrow> int \<Rightarrow> int \<Rightarrow> Instruction \<Rightarrow> lua_State \<Rightarrow> (vm_next \<times> lua_State) vres" where
  "op_return E call nexeccalls pc i S =
     (let ra = RA S i; b = GETARG_B i; S = (if b \<noteq> 0 then S\<lparr>l_top := ra + b - 1\<rparr> else S) in
      rbind (if l_openupval S \<noteq> [] then luaF_close (l_base S) S else Inr S) (\<lambda>S.
      rbind (luaD_poscall E call ra (Protect pc S)) (\<lambda>(r, S).
      if nexeccalls - 1 = 0 then Inr (Leave, S)
      else
        rbind (if r \<noteq> 0 then set_top_ci S else Inr S) (\<lambda>S.
        rmap (\<lambda>_. (Reentry (nexeccalls - 1), S)) (assert_caller S)))))"

subsection \<open>Closures and varargs\<close>

primrec capture :: "Proto \<Rightarrow> nat option list \<Rightarrow> nat \<Rightarrow> int \<Rightarrow> lua_State \<Rightarrow> (nat option list \<times> lua_State) vres" where
  "capture p us 0 pc S = Inr ([], S)"
| "capture p us (Suc n) pc S =
     rbind (ub (code_at p pc)) (\<lambda>w.
     rbind (if has_op w OP_GETUPVAL then rmap (\<lambda>u. (u, S)) (ub (aget us (GETARG_B w)))
            else rbind (vassert (has_op w OP_MOVE)) (\<lambda>_. rmap (\<lambda>(u, S). (Some u, S)) (luaF_findupval (RB S w) S))) (\<lambda>(u, S).
     rmap (\<lambda>(us', S). (u # us', S)) (capture p us n (pc + 1) S)))"

definition op_closure :: "vm_env \<Rightarrow> caller \<Rightarrow> nat \<Rightarrow> Proto \<Rightarrow> nat option list \<Rightarrow> int \<Rightarrow> Instruction \<Rightarrow> lua_State \<Rightarrow>
    (vm_next \<times> lua_State) vres" where
  "op_closure E call env p us pc i S =
     rbind (ub (aget (f_p p) (GETARG_Bx i))) (\<lambda>np.
     let nup = nat (uint (f_nups np)) in
     case luaF_newLclosure np nup env S of (ncl, S) \<Rightarrow>
     rbind (capture p us nup pc S) (\<lambda>(us', S).
     rbind (set_stk (RA S i) (Function ncl) (S\<lparr>g_closures := (g_closures S)(ncl \<mapsto> LClosure env np us')\<rparr>)) (\<lambda>S.
     rmap (\<lambda>S. (Continue (pc + int nup), S)) (v_checkGC E call (Protect (pc + int nup) S)))))"

text \<open>The loop over the \<open>b\<close> values: the first \<open>n\<close> of them are the extra arguments.\<close>

primrec vararg_loop :: "nat \<Rightarrow> int \<Rightarrow> int \<Rightarrow> int \<Rightarrow> int \<Rightarrow> lua_State \<Rightarrow> lua_State vres" where
  "vararg_loop 0 j n ra src S = Inr S"
| "vararg_loop (Suc k) j n ra src S =
     rbind (if j < n then setobjs2s (ra + j) (src + j) S else set_stk (ra + j) Nil S) (vararg_loop k (j + 1) n ra src)"

definition op_vararg :: "Proto \<Rightarrow> int \<Rightarrow> Instruction \<Rightarrow> lua_State \<Rightarrow> lua_State vres" where
  "op_vararg p pc i S =
     rbind (get_ci S (l_ci S)) (\<lambda>ci.
     let b = GETARG_B i - 1; n = ci_base ci - ci_func ci - uint (f_numparams p) - 1 in
     rbind (if b = LUA_MULTRET then
              rmap (\<lambda>S. (n, S\<lparr>l_top := RA S i + n\<rparr>)) (luaD_checkstack n (Protect pc S))
            else Inr (b, S)) (\<lambda>(b, S).
     vararg_loop (nat b) 0 n (RA S i) (ci_base ci - n) S))"

subsection \<open>The main loop\<close>

text \<open>Words whose opcode does not exist are skipped: the switch has no default.\<close>

definition go_on :: "int \<Rightarrow> lua_State vres \<Rightarrow> (vm_next \<times> lua_State) vres" where
  "go_on pc r = rmap (\<lambda>S. (Continue pc, S)) r"

definition exec_op :: "vm_env \<Rightarrow> caller \<Rightarrow> int \<Rightarrow> nat \<Rightarrow> Proto \<Rightarrow> nat option list \<Rightarrow> int \<Rightarrow> Instruction \<Rightarrow> lua_State \<Rightarrow>
    (vm_next \<times> lua_State) vres" where
  "exec_op E call nexeccalls env p us pc i S = (case opcode_of (GET_OPCODE i) of
     None \<Rightarrow> Inr (Continue pc, S)
   | Some opn \<Rightarrow> (case opn of
       OP_MOVE \<Rightarrow> go_on pc (op_move i S)
     | OP_LOADK \<Rightarrow> go_on pc (op_loadk p i S)
     | OP_LOADBOOL \<Rightarrow> op_loadbool pc i S
     | OP_LOADNIL \<Rightarrow> go_on pc (op_loadnil i S)
     | OP_GETUPVAL \<Rightarrow> go_on pc (op_getupval us i S)
     | OP_GETGLOBAL \<Rightarrow> go_on pc (op_getglobal E call env p pc i S)
     | OP_GETTABLE \<Rightarrow> go_on pc (op_gettable E call p pc i S)
     | OP_SETGLOBAL \<Rightarrow> go_on pc (op_setglobal E call env p pc i S)
     | OP_SETUPVAL \<Rightarrow> go_on pc (op_setupval us i S)
     | OP_SETTABLE \<Rightarrow> go_on pc (op_settable E call p pc i S)
     | OP_NEWTABLE \<Rightarrow> go_on pc (op_newtable E call pc i S)
     | OP_SELF \<Rightarrow> go_on pc (op_self E call p pc i S)
     | OP_ADD \<Rightarrow> go_on pc (op_arith E call p pc TM_ADD i S)
     | OP_SUB \<Rightarrow> go_on pc (op_arith E call p pc TM_SUB i S)
     | OP_MUL \<Rightarrow> go_on pc (op_arith E call p pc TM_MUL i S)
     | OP_DIV \<Rightarrow> go_on pc (op_arith E call p pc TM_DIV i S)
     | OP_MOD \<Rightarrow> go_on pc (op_arith E call p pc TM_MOD i S)
     | OP_POW \<Rightarrow> go_on pc (op_arith E call p pc TM_POW i S)
     | OP_UNM \<Rightarrow> go_on pc (op_unm E call pc i S)
     | OP_NOT \<Rightarrow> go_on pc (op_not i S)
     | OP_LEN \<Rightarrow> go_on pc (op_len E call pc i S)
     | OP_CONCAT \<Rightarrow> go_on pc (op_concat E call pc i S)
     | OP_JMP \<Rightarrow> Inr (Continue (pc + GETARG_sBx i), S)
     | OP_EQ \<Rightarrow> op_eq call p pc i S
     | OP_LT \<Rightarrow> op_lt E call p pc i S
     | OP_LE \<Rightarrow> op_le E call p pc i S
     | OP_TEST \<Rightarrow> op_test p pc i S
     | OP_TESTSET \<Rightarrow> op_testset p pc i S
     | OP_CALL \<Rightarrow> op_call E call nexeccalls pc i S
     | OP_TAILCALL \<Rightarrow> op_tailcall E call nexeccalls pc i S
     | OP_RETURN \<Rightarrow> op_return E call nexeccalls pc i S
     | OP_FORLOOP \<Rightarrow> op_forloop pc i S
     | OP_FORPREP \<Rightarrow> op_forprep E call pc i S
     | OP_TFORLOOP \<Rightarrow> op_tforloop call p pc i S
     | OP_SETLIST \<Rightarrow> op_setlist E p pc i S
     | OP_CLOSE \<Rightarrow> go_on pc (luaF_close (RA S i) S)
     | OP_CLOSURE \<Rightarrow> op_closure E call env p us pc i S
     | OP_VARARG \<Rightarrow> go_on pc (op_vararg p pc i S)))"

text \<open>The count hook and the line hook; \<open>pc\<close> is already behind the instruction.\<close>

definition traceexec :: "vm_env \<Rightarrow> caller \<Rightarrow> int \<Rightarrow> lua_State \<Rightarrow> lua_State vres" where
  "traceexec E call pc S =
     (let mline = hooked S LUA_MASKLINE; oldpc = l_savedpc S; S = S\<lparr>l_savedpc := pc\<rparr> in
      rbind (if hooked S LUA_MASKCOUNT \<and> l_hookcount S = 0 then
               luaD_callhook E call LUA_HOOKCOUNT (- 1) (S\<lparr>l_hookcount := l_basehookcount S\<rparr>)
             else Inr S) (\<lambda>S.
      if mline then
        rbind (ci_proto S (l_ci S)) (\<lambda>p.
        rbind (getline p (pc - 1)) (\<lambda>newline.
        rbind (if pc - 1 = 0 \<or> pc \<le> oldpc then Inr True
               else rmap (\<lambda>l. newline \<noteq> l) (getline p (oldpc - 1))) (\<lambda>b.
        if b then luaD_callhook E call LUA_HOOKLINE newline S else Inr S)))
      else Inr S))"

text \<open>Whether a hook yielded.\<close>

definition trace :: "vm_env \<Rightarrow> caller \<Rightarrow> int \<Rightarrow> lua_State \<Rightarrow> (bool \<times> lua_State) vres" where
  "trace E call pc S =
     (if hooked S (LUA_MASKLINE OR LUA_MASKCOUNT) then
        let S = S\<lparr>l_hookcount := l_hookcount S - 1\<rparr> in
        if l_hookcount S = 0 \<or> hooked S LUA_MASKLINE then
          rmap (\<lambda>S. (l_status S = LUA_YIELD, S)) (traceexec E call pc S)
        else Inr (False, S)
      else Inr (False, S))"

definition assert_frame :: "lua_State \<Rightarrow> Instruction \<Rightarrow> unit vres" where
  "assert_frame S i =
     rbind (get_ci S (l_ci S)) (\<lambda>c.
     vassert (l_base S = ci_base c \<and> l_base S \<le> l_top S \<and> l_top S \<le> l_stacksize S \<and>
              (l_top S = ci_top c \<or> luaG_checkopenop i)))"

definition lua_closure :: "lua_State \<Rightarrow> nat \<Rightarrow> (nat \<times> Proto \<times> nat option list) vres" where
  "lua_closure S cl = rbind (get_closure S cl) (\<lambda>c. case c of
     LClosure e p us \<Rightarrow> Inr (e, p, us) | CClosure e f us \<Rightarrow> undef ''Lua closure'')"

text \<open>The places of the C function: its entry, with \<open>nexeccalls\<close>, and the head of the loop, with its locals.\<close>

datatype vm_loc = Entry int | Loop nat int int

definition enter :: "int \<Rightarrow> lua_State \<Rightarrow> (vm_loc option \<times> lua_State) vres" where
  "enter nexeccalls S =
     rbind (get_ci S (l_ci S)) (\<lambda>c.
     rbind (isLua S c) (\<lambda>b.
     rbind (vassert b) (\<lambda>_.
     rbind (stk S (ci_func c)) (\<lambda>v. case v of
       Function cl \<Rightarrow> Inr (Some (Loop cl nexeccalls (l_savedpc S)), S)
     | _ \<Rightarrow> undef ''clvalue''))))"

definition step_loop :: "vm_env \<Rightarrow> caller \<Rightarrow> nat \<Rightarrow> int \<Rightarrow> int \<Rightarrow> lua_State \<Rightarrow> (vm_loc option \<times> lua_State) vres" where
  "step_loop E call cl nexeccalls pc S =
     rbind (lua_closure S cl) (\<lambda>(_, p, _).
     rbind (ub (code_at p pc)) (\<lambda>i.
     let pc = pc + 1 in
     rbind (trace E call pc S) (\<lambda>(yielded, S).
     if yielded then Inr (None, S\<lparr>l_savedpc := pc - 1\<rparr>)
     else
       rbind (assert_frame S i) (\<lambda>_.
       rbind (lua_closure S cl) (\<lambda>(env, p, us).
       rmap (\<lambda>(r, S). (case r of
           Continue pc \<Rightarrow> Some (Loop cl nexeccalls pc)
         | Reentry n \<Rightarrow> Some (Entry n)
         | Leave \<Rightarrow> None, S)) (exec_op E call nexeccalls env p us pc i S))))))"

definition vm_step :: "vm_env \<Rightarrow> caller \<Rightarrow> vm_loc \<Rightarrow> lua_State \<Rightarrow> (vm_loc option \<times> lua_State) vres" where
  "vm_step E call loc S = (case loc of
     Entry n \<Rightarrow> enter n S
   | Loop cl n pc \<Rightarrow> step_loop E call cl n pc S)"

primrec vm_run :: "vm_env \<Rightarrow> caller \<Rightarrow> nat \<Rightarrow> vm_loc \<Rightarrow> lua_State \<Rightarrow> lua_State vres" where
  "vm_run E call 0 loc S = Inl Diverge"
| "vm_run E call (Suc n) loc S =
     rbind (vm_step E call loc S) (\<lambda>(l, S). case l of None \<Rightarrow> Inr S | Some loc \<Rightarrow> vm_run E call n loc S)"

definition luaV_execute :: "vm_env \<Rightarrow> caller \<Rightarrow> nat \<Rightarrow> int \<Rightarrow> lua_State \<Rightarrow> lua_State vres" where
  "luaV_execute E call fuel nexeccalls S = vm_run E call fuel (Entry nexeccalls) S"

text \<open>\<open>fuel\<close> bounds the depth of nested calls of C, and the instructions that each of them runs.\<close>

primrec luaD_call :: "vm_env \<Rightarrow> nat \<Rightarrow> caller" where
  "luaD_call E 0 func nResults S = Inl Diverge"
| "luaD_call E (Suc n) func nResults S =
     call_body E (luaD_call E n) (luaV_execute E (luaD_call E n) n 1) func nResults S"

end
