(* ===== verification/VMSafe.thy ===== *)
theory VMSafe
  imports VMExec CodeSafe
begin

text \<open>
  The interpreter over code that the loader accepted: each instruction goes on at a position that the check of
  \<open>CodeCheck\<close> foresaw, and none of them, nor a call, a hook or a metamethod, changes the code of the closure that runs.
\<close>

subsection \<open>Where each instruction goes on\<close>








subsection \<open>The closure that runs is kept\<close>

definition has_code :: "nat \<Rightarrow> Proto \<Rightarrow> lua_State \<Rightarrow> bool" where
  "has_code cl p S \<longleftrightarrow> cl < g_alloc S \<and> (\<exists>e us. g_closures S cl = Some (LClosure e p us))"

definition caller_keeps :: "nat \<Rightarrow> Proto \<Rightarrow> caller \<Rightarrow> bool" where
  "caller_keeps cl p call \<longleftrightarrow> (\<forall>func n S S'. call func n S = Inr S' \<longrightarrow> has_code cl p S \<longrightarrow> has_code cl p S')"

text \<open>C functions, hooks and the collector do not free or change the closure, if what they call does not.\<close>

definition env_keeps :: "nat \<Rightarrow> Proto \<Rightarrow> vm_env \<Rightarrow> bool" where
  "env_keeps cl p E \<longleftrightarrow> (\<forall>call. caller_keeps cl p call \<longrightarrow>
     (\<forall>f S n S'. v_cfunction E call f S = Inr (n, S') \<longrightarrow> has_code cl p S \<longrightarrow> has_code cl p S') \<and>
     (\<forall>h e l i S S'. v_hook E call h e l i S = Inr S' \<longrightarrow> has_code cl p S \<longrightarrow> has_code cl p S') \<and>
     (\<forall>S S'. v_checkGC E call S = Inr S' \<longrightarrow> has_code cl p S \<longrightarrow> has_code cl p S'))"

named_theorems keeps \<open>a step keeps the closure\<close>

lemma has_code_updates [simp]:
  "has_code cl p (S\<lparr>l_top := a\<rparr>) = has_code cl p S" "has_code cl p (S\<lparr>l_base := a\<rparr>) = has_code cl p S"
  "has_code cl p (S\<lparr>l_ci := a\<rparr>) = has_code cl p S" "has_code cl p (S\<lparr>l_savedpc := a\<rparr>) = has_code cl p S"
  "has_code cl p (S\<lparr>l_stack := st\<rparr>) = has_code cl p S" "has_code cl p (S\<lparr>l_stack_last := a\<rparr>) = has_code cl p S"
  "has_code cl p (S\<lparr>l_base_ci := cs\<rparr>) = has_code cl p S" "has_code cl p (S\<lparr>l_allowhook := b\<rparr>) = has_code cl p S"
  "has_code cl p (S\<lparr>l_hookcount := a\<rparr>) = has_code cl p S" "has_code cl p (S\<lparr>l_openupval := us\<rparr>) = has_code cl p S"
  "has_code cl p (S\<lparr>g_upvals := uv\<rparr>) = has_code cl p S" "has_code cl p (S\<lparr>g_tables := ts\<rparr>) = has_code cl p S"
  "has_code cl p (S\<lparr>l_nCcalls := a\<rparr>) = has_code cl p S" "has_code cl p (Protect a S) = has_code cl p S"
  "has_code cl p (put_table h t S) = has_code cl p S" "has_code cl p (luaD_reallocCI a S) = has_code cl p S"
  by (simp_all add: has_code_def Protect_def put_table_def luaD_reallocCI_def)

lemma has_code_alloc [simp]: "has_code cl p S \<Longrightarrow> has_code cl p (S\<lparr>g_alloc := g_alloc S + 1\<rparr>)"
  by (auto simp: has_code_def)

lemma close_loop_keeps: "close_loop l us S = Inr S' \<Longrightarrow> has_code cl p S \<Longrightarrow> has_code cl p S'"
  by (induction l us S rule: close_loop.induct) (auto split: option.splits UpVal.splits if_splits)

lemma keeps_stack [keeps]:
  "set_stk i v S = Inr S' \<Longrightarrow> has_code cl p S \<Longrightarrow> has_code cl p S'"
  "setobjs2s i j S = Inr S' \<Longrightarrow> has_code cl p S \<Longrightarrow> has_code cl p S'"
  "upd_ci i f S = Inr S' \<Longrightarrow> has_code cl p S \<Longrightarrow> has_code cl p S'"
  "luaD_checkstack n S = Inr S' \<Longrightarrow> has_code cl p S \<Longrightarrow> has_code cl p S'"
  "incr_top S = Inr S' \<Longrightarrow> has_code cl p S \<Longrightarrow> has_code cl p S'"
  "push v S = Inr S' \<Longrightarrow> has_code cl p S \<Longrightarrow> has_code cl p S'"
  "uv_set u v S = Inr S' \<Longrightarrow> has_code cl p S \<Longrightarrow> has_code cl p S'"
  "luaF_close l S = Inr S' \<Longrightarrow> has_code cl p S \<Longrightarrow> has_code cl p S'"
  by (auto simp: set_stk_def setobjs2s_def upd_ci_def luaD_checkstack_def luaD_growstack_def luaD_reallocstack_def
      push_def incr_top_def uv_set_def luaF_close_def rmap_Inr_iff Let_def
      dest: close_loop_keeps split: if_splits option.splits UpVal.splits)

lemma keeps_alloc [keeps]:
  "luaF_findupval l S = Inr (r, S') \<Longrightarrow> has_code cl p S \<Longrightarrow> has_code cl p S'"
  "new_table a b S = Inr (h, S') \<Longrightarrow> has_code cl p S \<Longrightarrow> has_code cl p S'"
  "luaT_gettm h e S = Inr (tm, S') \<Longrightarrow> has_code cl p S \<Longrightarrow> has_code cl p S'"
  "fasttm mt e S = Inr (tm, S') \<Longrightarrow> has_code cl p S \<Longrightarrow> has_code cl p S'"
  by (auto simp: luaF_findupval_def new_table_def fasttm_def luaT_gettm_def rmap_Inr_iff has_code_def put_table_def
      split: if_splits option.splits)

lemma set_nils_keeps [keeps]: "set_nils n i S = Inr S' \<Longrightarrow> has_code cl p S \<Longrightarrow> has_code cl p S'"
  by (induction n arbitrary: i S) (auto dest: keeps)

lemma move_fixed_keeps [keeps]: "move_fixed n i S = Inr S' \<Longrightarrow> has_code cl p S \<Longrightarrow> has_code cl p S'"
  by (induction n arbitrary: i S) (auto dest!: keeps)

lemma open_hole_keeps [keeps]: "open_hole n i S = Inr S' \<Longrightarrow> has_code cl p S \<Longrightarrow> has_code cl p S'"
  by (induction n arbitrary: i S) (auto dest!: keeps)

lemma move_results_keeps [keeps]:
  "move_results i r f t S = Inr (j, q, S') \<Longrightarrow> has_code cl p S \<Longrightarrow> has_code cl p S'"
proof (induction i r f t S rule: move_results.induct)
  case (1 i r f t S)
  show ?case
  proof (cases "i \<noteq> 0 \<and> f < t")
    case True
    with "1.prems"(1) obtain S1 where "setobjs2s r f S = Inr S1" "move_results (i - 1) (r + 1) (f + 1) t S1 = Inr (j, q, S')"
      by (auto simp: move_results.simps [of i])
    with True 1 show ?thesis by (auto dest!: keeps)
  next
    case False
    with 1 show ?thesis by (auto simp: move_results.simps [of i])
  qed
qed

locale keeper =
  fixes E :: vm_env and call :: caller and cl :: nat and p :: Proto
  assumes env: "env_keeps cl p E" and call: "caller_keeps cl p call"
begin

lemma call_keeps [keeps]: "call func n S = Inr S' \<Longrightarrow> has_code cl p S \<Longrightarrow> has_code cl p S'"
  using call by (simp add: caller_keeps_def)

lemma env_keeps_steps [keeps]:
  "v_cfunction E call f S = Inr (m, S') \<Longrightarrow> has_code cl p S \<Longrightarrow> has_code cl p S'"
  "v_hook E call h e l i S = Inr S' \<Longrightarrow> has_code cl p S \<Longrightarrow> has_code cl p S'"
  "v_checkGC E call S = Inr S' \<Longrightarrow> has_code cl p S \<Longrightarrow> has_code cl p S'"
  using env [unfolded env_keeps_def, rule_format, OF call] by blast+

lemma callhook_keeps [keeps]:
  "luaD_callhook E call e l S = Inr S' \<Longrightarrow> has_code cl p S \<Longrightarrow> has_code cl p S'"
  by (auto simp: luaD_callhook_def Let_def rmap_Inr_iff dest!: keeps split: option.splits if_splits)

lemma args_keeps [keeps]:
  "inc_ci E call S = Inr S' \<Longrightarrow> has_code cl p S \<Longrightarrow> has_code cl p S'"
  "push_nils n S = Inr S' \<Longrightarrow> has_code cl p S \<Longrightarrow> has_code cl p S'"
  "arg_table E call n S = Inr (h, S') \<Longrightarrow> has_code cl p S \<Longrightarrow> has_code cl p S'"
  "tryfuncTM E call func S = Inr S' \<Longrightarrow> has_code cl p S \<Longrightarrow> has_code cl p S'"
  by (auto simp: inc_ci_def growCI_def push_nils_def arg_table_def tryfuncTM_def Let_def rmap_Inr_iff dest!: keeps split: if_splits)

lemma adjust_varargs_keeps [keeps]:
  "adjust_varargs E call f n S = Inr (b, S') \<Longrightarrow> has_code cl p S \<Longrightarrow> has_code cl p S'"
  by (auto simp: adjust_varargs_def Let_def rmap_Inr_iff dest!: keeps split: if_splits option.splits)

lemma enter_lua_keeps [keeps]:
  "enter_lua E call f func b n S = Inr S' \<Longrightarrow> has_code cl p S \<Longrightarrow> has_code cl p S'"
  by (auto simp: enter_lua_def Let_def rmap_Inr_iff dest!: keeps split: if_splits)

lemma precall_lua_keeps [keeps]:
  "precall_lua E call f func n S = Inr S' \<Longrightarrow> has_code cl p S \<Longrightarrow> has_code cl p S'"
  by (auto simp: precall_lua_def Let_def dest!: keeps split: if_splits)

lemma rethook_loop_keeps [keeps]:
  "rethook_loop E call n S = Inr S' \<Longrightarrow> has_code cl p S \<Longrightarrow> has_code cl p S'"
  by (induction n arbitrary: S) (auto dest!: keeps split: if_splits)

lemma callrethooks_keeps [keeps]:
  "callrethooks E call S = Inr S' \<Longrightarrow> has_code cl p S \<Longrightarrow> has_code cl p S'"
  by (auto simp: callrethooks_def dest!: keeps split: if_splits)

lemma poscall_keeps [keeps]:
  "luaD_poscall E call r S = Inr (w, S') \<Longrightarrow> has_code cl p S \<Longrightarrow> has_code cl p S'"
  by (auto simp: luaD_poscall_def dest!: keeps split: if_splits)

lemma precall_c_keeps [keeps]:
  "precall_c E call func n S = Inr (r, S') \<Longrightarrow> has_code cl p S \<Longrightarrow> has_code cl p S'"
  by (auto simp: precall_c_def Let_def rmap_Inr_iff dest!: keeps split: if_splits Closure.splits)

lemma precall_keeps [keeps]:
  "luaD_precall E call func n S = Inr (r, S') \<Longrightarrow> has_code cl p S \<Longrightarrow> has_code cl p S'"
  by (auto simp: luaD_precall_def rmap_Inr_iff dest!: keeps split: if_splits Closure.splits)

lemma callTM_keeps [keeps]:
  "push_ptr a i S = Inr S' \<Longrightarrow> has_code cl p S \<Longrightarrow> has_code cl p S'"
  "callTMres call res f a b S = Inr S' \<Longrightarrow> has_code cl p S \<Longrightarrow> has_code cl p S'"
  "callTM call f a b c S = Inr S' \<Longrightarrow> has_code cl p S \<Longrightarrow> has_code cl p S'"
  by (auto simp: push_ptr_def callTMres_def callTM_def dest!: keeps)

lemma binTM_keeps [keeps]:
  "call_binTM call a b res e S = Inr (r, S') \<Longrightarrow> has_code cl p S \<Longrightarrow> has_code cl p S'"
  "callTMbool call tm v w S = Inr (r, S') \<Longrightarrow> has_code cl p S \<Longrightarrow> has_code cl p S'"
  by (auto simp: call_binTM_def callTMbool_def rmap_Inr_iff dest!: keeps split: if_splits)

lemma compTM_keeps [keeps]:
  "get_compTM m1 m2 e S = Inr (tm, S') \<Longrightarrow> has_code cl p S \<Longrightarrow> has_code cl p S'"
  by (auto simp: get_compTM_def dest!: keeps split: if_splits option.splits)

lemma orderTM_keeps [keeps]:
  "call_orderTM call e v w S = Inr (r, S') \<Longrightarrow> has_code cl p S \<Longrightarrow> has_code cl p S'"
  by (auto simp: call_orderTM_def rmap_Inr_iff dest!: keeps split: if_splits)

lemma equal_tm_keeps [keeps]:
  "equal_tm call v w S = Inr (r, S') \<Longrightarrow> has_code cl p S \<Longrightarrow> has_code cl p S'"
  by (auto simp: equal_tm_def rmap_Inr_iff dest!: keeps split: option.splits)

lemma equalobj_keeps [keeps]:
  "equalobj call v w S = Inr (r, S') \<Longrightarrow> has_code cl p S \<Longrightarrow> has_code cl p S'"
  by (auto simp: equalobj_def luaV_equalval_def rmap_Inr_iff dest!: keeps split: if_splits TValue.splits)

lemma ordererror_not_Inr [simp]: "luaG_ordererror E call v w S \<noteq> Inr r"
  by (simp add: luaG_ordererror_def Let_def)

lemma compare_keeps [keeps]:
  "less_than E call v w S = Inr (r, S') \<Longrightarrow> has_code cl p S \<Longrightarrow> has_code cl p S'"
  "less_equal E call v w S = Inr (r, S') \<Longrightarrow> has_code cl p S \<Longrightarrow> has_code cl p S'"
  by (auto simp: less_than_def less_equal_def luaV_lessthan_def lessequal_def Let_def rmap_Inr_iff
      dest!: keeps split: if_splits TValue.splits)

lemma gettable_keeps [keeps]:
  "gettable_loop E call n t k v S = Inr S' \<Longrightarrow> has_code cl p S \<Longrightarrow> has_code cl p S'"
proof (induction n arbitrary: t S)
  case (Suc n)
  from Suc.prems show ?case
    by (auto simp: rmap_Inr_iff split: if_splits TValue.splits option.splits) (auto dest!: keeps Suc.IH)
qed simp

lemma settable_set_keeps [keeps]:
  "settable_set E call h k S = Inr (r, S') \<Longrightarrow> has_code cl p S \<Longrightarrow> has_code cl p S'"
  "write_val h sl v S = Inr S' \<Longrightarrow> has_code cl p S \<Longrightarrow> has_code cl p S'"
  by (auto simp: settable_set_def write_val_def rmap_Inr_iff)

lemma settable_keeps [keeps]:
  "settable_loop E call n t k v S = Inr S' \<Longrightarrow> has_code cl p S \<Longrightarrow> has_code cl p S'"
proof (induction n arbitrary: t S)
  case (Suc n)
  from Suc.prems show ?case
    by (auto simp: rmap_Inr_iff split: if_splits TValue.splits option.splits) (auto dest!: keeps Suc.IH)
qed simp

lemma access_keeps [keeps]:
  "luaV_gettable E call t k i S = Inr S' \<Longrightarrow> has_code cl p S \<Longrightarrow> has_code cl p S'"
  "luaV_settable E call t k v S = Inr S' \<Longrightarrow> has_code cl p S \<Longrightarrow> has_code cl p S'"
  by (auto simp: luaV_gettable_def luaV_settable_def dest!: keeps)

lemma tostring_keeps [keeps]:
  "tostring E i S = Inr (b, S') \<Longrightarrow> has_code cl p S \<Longrightarrow> has_code cl p S'"
  by (auto simp: tostring_def luaV_tostring_def rmap_Inr_iff dest!: keeps split: if_splits TValue.splits)

lemma collect_keeps [keeps]:
  "collect E call k n l t S = Inr (m, S') \<Longrightarrow> has_code cl p S \<Longrightarrow> has_code cl p S'"
  by (induction k arbitrary: n l S) (auto simp: Let_def dest!: keeps split: if_splits)

lemma concaterror_not_Inr [simp]: "luaG_concaterror E call i j S \<noteq> Inr r"
  by (auto simp: luaG_concaterror_def Let_def)

lemma aritherror_not_Inr [simp]: "luaG_aritherror E call i j S \<noteq> Inr r"
  by (auto simp: luaG_aritherror_def)

lemma concat_pass_keeps [keeps]:
  "concat_pass E call m l S = Inr (n, S') \<Longrightarrow> has_code cl p S \<Longrightarrow> has_code cl p S'"
  by (auto simp: concat_pass_def Let_def rmap_Inr_iff split: if_splits) (auto dest!: keeps)

lemma concat_keeps [keeps]:
  "concat_loop E call k m l S = Inr S' \<Longrightarrow> has_code cl p S \<Longrightarrow> has_code cl p S'"
  by (induction k arbitrary: m l S) (auto dest!: keeps split: if_splits)

lemma Arith_keeps [keeps]:
  "Arith E call ra rb rc opn S = Inr S' \<Longrightarrow> has_code cl p S \<Longrightarrow> has_code cl p S'"
  by (auto simp: Arith_def split: option.splits if_splits) (auto dest!: keeps)

text \<open>The instructions.\<close>

lemma setlist_keeps [keeps]:
  "setlist_loop E h n ra l S = Inr S' \<Longrightarrow> has_code cl p S \<Longrightarrow> has_code cl p S'"
  by (induction n arbitrary: l S) auto

lemma setlist_table_keeps [keeps]:
  "setlist_table E h ra n c S = Inr S' \<Longrightarrow> has_code cl p S \<Longrightarrow> has_code cl p S'"
  by (auto simp: setlist_table_def Let_def dest!: keeps split: if_splits)

lemma capture_keeps [keeps]:
  "capture q us n pc S = Inr (r, S') \<Longrightarrow> has_code cl p S \<Longrightarrow> has_code cl p S'"
  by (induction n arbitrary: pc r S) (auto simp: rmap_Inr_iff dest!: keeps split: if_splits)

lemma vararg_loop_keeps [keeps]:
  "vararg_loop k j n ra src S = Inr S' \<Longrightarrow> has_code cl p S \<Longrightarrow> has_code cl p S'"
  by (induction k arbitrary: j S) (auto dest!: keeps split: if_splits)

lemma move_frame_keeps [keeps]:
  "move_frame n a b S = Inr S' \<Longrightarrow> has_code cl p S \<Longrightarrow> has_code cl p S'"
  by (induction n arbitrary: a b S) (auto dest!: keeps)

lemma tail_frame_keeps [keeps]:
  "tail_frame S = Inr S' \<Longrightarrow> has_code cl p S \<Longrightarrow> has_code cl p S'"
  by (auto simp: tail_frame_def Let_def dest!: keeps split: if_splits)

lemma for_number_keeps [keeps]:
  "for_number E call r w S = Inr S' \<Longrightarrow> has_code cl p S \<Longrightarrow> has_code cl p S'"
  by (auto simp: for_number_def dest!: keeps split: TValue.splits option.splits)

lemma plain_keeps [keeps]:
  "op_move i S = Inr S' \<Longrightarrow> has_code cl p S \<Longrightarrow> has_code cl p S'"
  "op_loadk q i S = Inr S' \<Longrightarrow> has_code cl p S \<Longrightarrow> has_code cl p S'"
  "op_loadnil i S = Inr S' \<Longrightarrow> has_code cl p S \<Longrightarrow> has_code cl p S'"
  "op_getupval us i S = Inr S' \<Longrightarrow> has_code cl p S \<Longrightarrow> has_code cl p S'"
  "op_setupval us i S = Inr S' \<Longrightarrow> has_code cl p S \<Longrightarrow> has_code cl p S'"
  "op_not i S = Inr S' \<Longrightarrow> has_code cl p S \<Longrightarrow> has_code cl p S'"
  "op_vararg q pc i S = Inr S' \<Longrightarrow> has_code cl p S \<Longrightarrow> has_code cl p S'"
  by (auto simp: op_move_def op_loadk_def op_loadnil_def op_getupval_def op_setupval_def op_not_def op_vararg_def
      Let_def rmap_Inr_iff dest!: keeps split: if_splits)

lemma table_ops_keep [keeps]:
  "op_getglobal E call e q pc i S = Inr S' \<Longrightarrow> has_code cl p S \<Longrightarrow> has_code cl p S'"
  "op_setglobal E call e q pc i S = Inr S' \<Longrightarrow> has_code cl p S \<Longrightarrow> has_code cl p S'"
  "op_gettable E call q pc i S = Inr S' \<Longrightarrow> has_code cl p S \<Longrightarrow> has_code cl p S'"
  "op_settable E call q pc i S = Inr S' \<Longrightarrow> has_code cl p S \<Longrightarrow> has_code cl p S'"
  "op_newtable E call pc i S = Inr S' \<Longrightarrow> has_code cl p S \<Longrightarrow> has_code cl p S'"
  "op_self E call q pc i S = Inr S' \<Longrightarrow> has_code cl p S \<Longrightarrow> has_code cl p S'"
  by (auto simp: op_getglobal_def op_setglobal_def op_gettable_def op_settable_def op_newtable_def op_self_def dest!: keeps)

lemma operator_keeps [keeps]:
  "op_arith E call q pc opn i S = Inr S' \<Longrightarrow> has_code cl p S \<Longrightarrow> has_code cl p S'"
  "op_unm E call pc i S = Inr S' \<Longrightarrow> has_code cl p S \<Longrightarrow> has_code cl p S'"
  "op_len E call pc i S = Inr S' \<Longrightarrow> has_code cl p S \<Longrightarrow> has_code cl p S'"
  "op_concat E call pc i S = Inr S' \<Longrightarrow> has_code cl p S \<Longrightarrow> has_code cl p S'"
  by (auto simp: op_arith_def op_unm_def op_len_def op_concat_def luaV_concat_def Let_def rmap_Inr_iff
      dest!: keeps split: TValue.splits if_splits)

lemma test_keeps [keeps]:
  "op_eq call q pc i S = Inr (r, S') \<Longrightarrow> has_code cl p S \<Longrightarrow> has_code cl p S'"
  "op_lt E call q pc i S = Inr (r, S') \<Longrightarrow> has_code cl p S \<Longrightarrow> has_code cl p S'"
  "op_le E call q pc i S = Inr (r, S') \<Longrightarrow> has_code cl p S \<Longrightarrow> has_code cl p S'"
  "op_test q pc i S = Inr (r, S') \<Longrightarrow> has_code cl p S \<Longrightarrow> has_code cl p S'"
  "op_testset q pc i S = Inr (r, S') \<Longrightarrow> has_code cl p S \<Longrightarrow> has_code cl p S'"
  by (auto simp: op_eq_def op_lt_def op_le_def op_compare_def op_test_def op_testset_def Let_def rmap_Inr_iff
      dest!: keeps split: if_splits)

lemma loop_keeps [keeps]:
  "op_loadbool pc i S = Inr (r, S') \<Longrightarrow> has_code cl p S \<Longrightarrow> has_code cl p S'"
  "op_forloop pc i S = Inr (r, S') \<Longrightarrow> has_code cl p S \<Longrightarrow> has_code cl p S'"
  "op_forprep E call pc i S = Inr (r, S') \<Longrightarrow> has_code cl p S \<Longrightarrow> has_code cl p S'"
  "op_tforloop call q pc i S = Inr (r, S') \<Longrightarrow> has_code cl p S \<Longrightarrow> has_code cl p S'"
  "op_setlist E q pc i S = Inr (r, S') \<Longrightarrow> has_code cl p S \<Longrightarrow> has_code cl p S'"
  by (auto simp: op_loadbool_def op_forloop_def op_forprep_def op_tforloop_def op_setlist_def Let_def rmap_Inr_iff
      dest!: keeps split: if_splits TValue.splits)

lemma call_ops_keep [keeps]:
  "op_call E call n pc i S = Inr (r, S') \<Longrightarrow> has_code cl p S \<Longrightarrow> has_code cl p S'"
  "op_tailcall E call n pc i S = Inr (r, S') \<Longrightarrow> has_code cl p S \<Longrightarrow> has_code cl p S'"
  "op_return E call n pc i S = Inr (r, S') \<Longrightarrow> has_code cl p S \<Longrightarrow> has_code cl p S'"
  by (auto simp: op_call_def op_tailcall_def op_return_def set_top_ci_def Let_def rmap_Inr_iff
      dest!: keeps split: if_splits pcr.splits)

lemma closure_keeps [keeps]:
  assumes "op_closure E call env q us pc i S = Inr (r, S')" "has_code cl p S"
  shows "has_code cl p S'"
proof -
  from assms(1) obtain np us' S1 S2 S3 where
    1: "capture q us (nat (uint (f_nups np))) pc (snd (luaF_newLclosure np (nat (uint (f_nups np))) env S)) = Inr (us', S1)"
    and 2: "set_stk (RA S1 i) (Function (g_alloc S)) (S1\<lparr>g_closures := (g_closures S1)(g_alloc S \<mapsto> LClosure env np us')\<rparr>) = Inr S2"
    and 3: "v_checkGC E call (Protect (pc + uint (f_nups np)) S2) = Inr S'"
    by (auto simp: op_closure_def luaF_newLclosure_def Let_def rmap_Inr_iff simp del: aget_Inr)
  have "has_code cl p (snd (luaF_newLclosure np (nat (uint (f_nups np))) env S))"
    using assms(2) by (auto simp: has_code_def luaF_newLclosure_def)
  with 1 have "has_code cl p S1" by (auto dest: keeps)
  then have "has_code cl p (S1\<lparr>g_closures := (g_closures S1)(g_alloc S \<mapsto> LClosure env np us')\<rparr>)"
    using assms(2) by (auto simp: has_code_def)
  from keeps_stack(1) [OF 2 this] have "has_code cl p (Protect (pc + uint (f_nups np)) S2)" by simp
  with 3 show ?thesis by (rule env_keeps_steps(3))
qed

lemma exec_op_keeps [keeps]:
  assumes "exec_op E call n env q us pc i S = Inr (r, S')" "has_code cl p S"
  shows "has_code cl p S'"
  using assms unfolding exec_op_def
  by (cases "opcode_of (GET_OPCODE i)"; cases "the (opcode_of (GET_OPCODE i))")
    (auto simp: go_on_def rmap_Inr_iff dest: keeps)

lemma trace_keeps [keeps]:
  "traceexec E call pc S = Inr S' \<Longrightarrow> has_code cl p S \<Longrightarrow> has_code cl p S'"
  "trace E call pc S = Inr (b, S') \<Longrightarrow> has_code cl p S \<Longrightarrow> has_code cl p S'"
proof -
  show t: "traceexec E call pc S = Inr S' \<Longrightarrow> has_code cl p S \<Longrightarrow> has_code cl p S'" for S S'
    by (auto simp: traceexec_def Let_def rmap_Inr_iff split: if_splits) (auto dest!: keeps)
  show "trace E call pc S = Inr (b, S') \<Longrightarrow> has_code cl p S \<Longrightarrow> has_code cl p S'"
    by (auto simp: trace_def Let_def rmap_Inr_iff split: if_splits) (auto dest!: t)
qed

lemma vm_step_keeps [keeps]:
  "vm_step E call loc S = Inr (r, S') \<Longrightarrow> has_code cl p S \<Longrightarrow> has_code cl p S'"
  by (auto simp: vm_step_def enter_def step_loop_def Let_def rmap_Inr_iff dest!: keeps
     split: vm_loc.splits TValue.splits if_splits)

lemma vm_run_keeps [keeps]:
  "vm_run E call n loc S = Inr S' \<Longrightarrow> has_code cl p S \<Longrightarrow> has_code cl p S'"
  by (induction n arbitrary: loc S) (auto dest!: keeps split: option.splits)

lemma call_body_keeps [keeps]:
  assumes "call_body E call (luaV_execute E call k m) func n S = Inr S'" "has_code cl p S"
  shows "has_code cl p S'"
  using assms by (auto simp: call_body_def luaV_execute_def Let_def dest!: keeps split: if_splits)

end

lemma luaD_call_keeps:
  assumes "env_keeps cl p E"
  shows "caller_keeps cl p (luaD_call E n)"
proof (induction n)
  case (Suc n)
  with assms have "keeper E (luaD_call E n) cl p" by unfold_locales
  from keeper.call_body_keeps [OF this] show ?case by (auto simp: caller_keeps_def)
qed (simp add: caller_keeps_def)

subsection \<open>One activation\<close>









lemma sample_env_keeps: "env_keeps cl p sample_env"
  by (simp add: env_keeps_def sample_env_def)


interpretation sample: keeper sample_env "luaD_call sample_env n" cl p for n cl p
  by unfold_locales (simp_all add: sample_env_keeps luaD_call_keeps)


end
