(* ===== verification/StateProps.thy ===== *)
theory StateProps
  imports State
begin

text \<open>
  The invariant of open upvalues (\<open>lua/lfunc.c\<close>): one for every captured slot, in a list that is sorted by
  the slots, and what finding and closing them keeps.
\<close>

fun open_sorted :: "(nat \<Rightarrow> UpVal option) \<Rightarrow> nat list \<Rightarrow> int \<Rightarrow> bool" where
  "open_sorted us [] b = True"
| "open_sorted us (u # ps) b = (case us u of
     Some (Open v) \<Rightarrow> 0 \<le> v \<and> v < b \<and> open_sorted us ps v | _ \<Rightarrow> False)"

definition upvals_ok :: "lua_State \<Rightarrow> bool" where
  "upvals_ok S \<longleftrightarrow> open_sorted (g_upvals S) (l_openupval S) (l_stacksize S) \<and>
     (\<forall>u v. g_upvals S u = Some (Open v) \<longrightarrow> u \<in> set (l_openupval S)) \<and>
     (\<forall>u. g_upvals S u \<noteq> None \<longrightarrow> u < g_alloc S)"

lemma open_sorted_mono: "open_sorted us l b \<Longrightarrow> b \<le> c \<Longrightarrow> open_sorted us l c"
  by (cases l) (auto split: option.splits UpVal.splits)

lemma open_sorted_mem:
  "open_sorted us l b \<Longrightarrow> u \<in> set l \<Longrightarrow> \<exists>v. us u = Some (Open v) \<and> 0 \<le> v \<and> v < b"
  by (induction us l b rule: open_sorted.induct) (fastforce split: option.splits UpVal.splits)+

lemma open_sorted_distinct: "open_sorted us l b \<Longrightarrow> distinct l"
  by (induction us l b rule: open_sorted.induct)
    (auto split: option.splits UpVal.splits dest: open_sorted_mem)

lemma open_sorted_upd: "u \<notin> set l \<Longrightarrow> open_sorted (us(u := x)) l b = open_sorted us l b"
  by (induction us l b rule: open_sorted.induct) (auto split: option.splits UpVal.splits)

text \<open>Two upvalues in the list never share a slot.\<close>

lemma open_sorted_inj:
  "open_sorted us l b \<Longrightarrow> u \<in> set l \<Longrightarrow> w \<in> set l \<Longrightarrow> us u = us w \<Longrightarrow> u = w"
proof (induction us l b rule: open_sorted.induct)
  case (2 us p ps b)
  then obtain v where v: "us p = Some (Open v)" "open_sorted us ps v" by (auto split: option.splits UpVal.splits)
  have "us x \<noteq> us p" if "x \<in> set ps" for x using open_sorted_mem [OF v(2) that] v(1) by auto
  then have "us x \<noteq> us p \<and> us p \<noteq> us x" if "x \<in> set ps" for x using that by metis
  with 2 v show ?case by auto
qed simp

lemma find_open_spec:
  assumes "open_sorted us l b" "0 \<le> level" "level < b" "new \<notin> set l"
  shows "\<exists>u l'. find_open us level new l = Inr (u, l') \<and> open_sorted (us(u \<mapsto> Open level)) l' b \<and>
    (u \<in> set l \<and> us u = Some (Open level) \<and> l' = l \<or>
     u = new \<and> (\<forall>w\<in>set l. us w \<noteq> Some (Open level)) \<and> set l' = insert new (set l))"
  using assms
proof (induction us l b rule: open_sorted.induct)
  case (2 us p ps b)
  then obtain v where v: "us p = Some (Open v)" "open_sorted us ps v" "0 \<le> v" "v < b"
    by (auto split: option.splits UpVal.splits)
  consider "v = level" | "v > level" | "v < level" by linarith
  then show ?case
  proof cases
    case 1
    then have "us(p \<mapsto> Open level) = us" using v by auto
    with 1 2 v show ?thesis by (intro exI [of _ p] exI [of _ "p # ps"]) simp
  next
    case 2
    have "new \<notin> set ps" using "2.prems"(4) by simp
    from "2.IH" [OF v(1) refl v(2) "2.prems"(2) 2 this] obtain u l' where
      u: "find_open us level new ps = Inr (u, l')" "open_sorted (us(u \<mapsto> Open level)) l' v"
        "u \<in> set ps \<and> us u = Some (Open level) \<and> l' = ps \<or>
         u = new \<and> (\<forall>w\<in>set ps. us w \<noteq> Some (Open level)) \<and> set l' = insert new (set ps)" by blast
    have up: "u \<noteq> p" using u(3) v 2 "2.prems"(4) by auto
    have "find_open us level new (p # ps) = Inr (u, p # l')" using u(1) v 2 by simp
    moreover have "open_sorted (us(u \<mapsto> Open level)) (p # l') b"
    proof -
      define us' where "us' = us(u \<mapsto> Open level)"
      have "us' p = Some (Open v)" using v(1) up by (simp add: us'_def)
      with u(2) v show ?thesis unfolding us'_def [symmetric] by simp
    qed
    moreover have "u \<in> set (p # ps) \<and> us u = Some (Open level) \<and> p # l' = p # ps \<or>
      u = new \<and> (\<forall>w\<in>set (p # ps). us w \<noteq> Some (Open level)) \<and> set (p # l') = insert new (set (p # ps))"
      using u(3) v(1) 2 by auto
    ultimately show ?thesis by blast
  next
    case 3
    then have "\<forall>w\<in>set (p # ps). us w \<noteq> Some (Open level)" using v open_sorted_mem [OF v(2)] by fastforce
    moreover have "new \<noteq> p" "new \<notin> set ps" using "2.prems"(4) by auto
    moreover have "open_sorted (us(new \<mapsto> Open level)) ps v" using calculation(3) v(2) by (simp add: open_sorted_upd del: fun_upd_apply)
    then have "open_sorted (us(new \<mapsto> Open level)) (new # p # ps) b"
    proof -
      define us' where "us' = us(new \<mapsto> Open level)"
      assume o: "open_sorted (us(new \<mapsto> Open level)) ps v"
      have "us' p = Some (Open v)" "us' new = Some (Open level)" using v(1) \<open>new \<noteq> p\<close> by (simp_all add: us'_def)
      with o v 3 "2.prems" show ?thesis unfolding us'_def [symmetric] by simp
    qed
    moreover have "find_open us level new (p # ps) = Inr (new, new # p # ps)" using 3 v by simp
    ultimately show ?thesis by (intro exI [of _ new] exI [of _ "new # p # ps"]) (simp only: set_simps, blast)
  qed
qed auto


text \<open>
  C32. \<open>luaF_findupval\<close> gives the one open upvalue of a slot, making it when there is none: closures that
  capture the same variable share it.
\<close>

theorem findupval_shares:
  assumes "upvals_ok S" "0 \<le> level" "level < l_stacksize S"
  shows "\<exists>u S'. luaF_findupval level S = Inr (u, S') \<and> upvals_ok S' \<and> g_upvals S' u = Some (Open level) \<and>
    luaF_findupval level S' = Inr (u, S') \<and>
    (\<forall>w. g_upvals S w \<noteq> None \<longrightarrow> g_upvals S' w = g_upvals S w) \<and> l_stack S' = l_stack S"
proof -
  let ?l = "l_openupval S" and ?us = "g_upvals S" and ?n = "g_alloc S"
  have ok: "open_sorted ?us ?l (l_stacksize S)" "\<And>u. ?us u \<noteq> None \<Longrightarrow> u < ?n" "?us ?n = None"
    "\<And>u v. ?us u = Some (Open v) \<Longrightarrow> u \<in> set ?l"
    using assms(1) unfolding upvals_ok_def by auto
  have new: "?n \<notin> set ?l" using open_sorted_mem [OF ok(1), of ?n] ok(3) by auto
  from find_open_spec [OF ok(1) assms(2,3) new] obtain u l' where
    f: "find_open ?us level ?n ?l = Inr (u, l')" "open_sorted (?us(u \<mapsto> Open level)) l' (l_stacksize S)"
      "u \<in> set ?l \<and> ?us u = Some (Open level) \<and> l' = ?l \<or>
       u = ?n \<and> (\<forall>w\<in>set ?l. ?us w \<noteq> Some (Open level)) \<and> set l' = insert ?n (set ?l)" by blast
  from f(3) show ?thesis
  proof
    assume old: "u \<in> set ?l \<and> ?us u = Some (Open level) \<and> l' = ?l"
    then have "u \<noteq> ?n" using new by auto
    with old f assms(1) show ?thesis by (intro exI [of _ u] exI [of _ S]) (simp add: luaF_findupval_def)
  next
    assume made: "u = ?n \<and> (\<forall>w\<in>set ?l. ?us w \<noteq> Some (Open level)) \<and> set l' = insert ?n (set ?l)"
    define S' where "S' = S\<lparr>g_upvals := ?us(?n \<mapsto> Open level), l_openupval := l', g_alloc := ?n + 1\<rparr>"
    have run: "luaF_findupval level S = Inr (?n, S')" using f(1) made by (simp add: luaF_findupval_def S'_def)
    have ok': "upvals_ok S'"
      using f(2) made ok(2,4) by (auto simp: upvals_ok_def S'_def l_stacksize_def less_Suc_eq)
    have "l_stacksize S' = l_stacksize S" by (simp add: S'_def l_stacksize_def)
    then have s': "open_sorted (g_upvals S') l' (l_stacksize S')" using f(2) made by (simp add: S'_def)
    have "?n + 1 \<notin> set l'" using made open_sorted_mem [OF ok(1), of "?n + 1"] ok(2) [of "?n + 1"] by auto
    from find_open_spec [OF s' assms(2) _ this] assms(3) obtain v l2 where
      g: "find_open (g_upvals S') level (?n + 1) l' = Inr (v, l2)"
        "v \<in> set l' \<and> g_upvals S' v = Some (Open level) \<and> l2 = l' \<or>
         v = ?n + 1 \<and> (\<forall>w\<in>set l'. g_upvals S' w \<noteq> Some (Open level))"
      by (auto simp: S'_def l_stacksize_def)
    have n: "?n \<in> set l'" "g_upvals S' ?n = Some (Open level)" using made by (simp_all add: S'_def)
    then have "v \<in> set l'" "g_upvals S' v = Some (Open level)" "l2 = l'" using g(2) by auto
    moreover from this have "v = ?n" using open_sorted_inj [OF s' _ n(1)] n(2) by simp
    ultimately have "luaF_findupval level S' = Inr (?n, S')" using g(1) by (simp add: luaF_findupval_def S'_def)
    with run ok' n(2) ok(2,3) show ?thesis
      by (intro exI [of _ ?n] exI [of _ S']) (auto simp: S'_def)
  qed
qed

theorem findupval_shares_witness:
  "\<exists>u S'. luaF_findupval 3 (stack_init no_state) = Inr (u, S') \<and> g_upvals S' u = Some (Open 3) \<and>
    luaF_findupval 3 S' = Inr (u, S')"
proof -
  have "upvals_ok (stack_init no_state)" by (simp add: upvals_ok_def no_state_def stack_init_def)
  moreover have "3 < l_stacksize (stack_init no_state)" by code_simp
  ultimately show ?thesis using findupval_shares [of "stack_init no_state" 3] by fastforce
qed

lemma close_loop_spec:
  assumes "open_sorted (g_upvals S) l (l_stacksize S)"
  shows "\<exists>us ps. close_loop level l S = Inr (S\<lparr>g_upvals := us, l_openupval := ps\<rparr>) \<and> set ps \<subseteq> set l \<and>
    open_sorted us ps (l_stacksize S) \<and> (\<forall>u\<in>set ps. \<exists>v. us u = Some (Open v) \<and> v < level) \<and>
    (\<forall>u. u \<notin> set l - set ps \<longrightarrow> us u = g_upvals S u) \<and>
    (\<forall>u\<in>set l - set ps. \<exists>v. g_upvals S u = Some (Open v) \<and> us u = Some (Closed (l_stack S ! nat v)))"
  using assms
proof (induction level l S rule: close_loop.induct)
  case (1 level S)
  then show ?case by (intro exI [of _ "g_upvals S"] exI [of _ "[]"]) simp
next
  case (2 level u l S)
  then obtain v where v: "g_upvals S u = Some (Open v)" "0 \<le> v" "v < l_stacksize S" "open_sorted (g_upvals S) l v"
    by (auto split: option.splits UpVal.splits)
  show ?case
  proof (cases "v \<ge> level")
    case False
    have "open_sorted (g_upvals S) (u # l) level" using v False by simp
    then have "\<forall>w\<in>set (u # l). \<exists>v. g_upvals S w = Some (Open v) \<and> v < level"
      using open_sorted_mem by blast
    with False v show ?thesis by (intro exI [of _ "g_upvals S"] exI [of _ "u # l"]) auto
  next
    case True
    define x where "x = l_stack S ! nat v"
    define S1 where "S1 = S\<lparr>g_upvals := (g_upvals S)(u \<mapsto> Closed x)\<rparr>"
    have x: "stk S v = Inr x" using v by (simp add: stk_def x_def l_stacksize_def aget_in)
    have d: "u \<notin> set l" using open_sorted_distinct [OF "2.prems"] by simp
    have "open_sorted (g_upvals S1) l (l_stacksize S1)"
      using open_sorted_mono [OF v(4)] v(3) d by (simp add: S1_def open_sorted_upd l_stacksize_def)
    with "2.IH" [OF v(1) refl True x] obtain us ps where
      i: "close_loop level l S1 = Inr (S1\<lparr>g_upvals := us, l_openupval := ps\<rparr>)" "set ps \<subseteq> set l"
        "open_sorted us ps (l_stacksize S1)" "\<forall>u\<in>set ps. \<exists>v. us u = Some (Open v) \<and> v < level"
        "\<forall>u. u \<notin> set l - set ps \<longrightarrow> us u = g_upvals S1 u"
        "\<forall>u\<in>set l - set ps. \<exists>v. g_upvals S1 u = Some (Open v) \<and> us u = Some (Closed (l_stack S1 ! nat v))"
      unfolding S1_def by blast
    have "close_loop level (u # l) S = Inr (S\<lparr>g_upvals := us, l_openupval := ps\<rparr>)"
      using True v(1) x i(1) by (simp add: S1_def)
    moreover have "us u = Some (Closed x)" using i(5) d by (simp add: S1_def)
    moreover have "\<exists>v. g_upvals S w = Some (Open v) \<and> us w = Some (Closed (l_stack S ! nat v))"
      if "w \<in> set (u # l) - set ps" for w
    proof (cases "w = u")
      case True
      with v(1) \<open>us u = Some (Closed x)\<close> show ?thesis by (simp add: x_def)
    next
      case False
      with that have "w \<in> set l - set ps" by simp
      with i(6) obtain v where "g_upvals S1 w = Some (Open v)" "us w = Some (Closed (l_stack S1 ! nat v))" by blast
      with False show ?thesis by (auto simp: S1_def)
    qed
    moreover have "\<exists>v. us w = Some (Open v) \<and> v < level" if "w \<in> set ps" for w using i(4) that by blast
    moreover have "us w = g_upvals S w" if "w \<notin> set (u # l) - set ps" for w
      using that i(2,5) d by (cases "w = u") (auto simp: S1_def)
    ultimately show ?thesis
      using i(2,3) by (intro exI [of _ us] exI [of _ ps]) (auto simp: S1_def l_stacksize_def)
  qed
qed

text \<open>
  C33. \<open>luaF_close\<close> takes the slots from \<open>level\<close> on away from the upvalues without changing the value of any:
  what is written to these slots afterwards reaches no upvalue, and the open ones stay in order.
\<close>

theorem close_preserves_values:
  assumes "upvals_ok S"
  shows "\<exists>S'. luaF_close level S = Inr S' \<and> upvals_ok S' \<and> l_stack S' = l_stack S \<and>
    (\<forall>u. uv_get S' u = uv_get S u) \<and> (\<forall>u v. g_upvals S' u = Some (Open v) \<longrightarrow> v < level) \<and>
    (\<forall>u i x. level \<le> i \<longrightarrow> 0 \<le> i \<longrightarrow> uv_get (S'\<lparr>l_stack := (l_stack S')[nat i := x]\<rparr>) u = uv_get S u)"
proof -
  have ok: "open_sorted (g_upvals S) (l_openupval S) (l_stacksize S)"
    "\<And>u v. g_upvals S u = Some (Open v) \<Longrightarrow> u \<in> set (l_openupval S)" "\<And>u. g_upvals S u \<noteq> None \<Longrightarrow> u < g_alloc S"
    using assms by (auto simp: upvals_ok_def)
  from close_loop_spec [OF ok(1), of level] obtain us ps where
    c: "luaF_close level S = Inr (S\<lparr>g_upvals := us, l_openupval := ps\<rparr>)" "set ps \<subseteq> set (l_openupval S)"
      "open_sorted us ps (l_stacksize S)" "\<forall>u\<in>set ps. \<exists>v. us u = Some (Open v) \<and> v < level"
      "\<forall>u. u \<notin> set (l_openupval S) - set ps \<longrightarrow> us u = g_upvals S u"
      "\<forall>u\<in>set (l_openupval S) - set ps. \<exists>v. g_upvals S u = Some (Open v) \<and> us u = Some (Closed (l_stack S ! nat v))"
    unfolding luaF_close_def by blast
  define S' where "S' = S\<lparr>g_upvals := us, l_openupval := ps\<rparr>"
  have op: "u \<in> set ps \<and> g_upvals S u = Some (Open v) \<and> v < level" if "us u = Some (Open v)" for u v
    using that c(4-6) ok(2) by (cases "u \<in> set (l_openupval S)"; cases "u \<in> set ps"; force)
  have "upvals_ok S'"
  proof -
    have "us u \<noteq> None \<Longrightarrow> g_upvals S u \<noteq> None" for u using c(5,6) by (cases "u \<in> set (l_openupval S) - set ps") auto
    with ok(3) op c(3) show ?thesis by (auto simp: upvals_ok_def S'_def l_stacksize_def)
  qed
  moreover have get: "uv_get (S'\<lparr>l_stack := st\<rparr>) u = uv_get S u"
    if "length st = length (l_stack S)" "\<And>j. 0 \<le> j \<Longrightarrow> j < level \<Longrightarrow> st ! nat j = l_stack S ! nat j" for st u
  proof (cases "u \<in> set (l_openupval S) - set ps")
    case True
    with c(6) obtain v where v: "g_upvals S u = Some (Open v)" "us u = Some (Closed (l_stack S ! nat v))" by blast
    have "0 \<le> v" "v < l_stacksize S" using open_sorted_mem [OF ok(1), of u] True v(1) by auto
    with v show ?thesis by (simp add: uv_get_def S'_def stk_def aget_def l_stacksize_def)
  next
    case False
    then have e: "us u = g_upvals S u" using c(5) by blast
    show ?thesis
    proof (cases "g_upvals S u")
      case (Some x)
      show ?thesis
      proof (cases x)
        case (Open v)
        then have "v < level" using op [of u v] e Some by simp
        with that Open Some e show ?thesis by (simp add: uv_get_def S'_def stk_def aget_def)
      qed (use Some e in \<open>simp add: uv_get_def S'_def\<close>)
    qed (use e in \<open>simp add: uv_get_def S'_def\<close>)
  qed
  moreover have "uv_get S' u = uv_get S u" for u using get [of "l_stack S" u] by (simp add: S'_def)
  ultimately show ?thesis
    using c(1) op by (intro exI [of _ S']) (auto simp: S'_def)
qed


definition two_open :: lua_State where
  "two_open = (stack_init no_state)\<lparr>g_upvals := [1 \<mapsto> Open 5, 2 \<mapsto> Open 3], l_openupval := [1, 2], g_alloc := 3\<rparr>"

theorem close_preserves_values_witness:
  "\<exists>S'. luaF_close 4 two_open = Inr S' \<and> g_upvals S' 1 = Some (Closed Nil) \<and> g_upvals S' 2 = Some (Open 3) \<and>
    uv_get S' 1 = uv_get two_open 1"
proof -
  have eq: "g_upvals two_open = [1 \<mapsto> Open 5, 2 \<mapsto> Open 3]" "l_openupval two_open = [1, 2]" "g_alloc two_open = 3"
    "l_stacksize two_open = 45" "stk two_open 5 = Inr Nil"
    by (simp_all add: two_open_def l_stacksize_def stk_def aget_def stack_init_def BASIC_STACK_SIZE_def LUA_MINSTACK_def EXTRA_STACK_def)
  then have "upvals_ok two_open" by (auto simp: upvals_ok_def split: if_splits)
  from close_preserves_values [OF this, of 4] obtain S' where
    S': "luaF_close 4 two_open = Inr S'" "\<forall>u. uv_get S' u = uv_get two_open u" by blast
  moreover have "luaF_close 4 two_open = Inr (two_open\<lparr>g_upvals := [1 \<mapsto> Closed Nil, 2 \<mapsto> Open 3], l_openupval := [2]\<rparr>)"
    using eq by (simp add: luaF_close_def fun_upd_twist)
  ultimately show ?thesis by auto
qed

end
