(* ===== verification/MetaProps.thy ===== *)
theory MetaProps
  imports VM StateProps
begin

text \<open>
  Metamethods: the cache of absent fields (\<open>fasttm\<close>, \<open>lua/ltm.c\<close>) answers as the table does, and indexing
  (\<open>luaV_gettable\<close>, \<open>lua/lvm.c\<close>) refines the walk along the chain of handlers over the abstract tables.
\<close>

subsection \<open>Heaps of tables\<close>

definition cached :: "(lua_Number \<Rightarrow> int) \<Rightarrow> LTable \<Rightarrow> bool" where
  "cached N t \<longleftrightarrow> (\<forall>e. tms_num e \<le> tms_num TM_EQ \<longrightarrow> tflags t AND 2 ^ tms_num e \<noteq> 0 \<longrightarrow> tget N t (Str (tmname e)) = Nil)"

definition valid_mt :: "lua_State \<Rightarrow> nat option \<Rightarrow> bool" where
  "valid_mt S m \<longleftrightarrow> (case m of None \<Rightarrow> True | Some h \<Rightarrow> g_tables S h \<noteq> None)"

definition valid_value :: "lua_State \<Rightarrow> TValue \<Rightarrow> bool" where
  "valid_value S v \<longleftrightarrow> (case v of Table h \<Rightarrow> g_tables S h \<noteq> None | Userdata a \<Rightarrow> g_udata S a \<noteq> None | _ \<Rightarrow> True)"

definition heap_ok :: "(lua_Number \<Rightarrow> int) \<Rightarrow> lua_State \<Rightarrow> bool" where
  "heap_ok N S \<longleftrightarrow>
     (\<forall>h ob. g_tables S h = Some ob \<longrightarrow> tab_ok N (t_tab ob) \<and> cached N (t_tab ob) \<and> valid_mt S (t_metatable ob) \<and>
        (\<forall>k. valid_value S (tget N (t_tab ob) k))) \<and>
     (\<forall>a u. g_udata S a = Some u \<longrightarrow> valid_mt S (u_metatable u)) \<and>
     length (g_mt S) = NUM_TAGS \<and> (\<forall>m\<in>set (g_mt S). valid_mt S m)"

text \<open>States that differ in the flags of tables only.\<close>

definition with_flags :: "(nat \<Rightarrow> int) \<Rightarrow> lua_State \<Rightarrow> lua_State" where
  "with_flags f S = S\<lparr>g_tables := \<lambda>h. map_option (\<lambda>ob. ob\<lparr>t_tab := (t_tab ob)\<lparr>tflags := f h\<rparr>\<rparr>) (g_tables S h)\<rparr>"

lemma with_flags_simps [simp]:
  "l_stack (with_flags f S) = l_stack S" "g_mt (with_flags f S) = g_mt S" "g_udata (with_flags f S) = g_udata S"
  "g_tables (with_flags f S) h = map_option (\<lambda>ob. ob\<lparr>t_tab := (t_tab ob)\<lparr>tflags := f h\<rparr>\<rparr>) (g_tables S h)"
  "l_top (with_flags f S) = l_top S" "stk (with_flags f S) i = stk S i"
  by (simp_all add: with_flags_def stk_def)

lemma with_flags_twice [simp]: "with_flags g (with_flags f S) = with_flags g S"
  by (simp add: with_flags_def fun_eq_iff option.map_comp comp_def)

lemma with_flags_id: "\<exists>f. with_flags f S = S"
proof
  have "(\<lambda>h. map_option (\<lambda>ob. ob\<lparr>t_tab := (t_tab ob)\<lparr>tflags := (case g_tables S h of Some ob \<Rightarrow> tflags (t_tab ob) | None \<Rightarrow> 0)\<rparr>\<rparr>)
      (g_tables S h)) = g_tables S" by (auto simp: fun_eq_iff split: option.splits)
  then show "with_flags (\<lambda>h. case g_tables S h of Some ob \<Rightarrow> tflags (t_tab ob) | None \<Rightarrow> 0) S = S"
    by (simp add: with_flags_def)
qed

lemma read_slot_flags [simp]: "read_slot (t\<lparr>tflags := f\<rparr>) s = read_slot t s"
  by (simp add: read_slot_def split: slot.splits)

lemma deref_flags [simp]: "deref (with_flags f S) p = deref S p"
  by (cases p) (auto simp: deref_def get_table_def split: option.splits)

subsection \<open>The cache\<close>

lemma flag_set: "((f :: int) OR 2 ^ n) AND 2 ^ m \<noteq> 0 \<longleftrightarrow> f AND 2 ^ m \<noteq> 0 \<or> n = m"
  by (auto simp: and_exp_eq_0_iff_not_bit bit_simps)

lemma tms_num_inj: "tms_num e = tms_num e' \<longleftrightarrow> e = e'"
  by (cases e; cases e') simp_all

lemma getstr_ptr_ok:
  assumes "cvt_ok N" "g_tables S h = Some ob" "tab_ok N (t_tab ob)"
  shows "\<exists>p. getstr_ptr S h s = Inr p \<and> deref S p = Inr (tget N (t_tab ob) (Str s))"
proof -
  have "look_ok (Str s)" by (simp add: look_ok_def)
  then obtain r where r: "luaH_getstr (t_tab ob) s = Inr r" "read_slot (t_tab ob) r = Inr (tget N (t_tab ob) (Str s))"
    using get_spec [OF assms(1,3), of "Str s"] by (auto simp: luaH_get_def)
  then show ?thesis using assms(2)
    by (cases r) (auto simp: getstr_ptr_def get_table_def deref_def read_slot_def)
qed

lemma cached_flag:
  assumes "cached N t" "tget N t (Str (tmname e)) = Nil"
  shows "cached N (t\<lparr>tflags := tflags t OR 2 ^ tms_num e\<rparr>)"
  using assms by (auto simp: cached_def flag_set tms_num_inj)

lemma heap_ok_flags:
  assumes "heap_ok N S" "\<And>h ob. g_tables S h = Some ob \<Longrightarrow> cached N ((t_tab ob)\<lparr>tflags := f h\<rparr>)"
  shows "heap_ok N (with_flags f S)"
proof -
  have "valid_mt (with_flags f S) m = valid_mt S m" "valid_value (with_flags f S) v = valid_value S v" for m v
    by (auto simp: valid_mt_def valid_value_def split: option.splits TValue.splits)
  with assms show ?thesis by (fastforce simp: heap_ok_def tab_ok_flags)
qed

lemma fasttm_spec:
  assumes N: "cvt_ok N" and ok: "heap_ok N S" and mt: "valid_mt S et" and e: "tms_num e \<le> tms_num TM_EQ"
  defines "v \<equiv> (case et of None \<Rightarrow> Nil | Some h \<Rightarrow> tget N (t_tab (the (g_tables S h))) (Str (tmname e)))"
  shows "\<exists>tm f. fasttm et e S = Inr (tm, with_flags f S) \<and> heap_ok N (with_flags f S) \<and>
    (tm = None \<longleftrightarrow> v = Nil) \<and> (\<forall>p. tm = Some p \<longrightarrow> deref S p = Inr v)"
proof (cases et)
  case None
  obtain f where "with_flags f S = S" using with_flags_id by blast
  with ok show ?thesis by (intro exI [of _ None] exI [of _ f]) (simp add: fasttm_def None v_def)
next
  case (Some h)
  then obtain ob where ob: "g_tables S h = Some ob" using mt by (auto simp: valid_mt_def)
  then have t: "tab_ok N (t_tab ob)" "cached N (t_tab ob)" using ok by (auto simp: heap_ok_def)
  obtain f where f: "with_flags f S = S" using with_flags_id by blast
  have v: "v = tget N (t_tab ob) (Str (tmname e))" by (simp add: v_def Some ob)
  show ?thesis
  proof (cases "tflags (t_tab ob) AND 2 ^ tms_num e = 0")
    case False
    then have "v = Nil" using t(2) e by (simp add: cached_def v)
    moreover have "fasttm et e S = Inr (None, with_flags f S)"
      using False ob by (simp add: fasttm_def Some get_table_def f)
    ultimately show ?thesis using ok by (intro exI [of _ None] exI [of _ f]) (simp add: f)
  next
    case True
    obtain p where p: "getstr_ptr S h (tmname e) = Inr p" "deref S p = Inr v"
      using getstr_ptr_ok [OF N ob t(1)] v by blast
    have fast: "fasttm et e S = luaT_gettm h e S" using True ob by (simp add: fasttm_def Some get_table_def)
    show ?thesis
    proof (cases "v = Nil")
      case False
      then have "fasttm et e S = Inr (Some p, with_flags f S)" using fast p e by (simp add: luaT_gettm_def f)
      with False ok p(2) show ?thesis by (intro exI [of _ "Some p"] exI [of _ f]) (simp add: f)
    next
      case Nil: True
      define g where "g = (\<lambda>i. case g_tables S i of Some ob \<Rightarrow> if i = h then tflags (t_tab ob) OR 2 ^ tms_num e else tflags (t_tab ob) | None \<Rightarrow> 0)"
      have put: "put_table h (ob\<lparr>t_tab := (t_tab ob)\<lparr>tflags := tflags (t_tab ob) OR 2 ^ tms_num e\<rparr>\<rparr>) S = with_flags g S"
        by (auto simp: put_table_def with_flags_def g_def fun_eq_iff ob intro!: lua_State.equality split: option.splits)
      have "fasttm et e S = Inr (None, with_flags g S)"
        using fast p e Nil ob by (simp add: luaT_gettm_def get_table_def put)
      moreover have "heap_ok N (with_flags g S)"
      proof (rule heap_ok_flags [OF ok])
        fix i o' assume i: "g_tables S i = Some o'"
        then have "cached N (t_tab o')" using ok by (auto simp: heap_ok_def)
        then show "cached N ((t_tab o')\<lparr>tflags := g i\<rparr>)"
          using cached_flag [OF t(2)] v Nil ob i by (cases "i = h") (auto simp: g_def)
      qed
      ultimately show ?thesis using Nil by (intro exI [of _ None] exI [of _ g]) simp
    qed
  qed
qed

text \<open>
  C34. The cached lookup of a metamethod gives what the table has, for every heap whose flags are right, and
  leaves the flags right; it changes nothing else.
\<close>

theorem fasttm_exact:
  assumes "cvt_ok N" "heap_ok N S" "g_tables S h = Some ob" "tms_num e \<le> tms_num TM_EQ"
  shows "\<exists>tm f. fasttm (Some h) e S = Inr (tm, with_flags f S) \<and> heap_ok N (with_flags f S) \<and>
    (tm = None \<longleftrightarrow> tget N (t_tab ob) (Str (tmname e)) = Nil) \<and>
    (\<forall>p. tm = Some p \<longrightarrow> deref S p = Inr (tget N (t_tab ob) (Str (tmname e))))"
  using fasttm_spec [OF assms(1,2) _ assms(4), of "Some h"] assms(3) by (simp add: valid_mt_def)

subsection \<open>Indexing\<close>

text \<open>
  The walk over the abstract tables: the value that is found, the handler that is to be called with the
  value that it belongs to, a value that cannot be indexed, or a chain that is too long.
\<close>

datatype index_result = Found TValue | Calls TValue TValue | NoIndex TValue | TooLong

definition metatable_of :: "lua_State \<Rightarrow> TValue \<Rightarrow> nat option" where
  "metatable_of S v = (case v of
     Table h \<Rightarrow> t_metatable (the (g_tables S h))
   | Userdata a \<Rightarrow> u_metatable (the (g_udata S a))
   | _ \<Rightarrow> g_mt S ! nat (ttype v))"

definition table_field :: "(lua_Number \<Rightarrow> int) \<Rightarrow> lua_State \<Rightarrow> nat \<Rightarrow> TValue \<Rightarrow> TValue" where
  "table_field N S h k = tget N (t_tab (the (g_tables S h))) k"

definition handler :: "(lua_Number \<Rightarrow> int) \<Rightarrow> lua_State \<Rightarrow> TMS \<Rightarrow> TValue \<Rightarrow> TValue" where
  "handler N S e v = (case metatable_of S v of None \<Rightarrow> Nil | Some h \<Rightarrow> table_field N S h (Str (tmname e)))"

primrec index_spec :: "(lua_Number \<Rightarrow> int) \<Rightarrow> lua_State \<Rightarrow> nat \<Rightarrow> TValue \<Rightarrow> TValue \<Rightarrow> index_result" where
  "index_spec N S 0 t k = TooLong"
| "index_spec N S (Suc n) t k =
     (let m = handler N S TM_INDEX t;
          r = (case t of Table h \<Rightarrow> table_field N S h k | _ \<Rightarrow> Nil) in
      if r \<noteq> Nil then Found r
      else if m = Nil then (case t of Table h \<Rightarrow> Found Nil | _ \<Rightarrow> NoIndex t)
      else if ttisfunction m then Calls m t
      else index_spec N S n m k)"

lemma spec_flags:
  "table_field N (with_flags f S) h k = table_field N S h k" if "g_tables S h \<noteq> None"
  using that by (auto simp: table_field_def)

lemma metatable_of_flags: "valid_value S v \<Longrightarrow> metatable_of (with_flags f S) v = metatable_of S v"
  by (auto simp: metatable_of_def valid_value_def split: TValue.splits)

lemma metatable_valid: "heap_ok N S \<Longrightarrow> valid_value S v \<Longrightarrow> valid_mt S (metatable_of S v)"
  unfolding heap_ok_def metatable_of_def valid_value_def
  by (cases v) (auto simp: NUM_TAGS_def ttype_def)

lemma handler_flags: "heap_ok N S \<Longrightarrow> valid_value S v \<Longrightarrow> handler N (with_flags f S) e v = handler N S e v"
  using metatable_valid [of N S v]
  by (auto simp: handler_def metatable_of_flags spec_flags valid_mt_def split: option.splits)

lemma handler_valid: "heap_ok N S \<Longrightarrow> valid_value S v \<Longrightarrow> valid_value S (handler N S e v)"
  using metatable_valid [of N S v]
  by (auto simp: handler_def table_field_def valid_mt_def valid_value_def [of S Nil] heap_ok_def split: option.splits)

lemma index_spec_flags:
  "heap_ok N S \<Longrightarrow> valid_value S t \<Longrightarrow> index_spec N (with_flags f S) n t k = index_spec N S n t k"
proof (induction n arbitrary: t)
  case (Suc n)
  have "valid_value S (handler N S TM_INDEX t)" using handler_valid Suc.prems by blast
  moreover have "(case t of Table h \<Rightarrow> table_field N (with_flags f S) h k | _ \<Rightarrow> Nil) =
      (case t of Table h \<Rightarrow> table_field N S h k | _ \<Rightarrow> Nil)"
    using Suc.prems(2) by (auto simp: valid_value_def spec_flags split: TValue.splits)
  ultimately show ?case using Suc by (simp add: handler_flags Let_def)
qed simp

lemma valid_flags [simp]: "valid_value (with_flags f S) v = valid_value S v"
  by (auto simp: valid_value_def split: TValue.splits)

lemma gettmbyobj_ok:
  assumes "cvt_ok N" "heap_ok N S" "valid_value S v"
  shows "\<exists>p. luaT_gettmbyobj S v e = Inr p \<and> deref S p = Inr (handler N S e v)"
proof -
  have "rbind (case v of
         Table h \<Rightarrow> rmap t_metatable (get_table S h)
       | Userdata a \<Rightarrow> (case g_udata S a of Some u \<Rightarrow> Inr (u_metatable u) | None \<Rightarrow> undef ''userdata'')
       | _ \<Rightarrow> ub (aget (g_mt S) (ttype v))) f = f (metatable_of S v)" for f :: "nat option \<Rightarrow> ptr vres"
    using assms(2,3)
    by (cases v) (auto simp: heap_ok_def metatable_of_def valid_value_def get_table_def aget_in NUM_TAGS_def ttype_def)
  then have eq: "luaT_gettmbyobj S v e = (case metatable_of S v of Some h \<Rightarrow> getstr_ptr S h (tmname e) | None \<Rightarrow> Inr (PVal Nil))"
    by (simp add: luaT_gettmbyobj_def)
  show ?thesis
  proof (cases "metatable_of S v")
    case None
    then show ?thesis by (simp add: eq handler_def deref_def)
  next
    case (Some h)
    then obtain ob where ob: "g_tables S h = Some ob" using metatable_valid [OF assms(2,3)] by (auto simp: valid_mt_def)
    then have "tab_ok N (t_tab ob)" using assms(2) by (simp add: heap_ok_def)
    from getstr_ptr_ok [OF assms(1) ob this, of "tmname e"] Some ob show ?thesis
      by (simp add: eq handler_def table_field_def)
  qed
qed

definition index_runs :: "vm_env \<Rightarrow> caller \<Rightarrow> ptr \<Rightarrow> int \<Rightarrow> lua_State \<Rightarrow> index_result \<Rightarrow> lua_State vres \<Rightarrow> bool" where
  "index_runs E call key val S ir r \<longleftrightarrow>
     (\<exists>f. let S' = with_flags f S in heap_ok (v_num2int E) S' \<and>
       (case ir of
          Found v \<Rightarrow> r = set_stk val v S'
        | Calls m t \<Rightarrow> \<exists>p q. deref S' p = Inr m \<and> deref S' q = Inr t \<and> r = callTMres call val p q key S'
        | NoIndex t \<Rightarrow> \<exists>q. deref S' q = Inr t \<and> r = luaG_typeerror E call q ''index'' S'
        | TooLong \<Rightarrow> r = luaG_runerror E call ''loop in gettable'' [] S'))"

lemma gettable_loop_refines:
  assumes "cvt_ok (v_num2int E)" "look_ok k"
  shows "heap_ok (v_num2int E) S \<Longrightarrow> deref S tp = Inr t \<Longrightarrow> valid_value S t \<Longrightarrow> deref S key = Inr k \<Longrightarrow>
    index_runs E call key val S (index_spec (v_num2int E) S n t k) (gettable_loop E call n tp key val S)"
proof (induction n arbitrary: S tp t)
  case 0
  obtain f where "with_flags f S = S" using with_flags_id by blast
  with 0 show ?case by (auto simp: index_runs_def Let_def intro!: exI [of _ f])
next
  case (Suc n)
  let ?N = "v_num2int E" and ?m = "handler (v_num2int E) S TM_INDEX t"
  have mv: "valid_value S ?m" using handler_valid Suc.prems by blast
  have go: "index_runs E call key val S (if ttisfunction ?m then Calls ?m t else index_spec ?N S n ?m k)
      (if ttisfunction ?m then callTMres call val p tp key (with_flags f S) else gettable_loop E call n p key val (with_flags f S))"
    if p: "deref S p = Inr ?m" and ok: "heap_ok ?N (with_flags f S)" for p f
  proof (cases "ttisfunction ?m")
    case True
    with ok p Suc.prems(2) show ?thesis unfolding index_runs_def Let_def
      by (simp, intro exI [of _ f] conjI exI [of _ p] exI [of _ tp]) simp_all
  next
    case False
    have "index_runs E call key val (with_flags f S) (index_spec ?N (with_flags f S) n ?m k)
        (gettable_loop E call n p key val (with_flags f S))"
      by (rule Suc.IH [OF ok]) (use p mv Suc.prems(4) in simp_all)
    with False show ?thesis by (simp add: index_spec_flags [OF Suc.prems(1) mv] index_runs_def Let_def)
  qed
  show ?case
  proof (cases "\<exists>h. t = Table h")
    case True
    then obtain h where h: "t = Table h" by blast
    then obtain ob where ob: "g_tables S h = Some ob" using Suc.prems(3) by (auto simp: valid_value_def)
    then have t: "tab_ok ?N (t_tab ob)" "valid_mt S (t_metatable ob)" using Suc.prems(1) by (auto simp: heap_ok_def)
    obtain s where s: "luaH_get ?N (t_tab ob) k = Inr s" "read_slot (t_tab ob) s = Inr (table_field ?N S h k)"
      using get_spec [OF assms(1) t(1) assms(2)] ob by (auto simp: table_field_def)
    have hm: "?m = (case t_metatable ob of None \<Rightarrow> Nil | Some h \<Rightarrow> tget ?N (t_tab (the (g_tables S h))) (Str (tmname TM_INDEX)))"
      by (simp add: handler_def metatable_of_def h ob table_field_def split: option.splits)
    from fasttm_spec [OF assms(1) Suc.prems(1) t(2), of TM_INDEX] obtain tm f where
      f: "fasttm (t_metatable ob) TM_INDEX S = Inr (tm, with_flags f S)" "heap_ok ?N (with_flags f S)"
        "tm = None \<longleftrightarrow> ?m = Nil" "\<forall>p. tm = Some p \<longrightarrow> deref S p = Inr ?m" unfolding hm by auto
    show ?thesis
    proof (cases "table_field ?N S h k = Nil")
      case False
      obtain g where "with_flags g S = S" using with_flags_id by blast
      with False s ob Suc.prems h show ?thesis
        by (auto simp: get_table_def index_runs_def Let_def intro!: exI [of _ g])
    next
      case True
      show ?thesis
      proof (cases tm)
        case None
        with f(3) have "?m = Nil" by simp
        with None True s ob Suc.prems h f(1,2) show ?thesis
          by (auto simp: get_table_def index_runs_def Let_def intro!: exI [of _ f])
      next
        case (Some p)
        with f(3,4) have m: "?m \<noteq> Nil" "deref S p = Inr ?m" by auto
        from go [OF m(2) f(2)] m Some True s ob Suc.prems h f(1) show ?thesis
          by (auto simp: get_table_def split: if_splits)
      qed
    qed
  next
    case False
    obtain p where p: "luaT_gettmbyobj S t TM_INDEX = Inr p" "deref S p = Inr ?m"
      using gettmbyobj_ok [OF assms(1) Suc.prems(1,3)] by blast
    obtain g where g: "with_flags g S = S" using with_flags_id by blast
    have step: "gettable_loop E call (Suc n) tp key val S =
        (if ?m = Nil then luaG_typeerror E call tp ''index'' S
         else if ttisfunction ?m then callTMres call val p tp key S else gettable_loop E call n p key val S)"
      using False Suc.prems(2) p by (cases t) auto
    have spec: "index_spec ?N S (Suc n) t k = (if ?m = Nil then NoIndex t else if ttisfunction ?m then Calls ?m t else index_spec ?N S n ?m k)"
      using False by (cases t) (auto simp: Let_def)
    show ?thesis
    proof (cases "?m = Nil")
      case True
      with g Suc.prems(1,2) show ?thesis unfolding step spec index_runs_def Let_def
        by (intro exI [of _ g]) auto
    next
      case nn: False
      from go [OF p(2), of g] g Suc.prems(1) nn show ?thesis unfolding step spec by (cases "ttisfunction ?m") simp_all
    qed
  qed
qed

text \<open>
  C35. Indexing refines the walk along the chain of \<open>__index\<close> handlers: the first table that has the key gives the
  value, a function is called with the value that it is the handler of, anything else that has no handler is an
  error, and after \<open>MAXTAGLOOP\<close> handlers the loop is broken off. Nothing but the cache of absent fields changes.
\<close>

theorem gettable_refines:
  assumes "cvt_ok (v_num2int E)" "heap_ok (v_num2int E) S" "deref S tp = Inr t" "valid_value S t"
    "deref S key = Inr k" "look_ok k"
  shows "index_runs E call key val S (index_spec (v_num2int E) S MAXTAGLOOP t k) (luaV_gettable E call tp key val S)"
  unfolding luaV_gettable_def by (rule gettable_loop_refines [OF assms(1,6,2,3,4,5)])

subsection \<open>Assignment\<close>

lemma fasttm_present:
  assumes "cvt_ok N" "g_tables S h = Some ob" "tab_ok N (t_tab ob)" "cached N (t_tab ob)"
    "tget N (t_tab ob) (Str (tmname e)) \<noteq> Nil" "tms_num e \<le> tms_num TM_EQ"
  shows "\<exists>s. fasttm (Some h) e S = Inr (Some (PSlot h s (t_gen ob)), S) \<and>
    read_slot (t_tab ob) s = Inr (tget N (t_tab ob) (Str (tmname e)))"
proof -
  have "look_ok (Str (tmname e))" by (simp add: look_ok_def)
  then obtain r where r: "luaH_getstr (t_tab ob) (tmname e) = Inr r" "read_slot (t_tab ob) r = Inr (tget N (t_tab ob) (Str (tmname e)))"
    using get_spec [OF assms(1,3), of "Str (tmname e)"] by (auto simp: luaH_get_def)
  then have "r \<noteq> SNil" using assms(5) by (auto simp: read_slot_def)
  moreover have "tflags (t_tab ob) AND 2 ^ tms_num e = 0" using assms(4-6) by (auto simp: cached_def)
  ultimately show ?thesis using r assms(2,5,6)
    by (intro exI [of _ r]) (simp add: fasttm_def luaT_gettm_def getstr_ptr_def get_table_def deref_def)
qed

lemma fasttm_absent:
  assumes "cvt_ok N" "g_tables S h = Some ob" "tab_ok N (t_tab ob)"
    "tget N (t_tab ob) (Str (tmname e)) = Nil" "tms_num e \<le> tms_num TM_EQ"
  shows "\<exists>f. fasttm (Some h) e S = Inr (None, put_table h (ob\<lparr>t_tab := (t_tab ob)\<lparr>tflags := f\<rparr>\<rparr>) S) \<and> f AND 2 ^ tms_num e \<noteq> 0"
proof (cases "tflags (t_tab ob) AND 2 ^ tms_num e = 0")
  case False
  have "put_table h ob S = S" using assms(2) by (auto simp: put_table_def fun_eq_iff intro!: lua_State.equality)
  with False assms(2) show ?thesis
    by (intro exI [of _ "tflags (t_tab ob)"]) (simp add: fasttm_def get_table_def)
next
  case True
  obtain p where "getstr_ptr S h (tmname e) = Inr p" "deref S p = Inr Nil"
    using getstr_ptr_ok [OF assms(1-3), of "tmname e"] assms(4) by auto
  with True assms(2,5) show ?thesis
    by (intro exI [of _ "tflags (t_tab ob) OR 2 ^ tms_num e"])
       (simp add: fasttm_def luaT_gettm_def get_table_def flag_set)
qed

lemma settable_set_spec:
  assumes "cvt_ok (v_num2int E)" "g_tables S h = Some ob" "tab_ok (v_num2int E) (t_tab ob)" "key_ok k"
    "settable_set E call h k S = Inr (s, S')"
  shows "\<exists>t. S' = put_table h (ob\<lparr>t_tab := t, t_gen := (if set_moves (v_num2int E) (t_tab ob) k then t_gen ob + 1 else t_gen ob)\<rparr>) S \<and>
    tab_ok (v_num2int E) t \<and> tget (v_num2int E) t = tget (v_num2int E) (t_tab ob) \<and> located (v_num2int E) t k s"
proof -
  let ?N = "v_num2int E" and ?t = "(t_tab ob)\<lparr>tflags := 0\<rparr>"
  have t: "tab_ok ?N ?t" using assms(3) by (simp add: tab_ok_flags)
  have e: "luaH_set ?N (t_tab ob) k = put_with ?N (grow ?N (Suc 0)) ?t k"
    unfolding luaH_set_def GROW_DEPTH_def using set_with_put [OF assms(1,3,4)] by simp
  from luaH_set_spec [OF assms(1) t assms(4), of 0] show ?thesis
    using assms(2,5) by (auto simp: settable_set_def get_table_def e raising_def rmap_Inr_iff split: if_splits)
qed

lemma write_val_spec:
  assumes "cvt_ok N" "g_tables S h = Some ob" "tab_ok N (t_tab ob)" "located N (t_tab ob) k s" "k \<noteq> Nil"
  shows "\<exists>t. write_val h s v S = Inr (put_table h (ob\<lparr>t_tab := t\<rparr>) S) \<and> tab_ok N t \<and> tget N t = upd (tget N (t_tab ob)) k v \<and>
    tflags t = tflags (t_tab ob)"
proof -
  obtain t where t: "write_slot (t_tab ob) s v = Inr t" "tab_ok N t" "tget N t = upd (tget N (t_tab ob)) k v"
    using store_spec [OF assms(1,3,5,4)] by blast
  moreover have "tflags t = tflags (t_tab ob)"
    using t(1) by (auto simp: write_slot_def rmap_Inr_iff split: slot.splits if_splits)
  ultimately show ?thesis using assms(2) by (auto simp: write_val_def get_table_def)
qed

lemma read_located:
  assumes "cvt_ok N" "tab_ok N t" "located N t k s" "k \<noteq> Nil"
  shows "read_slot t s = Inr (tget N t k)"
proof -
  obtain v where v: "read_slot t s = Inr v"
    using assms tab_okD [OF assms(2)]
    by (cases s) (auto simp: located_def read_slot_def in_array_def rmap_Inr_iff)
  obtain t' where t': "write_slot t s v = Inr t'" "tget N t' = upd (tget N t) k v"
    using store_spec [OF assms(1,2,4,3), of v] by blast
  have "t' = t"
  proof (cases s)
    case (SArr i)
    with t'(1) v show ?thesis by (auto simp: write_slot_def read_slot_def rmap_Inr_iff)
  next
    case (SNode i)
    with v have "i < length (tnode t)" "(tnode t ! i)\<lparr>nval := v\<rparr> = tnode t ! i" by (auto simp: read_slot_def rmap_Inr_iff)
    then have "(tnode t)[i := (tnode t ! i)\<lparr>nval := v\<rparr>] = tnode t" by simp
    with t'(1) SNode show ?thesis by (auto simp: write_slot_def rmap_Inr_iff split: if_splits)
  qed (use t'(1) in \<open>simp add: write_slot_def\<close>)
  with t'(2) have "tget N t k = upd (tget N t) k v k" by metis
  with v show ?thesis by (simp add: upd_def)
qed

lemma get_put_table [simp]:
  "g_tables (put_table h t S) = (g_tables S)(h \<mapsto> t)" "l_stack (put_table h t S) = l_stack S"
  "l_top (put_table h t S) = l_top S" "put_table h t' (put_table h t S) = put_table h t' S"
  by (simp_all add: put_table_def)

lemma deref_stack [simp]: "deref S (PVal v) = Inr v"
  by (simp add: deref_def)

text \<open>The first part of an iteration on a table that does not have the key.\<close>

lemma settable_new_key:
  assumes "cvt_ok (v_num2int E)" "g_tables S h = Some ob" "tab_ok (v_num2int E) (t_tab ob)" "key_ok k"
    "tget (v_num2int E) (t_tab ob) k = Nil" "settable_set E call h k S = Inr (s, S')" "deref S key = Inr k" "deref S tp = Inr (Table h)"
  shows "\<exists>t. S' = put_table h (ob\<lparr>t_tab := t, t_gen := (if set_moves (v_num2int E) (t_tab ob) k then t_gen ob + 1 else t_gen ob)\<rparr>) S \<and>
    tab_ok (v_num2int E) t \<and> tget (v_num2int E) t = tget (v_num2int E) (t_tab ob) \<and> located (v_num2int E) t k s \<and>
    settable_loop E call (Suc n) tp key val S =
      rbind (fasttm (t_metatable ob) TM_NEWINDEX S') (\<lambda>(tm, S). case tm of
        None \<Rightarrow> rbind (deref S val) (\<lambda>v. write_val h s v S)
      | Some tm \<Rightarrow> rbind (deref S tm) (\<lambda>m.
          if ttisfunction m then callTM call tm tp key val S else settable_loop E call n tm key val S))"
proof -
  from settable_set_spec [OF assms(1-4,6)] obtain t where
    t: "S' = put_table h (ob\<lparr>t_tab := t, t_gen := (if set_moves (v_num2int E) (t_tab ob) k then t_gen ob + 1 else t_gen ob)\<rparr>) S"
      "tab_ok (v_num2int E) t" "tget (v_num2int E) t = tget (v_num2int E) (t_tab ob)" "located (v_num2int E) t k s" by blast
  have r: "read_slot t s = Inr Nil" using read_located [OF assms(1) t(2,4) key_ok_not_Nil [OF assms(4)]] t(3) assms(5) by simp
  have g: "get_table S' h = Inr (ob\<lparr>t_tab := t, t_gen := (if set_moves (v_num2int E) (t_tab ob) k then t_gen ob + 1 else t_gen ob)\<rparr>)"
    by (simp add: t(1) get_table_def)
  show ?thesis
  proof (intro exI [of _ t] conjI t)
    show "settable_loop E call (Suc n) tp key val S =
      rbind (fasttm (t_metatable ob) TM_NEWINDEX S') (\<lambda>(tm, S). case tm of
        None \<Rightarrow> rbind (deref S val) (\<lambda>v. write_val h s v S)
      | Some tm \<Rightarrow> rbind (deref S tm) (\<lambda>m.
          if ttisfunction m then callTM call tm tp key val S else settable_loop E call n tm key val S))"
      using assms(6-8) g r
      by (cases "fasttm (t_metatable ob) TM_NEWINDEX S'") (auto split: option.splits)
  qed
qed

text \<open>
  C36. A table that is its own metatable and gets a \<open>__newindex\<close> field: the field is there afterwards, but the cache
  says that it is not, so that the handler is never called.
\<close>

theorem self_newindex_ignored:
  assumes "cvt_ok (v_num2int E)" "g_tables S h = Some ob" "tab_ok (v_num2int E) (t_tab ob)" "t_metatable ob = Some h"
    "tget (v_num2int E) (t_tab ob) (Str ''__newindex'') = Nil" "v \<noteq> Nil"
    "luaV_settable E call (PVal (Table h)) (PVal (Str ''__newindex'')) (PVal v) S = Inr S'"
  shows "(\<exists>ob'. g_tables S' h = Some ob' \<and> t_metatable ob' = Some h \<and> tget (v_num2int E) (t_tab ob') (Str ''__newindex'') = v) \<and>
    fasttm (Some h) TM_NEWINDEX S' = Inr (None, S')"
proof -
  let ?N = "v_num2int E" and ?k = "Str ''__newindex''"
  have k: "key_ok ?k" "?k \<noteq> Nil" by (simp_all add: key_ok_def)
  have loop: "settable_loop E call (Suc 99) (PVal (Table h)) (PVal ?k) (PVal v) S = Inr S'"
    using assms(7) by (simp add: luaV_settable_def MAXTAGLOOP_def del: settable_loop.simps)
  from loop [unfolded settable_loop.simps(2)] obtain s S1 where s: "settable_set E call h ?k S = Inr (s, S1)"
    by (auto simp: rbind_Inr_iff)
  from settable_new_key [OF assms(1-3) k(1) assms(5) s deref_stack deref_stack, of 99 "PVal v"] obtain t where
    t: "S1 = put_table h (ob\<lparr>t_tab := t, t_gen := (if set_moves ?N (t_tab ob) ?k then t_gen ob + 1 else t_gen ob)\<rparr>) S"
      "tab_ok ?N t" "tget ?N t = tget ?N (t_tab ob)" "located ?N t ?k s"
      "settable_loop E call (Suc 99) (PVal (Table h)) (PVal ?k) (PVal v) S =
        rbind (fasttm (t_metatable ob) TM_NEWINDEX S1) (\<lambda>(tm, S). case tm of
          None \<Rightarrow> rbind (deref S (PVal v)) (\<lambda>v. write_val h s v S)
        | Some tm \<Rightarrow> rbind (deref S tm) (\<lambda>m.
            if ttisfunction m then callTM call tm (PVal (Table h)) (PVal ?k) (PVal v) S
            else settable_loop E call 99 tm (PVal ?k) (PVal v) S))" by blast
  define o1 where "o1 = ob\<lparr>t_tab := t, t_gen := (if set_moves ?N (t_tab ob) ?k then t_gen ob + 1 else t_gen ob)\<rparr>"
  have o1: "g_tables S1 h = Some o1" "t_tab o1 = t" "t_metatable o1 = Some h" using t(1) assms(4) by (simp_all add: o1_def)
  have "tget ?N (t_tab o1) (Str (tmname TM_NEWINDEX)) = Nil"
    using t(3) assms(5) by (simp add: o1 tmname_def luaT_eventname_def)
  from fasttm_absent [OF assms(1) o1(1) _ this] t(2) obtain f where
    f: "fasttm (Some h) TM_NEWINDEX S1 = Inr (None, put_table h (o1\<lparr>t_tab := t\<lparr>tflags := f\<rparr>\<rparr>) S1)" "f AND 2 ^ 1 \<noteq> 0"
    by (auto simp: o1)
  let ?o2 = "o1\<lparr>t_tab := t\<lparr>tflags := f\<rparr>\<rparr>" and ?S2 = "put_table h (o1\<lparr>t_tab := t\<lparr>tflags := f\<rparr>\<rparr>) S1"
  have "write_val h s v ?S2 = Inr S'" using loop t(5) f(1) assms(4) by simp
  moreover have "located ?N (t\<lparr>tflags := f\<rparr>) ?k s"
    using t(4) by (auto simp: located_def in_array_def split: slot.splits)
  ultimately obtain t2 where t2: "S' = put_table h (?o2\<lparr>t_tab := t2\<rparr>) S1" "tget ?N t2 = upd (tget ?N t) ?k v" "tflags t2 = f"
    using write_val_spec [OF assms(1), of ?S2 h ?o2 ?k s v] t(2) k(2) by (auto simp: tab_ok_flags)
  have "g_tables S' h = Some (?o2\<lparr>t_tab := t2\<rparr>)" using t2(1) by simp
  then show ?thesis using t2(2,3) f(2) o1(3)
    by (auto simp: upd_def fasttm_def get_table_def)
qed

text \<open>
  C37. An assignment to a table \<open>c\<close> whose metatable \<open>p\<close> is its own \<open>__newindex\<close>, where \<open>p\<close> has in turn a metatable \<open>g\<close>
  with a function as \<open>__newindex\<close> and must grow for the new key: the handler found in \<open>p\<close> is kept as a pointer into the vector
  of \<open>p\<close>, storing the key in \<open>p\<close> frees that vector, and the call of the function of \<open>g\<close> reads the freed one. Without such a
  \<open>g\<close> the loop returns after the store and reads nothing again.
\<close>

theorem settable_dangling:
  assumes N: "cvt_ok (v_num2int E)"
    and c: "g_tables S c = Some oc" "tab_ok (v_num2int E) (t_tab oc)" "t_metatable oc = Some p" "tget (v_num2int E) (t_tab oc) k = Nil"
    and p: "g_tables S p = Some op" "tab_ok (v_num2int E) (t_tab op)" "cached (v_num2int E) (t_tab op)" "t_metatable op = Some g"
      "tget (v_num2int E) (t_tab op) (Str ''__newindex'') = Table p" "tget (v_num2int E) (t_tab op) k = Nil"
      "set_moves (v_num2int E) (t_tab op) k"
    and g: "g_tables S g = Some og" "tab_ok (v_num2int E) (t_tab og)" "cached (v_num2int E) (t_tab og)"
      "tget (v_num2int E) (t_tab og) (Str ''__newindex'') = Function f"
    and distinct: "c \<noteq> p" "c \<noteq> g" "p \<noteq> g"
    and k: "key_ok k" and room: "0 \<le> l_top S" "l_top S < l_stacksize S"
    and sets: "luaH_set (v_num2int E) (t_tab oc) k = Inr rc" "luaH_set (v_num2int E) (t_tab op) k = Inr rp"
  shows "luaV_settable E call (PVal (Table c)) (PVal k) (PVal v) S = undef ''dangling pointer''"
proof -
  let ?N = "v_num2int E"
  have nm: "tmname TM_NEWINDEX = ''__newindex''" by (simp add: tmname_def luaT_eventname_def)
  obtain s1 S1 where s1: "settable_set E call c k S = Inr (s1, S1)"
    using sets(1) c(1) by (cases rc) (simp add: settable_set_def get_table_def raising_def)
  from settable_new_key [OF N c(1,2) k c(4) s1 deref_stack deref_stack, of 99 "PVal v", unfolded c(3)] obtain t1 where
    t1: "S1 = put_table c (oc\<lparr>t_tab := t1, t_gen := (if set_moves ?N (t_tab oc) k then t_gen oc + 1 else t_gen oc)\<rparr>) S"
      "settable_loop E call (Suc 99) (PVal (Table c)) (PVal k) (PVal v) S =
        rbind (fasttm (Some p) TM_NEWINDEX S1) (\<lambda>(tm, S). case tm of
          None \<Rightarrow> rbind (deref S (PVal v)) (\<lambda>v. write_val c s1 v S)
        | Some tm \<Rightarrow> rbind (deref S tm) (\<lambda>m.
            if ttisfunction m then callTM call tm (PVal (Table c)) (PVal k) (PVal v) S
            else settable_loop E call 99 tm (PVal k) (PVal v) S))" by blast
  have p1: "g_tables S1 p = Some op" using t1(1) p(1) distinct by simp
  have "tget ?N (t_tab op) (Str (tmname TM_NEWINDEX)) \<noteq> Nil" using p(5) by (simp add: nm)
  from fasttm_present [OF N p1 p(2,3) this] obtain sp where
    sp: "fasttm (Some p) TM_NEWINDEX S1 = Inr (Some (PSlot p sp (t_gen op)), S1)" "read_slot (t_tab op) sp = Inr (Table p)"
    by (auto simp: nm p(5))
  then have d: "deref S1 (PSlot p sp (t_gen op)) = Inr (Table p)" using p1 by (simp add: deref_def get_table_def)
  have first: "luaV_settable E call (PVal (Table c)) (PVal k) (PVal v) S =
      settable_loop E call (Suc 98) (PSlot p sp (t_gen op)) (PVal k) (PVal v) S1"
    using t1(2) sp(1) d by (simp add: luaV_settable_def MAXTAGLOOP_def ttisfunction_def numeral_eq_Suc del: settable_loop.simps)
  obtain s2 S2 where s2: "settable_set E call p k S1 = Inr (s2, S2)"
    using sets(2) p1 by (cases rp) (simp add: settable_set_def get_table_def raising_def)
  from settable_new_key [OF N p1 p(2) k p(6) s2 deref_stack d, of 98 "PVal v", unfolded p(4)] p(7) obtain t2 where
    t2: "S2 = put_table p (op\<lparr>t_tab := t2, t_gen := t_gen op + 1\<rparr>) S1"
      "settable_loop E call (Suc 98) (PSlot p sp (t_gen op)) (PVal k) (PVal v) S1 =
        rbind (fasttm (Some g) TM_NEWINDEX S2) (\<lambda>(tm, S). case tm of
          None \<Rightarrow> rbind (deref S (PVal v)) (\<lambda>v. write_val p s2 v S)
        | Some tm \<Rightarrow> rbind (deref S tm) (\<lambda>m.
            if ttisfunction m then callTM call tm (PSlot p sp (t_gen op)) (PVal k) (PVal v) S
            else settable_loop E call 98 tm (PVal k) (PVal v) S))" by auto
  have g2: "g_tables S2 g = Some og" using t1(1) t2(1) g(1) distinct by simp
  have "tget ?N (t_tab og) (Str (tmname TM_NEWINDEX)) \<noteq> Nil" using g(4) by (simp add: nm)
  from fasttm_present [OF N g2 g(2,3) this] obtain sg where
    sg: "fasttm (Some g) TM_NEWINDEX S2 = Inr (Some (PSlot g sg (t_gen og)), S2)" "read_slot (t_tab og) sg = Inr (Function f)"
    by (auto simp: nm g(4))
  then have dg: "deref S2 (PSlot g sg (t_gen og)) = Inr (Function f)" using g2 by (simp add: deref_def get_table_def)
  have st: "l_stack S2 = l_stack S" "l_top S2 = l_top S" using t1(1) t2(1) by simp_all
  define S3 where "S3 = S2\<lparr>l_stack := (l_stack S)[nat (l_top S) := Function f]\<rparr>"
  have "push_ptr (PSlot g sg (t_gen og)) 0 S2 = Inr S3"
    using dg room by (simp add: push_ptr_def set_stk_def aput_in st l_stacksize_def S3_def)
  moreover have "deref S3 (PSlot p sp (t_gen op)) = undef ''dangling pointer''"
    using t2(1) by (simp add: deref_def get_table_def S3_def)
  ultimately have "callTM call (PSlot g sg (t_gen og)) (PSlot p sp (t_gen op)) (PVal k) (PVal v) S2 = undef ''dangling pointer''"
    by (simp add: callTM_def push_ptr_def [of "PSlot p sp (t_gen op)"])
  then show ?thesis using first t2(2) sg(1) dg by (simp add: ttisfunction_def)
qed

subsection \<open>Examples\<close>

definition one_field :: "string \<Rightarrow> TValue \<Rightarrow> LTable" where
  "one_field k v = (case store_at v (luaH_set number2int table_0 (Str k)) of Inr t \<Rightarrow> t | Inl _ \<Rightarrow> table_0)"

lemma one_field_ok:
  assumes "(case luaH_set number2int table_0 (Str k) of Inr r \<Rightarrow> True | Inl e \<Rightarrow> False)"
  shows "tab_ok number2int (one_field k v)" "tget number2int (one_field k v) = upd (\<lambda>_. Nil) (Str k) v"
proof -
  let ?t = "table_0\<lparr>tflags := 0\<rparr>"
  have k: "key_ok (Str k)" by (simp add: key_ok_def)
  have t: "tab_ok number2int ?t" using table_0_ok(1) by (simp add: tab_ok_flags)
  have e: "luaH_set number2int table_0 (Str k) = put_with number2int (grow number2int (Suc 0)) ?t (Str k)"
    unfolding luaH_set_def GROW_DEPTH_def using set_with_put [OF number2int_ok table_0_ok(1) k] by simp
  obtain s t' where s: "luaH_set number2int table_0 (Str k) = Inr (s, t')" "located number2int t' (Str k) s"
    "tab_ok number2int t'" "tget number2int t' = (\<lambda>_. Nil)"
    using luaH_set_spec [OF number2int_ok t k, of 0] assms by (auto simp: e table_0_ok(2))
  from store_spec [OF number2int_ok s(3) key_ok_not_Nil [OF k] s(2), of v] s
  show "tab_ok number2int (one_field k v)" "tget number2int (one_field k v) = upd (\<lambda>_. Nil) (Str k) v"
    by (auto simp: one_field_def store_at_def)
qed

lemma upd_str: "upd f (Str k) v (Str q) = (if q = k then v else f (Str q))"
  by (simp add: upd_def)

definition with_tables :: "(nat \<Rightarrow> TableObj option) \<Rightarrow> lua_State" where
  "with_tables ts = (stack_init no_state)\<lparr>g_tables := ts\<rparr>"

lemma with_tables_simps [simp]:
  "g_tables (with_tables ts) = ts" "g_mt (with_tables ts) = replicate NUM_TAGS None" "g_udata (with_tables ts) = Map.empty"
  "l_stack (with_tables ts) = replicate 45 Nil" "l_top (with_tables ts) = 1"
  by (simp_all add: with_tables_def stack_init_def no_state_def BASIC_STACK_SIZE_def LUA_MINSTACK_def EXTRA_STACK_def)

definition obj :: "LTable \<Rightarrow> nat option \<Rightarrow> TableObj" where
  "obj t m = \<lparr>t_tab = t, t_metatable = m, t_gen = 0\<rparr>"

lemma obj_simps [simp]: "t_tab (obj t m) = t" "t_metatable (obj t m) = m" "t_gen (obj t m) = 0"
  by (simp_all add: obj_def)

text \<open>An empty table 4 whose metatable 2 sends indexing to the table 3.\<close>

definition chain_state :: lua_State where
  "chain_state = with_tables [4 \<mapsto> obj table_0 (Some 2), 2 \<mapsto> obj (one_field ''__index'' (Table 3)) None,
     3 \<mapsto> obj (one_field ''x'' (Boolean True)) None]"

lemma chain_fields:
  "tab_ok number2int (one_field ''__index'' v)" "tget number2int (one_field ''__index'' v) = upd (\<lambda>_. Nil) (Str ''__index'') v"
  "tab_ok number2int (one_field ''x'' v)" "tget number2int (one_field ''x'' v) = upd (\<lambda>_. Nil) (Str ''x'') v"
  "tflags (one_field ''__index'' (Table 3)) = 0" "tflags (one_field ''x'' (Boolean True)) = 0"
  by (rule one_field_ok, code_simp)+ code_simp+

lemma cached_flagless: "tflags t = 0 \<Longrightarrow> cached N t" "tget N t = (\<lambda>_. Nil) \<Longrightarrow> cached N t"
  by (simp_all add: cached_def)

lemma chain_ok: "heap_ok number2int chain_state"
  unfolding heap_ok_def
  by (auto simp: chain_state_def table_0_ok chain_fields cached_flagless valid_mt_def valid_value_def upd_def
      split: if_splits TValue.splits)

theorem gettable_refines_witness:
  "\<exists>S'. luaV_gettable sample_env no_call (PVal (Table 4)) (PVal (Str ''x'')) 2 chain_state = Inr S' \<and> stk S' 2 = Inr (Boolean True)"
proof -
  have N: "v_num2int sample_env = number2int" by (simp add: sample_env_def)
  have m: "metatable_of chain_state (Table 4) = Some 2" "metatable_of chain_state (Table 3) = None"
    by (simp_all add: metatable_of_def chain_state_def)
  have f: "table_field number2int chain_state 4 k = Nil"
    "table_field number2int chain_state 2 (Str s) = (if s = ''__index'' then Table 3 else Nil)"
    "table_field number2int chain_state 3 (Str s) = (if s = ''x'' then Boolean True else Nil)" for k s
    by (simp_all add: table_field_def chain_state_def table_0_ok chain_fields upd_str)
  have i: "index_spec number2int chain_state (Suc (Suc n)) (Table 4) (Str ''x'') = Found (Boolean True)" for n
    by (simp add: Let_def handler_def m f ttisfunction_def tmname_def luaT_eventname_def)
  have "index_spec number2int chain_state MAXTAGLOOP (Table 4) (Str ''x'') = Found (Boolean True)"
    using i [of 98] by (simp add: MAXTAGLOOP_def del: index_spec.simps)
  moreover have "valid_value chain_state (Table 4)" by (simp add: valid_value_def chain_state_def)
  then have "index_runs sample_env no_call (PVal (Str ''x'')) 2 chain_state
      (index_spec number2int chain_state MAXTAGLOOP (Table 4) (Str ''x''))
      (luaV_gettable sample_env no_call (PVal (Table 4)) (PVal (Str ''x'')) 2 chain_state)"
    unfolding N [symmetric] using number2int_ok chain_ok
    by (intro gettable_refines) (simp_all add: N look_ok_def)
  ultimately obtain g where
    "luaV_gettable sample_env no_call (PVal (Table 4)) (PVal (Str ''x'')) 2 chain_state = set_stk 2 (Boolean True) (with_flags g chain_state)"
    by (auto simp: index_runs_def Let_def)
  then show ?thesis by (simp add: set_stk_def aput_in stk_def aget_in chain_state_def)
qed

theorem fasttm_exact_witness:
  "\<exists>tm S'. fasttm (Some 3) TM_INDEX chain_state = Inr (tm, S') \<and> tm = None"
proof -
  have "g_tables chain_state 3 = Some (obj (one_field ''x'' (Boolean True)) None)" by (simp add: chain_state_def)
  from fasttm_exact [OF number2int_ok chain_ok this, of TM_INDEX] show ?thesis
    by (auto simp: chain_fields upd_str tmname_def luaT_eventname_def)
qed

definition self_state :: lua_State where "self_state = with_tables [1 \<mapsto> obj table_0 (Some 1)]"

theorem self_newindex_ignored_witness:
  "\<exists>S'. luaV_settable sample_env no_call (PVal (Table 1)) (PVal (Str ''__newindex'')) (PVal (Function 9)) self_state = Inr S' \<and>
    fasttm (Some 1) TM_NEWINDEX S' = Inr (None, S')"
proof -
  have "(case luaV_settable sample_env no_call (PVal (Table 1)) (PVal (Str ''__newindex'')) (PVal (Function 9)) self_state of
    Inr S' \<Rightarrow> True | Inl e \<Rightarrow> False)" by code_simp
  then obtain S' where S': "luaV_settable sample_env no_call (PVal (Table 1)) (PVal (Str ''__newindex'')) (PVal (Function 9)) self_state = Inr S'"
    by (auto split: sum.splits)
  from self_newindex_ignored [OF _ _ _ _ _ _ S', of "obj table_0 (Some 1)"] S' show ?thesis
    by (simp add: sample_env_def number2int_ok self_state_def table_0_ok)
qed

definition dangling_state :: lua_State where
  "dangling_state = with_tables [1 \<mapsto> obj table_0 (Some 2), 2 \<mapsto> obj (one_field ''__newindex'' (Table 2)) (Some 3),
     3 \<mapsto> obj (one_field ''__newindex'' (Function 9)) None]"

theorem settable_dangling_witness:
  "luaV_settable sample_env no_call (PVal (Table 1)) (PVal (Str ''foo'')) (PVal (Boolean True)) dangling_state =
     undef ''dangling pointer''"
proof -
  have N: "v_num2int sample_env = number2int" by (simp add: sample_env_def)
  have fields: "tab_ok number2int (one_field ''__newindex'' v)"
    "tget number2int (one_field ''__newindex'' v) = upd (\<lambda>_. Nil) (Str ''__newindex'') v" for v
    by (rule one_field_ok, code_simp)+
  have flags: "tflags (one_field ''__newindex'' (Table 2)) = 0" "tflags (one_field ''__newindex'' (Function 9)) = 0"
    by code_simp+
  have moves: "set_moves number2int (one_field ''__newindex'' (Table 2)) (Str ''foo'')" by code_simp
  have "(case luaH_set number2int table_0 (Str ''foo'') of Inr r \<Rightarrow> True | Inl e \<Rightarrow> False)"
    "(case luaH_set number2int (one_field ''__newindex'' (Table 2)) (Str ''foo'') of Inr r \<Rightarrow> True | Inl e \<Rightarrow> False)" by code_simp+
  then obtain r1 r2 where r: "luaH_set number2int table_0 (Str ''foo'') = Inr r1"
    "luaH_set number2int (one_field ''__newindex'' (Table 2)) (Str ''foo'') = Inr r2" by (auto split: sum.splits)
  have k: "key_ok (Str ''foo'')" by (simp add: key_ok_def)
  show ?thesis
    by (rule settable_dangling [of sample_env dangling_state 1 "obj table_0 (Some 2)" 2 _ "obj (one_field ''__newindex'' (Table 2)) (Some 3)"
          3 "obj (one_field ''__newindex'' (Function 9)) None" 9 r1 r2])
       (use N number2int_ok fields flags moves r k in
         \<open>simp_all add: dangling_state_def table_0_ok upd_str cached_flagless l_stacksize_def\<close>)
qed

end
