(* ===== verification/Concat.thy ===== *)
theory Concat
  imports VMExec
begin

text \<open>\<open>luaV_concat\<close> (\<open>lua/lvm.c\<close>) on strings and numbers gives the concatenation of their texts.\<close>

definition str_of :: "vm_env \<Rightarrow> TValue \<Rightarrow> string option" where
  "str_of E v = (case v of Str s \<Rightarrow> Some s | Number n \<Rightarrow> Some (v_num2str E n) | _ \<Rightarrow> None)"

lemma str_of_Str [simp]: "str_of E (Str s) = Some s"
  by (simp add: str_of_def)

text \<open>The slots from \<open>lo\<close> on, below \<open>hi\<close>, hold the texts \<open>f\<close>.\<close>

definition texts :: "vm_env \<Rightarrow> (int \<Rightarrow> string) \<Rightarrow> int \<Rightarrow> int \<Rightarrow> lua_State \<Rightarrow> bool" where
  "texts E f lo hi S \<longleftrightarrow> 0 \<le> lo \<and> hi \<le> l_stacksize S \<and>
     (\<forall>i. lo \<le> i \<longrightarrow> i < hi \<longrightarrow> str_of E (l_stack S ! nat i) = Some (f i))"

definition strings :: "(int \<Rightarrow> string) \<Rightarrow> int \<Rightarrow> int \<Rightarrow> lua_State \<Rightarrow> bool" where
  "strings f lo hi S \<longleftrightarrow> 0 \<le> lo \<and> hi \<le> l_stacksize S \<and> (\<forall>i. lo \<le> i \<longrightarrow> i < hi \<longrightarrow> l_stack S ! nat i = Str (f i))"

text \<open>Only slots from \<open>lo\<close> on, below \<open>hi\<close>, changed.\<close>

definition changed :: "int \<Rightarrow> int \<Rightarrow> lua_State \<Rightarrow> lua_State \<Rightarrow> bool" where
  "changed lo hi S S' \<longleftrightarrow> (\<exists>st. S' = S\<lparr>l_stack := st\<rparr> \<and> length st = length (l_stack S) \<and>
     (\<forall>i. 0 \<le> i \<longrightarrow> i < lo \<or> hi \<le> i \<longrightarrow> st ! nat i = l_stack S ! nat i))"

lemma changed_refl [simp]: "changed lo hi S S"
  by (auto simp: changed_def intro!: exI [of _ "l_stack S"])

lemma changed_trans: "changed lo hi S S1 \<Longrightarrow> changed lo hi S1 S2 \<Longrightarrow> changed lo hi S S2"
  by (auto simp: changed_def)

lemma changed_mono: "changed lo hi S S' \<Longrightarrow> lo' \<le> lo \<Longrightarrow> hi \<le> hi' \<Longrightarrow> changed lo' hi' S S'"
  by (auto simp: changed_def)

lemma changed_at: "changed lo hi S S' \<Longrightarrow> 0 \<le> i \<Longrightarrow> i < lo \<or> hi \<le> i \<Longrightarrow> l_stack S' ! nat i = l_stack S ! nat i"
  by (auto simp: changed_def)

lemma changed_size: "changed lo hi S S' \<Longrightarrow> l_stacksize S' = l_stacksize S \<and> l_top S' = l_top S \<and> l_base S' = l_base S"
  by (auto simp: changed_def l_stacksize_def)

lemma stk_at: "0 \<le> i \<Longrightarrow> i < l_stacksize S \<Longrightarrow> stk S i = Inr (l_stack S ! nat i)"
  by (simp add: stk_def aget_in l_stacksize_def)

lemma set_stk_at:
  "0 \<le> i \<Longrightarrow> i < l_stacksize S \<Longrightarrow> \<exists>S'. set_stk i v S = Inr S' \<and> changed i (i + 1) S S' \<and> l_stack S' ! nat i = v"
  by (auto simp: set_stk_def aput_in l_stacksize_def changed_def nth_list_update)

lemma tostring_text:
  assumes "0 \<le> i" "i < l_stacksize S" "str_of E (l_stack S ! nat i) = Some s"
  shows "\<exists>S'. tostring E i S = Inr (True, S') \<and> changed i (i + 1) S S' \<and> l_stack S' ! nat i = Str s"
proof (cases "l_stack S ! nat i")
  case (Str t)
  with assms show ?thesis by (auto simp: tostring_def stk_at ttisstring_def str_of_def)
next
  case (Number n)
  with assms set_stk_at [of i S "Str s"] show ?thesis
    by (auto simp: tostring_def stk_at ttisstring_def luaV_tostring_def str_of_def)
qed (use assms in \<open>auto simp: str_of_def\<close>)

lemma texts_changed: "texts E f lo hi S \<Longrightarrow> changed a b S S' \<Longrightarrow> hi \<le> a \<or> b \<le> lo \<Longrightarrow> texts E f lo hi S'"
  unfolding texts_def by (auto simp: changed_size changed_at)

lemma strings_changed: "strings f lo hi S \<Longrightarrow> changed a b S S' \<Longrightarrow> hi \<le> a \<or> b \<le> lo \<Longrightarrow> strings f lo hi S'"
  unfolding strings_def by (auto simp: changed_size changed_at)

lemma collect_texts:
  assumes "texts E f (tp - n - int k) (tp - n) S"
    and "tlen + int (length (concat (map f [tp - n - int k..tp - n - 1]))) < MAX_SIZET"
  shows "\<exists>S'. collect E call k n tlen tp S = Inr (n + int k, S') \<and> changed (tp - n - int k) (tp - n) S S' \<and>
    strings f (tp - n - int k) (tp - n) S'"
  using assms
proof (induction k arbitrary: n tlen S)
  case 0
  then show ?case by (simp add: strings_def texts_def)
next
  case (Suc k)
  let ?i = "tp - n - 1" and ?lo = "tp - n - int (Suc k)"
  have i: "0 \<le> ?i" "?i < l_stacksize S" "str_of E (l_stack S ! nat ?i) = Some (f ?i)"
    using Suc.prems(1) by (auto simp: texts_def)
  obtain S1 where S1: "tostring E ?i S = Inr (True, S1)" "changed ?i (?i + 1) S S1" "l_stack S1 ! nat ?i = Str (f ?i)"
    using tostring_text [OF i] by blast
  have sv: "svalue S1 ?i = Inr (f ?i)" using S1(2,3) i by (simp add: svalue_def stk_at changed_size)
  have split: "[?lo..?i] = [?lo..?i - 1] @ [?i]" by (rule upto_rec2) simp
  have len: "tlen + int (length (f ?i)) + int (length (concat (map f [?lo..?i - 1]))) < MAX_SIZET"
    using Suc.prems(2) unfolding split by simp
  have t: "texts E f (tp - (n + 1) - int k) (tp - (n + 1)) S1"
    using texts_changed [OF _ S1(2), of E f ?lo ?i] Suc.prems(1) by (auto simp: texts_def algebra_simps)
  have eqs: "tp - (n + 1) = ?i" "?i - int k = ?lo" by simp_all
  have "tlen + int (length (f ?i)) + int (length (concat (map f [tp - (n + 1) - int k..tp - (n + 1) - 1]))) < MAX_SIZET"
    using len unfolding eqs .
  from Suc.IH [OF t this] obtain S2 where S2: "collect E call k (n + 1) (tlen + int (length (f ?i))) tp S1 = Inr (n + 1 + int k, S2)"
    "changed ?lo ?i S1 S2" "strings f ?lo ?i S2" unfolding eqs by blast
  have "\<not> int (length (f ?i)) \<ge> MAX_SIZET - tlen" using len by linarith
  with S1(1) S2(1) sv have "collect E call (Suc k) n tlen tp S = Inr (n + int (Suc k), S2)" by (simp add: Let_def)
  moreover have "changed ?lo (tp - n) S S2"
    using changed_trans [OF changed_mono [OF S1(2), of ?lo "tp - n"] changed_mono [OF S2(2), of ?lo "tp - n"]] by simp
  moreover have "strings f ?lo (tp - n) S2"
    unfolding strings_def
  proof (intro conjI allI impI)
    show "0 \<le> ?lo" using S2(3) by (simp add: strings_def)
    show "tp - n \<le> l_stacksize S2" using Suc.prems(1) changed_size [OF S1(2)] changed_size [OF S2(2)] by (simp add: texts_def)
    fix j assume j: "?lo \<le> j" "j < tp - n"
    show "l_stack S2 ! nat j = Str (f j)"
    proof (cases "j = ?i")
      case True
      with changed_at [OF S2(2), of ?i] S1(3) i(1) show ?thesis by simp
    next
      case False
      with S2(3) j show ?thesis by (simp add: strings_def)
    qed
  qed
  ultimately show ?case by blast
qed

lemma copy_strings_texts:
  "strings f (tp - int n) tp S \<Longrightarrow> copy_strings n tp S = Inr (concat (map f [tp - int n..tp - 1]))"
proof (induction n)
  case (Suc n)
  have "strings f (tp - int n) tp S" using Suc.prems by (simp add: strings_def)
  from Suc.IH [OF this] have ih: "copy_strings n tp S = Inr (concat (map f [tp - int n..tp - 1]))" .
  have "svalue S (tp - int (Suc n)) = Inr (f (tp - int (Suc n)))"
    using Suc.prems by (simp add: strings_def svalue_def stk_at)
  moreover have "[tp - int (Suc n)..tp - 1] = (tp - int (Suc n)) # [tp - int n..tp - 1]"
    by (subst upto_rec1) simp_all
  ultimately show ?case using ih by simp
qed simp

text \<open>One pass over \<open>tot\<close> operands below \<open>tp\<close>: all of them become one, or an empty last one disappears.\<close>

lemma concat_pass_texts:
  assumes "2 \<le> tot" "tp = l_base S + lst + 1" "texts E f (tp - tot) tp S"
    and "int (length (concat (map f [tp - tot..tp - 1]))) < MAX_SIZET"
  shows "f (tp - 1) \<noteq> [] \<Longrightarrow> \<exists>S'. concat_pass E call tot lst S = Inr (tot, S') \<and> changed (tp - tot) tp S S' \<and>
      l_stack S' ! nat (tp - tot) = Str (concat (map f [tp - tot..tp - 1]))"
    and "f (tp - 1) = [] \<Longrightarrow> \<exists>S'. concat_pass E call tot lst S = Inr (2, S') \<and> changed (tp - tot) tp S S' \<and>
      texts E f (tp - tot) (tp - 1) S' \<and> l_stack S' ! nat (tp - 2) = Str (f (tp - 2))"
proof -
  have lo: "0 \<le> tp - tot" "tp \<le> l_stacksize S" using assms(3) by (simp_all add: texts_def)
  have v: "str_of E (l_stack S ! nat (tp - 1)) = Some (f (tp - 1))" "str_of E (l_stack S ! nat (tp - 2)) = Some (f (tp - 2))"
    using assms(1,3) by (simp_all add: texts_def)
  have c: "ttisstring (l_stack S ! nat (tp - 2)) \<or> ttisnumber (l_stack S ! nat (tp - 2))"
    using v(2) by (auto simp: str_of_def ttisstring_def ttisnumber_def split: TValue.splits)
  obtain S1 where S1: "tostring E (tp - 1) S = Inr (True, S1)" "changed (tp - 1) tp S S1" "l_stack S1 ! nat (tp - 1) = Str (f (tp - 1))"
    using tostring_text [of "tp - 1" S E] v(1) lo assms(1) by auto
  have z: "l_stacksize S1 = l_stacksize S" using changed_size [OF S1(2)] by simp
  have sv: "svalue S1 (tp - 1) = Inr (f (tp - 1))" using S1(3) lo z assms(1) by (simp add: svalue_def stk_at)
  have start: "concat_pass E call tot lst S = (if length (f (tp - 1)) = 0 then rmap (\<lambda>(_, S). (2, S)) (tostring E (tp - 2) S1)
     else rbind (collect E call (nat (tot - 1)) 1 (int (length (f (tp - 1)))) tp S1) (\<lambda>(n, S).
          rbind (copy_strings (nat n) tp S) (\<lambda>s. rmap (\<lambda>S. (n, S)) (set_stk (tp - n) (Str s) S))))"
    using S1(1) sv lo assms(1,2) c by (simp add: concat_pass_def Let_def stk_at)
  have t1: "texts E f (tp - tot) (tp - 1) S1"
    using texts_changed [OF _ S1(2), of E f "tp - tot" "tp - 1"] assms(3) by (simp add: texts_def)
  show "\<exists>S'. concat_pass E call tot lst S = Inr (2, S') \<and> changed (tp - tot) tp S S' \<and>
      texts E f (tp - tot) (tp - 1) S' \<and> l_stack S' ! nat (tp - 2) = Str (f (tp - 2))" if "f (tp - 1) = []"
  proof -
    have "0 \<le> tp - 2" "tp - 2 < l_stacksize S1" "str_of E (l_stack S1 ! nat (tp - 2)) = Some (f (tp - 2))"
      using t1 assms(1) lo z by (simp_all add: texts_def)
    from tostring_text [OF this] obtain S2 where S2: "tostring E (tp - 2) S1 = Inr (True, S2)" "changed (tp - 2) (tp - 1) S1 S2"
      "l_stack S2 ! nat (tp - 2) = Str (f (tp - 2))" by auto
    have "changed (tp - tot) tp S S2"
      using changed_trans [OF changed_mono [OF S1(2), of "tp - tot" tp] changed_mono [OF S2(2), of "tp - tot" tp]] assms(1) by simp
    moreover have "texts E f (tp - tot) (tp - 1) S2"
      unfolding texts_def
    proof (intro conjI allI impI)
      show "0 \<le> tp - tot" "tp - 1 \<le> l_stacksize S2" using lo z changed_size [OF S2(2)] by simp_all
      fix i assume i: "tp - tot \<le> i" "i < tp - 1"
      show "str_of E (l_stack S2 ! nat i) = Some (f i)"
      proof (cases "i = tp - 2")
        case True
        with S2(3) show ?thesis by simp
      next
        case False
        with changed_at [OF S2(2), of i] t1 i lo show ?thesis by (simp add: texts_def)
      qed
    qed
    ultimately show ?thesis using start that S2(1,3) by auto
  qed
  show "\<exists>S'. concat_pass E call tot lst S = Inr (tot, S') \<and> changed (tp - tot) tp S S' \<and>
      l_stack S' ! nat (tp - tot) = Str (concat (map f [tp - tot..tp - 1]))" if ne: "f (tp - 1) \<noteq> []"
  proof -
    have split: "[tp - tot..tp - 1] = [tp - tot..tp - 1 - 1] @ [tp - 1]" using assms(1) by (intro upto_rec2) simp
    have k: "tp - 1 - int (nat (tot - 1)) = tp - tot" using assms(1) by simp
    have "texts E f (tp - 1 - int (nat (tot - 1))) (tp - 1) S1" unfolding k by (rule t1)
    moreover have "int (length (f (tp - 1))) + int (length (concat (map f [tp - 1 - int (nat (tot - 1))..tp - 1 - 1]))) < MAX_SIZET"
      using assms(4) unfolding k split by simp
    ultimately obtain S2 where S2: "collect E call (nat (tot - 1)) 1 (int (length (f (tp - 1)))) tp S1 = Inr (1 + int (nat (tot - 1)), S2)"
      "changed (tp - tot) (tp - 1) S1 S2" "strings f (tp - tot) (tp - 1) S2"
      using collect_texts [of E f tp 1 "nat (tot - 1)" S1] unfolding k by blast
    have n: "1 + int (nat (tot - 1)) = tot" using assms(1) by simp
    have str: "strings f (tp - int (nat tot)) tp S2"
      unfolding strings_def
    proof (intro conjI allI impI)
      show "0 \<le> tp - int (nat tot)" "tp \<le> l_stacksize S2" using lo z changed_size [OF S2(2)] assms(1) by simp_all
      fix i assume i: "tp - int (nat tot) \<le> i" "i < tp"
      show "l_stack S2 ! nat i = Str (f i)"
      proof (cases "i = tp - 1")
        case True
        with changed_at [OF S2(2), of "tp - 1"] S1(3) lo assms(1) show ?thesis by simp
      next
        case False
        with S2(3) i assms(1) show ?thesis by (simp add: strings_def)
      qed
    qed
    have cs: "copy_strings (nat tot) tp S2 = Inr (concat (map f [tp - tot..tp - 1]))"
      using copy_strings_texts [OF str] assms(1) by simp
    have "0 \<le> tp - tot" "tp - tot < l_stacksize S2" using lo z changed_size [OF S2(2)] assms(1) by simp_all
    from set_stk_at [OF this, of "Str (concat (map f [tp - tot..tp - 1]))"] obtain S3 where
      S3: "set_stk (tp - tot) (Str (concat (map f [tp - tot..tp - 1]))) S2 = Inr S3" "changed (tp - tot) (tp - tot + 1) S2 S3"
      "l_stack S3 ! nat (tp - tot) = Str (concat (map f [tp - tot..tp - 1]))" by blast
    have "changed (tp - tot) tp S S3"
      using changed_trans [OF changed_mono [OF S1(2), of "tp - tot" tp]
        changed_trans [OF changed_mono [OF S2(2), of "tp - tot" tp] changed_mono [OF S3(2), of "tp - tot" tp]]] assms(1) by simp
    then show ?thesis using start ne S2(1) cs S3(1,3) unfolding n by auto
  qed
qed

lemma concat_loop_texts:
  assumes "2 \<le> tot" "tp = l_base S + lst + 1" "texts E f (tp - tot) tp S"
    and "int (length (concat (map f [tp - tot..tp - 1]))) < MAX_SIZET" "tot < int k"
  shows "\<exists>S'. concat_loop E call k tot lst S = Inr S' \<and> changed (tp - tot) tp S S' \<and>
      l_stack S' ! nat (tp - tot) = Str (concat (map f [tp - tot..tp - 1]))"
  using assms
proof (induction k arbitrary: tot lst tp S)
  case (Suc k)
  show ?case
  proof (cases "f (tp - 1) = []")
    case False
    from concat_pass_texts(1) [OF Suc.prems(1-4) False, of call] obtain S1 where
      "concat_pass E call tot lst S = Inr (tot, S1)" "changed (tp - tot) tp S S1"
      "l_stack S1 ! nat (tp - tot) = Str (concat (map f [tp - tot..tp - 1]))" by blast
    then show ?thesis by simp
  next
    case True
    from concat_pass_texts(2) [OF Suc.prems(1-4) True, of call] obtain S1 where
      S1: "concat_pass E call tot lst S = Inr (2, S1)" "changed (tp - tot) tp S S1"
        "texts E f (tp - tot) (tp - 1) S1" "l_stack S1 ! nat (tp - 2) = Str (f (tp - 2))" by blast
    have split: "[tp - tot..tp - 1] = [tp - tot..tp - 2] @ [tp - 1]" using Suc.prems(1) upto_rec2 [of "tp - tot" "tp - 1"] by simp
    have cc: "concat (map f [tp - tot..tp - 1]) = concat (map f [tp - tot..tp - 2])" unfolding split using True by simp
    show ?thesis
    proof (cases "tot = 2")
      case True
      have "[tp - 2..tp - 2] = [tp - 2]" by simp
      with True S1 cc show ?thesis by auto
    next
      case False
      have e: "tp - 1 - (tot - 1) = tp - tot" "tp - 1 - 1 = tp - 2" by simp_all
      have "\<exists>S'. concat_loop E call k (tot - 1) (lst - 1) S1 = Inr S' \<and> changed (tp - 1 - (tot - 1)) (tp - 1) S1 S' \<and>
          l_stack S' ! nat (tp - 1 - (tot - 1)) = Str (concat (map f [tp - 1 - (tot - 1)..tp - 1 - 1]))"
      proof (rule Suc.IH)
        show "tp - 1 = l_base S1 + (lst - 1) + 1" using Suc.prems(2) changed_size [OF S1(2)] by simp
        show "texts E f (tp - 1 - (tot - 1)) (tp - 1) S1" unfolding e by (rule S1(3))
        show "int (length (concat (map f [tp - 1 - (tot - 1)..tp - 1 - 1]))) < MAX_SIZET"
          using Suc.prems(4) unfolding e cc .
      qed (use False Suc.prems in simp_all)
      then obtain S2 where S2: "concat_loop E call k (tot - 1) (lst - 1) S1 = Inr S2" "changed (tp - tot) (tp - 1) S1 S2"
        "l_stack S2 ! nat (tp - tot) = Str (concat (map f [tp - tot..tp - 2]))" unfolding e by blast
      have "concat_loop E call (Suc k) tot lst S = Inr S2" using S1(1) S2(1) False Suc.prems(1) by simp
      moreover have "changed (tp - tot) tp S S2"
        using changed_trans [OF S1(2) changed_mono [OF S2(2), of "tp - tot" tp]] by simp
      ultimately show ?thesis using S2(3) cc by auto
    qed
  qed
qed simp

lemma concat_texts:
  assumes "2 \<le> tot" "tp = l_base S + lst + 1" "texts E f (tp - tot) tp S"
    and "int (length (concat (map f [tp - tot..tp - 1]))) < MAX_SIZET"
  shows "\<exists>S'. luaV_concat E call tot lst S = Inr S' \<and> changed (tp - tot) tp S S' \<and>
      l_stack S' ! nat (tp - tot) = Str (concat (map f [tp - tot..tp - 1]))"
  unfolding luaV_concat_def using assms by (intro concat_loop_texts) auto

text \<open>
  C39. The instruction \<open>OP_CONCAT A B C\<close> joins its operands. When every register from \<open>B\<close> to \<open>C\<close> holds a string or a
  number, it does not fail or call anything, and register \<open>A\<close> then holds the texts of all of them, one after the other: empty
  operands, numbers, and any number of operands, although the loop of \<open>luaV_concat\<close> drops an empty last operand before it joins
  the rest. Registers outside \<open>B\<close> to \<open>C\<close> keep their values, but for \<open>A\<close>. The collector changes nothing that is in use.
\<close>

theorem op_concat_joins:
  fixes i :: Instruction
  defines "B \<equiv> GETARG_B i" and "C \<equiv> GETARG_C i"
  assumes "B < C" "0 \<le> l_base S" "l_base S + C < l_stacksize S" "RA S i < l_stacksize S"
    and "map (\<lambda>r. str_of E (l_stack S ! nat (l_base S + r))) [B..C] = map Some ss"
    and "int (length (concat ss)) < MAX_SIZET" "\<And>S. v_checkGC E call S = Inr S"
  shows "\<exists>S'. op_concat E call pc i S = Inr S' \<and> stk S' (RA S i) = Inr (Str (concat ss)) \<and>
    (\<forall>r. 0 \<le> l_base S + r \<longrightarrow> r < B \<or> C < r \<longrightarrow> r \<noteq> GETARG_A i \<longrightarrow> l_stack S' ! nat (l_base S + r) = l_stack S ! nat (l_base S + r)) \<and>
    S' = S\<lparr>l_savedpc := pc, l_stack := l_stack S'\<rparr>"
proof -
  let ?q = "l_base S + B" and ?tp = "l_base S + C + 1"
  have args: "0 \<le> B" "0 \<le> GETARG_A i" by (simp_all add: B_def GETARG_B_def GETARG_A_def getfield_range)
  define f where "f j = the (str_of E (l_stack S ! nat j))" for j
  let ?S = "Protect pc S"
  have ss: "str_of E (l_stack S ! nat (l_base S + r)) \<noteq> None" if "B \<le> r" "r \<le> C" for r
  proof -
    have "str_of E (l_stack S ! nat (l_base S + r)) \<in> set (map Some ss)" unfolding assms(7) [symmetric] using that by auto
    then show ?thesis by auto
  qed
  have "map (\<lambda>r. f (l_base S + r)) [B..C] = map the (map (\<lambda>r. str_of E (l_stack S ! nat (l_base S + r))) [B..C])" by (simp add: f_def)
  also have "\<dots> = ss" unfolding assms(7) by (simp add: comp_def)
  finally have fs: "map (\<lambda>r. f (l_base S + r)) [B..C] = ss" .
  have shift: "map (\<lambda>r. l_base S + r) [B..C] = [?q..l_base S + C]" for C
  proof (induction "nat (C - B + 1)" arbitrary: C)
    case 0
    then show ?case by simp
  next
    case (Suc n)
    then show ?case using upto_rec2 [of B C] upto_rec2 [of ?q "l_base S + C"] Suc.hyps(1) [of "C - 1"] by (simp add: algebra_simps)
  qed
  have map: "map f [?q..l_base S + C] = ss" unfolding shift [symmetric] map_map comp_def by (rule fs)
  have e: "?tp - (C - B + 1) = ?q" "?tp - 1 = l_base S + C" by simp_all
  have "texts E f ?q ?tp ?S"
    unfolding texts_def
  proof (intro conjI allI impI)
    show "0 \<le> ?q" "?tp \<le> l_stacksize ?S" using args assms(4,5) by (simp_all add: Protect_def l_stacksize_def)
    fix j assume "?q \<le> j" "j < ?tp"
    with ss [of "j - l_base S"] show "str_of E (l_stack ?S ! nat j) = Some (f j)" by (auto simp: f_def Protect_def)
  qed
  then obtain S1 where S1: "luaV_concat E call (C - B + 1) C ?S = Inr S1" "changed ?q ?tp ?S S1"
    "l_stack S1 ! nat ?q = Str (concat ss)"
    using concat_texts [of "C - B + 1" ?tp ?S C E f call] assms(3,8) unfolding e map by (auto simp: Protect_def)
  have sz: "l_stacksize S1 = l_stacksize S" "l_base S1 = l_base S"
    using changed_size [OF S1(2)] by (simp_all add: Protect_def l_stacksize_def)
  have A: "0 \<le> RA S i" "RA S1 i = RA S i" using args assms(4) sz by (simp_all add: RA_def)
  from set_stk_at [of "RA S i" S1 "Str (concat ss)"] A assms(6) sz obtain S2 where
    S2: "set_stk (RA S i) (Str (concat ss)) S1 = Inr S2" "changed (RA S i) (RA S i + 1) S1 S2" "l_stack S2 ! nat (RA S i) = Str (concat ss)"
    by auto
  have "stk S1 (l_base S1 + B) = Inr (Str (concat ss))"
    using S1(3) sz args assms(3,4,5) by (simp add: stk_at)
  then have "op_concat E call pc i S = Inr S2"
    using S1(1) S2(1) A assms(9) by (simp add: op_concat_def Let_def setobjs2s_def flip: B_def C_def)
  moreover have "stk S2 (RA S i) = Inr (Str (concat ss))"
    using S2(2,3) A assms(6) sz by (simp add: stk_at changed_size)
  moreover have "l_stack S2 ! nat (l_base S + r) = l_stack S ! nat (l_base S + r)"
    if "0 \<le> l_base S + r" "r < B \<or> C < r" "r \<noteq> GETARG_A i" for r
  proof -
    have "l_base S + r < RA S i \<or> RA S i + 1 \<le> l_base S + r" using that(3) unfolding RA_def by linarith
    with changed_at [OF S2(2) that(1)] have "l_stack S2 ! nat (l_base S + r) = l_stack S1 ! nat (l_base S + r)" .
    also have "\<dots> = l_stack S ! nat (l_base S + r)"
      using changed_at [OF S1(2) that(1)] that(2) by (auto simp: Protect_def)
    finally show ?thesis .
  qed
  moreover have "S2 = S\<lparr>l_savedpc := pc, l_stack := l_stack S2\<rparr>"
    using S1(2) S2(2) by (auto simp: changed_def Protect_def)
  ultimately show ?thesis by blast
qed


text \<open>Four registers, the last one empty: \<open>"a" .. 0 .. "" .. ""\<close> into register 5.\<close>

definition concat_state :: lua_State where
  "concat_state = (stack_init no_state)\<lparr>l_stack := (replicate 45 Nil)[1 := Str ''a'', 2 := Number 0, 3 := Str [], 4 := Str []]\<rparr>"

theorem op_concat_joins_witness:
  "\<exists>S'. op_concat sample_env no_call 1 (CREATE_ABC (opnum OP_CONCAT) 5 0 3) concat_state = Inr S' \<and> stk S' 6 = Inr (Str ''a0'')"
proof -
  define i where "i = CREATE_ABC (opnum OP_CONCAT) 5 0 3"
  have args: "GETARG_A i = 5" "GETARG_B i = 0" "GETARG_C i = 3" unfolding i_def by code_simp+
  have st: "l_base concat_state = 1" "l_stacksize concat_state = 45" by (simp_all add: concat_state_def stack_init_def no_state_def l_stacksize_def)
  have m: "map (\<lambda>r. str_of sample_env (l_stack concat_state ! nat (l_base concat_state + r))) [0..3] = map Some [''a'', ''0'', [], []]"
    by code_simp
  have gc: "v_checkGC sample_env no_call S = Inr S" for S by (simp add: sample_env_def)
  have "\<exists>S'. op_concat sample_env no_call 1 i concat_state = Inr S' \<and> stk S' (RA concat_state i) = Inr (Str (concat [''a'', ''0'', [], []]))"
    using op_concat_joins [of i concat_state sample_env "[''a'', ''0'', [], []]" no_call 1, unfolded args RA_def st, OF _ _ _ _ m [unfolded st] _ gc]
    by (auto simp: MAX_SIZET_def RA_def args st)
  then show ?thesis unfolding RA_def args st unfolding i_def by simp
qed

end
