(* ===== verification/Api.thy ===== *)
theory Api
  imports VMExec
begin

text \<open>
  The C interface, \<open>lua/lapi.c\<close>, as the functions that the libraries call. \<open>lua_lock\<close> and \<open>api_check\<close> expand to
  nothing in this configuration: what a caller must guarantee is a condition of the theorems. The functions on
  several threads are in the model where one thread is enough.
\<close>

subsection \<open>Indices\<close>

definition LUA_REGISTRYINDEX :: int where "LUA_REGISTRYINDEX = - 10000"
definition LUA_ENVIRONINDEX :: int where "LUA_ENVIRONINDEX = - 10001"
definition LUA_GLOBALSINDEX :: int where "LUA_GLOBALSINDEX = - 10002"

definition lua_upvalueindex :: "int \<Rightarrow> int" where "lua_upvalueindex i = LUA_GLOBALSINDEX - i"

text \<open>What the pointer of an index points to. The cell \<open>L->env\<close> gets the environment each time.\<close>

datatype adr = NilObject | Slot int | Registry | EnvCell nat | Globals | Upvalue nat int

definition curr_func :: "lua_State \<Rightarrow> nat vres" where
  "curr_func S = rbind (get_ci S (l_ci S)) (\<lambda>c. rbind (stk S (ci_func c)) (\<lambda>v.
     case v of Function a \<Rightarrow> Inr a | _ \<Rightarrow> undef ''clvalue''))"

definition func_env :: "lua_State \<Rightarrow> nat \<Rightarrow> nat vres" where
  "func_env S a = rmap cl_env (get_closure S a)"

definition c_upvalues :: "lua_State \<Rightarrow> nat \<Rightarrow> TValue list vres" where
  "c_upvalues S a = rbind (get_closure S a) (\<lambda>f. case f of
     CClosure e cf us \<Rightarrow> Inr us | LClosure e p us \<Rightarrow> undef ''C function'')"

definition index2adr :: "lua_State \<Rightarrow> int \<Rightarrow> adr vres" where
  "index2adr S idx =
     (if idx > 0 then
        let o' = l_base S + (idx - 1) in Inr (if o' \<ge> l_top S then NilObject else Slot o')
      else if idx > LUA_REGISTRYINDEX then Inr (Slot (l_top S + idx))
      else if idx = LUA_REGISTRYINDEX then Inr Registry
      else if idx = LUA_ENVIRONINDEX then rbind (curr_func S) (\<lambda>f. rmap EnvCell (func_env S f))
      else if idx = LUA_GLOBALSINDEX then Inr Globals
      else
        rbind (curr_func S) (\<lambda>f.
        rbind (c_upvalues S f) (\<lambda>us.
        let i = LUA_GLOBALSINDEX - idx in
        Inr (if i \<le> int (length us) then Upvalue f (i - 1) else NilObject))))"

definition read_adr :: "lua_State \<Rightarrow> adr \<Rightarrow> TValue vres" where
  "read_adr S a = (case a of
     NilObject \<Rightarrow> Inr Nil
   | Slot i \<Rightarrow> stk S i
   | Registry \<Rightarrow> Inr (g_registry S)
   | EnvCell e \<Rightarrow> Inr (Table e)
   | Globals \<Rightarrow> Inr (l_gt S)
   | Upvalue f i \<Rightarrow> rbind (c_upvalues S f) (\<lambda>us. ub (aget us i)))"

text \<open>Writing to \<open>luaO_nilobject\<close>, a constant, is undefined; nothing reads \<open>L->env\<close> before it is set again.\<close>

definition write_adr :: "adr \<Rightarrow> TValue \<Rightarrow> lua_State \<Rightarrow> lua_State vres" where
  "write_adr a v S = (case a of
     NilObject \<Rightarrow> undef ''write to a constant''
   | Slot i \<Rightarrow> set_stk i v S
   | Registry \<Rightarrow> Inr (S\<lparr>g_registry := v\<rparr>)
   | EnvCell e \<Rightarrow> Inr S
   | Globals \<Rightarrow> Inr (S\<lparr>l_gt := v\<rparr>)
   | Upvalue f i \<Rightarrow> rbind (get_closure S f) (\<lambda>c. case c of
       LClosure e p us \<Rightarrow> undef ''C function''
     | CClosure e cf us \<Rightarrow> rmap (\<lambda>us. S\<lparr>g_closures := (g_closures S)(f \<mapsto> CClosure e cf us)\<rparr>) (ub (aput us i v))))"

definition adr_ptr :: "lua_State \<Rightarrow> adr \<Rightarrow> ptr vres" where
  "adr_ptr S a = (case a of Slot i \<Rightarrow> Inr (PStk i) | _ \<Rightarrow> rmap PVal (read_adr S a))"

definition index_value :: "lua_State \<Rightarrow> int \<Rightarrow> TValue vres" where
  "index_value S idx = rbind (index2adr S idx) (read_adr S)"

definition index_ptr :: "lua_State \<Rightarrow> int \<Rightarrow> ptr vres" where
  "index_ptr S idx = rbind (index2adr S idx) (adr_ptr S)"

definition gtable :: "lua_State \<Rightarrow> nat vres" where
  "gtable S = (case l_gt S of Table h \<Rightarrow> Inr h | _ \<Rightarrow> undef ''hvalue'')"

definition getcurrenv :: "lua_State \<Rightarrow> nat vres" where
  "getcurrenv S = (if l_ci S = 0 then gtable S else rbind (curr_func S) (func_env S))"

text \<open>Storing at the top and \<open>api_incr_top\<close>.\<close>

definition luaA_pushobject :: "TValue \<Rightarrow> lua_State \<Rightarrow> lua_State vres" where
  "luaA_pushobject v S = rmap (\<lambda>S. S\<lparr>l_top := l_top S + 1\<rparr>) (set_stk (l_top S) v S)"

definition LUAI_MAXCSTACK :: int where "LUAI_MAXCSTACK = 8000"

definition lua_checkstack :: "int \<Rightarrow> lua_State \<Rightarrow> (bool \<times> lua_State) vres" where
  "lua_checkstack n S =
     (if n > LUAI_MAXCSTACK \<or> l_top S - l_base S + n > LUAI_MAXCSTACK then Inr (False, S)
      else if n > 0 then
        rbind (luaD_checkstack n S) (\<lambda>S.
        rbind (get_ci S (l_ci S)) (\<lambda>c.
        if ci_top c < l_top S + n then rmap (\<lambda>S. (True, S)) (upd_ci (l_ci S) (\<lambda>c. c\<lparr>ci_top := l_top S + n\<rparr>) S)
        else Inr (True, S)))
      else Inr (True, S))"

text \<open>\<open>lua_xmove\<close> between two different threads: the values go from one stack to the other, one by one.\<close>

primrec xmove_loop :: "nat \<Rightarrow> int \<Rightarrow> lua_State \<Rightarrow> lua_State \<Rightarrow> lua_State vres" where
  "xmove_loop 0 i src dst = Inr dst"
| "xmove_loop (Suc n) i src dst =
     rbind (stk src (l_top src + i)) (\<lambda>v. rbind (luaA_pushobject v dst) (xmove_loop n (i + 1) src))"

definition lua_xmove :: "lua_State \<Rightarrow> lua_State \<Rightarrow> int \<Rightarrow> (lua_State \<times> lua_State) vres" where
  "lua_xmove src dst n =
     (let src = src\<lparr>l_top := l_top src - n\<rparr> in rmap (\<lambda>dst. (src, dst)) (xmove_loop (nat n) 0 src dst))"

subsection \<open>Stack manipulation\<close>

definition lua_gettop :: "lua_State \<Rightarrow> int" where "lua_gettop S = l_top S - l_base S"

definition lua_settop :: "int \<Rightarrow> lua_State \<Rightarrow> lua_State vres" where
  "lua_settop idx S =
     (if idx \<ge> 0 then
        rmap (\<lambda>S. S\<lparr>l_top := l_base S + idx\<rparr>) (set_nils (nat (l_base S + idx - l_top S)) (l_top S) S)
      else Inr (S\<lparr>l_top := l_top S + (idx + 1)\<rparr>))"

definition lua_pop :: "int \<Rightarrow> lua_State \<Rightarrow> lua_State vres" where "lua_pop n = lua_settop (- n - 1)"

text \<open>The pointer of an index that is compared with the top must be one into the stack.\<close>

definition slot_of :: "adr \<Rightarrow> int vres" where
  "slot_of a = (case a of Slot i \<Rightarrow> Inr i | _ \<Rightarrow> undef ''pointer comparison'')"

definition lua_remove :: "int \<Rightarrow> lua_State \<Rightarrow> lua_State vres" where
  "lua_remove idx S =
     rbind (index2adr S idx) (\<lambda>a.
     rbind (slot_of a) (\<lambda>q.
     rmap (\<lambda>S. S\<lparr>l_top := l_top S - 1\<rparr>) (move_frame (nat (l_top S - (q + 1))) q (q + 1) S)))"

definition lua_insert :: "int \<Rightarrow> lua_State \<Rightarrow> lua_State vres" where
  "lua_insert idx S =
     rbind (index2adr S idx) (\<lambda>a.
     rbind (slot_of a) (\<lambda>q.
     rbind (open_hole (nat (l_top S - q)) (l_top S) S) (\<lambda>S. setobjs2s q (l_top S) S)))"

definition set_env :: "nat \<Rightarrow> nat \<Rightarrow> lua_State \<Rightarrow> lua_State vres" where
  "set_env f e S = rmap (\<lambda>c. S\<lparr>g_closures := (g_closures S)(f \<mapsto>
     (case c of LClosure _ p us \<Rightarrow> LClosure e p us | CClosure _ cf us \<Rightarrow> CClosure e cf us))\<rparr>) (get_closure S f)"

definition hvalue :: "TValue \<Rightarrow> nat vres" where
  "hvalue v = (case v of Table h \<Rightarrow> Inr h | _ \<Rightarrow> undef ''hvalue'')"

definition lua_replace :: "vm_env \<Rightarrow> caller \<Rightarrow> int \<Rightarrow> lua_State \<Rightarrow> lua_State vres" where
  "lua_replace E call idx S =
     (if idx = LUA_ENVIRONINDEX \<and> l_ci S = 0 then luaG_runerror E call ''no calling environment'' [] S
      else
        rbind (index2adr S idx) (\<lambda>a.
        rbind (stk S (l_top S - 1)) (\<lambda>v.
        rmap (\<lambda>S. S\<lparr>l_top := l_top S - 1\<rparr>)
          (if idx = LUA_ENVIRONINDEX
           then rbind (curr_func S) (\<lambda>f. rbind (hvalue v) (\<lambda>e. set_env f e S))
           else write_adr a v S))))"

definition lua_pushvalue :: "int \<Rightarrow> lua_State \<Rightarrow> lua_State vres" where
  "lua_pushvalue idx S = rbind (index_value S idx) (\<lambda>v. luaA_pushobject v S)"

subsection \<open>Access\<close>

definition LUA_TNONE :: int where "LUA_TNONE = - 1"

definition lua_type :: "lua_State \<Rightarrow> int \<Rightarrow> int vres" where
  "lua_type S idx = rbind (index2adr S idx) (\<lambda>a. if a = NilObject then Inr LUA_TNONE else rmap ttype (read_adr S a))"

definition lua_typename :: "int \<Rightarrow> string vres" where
  "lua_typename t = (if t = LUA_TNONE then Inr ''no value'' else ub (aget luaT_typenames t))"

definition value_iscfunction :: "lua_State \<Rightarrow> TValue \<Rightarrow> bool vres" where
  "value_iscfunction S v = (case v of Function a \<Rightarrow> rmap isC (get_closure S a) | _ \<Rightarrow> Inr False)"

definition lua_iscfunction :: "lua_State \<Rightarrow> int \<Rightarrow> bool vres" where
  "lua_iscfunction S idx = rbind (index_value S idx) (value_iscfunction S)"

definition lua_isnumber :: "vm_env \<Rightarrow> lua_State \<Rightarrow> int \<Rightarrow> bool vres" where
  "lua_isnumber E S idx = rmap (\<lambda>v. luaV_tonumber E v \<noteq> None) (index_value S idx)"

definition lua_isstring :: "lua_State \<Rightarrow> int \<Rightarrow> bool vres" where
  "lua_isstring S idx = rmap (\<lambda>t. t = 4 \<or> t = 3) (lua_type S idx)"

definition lua_isuserdata :: "lua_State \<Rightarrow> int \<Rightarrow> bool vres" where
  "lua_isuserdata S idx = rmap (\<lambda>v. ttype v = 7 \<or> ttype v = 2) (index_value S idx)"

definition with_two :: "lua_State \<Rightarrow> int \<Rightarrow> int \<Rightarrow> (TValue \<Rightarrow> TValue \<Rightarrow> (bool \<times> lua_State) vres) \<Rightarrow> (bool \<times> lua_State) vres" where
  "with_two S index1 index2 f =
     rbind (index2adr S index1) (\<lambda>a1.
     rbind (index2adr S index2) (\<lambda>a2.
     if a1 = NilObject \<or> a2 = NilObject then Inr (False, S)
     else rbind (read_adr S a1) (\<lambda>v1. rbind (read_adr S a2) (f v1))))"

definition lua_rawequal :: "lua_State \<Rightarrow> int \<Rightarrow> int \<Rightarrow> bool vres" where
  "lua_rawequal S index1 index2 = rmap fst (with_two S index1 index2 (\<lambda>v1 v2. Inr (luaO_rawequalObj v1 v2, S)))"

definition lua_equal :: "caller \<Rightarrow> int \<Rightarrow> int \<Rightarrow> lua_State \<Rightarrow> (bool \<times> lua_State) vres" where
  "lua_equal call index1 index2 S = with_two S index1 index2 (\<lambda>v1 v2. equalobj call v1 v2 S)"

definition lua_lessthan :: "vm_env \<Rightarrow> caller \<Rightarrow> int \<Rightarrow> int \<Rightarrow> lua_State \<Rightarrow> (bool \<times> lua_State) vres" where
  "lua_lessthan E call index1 index2 S = with_two S index1 index2 (\<lambda>v1 v2. less_than E call v1 v2 S)"

definition lua_tonumber :: "vm_env \<Rightarrow> lua_State \<Rightarrow> int \<Rightarrow> lua_Number vres" where
  "lua_tonumber E S idx = rmap (\<lambda>v. case luaV_tonumber E v of Some n \<Rightarrow> n | None \<Rightarrow> 0) (index_value S idx)"

definition lua_tointeger :: "vm_env \<Rightarrow> lua_State \<Rightarrow> int \<Rightarrow> int vres" where
  "lua_tointeger E S idx = rbind (index_value S idx) (\<lambda>v.
     case luaV_tonumber E v of Some n \<Rightarrow> ub (lua_number2integer n) | None \<Rightarrow> Inr 0)"

definition lua_toboolean :: "lua_State \<Rightarrow> int \<Rightarrow> bool vres" where
  "lua_toboolean S idx = rmap (\<lambda>v. \<not> l_isfalse v) (index_value S idx)"

text \<open>\<open>luaV_tostring\<close> at an address; a number is replaced by its string there.\<close>

definition adr_tostring :: "vm_env \<Rightarrow> adr \<Rightarrow> lua_State \<Rightarrow> (bool \<times> lua_State) vres" where
  "adr_tostring E a S = rbind (read_adr S a) (\<lambda>v. case v of
     Number n \<Rightarrow> rmap (\<lambda>S. (True, S)) (write_adr a (Str (v_num2str E n)) S)
   | _ \<Rightarrow> Inr (False, S))"

definition lua_tolstring :: "vm_env \<Rightarrow> caller \<Rightarrow> int \<Rightarrow> lua_State \<Rightarrow> (string option \<times> lua_State) vres" where
  "lua_tolstring E call idx S =
     rbind (index2adr S idx) (\<lambda>a.
     rbind (read_adr S a) (\<lambda>v. case v of
       Str s \<Rightarrow> Inr (Some s, S)
     | _ \<Rightarrow>
         rbind (adr_tostring E a S) (\<lambda>(b, S).
         if \<not> b then Inr (None, S)
         else
           rbind (v_checkGC E call S) (\<lambda>S.
           rbind (index_value S idx) (\<lambda>v. case v of Str s \<Rightarrow> Inr (Some s, S) | _ \<Rightarrow> undef ''svalue'')))))"

definition lua_objlen :: "vm_env \<Rightarrow> int \<Rightarrow> lua_State \<Rightarrow> (int \<times> lua_State) vres" where
  "lua_objlen E idx S =
     rbind (index2adr S idx) (\<lambda>a.
     rbind (read_adr S a) (\<lambda>v. case v of
       Str s \<Rightarrow> Inr (int (length s), S)
     | Userdata u \<Rightarrow> (case g_udata S u of Some ob \<Rightarrow> Inr (u_len ob, S) | None \<Rightarrow> undef ''userdata'')
     | Table h \<Rightarrow> rbind (get_table S h) (\<lambda>t. rmap (\<lambda>n. (n, S)) (ub (luaH_getn (t_tab t))))
     | Number _ \<Rightarrow>
         rbind (adr_tostring E a S) (\<lambda>(b, S).
         rbind (read_adr S a) (\<lambda>v. case v of Str s \<Rightarrow> Inr (int (length s), S) | _ \<Rightarrow> Inr (0, S)))
     | _ \<Rightarrow> Inr (0, S)))"

definition lua_tocfunction :: "lua_State \<Rightarrow> int \<Rightarrow> nat option vres" where
  "lua_tocfunction S idx = rbind (index_value S idx) (\<lambda>v. case v of
     Function a \<Rightarrow> rmap (\<lambda>c. case c of CClosure e f us \<Rightarrow> Some f | LClosure e p us \<Rightarrow> None) (get_closure S a)
   | _ \<Rightarrow> Inr None)"

text \<open>A pointer to the block of an object, or one that C code gave, is shown by the value that holds it.\<close>

definition lua_touserdata :: "lua_State \<Rightarrow> int \<Rightarrow> TValue option vres" where
  "lua_touserdata S idx = rmap (\<lambda>v. case v of Userdata a \<Rightarrow> Some v | LightUserdata q \<Rightarrow> Some v | _ \<Rightarrow> None) (index_value S idx)"

definition lua_tothread :: "lua_State \<Rightarrow> int \<Rightarrow> nat option vres" where
  "lua_tothread S idx = rmap (\<lambda>v. case v of Thread a \<Rightarrow> Some a | _ \<Rightarrow> None) (index_value S idx)"

definition lua_topointer :: "lua_State \<Rightarrow> int \<Rightarrow> TValue option vres" where
  "lua_topointer S idx = rbind (index_value S idx) (\<lambda>v. case v of
     Table h \<Rightarrow> Inr (Some v) | Function f \<Rightarrow> Inr (Some v) | Thread t \<Rightarrow> Inr (Some v)
   | Userdata u \<Rightarrow> lua_touserdata S idx | LightUserdata q \<Rightarrow> lua_touserdata S idx | _ \<Rightarrow> Inr None)"

subsection \<open>Pushing values\<close>

definition lua_pushnil :: "lua_State \<Rightarrow> lua_State vres" where "lua_pushnil = luaA_pushobject Nil"

definition lua_pushnumber :: "lua_Number \<Rightarrow> lua_State \<Rightarrow> lua_State vres" where
  "lua_pushnumber n = luaA_pushobject (Number n)"

definition lua_pushinteger :: "int \<Rightarrow> lua_State \<Rightarrow> lua_State vres" where
  "lua_pushinteger n = luaA_pushobject (Number (dbl_of_int n))"

definition lua_pushlstring :: "vm_env \<Rightarrow> caller \<Rightarrow> string \<Rightarrow> lua_State \<Rightarrow> lua_State vres" where
  "lua_pushlstring E call s S = rbind (v_checkGC E call S) (luaA_pushobject (Str s))"

text \<open>A null pointer is \<open>None\<close>.\<close>

definition lua_pushstring :: "vm_env \<Rightarrow> caller \<Rightarrow> string option \<Rightarrow> lua_State \<Rightarrow> lua_State vres" where
  "lua_pushstring E call s S = (case s of None \<Rightarrow> lua_pushnil S | Some s \<Rightarrow> lua_pushlstring E call (cstr s) S)"

definition lua_pushfstring :: "vm_env \<Rightarrow> caller \<Rightarrow> string \<Rightarrow> va_arg list \<Rightarrow> lua_State \<Rightarrow> (string \<times> lua_State) vres" where
  "lua_pushfstring E call fmt args S = rbind (v_checkGC E call S) (luaO_pushfstring E fmt args)"

primrec pop_upvalues :: "nat \<Rightarrow> lua_State \<Rightarrow> TValue list vres" where
  "pop_upvalues 0 S = Inr []"
| "pop_upvalues (Suc n) S = rbind (pop_upvalues n S) (\<lambda>us. rmap (\<lambda>v. us @ [v]) (stk S (l_top S + int n)))"

definition lua_pushcclosure :: "vm_env \<Rightarrow> caller \<Rightarrow> nat \<Rightarrow> int \<Rightarrow> lua_State \<Rightarrow> lua_State vres" where
  "lua_pushcclosure E call fn n S =
     rbind (v_checkGC E call S) (\<lambda>S.
     rbind (getcurrenv S) (\<lambda>e.
     case luaF_newCclosure fn (nat n) e S of (a, S) \<Rightarrow>
     let S = S\<lparr>l_top := l_top S - n\<rparr> in
     rbind (pop_upvalues (nat n) S) (\<lambda>us.
     luaA_pushobject (Function a) (S\<lparr>g_closures := (g_closures S)(a \<mapsto> CClosure e fn us)\<rparr>))))"

definition lua_pushcfunction :: "vm_env \<Rightarrow> caller \<Rightarrow> nat \<Rightarrow> lua_State \<Rightarrow> lua_State vres" where
  "lua_pushcfunction E call fn = lua_pushcclosure E call fn 0"

definition lua_pushboolean :: "bool \<Rightarrow> lua_State \<Rightarrow> lua_State vres" where
  "lua_pushboolean b = luaA_pushobject (Boolean b)"

definition lua_pushlightuserdata :: "nat \<Rightarrow> lua_State \<Rightarrow> lua_State vres" where
  "lua_pushlightuserdata q = luaA_pushobject (LightUserdata q)"

subsection \<open>Reading tables\<close>

definition api_incr_top :: "lua_State \<Rightarrow> lua_State" where "api_incr_top S = S\<lparr>l_top := l_top S + 1\<rparr>"

definition lua_gettable :: "vm_env \<Rightarrow> caller \<Rightarrow> int \<Rightarrow> lua_State \<Rightarrow> lua_State vres" where
  "lua_gettable E call idx S =
     rbind (index_ptr S idx) (\<lambda>t. luaV_gettable E call t (PStk (l_top S - 1)) (l_top S - 1) S)"

definition lua_getfield :: "vm_env \<Rightarrow> caller \<Rightarrow> int \<Rightarrow> string \<Rightarrow> lua_State \<Rightarrow> lua_State vres" where
  "lua_getfield E call idx k S =
     rbind (index_ptr S idx) (\<lambda>t.
     rmap api_incr_top (luaV_gettable E call t (PVal (Str (cstr k))) (l_top S) S))"

definition lua_getglobal :: "vm_env \<Rightarrow> caller \<Rightarrow> string \<Rightarrow> lua_State \<Rightarrow> lua_State vres" where
  "lua_getglobal E call = lua_getfield E call LUA_GLOBALSINDEX"

definition index_table :: "lua_State \<Rightarrow> int \<Rightarrow> (nat \<times> TableObj) vres" where
  "index_table S idx = rbind (index_value S idx) (\<lambda>v. rbind (hvalue v) (\<lambda>h. rmap (\<lambda>t. (h, t)) (get_table S h)))"

definition lua_rawget :: "vm_env \<Rightarrow> int \<Rightarrow> lua_State \<Rightarrow> lua_State vres" where
  "lua_rawget E idx S =
     rbind (index_table S idx) (\<lambda>(h, t).
     rbind (stk S (l_top S - 1)) (\<lambda>k.
     rbind (ub (luaH_get (v_num2int E) (t_tab t) k)) (\<lambda>s.
     rbind (ub (read_slot (t_tab t) s)) (\<lambda>v. set_stk (l_top S - 1) v S))))"

definition lua_rawgeti :: "int \<Rightarrow> int \<Rightarrow> lua_State \<Rightarrow> lua_State vres" where
  "lua_rawgeti idx n S =
     rbind (index_table S idx) (\<lambda>(h, t).
     rbind (ub (luaH_getnum (t_tab t) n)) (\<lambda>s.
     rbind (ub (read_slot (t_tab t) s)) (\<lambda>v. luaA_pushobject v S)))"

definition lua_createtable :: "vm_env \<Rightarrow> caller \<Rightarrow> int \<Rightarrow> int \<Rightarrow> lua_State \<Rightarrow> lua_State vres" where
  "lua_createtable E call narray nrec S =
     rbind (v_checkGC E call S) (\<lambda>S. rbind (new_table narray nrec S) (\<lambda>(h, S). luaA_pushobject (Table h) S))"

definition basic_mt :: "lua_State \<Rightarrow> TValue \<Rightarrow> nat option vres" where
  "basic_mt S v = (case v of
     Table h \<Rightarrow> metatable S v | Userdata u \<Rightarrow> metatable S v | _ \<Rightarrow> ub (aget (g_mt S) (ttype v)))"

definition lua_getmetatable :: "int \<Rightarrow> lua_State \<Rightarrow> (bool \<times> lua_State) vres" where
  "lua_getmetatable objindex S =
     rbind (index_value S objindex) (\<lambda>v.
     rbind (basic_mt S v) (\<lambda>mt. case mt of
       None \<Rightarrow> Inr (False, S)
     | Some h \<Rightarrow> rmap (\<lambda>S. (True, S)) (luaA_pushobject (Table h) S)))"

text \<open>The state has no other thread than its own.\<close>

definition value_env :: "lua_State \<Rightarrow> TValue \<Rightarrow> TValue vres" where
  "value_env S v = (case v of
     Function f \<Rightarrow> rmap Table (func_env S f)
   | Userdata u \<Rightarrow> (case g_udata S u of Some ob \<Rightarrow> Inr (Table (u_env ob)) | None \<Rightarrow> undef ''userdata'')
   | Thread t \<Rightarrow> undef ''other thread''
   | _ \<Rightarrow> Inr Nil)"

definition lua_getfenv :: "int \<Rightarrow> lua_State \<Rightarrow> lua_State vres" where
  "lua_getfenv idx S = rbind (index_value S idx) (\<lambda>v. rbind (value_env S v) (\<lambda>e. luaA_pushobject e S))"

subsection \<open>Changing tables\<close>

definition lua_settable :: "vm_env \<Rightarrow> caller \<Rightarrow> int \<Rightarrow> lua_State \<Rightarrow> lua_State vres" where
  "lua_settable E call idx S =
     rbind (index_ptr S idx) (\<lambda>t.
     rmap (\<lambda>S. S\<lparr>l_top := l_top S - 2\<rparr>) (luaV_settable E call t (PStk (l_top S - 2)) (PStk (l_top S - 1)) S))"

definition lua_setfield :: "vm_env \<Rightarrow> caller \<Rightarrow> int \<Rightarrow> string \<Rightarrow> lua_State \<Rightarrow> lua_State vres" where
  "lua_setfield E call idx k S =
     rbind (index_ptr S idx) (\<lambda>t.
     rmap (\<lambda>S. S\<lparr>l_top := l_top S - 1\<rparr>) (luaV_settable E call t (PVal (Str (cstr k))) (PStk (l_top S - 1)) S))"

definition lua_setglobal :: "vm_env \<Rightarrow> caller \<Rightarrow> string \<Rightarrow> lua_State \<Rightarrow> lua_State vres" where
  "lua_setglobal E call = lua_setfield E call LUA_GLOBALSINDEX"

definition lua_rawset :: "vm_env \<Rightarrow> caller \<Rightarrow> int \<Rightarrow> lua_State \<Rightarrow> lua_State vres" where
  "lua_rawset E call idx S =
     rbind (index_value S idx) (\<lambda>t.
     rbind (hvalue t) (\<lambda>h.
     rbind (stk S (l_top S - 2)) (\<lambda>k.
     rbind (settable_set E call h k S) (\<lambda>(s, S).
     rbind (stk S (l_top S - 1)) (\<lambda>v.
     rmap (\<lambda>S. S\<lparr>l_top := l_top S - 2\<rparr>) (write_val h s v S))))))"

definition lua_rawseti :: "vm_env \<Rightarrow> int \<Rightarrow> int \<Rightarrow> lua_State \<Rightarrow> lua_State vres" where
  "lua_rawseti E idx n S =
     rbind (index_table S idx) (\<lambda>(h, t).
     rbind (stk S (l_top S - 1)) (\<lambda>v.
     rmap (\<lambda>t'. put_table h (t\<lparr>t_tab := t'\<rparr>) (S\<lparr>l_top := l_top S - 1\<rparr>))
       (ub (store_at v (luaH_setnum (v_num2int E) (t_tab t) n)))))"

definition set_metatable :: "TValue \<Rightarrow> nat option \<Rightarrow> lua_State \<Rightarrow> lua_State vres" where
  "set_metatable v mt S = (case v of
     Table h \<Rightarrow> rmap (\<lambda>t. put_table h (t\<lparr>t_metatable := mt\<rparr>) S) (get_table S h)
   | Userdata u \<Rightarrow> (case g_udata S u of
       Some ob \<Rightarrow> Inr (S\<lparr>g_udata := (g_udata S)(u \<mapsto> ob\<lparr>u_metatable := mt\<rparr>)\<rparr>) | None \<Rightarrow> undef ''userdata'')
   | _ \<Rightarrow> rmap (\<lambda>m. S\<lparr>g_mt := m\<rparr>) (ub (aput (g_mt S) (ttype v) mt)))"

definition lua_setmetatable :: "int \<Rightarrow> lua_State \<Rightarrow> lua_State vres" where
  "lua_setmetatable objindex S =
     rbind (index_value S objindex) (\<lambda>obj.
     rbind (stk S (l_top S - 1)) (\<lambda>v.
     rbind (if v = Nil then Inr None else rmap Some (hvalue v)) (\<lambda>mt.
     rmap (\<lambda>S. S\<lparr>l_top := l_top S - 1\<rparr>) (set_metatable obj mt S))))"

definition lua_setfenv :: "int \<Rightarrow> lua_State \<Rightarrow> (bool \<times> lua_State) vres" where
  "lua_setfenv idx S =
     rbind (index_value S idx) (\<lambda>v.
     rbind (stk S (l_top S - 1)) (\<lambda>e.
     rmap (\<lambda>(r, S). (r, S\<lparr>l_top := l_top S - 1\<rparr>))
       (case v of
          Function f \<Rightarrow> rbind (hvalue e) (\<lambda>e. rmap (\<lambda>S. (True, S)) (set_env f e S))
        | Userdata u \<Rightarrow> rbind (hvalue e) (\<lambda>e. case g_udata S u of
            Some ob \<Rightarrow> Inr (True, S\<lparr>g_udata := (g_udata S)(u \<mapsto> ob\<lparr>u_env := e\<rparr>)\<rparr>) | None \<Rightarrow> undef ''userdata'')
        | Thread t \<Rightarrow> undef ''other thread''
        | _ \<Rightarrow> Inr (False, S))))"

subsection \<open>Loading and calling\<close>

definition adjustresults :: "int \<Rightarrow> lua_State \<Rightarrow> lua_State vres" where
  "adjustresults nres S =
     (if nres = LUA_MULTRET then
        rbind (get_ci S (l_ci S)) (\<lambda>c.
        if l_top S \<ge> ci_top c then upd_ci (l_ci S) (\<lambda>c. c\<lparr>ci_top := l_top S\<rparr>) S else Inr S)
      else Inr S)"

definition lua_call :: "caller \<Rightarrow> int \<Rightarrow> int \<Rightarrow> lua_State \<Rightarrow> lua_State vres" where
  "lua_call call nargs nresults S =
     rbind (call (l_top S - (nargs + 1)) nresults S) (adjustresults nresults)"

definition status_code :: "lua_status option \<Rightarrow> int" where
  "status_code st = (case st of None \<Rightarrow> 0 | Some e \<Rightarrow> status_num e)"

definition lua_pcall :: "caller \<Rightarrow> int \<Rightarrow> int \<Rightarrow> int \<Rightarrow> lua_State \<Rightarrow> (int \<times> lua_State) vres" where
  "lua_pcall call nargs nresults errfunc S =
     rbind (if errfunc = 0 then Inr 0 else rbind (index2adr S errfunc) slot_of) (\<lambda>ef.
     let func = l_top S - (nargs + 1) in
     rbind (luaD_pcall (call func nresults) func ef S) (\<lambda>(st, S).
     rmap (\<lambda>S. (status_code st, S)) (adjustresults nresults S)))"

definition f_Ccall :: "caller \<Rightarrow> nat \<Rightarrow> nat \<Rightarrow> lua_State \<Rightarrow> lua_State vres" where
  "f_Ccall call fn ud S =
     rbind (getcurrenv S) (\<lambda>e.
     case luaF_newCclosure fn 0 e S of (a, S) \<Rightarrow>
     rbind (luaA_pushobject (Function a) S) (\<lambda>S.
     rbind (luaA_pushobject (LightUserdata ud) S) (\<lambda>S. call (l_top S - 2) 0 S)))"

definition lua_cpcall :: "caller \<Rightarrow> nat \<Rightarrow> nat \<Rightarrow> lua_State \<Rightarrow> (int \<times> lua_State) vres" where
  "lua_cpcall call fn ud S = rmap (\<lambda>(st, S). (status_code st, S)) (luaD_pcall (f_Ccall call fn ud) (l_top S) 0 S)"

definition lua_load :: "vm_env \<Rightarrow> caller \<Rightarrow> (ZIO \<Rightarrow> Mbuffer \<Rightarrow> string \<Rightarrow> (Proto \<times> LoadState) res) \<Rightarrow> byte list list \<Rightarrow> string option \<Rightarrow>
    lua_State \<Rightarrow> (int \<times> lua_State) vres" where
  "lua_load E call parser blocks chunkname S =
     rmap (\<lambda>(st, S). (status_code st, S))
       (luaD_protectedparser E call parser (luaZ_init blocks) (case chunkname of None \<Rightarrow> ''?'' | Some s \<Rightarrow> s) S)"

definition lua_dump :: "(byte list \<Rightarrow> 'w \<Rightarrow> int \<times> 'w) \<Rightarrow> 'w \<Rightarrow> lua_State \<Rightarrow> (int \<times> 'w) vres" where
  "lua_dump w d S =
     rbind (stk S (l_top S - 1)) (\<lambda>v. case v of
       Function f \<Rightarrow> rmap (\<lambda>c. case c of LClosure e p us \<Rightarrow> luaU_dump p w d False | CClosure e cf us \<Rightarrow> (1, d)) (get_closure S f)
     | _ \<Rightarrow> Inr (1, d))"

subsection \<open>Miscellaneous\<close>

definition lua_error :: "caller \<Rightarrow> lua_State \<Rightarrow> 'a vres" where "lua_error call S = luaG_errormsg call S"

definition lua_next :: "vm_env \<Rightarrow> caller \<Rightarrow> int \<Rightarrow> lua_State \<Rightarrow> (bool \<times> lua_State) vres" where
  "lua_next E call idx S =
     rbind (index_table S idx) (\<lambda>(h, t).
     rbind (stk S (l_top S - 1)) (\<lambda>k.
     rbind (raising E call S (luaH_next (v_num2int E) (t_tab t) k)) (\<lambda>r. case r of
       Some (k, v) \<Rightarrow> rbind (set_stk (l_top S - 1) k S) (\<lambda>S. rmap (\<lambda>S. (True, api_incr_top S)) (set_stk (l_top S) v S))
     | None \<Rightarrow> Inr (False, S\<lparr>l_top := l_top S - 1\<rparr>))))"

definition lua_concat :: "vm_env \<Rightarrow> caller \<Rightarrow> int \<Rightarrow> lua_State \<Rightarrow> lua_State vres" where
  "lua_concat E call n S =
     (if n \<ge> 2 then
        rbind (v_checkGC E call S) (\<lambda>S.
        rmap (\<lambda>S. S\<lparr>l_top := l_top S - (n - 1)\<rparr>) (luaV_concat E call n (l_top S - l_base S - 1) S))
      else if n = 0 then luaA_pushobject (Str []) S
      else Inr S)"

definition lua_newuserdata :: "vm_env \<Rightarrow> caller \<Rightarrow> int \<Rightarrow> lua_State \<Rightarrow> lua_State vres" where
  "lua_newuserdata E call sz S =
     rbind (v_checkGC E call S) (\<lambda>S.
     rbind (getcurrenv S) (\<lambda>e.
     if sz > MAX_SIZET - 40 then luaG_runerror E call ''memory allocation error: block too big'' [] S
     else luaA_pushobject (Userdata (g_alloc S))
       (S\<lparr>g_udata := (g_udata S)(g_alloc S \<mapsto> \<lparr>u_metatable = None, u_env = e, u_len = sz\<rparr>), g_alloc := g_alloc S + 1\<rparr>)))"

text \<open>The name of an upvalue and the place of its value.\<close>

datatype up_place = UpC nat int | UpL nat

definition aux_upvalue :: "lua_State \<Rightarrow> TValue \<Rightarrow> int \<Rightarrow> (string \<times> up_place) option vres" where
  "aux_upvalue S fi n = (case fi of
     Function f \<Rightarrow> rbind (get_closure S f) (\<lambda>c. case c of
       CClosure e cf us \<Rightarrow>
         if \<not> (1 \<le> n \<and> n \<le> int (length us)) then Inr None else Inr (Some ([], UpC f (n - 1)))
     | LClosure e p us \<Rightarrow>
         if \<not> (1 \<le> n \<and> n \<le> int (length (f_upvalues p))) then Inr None
         else
           rbind (cl_upval us (n - 1)) (\<lambda>u.
           rbind (ub (aget (f_upvalues p) (n - 1))) (\<lambda>name.
           case name of Some s \<Rightarrow> Inr (Some (cstr s, UpL u)) | None \<Rightarrow> undef ''null string'')))
   | _ \<Rightarrow> Inr None)"

definition lua_getupvalue :: "int \<Rightarrow> int \<Rightarrow> lua_State \<Rightarrow> (string option \<times> lua_State) vres" where
  "lua_getupvalue funcindex n S =
     rbind (index_value S funcindex) (\<lambda>fi.
     rbind (aux_upvalue S fi n) (\<lambda>r. case r of
       None \<Rightarrow> Inr (None, S)
     | Some (name, pl) \<Rightarrow>
         rbind (case pl of UpC f i \<Rightarrow> read_adr S (Upvalue f i) | UpL u \<Rightarrow> uv_get S u) (\<lambda>v.
         rmap (\<lambda>S. (Some name, S)) (luaA_pushobject v S))))"

definition lua_setupvalue :: "int \<Rightarrow> int \<Rightarrow> lua_State \<Rightarrow> (string option \<times> lua_State) vres" where
  "lua_setupvalue funcindex n S =
     rbind (index_value S funcindex) (\<lambda>fi.
     rbind (aux_upvalue S fi n) (\<lambda>r. case r of
       None \<Rightarrow> Inr (None, S)
     | Some (name, pl) \<Rightarrow>
         rbind (stk S (l_top S - 1)) (\<lambda>v.
         rmap (\<lambda>S. (Some name, S))
           (let S = S\<lparr>l_top := l_top S - 1\<rparr> in case pl of UpC f i \<Rightarrow> write_adr (Upvalue f i) v S | UpL u \<Rightarrow> uv_set u v S))))"

end
