(* ===== verification/ApiProps.thy ===== *)
theory ApiProps
  imports Api
begin

text \<open>
  The frame of a C function as a list of values: the stack functions of \<open>lua/lapi.c\<close> refine operations on that list.
\<close>

subsection \<open>The frame\<close>

definition frame :: "lua_State \<Rightarrow> TValue list" where
  "frame S = take (nat (l_top S - l_base S)) (drop (nat (l_base S)) (l_stack S))"

text \<open>\<open>n\<close> slots are free above the frame.\<close>

definition frame_ok :: "int \<Rightarrow> lua_State \<Rightarrow> bool" where
  "frame_ok n S \<longleftrightarrow> 0 \<le> l_base S \<and> l_base S \<le> l_top S \<and> l_top S + n \<le> l_stacksize S \<and> 0 \<le> n"

text \<open>\<open>S'\<close> is \<open>S\<close> but for the frame, which is \<open>xs\<close> now, and the slots above it.\<close>

definition reframed :: "lua_State \<Rightarrow> TValue list \<Rightarrow> lua_State \<Rightarrow> bool" where
  "reframed S xs S' \<longleftrightarrow> (\<exists>st. S' = S\<lparr>l_stack := st, l_top := l_base S + int (length xs)\<rparr> \<and> length st = length (l_stack S) \<and>
     (\<forall>j < nat (l_base S). st ! j = l_stack S ! j) \<and> (\<forall>k < length xs. st ! (nat (l_base S) + k) = xs ! k) \<and>
     nat (l_base S) + length xs \<le> length st)"

lemma frame_length: "frame_ok n S \<Longrightarrow> length (frame S) = nat (l_top S - l_base S)"
  by (auto simp: frame_def frame_ok_def l_stacksize_def)

lemma frame_nth: "frame_ok n S \<Longrightarrow> k < length (frame S) \<Longrightarrow> frame S ! k = l_stack S ! (nat (l_base S) + k)"
  by (auto simp: frame_def frame_ok_def l_stacksize_def)

lemma reframed_frame: "reframed S xs S' \<Longrightarrow> 0 \<le> l_base S \<Longrightarrow> frame S' = xs"
  by (auto simp: reframed_def frame_def intro!: nth_equalityI)

lemma reframed_ok:
  assumes "reframed S xs S'" "frame_ok n S" "int (length xs) + m \<le> int (length (frame S)) + n" "0 \<le> m"
  shows "frame_ok m S'"
  using assms frame_length [OF assms(2)] by (auto simp: reframed_def frame_ok_def l_stacksize_def)

lemma reframed_trans: "reframed S xs S1 \<Longrightarrow> reframed S1 ys S2 \<Longrightarrow> reframed S ys S2"
  by (auto simp: reframed_def)

lemma reframed_refl: "frame_ok n S \<Longrightarrow> reframed S (frame S) S"
  using frame_length [of n S] unfolding reframed_def
  by (intro exI [of _ "l_stack S"]) (auto simp: frame_nth frame_ok_def l_stacksize_def)

lemma reframed_fields:
  assumes "reframed S xs S'"
  shows "S' = S\<lparr>l_stack := l_stack S', l_top := l_base S + int (length xs)\<rparr>" "length (l_stack S') = length (l_stack S)"
    "take (nat (l_base S)) (l_stack S') = take (nat (l_base S)) (l_stack S)"
  using assms by (auto simp: reframed_def intro!: nth_equalityI)

subsection \<open>Slots\<close>

lemma stk_in: "0 \<le> i \<Longrightarrow> i < l_stacksize S \<Longrightarrow> stk S i = Inr (l_stack S ! nat i)"
  by (simp add: stk_def aget_in l_stacksize_def)

lemma set_stk_in: "0 \<le> i \<Longrightarrow> i < l_stacksize S \<Longrightarrow> set_stk i v S = Inr (S\<lparr>l_stack := (l_stack S)[nat i := v]\<rparr>)"
  by (simp add: set_stk_def aput_in l_stacksize_def)

lemma set_nils_spec:
  "0 \<le> i \<Longrightarrow> i + int n \<le> l_stacksize S \<Longrightarrow> \<exists>st. set_nils n i S = Inr (S\<lparr>l_stack := st\<rparr>) \<and> length st = length (l_stack S) \<and>
     (\<forall>j. st ! j = (if i \<le> int j \<and> int j < i + int n then Nil else l_stack S ! j))"
proof (induction n arbitrary: i S)
  case 0
  then show ?case by (intro exI [of _ "l_stack S"]) auto
next
  case (Suc n)
  let ?S = "S\<lparr>l_stack := (l_stack S)[nat i := Nil]\<rparr>"
  from Suc.IH [of "i + 1" ?S] Suc.prems obtain st where
    st: "set_nils n (i + 1) ?S = Inr (S\<lparr>l_stack := st\<rparr>)" "length st = length (l_stack S)"
      "\<forall>j. st ! j = (if i + 1 \<le> int j \<and> int j < i + 1 + int n then Nil else l_stack ?S ! j)"
    by (auto simp: l_stacksize_def)
  have "st ! j = (if i \<le> int j \<and> int j < i + int (Suc n) then Nil else l_stack S ! j)" for j
    using st(3) Suc.prems by (cases "j = nat i") (auto simp: l_stacksize_def)
  with st Suc.prems show ?case by (intro exI [of _ st]) (simp add: set_stk_in)
qed

lemma open_hole_spec:
  "int n \<le> q \<Longrightarrow> q < l_stacksize S \<Longrightarrow> \<exists>st. open_hole n q S = Inr (S\<lparr>l_stack := st\<rparr>) \<and> length st = length (l_stack S) \<and>
     (\<forall>j. st ! j = (if q - int n < int j \<and> int j \<le> q then l_stack S ! (j - 1) else l_stack S ! j))"
proof (induction n arbitrary: q S)
  case 0
  then show ?case by (intro exI [of _ "l_stack S"]) auto
next
  case (Suc n)
  let ?S = "S\<lparr>l_stack := (l_stack S)[nat q := l_stack S ! nat (q - 1)]\<rparr>"
  from Suc.IH [of "q - 1" ?S] Suc.prems obtain st where
    st: "open_hole n (q - 1) ?S = Inr (S\<lparr>l_stack := st\<rparr>)" "length st = length (l_stack S)"
      "\<forall>j. st ! j = (if q - 1 - int n < int j \<and> int j \<le> q - 1 then l_stack ?S ! (j - 1) else l_stack ?S ! j)"
    by (auto simp: l_stacksize_def)
  have "st ! j = (if q - int (Suc n) < int j \<and> int j \<le> q then l_stack S ! (j - 1) else l_stack S ! j)" for j
    using st(3) Suc.prems by (cases "j = nat q") (auto simp: l_stacksize_def nat_diff_distrib)
  with st Suc.prems show ?case by (intro exI [of _ st]) (simp add: set_stk_in stk_in setobjs2s_def)
qed

lemma move_frame_spec:
  "0 \<le> q \<Longrightarrow> q + 1 + int n \<le> l_stacksize S \<Longrightarrow> \<exists>st. move_frame n q (q + 1) S = Inr (S\<lparr>l_stack := st\<rparr>) \<and>
     length st = length (l_stack S) \<and>
     (\<forall>j. st ! j = (if q \<le> int j \<and> int j < q + int n then l_stack S ! (j + 1) else l_stack S ! j))"
proof (induction n arbitrary: q S)
  case 0
  then show ?case by (intro exI [of _ "l_stack S"]) auto
next
  case (Suc n)
  let ?S = "S\<lparr>l_stack := (l_stack S)[nat q := l_stack S ! nat (q + 1)]\<rparr>"
  from Suc.IH [of "q + 1" ?S] Suc.prems obtain st where
    st: "move_frame n (q + 1) (q + 1 + 1) ?S = Inr (S\<lparr>l_stack := st\<rparr>)" "length st = length (l_stack S)"
      "\<forall>j. st ! j = (if q + 1 \<le> int j \<and> int j < q + 1 + int n then l_stack ?S ! (j + 1) else l_stack ?S ! j)"
    by (auto simp: l_stacksize_def)
  have "st ! j = (if q \<le> int j \<and> int j < q + int (Suc n) then l_stack S ! (j + 1) else l_stack S ! j)" for j
    using st(3) Suc.prems by (cases "j = nat q") (auto simp: l_stacksize_def nat_add_distrib)
  with st Suc.prems show ?case by (intro exI [of _ st]) (simp add: set_stk_in stk_in setobjs2s_def)
qed


subsection \<open>The stack functions\<close>

text \<open>The position that an index names in a frame of \<open>n\<close> values.\<close>

definition frame_pos :: "nat \<Rightarrow> int \<Rightarrow> nat option" where
  "frame_pos n idx =
     (if 1 \<le> idx \<and> idx \<le> int n then Some (nat (idx - 1))
      else if - int n \<le> idx \<and> idx \<le> - 1 then Some (nat (int n + idx)) else None)"

lemma index2adr_pos:
  assumes "frame_ok m S" "frame_pos (length (frame S)) idx = Some k" "idx > LUA_REGISTRYINDEX"
  shows "index2adr S idx = Inr (Slot (l_base S + int k))" "k < length (frame S)"
  using assms frame_length [OF assms(1)]
  by (auto simp: frame_pos_def index2adr_def frame_ok_def Let_def split: if_splits)

lemma slot_value: "frame_ok m S \<Longrightarrow> k < length (frame S) \<Longrightarrow> stk S (l_base S + int k) = Inr (frame S ! k)"
  using frame_length [of m S] frame_nth [of m S k]
  by (auto simp: stk_in frame_ok_def nat_add_distrib)

lemma push_frame:
  assumes "frame_ok m S" "1 \<le> m"
  shows "\<exists>S'. luaA_pushobject v S = Inr S' \<and> reframed S (frame S @ [v]) S'"
proof -
  have l: "length (frame S) = nat (l_top S - l_base S)" using assms(1) by (rule frame_length)
  have "luaA_pushobject v S = Inr (S\<lparr>l_stack := (l_stack S)[nat (l_top S) := v], l_top := l_top S + 1\<rparr>)"
    using assms by (simp add: luaA_pushobject_def set_stk_in frame_ok_def)
  moreover have "reframed S (frame S @ [v]) (S\<lparr>l_stack := (l_stack S)[nat (l_top S) := v], l_top := l_top S + 1\<rparr>)"
    using assms l unfolding reframed_def
    by (intro exI [of _ "(l_stack S)[nat (l_top S) := v]"])
      (auto simp: frame_ok_def l_stacksize_def nth_append nth_list_update frame_nth [OF assms(1)])
  ultimately show ?thesis by blast
qed

lemma frame_okE:
  assumes "frame_ok m S"
  obtains b where "l_base S = int b" "l_top S = int b + int (length (frame S))" "b + length (frame S) + nat m \<le> length (l_stack S)" "0 \<le> m"
  using assms frame_length [OF assms] that [of "nat (l_base S)"] by (auto simp: frame_ok_def l_stacksize_def)

lemma settop_frame:
  assumes "frame_ok m S" "0 \<le> idx \<Longrightarrow> idx \<le> int (length (frame S)) + m" "idx < 0 \<Longrightarrow> - (idx + 1) \<le> int (length (frame S))"
  shows "\<exists>S'. lua_settop idx S = Inr S' \<and> reframed S
     (if 0 \<le> idx then take (nat idx) (frame S @ replicate (nat idx) Nil) else take (nat (int (length (frame S)) + idx + 1)) (frame S)) S'"
proof -
  obtain b where b: "l_base S = int b" "l_top S = int b + int (length (frame S))"
    "b + length (frame S) + nat m \<le> length (l_stack S)" "0 \<le> m" using assms(1) by (rule frame_okE)
  show ?thesis
  proof (cases "0 \<le> idx")
    case True
    let ?n = "nat idx - length (frame S)"
    have n: "nat (l_base S + idx - l_top S) = ?n" using b True by simp
    have "l_top S + int ?n \<le> l_stacksize S" using assms(2) [OF True] b True by (simp add: l_stacksize_def)
    with set_nils_spec [of "l_top S" ?n S] b obtain st where st: "set_nils ?n (l_top S) S = Inr (S\<lparr>l_stack := st\<rparr>)"
      "length st = length (l_stack S)"
      "\<forall>j. st ! j = (if l_top S \<le> int j \<and> int j < l_top S + int ?n then Nil else l_stack S ! j)" by auto
    let ?S = "S\<lparr>l_stack := st, l_top := l_base S + idx\<rparr>"
    have "lua_settop idx S = Inr ?S" using True st(1) unfolding lua_settop_def n by simp
    moreover have "reframed S (take (nat idx) (frame S @ replicate (nat idx) Nil)) ?S"
      using st(2,3) b True assms(2) unfolding reframed_def
      by (intro exI [of _ st]) (auto simp: nth_append frame_nth [OF assms(1)])
    ultimately show ?thesis using True by auto
  next
    case False
    have "lua_settop idx S = Inr (S\<lparr>l_stack := l_stack S, l_top := l_top S + (idx + 1)\<rparr>)" using False by (simp add: lua_settop_def)
    moreover have "reframed S (take (nat (int (length (frame S)) + idx + 1)) (frame S)) (S\<lparr>l_stack := l_stack S, l_top := l_top S + (idx + 1)\<rparr>)"
      using b False assms(3) unfolding reframed_def
      by (intro exI [of _ "l_stack S"]) (auto simp: frame_nth [OF assms(1)])
    ultimately show ?thesis using False by auto
  qed
qed

lemma remove_frame:
  assumes "frame_ok m S" "frame_pos (length (frame S)) idx = Some k" "idx > LUA_REGISTRYINDEX"
  shows "\<exists>S'. lua_remove idx S = Inr S' \<and> reframed S (take k (frame S) @ drop (Suc k) (frame S)) S'"
proof -
  obtain b where b: "l_base S = int b" "l_top S = int b + int (length (frame S))"
    "b + length (frame S) + nat m \<le> length (l_stack S)" "0 \<le> m" using assms(1) by (rule frame_okE)
  note i = index2adr_pos [OF assms]
  let ?q = "l_base S + int k" and ?n = "length (frame S) - Suc k"
  have n: "nat (l_top S - (?q + 1)) = ?n" using b i(2) by simp
  have "?q + 1 + int ?n \<le> l_stacksize S" using b i(2) by (simp add: l_stacksize_def)
  with move_frame_spec [of ?q ?n S] b obtain st where st: "move_frame ?n ?q (?q + 1) S = Inr (S\<lparr>l_stack := st\<rparr>)"
    "length st = length (l_stack S)"
    "\<forall>j. st ! j = (if ?q \<le> int j \<and> int j < ?q + int ?n then l_stack S ! (j + 1) else l_stack S ! j)" by auto
  have "lua_remove idx S = Inr (S\<lparr>l_stack := st, l_top := l_top S - 1\<rparr>)"
    using st(1) i(1) by (simp add: lua_remove_def slot_of_def n del: nat_diff_distrib)
  moreover have "reframed S (take k (frame S) @ drop (Suc k) (frame S)) (S\<lparr>l_stack := st, l_top := l_top S - 1\<rparr>)"
    using st(2,3) i(2) b unfolding reframed_def
    by (intro exI [of _ st]) (auto simp: nth_append frame_nth [OF assms(1)])
  ultimately show ?thesis by blast
qed

lemma insert_frame:
  assumes "frame_ok m S" "frame_pos (length (frame S)) idx = Some k" "idx > LUA_REGISTRYINDEX" "1 \<le> m"
  shows "\<exists>S'. lua_insert idx S = Inr S' \<and>
    reframed S (take k (frame S) @ last (frame S) # drop k (butlast (frame S))) S'"
proof -
  obtain b where b: "l_base S = int b" "l_top S = int b + int (length (frame S))"
    "b + length (frame S) + nat m \<le> length (l_stack S)" "0 \<le> m" using assms(1) by (rule frame_okE)
  note i = index2adr_pos [OF assms(1,2,3)]
  let ?q = "l_base S + int k" and ?n = "length (frame S) - k"
  have n: "nat (l_top S - ?q) = ?n" using b i(2) by simp
  have "int ?n \<le> l_top S" "l_top S < l_stacksize S" using b i(2) assms(4) by (auto simp: l_stacksize_def)
  with open_hole_spec [of ?n "l_top S" S] obtain st where st: "open_hole ?n (l_top S) S = Inr (S\<lparr>l_stack := st\<rparr>)"
    "length st = length (l_stack S)"
    "\<forall>j. st ! j = (if l_top S - int ?n < int j \<and> int j \<le> l_top S then l_stack S ! (j - 1) else l_stack S ! j)" by auto
  let ?st = "st[nat ?q := st ! nat (l_top S)]"
  have "lua_insert idx S = Inr (S\<lparr>l_stack := ?st\<rparr>)"
    unfolding lua_insert_def i(1) rbind_simps slot_of_def adr.case n st(1) setobjs2s_def
    using st(2) i b assms(4) by (simp add: stk_in set_stk_in l_stacksize_def)
  moreover have "reframed S (take k (frame S) @ last (frame S) # drop k (butlast (frame S))) (S\<lparr>l_stack := ?st\<rparr>)"
  proof -
    have len: "length (take k (frame S) @ last (frame S) # drop k (butlast (frame S))) = length (frame S)" using i(2) by simp
    have lst: "st ! (b + length (frame S)) = last (frame S)"
      using st(3) b i(2) frame_nth [OF assms(1), of "length (frame S) - 1"] last_conv_nth [of "frame S"] by fastforce
    have "?st ! (b + j) = (take k (frame S) @ last (frame S) # drop k (butlast (frame S))) ! j" if "j < length (frame S)" for j
    proof -
      consider "j < k" | "j = k" | "k < j" by linarith
      then show ?thesis
      proof cases
        case 1
        with that st b i(2) show ?thesis by (auto simp: nth_append frame_nth [OF assms(1)])
      next
        case 2
        with that st b i(2) lst show ?thesis by (simp add: nth_append nat_add_distrib)
      next
        case 3
        then obtain r where r: "j = Suc (k + r)" using less_imp_Suc_add by blast
        with that st b i(2) show ?thesis by (auto simp: nth_append nth_butlast frame_nth [OF assms(1)])
      qed
    qed
    with b st(2,3) i(2) len show ?thesis unfolding reframed_def by (intro exI [of _ ?st]) auto
  qed
  ultimately show ?thesis by blast
qed

lemma replace_frame:
  assumes "frame_ok m S" "frame_pos (length (frame S)) idx = Some k" "idx > LUA_REGISTRYINDEX"
  shows "\<exists>S'. lua_replace E call idx S = Inr S' \<and> reframed S (butlast ((frame S)[k := last (frame S)])) S'"
proof -
  obtain b where b: "l_base S = int b" "l_top S = int b + int (length (frame S))"
    "b + length (frame S) + nat m \<le> length (l_stack S)" "0 \<le> m" using assms(1) by (rule frame_okE)
  note i = index2adr_pos [OF assms]
  have e: "idx \<noteq> LUA_ENVIRONINDEX" using assms(3) by (simp add: LUA_REGISTRYINDEX_def LUA_ENVIRONINDEX_def)
  have "frame S \<noteq> []" using i(2) by auto
  then have v: "stk S (l_top S - 1) = Inr (last (frame S))"
    using slot_value [OF assms(1), of "length (frame S) - 1"] b i(2) by (auto simp: last_conv_nth algebra_simps of_nat_diff)
  let ?st = "(l_stack S)[b + k := last (frame S)]"
  have "lua_replace E call idx S = Inr (S\<lparr>l_stack := ?st, l_top := l_top S - 1\<rparr>)"
    using e i v b by (simp add: lua_replace_def write_adr_def set_stk_in l_stacksize_def nat_add_distrib)
  moreover have "reframed S (butlast ((frame S)[k := last (frame S)])) (S\<lparr>l_stack := ?st, l_top := l_top S - 1\<rparr>)"
    using b i(2) unfolding reframed_def
    by (intro exI [of _ ?st]) (auto simp: nth_butlast nth_list_update frame_nth [OF assms(1)])
  ultimately show ?thesis by blast
qed

lemma pushvalue_frame:
  assumes "frame_ok m S" "frame_pos (length (frame S)) idx = Some k" "idx > LUA_REGISTRYINDEX" "1 \<le> m"
  shows "\<exists>S'. lua_pushvalue idx S = Inr S' \<and> reframed S (frame S @ [frame S ! k]) S'"
  using push_frame [OF assms(1,4)] index2adr_pos [OF assms(1-3)] slot_value [OF assms(1)]
  by (simp add: lua_pushvalue_def index_value_def read_adr_def)

subsection \<open>Sequences of calls\<close>

datatype stack_call = Push TValue | SetTop int | Remove int | Insert int | Replace int | PushValue int

primrec api_run :: "vm_env \<Rightarrow> caller \<Rightarrow> stack_call \<Rightarrow> lua_State \<Rightarrow> lua_State vres" where
  "api_run E call (Push v) S = luaA_pushobject v S"
| "api_run E call (SetTop idx) S = lua_settop idx S"
| "api_run E call (Remove idx) S = lua_remove idx S"
| "api_run E call (Insert idx) S = lua_insert idx S"
| "api_run E call (Replace idx) S = lua_replace E call idx S"
| "api_run E call (PushValue idx) S = lua_pushvalue idx S"

primrec api_runs :: "vm_env \<Rightarrow> caller \<Rightarrow> stack_call list \<Rightarrow> lua_State \<Rightarrow> lua_State vres" where
  "api_runs E call [] S = Inr S"
| "api_runs E call (c # cs) S = rbind (api_run E call c S) (api_runs E call cs)"

text \<open>What the calls promise on the list of values of a frame with \<open>cap\<close> slots, the last of them for \<open>lua_insert\<close>.\<close>

definition on_pos :: "TValue list \<Rightarrow> int \<Rightarrow> (nat \<Rightarrow> TValue list) \<Rightarrow> TValue list option" where
  "on_pos xs idx f = (if idx > LUA_REGISTRYINDEX then map_option f (frame_pos (length xs) idx) else None)"

definition list_run :: "nat \<Rightarrow> stack_call \<Rightarrow> TValue list \<Rightarrow> TValue list option" where
  "list_run cap c xs = (case c of
     Push v \<Rightarrow> if length xs < cap then Some (xs @ [v]) else None
   | SetTop idx \<Rightarrow>
       if 0 \<le> idx \<and> idx \<le> int cap then Some (take (nat idx) (xs @ replicate (nat idx) Nil))
       else if idx < 0 \<and> - (idx + 1) \<le> int (length xs) then Some (take (nat (int (length xs) + idx + 1)) xs)
       else None
   | Remove idx \<Rightarrow> on_pos xs idx (\<lambda>k. take k xs @ drop (Suc k) xs)
   | Insert idx \<Rightarrow> if length xs < cap then on_pos xs idx (\<lambda>k. take k xs @ last xs # drop k (butlast xs)) else None
   | Replace idx \<Rightarrow> on_pos xs idx (\<lambda>k. butlast (xs[k := last xs]))
   | PushValue idx \<Rightarrow> if length xs < cap then on_pos xs idx (\<lambda>k. xs @ [xs ! k]) else None)"

primrec list_runs :: "nat \<Rightarrow> stack_call list \<Rightarrow> TValue list \<Rightarrow> TValue list option" where
  "list_runs cap [] xs = Some xs"
| "list_runs cap (c # cs) xs = (case list_run cap c xs of Some ys \<Rightarrow> list_runs cap cs ys | None \<Rightarrow> None)"

lemma frame_pos_less: "frame_pos n idx = Some k \<Longrightarrow> k < n"
  by (auto simp: frame_pos_def split: if_splits)

lemma list_run_length: "list_run cap c xs = Some ys \<Longrightarrow> length xs \<le> cap \<Longrightarrow> length ys \<le> cap"
  by (auto simp: list_run_def on_pos_def dest!: frame_pos_less split: stack_call.splits if_splits)

lemma api_run_refines:
  assumes "frame_ok m S" "list_run (length (frame S) + nat m) c (frame S) = Some ys"
  shows "\<exists>S'. api_run E call c S = Inr S' \<and> reframed S ys S'"
proof -
  have m: "0 \<le> m" using assms(1) by (simp add: frame_ok_def)
  show ?thesis
  proof (cases c)
    case (Push v)
    with assms m push_frame [OF assms(1), of v] show ?thesis by (auto simp: list_run_def split: if_splits)
  next
    case (SetTop idx)
    with assms m settop_frame [OF assms(1), of idx] show ?thesis by (auto simp: list_run_def split: if_splits)
  next
    case (Remove idx)
    with assms remove_frame [OF assms(1)] show ?thesis by (auto simp: list_run_def on_pos_def split: if_splits)
  next
    case (Insert idx)
    with assms m insert_frame [OF assms(1)] show ?thesis by (auto simp: list_run_def on_pos_def split: if_splits)
  next
    case (Replace idx)
    with assms replace_frame [OF assms(1)] show ?thesis by (auto simp: list_run_def on_pos_def split: if_splits)
  next
    case (PushValue idx)
    with assms m pushvalue_frame [OF assms(1)] show ?thesis by (auto simp: list_run_def on_pos_def split: if_splits)
  qed
qed

lemma api_runs_refines:
  assumes "frame_ok m S" "list_runs (length (frame S) + nat m) cs (frame S) = Some ys"
  shows "\<exists>S'. api_runs E call cs S = Inr S' \<and> reframed S ys S'"
  using assms
proof (induction cs arbitrary: m S)
  case Nil
  then show ?case using reframed_refl by auto
next
  case (Cons c cs)
  then obtain zs where zs: "list_run (length (frame S) + nat m) c (frame S) = Some zs"
    "list_runs (length (frame S) + nat m) cs zs = Some ys" by (auto split: option.splits)
  from api_run_refines [OF Cons.prems(1) zs(1)] obtain S1 where S1: "api_run E call c S = Inr S1" "reframed S zs S1" by blast
  have b: "0 \<le> l_base S" "0 \<le> m" using Cons.prems(1) by (simp_all add: frame_ok_def)
  have fr: "frame S1 = zs" by (rule reframed_frame [OF S1(2) b(1)])
  have "length zs \<le> length (frame S) + nat m" by (rule list_run_length [OF zs(1)]) simp
  then have cap: "length zs + nat (int (length (frame S)) + m - int (length zs)) = length (frame S) + nat m" using b(2) by simp
  have "frame_ok (int (length (frame S)) + m - int (length zs)) S1"
    using reframed_ok [OF S1(2) Cons.prems(1)] \<open>length zs \<le> _\<close> b(2) by simp
  from Cons.IH [OF this] zs(2) fr cap obtain S2 where "api_runs E call cs S1 = Inr S2" "reframed S1 ys S2" by auto
  with S1 show ?case by (auto intro: reframed_trans)
qed

text \<open>
  C40. The stack functions of the C interface refine operations on a list. Any sequence of \<open>lua_push*\<close>,
  \<open>lua_settop\<close>, \<open>lua_remove\<close>, \<open>lua_insert\<close>, \<open>lua_replace\<close> and \<open>lua_pushvalue\<close> whose indices are valid, positive or
  negative, and that stays within the slots of the stack, succeeds, and the frame of the function then holds the
  list that the operations give: \<open>lua_insert\<close> moves the top under the values from its index up, \<open>lua_remove\<close> closes
  the gap, \<open>lua_replace\<close> stores the top at its index and pops it. Everything below the frame, and all other fields of the state, are as before.
\<close>

theorem stack_calls_refine:
  assumes "frame_ok m S" "list_runs (length (frame S) + nat m) cs (frame S) = Some ys"
  shows "\<exists>S'. api_runs E call cs S = Inr S' \<and> frame S' = ys \<and>
    S' = S\<lparr>l_stack := l_stack S', l_top := l_base S + int (length ys)\<rparr> \<and>
    length (l_stack S') = length (l_stack S) \<and> take (nat (l_base S)) (l_stack S') = take (nat (l_base S)) (l_stack S)"
proof -
  from api_runs_refines [OF assms, of E call] obtain S' where S': "api_runs E call cs S = Inr S'" "reframed S ys S'" by blast
  moreover have "frame S' = ys" using reframed_frame [OF S'(2)] assms(1) by (simp add: frame_ok_def)
  ultimately show ?thesis using reframed_fields [OF S'(2)] by blast
qed

definition two_values :: lua_State where
  "two_values = (stack_init no_state)\<lparr>l_stack := (replicate 45 Nil)[1 := Boolean True, 2 := Str ''x''], l_top := 3\<rparr>"

theorem stack_calls_refine_witness:
  "\<exists>S'. api_runs sample_env (luaD_call sample_env 1) [Push Nil, Insert 1, PushValue (- 1), Replace 2, Remove (- 2), SetTop 4] two_values = Inr S' \<and>
     frame S' = [Nil, Str ''x'', Nil, Nil]"
proof -
  have f: "frame two_values = [Boolean True, Str ''x'']"
    by code_simp
  have ok: "frame_ok 10 two_values" by (simp add: frame_ok_def two_values_def stack_init_def no_state_def l_stacksize_def)
  have "list_runs (length (frame two_values) + nat 10) [Push Nil, Insert 1, PushValue (- 1), Replace 2, Remove (- 2), SetTop 4]
      (frame two_values) = Some [Nil, Str ''x'', Nil, Nil]"
    unfolding f by code_simp
  from stack_calls_refine [OF ok this] show ?thesis by blast
qed

end
