(* ===== verification/AuxLib.thy ===== *)
theory AuxLib
  imports Api
begin

text \<open>
  The auxiliary library, \<open>lua/lauxlib.c\<close>: errors, the checks of arguments, registration, buffers and references. The
  functions on files and \<open>luaL_newstate\<close> are not here.
\<close>

definition abs_index :: "lua_State \<Rightarrow> int \<Rightarrow> int" where
  "abs_index S i = (if i > 0 \<or> i \<le> LUA_REGISTRYINDEX then i else lua_gettop S + i + 1)"

subsection \<open>Errors\<close>

definition no_debug_info :: "int \<Rightarrow> lua_Debug" where
  "no_debug_info ci = \<lparr>d_event = 0, d_name = None, d_namewhat = [], d_what = [], d_source = [], d_currentline = 0, d_nups = 0,
     d_linedefined = 0, d_lastlinedefined = 0, d_short_src = [], d_i_ci = ci\<rparr>"

text \<open>The rest of \<open>luaL_where\<close> after \<open>lua_getstack\<close>; the message pieces stay on the stack for \<open>lua_concat\<close>.\<close>

definition luaL_where :: "vm_env \<Rightarrow> caller \<Rightarrow> int \<Rightarrow> lua_State \<Rightarrow> lua_State vres" where
  "luaL_where E call level S =
     rbind (lua_getstack S level) (\<lambda>ci.
     rbind (case ci of
         Some ci \<Rightarrow>
           rbind (lua_getinfo E ''Sl'' (no_debug_info ci) S) (\<lambda>(_, ar, S).
           if d_currentline ar > 0
           then rmap (\<lambda>(_, S). (True, S)) (lua_pushfstring E call ''%s:%d: '' [VString (Some (d_short_src ar)), VInt (d_currentline ar)] S)
           else Inr (False, S))
       | None \<Rightarrow> Inr (False, S)) (\<lambda>(b, S).
     if b then Inr S else lua_pushlstring E call [] S))"

definition luaL_error :: "vm_env \<Rightarrow> caller \<Rightarrow> string \<Rightarrow> va_arg list \<Rightarrow> lua_State \<Rightarrow> 'a vres" where
  "luaL_error E call fmt args S =
     rbind (luaL_where E call 1 S) (\<lambda>S.
     rbind (lua_pushfstring E call fmt args S) (\<lambda>(_, S).
     rbind (lua_concat E call 2 S) (lua_error call)))"

definition luaL_argerror :: "vm_env \<Rightarrow> caller \<Rightarrow> int \<Rightarrow> string \<Rightarrow> lua_State \<Rightarrow> 'a vres" where
  "luaL_argerror E call narg extramsg S =
     rbind (lua_getstack S 0) (\<lambda>ci. case ci of
       None \<Rightarrow> luaL_error E call ''bad argument #%d (%s)'' [VInt narg, VString (Some extramsg)] S
     | Some ci \<Rightarrow>
         rbind (lua_getinfo E ''n'' (no_debug_info ci) S) (\<lambda>(_, ar, S).
         let method = d_namewhat ar = ''method''; narg = (if method then narg - 1 else narg);
             name = (case d_name ar of Some s \<Rightarrow> s | None \<Rightarrow> ''?'') in
         if method \<and> narg = 0
         then luaL_error E call (''calling '' @ LUA_QL ''%s'' @ '' on bad self (%s)'') [VString (d_name ar), VString (Some extramsg)] S
         else luaL_error E call (''bad argument #%d to '' @ LUA_QL ''%s'' @ '' (%s)'')
           [VInt narg, VString (Some name), VString (Some extramsg)] S))"

definition index_typename :: "lua_State \<Rightarrow> int \<Rightarrow> string vres" where
  "index_typename S idx = rbind (lua_type S idx) lua_typename"

definition luaL_typerror :: "vm_env \<Rightarrow> caller \<Rightarrow> int \<Rightarrow> string \<Rightarrow> lua_State \<Rightarrow> 'a vres" where
  "luaL_typerror E call narg tname S =
     rbind (index_typename S narg) (\<lambda>got.
     rbind (lua_pushfstring E call ''%s expected, got %s'' [VString (Some tname), VString (Some got)] S) (\<lambda>(msg, S).
     luaL_argerror E call narg (cstr msg) S))"

definition tag_error :: "vm_env \<Rightarrow> caller \<Rightarrow> int \<Rightarrow> int \<Rightarrow> lua_State \<Rightarrow> 'a vres" where
  "tag_error E call narg tag S = rbind (lua_typename tag) (\<lambda>t. luaL_typerror E call narg t S)"

subsection \<open>Arguments\<close>

definition luaL_argcheck :: "vm_env \<Rightarrow> caller \<Rightarrow> bool \<Rightarrow> int \<Rightarrow> string \<Rightarrow> lua_State \<Rightarrow> lua_State vres" where
  "luaL_argcheck E call cond numarg extramsg S = (if cond then Inr S else luaL_argerror E call numarg extramsg S)"

definition luaL_checkstack :: "vm_env \<Rightarrow> caller \<Rightarrow> int \<Rightarrow> string \<Rightarrow> lua_State \<Rightarrow> lua_State vres" where
  "luaL_checkstack E call space mes S =
     rbind (lua_checkstack space S) (\<lambda>(b, S).
     if b then Inr S else luaL_error E call ''stack overflow (%s)'' [VString (Some mes)] S)"

definition luaL_checktype :: "vm_env \<Rightarrow> caller \<Rightarrow> int \<Rightarrow> int \<Rightarrow> lua_State \<Rightarrow> lua_State vres" where
  "luaL_checktype E call narg t S = rbind (lua_type S narg) (\<lambda>u. if u \<noteq> t then tag_error E call narg t S else Inr S)"

definition luaL_checkany :: "vm_env \<Rightarrow> caller \<Rightarrow> int \<Rightarrow> lua_State \<Rightarrow> lua_State vres" where
  "luaL_checkany E call narg S =
     rbind (lua_type S narg) (\<lambda>t. if t = LUA_TNONE then luaL_argerror E call narg ''value expected'' S else Inr S)"

definition luaL_checklstring :: "vm_env \<Rightarrow> caller \<Rightarrow> int \<Rightarrow> lua_State \<Rightarrow> (string \<times> lua_State) vres" where
  "luaL_checklstring E call narg S =
     rbind (lua_tolstring E call narg S) (\<lambda>(s, S). case s of
       Some s \<Rightarrow> Inr (s, S)
     | None \<Rightarrow> tag_error E call narg 4 S)"

definition isnoneornil :: "lua_State \<Rightarrow> int \<Rightarrow> bool vres" where
  "isnoneornil S n = rmap (\<lambda>t. t \<le> 0) (lua_type S n)"

definition luaL_optlstring :: "vm_env \<Rightarrow> caller \<Rightarrow> int \<Rightarrow> string option \<Rightarrow> lua_State \<Rightarrow> (string option \<times> lua_State) vres" where
  "luaL_optlstring E call narg dflt S =
     rbind (isnoneornil S narg) (\<lambda>b.
     if b then Inr (dflt, S) else rmap (\<lambda>(s, S). (Some s, S)) (luaL_checklstring E call narg S))"

definition luaL_checknumber :: "vm_env \<Rightarrow> caller \<Rightarrow> int \<Rightarrow> lua_State \<Rightarrow> lua_Number vres" where
  "luaL_checknumber E call narg S =
     rbind (lua_tonumber E S narg) (\<lambda>d.
     if luai_numeq d 0 then rbind (lua_isnumber E S narg) (\<lambda>b. if b then Inr d else tag_error E call narg 3 S) else Inr d)"

definition luaL_opt :: "(lua_State \<Rightarrow> 'a vres) \<Rightarrow> int \<Rightarrow> 'a \<Rightarrow> lua_State \<Rightarrow> 'a vres" where
  "luaL_opt f n d S = rbind (isnoneornil S n) (\<lambda>b. if b then Inr d else f S)"

definition luaL_optnumber :: "vm_env \<Rightarrow> caller \<Rightarrow> int \<Rightarrow> lua_Number \<Rightarrow> lua_State \<Rightarrow> lua_Number vres" where
  "luaL_optnumber E call narg = luaL_opt (luaL_checknumber E call narg) narg"

definition luaL_checkinteger :: "vm_env \<Rightarrow> caller \<Rightarrow> int \<Rightarrow> lua_State \<Rightarrow> int vres" where
  "luaL_checkinteger E call narg S =
     rbind (lua_tointeger E S narg) (\<lambda>d.
     if d = 0 then rbind (lua_isnumber E S narg) (\<lambda>b. if b then Inr d else tag_error E call narg 3 S) else Inr d)"

definition luaL_optinteger :: "vm_env \<Rightarrow> caller \<Rightarrow> int \<Rightarrow> int \<Rightarrow> lua_State \<Rightarrow> int vres" where
  "luaL_optinteger E call narg = luaL_opt (luaL_checkinteger E call narg) narg"

text \<open>The casts of \<open>luaL_checkint\<close> and \<open>luaL_optint\<close> keep the low 32 bits.\<close>

definition cast_int :: "int \<Rightarrow> int" where "cast_int n = sint (word_of_int n :: u32)"

definition luaL_checkint :: "vm_env \<Rightarrow> caller \<Rightarrow> int \<Rightarrow> lua_State \<Rightarrow> int vres" where
  "luaL_checkint E call narg S = rmap cast_int (luaL_checkinteger E call narg S)"

definition luaL_optint :: "vm_env \<Rightarrow> caller \<Rightarrow> int \<Rightarrow> int \<Rightarrow> lua_State \<Rightarrow> int vres" where
  "luaL_optint E call narg d S = rmap cast_int (luaL_optinteger E call narg d S)"

fun option_index :: "string list \<Rightarrow> string \<Rightarrow> int \<Rightarrow> int option" where
  "option_index [] nm i = None"
| "option_index (l # ls) nm i = (if l = nm then Some i else option_index ls nm (i + 1))"

definition luaL_checkoption :: "vm_env \<Rightarrow> caller \<Rightarrow> int \<Rightarrow> string option \<Rightarrow> string list \<Rightarrow> lua_State \<Rightarrow> (int \<times> lua_State) vres" where
  "luaL_checkoption E call narg dflt lst S =
     rbind (case dflt of
         Some d \<Rightarrow> rmap (\<lambda>(s, S). (the s, S)) (luaL_optlstring E call narg (Some d) S)
       | None \<Rightarrow> luaL_checklstring E call narg S) (\<lambda>(nm, S).
     case option_index lst (cstr nm) 0 of
       Some i \<Rightarrow> Inr (i, S)
     | None \<Rightarrow>
         rbind (lua_pushfstring E call (''invalid option '' @ LUA_QL ''%s'') [VString (Some (cstr nm))] S) (\<lambda>(msg, S).
         luaL_argerror E call narg (cstr msg) S))"

subsection \<open>Metatables\<close>

definition lua_isnil :: "lua_State \<Rightarrow> int \<Rightarrow> bool vres" where "lua_isnil S n = rmap (\<lambda>t. t = 0) (lua_type S n)"
definition lua_istable :: "lua_State \<Rightarrow> int \<Rightarrow> bool vres" where "lua_istable S n = rmap (\<lambda>t. t = 5) (lua_type S n)"

definition luaL_newmetatable :: "vm_env \<Rightarrow> caller \<Rightarrow> string \<Rightarrow> lua_State \<Rightarrow> (bool \<times> lua_State) vres" where
  "luaL_newmetatable E call tname S =
     rbind (lua_getfield E call LUA_REGISTRYINDEX tname S) (\<lambda>S.
     rbind (lua_isnil S (- 1)) (\<lambda>b.
     if \<not> b then Inr (False, S)
     else
       rbind (lua_pop 1 S) (\<lambda>S.
       rbind (lua_createtable E call 0 0 S) (\<lambda>S.
       rbind (lua_pushvalue (- 1) S) (\<lambda>S.
       rmap (\<lambda>S. (True, S)) (lua_setfield E call LUA_REGISTRYINDEX tname S))))))"

definition luaL_checkudata :: "vm_env \<Rightarrow> caller \<Rightarrow> int \<Rightarrow> string \<Rightarrow> lua_State \<Rightarrow> (TValue \<times> lua_State) vres" where
  "luaL_checkudata E call ud tname S =
     rbind (lua_touserdata S ud) (\<lambda>q. case q of
       None \<Rightarrow> luaL_typerror E call ud tname S
     | Some q \<Rightarrow>
         rbind (lua_getmetatable ud S) (\<lambda>(b, S).
         if \<not> b then luaL_typerror E call ud tname S
         else
           rbind (lua_getfield E call LUA_REGISTRYINDEX tname S) (\<lambda>S.
           rbind (lua_rawequal S (- 1) (- 2)) (\<lambda>b.
           if b then rmap (\<lambda>S. (q, S)) (lua_pop 2 S) else luaL_typerror E call ud tname S))))"

definition luaL_getmetafield :: "vm_env \<Rightarrow> caller \<Rightarrow> int \<Rightarrow> string \<Rightarrow> lua_State \<Rightarrow> (bool \<times> lua_State) vres" where
  "luaL_getmetafield E call obj event S =
     rbind (lua_getmetatable obj S) (\<lambda>(b, S).
     if \<not> b then Inr (False, S)
     else
       rbind (lua_pushstring E call (Some event) S) (\<lambda>S.
       rbind (lua_rawget E (- 2) S) (\<lambda>S.
       rbind (lua_isnil S (- 1)) (\<lambda>b.
       if b then rmap (\<lambda>S. (False, S)) (lua_pop 2 S) else rmap (\<lambda>S. (True, S)) (lua_remove (- 2) S)))))"

definition luaL_callmeta :: "vm_env \<Rightarrow> caller \<Rightarrow> int \<Rightarrow> string \<Rightarrow> lua_State \<Rightarrow> (bool \<times> lua_State) vres" where
  "luaL_callmeta E call obj event S =
     (let obj = abs_index S obj in
      rbind (luaL_getmetafield E call obj event S) (\<lambda>(b, S).
      if \<not> b then Inr (False, S)
      else rbind (lua_pushvalue obj S) (\<lambda>S. rmap (\<lambda>S. (True, S)) (lua_call call 1 1 S))))"

subsection \<open>Registration\<close>

type_synonym luaL_Reg = "(string \<times> nat) list"

text \<open>One part of the name up to a dot in each round: the rest that is a problem, or nothing.\<close>

function findtable_loop :: "vm_env \<Rightarrow> caller \<Rightarrow> int \<Rightarrow> string \<Rightarrow> lua_State \<Rightarrow> (string option \<times> lua_State) vres" where
  "findtable_loop E call szhint fname S =
     (let part = takeWhile (\<lambda>c. c \<noteq> CHR ''.'') fname; e = drop (length part) fname in
      rbind (lua_pushlstring E call part S) (\<lambda>S.
      rbind (lua_rawget E (- 2) S) (\<lambda>S.
      rbind (lua_isnil S (- 1)) (\<lambda>b.
      rbind (lua_istable S (- 1)) (\<lambda>t.
      if \<not> b \<and> \<not> t then rmap (\<lambda>S. (Some fname, S)) (lua_pop 2 S)
      else
        rbind (if b then
                 rbind (lua_pop 1 S) (\<lambda>S.
                 rbind (lua_createtable E call 0 (if e \<noteq> [] then 1 else szhint) S) (\<lambda>S.
                 rbind (lua_pushlstring E call part S) (\<lambda>S.
                 rbind (lua_pushvalue (- 2) S) (lua_settable E call (- 4)))))
               else Inr S) (\<lambda>S.
        rbind (lua_remove (- 2) S) (\<lambda>S.
        if e = [] then Inr (None, S) else findtable_loop E call szhint (tl e) S)))))))"
  by pat_completeness auto
termination
proof (relation "measure (\<lambda>(E, call, szhint, fname, S). length fname)", goal_cases)
  case (2 E call szhint fname S)
  then show ?case by (cases fname) auto
qed simp

declare findtable_loop.simps [simp del]

definition luaL_findtable :: "vm_env \<Rightarrow> caller \<Rightarrow> int \<Rightarrow> string \<Rightarrow> int \<Rightarrow> lua_State \<Rightarrow> (string option \<times> lua_State) vres" where
  "luaL_findtable E call idx fname szhint S = rbind (lua_pushvalue idx S) (findtable_loop E call szhint (cstr fname))"

definition find_library :: "vm_env \<Rightarrow> caller \<Rightarrow> string \<Rightarrow> int \<Rightarrow> int \<Rightarrow> lua_State \<Rightarrow> lua_State vres" where
  "find_library E call libname sz nup S =
     rbind (luaL_findtable E call LUA_REGISTRYINDEX ''_LOADED'' 1 S) (\<lambda>(_, S).
     rbind (lua_getfield E call (- 1) libname S) (\<lambda>S.
     rbind (lua_istable S (- 1)) (\<lambda>b.
     rbind (if b then Inr S
            else
              rbind (lua_pop 1 S) (\<lambda>S.
              rbind (luaL_findtable E call LUA_GLOBALSINDEX libname sz S) (\<lambda>(r, S).
              if r \<noteq> None then luaL_error E call (''name conflict for module '' @ LUA_QL ''%s'') [VString (Some libname)] S
              else rbind (lua_pushvalue (- 1) S) (lua_setfield E call (- 3) libname)))) (\<lambda>S.
     rbind (lua_remove (- 2) S) (lua_insert (- (nup + 1)))))))"

primrec push_copies :: "nat \<Rightarrow> int \<Rightarrow> lua_State \<Rightarrow> lua_State vres" where
  "push_copies 0 nup S = Inr S"
| "push_copies (Suc n) nup S = rbind (lua_pushvalue (- nup) S) (push_copies n nup)"

fun register_loop :: "vm_env \<Rightarrow> caller \<Rightarrow> luaL_Reg \<Rightarrow> int \<Rightarrow> lua_State \<Rightarrow> lua_State vres" where
  "register_loop E call [] nup S = lua_pop nup S"
| "register_loop E call ((nm, f) # l) nup S =
     rbind (push_copies (nat nup) nup S) (\<lambda>S.
     rbind (lua_pushcclosure E call f nup S) (\<lambda>S.
     rbind (lua_setfield E call (- (nup + 2)) nm S) (register_loop E call l nup)))"

definition luaI_openlib :: "vm_env \<Rightarrow> caller \<Rightarrow> string option \<Rightarrow> luaL_Reg \<Rightarrow> int \<Rightarrow> lua_State \<Rightarrow> lua_State vres" where
  "luaI_openlib E call libname l nup S =
     rbind (case libname of Some nm \<Rightarrow> find_library E call nm (int (length l)) nup S | None \<Rightarrow> Inr S) (register_loop E call l nup)"

definition luaL_register :: "vm_env \<Rightarrow> caller \<Rightarrow> string option \<Rightarrow> luaL_Reg \<Rightarrow> lua_State \<Rightarrow> lua_State vres" where
  "luaL_register E call libname l = luaI_openlib E call libname l 0"

text \<open>Without the compatibility of \<open>LUA_COMPAT_GETN\<close>, which this configuration leaves out.\<close>

definition luaL_getn :: "vm_env \<Rightarrow> int \<Rightarrow> lua_State \<Rightarrow> (int \<times> lua_State) vres" where
  "luaL_getn E t S = rmap (\<lambda>(n, S). (cast_int n, S)) (lua_objlen E t S)"

subsection \<open>Buffers\<close>

text \<open>
  The characters between the start of the array and \<open>p\<close>, and the number of pieces on the stack. \<open>BUFSIZ\<close> of the C
  library is 8192 here.
\<close>

definition LUAL_BUFFERSIZE :: int where "LUAL_BUFFERSIZE = 8192"
definition LIMIT :: int where "LIMIT = LUA_MINSTACK div 2"

record luaL_Buffer =
  b_chars :: string
  b_lvl :: int

definition luaL_buffinit :: luaL_Buffer where "luaL_buffinit = \<lparr>b_chars = [], b_lvl = 0\<rparr>"

definition emptybuffer :: "vm_env \<Rightarrow> caller \<Rightarrow> luaL_Buffer \<Rightarrow> lua_State \<Rightarrow> (bool \<times> luaL_Buffer \<times> lua_State) vres" where
  "emptybuffer E call B S =
     (if b_chars B = [] then Inr (False, B, S)
      else rmap (\<lambda>S. (True, \<lparr>b_chars = [], b_lvl = b_lvl B + 1\<rparr>, S)) (lua_pushlstring E call (b_chars B) S))"

text \<open>How many pieces are joined: at least until fewer than \<open>LIMIT\<close> are left, and as long as the next one is shorter.\<close>

function toget_loop :: "vm_env \<Rightarrow> int \<Rightarrow> int \<Rightarrow> int \<Rightarrow> lua_State \<Rightarrow> (int \<times> lua_State) vres" where
  "toget_loop E lvl toget toplen S =
     rbind (lua_objlen E (- (toget + 1)) S) (\<lambda>(l, S).
     if lvl - toget + 1 \<ge> LIMIT \<or> toplen > l then
       if toget + 1 < lvl then toget_loop E lvl (toget + 1) (toplen + l) S else Inr (toget + 1, S)
     else Inr (toget, S))"
  by pat_completeness auto
termination by (relation "measure (\<lambda>(E, lvl, toget, toplen, S). nat (lvl - toget))") auto

declare toget_loop.simps [simp del]

definition adjuststack :: "vm_env \<Rightarrow> caller \<Rightarrow> luaL_Buffer \<Rightarrow> lua_State \<Rightarrow> (luaL_Buffer \<times> lua_State) vres" where
  "adjuststack E call B S =
     (if b_lvl B > 1 then
        rbind (lua_objlen E (- 1) S) (\<lambda>(toplen, S).
        rbind (toget_loop E (b_lvl B) 1 toplen S) (\<lambda>(toget, S).
        rmap (\<lambda>S. (B\<lparr>b_lvl := b_lvl B - toget + 1\<rparr>, S)) (lua_concat E call toget S)))
      else Inr (B, S))"

definition luaL_prepbuffer :: "vm_env \<Rightarrow> caller \<Rightarrow> luaL_Buffer \<Rightarrow> lua_State \<Rightarrow> (luaL_Buffer \<times> lua_State) vres" where
  "luaL_prepbuffer E call B S =
     rbind (emptybuffer E call B S) (\<lambda>(b, B, S). if b then adjuststack E call B S else Inr (B, S))"

definition luaL_addchar :: "vm_env \<Rightarrow> caller \<Rightarrow> char \<Rightarrow> luaL_Buffer \<Rightarrow> lua_State \<Rightarrow> (luaL_Buffer \<times> lua_State) vres" where
  "luaL_addchar E call c B S =
     rbind (if int (length (b_chars B)) < LUAL_BUFFERSIZE then Inr (B, S) else luaL_prepbuffer E call B S) (\<lambda>(B, S).
     Inr (B\<lparr>b_chars := b_chars B @ [c]\<rparr>, S))"

primrec luaL_addlstring :: "vm_env \<Rightarrow> caller \<Rightarrow> string \<Rightarrow> luaL_Buffer \<Rightarrow> lua_State \<Rightarrow> (luaL_Buffer \<times> lua_State) vres" where
  "luaL_addlstring E call [] B S = Inr (B, S)"
| "luaL_addlstring E call (c # s) B S = rbind (luaL_addchar E call c B S) (\<lambda>(B, S). luaL_addlstring E call s B S)"

definition luaL_addstring :: "vm_env \<Rightarrow> caller \<Rightarrow> string \<Rightarrow> luaL_Buffer \<Rightarrow> lua_State \<Rightarrow> (luaL_Buffer \<times> lua_State) vres" where
  "luaL_addstring E call s = luaL_addlstring E call (cstr s)"

definition luaL_pushresult :: "vm_env \<Rightarrow> caller \<Rightarrow> luaL_Buffer \<Rightarrow> lua_State \<Rightarrow> (luaL_Buffer \<times> lua_State) vres" where
  "luaL_pushresult E call B S =
     rbind (emptybuffer E call B S) (\<lambda>(_, B, S).
     rmap (\<lambda>S. (B\<lparr>b_lvl := 1\<rparr>, S)) (lua_concat E call (b_lvl B) S))"

definition luaL_addvalue :: "vm_env \<Rightarrow> caller \<Rightarrow> luaL_Buffer \<Rightarrow> lua_State \<Rightarrow> (luaL_Buffer \<times> lua_State) vres" where
  "luaL_addvalue E call B S =
     rbind (lua_tolstring E call (- 1) S) (\<lambda>(s, S).
     rbind (case s of Some s \<Rightarrow> Inr s | None \<Rightarrow> undef ''null string'') (\<lambda>s.
     if int (length s) \<le> LUAL_BUFFERSIZE - int (length (b_chars B)) then
       rmap (\<lambda>S. (B\<lparr>b_chars := b_chars B @ s\<rparr>, S)) (lua_pop 1 S)
     else
       rbind (emptybuffer E call B S) (\<lambda>(b, B, S).
       rbind (if b then lua_insert (- 2) S else Inr S) (\<lambda>S.
       adjuststack E call (B\<lparr>b_lvl := b_lvl B + 1\<rparr>) S))))"

text \<open>
  \<open>luaL_gsub\<close>: \<open>strstr\<close> finds an empty pattern in every string without moving on, so that the loop adds
  replacements until memory ends.
\<close>

function find_str :: "string \<Rightarrow> string \<Rightarrow> nat option" where
  "find_str s p = (if take (length p) s = p then Some 0
     else case s of [] \<Rightarrow> None | c # s \<Rightarrow> map_option Suc (find_str s p))"
  by pat_completeness auto
termination by (relation "measure (\<lambda>(s, p). length s)") auto

declare find_str.simps [simp del]

function gsub_loop :: "vm_env \<Rightarrow> caller \<Rightarrow> string \<Rightarrow> string \<Rightarrow> string \<Rightarrow> luaL_Buffer \<Rightarrow> lua_State \<Rightarrow> (luaL_Buffer \<times> lua_State) vres" where
  "gsub_loop E call s p r B S =
     (if p = [] then Inl Diverge
      else case find_str s p of
        None \<Rightarrow> luaL_addlstring E call s B S
      | Some w \<Rightarrow>
          rbind (luaL_addlstring E call (take w s) B S) (\<lambda>(B, S).
          rbind (luaL_addlstring E call r B S) (\<lambda>(B, S).
          if s = [] then Inr (B, S) else gsub_loop E call (drop (w + length p) s) p r B S)))"
  by pat_completeness auto
termination by (relation "measure (\<lambda>(E, call, s, p, r, B, S). length s)") auto

declare gsub_loop.simps [simp del]

definition luaL_gsub :: "vm_env \<Rightarrow> caller \<Rightarrow> string \<Rightarrow> string \<Rightarrow> string \<Rightarrow> lua_State \<Rightarrow> (string option \<times> lua_State) vres" where
  "luaL_gsub E call s p r S =
     rbind (gsub_loop E call (cstr s) (cstr p) (cstr r) luaL_buffinit S) (\<lambda>(B, S).
     rbind (luaL_pushresult E call B S) (\<lambda>(B, S). lua_tolstring E call (- 1) S))"

subsection \<open>References\<close>

definition FREELIST_REF :: int where "FREELIST_REF = 0"
definition LUA_REFNIL :: int where "LUA_REFNIL = - 1"

definition luaL_ref :: "vm_env \<Rightarrow> int \<Rightarrow> lua_State \<Rightarrow> (int \<times> lua_State) vres" where
  "luaL_ref E t S =
     (let t = abs_index S t in
      rbind (lua_isnil S (- 1)) (\<lambda>b.
      if b then rmap (\<lambda>S. (LUA_REFNIL, S)) (lua_pop 1 S)
      else
        rbind (lua_rawgeti t FREELIST_REF S) (\<lambda>S.
        rbind (lua_tointeger E S (- 1)) (\<lambda>ref.
        let ref = cast_int ref in
        rbind (lua_pop 1 S) (\<lambda>S.
        rbind (if ref \<noteq> 0 then
                 rbind (lua_rawgeti t ref S) (\<lambda>S. rmap (\<lambda>S. (ref, S)) (lua_rawseti E t FREELIST_REF S))
               else rmap (\<lambda>(n, S). (cast_int n + 1, S)) (lua_objlen E t S)) (\<lambda>(ref, S).
        rmap (\<lambda>S. (ref, S)) (lua_rawseti E t ref S)))))))"

definition luaL_unref :: "vm_env \<Rightarrow> int \<Rightarrow> int \<Rightarrow> lua_State \<Rightarrow> lua_State vres" where
  "luaL_unref E t ref S =
     (if ref \<ge> 0 then
        let t = abs_index S t in
        rbind (lua_rawgeti t FREELIST_REF S) (\<lambda>S.
        rbind (lua_rawseti E t ref S) (\<lambda>S.
        rbind (lua_pushinteger ref S) (lua_rawseti E t FREELIST_REF)))
      else Inr S)"

subsection \<open>Loading\<close>

text \<open>The reader gives the whole string in one block.\<close>

definition luaL_loadbuffer :: "vm_env \<Rightarrow> caller \<Rightarrow> (ZIO \<Rightarrow> Mbuffer \<Rightarrow> string \<Rightarrow> (Proto \<times> LoadState) res) \<Rightarrow> string \<Rightarrow> string \<Rightarrow>
    lua_State \<Rightarrow> (int \<times> lua_State) vres" where
  "luaL_loadbuffer E call parser buff nm S =
     lua_load E call parser (if buff = [] then [] else [bytes_of buff]) (Some nm) S"

definition luaL_loadstring :: "vm_env \<Rightarrow> caller \<Rightarrow> (ZIO \<Rightarrow> Mbuffer \<Rightarrow> string \<Rightarrow> (Proto \<times> LoadState) res) \<Rightarrow> string \<Rightarrow>
    lua_State \<Rightarrow> (int \<times> lua_State) vres" where
  "luaL_loadstring E call parser s S = luaL_loadbuffer E call parser (cstr s) (cstr s) S"

end
