(* ===== verification/AuxProps.thy ===== *)
theory AuxProps
  imports AuxLib ApiProps Concat
begin

text \<open>
  The buffers of \<open>lua/lauxlib.c\<close>: whatever is added, the string at the end is the concatenation, and the pieces on the
  stack are never more than \<open>LIMIT\<close> and one.
\<close>

definition quiet_gc :: "vm_env \<Rightarrow> caller \<Rightarrow> bool" where
  "quiet_gc E call \<longleftrightarrow> (\<forall>S. v_checkGC E call S = Inr S)"

lemma quiet_gcD: "quiet_gc E call \<Longrightarrow> v_checkGC E call S = Inr S"
  by (simp add: quiet_gc_def)

text \<open>The frame of \<open>S\<close> holds \<open>xs\<close> and could hold \<open>cap\<close> values.\<close>

definition holds :: "lua_State \<Rightarrow> nat \<Rightarrow> TValue list \<Rightarrow> bool" where
  "holds S cap xs \<longleftrightarrow> frame_ok (int cap - int (length xs)) S \<and> frame S = xs"

lemma holds_step:
  assumes "holds S cap xs" "reframed S ys S'" "length ys \<le> cap"
  shows "holds S' cap ys"
proof -
  have f: "frame_ok (int cap - int (length xs)) S" "frame S = xs" using assms(1) by (simp_all add: holds_def)
  moreover have "0 \<le> l_base S" using f(1) by (simp add: frame_ok_def)
  ultimately show ?thesis
    using reframed_frame [OF assms(2)] reframed_ok [OF assms(2) f(1), of "int cap - int (length ys)"] assms(3) by (simp add: holds_def)
qed

lemma holds_refl: "holds S cap xs \<Longrightarrow> reframed S xs S"
  using reframed_refl by (auto simp: holds_def)

lemma holds_index:
  assumes "holds S cap xs" "1 \<le> k" "k \<le> length xs" "int k < 10000"
  shows "index2adr S (- int k) = Inr (Slot (l_base S + int (length xs - k)))"
    "index_value S (- int k) = Inr (xs ! (length xs - k))"
proof -
  have f: "frame_ok (int cap - int (length xs)) S" "frame S = xs" using assms(1) by (simp_all add: holds_def)
  have "frame_pos (length (frame S)) (- int k) = Some (length xs - k)"
    using assms(2,3) f(2) by (auto simp: frame_pos_def)
  from index2adr_pos [OF f(1) this] assms(4)
  show i: "index2adr S (- int k) = Inr (Slot (l_base S + int (length xs - k)))" by (simp add: LUA_REGISTRYINDEX_def)
  show "index_value S (- int k) = Inr (xs ! (length xs - k))"
    using i slot_value [OF f(1), of "length xs - k"] f(2) assms(2,3) by (simp add: index_value_def read_adr_def)
qed

lemma pushstring_holds:
  assumes "holds S cap xs" "length xs < cap" "quiet_gc E call"
  shows "\<exists>S'. lua_pushlstring E call s S = Inr S' \<and> reframed S (xs @ [Str s]) S'"
  using push_frame [of "int cap - int (length xs)" S "Str s"] assms by (simp add: lua_pushlstring_def quiet_gcD holds_def)

lemma objlen_holds:
  assumes "holds S cap xs" "1 \<le> k" "k \<le> length xs" "int k < 10000" "xs ! (length xs - k) = Str s"
  shows "lua_objlen E (- int k) S = Inr (int (length s), S)"
  using holds_index [OF assms(1-4)] assms(5) by (simp add: lua_objlen_def index_value_def)

lemma concat_holds:
  assumes "holds S cap (ys @ map Str ss)" "ss = [] \<Longrightarrow> length ys < cap" "quiet_gc E call"
    and "int (length (concat ss)) < VM.MAX_SIZET"
  shows "\<exists>S'. lua_concat E call (int (length ss)) S = Inr S' \<and> reframed S (ys @ [Str (concat ss)]) S'"
proof -
  have f: "frame_ok (int cap - int (length (ys @ map Str ss))) S" "frame S = ys @ map Str ss" using assms(1) by (simp_all add: holds_def)
  obtain b where b: "l_base S = int b" "l_top S = int b + int (length (frame S))"
    "b + length (frame S) + nat (int cap - int (length (ys @ map Str ss))) \<le> length (l_stack S)" using f(1) by (rule frame_okE)
  consider "ss = []" | s where "ss = [s]" | "2 \<le> length ss" by (cases ss; cases "tl ss") auto
  then show ?thesis
  proof cases
    case 1
    then show ?thesis using push_frame [OF f(1), of "Str []"] f(2) assms(2) by (simp add: lua_concat_def)
  next
    case 2
    then show ?thesis using holds_refl [OF assms(1)] by (simp add: lua_concat_def)
  next
    case 3
    let ?tot = "int (length ss)" and ?tp = "l_top S" and ?n = "length ys"
    define g where "g i = ss ! nat (i - (int b + int ?n))" for i
    have lo: "?tp - ?tot = int b + int ?n" using b f(2) by simp
    have fr: "l_stack S ! (b + ?n + j) = Str (ss ! j)" if "j < length ss" for j
      using frame_nth [OF f(1), of "?n + j"] f(2) b(1) that by (simp add: nth_append add.assoc)
    have at: "l_stack S ! nat i = Str (g i)" if "int b + int ?n \<le> i" "i < ?tp" for i
    proof -
      have "nat i = b + ?n + nat (i - (int b + int ?n))" using that(1) by simp
      moreover have "nat (i - (int b + int ?n)) < length ss" using that b f(2) by simp
      ultimately show ?thesis using fr by (simp add: g_def)
    qed
    have "texts E g (?tp - ?tot) ?tp S"
      unfolding lo texts_def using b f(2) at by (auto simp: l_stacksize_def)
    moreover have cc: "map g [?tp - ?tot..?tp - 1] = ss"
      unfolding lo using b f(2) by (intro nth_equalityI) (auto simp: g_def)
    ultimately obtain S1 where S1: "luaV_concat E call ?tot (l_top S - l_base S - 1) S = Inr S1" "changed (?tp - ?tot) ?tp S S1"
      "l_stack S1 ! nat (?tp - ?tot) = Str (concat ss)"
      using concat_texts [of ?tot ?tp S "l_top S - l_base S - 1" E g call] 3 assms(4) by auto
    let ?S = "S1\<lparr>l_top := l_top S1 - (?tot - 1)\<rparr>"
    have "lua_concat E call ?tot S = Inr ?S" using 3 S1(1) assms(3) by (simp add: lua_concat_def quiet_gcD)
    moreover have "reframed S (ys @ [Str (concat ss)]) ?S"
    proof -
      from S1(2) obtain st where st: "S1 = S\<lparr>l_stack := st\<rparr>" "length st = length (l_stack S)"
        "\<And>i. 0 \<le> i \<Longrightarrow> i < int b + int ?n \<Longrightarrow> st ! nat i = l_stack S ! nat i"
        unfolding changed_def lo by blast
      have "st ! j = l_stack S ! j" if "j < b" for j using st(3) [of "int j"] that by simp
      moreover have "st ! (b + k) = (ys @ [Str (concat ss)]) ! k" if "k < Suc ?n" for k
      proof (cases "k = ?n")
        case True
        with S1(3) lo st(1) show ?thesis by (simp add: nat_add_distrib)
      next
        case False
        with that have k: "k < ?n" by simp
        have "st ! (b + k) = l_stack S ! (b + k)" using st(3) [of "int b + int k"] k by (simp add: nat_add_distrib)
        also have "\<dots> = ys ! k" using frame_nth [OF f(1), of k] f(2) b(1) k by (simp add: nth_append)
        finally show ?thesis using k by (simp add: nth_append)
      qed
      ultimately show ?thesis unfolding reframed_def using st(1,2) b f(2) 3 by (intro exI [of _ st]) auto
    qed
    ultimately show ?thesis by blast
  qed
qed

subsection \<open>The pieces\<close>

lemma toget_loop_spec:
  assumes "holds S cap (xs @ map Str ps)" "length ps < 5000" "1 \<le> t" "t < int (length ps)"
  shows "\<exists>t'. toget_loop E (int (length ps)) t n S = Inr (t', S) \<and> t \<le> t' \<and> t' \<le> int (length ps) \<and>
    (t' = int (length ps) \<or> int (length ps) - t' + 1 < LIMIT)"
  using assms(3,4)
proof (induction "nat (int (length ps) - t)" arbitrary: t n rule: less_induct)
  case less
  have "lua_objlen E (- int (nat t + 1)) S = Inr (int (length (ps ! (length ps - (nat t + 1)))), S)"
    using less.prems assms(2) by (intro objlen_holds [OF assms(1)]) (auto simp: nth_append)
  then have len: "lua_objlen E (- (t + 1)) S = Inr (int (length (ps ! (length ps - (nat t + 1)))), S)"
    using less.prems(1) by (simp add: algebra_simps)
  show ?case
  proof (cases "int (length ps) - t + 1 \<ge> LIMIT \<or> n > int (length (ps ! (length ps - (nat t + 1))))")
    case False
    with len less.prems show ?thesis by (subst toget_loop.simps) auto
  next
    case True
    show ?thesis
    proof (cases "t + 1 < int (length ps)")
      case False
      with True len less.prems show ?thesis by (subst toget_loop.simps) auto
    next
      case more: True
      from less.hyps [OF _ _ more, of "n + int (length (ps ! (length ps - (nat t + 1))))"] less.prems obtain t' where
        "toget_loop E (int (length ps)) (t + 1) (n + int (length (ps ! (length ps - (nat t + 1))))) S = Inr (t', S)"
        "t + 1 \<le> t'" "t' \<le> int (length ps)" "t' = int (length ps) \<or> int (length ps) - t' + 1 < LIMIT" by auto
      with True more len show ?thesis by (subst toget_loop.simps) auto
    qed
  qed
qed

text \<open>
  The buffer holds \<open>acc\<close>, in the pieces \<open>ps\<close> above \<open>xs\<close> and in its array; there is room for \<open>LIMIT\<close> pieces and one.
\<close>

definition buffer_ok :: "lua_State \<Rightarrow> nat \<Rightarrow> TValue list \<Rightarrow> luaL_Buffer \<Rightarrow> string \<Rightarrow> string list \<Rightarrow> bool" where
  "buffer_ok S cap xs B acc ps \<longleftrightarrow> holds S cap (xs @ map Str ps) \<and> b_lvl B = int (length ps) \<and> concat ps @ b_chars B = acc \<and>
     int (length (b_chars B)) \<le> LUAL_BUFFERSIZE"

definition room :: "nat \<Rightarrow> TValue list \<Rightarrow> bool" where
  "room cap xs \<longleftrightarrow> length xs + 12 \<le> cap"

lemma adjuststack_ok:
  assumes "buffer_ok S cap xs B acc ps" "quiet_gc E call" "int (length acc) < VM.MAX_SIZET" "length ps \<le> 11" "length xs \<le> cap"
  shows "\<exists>B' S' ps'. adjuststack E call B S = Inr (B', S') \<and> reframed S (xs @ map Str ps') S' \<and> buffer_ok S' cap xs B' acc ps' \<and>
    b_chars B' = b_chars B \<and> length ps' < 10"
proof (cases "1 < length ps")
  case False
  with assms(1) show ?thesis using holds_refl [of S cap "xs @ map Str ps"]
    by (intro exI [of _ B] exI [of _ S] exI [of _ ps]) (auto simp: adjuststack_def buffer_ok_def)
next
  case True
  have h: "holds S cap (xs @ map Str ps)" and lvl: "b_lvl B = int (length ps)" and acc: "concat ps @ b_chars B = acc"
    using assms(1) by (simp_all add: buffer_ok_def)
  have "lua_objlen E (- int 1) S = Inr (int (length (ps ! (length ps - 1))), S)"
    using True by (intro objlen_holds [OF h]) (auto simp: nth_append)
  then have o1: "lua_objlen E (- 1) S = Inr (int (length (ps ! (length ps - 1))), S)" by simp
  obtain t where t: "toget_loop E (int (length ps)) 1 (int (length (ps ! (length ps - 1)))) S = Inr (t, S)" "1 \<le> t" "t \<le> int (length ps)"
    "t = int (length ps) \<or> int (length ps) - t + 1 < LIMIT"
    using toget_loop_spec [OF h _ _, of 1 E] assms(4) True by fastforce
  let ?k = "length ps - nat t"
  have split: "xs @ map Str ps = (xs @ map Str (take ?k ps)) @ map Str (drop ?k ps)" by (simp flip: map_append)
  have len: "int (length (drop ?k ps)) = t" using t(2,3) by simp
  have ne: "drop ?k ps \<noteq> []" using t(2,3) True by simp
  have "length (concat (drop ?k ps)) \<le> length (concat ps)"
    by (subst (2) append_take_drop_id [of ?k ps, symmetric]) (simp del: append_take_drop_id)
  also have "\<dots> \<le> length acc" using acc by auto
  finally have small: "int (length (concat (drop ?k ps))) < VM.MAX_SIZET" using assms(3) by linarith
  from concat_holds [OF h [unfolded split] _ assms(2) small] ne obtain S' where
    S': "lua_concat E call t S = Inr S'" "reframed S ((xs @ map Str (take ?k ps)) @ [Str (concat (drop ?k ps))]) S'"
    unfolding len by blast
  let ?ps = "take ?k ps @ [concat (drop ?k ps)]"
  have l': "length ?ps = length ps - nat t + 1" by simp
  have "length ?ps < 10"
    using t(2,3,4) l' True unfolding LIMIT_def LUA_MINSTACK_def by auto
  moreover have re: "reframed S (xs @ map Str ?ps) S'" using S'(2) by simp
  moreover have "holds S' cap (xs @ map Str ?ps)"
    using h by (intro holds_step [OF h re]) (use l' t(2,3) True in \<open>auto simp: holds_def frame_ok_def\<close>)
  moreover have "concat ?ps = concat ps" by (metis append_take_drop_id concat.simps concat_append append_Nil2)
  ultimately have "buffer_ok S' cap xs (B\<lparr>b_lvl := b_lvl B - t + 1\<rparr>) acc ?ps"
    using assms(1) lvl t(2,3) by (simp add: buffer_ok_def)
  moreover have "adjuststack E call B S = Inr (B\<lparr>b_lvl := b_lvl B - t + 1\<rparr>, S')"
    using True o1 t(1) S'(1) lvl by (simp add: adjuststack_def)
  ultimately show ?thesis using re \<open>length ?ps < 10\<close> by fastforce
qed

lemma emptybuffer_ok:
  assumes "buffer_ok S cap xs B acc ps" "quiet_gc E call" "length xs + length ps < cap"
  shows "\<exists>b B' S' ps'. emptybuffer E call B S = Inr (b, B', S') \<and> reframed S (xs @ map Str ps') S' \<and> buffer_ok S' cap xs B' acc ps' \<and>
    b_chars B' = [] \<and> (b \<longleftrightarrow> b_chars B \<noteq> []) \<and> ps' = (if b then ps @ [b_chars B] else ps)"
proof (cases "b_chars B = []")
  case True
  with assms(1) show ?thesis using holds_refl [of S cap "xs @ map Str ps"]
    by (auto simp: emptybuffer_def buffer_ok_def)
next
  case False
  have h: "holds S cap (xs @ map Str ps)" using assms(1) by (simp add: buffer_ok_def)
  from pushstring_holds [OF h _ assms(2), of "b_chars B"] assms(3) obtain S' where
    S': "lua_pushlstring E call (b_chars B) S = Inr S'" "reframed S ((xs @ map Str ps) @ [Str (b_chars B)]) S'" by auto
  have re: "reframed S (xs @ map Str (ps @ [b_chars B])) S'" using S'(2) by simp
  have "holds S' cap (xs @ map Str (ps @ [b_chars B]))" using assms(3) by (intro holds_step [OF h re]) simp
  with assms(1) have "buffer_ok S' cap xs \<lparr>b_chars = [], b_lvl = b_lvl B + 1\<rparr> acc (ps @ [b_chars B])"
    by (auto simp: buffer_ok_def)
  with False S'(1) re show ?thesis by (auto simp: emptybuffer_def)
qed

lemma prepbuffer_ok:
  assumes "buffer_ok S cap xs B acc ps" "quiet_gc E call" "int (length acc) < VM.MAX_SIZET" "room cap xs" "length ps < 10"
  shows "\<exists>B' S' ps'. luaL_prepbuffer E call B S = Inr (B', S') \<and> reframed S (xs @ map Str ps') S' \<and> buffer_ok S' cap xs B' acc ps' \<and>
    b_chars B' = [] \<and> length ps' < 10"
proof -
  have "length xs + length ps < cap" using assms(4,5) by (simp add: room_def)
  from emptybuffer_ok [OF assms(1,2) this] obtain b B1 S1 ps1 where
    1: "emptybuffer E call B S = Inr (b, B1, S1)" "reframed S (xs @ map Str ps1) S1" "buffer_ok S1 cap xs B1 acc ps1"
      "b_chars B1 = []" "ps1 = (if b then ps @ [b_chars B] else ps)" by blast
  show ?thesis
  proof (cases b)
    case False
    with 1 assms(5) show ?thesis by (auto simp: luaL_prepbuffer_def)
  next
    case True
    then have "length ps1 \<le> 11" "length xs \<le> cap" using 1(5) assms(4,5) by (simp_all add: room_def)
    from adjuststack_ok [OF 1(3) assms(2,3) this] obtain B2 S2 ps2 where
      "adjuststack E call B1 S1 = Inr (B2, S2)" "reframed S1 (xs @ map Str ps2) S2" "buffer_ok S2 cap xs B2 acc ps2"
      "b_chars B2 = b_chars B1" "length ps2 < 10" by blast
    with 1 True show ?thesis by (auto simp: luaL_prepbuffer_def intro: reframed_trans)
  qed
qed

lemma addchar_ok:
  assumes "buffer_ok S cap xs B acc ps" "quiet_gc E call" "int (length acc) < VM.MAX_SIZET" "room cap xs" "length ps < 10"
  shows "\<exists>B' S' ps'. luaL_addchar E call c B S = Inr (B', S') \<and> reframed S (xs @ map Str ps') S' \<and>
    buffer_ok S' cap xs B' (acc @ [c]) ps' \<and> length ps' < 10"
proof (cases "int (length (b_chars B)) < LUAL_BUFFERSIZE")
  case True
  then have "buffer_ok S cap xs (B\<lparr>b_chars := b_chars B @ [c]\<rparr>) (acc @ [c]) ps" using assms(1) by (auto simp: buffer_ok_def)
  moreover have "reframed S (xs @ map Str ps) S" using assms(1) holds_refl by (auto simp: buffer_ok_def)
  ultimately show ?thesis using True assms(5) by (auto simp: luaL_addchar_def)
next
  case False
  from prepbuffer_ok [OF assms] obtain B' S' ps' where
    1: "luaL_prepbuffer E call B S = Inr (B', S')" "reframed S (xs @ map Str ps') S'" "buffer_ok S' cap xs B' acc ps'"
      "b_chars B' = []" "length ps' < 10" by blast
  then have "buffer_ok S' cap xs (B'\<lparr>b_chars := b_chars B' @ [c]\<rparr>) (acc @ [c]) ps'"
    by (auto simp: buffer_ok_def LUAL_BUFFERSIZE_def)
  with 1 False show ?thesis by (auto simp: luaL_addchar_def)
qed

lemma addlstring_ok:
  assumes "buffer_ok S cap xs B acc ps" "quiet_gc E call" "int (length (acc @ s)) < VM.MAX_SIZET" "room cap xs" "length ps < 10"
  shows "\<exists>B' S' ps'. luaL_addlstring E call s B S = Inr (B', S') \<and> reframed S (xs @ map Str ps') S' \<and>
    buffer_ok S' cap xs B' (acc @ s) ps' \<and> length ps' < 10"
  using assms
proof (induction s arbitrary: B S acc ps)
  case Nil
  then show ?case by (auto simp: buffer_ok_def intro!: holds_refl)
next
  case (Cons c s)
  have "int (length acc) < VM.MAX_SIZET" using Cons.prems(3) by simp
  from addchar_ok [OF Cons.prems(1,2) this Cons.prems(4,5)] obtain B1 S1 ps1 where
    1: "luaL_addchar E call c B S = Inr (B1, S1)" "reframed S (xs @ map Str ps1) S1" "buffer_ok S1 cap xs B1 (acc @ [c]) ps1" "length ps1 < 10"
    by blast
  from Cons.IH [OF 1(3) Cons.prems(2) _ Cons.prems(4) 1(4)] Cons.prems(3) obtain B2 S2 ps2 where
    "luaL_addlstring E call s B1 S1 = Inr (B2, S2)" "reframed S1 (xs @ map Str ps2) S2" "buffer_ok S2 cap xs B2 ((acc @ [c]) @ s) ps2"
    "length ps2 < 10" by auto
  with 1 show ?case by (auto intro: reframed_trans)
qed

text \<open>The value on top of the pieces, as a string; a number there becomes one.\<close>

lemma tolstring_ok:
  assumes "holds S cap (ys @ [v])" "str_of E v = Some s" "quiet_gc E call"
  shows "\<exists>S'. lua_tolstring E call (- 1) S = Inr (Some s, S') \<and> reframed S (ys @ [Str s]) S'"
proof -
  have i: "index2adr S (- 1) = Inr (Slot (l_base S + int (length ys)))" "index_value S (- 1) = Inr v"
    using holds_index [OF assms(1), of 1] by (simp_all add: nth_append)
  have f: "frame_ok (int cap - int (length (ys @ [v]))) S" "frame S = ys @ [v]" using assms(1) by (simp_all add: holds_def)
  obtain b where b: "l_base S = int b" "l_top S = int b + int (length (frame S))"
    "b + length (frame S) + nat (int cap - int (length (ys @ [v]))) \<le> length (l_stack S)" using f(1) by (rule frame_okE)
  show ?thesis
  proof (cases v)
    case (Str t)
    with i assms(2) holds_refl [OF assms(1)] show ?thesis by (auto simp: lua_tolstring_def index_value_def)
  next
    case (Number n)
    let ?S = "S\<lparr>l_stack := (l_stack S)[b + length ys := Str s]\<rparr>"
    have s: "s = v_num2str E n" using assms(2) Number by (simp add: str_of_def)
    have fk: "l_stack S ! (b + k) = ys ! k" if "k < length ys" for k
      using frame_nth [OF f(1), of k] f(2) b(1) that by (simp add: nth_append)
    have re: "reframed S (ys @ [Str s]) ?S"
      using b f(2) unfolding reframed_def
      by (intro exI [of _ "(l_stack S)[b + length ys := Str s]"]) (auto simp: nth_list_update nth_append fk)
    have "holds ?S cap (ys @ [Str s])" using f by (intro holds_step [OF assms(1) re]) (auto simp: frame_ok_def)
    from holds_index(2) [OF this, of 1] have v': "index_value ?S (- 1) = Inr (Str s)" by (simp add: nth_append)
    have "set_stk (l_base S + int (length ys)) (Str s) S = Inr ?S"
      using b f(2) by (simp add: set_stk_in l_stacksize_def nat_add_distrib)
    then have "lua_tolstring E call (- 1) S = Inr (Some s, ?S)"
      using i Number s v' assms(3) by (simp add: lua_tolstring_def index_value_def adr_tostring_def write_adr_def quiet_gcD)
    with re show ?thesis by blast
  qed (use assms(2) in \<open>auto simp: str_of_def\<close>)
qed

lemma addvalue_ok:
  assumes "holds S cap (xs @ map Str ps @ [v])" "str_of E v = Some s" "b_lvl B = int (length ps)" "concat ps @ b_chars B = acc"
    and "int (length (b_chars B)) \<le> LUAL_BUFFERSIZE" "quiet_gc E call" "int (length (acc @ s)) < VM.MAX_SIZET" "room cap xs"
    and "length ps < 10"
  shows "\<exists>B' S' ps'. luaL_addvalue E call B S = Inr (B', S') \<and> reframed S (xs @ map Str ps') S' \<and>
    buffer_ok S' cap xs B' (acc @ s) ps' \<and> length ps' < 10"
proof -
  obtain S1 where S1: "lua_tolstring E call (- 1) S = Inr (Some s, S1)" "reframed S ((xs @ map Str ps) @ [Str s]) S1"
    using tolstring_ok [of S cap "xs @ map Str ps" v E s call] assms(1,2,6) by auto
  have cap: "length xs + length ps + 1 < cap" using assms(8,9) by (simp add: room_def)
  have h1: "holds S1 cap (xs @ map Str (ps @ [s]))"
    using holds_step [OF assms(1) S1(2)] cap by simp
  have r1: "reframed S (xs @ map Str (ps @ [s])) S1" using S1(2) by simp
  show ?thesis
  proof (cases "int (length s) \<le> LUAL_BUFFERSIZE - int (length (b_chars B))")
    case True
    have f1: "frame_ok (int cap - int (length (xs @ map Str (ps @ [s])))) S1" "frame S1 = xs @ map Str (ps @ [s])"
      using h1 by (simp_all add: holds_def)
    obtain S2 where S2: "lua_settop (- 2) S1 = Inr S2" "reframed S1 (xs @ map Str ps) S2"
      using settop_frame [OF f1(1), of "- 2"] f1(2) by auto
    have "holds S2 cap (xs @ map Str ps)" using cap by (intro holds_step [OF h1 S2(2)]) simp
    then have "buffer_ok S2 cap xs (B\<lparr>b_chars := b_chars B @ s\<rparr>) (acc @ s) ps"
      using assms(3,4) True by (auto simp: buffer_ok_def)
    with True S1(1) S2 r1 assms(9) show ?thesis by (auto simp: luaL_addvalue_def lua_pop_def intro: reframed_trans)
  next
    case False
    have "\<exists>b B2 S2 ps2. emptybuffer E call B S1 = Inr (b, B2, S2) \<and>
      (\<exists>S3. (if b then lua_insert (- 2) S2 else Inr S2) = Inr S3 \<and> reframed S1 (xs @ map Str ps2) S3 \<and>
       buffer_ok S3 cap xs (B2\<lparr>b_lvl := b_lvl B2 + 1\<rparr>) (acc @ s) ps2 \<and> length ps2 \<le> 11)"
    proof (cases "b_chars B = []")
      case True
      have "buffer_ok S1 cap xs (B\<lparr>b_lvl := b_lvl B + 1\<rparr>) (acc @ s) (ps @ [s])"
        using h1 assms(3,4) True by (simp add: buffer_ok_def LUAL_BUFFERSIZE_def)
      moreover have "reframed S1 (xs @ map Str (ps @ [s])) S1" by (rule holds_refl [OF h1])
      moreover have "emptybuffer E call B S1 = Inr (False, B, S1)" using True by (simp add: emptybuffer_def)
      ultimately show ?thesis using assms(9)
        by (intro exI [of _ False] exI [of _ B] exI [of _ S1] exI [of _ "ps @ [s]"] conjI) simp_all
    next
      case ne: False
      let ?ys = "xs @ map Str (ps @ [s])"
      obtain S2 where S2: "lua_pushlstring E call (b_chars B) S1 = Inr S2" "reframed S1 (?ys @ [Str (b_chars B)]) S2"
        using pushstring_holds [OF h1 _ assms(6)] cap by auto
      have h2: "holds S2 cap (?ys @ [Str (b_chars B)])"
        using assms(8,9) by (intro holds_step [OF h1 S2(2)]) (simp add: room_def)
      then have f2: "frame_ok (int cap - int (length (?ys @ [Str (b_chars B)]))) S2" "frame S2 = ?ys @ [Str (b_chars B)]"
        by (simp_all add: holds_def)
      have pos: "frame_pos (length (frame S2)) (- 2) = Some (length xs + length ps)" unfolding f2(2) by (simp add: frame_pos_def)
      have "1 \<le> int cap - int (length (?ys @ [Str (b_chars B)]))" using assms(8,9) by (simp add: room_def)
      from insert_frame [OF f2(1) pos _ this] obtain S3 where
        S3: "lua_insert (- 2) S2 = Inr S3" "reframed S2 ((xs @ map Str ps) @ Str (b_chars B) # [Str s]) S3"
        unfolding f2(2) by (auto simp: LUA_REGISTRYINDEX_def butlast_append)
      have r3: "reframed S1 (xs @ map Str (ps @ [b_chars B, s])) S3" using reframed_trans [OF S2(2) S3(2)] by simp
      have "holds S3 cap (xs @ map Str (ps @ [b_chars B, s]))" using assms(8,9) by (intro holds_step [OF h1 r3]) (simp add: room_def)
      then have "buffer_ok S3 cap xs \<lparr>b_chars = [], b_lvl = b_lvl B + 1 + 1\<rparr> (acc @ s) (ps @ [b_chars B, s])"
        using assms(3,4) by (auto simp: buffer_ok_def LUAL_BUFFERSIZE_def)
      moreover have "emptybuffer E call B S1 = Inr (True, \<lparr>b_chars = [], b_lvl = b_lvl B + 1\<rparr>, S2)"
        using ne S2(1) by (simp add: emptybuffer_def)
      ultimately show ?thesis using S3(1) r3 assms(9)
        by (intro exI [of _ True] exI [of _ "\<lparr>b_chars = [], b_lvl = b_lvl B + 1\<rparr>"] exI [of _ S2]
            exI [of _ "ps @ [b_chars B, s]"] exI [of _ S3] conjI) simp_all
    qed
    then obtain b B2 S2 ps2 S3 where 2: "emptybuffer E call B S1 = Inr (b, B2, S2)"
      "(if b then lua_insert (- 2) S2 else Inr S2) = Inr S3" "reframed S1 (xs @ map Str ps2) S3"
      "buffer_ok S3 cap xs (B2\<lparr>b_lvl := b_lvl B2 + 1\<rparr>) (acc @ s) ps2" "length ps2 \<le> 11" by blast
    from adjuststack_ok [OF 2(4) assms(6,7) 2(5)] assms(8) obtain B4 S4 ps4 where
      4: "adjuststack E call (B2\<lparr>b_lvl := b_lvl B2 + 1\<rparr>) S3 = Inr (B4, S4)" "reframed S3 (xs @ map Str ps4) S4"
      "buffer_ok S4 cap xs B4 (acc @ s) ps4" "length ps4 < 10" by (auto simp: room_def)
    have "reframed S (xs @ map Str ps4) S4" using reframed_trans [OF r1 reframed_trans [OF 2(3) 4(2)]] .
    with False S1(1) 2(1,2) 4 show ?thesis by (auto simp: luaL_addvalue_def)
  qed
qed

lemma pushresult_ok:
  assumes "buffer_ok S cap xs B acc ps" "quiet_gc E call" "int (length acc) < VM.MAX_SIZET" "room cap xs" "length ps < 10"
  shows "\<exists>B' S'. luaL_pushresult E call B S = Inr (B', S') \<and> reframed S (xs @ [Str acc]) S'"
proof -
  have "length xs + length ps < cap" using assms(4,5) by (simp add: room_def)
  from emptybuffer_ok [OF assms(1,2) this] obtain b B1 S1 ps1 where
    1: "emptybuffer E call B S = Inr (b, B1, S1)" "reframed S (xs @ map Str ps1) S1" "buffer_ok S1 cap xs B1 acc ps1" "b_chars B1 = []"
    by blast
  then have h: "holds S1 cap (xs @ map Str ps1)" "b_lvl B1 = int (length ps1)" "concat ps1 = acc" by (simp_all add: buffer_ok_def)
  from concat_holds [OF h(1) _ assms(2)] assms(3,4) h(3) obtain S2 where
    "lua_concat E call (int (length ps1)) S1 = Inr S2" "reframed S1 (xs @ [Str acc]) S2" by (auto simp: room_def)
  with 1 h(2) show ?thesis by (auto simp: luaL_pushresult_def intro: reframed_trans)
qed

subsection \<open>Any sequence of additions\<close>

text \<open>\<open>AddValue\<close> is a value that is pushed and then added by \<open>luaL_addvalue\<close>.\<close>

datatype buf_op = AddChar char | AddString string | AddValue TValue

definition op_text :: "vm_env \<Rightarrow> buf_op \<Rightarrow> string option" where
  "op_text E x = (case x of AddChar c \<Rightarrow> Some [c] | AddString s \<Rightarrow> Some s | AddValue v \<Rightarrow> str_of E v)"

definition buf_run :: "vm_env \<Rightarrow> caller \<Rightarrow> buf_op \<Rightarrow> luaL_Buffer \<Rightarrow> lua_State \<Rightarrow> (luaL_Buffer \<times> lua_State) vres" where
  "buf_run E call x B S = (case x of
     AddChar c \<Rightarrow> luaL_addchar E call c B S
   | AddString s \<Rightarrow> luaL_addlstring E call s B S
   | AddValue v \<Rightarrow> rbind (luaA_pushobject v S) (luaL_addvalue E call B))"

primrec buf_runs :: "vm_env \<Rightarrow> caller \<Rightarrow> buf_op list \<Rightarrow> luaL_Buffer \<Rightarrow> lua_State \<Rightarrow> (luaL_Buffer \<times> lua_State) vres" where
  "buf_runs E call [] B S = Inr (B, S)"
| "buf_runs E call (x # xs) B S = rbind (buf_run E call x B S) (\<lambda>(B, S). buf_runs E call xs B S)"

lemma buf_run_ok:
  assumes "buffer_ok S cap xs B acc ps" "quiet_gc E call" "int (length (acc @ s)) < VM.MAX_SIZET" "room cap xs" "length ps < 10"
    and "op_text E x = Some s"
  shows "\<exists>B' S' ps'. buf_run E call x B S = Inr (B', S') \<and> reframed S (xs @ map Str ps') S' \<and>
    buffer_ok S' cap xs B' (acc @ s) ps' \<and> length ps' < 10"
proof (cases x)
  case (AddChar c)
  with addchar_ok [OF assms(1,2) _ assms(4,5), of c] assms(3,6) show ?thesis by (auto simp: buf_run_def op_text_def)
next
  case (AddString t)
  with addlstring_ok [OF assms(1,2) assms(3) assms(4,5)] assms(6) show ?thesis by (auto simp: buf_run_def op_text_def)
next
  case (AddValue v)
  then have v: "str_of E v = Some s" using assms(6) by (simp add: op_text_def)
  have h: "holds S cap (xs @ map Str ps)" and b: "b_lvl B = int (length ps)" "concat ps @ b_chars B = acc"
      "int (length (b_chars B)) \<le> LUAL_BUFFERSIZE" using assms(1) by (simp_all add: buffer_ok_def)
  have fr: "frame_ok (int cap - int (length (xs @ map Str ps))) S" "frame S = xs @ map Str ps" using h by (simp_all add: holds_def)
  have "1 \<le> int cap - int (length (xs @ map Str ps))" using assms(4,5) by (simp add: room_def)
  from push_frame [OF fr(1) this, of v] fr(2) obtain S1 where
    1: "luaA_pushobject v S = Inr S1" "reframed S (xs @ map Str ps @ [v]) S1" by auto
  have "holds S1 cap (xs @ map Str ps @ [v])" using assms(4,5) by (intro holds_step [OF h 1(2)]) (simp add: room_def)
  from addvalue_ok [OF this v b assms(2,3,4,5)] obtain B2 S2 ps2 where
    2: "luaL_addvalue E call B S1 = Inr (B2, S2)" "reframed S1 (xs @ map Str ps2) S2" "buffer_ok S2 cap xs B2 (acc @ s) ps2"
      "length ps2 < 10" by blast
  from 1(1) 2 reframed_trans [OF 1(2) 2(2)] AddValue show ?thesis by (auto simp: buf_run_def)
qed

lemma buf_runs_ok:
  assumes "buffer_ok S cap xs B acc ps" "quiet_gc E call" "int (length (acc @ concat ts)) < VM.MAX_SIZET" "room cap xs" "length ps < 10"
    and "map (op_text E) ops = map Some ts"
  shows "\<exists>B' S' ps'. buf_runs E call ops B S = Inr (B', S') \<and> reframed S (xs @ map Str ps') S' \<and>
    buffer_ok S' cap xs B' (acc @ concat ts) ps' \<and> length ps' < 10"
  using assms
proof (induction ops arbitrary: B S acc ps ts)
  case Nil
  then show ?case by (auto simp: buffer_ok_def intro!: holds_refl)
next
  case (Cons x ops)
  then obtain s ts' where ts: "ts = s # ts'" "op_text E x = Some s" "map (op_text E) ops = map Some ts'" by (cases ts) auto
  have "int (length (acc @ s)) < VM.MAX_SIZET" using Cons.prems(3) ts(1) by simp
  from buf_run_ok [OF Cons.prems(1,2) this Cons.prems(4,5) ts(2)] obtain B1 S1 ps1 where
    1: "buf_run E call x B S = Inr (B1, S1)" "reframed S (xs @ map Str ps1) S1" "buffer_ok S1 cap xs B1 (acc @ s) ps1" "length ps1 < 10"
    by blast
  from Cons.IH [OF 1(3) Cons.prems(2) _ Cons.prems(4) 1(4) ts(3)] Cons.prems(3) ts(1) obtain B2 S2 ps2 where
    2: "buf_runs E call ops B1 S1 = Inr (B2, S2)" "reframed S1 (xs @ map Str ps2) S2" "buffer_ok S2 cap xs B2 ((acc @ s) @ concat ts') ps2"
    "length ps2 < 10" by auto
  with 1 ts(1) reframed_trans [OF 1(2) 2(2)] show ?case by auto
qed

text \<open>
  A buffer gives the concatenation of what was added: for every sequence of characters, strings, and values that are
  strings or numbers, however the pieces are spread over the array and the stack, the additions and \<open>luaL_pushresult\<close> succeed,
  take no more than twelve slots, and leave one value on the frame, the texts of all additions in order. Nothing else of the state
  changes, as long as the result is shorter than \<open>MAX_SIZET\<close> and a collection leaves the state as it is.
\<close>

theorem buffer_joins:
  assumes "frame_ok m S" "12 \<le> m" "quiet_gc E call" "map (op_text E) ops = map Some ts" "int (length (concat ts)) < VM.MAX_SIZET"
  shows "\<exists>B S'. rbind (buf_runs E call ops luaL_buffinit S) (\<lambda>(B, S). luaL_pushresult E call B S) = Inr (B, S') \<and>
    frame S' = frame S @ [Str (concat ts)] \<and>
    S' = S\<lparr>l_stack := l_stack S', l_top := l_base S + int (length (frame S @ [Str (concat ts)]))\<rparr> \<and>
    take (nat (l_base S)) (l_stack S') = take (nat (l_base S)) (l_stack S)"
proof -
  let ?cap = "length (frame S) + nat m"
  have "int ?cap - int (length (frame S)) = m" using assms(2) by simp
  then have h: "holds S ?cap (frame S)" using assms(1) by (simp add: holds_def)
  then have b: "buffer_ok S ?cap (frame S) luaL_buffinit [] []"
    by (simp add: buffer_ok_def luaL_buffinit_def LUAL_BUFFERSIZE_def)
  have r: "room ?cap (frame S)" using assms(2) by (simp add: room_def)
  from buf_runs_ok [OF b assms(3) _ r _ assms(4)] assms(5) obtain B1 S1 ps1 where
    1: "buf_runs E call ops luaL_buffinit S = Inr (B1, S1)" "reframed S (frame S @ map Str ps1) S1"
      "buffer_ok S1 ?cap (frame S) B1 (concat ts) ps1" "length ps1 < 10" by auto
  from pushresult_ok [OF 1(3) assms(3,5) r 1(4)] obtain B2 S2 where
    2: "luaL_pushresult E call B1 S1 = Inr (B2, S2)" "reframed S1 (frame S @ [Str (concat ts)]) S2" by blast
  note re = reframed_trans [OF 1(2) 2(2)]
  have "0 \<le> l_base S" using assms(1) by (simp add: frame_ok_def)
  with re have "frame S2 = frame S @ [Str (concat ts)]" using reframed_frame by blast
  with 1(1) 2(1) reframed_fields [OF re] show ?thesis by (intro exI [of _ B2] exI [of _ S2]) auto
qed

text \<open>A value, a string longer than the array, and a character.\<close>

theorem buffer_joins_witness:
  "\<exists>B S'. rbind (buf_runs sample_env no_call [AddValue (Number 0), AddString (replicate 9000 (CHR ''a'')), AddChar (CHR ''b'')]
      luaL_buffinit two_values) (\<lambda>(B, S). luaL_pushresult sample_env no_call B S) = Inr (B, S') \<and>
    frame S' = [Boolean True, Str ''x'', Str (''0'' @ replicate 9000 (CHR ''a'') @ ''b'')]"
proof -
  have f: "frame two_values = [Boolean True, Str ''x'']" by code_simp
  have ok: "frame_ok 12 two_values" by (simp add: frame_ok_def two_values_def stack_init_def no_state_def l_stacksize_def)
  have q: "quiet_gc sample_env no_call" by (simp add: quiet_gc_def sample_env_def)
  have t: "map (op_text sample_env) [AddValue (Number 0), AddString (replicate 9000 (CHR ''a'')), AddChar (CHR ''b'')]
      = map Some [''0'', replicate 9000 (CHR ''a''), ''b'']"
    by (simp add: op_text_def str_of_def sample_env_def del: replicate.simps)
  have "int (length (concat [''0'', replicate 9000 (CHR ''a''), ''b''])) < VM.MAX_SIZET"
    by (simp add: VM.MAX_SIZET_def del: replicate.simps)
  from buffer_joins [OF ok _ q t this] f show ?thesis by (auto simp del: replicate.simps)
qed

end
