(* ===== verification/Spec2Isabelle.thy ===== *)
theory Spec2Isabelle
  imports Opcodes PbEncode PbDecode PbPool Objects StrGsub StrFormat ChunkProps LexerQuote CodeGenProps CodeSafe TabProps VMSafe MetaProps Concat ApiProps AuxProps
begin

text \<open>
  luapb encodes Lua tables as protocol buffer messages and decodes them, driven by a message
  descriptor that is loaded at run time; it carries the Lua 5.1 interpreter it is embedded in. This
  library models both, from the C and C++ sources, and proves what makes them correct.

  Conventions. A step that can fail returns \<open>'a res\<close>, a sum: \<open>Inl (LuaError status msg)\<close> is a
  \<open>luaD_throw\<close> with its message, \<open>Inl (UB what)\<close> an operation that the C standard leaves undefined
  (an access outside an object, a failed \<open>lua_assert\<close>, a signed overflow), so that safety is a
  theorem and not an assumption. State is passed explicitly. Machine words are words; lengths and
  \<open>size_t\<close> values are naturals with the reduction written out where the code can wrap. Allocation
  succeeds, and the sizes are those of a 64-bit machine. What is not in the repository (protobuf's
  descriptor classes, the C library's number conversion and locale, the client's reader and
  writer) is a parameter.

  The parts.
  \<^item> \<open>Prelude\<close>, \<open>Ctype\<close>: results, checked arrays, character classes, strings.
  \<^item> luapb (\<open>src/src\<close>): \<open>PbWire\<close> is \<open>Stream.cpp\<close>, \<open>PbEncode\<close> is \<open>ByteSize.cpp\<close> and \<open>Encoder.cpp\<close>,
    \<open>PbDecode\<close> is \<open>Decoder.cpp\<close>, \<open>PbPool\<close> is \<open>DescPool.cpp\<close> and \<open>Utility.cpp\<close>. The lemmas show when
    the size that is computed is the size that is written, and when it is not (a single message
    field, 64-bit fields; the sizes are summed in a signed \<open>int\<close>, whose overflow is undefined), that
    decoding returns, that after an unknown field's tag its payload is decoded as fields, for every
    schema and payload, and the life of the registry.
  \<^item> Values: \<open>Number\<close> holds IEEE doubles as 64-bit words with exact rounding (\<open>luaconf.h\<close>),
    \<open>Objects\<close> is \<open>lobject.c\<close>, \<open>Opcodes\<close> is \<open>lopcodes.c\<close>.
  \<^item> The string library (\<open>lstrlib.c\<close>): \<open>StrMatch\<close>, \<open>StrMatchProps\<close>, \<open>StrLib\<close>, \<open>StrGsub\<close>,
    \<open>StrFormat\<close>. Every function is memory safe on every argument; the searches find the first
    occurrence; formatting never overruns its buffers.
  \<^item> Precompiled chunks: \<open>Zio\<close> is \<open>lzio.c\<close> with the contract \<open>byte_source\<close> that its clients rely on,
    \<open>Chunk\<close> and \<open>ChunkProps\<close> are \<open>ldump.c\<close> and \<open>lundump.c\<close>: a dump loads back to the function, and
    loading arbitrary bytes stays inside its buffers.
  \<^item> The compiler: \<open>Lexer\<close>, \<open>LexerProps\<close>, \<open>LexerQuote\<close> are \<open>llex.c\<close>: every call is safe and
    returns a token with the right kind of value, and the output of \<open>%q\<close> is read back. Of the parser,
    only what \<open>open_func\<close> does to the \<open>LexState\<close> is there: strings are anchored in the table of the current function,
    and without one \<open>luaX_newstring\<close> is undefined. \<open>CodeGen\<close>,
    \<open>CodeGenProps\<close> are \<open>lcode.c\<close>: jump lists refine lists of positions, patching sends each jump to
    its target and rewrites the tests that control the jumps of the list, an \<open>OP_LOADNIL\<close> that is merged into the previous one
    has the effect of a separate one from every jump target, constants are found again.
  \<^item> Tables: \<open>Table\<close> is \<open>ltable.c\<close>, over any total conversion of numbers to \<open>int\<close> (see there). \<open>TableInv\<close> has the invariant (chains of nodes, their main positions,
    the free pointer), searching and the insertion of a key; \<open>TableSize\<close> the counting that a rehash
    rests on; \<open>TableProps\<close> shows that setting and rehashing refine a map and that a rehash makes room;
    \<open>TableScan\<close> has the length operator and the traversal with \<open>next\<close>.
  \<^item> The library for tables (\<open>ltablib.c\<close>): \<open>TabLib\<close> has its functions, over raw reads and writes of a store;
    \<open>TabSort\<close> and \<open>TabList\<close> prove sorting, insertion and removal under the contract of such a store
    (\<open>int_store\<close>, \<open>list_store\<close>, \<open>ordered_store\<close>), and \<open>TabProps\<close> shows that tables satisfy it. \<open>Compare\<close> has the
    comparisons of \<open>lvm.c\<close>; with \<open>strcmp\<close> the order of strings is the lexicographic one, zero bytes included.
  \<^item> The check of precompiled code (\<open>ldebug.c\<close>): \<open>CodeCheck\<close> is \<open>symbexec\<close> and \<open>luaG_checkcode\<close>, \<open>CodeSafe\<close> shows
    what acceptance gives the interpreter, provided that the third operand of every \<open>OP_LOADBOOL\<close> is 0 or 1, and
    that the check does not demand this.
  \<^item> The interpreter: \<open>State\<close> has the state of a thread, upvalues and closures (\<open>lstate.h\<close>, \<open>lfunc.c\<close>) and the lookup
    of metamethods (\<open>ltm.c\<close>), \<open>Debug\<close> the debug interface and the error messages (\<open>ldebug.c\<close>), \<open>Do\<close> calls, hooks,
    protected calls and coroutines (\<open>ldo.c\<close>), \<open>VM\<close> and \<open>VMExec\<close> the virtual machine (\<open>lvm.c\<close>), each instruction a
    definition. A step ends in a state, throws with a state (\<open>Throw\<close>), is undefined (\<open>Undef\<close>) or runs out of fuel.
    \<open>StateProps\<close>: upvalues are shared and keep their values when they are closed. \<open>MetaProps\<close>: the cache of absent
    metamethods is exact, indexing refines the walk along the handlers, and two assignments that go wrong.
    \<open>VMSafe\<close>: over code that the loader accepted, each instruction goes on at a position that the check foresaw, whatever the
    metamethods, hooks and C functions on the way do, so the interpreter stays inside the code. \<open>Concat\<close>:
    \<open>OP_CONCAT\<close> joins the texts of its operands.
  \<^item> The C interface: \<open>Api\<close> is \<open>lapi.c\<close>, indices resolved to places (\<open>adr\<close>), values pushed on and taken off the frame of the
    C function; \<open>ApiProps\<close> shows that sequences of its stack functions refine operations on a list. \<open>AuxLib\<close> is \<open>lauxlib.c\<close> over it:
    errors, checks of arguments, metatables, registration, buffers, references, loading from memory; \<open>AuxProps\<close> shows
    that a buffer gives the concatenation of what was added. What \<open>api_check\<close> would check, and does not in this configuration, is a
    condition of the theorems.

  How the parts meet. The lexical analyser and the loader read through \<open>byte_source\<close>, which \<open>Zio\<close>
  provides; \<open>Lexer\<close> writes error messages through \<open>luaO_chunkid\<close> and \<open>luaO_pushvfstring\<close> of
  \<open>Objects\<close> and converts numerals by \<open>luaO_str2d\<close>; \<open>CodeGen\<close> keeps the analyser's state, from which
  it takes the line of an instruction and the table of constants, and packs instructions by
  \<open>Opcodes\<close>; \<open>StrFormat\<close> writes what \<open>Lexer\<close> reads.

  Fuel. Decoding a message takes fuel, and \<open>RawDecode_returns\<close> shows that the bytes of the input
  are enough; a walk along a chain of nodes takes at most as many steps as there are nodes, a rehash
  is never nested (\<open>GROW_DEPTH\<close>), as \<open>luaH_set_refines\<close> shows; a walk along a jump list takes one step per instruction and one more, which is
  enough for every list that ends (\<open>luaK_concat_refines\<close>, \<open>patchlistaux_targets\<close>); sorting nests
  as many calls as there are elements at most when the order function is an order (\<open>tsort_sorts\<close>). \<open>luaD_call\<close> takes the depth of nested calls of C,
  which \<open>LUAI_MAXCCALLS\<close> bounds in the code, and as many instructions for each. All other loops
  are recursion with a termination proof.

  Not modelled. LuaBridge and the binding of luapb to it, the operating system and
  mathematical libraries, the stand-alone programs. The parser, the basic library, files and new states of the
  auxiliary library, the functions of the C interface on several threads, and the collector are left; a collection is
  a parameter of the interpreter. The branches of \<open>luaF_findupval\<close> and \<open>luaF_close\<close> for dead upvalues belong to the collector.
\<close>

end
